(* ===== verification/Prelude.thy ===== *)
theory Prelude
  imports Complex_Main "HOL-Library.Word"
begin

text \<open>
  Shared vocabulary of the development: the machine integers of the Rust sources, byte slices
  with the checked accessors the code uses (\<open>get\<close>, \<open>get(a..b)\<close>, \<open>copy_from_slice\<close>), big and
  little endian encodings, \<open>usize\<close> arithmetic at 64 bits, and the transition-system locale in
  which every invariant of the state machines is lifted to all reachable states.
\<close>

unbundle bit_operations_syntax

section \<open>Machine integers\<close>

type_synonym byte = "8 word"
type_synonym u16 = "16 word"
type_synonym u32 = "32 word"
type_synonym u64 = "64 word"
type_synonym bytes = "8 word list"

text \<open>\<open>usize\<close> is a \<^typ>\<open>nat\<close>; the checked operations of a 64-bit target are written out.\<close>

definition usize_bound :: nat where
  "usize_bound = 2 ^ 64"

definition usize_checked_add :: "nat \<Rightarrow> nat \<Rightarrow> nat option" where
  "usize_checked_add a b = (if a + b < usize_bound then Some (a + b) else None)"

definition usize_checked_mul :: "nat \<Rightarrow> nat \<Rightarrow> nat option" where
  "usize_checked_mul a b = (if a * b < usize_bound then Some (a * b) else None)"

definition usize_saturating_add :: "nat \<Rightarrow> nat \<Rightarrow> nat" where
  "usize_saturating_add a b = min (a + b) (usize_bound - 1)"

text \<open>Saturating and checked arithmetic on fixed-width words.\<close>

definition sat_add :: "'a::len word \<Rightarrow> 'a word \<Rightarrow> 'a word" where
  "sat_add a b = (if unat a + unat b < 2 ^ LENGTH('a) then a + b else - 1)"

definition sat_sub :: "'a::len word \<Rightarrow> 'a word \<Rightarrow> 'a word" where
  "sat_sub a b = (if b \<le> a then a - b else 0)"

definition sat_mul :: "'a::len word \<Rightarrow> 'a word \<Rightarrow> 'a word" where
  "sat_mul a b = (if unat a * unat b < 2 ^ LENGTH('a) then a * b else - 1)"

definition chk_add :: "'a::len word \<Rightarrow> 'a word \<Rightarrow> 'a word option" where
  "chk_add a b = (if unat a + unat b < 2 ^ LENGTH('a) then Some (a + b) else None)"

text \<open>Conversions that fail instead of truncating: \<open>u16::try_from(n)\<close>, \<open>u32::try_from(n)\<close>.\<close>

definition u16_try_from :: "nat \<Rightarrow> u16 option" where
  "u16_try_from n = (if n < 2 ^ 16 then Some (of_nat n) else None)"

definition u32_try_from :: "nat \<Rightarrow> u32 option" where
  "u32_try_from n = (if n < 2 ^ 32 then Some (of_nat n) else None)"

lemma u16_try_from_Some: "u16_try_from n = Some w \<longleftrightarrow> n < 2 ^ 16 \<and> w = of_nat n"
  by (auto simp: u16_try_from_def)

lemma u32_try_from_Some: "u32_try_from n = Some w \<longleftrightarrow> n < 2 ^ 32 \<and> w = of_nat n"
  by (auto simp: u32_try_from_def)

lemma unat_of_nat_16: "n < 2 ^ 16 \<Longrightarrow> unat (of_nat n :: u16) = n"
  by (simp add: unat_of_nat take_bit_nat_eq_self)

lemma unat_of_nat_32: "n < 2 ^ 32 \<Longrightarrow> unat (of_nat n :: u32) = n"
  by (simp add: unat_of_nat take_bit_nat_eq_self)

lemma unat_lt_u32: "unat (w :: u32) < 4294967296"
  using unsigned_less [of w] by simp

lemma unat_lt_u16: "unat (w :: u16) < 65536"
  using unsigned_less [of w] by simp

lemma unat_sat_add: "unat (sat_add a b :: 'a::len word) = min (unat a + unat b) (2 ^ LENGTH('a) - 1)"
  by (auto simp: sat_add_def unat_word_ariths unsigned_minus_1_eq_mask mask_eq_exp_minus_1)

lemma sat_add_mono: "a \<le> sat_add a (b :: 'a::len word)"
  using unsigned_less [where 'a = nat, of a]
  by (simp add: word_le_nat_alt unat_sat_add del: unsigned_less)

section \<open>Slices\<close>

text \<open>\<open>xs.get(i)\<close>, \<open>xs.get(a..b)\<close>, \<open>xs.get(a..)\<close> and the write \<open>xs[a..].copy_from_slice(src)\<close>.\<close>

definition get_at :: "'a list \<Rightarrow> nat \<Rightarrow> 'a option" where
  "get_at xs i = (if i < length xs then Some (xs ! i) else None)"

definition get_range :: "'a list \<Rightarrow> nat \<Rightarrow> nat \<Rightarrow> 'a list option" where
  "get_range xs a b = (if a \<le> b \<and> b \<le> length xs then Some (take (b - a) (drop a xs)) else None)"

definition get_from :: "'a list \<Rightarrow> nat \<Rightarrow> 'a list option" where
  "get_from xs a = (if a \<le> length xs then Some (drop a xs) else None)"

definition put_at :: "'a list \<Rightarrow> nat \<Rightarrow> 'a list \<Rightarrow> 'a list" where
  "put_at xs a src = take a xs @ src @ drop (a + length src) xs"

lemma get_at_Some: "get_at xs i = Some x \<longleftrightarrow> i < length xs \<and> x = xs ! i"
  by (auto simp: get_at_def)

lemma get_range_length: "get_range xs a b = Some ys \<Longrightarrow> length ys = b - a"
  by (auto simp: get_range_def split: if_splits)

lemma length_put_at [simp]: "a + length src \<le> length xs \<Longrightarrow> length (put_at xs a src) = length xs"
  by (simp add: put_at_def)

lemma take_drop_put_at_same:
  "a + length src \<le> length xs \<Longrightarrow> take (length src) (drop a (put_at xs a src)) = src"
  by (simp add: put_at_def)

lemma take_drop_put_at_before:
  "a + n \<le> b \<Longrightarrow> b + length src \<le> length xs \<Longrightarrow>
     take n (drop a (put_at xs b src)) = take n (drop a xs)"
  by (simp add: put_at_def drop_take)

lemma take_drop_put_at_after:
  "b + length src \<le> a \<Longrightarrow> b + length src \<le> length xs \<Longrightarrow>
     drop a (put_at xs b src) = drop a xs"
  by (simp add: put_at_def)

lemma put_at_prefix: "length src \<le> length xs \<Longrightarrow> take (length src) (put_at xs 0 src) = src"
  by (simp add: put_at_def)

lemma put_at_append:
  "w + length a + length b \<le> length xs \<Longrightarrow> put_at (put_at xs w a) (w + length a) b = put_at xs w (a @ b)"
  by (simp add: put_at_def ac_simps)

lemma put_at_Nil [simp]: "w \<le> length xs \<Longrightarrow> put_at xs w [] = xs"
  by (simp add: put_at_def)

lemma length_2_conv: "length xs = 2 \<longleftrightarrow> (\<exists>a b. xs = [a, b])"
  by (auto simp: length_Suc_conv numeral_eq_Suc)

lemma length_4_conv: "length xs = 4 \<longleftrightarrow> (\<exists>a b c d. xs = [a, b, c, d])"
  by (auto simp: length_Suc_conv numeral_eq_Suc)

section \<open>Byte order\<close>

definition to_be16 :: "u16 \<Rightarrow> bytes" where
  "to_be16 w = [ucast (drop_bit 8 w), ucast w]"

definition of_be16 :: "byte \<Rightarrow> byte \<Rightarrow> u16" where
  "of_be16 a b = push_bit 8 (ucast a) OR ucast b"

definition to_be32 :: "u32 \<Rightarrow> bytes" where
  "to_be32 w = [ucast (drop_bit 24 w), ucast (drop_bit 16 w), ucast (drop_bit 8 w), ucast w]"

definition of_be32 :: "byte \<Rightarrow> byte \<Rightarrow> byte \<Rightarrow> byte \<Rightarrow> u32" where
  "of_be32 a b c d =
     push_bit 24 (ucast a) OR push_bit 16 (ucast b) OR push_bit 8 (ucast c) OR ucast d"

definition to_be64 :: "u64 \<Rightarrow> bytes" where
  "to_be64 w = to_be32 (ucast (drop_bit 32 w)) @ to_be32 (ucast w)"

definition of_be64 :: "bytes \<Rightarrow> u64" where
  "of_be64 bs = push_bit 32 (ucast (of_be32 (bs ! 0) (bs ! 1) (bs ! 2) (bs ! 3)))
     OR ucast (of_be32 (bs ! 4) (bs ! 5) (bs ! 6) (bs ! 7))"

lemma length_to_be [simp]:
  "length (to_be16 w2) = 2" "length (to_be32 w4) = 4" "length (to_be64 w8) = 8"
  by (simp_all add: to_be16_def to_be32_def to_be64_def)

lemma of_be16_split [simp]: "of_be16 (ucast (drop_bit 8 w)) (ucast w) = w"
proof (rule bit_word_eqI)
  fix n assume "n < LENGTH(16)"
  then show "bit (of_be16 (ucast (drop_bit 8 w)) (ucast w)) n \<longleftrightarrow> bit w n"
    by (cases "n < 8") (auto simp: of_be16_def bit_simps)
qed

lemma of_be32_split [simp]:
  "of_be32 (ucast (drop_bit 24 w)) (ucast (drop_bit 16 w)) (ucast (drop_bit 8 w)) (ucast w) = w"
proof (rule bit_word_eqI)
  fix n assume "n < LENGTH(32)"
  then show "bit (of_be32 (ucast (drop_bit 24 w)) (ucast (drop_bit 16 w)) (ucast (drop_bit 8 w))
      (ucast w)) n \<longleftrightarrow> bit w n"
    by (cases "n < 8"; cases "n < 16"; cases "n < 24") (auto simp: of_be32_def bit_simps)
qed

lemma to_be16_of_be16 [simp]: "to_be16 (of_be16 a b) = [a, b]"
proof -
  have "ucast (drop_bit 8 (of_be16 a b)) = a"
    by (rule bit_word_eqI) (auto simp: of_be16_def bit_simps dest: bit_imp_le_length)
  moreover have "ucast (of_be16 a b) = b"
    by (rule bit_word_eqI) (auto simp: of_be16_def bit_simps dest: bit_imp_le_length)
  ultimately show ?thesis by (simp add: to_be16_def)
qed

lemma to_be32_of_be32 [simp]: "to_be32 (of_be32 a b c d) = [a, b, c, d]"
proof -
  have "ucast (drop_bit 24 (of_be32 a b c d)) = a"
    by (rule bit_word_eqI) (auto simp: of_be32_def bit_simps dest: bit_imp_le_length)
  moreover have "ucast (drop_bit 16 (of_be32 a b c d)) = b"
    by (rule bit_word_eqI) (auto simp: of_be32_def bit_simps dest: bit_imp_le_length)
  moreover have "ucast (drop_bit 8 (of_be32 a b c d)) = c"
    by (rule bit_word_eqI) (auto simp: of_be32_def bit_simps dest: bit_imp_le_length)
  moreover have "ucast (of_be32 a b c d) = d"
    by (rule bit_word_eqI) (auto simp: of_be32_def bit_simps dest: bit_imp_le_length)
  ultimately show ?thesis by (simp add: to_be32_def)
qed

lemma of_be64_to_be64 [simp]: "of_be64 (to_be64 w @ rest) = w"
proof (rule bit_word_eqI)
  fix n assume "n < LENGTH(64)"
  moreover have "of_be64 (to_be64 w @ rest) =
      push_bit 32 (ucast (ucast (drop_bit 32 w) :: u32)) OR ucast (ucast w :: u32)"
    by (simp add: of_be64_def to_be64_def to_be32_def)
  ultimately show "bit (of_be64 (to_be64 w @ rest)) n \<longleftrightarrow> bit w n"
    by (cases "n < 32") (auto simp: bit_simps)
qed

lemma to_be64_of_be64: "length bs = 8 \<Longrightarrow> to_be64 (of_be64 bs) = bs"
proof -
  have hi: "ucast (drop_bit 32 (push_bit 32 (ucast a) OR ucast b :: u64)) = a" for a b :: u32
    by (rule bit_word_eqI) (auto simp: bit_simps dest: bit_imp_le_length)
  have lo: "ucast (push_bit 32 (ucast a) OR ucast b :: u64) = b" for a b :: u32
    by (rule bit_word_eqI) (auto simp: bit_simps dest: bit_imp_le_length)
  assume "length bs = 8"
  then obtain b0 b1 b2 b3 b4 b5 b6 b7 where "bs = [b0, b1, b2, b3, b4, b5, b6, b7]"
    by (auto simp: length_Suc_conv numeral_eq_Suc)
  then have e: "of_be64 bs = push_bit 32 (ucast (of_be32 b0 b1 b2 b3)) OR ucast (of_be32 b4 b5 b6 b7)"
    and bs: "bs = [b0, b1, b2, b3] @ [b4, b5, b6, b7]" by (simp_all add: of_be64_def)
  show ?thesis unfolding to_be64_def e hi lo by (simp add: bs)
qed

lemma of_be64_id [simp]: "of_be64 (to_be64 w) = w"
  using of_be64_to_be64 [of w "[]"] by simp

lemma to_be64_inject [simp]: "to_be64 a = to_be64 b \<longleftrightarrow> a = b"
  by (metis of_be64_id)

lemma and_single_bit: "(f :: 'a::len word) AND push_bit k 1 = (if bit f k then push_bit k 1 else 0)"
  by (rule bit_word_eqI) (auto simp: bit_simps)

lemma to_be64_hd: "hd (to_be64 w) AND 0x80 = 0 \<longleftrightarrow> \<not> bit w 63"
proof -
  have "to_be64 w ! 0 = ucast (drop_bit 24 (ucast (drop_bit 32 w) :: u32))"
    by (simp add: to_be64_def to_be32_def)
  moreover have "(b AND 0x80 = 0) \<longleftrightarrow> \<not> bit b 7" for b :: byte
    using and_single_bit [of b 7] by simp
  ultimately show ?thesis by (simp add: bit_simps hd_conv_nth to_be64_def to_be32_def)
qed

section \<open>Serial cursors\<close>

text \<open>
  Loops of the sources that walk a \<open>u32\<close> cursor with \<open>wrapping_add(1)\<close> until it meets a bound
  terminate because the wrapping distance to the bound shrinks.
\<close>

lemma unat_dist_Suc: "c \<noteq> h \<Longrightarrow> unat (h - c :: 'a::len word) = Suc (unat (h - (c + 1)))"
proof -
  assume "c \<noteq> h"
  then have "h - c \<noteq> 0" by simp
  then have "unat (h - c - 1) = unat (h - c) - 1" and "0 < unat (h - c)"
    by (simp_all add: unat_minus_one unat_gt_0)
  moreover have "h - (c + 1) = h - c - 1" by simp
  ultimately show ?thesis by (metis Suc_pred One_nat_def)
qed

lemma unat_dist_less: "c \<noteq> h \<Longrightarrow> unat (h - (c + 1) :: 'a::len word) < unat (h - c)"
  by (simp add: unat_dist_Suc)

lemma unat_add_of_nat_u32:
  "unat (s :: u32) + n < 4294967296 \<Longrightarrow> unat (s + of_nat n) = unat s + n"
  by (subst unat_add_lem [THEN iffD1]) (simp_all add: unat_of_nat_32)

text \<open>Evaluation on concrete states: minus one as a \<open>u32\<close>, and literal-length storage.\<close>

lemma unat_minus_one_u32 [simp]: "unat (- 1 :: u32) = 4294967295"
  by (simp add: unsigned_minus_1_eq_mask mask_eq_exp_minus_1)

lemma replicate_rec: "replicate (numeral k) x = x # replicate (pred_numeral k) x"
  by (simp add: numeral_eq_Suc)

section \<open>Slot arenas\<close>

text \<open>
  Both rings keep \<open>n\<close> slots of \<open>sl\<close> bytes in one flat arena and address sequence \<open>k\<close> at slot
  \<open>k mod n\<close>: inside a window of \<open>n\<close> sequences slots do not collide, regions stay in the arena, and
  writing one slot leaves the others alone.
\<close>

lemma mod_window_inj:
  "k mod n = k' mod n \<Longrightarrow> d \<le> k \<Longrightarrow> k < d + n \<Longrightarrow> d \<le> k' \<Longrightarrow> k' < d + n \<Longrightarrow> k = (k' :: nat)"
proof (induction k k' rule: linorder_wlog)
  case (le a b)
  then have "n dvd b - a" by (metis mod_eq_dvd_iff_nat)
  with le show ?case by (auto dest: dvd_imp_le)
qed auto

lemma slot_region:
  "j < n \<Longrightarrow> l \<le> sl \<Longrightarrow> j * sl + l \<le> n * (sl :: nat)"
proof -
  assume "j < n" "l \<le> sl"
  then have "j * sl + l \<le> Suc j * sl" by simp
  also have "\<dots> \<le> n * sl" using \<open>j < n\<close> by (intro mult_right_mono) auto
  finally show ?thesis .
qed

lemma region_put_other:
  assumes "j < n" "j' < n" "j' \<noteq> j" "length b \<le> sl" "l \<le> sl" "length bodies = n * sl"
  shows "take l (drop (j' * sl) (put_at bodies (j * sl) b)) = take l (drop (j' * sl) bodies)"
proof (cases "j' < j")
  case True
  have "j * sl + length b \<le> length bodies" using slot_region [OF assms(1,4)] assms(6) by simp
  then show ?thesis using slot_region [OF True assms(5)] by (rule take_drop_put_at_before [rotated])
next
  case False
  with assms(3) have "j < j'" by simp
  then have "j * sl + length b \<le> j' * sl" using slot_region [OF _ assms(4)] by blast
  moreover have "j * sl + length b \<le> length bodies" using slot_region [OF assms(1,4)] assms(6) by simp
  ultimately show ?thesis using take_drop_put_at_after by metis
qed

section \<open>Transition systems\<close>

text \<open>
  A component is a state type, its initial states and its steps. \<open>reachable\<close> is the least set of
  states that holds the initial ones and is closed under steps.
\<close>

inductive reachable :: "('s \<Rightarrow> bool) \<Rightarrow> ('s \<Rightarrow> 's \<Rightarrow> bool) \<Rightarrow> 's \<Rightarrow> bool"
  for start :: "'s \<Rightarrow> bool" and step :: "'s \<Rightarrow> 's \<Rightarrow> bool" where
  reach_start: "start s \<Longrightarrow> reachable start step s"
| reach_step: "reachable start step s \<Longrightarrow> step s t \<Longrightarrow> reachable start step t"

locale invariant_system =
  fixes start :: "'s \<Rightarrow> bool" and step :: "'s \<Rightarrow> 's \<Rightarrow> bool" and inv :: "'s \<Rightarrow> bool"
  assumes start_inv: "start s \<Longrightarrow> inv s"
    and step_inv: "inv s \<Longrightarrow> step s t \<Longrightarrow> inv t"
begin

lemma reachable_inv: "reachable start step s \<Longrightarrow> inv s"
  by (induction rule: reachable.induct) (blast intro: start_inv step_inv)+

lemma reachable_steps: "step\<^sup>*\<^sup>* s t \<Longrightarrow> inv s \<Longrightarrow> inv t"
  by (induction rule: rtranclp_induct) (blast intro: step_inv)+

end

text \<open>
  A wire format: an encoder that is defined on the well-formed values and a parser that reads back
  what the encoder wrote.
\<close>

locale wire_codec =
  fixes wf :: "'a \<Rightarrow> bool" and encode :: "'a \<Rightarrow> bytes" and parse :: "bytes \<Rightarrow> 'e + 'b"
    and view :: "'a \<Rightarrow> 'b"
  assumes parse_encode: "wf x \<Longrightarrow> parse (encode x) = Inr (view x)"
begin

lemma encode_view_inj: "wf x \<Longrightarrow> wf y \<Longrightarrow> encode x = encode y \<Longrightarrow> view x = view y"
  using parse_encode [of x] parse_encode [of y] by simp

lemma parse_encode_ok: "wf x \<Longrightarrow> \<exists>v. parse (encode x) = Inr v"
  by (simp add: parse_encode)

end

end
