(* ===== verification/F64.thy ===== *)
theory F64
  imports Prelude
begin

text \<open>
  IEEE 754 binary64, the \<open>f64\<close> of the sources: every timestamp, rate and token count of the
  transport is one. A value is a NaN, an infinity or a rational; arithmetic computes the exact
  rational result and rounds it to the nearest double, ties to even, with gradual underflow and
  overflow to infinity. Zero has no sign: no modelled code divides by zero or reads a sign bit.
\<close>

datatype f64 = NaN | PInf | NInf | Fin rat

section \<open>Rounding\<close>

definition rne :: "rat \<Rightarrow> int" where
  "rne x = (let f = \<lfloor>x\<rfloor>; d = x - of_int f in
     if d < 1 / 2 then f else if 1 / 2 < d then f + 1 else if even f then f else f + 1)"

text \<open>The number of bits of a natural number, and the binary exponent of a positive rational.\<close>

fun bits :: "nat \<Rightarrow> nat" where
  "bits n = (if n = 0 then 0 else Suc (bits (n div 2)))"

declare bits.simps [simp del]

definition bexp :: "rat \<Rightarrow> int" where
  "bexp x = (let (n, d) = quotient_of x; e = int (bits (nat n)) - int (bits (nat d)) in
     if x < 2 powi e then e - 1 else e)"

definition qexp :: "rat \<Rightarrow> int" where
  "qexp x = (if x = 0 then -1074 else max (bexp \<bar>x\<bar> - 52) (-1074))"

definition rnd_rat :: "rat \<Rightarrow> rat" where
  "rnd_rat x = of_int (rne (x / 2 powi qexp x)) * 2 powi qexp x"

definition rnd :: "rat \<Rightarrow> f64" where
  "rnd x = (let r = rnd_rat x in
     if 2 ^ 1024 \<le> r then PInf else if r \<le> - (2 ^ 1024) then NInf else Fin r)"

section \<open>Arithmetic and comparison\<close>

fun fneg :: "f64 \<Rightarrow> f64" where
  "fneg NaN = NaN" | "fneg PInf = NInf" | "fneg NInf = PInf" | "fneg (Fin a) = Fin (- a)"

fun fadd :: "f64 \<Rightarrow> f64 \<Rightarrow> f64" where
  "fadd (Fin a) (Fin b) = rnd (a + b)"
| "fadd NaN b = NaN"
| "fadd a NaN = NaN"
| "fadd PInf NInf = NaN"
| "fadd NInf PInf = NaN"
| "fadd PInf b = PInf"
| "fadd NInf b = NInf"
| "fadd (Fin a) b = b"

definition fsub :: "f64 \<Rightarrow> f64 \<Rightarrow> f64" where
  "fsub a b = fadd a (fneg b)"

definition finf :: "bool \<Rightarrow> f64" where
  "finf positive = (if positive then PInf else NInf)"

fun fmul :: "f64 \<Rightarrow> f64 \<Rightarrow> f64" where
  "fmul (Fin a) (Fin b) = rnd (a * b)"
| "fmul NaN b = NaN"
| "fmul a NaN = NaN"
| "fmul PInf PInf = PInf"
| "fmul PInf NInf = NInf"
| "fmul NInf PInf = NInf"
| "fmul NInf NInf = PInf"
| "fmul PInf (Fin b) = (if b = 0 then NaN else finf (0 < b))"
| "fmul NInf (Fin b) = (if b = 0 then NaN else finf (b < 0))"
| "fmul (Fin a) PInf = (if a = 0 then NaN else finf (0 < a))"
| "fmul (Fin a) NInf = (if a = 0 then NaN else finf (a < 0))"

fun fdiv :: "f64 \<Rightarrow> f64 \<Rightarrow> f64" where
  "fdiv (Fin a) (Fin b) =
     (if b = 0 then (if a = 0 then NaN else finf (0 < a)) else rnd (a / b))"
| "fdiv NaN b = NaN"
| "fdiv a NaN = NaN"
| "fdiv (Fin a) b = Fin 0"
| "fdiv PInf (Fin b) = finf (0 \<le> b)"
| "fdiv NInf (Fin b) = finf (b < 0)"
| "fdiv a b = NaN"

fun flt :: "f64 \<Rightarrow> f64 \<Rightarrow> bool" where
  "flt (Fin a) (Fin b) = (a < b)"
| "flt NaN b = False"
| "flt a NaN = False"
| "flt NInf b = (b \<noteq> NInf)"
| "flt a PInf = (a \<noteq> PInf)"
| "flt PInf b = False"
| "flt a NInf = False"

fun fle :: "f64 \<Rightarrow> f64 \<Rightarrow> bool" where
  "fle (Fin a) (Fin b) = (a \<le> b)"
| "fle NaN b = False"
| "fle a NaN = False"
| "fle NInf b = True"
| "fle a PInf = True"
| "fle PInf b = False"
| "fle a NInf = False"

fun is_finite :: "f64 \<Rightarrow> bool" where
  "is_finite (Fin a) = True"
| "is_finite a = False"

text \<open>\<open>f64::max\<close> and \<open>f64::min\<close> return the other operand when one is a NaN.\<close>

definition fmax :: "f64 \<Rightarrow> f64 \<Rightarrow> f64" where
  "fmax a b = (if a = NaN then b else if b = NaN then a else if flt a b then b else a)"

definition fmin :: "f64 \<Rightarrow> f64 \<Rightarrow> f64" where
  "fmin a b = (if a = NaN then b else if b = NaN then a else if flt b a then b else a)"

text \<open>\<open>f64::clamp\<close> panics unless \<open>min <= max\<close>; the panic is the \<^const>\<open>None\<close> of the model.\<close>

definition fclamp :: "f64 \<Rightarrow> f64 \<Rightarrow> f64 \<Rightarrow> f64 option" where
  "fclamp x lo hi = (if \<not> fle lo hi then None
     else Some (let y = (if flt x lo then lo else x) in if flt hi y then hi else y))"

text \<open>Casts: \<open>n as f64\<close> rounds, \<open>x as usize\<close> truncates and saturates.\<close>

definition f64_of_nat :: "nat \<Rightarrow> f64" where
  "f64_of_nat n = rnd (of_nat n)"

fun usize_of_f64 :: "f64 \<Rightarrow> nat" where
  "usize_of_f64 NaN = 0"
| "usize_of_f64 NInf = 0"
| "usize_of_f64 PInf = usize_bound - 1"
| "usize_of_f64 (Fin a) = min (nat \<lfloor>a\<rfloor>) (usize_bound - 1)"

section \<open>Facts about rounding\<close>

lemma bits_bounds: "0 < n \<Longrightarrow> 2 ^ (bits n - 1) \<le> n \<and> n < 2 ^ bits n \<and> 0 < bits n"
proof (induction n rule: bits.induct)
  case (1 n)
  show ?case
  proof (cases "n div 2 = 0")
    case True
    with "1.prems" have "n = 1" by simp
    then show ?thesis by (simp add: bits.simps)
  next
    case False
    let ?b = "bits (n div 2)"
    from False "1" have IH: "2 ^ (?b - 1) \<le> n div 2" "n div 2 < 2 ^ ?b" "0 < ?b" by auto
    have b: "bits n = Suc ?b" using "1.prems" by (simp add: bits.simps [of n])
    have "2 * 2 ^ (?b - 1) \<le> 2 * (n div 2)" using IH(1) by simp
    also have "2 * (n div 2) \<le> n" by simp
    also have "2 * (2::nat) ^ (?b - 1) = 2 ^ ?b" using IH(3) by (cases ?b) auto
    finally have "2 ^ ?b \<le> n" by simp
    moreover have "n < 2 * 2 ^ ?b" using IH(2) by (simp add: less_mult_imp_div_less div_less_iff_less_mult mult.commute)
    ultimately show ?thesis using b by simp
  qed
qed

lemma powi_pos [simp]: "0 < (2::rat) powi k"
  by simp

lemma powi_mono: "a \<le> b \<Longrightarrow> (2::rat) powi a \<le> 2 powi b"
  by (rule power_int_increasing) simp_all

lemma powi_less_cancel: "(2::rat) powi a < 2 powi b \<Longrightarrow> a < b"
  by (meson not_le powi_mono)

lemma powi_le_cancel: "(2::rat) powi a \<le> 2 powi b \<Longrightarrow> a \<le> b"
  using power_int_strict_increasing [of b a "2::rat"] by fastforce

lemma powi_split: "b \<le> a \<Longrightarrow> (2::rat) powi a = of_int (2 ^ nat (a - b)) * 2 powi b"
proof -
  assume "b \<le> a"
  then have "(2::rat) powi a = 2 powi (int (nat (a - b)) + b)" by simp
  also have "\<dots> = 2 ^ nat (a - b) * 2 powi b"
    by (subst power_int_add) (simp_all only: power_int_of_nat, simp)
  finally show ?thesis by simp
qed

lemma bits_powi:
  assumes "0 < n"
  shows "(2::rat) powi (int (bits (nat n)) - 1) \<le> of_int n \<and> of_int n < (2::rat) powi int (bits (nat n))"
proof -
  let ?b = "bits (nat n)"
  have b: "2 ^ (?b - 1) \<le> nat n" "nat n < 2 ^ ?b" "0 < ?b"
    using bits_bounds [of "nat n"] assms by auto
  have n: "(of_int n :: rat) = of_nat (nat n)" using assms by simp
  have "(2::rat) powi (int ?b - 1) = of_nat (2 ^ (?b - 1))"
    using b(3) by (cases ?b) simp_all
  moreover have "(2::rat) powi int ?b = of_nat (2 ^ ?b)" by simp
  ultimately show ?thesis using b(1,2) unfolding n by (simp only: of_nat_le_iff of_nat_less_iff)
qed

lemma bexp_bounds:
  assumes "0 < x"
  shows "2 powi bexp x \<le> x \<and> x < 2 powi (bexp x + 1)"
proof -
  obtain n d where nd: "quotient_of x = (n, d)" by (cases "quotient_of x")
  have d: "0 < d" and x: "x = of_int n / of_int d"
    using nd quotient_of_denom_pos quotient_of_div by auto
  with assms have n: "0 < n" by (simp add: zero_less_divide_iff)
  let ?bn = "int (bits (nat n))" and ?bd = "int (bits (nat d))"
  let ?e = "?bn - ?bd"
  have N: "(2::rat) powi (?bn - 1) \<le> of_int n" "of_int n < (2::rat) powi ?bn"
    using bits_powi [OF n] by auto
  have D: "(2::rat) powi (?bd - 1) \<le> of_int d" "of_int d < (2::rat) powi ?bd"
    using bits_powi [OF d] by auto
  have "x < 2 powi ?bn / 2 powi (?bd - 1)"
    unfolding x using N D n d by (intro frac_less) auto
  also have "\<dots> = 2 powi (?e + 1)"
    by (subst power_int_diff [symmetric]) (simp_all add: algebra_simps)
  finally have up: "x < 2 powi (?e + 1)" .
  have "2 powi (?e - 1) = 2 powi (?bn - 1) / (2::rat) powi ?bd"
    by (subst power_int_diff [symmetric]) (simp_all add: algebra_simps)
  also have "\<dots> \<le> x"
    unfolding x using N D n d by (intro frac_le) auto
  finally have lo: "2 powi (?e - 1) \<le> x" .
  show ?thesis
    using up lo by (auto simp: bexp_def nd Let_def)
qed

lemma rne_of_int [simp]: "rne (of_int n) = n"
  by (simp add: rne_def Let_def)

lemma rne_between: "\<lfloor>x\<rfloor> \<le> rne x \<and> rne x \<le> \<lfloor>x\<rfloor> + 1"
  by (simp add: rne_def Let_def)

lemma rne_mono: "x \<le> y \<Longrightarrow> rne x \<le> rne y"
proof (cases "\<lfloor>x\<rfloor> = \<lfloor>y\<rfloor>")
  case True
  assume "x \<le> y"
  with True show ?thesis by (auto simp: rne_def Let_def)
next
  case False
  assume "x \<le> y"
  with False have "\<lfloor>x\<rfloor> + 1 \<le> \<lfloor>y\<rfloor>" using floor_mono [of x y] by linarith
  then show ?thesis using rne_between [of x] rne_between [of y] by linarith
qed

lemma rne_minus: "rne (- x) = - rne x"
proof (cases "x = of_int \<lfloor>x\<rfloor>")
  case True
  then obtain k where "x = of_int k" by blast
  then show ?thesis by (metis of_int_minus rne_of_int)
next
  case False
  then have f: "\<lfloor>- x\<rfloor> = - \<lfloor>x\<rfloor> - 1" by linarith
  show ?thesis unfolding rne_def Let_def f by (auto simp: field_simps)
qed

lemma qexp_minus [simp]: "qexp (- x) = qexp x"
  by (simp add: qexp_def)

lemma qexp_ge: "-1074 \<le> qexp x"
  by (simp add: qexp_def)

lemma rnd_rat_minus: "rnd_rat (- x) = - rnd_rat x"
  by (simp add: rnd_rat_def rne_minus)

lemma rnd_rat_0 [simp]: "rnd_rat 0 = 0"
  using rne_of_int [of 0] by (simp add: rnd_rat_def)

text \<open>Integers of at most 53 bits scaled by a power of two down to \<open>2 ^ -1074\<close> are exact.\<close>

lemma rnd_rat_grid:
  assumes "\<bar>m\<bar> \<le> 2 ^ 53" "-1074 \<le> k"
  shows "rnd_rat (of_int m * 2 powi k) = of_int m * 2 powi k"
proof (cases "m = 0")
  case False
  let ?x = "of_int m * 2 powi k :: rat"
  let ?e = "bexp \<bar>?x\<bar>"
  have ax: "\<bar>?x\<bar> = of_int \<bar>m\<bar> * 2 powi k" by (simp add: abs_mult)
  have lo: "2 powi ?e \<le> \<bar>?x\<bar>" using bexp_bounds [of "\<bar>?x\<bar>"] False by simp
  have le: "of_int \<bar>m\<bar> \<le> (2 ^ 53 :: rat)"
    using assms(1) by (metis of_int_le_iff of_int_numeral of_int_power)
  have "\<bar>?x\<bar> \<le> 2 ^ 53 * 2 powi k" unfolding ax using le by (intro mult_right_mono) auto
  also have "2 ^ 53 * 2 powi k = (2 :: rat) powi (53 + k)" by (simp add: power_int_add)
  finally have up: "\<bar>?x\<bar> \<le> 2 powi (53 + k)" .
  have e: "?e \<le> 53 + k" by (rule powi_le_cancel) (rule order_trans [OF lo up])
  have q: "qexp ?x = max (?e - 52) (-1074)" using False by (simp add: qexp_def)
  obtain n where n: "?x = of_int n * 2 powi qexp ?x"
  proof (cases "?e = 53 + k")
    case True
    with lo up have "\<bar>?x\<bar> = 2 powi (53 + k)" by simp
    also have "\<dots> = of_int (2 ^ 52) * 2 powi qexp ?x"
      using powi_split [of "1 + k" "53 + k"] q True assms(2) by simp
    finally have "?x = of_int (2 ^ 52) * 2 powi qexp ?x \<or> ?x = of_int (- (2 ^ 52)) * 2 powi qexp ?x"
      by (auto simp: abs_if split: if_splits)
    then show thesis using that by blast
  next
    case False
    then have "qexp ?x \<le> k" using e q assms(2) by simp
    from powi_split [OF this] have "?x = of_int (m * 2 ^ nat (k - qexp ?x)) * 2 powi qexp ?x"
      by (metis mult.assoc of_int_mult)
    then show thesis using that by blast
  qed
  have "rnd_rat ?x = of_int (rne (of_int n)) * 2 powi qexp ?x"
    unfolding rnd_rat_def by (subst (1) n) simp
  also have "\<dots> = ?x" using n by simp
  finally show ?thesis .
qed simp

lemma rnd_rat_nonneg: "0 \<le> x \<Longrightarrow> 0 \<le> rnd_rat x"
  using rne_mono [of 0 "x / 2 powi qexp x"] rne_of_int [of 0] by (simp add: rnd_rat_def)

lemma abs_less_qexp: "\<bar>x\<bar> < 2 powi (53 + qexp x)"
proof (cases "x = 0")
  case False
  then have "\<bar>x\<bar> < 2 powi (bexp \<bar>x\<bar> + 1)" using bexp_bounds [of "\<bar>x\<bar>"] by simp
  also have "\<dots> \<le> 2 powi (53 + qexp x)" using False by (intro powi_mono) (simp add: qexp_def)
  finally show ?thesis .
qed simp

lemma rnd_rat_on_grid:
  "\<exists>m. rnd_rat x = of_int m * 2 powi qexp x \<and> \<bar>m\<bar> \<le> 2 ^ 53"
proof -
  let ?y = "x / 2 powi qexp x"
  have "(2::rat) powi (53 + qexp x) = 2 ^ 53 * 2 powi qexp x" by (simp add: power_int_add)
  then have "\<bar>?y\<bar> < 2 ^ 53"
    using abs_less_qexp [of x] by (simp add: abs_divide pos_divide_less_eq)
  then have "?y < 2 ^ 53 \<and> - ?y < 2 ^ 53" by (simp only: abs_less_iff)
  then have "?y \<le> of_int (2 ^ 53)" "of_int (- (2 ^ 53)) \<le> ?y" by simp_all
  then have "rne ?y \<le> 2 ^ 53" "- (2 ^ 53) \<le> rne ?y"
    using rne_mono rne_of_int by metis+
  then show ?thesis by (auto simp: rnd_rat_def)
qed

lemma rnd_rat_idem: "rnd_rat (rnd_rat x) = rnd_rat x"
  using rnd_rat_on_grid [of x] rnd_rat_grid qexp_ge by metis

lemma rnd_rat_mono_pos:
  assumes "0 \<le> x" "x \<le> y"
  shows "rnd_rat x \<le> rnd_rat y"
proof (cases "x = 0 \<or> qexp x = qexp y")
  case True
  then show ?thesis
  proof
    assume "x = 0" then show ?thesis using assms rnd_rat_nonneg by simp
  next
    assume "qexp x = qexp y"
    then show ?thesis using assms rne_mono [of "x / 2 powi qexp x" "y / 2 powi qexp x"]
      by (simp add: rnd_rat_def divide_right_mono)
  qed
next
  case False
  with assms have pos: "0 < x" "0 < y" by auto
  have bx: "x < 2 powi (bexp x + 1)" and by': "2 powi bexp y \<le> y" "y < 2 powi (bexp y + 1)" "2 powi bexp x \<le> x"
    using bexp_bounds pos by auto
  have "(2::rat) powi bexp x < 2 powi (bexp y + 1)" using by' assms by linarith
  then have "bexp x < bexp y + 1" by (rule powi_less_cancel)
  moreover have qx: "qexp x = max (bexp x - 52) (-1074)" and qy: "qexp y = max (bexp y - 52) (-1074)"
    using pos by (simp_all add: qexp_def)
  ultimately have e: "bexp x + 1 \<le> bexp y" and q: "qexp x \<le> bexp y" "qexp y \<le> bexp y"
    using False by auto
  have "x \<le> 2 powi bexp y" using bx powi_mono [OF e] by linarith
  then have "x / 2 powi qexp x \<le> of_int (2 ^ nat (bexp y - qexp x))"
    using powi_split [OF q(1)] by (simp add: pos_divide_le_eq)
  then have "rne (x / 2 powi qexp x) \<le> 2 ^ nat (bexp y - qexp x)"
    using rne_mono rne_of_int by metis
  then have "rnd_rat x \<le> of_int (2 ^ nat (bexp y - qexp x)) * 2 powi qexp x"
    unfolding rnd_rat_def by (intro mult_right_mono) (simp_all only: of_int_le_iff, simp)
  also have "\<dots> = 2 powi bexp y" using powi_split [OF q(1)] by simp
  also have "\<dots> = of_int (2 ^ nat (bexp y - qexp y)) * 2 powi qexp y" by (rule powi_split [OF q(2)])
  also have "\<dots> \<le> rnd_rat y"
  proof -
    have "of_int (2 ^ nat (bexp y - qexp y)) \<le> y / 2 powi qexp y"
      using by' powi_split [OF q(2)] by (simp add: pos_le_divide_eq)
    then have "2 ^ nat (bexp y - qexp y) \<le> rne (y / 2 powi qexp y)"
      using rne_mono rne_of_int by metis
    then show ?thesis unfolding rnd_rat_def by (intro mult_right_mono) (simp_all only: of_int_le_iff, simp)
  qed
  finally show ?thesis .
qed

lemma rnd_rat_mono: "x \<le> y \<Longrightarrow> rnd_rat x \<le> rnd_rat y"
proof (cases "0 \<le> x")
  case True
  then show "x \<le> y \<Longrightarrow> ?thesis" by (rule rnd_rat_mono_pos)
next
  case False
  assume "x \<le> y"
  show ?thesis
  proof (cases "0 \<le> y")
    case True
    then show ?thesis using rnd_rat_nonneg [of y] rnd_rat_nonneg [of "- x"] False
      by (simp add: rnd_rat_minus)
  next
    case False
    with \<open>x \<le> y\<close> rnd_rat_mono_pos [of "- y" "- x"] show ?thesis by (simp add: rnd_rat_minus)
  qed
qed

lemma rnd_rat_int: "\<bar>n\<bar> \<le> 2 ^ 53 \<Longrightarrow> rnd_rat (of_int n) = of_int n"
  using rnd_rat_grid [of n 0] by simp

text \<open>Integers up to \<open>2 ^ 53\<close> are represented exactly; rules for literals.\<close>

lemma rnd_int: "\<bar>n\<bar> \<le> 2 ^ 53 \<Longrightarrow> rnd (of_int n) = Fin (of_int n)"
proof -
  assume n: "\<bar>n\<bar> \<le> 2 ^ 53"
  have "(2::int) ^ 53 < 2 ^ 1024" by (rule power_strict_increasing) simp_all
  with n have "n < 2 ^ 1024" "- (2 ^ 1024) < n" by linarith+
  then have "(of_int n :: rat) < of_int (2 ^ 1024)" "of_int (- (2 ^ 1024)) < (of_int n :: rat)"
    by (simp_all only: of_int_less_iff)
  then show ?thesis by (simp add: rnd_def Let_def rnd_rat_int [OF n])
qed

lemma rnd_0 [simp]: "rnd 0 = Fin 0"
  by (simp add: rnd_def Let_def)

lemma rnd_1 [simp]: "rnd 1 = Fin 1"
  using rnd_int [of 1] by simp

lemma rnd_numeral [simp]: "numeral k \<le> (2 ^ 53 :: int) \<Longrightarrow> rnd (numeral k) = Fin (numeral k)"
  using rnd_int [of "numeral k"] by simp

lemma rnd_of_nat: "n \<le> 2 ^ 53 \<Longrightarrow> rnd (of_nat n) = Fin (of_nat n)"
proof -
  assume "n \<le> 2 ^ 53"
  then have "int n \<le> int (2 ^ 53)" by (simp only: of_nat_le_iff)
  then have "\<bar>int n\<bar> \<le> 2 ^ 53" by simp
  then show ?thesis using rnd_int [of "int n"] by simp
qed

lemma rnd_pow2: "k < 1024 \<Longrightarrow> rnd (2 ^ k) = Fin (2 ^ k)"
proof -
  assume k: "k < 1024"
  have "rnd_rat (2 ^ k) = 2 ^ k" using rnd_rat_grid [of 1 "int k"] by simp
  moreover have "(2::rat) ^ k < 2 ^ 1024" using k by (intro power_strict_increasing) auto
  moreover have "- (2 ^ 1024) < (2::rat) ^ k" by (rule less_trans [of _ 0]) simp_all
  ultimately show ?thesis by (simp add: rnd_def Let_def)
qed

section \<open>Order\<close>

lemma rnd_not_NaN [simp]: "rnd x \<noteq> NaN" "NaN \<noteq> rnd x"
  by (auto simp: rnd_def Let_def)

lemma fle_refl [simp]: "fle x x \<longleftrightarrow> x \<noteq> NaN"
  by (cases x) auto

lemma fle_not_NaN: "fle x y \<Longrightarrow> x \<noteq> NaN \<and> y \<noteq> NaN"
  by (cases x; cases y) auto

lemma fle_trans: "fle x y \<Longrightarrow> fle y z \<Longrightarrow> fle x z"
  by (cases x; cases y; cases z) auto

lemma flt_iff: "x \<noteq> NaN \<Longrightarrow> y \<noteq> NaN \<Longrightarrow> flt x y \<longleftrightarrow> \<not> fle y x"
  by (cases x; cases y) auto

lemma fle_linear: "x \<noteq> NaN \<Longrightarrow> y \<noteq> NaN \<Longrightarrow> fle x y \<or> fle y x"
  by (cases x; cases y) auto

lemma flt_imp_fle: "flt x y \<Longrightarrow> fle x y"
  by (cases x; cases y) auto

lemma flt_NaN [simp]: "\<not> flt x NaN"
  by (cases x) auto

lemma fle_not_flt: "fle x y \<Longrightarrow> \<not> flt y x"
  by (cases x; cases y) auto

lemma fle_flt_trans: "fle x y \<Longrightarrow> flt y z \<Longrightarrow> flt x z"
  by (cases x; cases y; cases z) auto

lemma fle_between_finite: "fle (Fin a) x \<Longrightarrow> fle x (Fin b) \<Longrightarrow> \<exists>q. x = Fin q \<and> a \<le> q \<and> q \<le> b"
  by (cases x) auto

lemma rnd_mono: "x \<le> y \<Longrightarrow> fle (rnd x) (rnd y)"
  using rnd_rat_mono [of x y] by (auto simp: rnd_def Let_def)

lemma rnd_nonneg: "0 \<le> x \<Longrightarrow> fle (Fin 0) (rnd x)"
  using rnd_mono [of 0 x] by simp

lemma fmin_le: "a \<noteq> NaN \<Longrightarrow> b \<noteq> NaN \<Longrightarrow> fle (fmin a b) a \<and> fle (fmin a b) b"
  by (cases a; cases b) (auto simp: fmin_def)

lemma fmin_ge: "fle c a \<Longrightarrow> fle c b \<Longrightarrow> fle c (fmin a b)"
  by (auto simp: fmin_def)

lemma fmax_ge: "a \<noteq> NaN \<Longrightarrow> b \<noteq> NaN \<Longrightarrow> fle a (fmax a b) \<and> fle b (fmax a b)"
  by (cases a; cases b) (auto simp: fmax_def)

lemma fmin_not_NaN: "a \<noteq> NaN \<Longrightarrow> fmin a b \<noteq> NaN"
  by (auto simp: fmin_def)

lemma fmax_not_NaN: "a \<noteq> NaN \<Longrightarrow> fmax a b \<noteq> NaN"
  by (auto simp: fmax_def)

lemma fmin_absorb: "fle a b \<Longrightarrow> fmin a b = a"
  by (cases a; cases b) (auto simp: fmin_def)

lemma fclamp_bounds: "fclamp x lo hi = Some y \<Longrightarrow> x \<noteq> NaN \<Longrightarrow> fle lo y \<and> fle y hi"
  by (cases x; cases lo; cases hi) (auto simp: fclamp_def Let_def split: if_splits)

lemma fclamp_Some: "fle lo hi \<Longrightarrow> \<exists>y. fclamp x lo hi = Some y"
  by (simp add: fclamp_def)

section \<open>Representable values\<close>

text \<open>A finite value that is a double; every result of an operation is.\<close>

definition f64_ok :: "f64 \<Rightarrow> bool" where
  "f64_ok x = (case x of Fin a \<Rightarrow> rnd a = Fin a | _ \<Rightarrow> True)"

lemma f64_ok_rnd [simp]: "f64_ok (rnd x)"
proof (cases "rnd x")
  case (Fin a)
  then have "a = rnd_rat x" by (auto simp: rnd_def Let_def split: if_splits)
  with Fin have "rnd a = Fin a" by (auto simp: rnd_def Let_def rnd_rat_idem split: if_splits)
  then show ?thesis by (simp add: f64_ok_def Fin)
qed (simp_all add: f64_ok_def)

lemma f64_ok_0 [simp]: "f64_ok (Fin 0)"
  using f64_ok_rnd [of 0] by simp

lemma f64_ok_inf [simp]: "f64_ok NaN" "f64_ok PInf" "f64_ok NInf"
  by (simp_all add: f64_ok_def)

lemma f64_ok_fmin [simp]: "f64_ok a \<Longrightarrow> f64_ok b \<Longrightarrow> f64_ok (fmin a b)"
  by (simp add: fmin_def)

lemma f64_ok_fmax [simp]: "f64_ok a \<Longrightarrow> f64_ok b \<Longrightarrow> f64_ok (fmax a b)"
  by (simp add: fmax_def)

lemma f64_ok_fneg: "f64_ok a \<Longrightarrow> f64_ok (fneg a)"
proof (cases a)
  case (Fin x)
  assume "f64_ok a"
  then show ?thesis
    using Fin by (auto simp: f64_ok_def rnd_def Let_def rnd_rat_minus split: if_splits)
qed (simp_all)

lemma f64_ok_fadd [simp]: "f64_ok a \<Longrightarrow> f64_ok b \<Longrightarrow> f64_ok (fadd a b)"
  by (cases a; cases b) simp_all

lemma f64_ok_fmul [simp]: "f64_ok (fmul a b)"
  by (cases a; cases b) (simp_all add: finf_def)

lemma f64_ok_fdiv [simp]: "f64_ok (fdiv a b)"
  by (cases a; cases b) (simp_all add: finf_def)

lemma f64_ok_fsub [simp]: "f64_ok a \<Longrightarrow> f64_ok b \<Longrightarrow> f64_ok (fsub a b)"
  by (simp add: fsub_def f64_ok_fneg)

lemma f64_ok_of_nat [simp]: "f64_ok (f64_of_nat n)"
  by (simp add: f64_of_nat_def)

section \<open>Signs and bounds of results\<close>

lemma fadd_nonneg: "fle (Fin 0) a \<Longrightarrow> fle (Fin 0) b \<Longrightarrow> fle (Fin 0) (fadd a b)"
  by (cases a; cases b) (auto intro: rnd_nonneg)

lemma fmul_nonneg_fin: "0 \<le> a \<Longrightarrow> 0 \<le> b \<Longrightarrow> fle (Fin 0) (fmul (Fin a) (Fin b))"
  by (simp add: rnd_nonneg)

lemma fsub_nonneg: "fle b a \<Longrightarrow> is_finite b \<Longrightarrow> fle (Fin 0) (fsub a b)"
  by (cases a; cases b) (auto simp: fsub_def intro: rnd_nonneg)

lemma fsub_le:
  "f64_ok a \<Longrightarrow> is_finite a \<Longrightarrow> fle (Fin 0) b \<Longrightarrow> fle (fsub a b) a"
proof (cases a; cases b)
  fix x y assume "f64_ok a" "a = Fin x" "b = Fin y" "fle (Fin 0) b"
  then show "fle (fsub a b) a" using rnd_mono [of "x - y" x] by (simp add: fsub_def f64_ok_def)
qed (auto simp: fsub_def)

lemma f64_of_nat_nonneg: "fle (Fin 0) (f64_of_nat n)"
  by (simp add: f64_of_nat_def rnd_nonneg)

lemma f64_of_nat_not_NaN [simp]: "f64_of_nat n \<noteq> NaN"
  by (simp add: f64_of_nat_def)

lemma f64_of_nat_finite: "n \<le> 2 ^ 64 \<Longrightarrow> \<exists>q. f64_of_nat n = Fin q \<and> 0 \<le> q \<and> q \<le> 2 ^ 64"
proof -
  assume "n \<le> 2 ^ 64"
  then have "(of_nat n :: rat) \<le> of_nat (2 ^ 64)" by (simp only: of_nat_le_iff)
  then have "fle (f64_of_nat n) (rnd (2 ^ 64))" by (simp add: f64_of_nat_def rnd_mono)
  then show ?thesis using f64_of_nat_nonneg [of n] rnd_pow2 [of 64]
    by (intro fle_between_finite) auto
qed

lemma f64_of_nat_small: "n \<le> 2 ^ 53 \<Longrightarrow> f64_of_nat n = Fin (of_nat n)"
  by (simp add: f64_of_nat_def rnd_of_nat)

end
