(* ===== verification/Core_Base.thy ===== *)
theory Core_Base
  imports F64
begin

text \<open>
  The small modules every other part of the protocol core uses: the error codes
  (\<open>error.rs\<close>), the datagram size constants (\<open>lib.rs\<close>), RFC 1982 serial number arithmetic
  (\<open>seq.rs\<close>), the running CRC-32 (\<open>crc32.rs\<close>) and the check/record demultiplexer
  (\<open>demux.rs\<close>).
\<close>

section \<open>Errors and constants\<close>

datatype error =
    ShortDatagram | Decrypt | ShortPacket | Malformed | ShortAck
  | BufferTooSmall | BadLength | Oversized | BadKeyLength

type_synonym 'a result = "error + 'a"

definition error_as_str :: "error \<Rightarrow> string" where
  "error_as_str e = (case e of
     ShortDatagram \<Rightarrow> ''short-datagram'' | Decrypt \<Rightarrow> ''decrypt'' | ShortPacket \<Rightarrow> ''short-packet''
   | Malformed \<Rightarrow> ''malformed'' | ShortAck \<Rightarrow> ''short-ack'' | BufferTooSmall \<Rightarrow> ''buffer-too-small''
   | BadLength \<Rightarrow> ''bad-length'' | Oversized \<Rightarrow> ''oversized'' | BadKeyLength \<Rightarrow> ''bad-key-length'')"

definition MAX_DATAGRAM :: nat where "MAX_DATAGRAM = 2000"

definition DEFAULT_DATAGRAM :: nat where "DEFAULT_DATAGRAM = 1229"

definition ENVELOPE_LEN :: nat where "ENVELOPE_LEN = 29"

definition HEADER_LEN :: nat where "HEADER_LEN = 7"

definition CHANNEL_COUNT :: nat where "CHANNEL_COUNT = 19"

lemmas core_consts = MAX_DATAGRAM_def DEFAULT_DATAGRAM_def ENVELOPE_LEN_def HEADER_LEN_def
  CHANNEL_COUNT_def

text \<open>\<open>opt.ok_or(e)\<close>.\<close>

definition ok_or :: "'a option \<Rightarrow> error \<Rightarrow> 'a result" where
  "ok_or x e = (case x of None \<Rightarrow> Inl e | Some v \<Rightarrow> Inr v)"

lemma ok_or_simps [simp]: "ok_or None e = Inl e" "ok_or (Some v) e = Inr v"
  by (simp_all add: ok_or_def)

lemma ok_or_Inr: "ok_or x e = Inr v \<longleftrightarrow> x = Some v"
  by (cases x) auto

section \<open>Serial numbers\<close>

definition seq_gt :: "u32 \<Rightarrow> u32 \<Rightarrow> bool" where
  "seq_gt a b = (0 < sint (a - b))"

definition seq_ge :: "u32 \<Rightarrow> u32 \<Rightarrow> bool" where
  "seq_ge a b = (0 \<le> sint (a - b))"

definition seq_lt :: "u32 \<Rightarrow> u32 \<Rightarrow> bool" where
  "seq_lt a b = seq_gt b a"

definition seq_le :: "u32 \<Rightarrow> u32 \<Rightarrow> bool" where
  "seq_le a b = seq_ge b a"

definition seq_distance :: "u32 \<Rightarrow> u32 \<Rightarrow> u32" where
  "seq_distance a b = b - a"

lemma sint_u32: "sint (w :: u32) = (if uint w < 2147483648 then uint w else uint w - 4294967296)"
proof -
  have s: "sint w = (uint w + 2147483648) mod 4294967296 - 2147483648"
    using int_word_sint [of "uint w", where 'a = 32] by simp
  have b: "0 \<le> uint w" "uint w < 4294967296"
    using unsigned_less [where 'a = int, of w] by simp_all
  show ?thesis
  proof (cases "uint w < 2147483648")
    case True
    with b s show ?thesis by simp
  next
    case False
    with b have "(uint w + 2147483648) mod 4294967296 = uint w + 2147483648 - 4294967296"
      by (subst mod_pos_geq) simp_all
    with s False show ?thesis by simp
  qed
qed

lemma sint_unat: "sint (w :: u32) = (if unat w < 2147483648 then int (unat w) else int (unat w) - 4294967296)"
proof -
  have u: "uint w = int (unat w)" by simp
  have "uint w < 2147483648 \<longleftrightarrow> unat w < 2147483648" using u by linarith
  then show ?thesis unfolding sint_u32 by simp
qed

lemma sint_pos_unat: "0 < sint (w :: u32) \<longleftrightarrow> 0 < unat w \<and> unat w < 2147483648"
proof (cases "unat w < 2147483648")
  case True
  then have "sint w = int (unat w)" by (simp only: sint_unat if_True)
  with True show ?thesis by linarith
next
  case False
  then have "sint w = int (unat w) - 4294967296" by (simp only: sint_unat if_False)
  with False unat_lt_u32 [of w] show ?thesis by linarith
qed

lemma sint_nonneg_unat: "0 \<le> sint (w :: u32) \<longleftrightarrow> unat w < 2147483648"
proof (cases "unat w < 2147483648")
  case True
  then have "sint w = int (unat w)" by (simp only: sint_unat if_True)
  with True show ?thesis by linarith
next
  case False
  then have "sint w = int (unat w) - 4294967296" by (simp only: sint_unat if_False)
  with False unat_lt_u32 [of w] show ?thesis by linarith
qed

lemma unat_minus_swap:
  assumes "a \<noteq> (b :: u32)"
  shows "unat (a - b) = 4294967296 - unat (b - a)"
proof -
  have ne: "unat a \<noteq> unat b" using assms by (simp add: word_unat_eq_iff)
  show ?thesis
  proof (cases "unat b \<le> unat a")
    case True
    with ne unat_lt_u32 [of a] show ?thesis by (auto simp: unat_sub_if')
  next
    case False
    with ne unat_lt_u32 [of b] show ?thesis by (auto simp: unat_sub_if')
  qed
qed

lemma seq_gt_unat: "seq_gt a b \<longleftrightarrow> 0 < unat (a - b) \<and> unat (a - b) < 2147483648"
  by (simp only: seq_gt_def sint_pos_unat)

lemma seq_ge_unat: "seq_ge a b \<longleftrightarrow> unat (a - b) < 2147483648"
  by (simp only: seq_ge_def sint_nonneg_unat)

lemma seq_lt_unat: "seq_lt a b \<longleftrightarrow> 2147483648 < unat (a - b)"
proof (cases "a = b")
  case False
  then show ?thesis
    using unat_minus_swap [of b a] unat_minus_swap [of a b] unat_lt_u32 [of "b - a"] unat_lt_u32 [of "a - b"]
    unfolding seq_lt_def seq_gt_unat by linarith
qed (simp add: seq_lt_def seq_gt_unat)

lemma seq_le_unat: "seq_le a b \<longleftrightarrow> unat (b - a) < 2147483648"
  by (simp only: seq_le_def seq_ge_unat)

text \<open>
  Within half the number space, serial comparison of two offsets from a common base is the
  comparison of the offsets, wherever the base is and whether or not the range wraps.
\<close>

lemma unat_offset:
  "unat ((s :: u32) - d) = n \<longleftrightarrow> s = d + of_nat n \<and> n < 4294967296"
proof
  assume "unat (s - d) = n"
  then show "s = d + of_nat n \<and> n < 4294967296"
    using unat_lt_u32 [of "s - d"] by auto
next
  assume "s = d + of_nat n \<and> n < 4294967296"
  then show "unat (s - d) = n" by (simp add: unat_of_nat_32)
qed

lemma unat_diff_offsets:
  "unat ((a :: u32) - d) \<le> unat (b - d) \<Longrightarrow> unat (b - a) = unat (b - d) - unat (a - d)"
  using unat_sub_if' [of "b - d" "a - d"] by simp

lemma seq_lt_offsets:
  assumes "unat (a - d) < 2147483648" "unat (b - d) < 2147483648"
  shows "seq_lt a b \<longleftrightarrow> unat (a - d) < unat (b - d)"
proof (cases "unat (a - d) \<le> unat (b - d)")
  case True
  then show ?thesis using assms unat_diff_offsets [OF True] by (auto simp: seq_lt_def seq_gt_unat)
next
  case False
  then show ?thesis
    using assms unat_diff_offsets [of b d a] by (auto simp: seq_lt_unat)
qed

section \<open>CRC-32\<close>

definition crc32_new :: u32 where
  "crc32_new = 0xFFFFFFFF"

definition crc32_bit :: "u32 \<Rightarrow> u32" where
  "crc32_bit c = (let mask = - (c AND 1) in drop_bit 1 c XOR (0xEDB88320 AND mask))"

fun crc32_update :: "u32 \<Rightarrow> bytes \<Rightarrow> u32" where
  "crc32_update c [] = c"
| "crc32_update c (b # bs) = crc32_update ((crc32_bit ^^ 8) (c XOR ucast b)) bs"

definition crc32_finish :: "u32 \<Rightarrow> u32" where
  "crc32_finish c = c XOR 0xFFFFFFFF"

definition crc32_of :: "bytes \<Rightarrow> u32" where
  "crc32_of bs = crc32_finish (crc32_update crc32_new bs)"

lemma crc32_update_append: "crc32_update c (xs @ ys) = crc32_update (crc32_update c xs) ys"
  by (induction xs arbitrary: c) auto

section \<open>Demultiplexing\<close>

datatype datagram = Check | Record

definition classify :: "bytes \<Rightarrow> datagram" where
  "classify dg = (case (get_at dg 0, get_at dg 1) of
     (Some high, Some low) \<Rightarrow> if high \<le> 1 \<and> low = 1 \<and> 2 < length dg then Check else Record
   | _ \<Rightarrow> Record)"

end
