(* ===== verification/Packet.thy ===== *)
theory Packet
  imports Core_Base
begin

text \<open>
  Cleartext packets (\<open>core/src/packet.rs\<close>): data fragments, group acknowledgements and
  keepalives, and the authenticated path-MTU probes. \<open>parse\<close> is the strict validator; the four
  encoders write into the caller's buffer and return the bytes written. A returned error says
  nothing about the contents of the buffer, which no caller reads then.
\<close>

section \<open>Constants and packets\<close>

definition MARKER :: byte where "MARKER = 0x01"
definition ACK_LEN :: nat where "ACK_LEN = 83"
definition FLAG_DATA :: byte where "FLAG_DATA = 0x01"
definition FLAG_ACK :: byte where "FLAG_ACK = 0x02"
definition FLAG_PROBE :: byte where "FLAG_PROBE = 0x04"
definition FLAG_KEEPALIVE :: byte where "FLAG_KEEPALIVE = 0x08"
definition FLAG_NACK :: byte where "FLAG_NACK = 0x10"
definition FLAG_LAST :: byte where "FLAG_LAST = 0x20"
definition FLAG_PROBE_ACK :: byte where "FLAG_PROBE_ACK = 0x40"
definition RESERVED_MASK :: byte where "RESERVED_MASK = 0x80"
definition KIND_MASK :: byte where "KIND_MASK = 0x0B"
definition U32_MAX :: u32 where "U32_MAX = 0xFFFFFFFF"

lemmas flag_defs = FLAG_DATA_def FLAG_ACK_def FLAG_PROBE_def FLAG_KEEPALIVE_def FLAG_NACK_def
  FLAG_LAST_def FLAG_PROBE_ACK_def RESERVED_MASK_def KIND_MASK_def MARKER_def

lemma flag_distinct [simp]:
  "FLAG_DATA \<noteq> FLAG_ACK" "FLAG_ACK \<noteq> FLAG_DATA" "FLAG_DATA \<noteq> FLAG_KEEPALIVE"
  "FLAG_KEEPALIVE \<noteq> FLAG_DATA" "FLAG_ACK \<noteq> FLAG_KEEPALIVE" "FLAG_KEEPALIVE \<noteq> FLAG_ACK"
  by (simp_all add: flag_defs)

record data_pkt =
  d_channel :: byte
  d_seq :: u32
  d_last :: bool
  d_body :: bytes

record probe_pkt =
  pr_id :: u32
  pr_size :: nat

record probe_ack_pkt =
  pa_id :: u32
  pa_size :: nat

datatype ack_kind = AK_Ack | AK_Keepalive

record ack_pkt =
  ak_kind :: ack_kind
  ak_nack :: bool
  ak_trigger_channel :: byte
  ak_trigger_seq :: u32
  ak_cumulative :: "u32 list"
  ak_reported :: nat

datatype packet =
    PData data_pkt
  | PAck ack_pkt
  | PProbe probe_pkt
  | PProbeAck probe_ack_pkt

section \<open>Parsing\<close>

definition be32 :: "bytes \<Rightarrow> nat \<Rightarrow> u32 result" where
  "be32 src off = (case get_range src off (off + 4) of
     Some [a, b, c, d] \<Rightarrow> Inr (of_be32 a b c d) | _ \<Rightarrow> Inl ShortPacket)"

definition legal_datagram :: "nat \<Rightarrow> bool" where
  "legal_datagram sz = (DEFAULT_DATAGRAM \<le> sz \<and> sz \<le> MAX_DATAGRAM)"

definition parse_probe :: "bytes \<Rightarrow> byte \<Rightarrow> byte \<Rightarrow> byte \<Rightarrow> packet result" where
  "parse_probe ct marker flags channel =
     (if flags \<noteq> FLAG_PROBE \<and> flags \<noteq> FLAG_PROBE_ACK then Inl Malformed
      else if channel \<noteq> 0 then Inl Malformed
      else if marker \<noteq> MARKER then Inl Malformed
      else case be32 ct 3 of Inl e \<Rightarrow> Inl e | Inr i \<Rightarrow>
        if i = U32_MAX then Inl Malformed
        else case get_range ct HEADER_LEN (HEADER_LEN + 2) of
          Some [a, b] \<Rightarrow>
            (let sz = unat (of_be16 a b) in
             if \<not> legal_datagram sz then Inl Malformed
             else if flags AND (FLAG_PROBE OR FLAG_PROBE_ACK) = FLAG_PROBE then
               (if length ct \<noteq> sz - ENVELOPE_LEN
                  \<or> (case get_from ct (HEADER_LEN + 2) of None \<Rightarrow> True
                     | Some padding \<Rightarrow> list_ex (\<lambda>x. x \<noteq> 0) padding)
                then Inl Malformed
                else Inr (PProbe \<lparr>pr_id = i, pr_size = sz\<rparr>))
             else if length ct \<noteq> HEADER_LEN + 2 then Inl Malformed
             else Inr (PProbeAck \<lparr>pa_id = i, pa_size = sz\<rparr>))
        | _ \<Rightarrow> Inl ShortPacket)"

text \<open>The loop over the cumulative values: entry \<open>index\<close> is read at \<open>HEADER_LEN + index * 4\<close>.\<close>

fun read_cumulative :: "bytes \<Rightarrow> nat \<Rightarrow> nat \<Rightarrow> u32 list result" where
  "read_cumulative ct index 0 = Inr []"
| "read_cumulative ct index (Suc n) =
     (case be32 ct (HEADER_LEN + index * 4) of Inl e \<Rightarrow> Inl e | Inr v \<Rightarrow>
       case read_cumulative ct (Suc index) n of Inl e \<Rightarrow> Inl e | Inr vs \<Rightarrow> Inr (v # vs))"

definition parse_ack :: "bytes \<Rightarrow> byte \<Rightarrow> byte \<Rightarrow> bool \<Rightarrow> u32 \<Rightarrow> packet result" where
  "parse_ack ct kind channel nack seq =
     (let reported = (length ct - HEADER_LEN) div 4 in
      if reported = 0 then Inl ShortAck
      else let reported = min reported CHANNEL_COUNT in
        case read_cumulative ct 0 reported of Inl e \<Rightarrow> Inl e | Inr vs \<Rightarrow>
          Inr (PAck \<lparr>ak_kind = (if kind = FLAG_ACK then AK_Ack else AK_Keepalive),
                     ak_nack = nack, ak_trigger_channel = channel, ak_trigger_seq = seq,
                     ak_cumulative = vs @ replicate (CHANNEL_COUNT - reported) 0,
                     ak_reported = reported\<rparr>))"

definition parse :: "bytes \<Rightarrow> packet result" where
  "parse ct =
     (case (get_at ct 0, get_at ct 1, get_at ct 2) of
        (Some marker, Some flags, Some channel) \<Rightarrow>
          if length ct < HEADER_LEN then Inl ShortPacket
          else if flags AND RESERVED_MASK \<noteq> 0 then Inl Malformed
          else if flags AND (FLAG_PROBE OR FLAG_PROBE_ACK) \<noteq> 0 then
            parse_probe ct marker flags channel
          else
            (let kind = flags AND KIND_MASK in
             if kind \<noteq> FLAG_DATA \<and> kind \<noteq> FLAG_ACK \<and> kind \<noteq> FLAG_KEEPALIVE then Inl Malformed
             else let nack = (flags AND FLAG_NACK \<noteq> 0) in
             if nack \<and> kind \<noteq> FLAG_ACK then Inl Malformed
             else let final = (flags AND FLAG_LAST \<noteq> 0) in
             if final \<and> (kind \<noteq> FLAG_DATA \<or> nack) then Inl Malformed
             else if marker \<noteq> MARKER then Inl Malformed
             else if CHANNEL_COUNT \<le> unat channel then Inl Malformed
             else case be32 ct 3 of Inl e \<Rightarrow> Inl e | Inr seq \<Rightarrow>
               if seq = U32_MAX then Inl Malformed
               else if kind = FLAG_DATA then
                 (case get_from ct HEADER_LEN of None \<Rightarrow> Inl ShortPacket | Some body \<Rightarrow>
                   Inr (PData \<lparr>d_channel = channel, d_seq = seq, d_last = final, d_body = body\<rparr>))
               else parse_ack ct kind channel nack seq)
      | _ \<Rightarrow> Inl ShortPacket)"

section \<open>Encoding\<close>

definition data_bytes :: "data_pkt \<Rightarrow> bytes" where
  "data_bytes d = [MARKER, (if d_last d then FLAG_DATA OR FLAG_LAST else FLAG_DATA), d_channel d]
     @ to_be32 (d_seq d) @ d_body d"

definition encode_data :: "bytes \<Rightarrow> data_pkt \<Rightarrow> (bytes \<times> nat) result" where
  "encode_data out d =
     (if CHANNEL_COUNT \<le> unat (d_channel d) \<or> d_seq d = U32_MAX then Inl Malformed
      else case usize_checked_add HEADER_LEN (length (d_body d)) of
        None \<Rightarrow> Inl BufferTooSmall
      | Some tot \<Rightarrow>
          if length out < tot then Inl BufferTooSmall
          else Inr (put_at out 0 (data_bytes d), tot))"

definition probe_bytes :: "probe_pkt \<Rightarrow> bytes" where
  "probe_bytes p = [MARKER, FLAG_PROBE, 0] @ to_be32 (pr_id p) @ to_be16 (of_nat (pr_size p))
     @ replicate (pr_size p - ENVELOPE_LEN - HEADER_LEN - 2) 0"

definition encode_probe :: "bytes \<Rightarrow> probe_pkt \<Rightarrow> (bytes \<times> nat) result" where
  "encode_probe out p =
     (if pr_id p = U32_MAX \<or> \<not> legal_datagram (pr_size p) then Inl Malformed
      else if pr_size p < ENVELOPE_LEN then Inl BufferTooSmall
      else let cleartext_len = pr_size p - ENVELOPE_LEN in
        if cleartext_len < HEADER_LEN + 2 then Inl BufferTooSmall
        else if length out < cleartext_len then Inl BufferTooSmall
        else case u16_try_from (pr_size p) of None \<Rightarrow> Inl BadLength | Some _ \<Rightarrow>
          Inr (put_at out 0 (probe_bytes p), cleartext_len))"

definition probe_ack_bytes :: "probe_ack_pkt \<Rightarrow> bytes" where
  "probe_ack_bytes a = [MARKER, FLAG_PROBE_ACK, 0] @ to_be32 (pa_id a) @ to_be16 (of_nat (pa_size a))"

definition encode_probe_ack :: "bytes \<Rightarrow> probe_ack_pkt \<Rightarrow> (bytes \<times> nat) result" where
  "encode_probe_ack out a =
     (if pa_id a = U32_MAX \<or> \<not> legal_datagram (pa_size a) then Inl Malformed
      else if length out < HEADER_LEN + 2 then Inl BufferTooSmall
      else case u16_try_from (pa_size a) of None \<Rightarrow> Inl BadLength | Some _ \<Rightarrow>
        Inr (put_at out 0 (probe_ack_bytes a), HEADER_LEN + 2))"

definition ack_flags :: "ack_pkt \<Rightarrow> byte" where
  "ack_flags a = (let f = (case ak_kind a of AK_Ack \<Rightarrow> FLAG_ACK | AK_Keepalive \<Rightarrow> FLAG_KEEPALIVE) in
     if ak_nack a then f OR FLAG_NACK else f)"

definition ack_bytes :: "ack_pkt \<Rightarrow> bytes" where
  "ack_bytes a = [MARKER, ack_flags a, ak_trigger_channel a] @ to_be32 (ak_trigger_seq a)
     @ concat (map to_be32 (ak_cumulative a))"

definition encode_ack :: "bytes \<Rightarrow> ack_pkt \<Rightarrow> (bytes \<times> nat) result" where
  "encode_ack out a =
     (if CHANNEL_COUNT \<le> unat (ak_trigger_channel a) then Inl Malformed
      else if ak_nack a \<and> ak_kind a \<noteq> AK_Ack then Inl Malformed
      else if length out < ACK_LEN then Inl BufferTooSmall
      else Inr (put_at out 0 (ack_bytes a), ACK_LEN))"

section \<open>Well-formed packets\<close>

definition wf_data :: "data_pkt \<Rightarrow> bool" where
  "wf_data d \<longleftrightarrow> unat (d_channel d) < CHANNEL_COUNT \<and> d_seq d \<noteq> U32_MAX"

definition wf_probe :: "probe_pkt \<Rightarrow> bool" where
  "wf_probe p \<longleftrightarrow> pr_id p \<noteq> U32_MAX \<and> legal_datagram (pr_size p)"

definition wf_probe_ack :: "probe_ack_pkt \<Rightarrow> bool" where
  "wf_probe_ack p \<longleftrightarrow> pa_id p \<noteq> U32_MAX \<and> legal_datagram (pa_size p)"

definition wf_ack :: "ack_pkt \<Rightarrow> bool" where
  "wf_ack a \<longleftrightarrow> unat (ak_trigger_channel a) < CHANNEL_COUNT \<and> ak_trigger_seq a \<noteq> U32_MAX
     \<and> (ak_nack a \<longrightarrow> ak_kind a = AK_Ack) \<and> length (ak_cumulative a) = CHANNEL_COUNT
     \<and> 1 \<le> ak_reported a \<and> ak_reported a \<le> CHANNEL_COUNT
     \<and> (\<forall>i < CHANNEL_COUNT. ak_reported a \<le> i \<longrightarrow> ak_cumulative a ! i = 0)"

fun wf_packet :: "packet \<Rightarrow> bool" where
  "wf_packet (PData d) = wf_data d"
| "wf_packet (PAck a) = wf_ack a"
| "wf_packet (PProbe p) = wf_probe p"
| "wf_packet (PProbeAck p) = wf_probe_ack p"

lemma be32_at:
  "be32 (xs @ to_be32 w @ ys) off = Inr w" if "off = length xs"
  using that by (simp add: be32_def get_range_def to_be32_def)

lemma be32_Inr: "off + 4 \<le> length xs \<Longrightarrow> \<exists>v. be32 xs off = Inr v \<and> take 4 (drop off xs) = to_be32 v"
proof -
  assume le: "off + 4 \<le> length xs"
  then have "length (take 4 (drop off xs)) = 4" by simp
  then obtain a b c d where "take 4 (drop off xs) = [a, b, c, d]"
    unfolding length_4_conv by blast
  then show ?thesis using le by (simp add: be32_def get_range_def)
qed

lemma data_bytes_parse: "wf_data d \<Longrightarrow> parse (data_bytes d) = Inr (PData d)"
  by (auto simp: parse_def data_bytes_def get_at_def wf_data_def core_consts flag_defs Let_def
      be32_def get_range_def get_from_def to_be32_def)

lemma unat_of_legal: "legal_datagram sz \<Longrightarrow> unat (of_nat sz :: u16) = sz"
  by (rule unat_of_nat_16) (simp add: legal_datagram_def core_consts)

lemma of_be16_to_be16:
  "of_be16 (ucast (drop_bit 8 (of_nat n :: u16))) (ucast (of_nat n :: u16)) = of_nat n"
  by (rule of_be16_split)

lemma probe_bytes_parse: "wf_probe p \<Longrightarrow> parse (probe_bytes p) = Inr (PProbe p)"
  by (auto simp: parse_def parse_probe_def probe_bytes_def get_at_def wf_probe_def core_consts
      flag_defs Let_def be32_def get_range_def get_from_def to_be32_def to_be16_def
      of_be16_to_be16 unat_of_legal list_ex_iff legal_datagram_def)

lemma probe_ack_bytes_parse: "wf_probe_ack p \<Longrightarrow> parse (probe_ack_bytes p) = Inr (PProbeAck p)"
  by (auto simp: parse_def parse_probe_def probe_ack_bytes_def get_at_def wf_probe_ack_def core_consts
      flag_defs Let_def be32_def get_range_def get_from_def to_be32_def to_be16_def
      of_be16_to_be16 unat_of_legal)

lemma length_concat_be32: "length (concat (map to_be32 ws)) = 4 * length ws"
  by (induction ws) auto

lemma read_cumulative_concat:
  "length pre = HEADER_LEN + index * 4 \<Longrightarrow>
   read_cumulative (pre @ concat (map to_be32 ws) @ post) index (length ws) = Inr ws"
proof (induction ws arbitrary: pre index)
  case (Cons w ws)
  have "read_cumulative ((pre @ to_be32 w) @ concat (map to_be32 ws) @ post) (Suc index) (length ws) = Inr ws"
    using Cons.prems by (intro Cons.IH) simp
  then show ?case using be32_at [of _ pre w "concat (map to_be32 ws) @ post"] Cons.prems by simp
qed simp

lemma ack_bytes_parse:
  assumes "wf_ack a" "ak_reported a = CHANNEL_COUNT"
  shows "parse (ack_bytes a) = Inr (PAck a)"
proof -
  let ?pre = "[MARKER, ack_flags a, ak_trigger_channel a] @ to_be32 (ak_trigger_seq a)"
  have len: "length (ak_cumulative a) = CHANNEL_COUNT" using assms(1) by (simp add: wf_ack_def)
  have "read_cumulative (?pre @ concat (map to_be32 (ak_cumulative a)) @ []) 0
      (length (ak_cumulative a)) = Inr (ak_cumulative a)"
    by (rule read_cumulative_concat) (simp add: core_consts)
  then have rc: "read_cumulative (ack_bytes a) 0 CHANNEL_COUNT = Inr (ak_cumulative a)"
    using len by (simp add: ack_bytes_def)
  have l: "length (ack_bytes a) = 83"
    using len by (simp add: ack_bytes_def length_concat_be32 core_consts)
  have b: "be32 (ack_bytes a) 3 = Inr (ak_trigger_seq a)"
    unfolding ack_bytes_def by (rule be32_at) simp
  have "parse_ack (ack_bytes a) (case ak_kind a of AK_Ack \<Rightarrow> FLAG_ACK | AK_Keepalive \<Rightarrow> FLAG_KEEPALIVE)
      (ak_trigger_channel a) (ak_nack a) (ak_trigger_seq a) = Inr (PAck a)"
    using rc l assms(2) by (auto simp: parse_ack_def core_consts flag_defs split: ack_kind.splits)
  then show ?thesis
    using l b assms(1) by (auto simp: parse_def get_at_def wf_ack_def Let_def ack_flags_def ack_bytes_def
        flag_defs core_consts split: ack_kind.splits)
qed

text \<open>The checks on a data packet leave two flag bytes.\<close>

lemma and_bit5: "(f :: byte) AND 32 = (if bit f 5 then 32 else 0)"
  using and_single_bit [of f 5] by simp

lemma data_flags_cases:
  assumes "f AND RESERVED_MASK = 0" "f AND (FLAG_PROBE OR FLAG_PROBE_ACK) = 0"
    "f AND KIND_MASK = FLAG_DATA" "f AND FLAG_NACK = 0"
  shows "f = (if f AND FLAG_LAST \<noteq> 0 then FLAG_DATA OR FLAG_LAST else FLAG_DATA)"
proof -
  have "(128 OR 68 OR 11 OR 16 OR 32 :: byte) = - 1" by simp
  then have m: "f AND (128 OR 68 OR 11 OR 16 OR 32) = f" by (metis and.right_neutral)
  have "f = (f AND 128) OR (f AND 68) OR (f AND 11) OR (f AND 16) OR (f AND 32)"
    by (subst m [symmetric]) (simp only: bit.conj_disj_distrib)
  with assms and_bit5 [of f] show ?thesis by (auto simp: flag_defs split: if_splits)
qed

lemma split_header:
  assumes "7 \<le> length b"
  shows "b = [b ! 0, b ! 1, b ! 2] @ take 4 (drop 3 b) @ drop 7 b"
proof -
  obtain x y z r where b: "b = x # y # z # r"
    using assms by (cases b; cases "tl b"; cases "tl (tl b)") auto
  have "r = take 4 r @ drop 4 r" by simp
  with b show ?thesis by simp
qed

text \<open>
  Whatever \<open>parse\<close> accepts is well formed, and a data packet is accepted in exactly one spelling.
\<close>

lemma parse_probe_wf: "parse_probe ct m f ch = Inr p \<Longrightarrow> wf_packet p"
  by (auto simp: parse_probe_def wf_probe_def wf_probe_ack_def Let_def
      split: if_splits sum.splits option.splits list.splits)

lemma read_cumulative_length: "read_cumulative ct i n = Inr vs \<Longrightarrow> length vs = n"
  by (induction ct i n arbitrary: vs rule: read_cumulative.induct) (auto split: sum.splits)

lemma parse_ack_wf:
  assumes "parse_ack ct kind ch nack sq = Inr p" "unat ch < CHANNEL_COUNT" "sq \<noteq> U32_MAX"
    "nack \<longrightarrow> kind = FLAG_ACK"
  shows "wf_packet p"
proof -
  define r where "r = min ((length ct - HEADER_LEN) div 4) CHANNEL_COUNT"
  obtain vs where vs: "read_cumulative ct 0 r = Inr vs" and r: "r \<noteq> 0" "r \<le> CHANNEL_COUNT"
    and p: "p = PAck \<lparr>ak_kind = (if kind = FLAG_ACK then AK_Ack else AK_Keepalive),
       ak_nack = nack, ak_trigger_channel = ch, ak_trigger_seq = sq,
       ak_cumulative = vs @ replicate (CHANNEL_COUNT - r) 0, ak_reported = r\<rparr>"
    using assms(1) by (auto simp: parse_ack_def Let_def core_consts r_def split: if_splits sum.splits)
  have "length vs = r" using vs by (rule read_cumulative_length)
  with r assms(2-4) show ?thesis unfolding p by (auto simp: wf_ack_def nth_append)
qed

lemma parse_wf: "parse ct = Inr p \<Longrightarrow> wf_packet p"
  by (auto simp: parse_def Let_def wf_data_def elim: parse_ack_wf
      split: if_splits sum.splits option.splits dest: parse_probe_wf)

lemma parse_data_bytes:
  assumes "parse b = Inr (PData d)"
  shows "b = data_bytes d"
proof -
  let ?f = "b ! 1"
  have len: "7 \<le> length b" and m: "b ! 0 = MARKER"
    and f: "?f AND RESERVED_MASK = 0" "?f AND (FLAG_PROBE OR FLAG_PROBE_ACK) = 0"
      "?f AND KIND_MASK = FLAG_DATA" "?f AND FLAG_NACK = 0"
    and sq: "be32 b 3 = Inr (d_seq d)" and ch: "d_channel d = b ! 2"
    and la: "d_last d = (?f AND FLAG_LAST \<noteq> 0)" and body: "d_body d = drop 7 b"
    using assms by (auto simp: parse_def Let_def get_at_def get_from_def parse_probe_def parse_ack_def
        HEADER_LEN_def split: if_splits sum.splits option.splits list.splits)
  have "b = [b ! 0, ?f, b ! 2] @ take 4 (drop 3 b) @ drop 7 b" using len by (rule split_header)
  also have "take 4 (drop 3 b) = to_be32 (d_seq d)" using be32_Inr [of 3 b] len sq by auto
  finally show ?thesis
    using data_flags_cases [OF f] m ch la body by (simp add: data_bytes_def)
qed

section \<open>The four packet formats as codecs\<close>

interpretation data_wire: wire_codec wf_data data_bytes parse PData
  by unfold_locales (rule data_bytes_parse)

interpretation probe_wire: wire_codec wf_probe probe_bytes parse PProbe
  by unfold_locales (rule probe_bytes_parse)

interpretation probe_ack_wire: wire_codec wf_probe_ack probe_ack_bytes parse PProbeAck
  by unfold_locales (rule probe_ack_bytes_parse)

interpretation ack_wire: wire_codec "\<lambda>a. wf_ack a \<and> ak_reported a = CHANNEL_COUNT" ack_bytes parse PAck
  by unfold_locales (blast intro: ack_bytes_parse)

text \<open>Encoding into a buffer: what was written parses back to the packet.\<close>

lemma length_data_bytes: "length (data_bytes d) = HEADER_LEN + length (d_body d)"
  by (simp add: data_bytes_def core_consts)

lemma length_probe_bytes: "wf_probe p \<Longrightarrow> length (probe_bytes p) = pr_size p - ENVELOPE_LEN"
  by (auto simp: probe_bytes_def wf_probe_def legal_datagram_def core_consts)

lemma length_probe_ack_bytes: "length (probe_ack_bytes p) = HEADER_LEN + 2"
  by (simp add: probe_ack_bytes_def core_consts)

lemma length_ack_bytes: "length (ak_cumulative a) = CHANNEL_COUNT \<Longrightarrow> length (ack_bytes a) = ACK_LEN"
  by (simp add: ack_bytes_def length_concat_be32 core_consts ACK_LEN_def)

lemma encode_data_Inr:
  "encode_data out d = Inr (out', n) \<longleftrightarrow>
     wf_data d \<and> n = HEADER_LEN + length (d_body d) \<and> n < usize_bound \<and> n \<le> length out
     \<and> out' = put_at out 0 (data_bytes d)"
  by (auto simp: encode_data_def wf_data_def usize_checked_add_def split: if_splits)

lemma encode_probe_Inr:
  "encode_probe out p = Inr (out', n) \<longleftrightarrow>
     wf_probe p \<and> n = pr_size p - ENVELOPE_LEN \<and> n \<le> length out \<and> out' = put_at out 0 (probe_bytes p)"
  by (auto simp: encode_probe_def wf_probe_def legal_datagram_def core_consts u16_try_from_def Let_def
      split: if_splits)

lemma encode_probe_ack_Inr:
  "encode_probe_ack out p = Inr (out', n) \<longleftrightarrow>
     wf_probe_ack p \<and> n = HEADER_LEN + 2 \<and> n \<le> length out \<and> out' = put_at out 0 (probe_ack_bytes p)"
  by (auto simp: encode_probe_ack_def wf_probe_ack_def legal_datagram_def core_consts u16_try_from_def
      split: if_splits)

lemma take_put_at_0: "n = length src \<Longrightarrow> n \<le> length xs \<Longrightarrow> take n (put_at xs 0 src) = src"
  by (simp add: put_at_prefix)

lemma encode_data_parse: "encode_data out d = Inr (out', n) \<Longrightarrow> parse (take n out') = Inr (PData d)"
  by (auto simp: encode_data_Inr take_put_at_0 length_data_bytes data_wire.parse_encode)

lemma encode_probe_parse: "encode_probe out p = Inr (out', n) \<Longrightarrow> parse (take n out') = Inr (PProbe p)"
  by (auto simp: encode_probe_Inr take_put_at_0 length_probe_bytes probe_wire.parse_encode)

lemma encode_probe_ack_parse:
  "encode_probe_ack out p = Inr (out', n) \<Longrightarrow> parse (take n out') = Inr (PProbeAck p)"
  by (auto simp: encode_probe_ack_Inr take_put_at_0 length_probe_ack_bytes probe_ack_wire.parse_encode)

lemma encode_ack_parse:
  assumes "encode_ack out a = Inr (out', n)" "length (ak_cumulative a) = CHANNEL_COUNT"
    "ak_reported a = CHANNEL_COUNT" "ak_trigger_seq a \<noteq> U32_MAX"
  shows "parse (take n out') = Inr (PAck a)"
proof -
  from assms have "wf_ack a \<and> ak_reported a = CHANNEL_COUNT"
    by (auto simp: encode_ack_def wf_ack_def CHANNEL_COUNT_def split: if_splits)
  then have "parse (ack_bytes a) = Inr (PAck a)" by (rule ack_wire.parse_encode)
  with assms show ?thesis
    by (auto simp: encode_ack_def take_put_at_0 length_ack_bytes split: if_splits)
qed

end
