(* ===== verification/Message.thy ===== *)
theory Message
  imports Packet
begin

text \<open>
  Message framing and fragmentation (\<open>core/src/message.rs\<close>): a message is the virtual stream
  \<open>[u32 length][header][payload]\<close>, sliced into fragments of \<open>body_capacity\<close> bytes.
\<close>

definition LENGTH_PREFIX_LEN :: nat where "LENGTH_PREFIX_LEN = 4"

definition fragment_count :: "u32 \<Rightarrow> nat \<Rightarrow> nat" where
  "fragment_count total_len body_capacity =
     (if body_capacity = 0 then 0
      else let stream = unat total_len + LENGTH_PREFIX_LEN; whole = stream div body_capacity in
        if stream mod body_capacity = 0 then whole else whole + 1)"

definition parse_length_prefix :: "bytes \<Rightarrow> u32 result" where
  "parse_length_prefix first_body = (case get_range first_body 0 LENGTH_PREFIX_LEN of
     Some [a, b, c, d] \<Rightarrow> Inr (of_be32 a b c d) | _ \<Rightarrow> Inl BadLength)"

record message =
  m_prefix :: bytes
  m_header :: bytes
  m_payload :: bytes

record fragment =
  fr_len :: nat
  fr_last :: bool

definition message_new :: "bytes \<Rightarrow> bytes \<Rightarrow> message result" where
  "message_new header payload =
     (case usize_checked_add (length header) (length payload) of None \<Rightarrow> Inl BadLength
      | Some n \<Rightarrow> case u32_try_from n of None \<Rightarrow> Inl BadLength
        | Some tot \<Rightarrow> Inr \<lparr>m_prefix = to_be32 tot, m_header = header, m_payload = payload\<rparr>)"

definition total_len :: "message \<Rightarrow> u32" where
  "total_len m = of_be32 (m_prefix m ! 0) (m_prefix m ! 1) (m_prefix m ! 2) (m_prefix m ! 3)"

definition stream_len :: "message \<Rightarrow> nat" where
  "stream_len m = LENGTH_PREFIX_LEN + length (m_header m) + length (m_payload m)"

definition message_fragment_count :: "message \<Rightarrow> nat \<Rightarrow> nat" where
  "message_fragment_count m body_capacity = fragment_count (total_len m) body_capacity"

definition byte_at :: "message \<Rightarrow> nat \<Rightarrow> byte option" where
  "byte_at m position =
     (if position < LENGTH_PREFIX_LEN then get_at (m_prefix m) position
      else let position = position - LENGTH_PREFIX_LEN in
        if position < length (m_header m) then get_at (m_header m) position
        else get_at (m_payload m) (position - length (m_header m)))"

text \<open>The copy loop of \<open>fragment\<close>: the next \<open>n\<close> bytes of the virtual stream.\<close>

fun copy_bytes :: "message \<Rightarrow> nat \<Rightarrow> nat \<Rightarrow> bytes option" where
  "copy_bytes m start 0 = Some []"
| "copy_bytes m start (Suc n) =
     (case byte_at m start of None \<Rightarrow> None | Some v \<Rightarrow>
       case copy_bytes m (Suc start) n of None \<Rightarrow> None | Some vs \<Rightarrow> Some (v # vs))"

text \<open>
  The outer \<^const>\<open>None\<close> is the source's \<open>None\<close>: the index is past the end. A written fragment
  comes with the updated buffer.
\<close>

definition message_fragment ::
  "message \<Rightarrow> nat \<Rightarrow> nat \<Rightarrow> bytes \<Rightarrow> (fragment \<times> bytes) result option" where
  "message_fragment m index body_capacity out =
     (if body_capacity = 0 then Some (Inl BadLength)
      else let strm = stream_len m in
        case usize_checked_mul index body_capacity of None \<Rightarrow> None
        | Some start \<Rightarrow>
            if strm \<le> start then None
            else let stop = min (start + body_capacity) strm; len = stop - start in
              if length out < len then Some (Inl BufferTooSmall)
              else case copy_bytes m start len of
                None \<Rightarrow> Some (Inl BadLength)
              | Some dst \<Rightarrow> Some (Inr (\<lparr>fr_len = len, fr_last = (stop = strm)\<rparr>, put_at out 0 dst)))"

section \<open>The virtual stream\<close>

definition stream :: "message \<Rightarrow> bytes" where
  "stream m = m_prefix m @ m_header m @ m_payload m"

definition content :: "message \<Rightarrow> bytes" where
  "content m = m_header m @ m_payload m"

text \<open>What \<open>Message::new\<close> guarantees.\<close>

definition wf_message :: "message \<Rightarrow> bool" where
  "wf_message m \<longleftrightarrow> m_prefix m = to_be32 (of_nat (length (content m))) \<and> length (content m) < 2 ^ 32"

lemma message_new_wf: "message_new h p = Inr m \<Longrightarrow> wf_message m \<and> content m = h @ p"
  by (auto simp: message_new_def wf_message_def content_def usize_checked_add_def u32_try_from_def
      split: if_splits option.splits)

lemma wf_message_lengths:
  assumes "wf_message m"
  shows "length (stream m) = stream_len m" "unat (total_len m) = length (content m)"
    "stream_len m = 4 + length (content m)"
proof -
  have p: "m_prefix m = to_be32 (of_nat (length (content m)))" and l: "length (content m) < 2 ^ 32"
    using assms by (auto simp: wf_message_def)
  show "length (stream m) = stream_len m"
    using p by (simp add: stream_def stream_len_def LENGTH_PREFIX_LEN_def)
  show "unat (total_len m) = length (content m)"
    using p l by (simp add: total_len_def to_be32_def unat_of_nat_32)
  show "stream_len m = 4 + length (content m)"
    by (simp add: stream_len_def LENGTH_PREFIX_LEN_def content_def)
qed

lemma byte_at_stream:
  assumes "length (m_prefix m) = 4" "i < length (stream m)"
  shows "byte_at m i = Some (stream m ! i)"
  using assms by (auto simp: byte_at_def stream_def LENGTH_PREFIX_LEN_def get_at_def nth_append Let_def)

lemma copy_bytes_stream:
  assumes "length (m_prefix m) = 4"
  shows "start + n \<le> length (stream m) \<Longrightarrow> copy_bytes m start n = Some (take n (drop start (stream m)))"
proof (induction n arbitrary: start)
  case (Suc n)
  have "take (Suc n) (drop start (stream m)) = stream m ! start # take n (drop (Suc start) (stream m))"
    using Suc.prems by (simp add: Cons_nth_drop_Suc [symmetric])
  then show ?case using Suc byte_at_stream [OF assms, of start] by simp
qed simp

text \<open>Fragment \<open>i\<close> at capacity \<open>cap\<close> is the \<open>i\<close>-th chunk of the stream.\<close>

definition chunk :: "nat \<Rightarrow> nat \<Rightarrow> bytes \<Rightarrow> bytes" where
  "chunk cap i xs = take cap (drop (i * cap) xs)"

lemma wf_message_prefix_len: "wf_message m \<Longrightarrow> length (m_prefix m) = 4"
  by (simp add: wf_message_def)

lemma fragment_count_ceil:
  assumes "wf_message m" "0 < cap"
  shows "i < message_fragment_count m cap \<longleftrightarrow> i * cap < length (stream m)"
proof -
  let ?n = "length (stream m)"
  have c: "message_fragment_count m cap = (if ?n mod cap = 0 then ?n div cap else ?n div cap + 1)"
    using assms wf_message_lengths [OF assms(1)]
    by (simp add: message_fragment_count_def fragment_count_def LENGTH_PREFIX_LEN_def Let_def add.commute)
  show ?thesis
  proof (cases "?n mod cap = 0")
    case True
    then have "?n = ?n div cap * cap" by (metis add.right_neutral div_mult_mod_eq)
    then show ?thesis using c True assms(2) by (metis mult_less_cancel2)
  next
    case False
    have "i < ?n div cap + 1 \<longleftrightarrow> i \<le> ?n div cap" by auto
    also have "\<dots> \<longleftrightarrow> i * cap \<le> ?n" using assms(2) by (simp add: less_eq_div_iff_mult_less_eq)
    also have "\<dots> \<longleftrightarrow> i * cap < ?n" using False by (metis mod_mult_self2_is_0 le_less)
    finally show ?thesis using c False by simp
  qed
qed

lemma message_fragment_chunk:
  assumes "wf_message m" "0 < cap" "i < message_fragment_count m cap" "cap \<le> length out"
  shows "message_fragment m i cap out = Some (Inr
     (\<lparr>fr_len = length (chunk cap i (stream m)), fr_last = (length (stream m) \<le> i * cap + cap)\<rparr>,
      put_at out 0 (chunk cap i (stream m))))"
proof -
  have lt: "i * cap < length (stream m)" using assms fragment_count_ceil by blast
  have sl: "stream_len m = length (stream m)" using wf_message_lengths [OF assms(1)] by simp
  have "length (stream m) < usize_bound"
    using wf_message_lengths [OF assms(1)] assms(1) by (simp add: wf_message_def usize_bound_def)
  with lt have mul: "usize_checked_mul i cap = Some (i * cap)"
    by (simp add: usize_checked_mul_def)
  have len: "length (chunk cap i (stream m)) = min (i * cap + cap) (length (stream m)) - i * cap"
    using lt by (simp add: chunk_def)
  have "copy_bytes m (i * cap) (min (i * cap + cap) (length (stream m)) - i * cap) =
      Some (take (min (i * cap + cap) (length (stream m)) - i * cap) (drop (i * cap) (stream m)))"
    using lt by (intro copy_bytes_stream wf_message_prefix_len assms(1)) auto
  also have "take (min (i * cap + cap) (length (stream m)) - i * cap) (drop (i * cap) (stream m))
      = chunk cap i (stream m)"
    unfolding chunk_def by (metis add_diff_cancel_left' diff_is_0_eq length_drop min_diff nat_le_linear take_all_iff min_def take_drop drop_take take_take)
  finally show ?thesis
    using assms(2,4) lt mul sl len by (auto simp: message_fragment_def Let_def)
qed

text \<open>The fragments of a message, in order, are the stream.\<close>

definition fragments :: "nat \<Rightarrow> message \<Rightarrow> bytes list" where
  "fragments cap m = map (\<lambda>i. chunk cap i (stream m)) [0..<message_fragment_count m cap]"

lemma concat_chunks: "concat (map (\<lambda>i. chunk cap i xs) [0..<n]) = take (n * cap) xs"
proof (induction n)
  case (Suc n)
  have "take (Suc n * cap) xs = take (n * cap) xs @ chunk cap n xs"
    using take_add [of "n * cap" cap xs] by (simp add: chunk_def add.commute)
  with Suc show ?case by simp
qed simp

lemma concat_fragments:
  assumes "wf_message m" "0 < cap"
  shows "concat (fragments cap m) = stream m"
proof -
  have "length (stream m) \<le> message_fragment_count m cap * cap"
    using fragment_count_ceil [OF assms, of "message_fragment_count m cap"] by simp
  then show ?thesis by (simp add: fragments_def concat_chunks)
qed

lemma length_fragments [simp]: "length (fragments cap m) = message_fragment_count m cap"
  by (simp add: fragments_def)

lemma nth_fragments [simp]: "i < message_fragment_count m cap \<Longrightarrow> fragments cap m ! i = chunk cap i (stream m)"
  by (simp add: fragments_def)

lemma stream_nonempty: "wf_message m \<Longrightarrow> 4 \<le> length (stream m)"
  by (simp add: wf_message_lengths)

lemma fragments_nonempty:
  assumes "wf_message m" "0 < cap"
  shows "[] \<notin> set (fragments cap m)" "0 < message_fragment_count m cap"
proof -
  have "chunk cap i (stream m) \<noteq> []" if "i < message_fragment_count m cap" for i
  proof -
    have "i * cap < length (stream m)" using that fragment_count_ceil [OF assms] by blast
    then show ?thesis using assms(2) by (simp add: chunk_def)
  qed
  then show "[] \<notin> set (fragments cap m)" by (auto simp: fragments_def) (metis (lifting))
  show "0 < message_fragment_count m cap"
    using fragment_count_ceil [OF assms, of 0] stream_nonempty [OF assms(1)] by auto
qed

lemma drop_4_stream: "wf_message m \<Longrightarrow> drop 4 (stream m) = content m"
  by (simp add: stream_def content_def wf_message_prefix_len)

lemma parse_prefix_chunk:
  assumes "wf_message m" "4 \<le> cap"
  shows "parse_length_prefix (chunk cap 0 (stream m)) = Inr (of_nat (length (content m)))"
proof -
  have "take 4 (chunk cap 0 (stream m)) = m_prefix m"
    using assms wf_message_prefix_len [OF assms(1)] by (simp add: chunk_def stream_def min_def)
  moreover have "4 \<le> length (chunk cap 0 (stream m))"
    using assms stream_nonempty by (simp add: chunk_def)
  ultimately show ?thesis
    using assms(1) by (simp add: parse_length_prefix_def get_range_def LENGTH_PREFIX_LEN_def wf_message_def to_be32_def)
qed

lemma fragment_count_bound:
  assumes "wf_message m" "0 < cap"
  shows "message_fragment_count m cap \<le> length (stream m)"
proof (rule ccontr)
  assume "\<not> message_fragment_count m cap \<le> length (stream m)"
  then have "length (stream m) * cap < length (stream m)"
    using fragment_count_ceil [OF assms, of "length (stream m)"] by simp
  then show False using assms(2) by (cases cap) auto
qed

end
