(* ===== verification/Recv_Ring.thy ===== *)
theory Recv_Ring
  imports Message
begin

text \<open>
  The per-channel receive ring (\<open>core/src/channel.rs\<close>): a direct-mapped sliding window of
  fragment slots over a flat byte arena, the contiguous frontier that is acknowledged, message
  reassembly and the escape from an unfillable gap. Operations return the updated ring.
\<close>

section \<open>State\<close>

definition RING_SLOTS :: nat where "RING_SLOTS = 4000"

datatype stored = Accepted | Duplicate | OutOfWindow | TooLarge

record slot_meta =
  sm_len :: u16
  sm_ready :: bool

definition slot_meta_default :: slot_meta where
  "slot_meta_default = \<lparr>sm_len = 0, sm_ready = False\<rparr>"

record recv_ring =
  rr_bodies :: bytes
  rr_meta :: "slot_meta list"
  rr_slot_len :: nat
  rr_delivered :: u32
  rr_cumulative :: u32
  rr_highest :: u32

definition recv_new :: "bytes \<Rightarrow> slot_meta list \<Rightarrow> nat \<Rightarrow> recv_ring result" where
  "recv_new bodies meta slot_len =
     (if slot_len = 0 \<or> meta = [] then Inl BadLength
      else case usize_checked_mul (length meta) slot_len of None \<Rightarrow> Inl BadLength
      | Some n \<Rightarrow>
          if length bodies \<noteq> n then Inl BadLength
          else Inr \<lparr>rr_bodies = bodies, rr_meta = meta, rr_slot_len = slot_len,
                    rr_delivered = 0, rr_cumulative = 0, rr_highest = 0\<rparr>)"

definition recv_reset_to :: "recv_ring \<Rightarrow> u32 \<Rightarrow> recv_ring" where
  "recv_reset_to r start =
     r\<lparr>rr_meta := map (\<lambda>_. slot_meta_default) (rr_meta r), rr_delivered := start,
       rr_cumulative := start, rr_highest := start\<rparr>"

section \<open>Queries\<close>

definition recv_cumulative_ack :: "recv_ring \<Rightarrow> u32" where
  "recv_cumulative_ack r = rr_cumulative r"

definition recv_has_gap :: "recv_ring \<Rightarrow> bool" where
  "recv_has_gap r = (rr_cumulative r \<noteq> rr_highest r)"

definition recv_slots :: "recv_ring \<Rightarrow> nat" where
  "recv_slots r = length (rr_meta r)"

definition recv_index :: "recv_ring \<Rightarrow> u32 \<Rightarrow> nat" where
  "recv_index r sequence = unat sequence mod length (rr_meta r)"

definition slot_body :: "recv_ring \<Rightarrow> u32 \<Rightarrow> bytes option" where
  "slot_body r sequence =
     (let index = recv_index r sequence in
      case get_at (rr_meta r) index of None \<Rightarrow> None
      | Some meta \<Rightarrow>
          if \<not> sm_ready meta then None
          else case usize_checked_mul index (rr_slot_len r) of None \<Rightarrow> None
          | Some start \<Rightarrow> case usize_checked_add start (unat (sm_len meta)) of None \<Rightarrow> None
            | Some stop \<Rightarrow> get_range (rr_bodies r) start stop)"

definition recv_window_used :: "recv_ring \<Rightarrow> u32" where
  "recv_window_used r = rr_highest r - rr_delivered r"

section \<open>Storing a fragment\<close>

definition slot_ready :: "recv_ring \<Rightarrow> nat \<Rightarrow> bool" where
  "slot_ready r index = (case get_at (rr_meta r) index of Some meta \<Rightarrow> sm_ready meta | None \<Rightarrow> False)"

function recv_advance :: "recv_ring \<Rightarrow> recv_ring" where
  "recv_advance r =
     (if rr_cumulative r \<noteq> rr_highest r \<and> slot_ready r (recv_index r (rr_cumulative r))
      then recv_advance (r\<lparr>rr_cumulative := rr_cumulative r + 1\<rparr>) else r)"
  by pat_completeness auto
termination
  by (relation "measure (\<lambda>r. unat (rr_highest r - rr_cumulative r))") (auto simp: unat_dist_less)

declare recv_advance.simps [simp del]

definition recv_store :: "recv_ring \<Rightarrow> u32 \<Rightarrow> bytes \<Rightarrow> recv_ring \<times> stored" where
  "recv_store r sequence body =
     (if seq_lt sequence (rr_delivered r) then (r, Duplicate)
      else if length (rr_meta r) \<le> unat (seq_distance (rr_delivered r) sequence) then (r, OutOfWindow)
      else if rr_slot_len r < length body then (r, TooLarge)
      else case u16_try_from (length body) of None \<Rightarrow> (r, TooLarge)
      | Some len \<Rightarrow>
          let index = recv_index r sequence in
          case get_at (rr_meta r) index of None \<Rightarrow> (r, OutOfWindow)
          | Some meta \<Rightarrow>
              if sm_ready meta then (r, Duplicate)
              else case usize_checked_mul index (rr_slot_len r) of None \<Rightarrow> (r, OutOfWindow)
              | Some start \<Rightarrow>
                  if length (rr_bodies r) < start + length body then (r, OutOfWindow)
                  else
                    let next = sequence + 1;
                        r1 = r\<lparr>rr_bodies := put_at (rr_bodies r) start body,
                               rr_meta := (rr_meta r)[index := \<lparr>sm_len = len, sm_ready = True\<rparr>],
                               rr_highest := (if seq_gt next (rr_highest r) then next else rr_highest r)\<rparr>
                    in (recv_advance r1, Accepted))"

section \<open>Escaping a stall\<close>

function escape_scan :: "recv_ring \<Rightarrow> (bytes \<Rightarrow> bool) \<Rightarrow> u32 \<Rightarrow> u32 option \<Rightarrow> u32 option
    \<Rightarrow> u32 option \<times> u32 option" where
  "escape_scan r resumable cursor furthest furthest_resumable =
     (if cursor = rr_highest r then (furthest, furthest_resumable)
      else case slot_body r cursor of
        None \<Rightarrow> escape_scan r resumable (cursor + 1) furthest furthest_resumable
      | Some body \<Rightarrow> escape_scan r resumable (cursor + 1) (Some cursor)
          (if resumable body then Some cursor else furthest_resumable))"
  by pat_completeness auto
termination
  by (relation "measure (\<lambda>(r, p, c, f, g). unat (rr_highest r - c))") (auto simp: unat_dist_less)

declare escape_scan.simps [simp del]

function clear_range :: "slot_meta list \<Rightarrow> u32 \<Rightarrow> u32 \<Rightarrow> slot_meta list" where
  "clear_range meta cursor target =
     (if cursor = target then meta
      else clear_range (meta[unat cursor mod length meta := slot_meta_default]) (cursor + 1) target)"
  by pat_completeness auto
termination
  by (relation "measure (\<lambda>(m, c, t). unat (t - c))") (auto simp: unat_dist_less)

declare clear_range.simps [simp del]

definition recv_escape_stall :: "recv_ring \<Rightarrow> (bytes \<Rightarrow> bool) \<Rightarrow> recv_ring \<times> u32 option" where
  "recv_escape_stall r resumable =
     (if \<not> recv_has_gap r then (r, None)
      else
        let (furthest, furthest_resumable) = escape_scan r resumable (rr_delivered r) None None in
        case (case furthest_resumable of Some t \<Rightarrow> Some t | None \<Rightarrow> furthest) of
          None \<Rightarrow> (r, None)
        | Some target \<Rightarrow>
            if seq_le target (rr_delivered r) then (r, None)
            else
              let r1 = r\<lparr>rr_meta := clear_range (rr_meta r) (rr_delivered r) target,
                         rr_delivered := target,
                         rr_cumulative := (if seq_lt (rr_cumulative r) target then target
                                           else rr_cumulative r)\<rparr>
              in (recv_advance r1, Some target))"

section \<open>Taking a message\<close>

text \<open>
  The first loop of \<open>take_message\<close>: accumulate fragment lengths until they reach the declared
  stream length. \<^const>\<open>None\<close> is the early return for a tail that has not arrived.
\<close>

function collect :: "recv_ring \<Rightarrow> nat \<Rightarrow> u32 \<Rightarrow> nat \<Rightarrow> u32 \<Rightarrow> (nat \<times> u32) option" where
  "collect r strm cursor collected nfrag =
     (if \<not> collected < strm then Some (collected, nfrag)
      else if cursor = rr_cumulative r then None
      else case slot_body r cursor of None \<Rightarrow> None
      | Some body \<Rightarrow> case usize_checked_add collected (length body) of None \<Rightarrow> None
        | Some collected' \<Rightarrow> case chk_add nfrag 1 of None \<Rightarrow> None
          | Some nfrag' \<Rightarrow> collect r strm (cursor + 1) collected' nfrag')"
  by pat_completeness auto
termination
  by (relation "measure (\<lambda>(r, s, c, k, f). unat (rr_cumulative r - c))") (auto simp: unat_dist_less)

declare collect.simps [simp del]

text \<open>
  The copy loop, one unit of fuel per fragment; \<^const>\<open>None\<close> is running out of it, which
  \<open>take_message\<close> never does (\<open>copy_loop_enough\<close> below).
\<close>

fun copy_loop :: "nat \<Rightarrow> recv_ring \<Rightarrow> nat \<Rightarrow> u32 \<Rightarrow> nat \<Rightarrow> nat \<Rightarrow> bytes \<Rightarrow> bytes result option" where
  "copy_loop fuel r tot cursor written skip out =
     (if \<not> written < tot then Some (Inr out)
      else case fuel of 0 \<Rightarrow> None
      | Suc fuel' \<Rightarrow>
          (case slot_body r cursor of None \<Rightarrow> Some (Inl BadLength)
           | Some body \<Rightarrow>
               let src = (case get_from body skip of Some s \<Rightarrow> s | None \<Rightarrow> []);
                   tk = min (length src) (tot - written) in
               if length out < written + tk then Some (Inl BufferTooSmall)
               else copy_loop fuel' r tot (cursor + 1) (written + tk) 0
                      (put_at out written (take tk src))))"

declare copy_loop.simps [simp del]

fun clear_count :: "slot_meta list \<Rightarrow> u32 \<Rightarrow> nat \<Rightarrow> slot_meta list" where
  "clear_count meta cursor 0 = meta"
| "clear_count meta cursor (Suc n) =
     clear_count (meta[unat cursor mod length meta := slot_meta_default]) (cursor + 1) n"

definition recv_take_message :: "recv_ring \<Rightarrow> bytes \<Rightarrow> recv_ring \<times> bytes \<times> nat result option" where
  "recv_take_message r out =
     (if rr_delivered r = rr_cumulative r then (r, out, None)
      else case slot_body r (rr_delivered r) of None \<Rightarrow> (r, out, None)
      | Some first \<Rightarrow> case parse_length_prefix first of Inl e \<Rightarrow> (r, out, Some (Inl e))
        | Inr declared \<Rightarrow>
            let tot = unat declared in
            case usize_checked_add tot LENGTH_PREFIX_LEN of None \<Rightarrow> (r, out, None)
            | Some strm \<Rightarrow> case collect r strm (rr_delivered r) 0 0 of None \<Rightarrow> (r, out, None)
              | Some (collected, nfrag) \<Rightarrow>
                  if collected \<noteq> strm then (r, out, Some (Inl BadLength))
                  else if length out < tot then (r, out, Some (Inl BufferTooSmall))
                  else case copy_loop (unat nfrag) r tot (rr_delivered r) 0 LENGTH_PREFIX_LEN out of
                    None \<Rightarrow> (r, out, Some (Inl BadLength))
                  | Some (Inl e) \<Rightarrow> (r, out, Some (Inl e))
                  | Some (Inr out') \<Rightarrow>
                      (r\<lparr>rr_meta := clear_count (rr_meta r) (rr_delivered r) (unat nfrag),
                         rr_delivered := rr_delivered r + nfrag\<rparr>, out', Some (Inr tot)))"

section \<open>Invariant and abstraction\<close>

text \<open>
  \<open>ring_shape\<close> is what the constructor establishes about the storage. \<open>ring_inv\<close> adds what the
  three cursors and the ready bits say to each other, in the regime in which the window does not
  straddle the end of the sequence space: slots are indexed by \<open>seq mod slots\<close>, and unless the
  slot count divides \<open>2 ^ 32\<close> two sequences on either side of the wrap share a slot.
\<close>

definition ring_shape :: "recv_ring \<Rightarrow> bool" where
  "ring_shape r \<longleftrightarrow> 0 < rr_slot_len r \<and> 0 < recv_slots r \<and> recv_slots r < 2147483648
     \<and> length (rr_bodies r) = recv_slots r * rr_slot_len r
     \<and> recv_slots r * rr_slot_len r < usize_bound
     \<and> (\<forall>m \<in> set (rr_meta r). unat (sm_len m) \<le> rr_slot_len r)"

definition ready_at :: "recv_ring \<Rightarrow> nat \<Rightarrow> bool" where
  "ready_at r k = sm_ready (rr_meta r ! (k mod recv_slots r))"

definition ring_inv :: "recv_ring \<Rightarrow> bool" where
  "ring_inv r \<longleftrightarrow> ring_shape r
     \<and> unat (rr_delivered r) + recv_slots r < 4294967296
     \<and> unat (rr_delivered r) \<le> unat (rr_cumulative r)
     \<and> unat (rr_cumulative r) \<le> unat (rr_highest r)
     \<and> unat (rr_highest r) \<le> unat (rr_delivered r) + recv_slots r
     \<and> (\<forall>k. unat (rr_delivered r) \<le> k \<and> k < unat (rr_delivered r) + recv_slots r \<and> ready_at r k
          \<longrightarrow> k < unat (rr_highest r))
     \<and> (\<forall>k. unat (rr_delivered r) \<le> k \<and> k < unat (rr_cumulative r) \<longrightarrow> ready_at r k)
     \<and> (unat (rr_cumulative r) < unat (rr_highest r) \<longrightarrow> \<not> ready_at r (unat (rr_cumulative r)))"

text \<open>The abstract channel: the fragments held, by absolute sequence number.\<close>

definition recv_abs :: "recv_ring \<Rightarrow> nat \<rightharpoonup> bytes" where
  "recv_abs r k =
     (if unat (rr_delivered r) \<le> k \<and> k < unat (rr_delivered r) + recv_slots r
      then slot_body r (of_nat k) else None)"

definition slot_bytes :: "recv_ring \<Rightarrow> nat \<Rightarrow> bytes" where
  "slot_bytes r j = take (unat (sm_len (rr_meta r ! j))) (drop (j * rr_slot_len r) (rr_bodies r))"

lemma slot_body_shape:
  assumes "ring_shape r"
  shows "slot_body r s = (if ready_at r (unat s) then Some (slot_bytes r (unat s mod recv_slots r)) else None)"
proof -
  let ?j = "unat s mod recv_slots r"
  let ?l = "unat (sm_len (rr_meta r ! ?j))"
  have j: "?j < recv_slots r" using assms by (simp add: ring_shape_def)
  then have "rr_meta r ! ?j \<in> set (rr_meta r)" by (simp add: recv_slots_def)
  then have l: "?l \<le> rr_slot_len r" using assms by (simp add: ring_shape_def)
  have reg: "?j * rr_slot_len r + ?l \<le> length (rr_bodies r)" "length (rr_bodies r) < usize_bound"
    using slot_region [OF j l] assms by (simp_all add: ring_shape_def)
  show ?thesis
    using j reg by (auto simp: slot_body_def recv_index_def recv_slots_def get_at_def Let_def ready_at_def
        usize_checked_mul_def usize_checked_add_def get_range_def slot_bytes_def)
qed

lemma recv_abs_ready:
  assumes "ring_shape r" "unat (rr_delivered r) + recv_slots r < 4294967296"
  shows "recv_abs r k =
     (if unat (rr_delivered r) \<le> k \<and> k < unat (rr_delivered r) + recv_slots r \<and> ready_at r k
      then Some (slot_bytes r (k mod recv_slots r)) else None)"
proof -
  have "k < unat (rr_delivered r) + recv_slots r \<Longrightarrow> unat (of_nat k :: u32) = k"
    using assms(2) by (intro unat_of_nat_32) simp
  then show ?thesis by (auto simp: recv_abs_def slot_body_shape [OF assms(1)])
qed

section \<open>Advancing the frontier\<close>

lemma recv_advance_frame [simp]:
  "rr_bodies (recv_advance r) = rr_bodies r" "rr_meta (recv_advance r) = rr_meta r"
  "rr_slot_len (recv_advance r) = rr_slot_len r" "rr_delivered (recv_advance r) = rr_delivered r"
  "rr_highest (recv_advance r) = rr_highest r"
proof (induction r rule: recv_advance.induct)
  case (1 r)
  { case 1 then show ?case using "1.IH" by (subst recv_advance.simps) simp }
  { case 2 then show ?case using "1.IH" by (subst recv_advance.simps) simp }
  { case 3 then show ?case using "1.IH" by (subst recv_advance.simps) simp }
  { case 4 then show ?case using "1.IH" by (subst recv_advance.simps) simp }
  { case 5 then show ?case using "1.IH" by (subst recv_advance.simps) simp }
qed

lemma unat_Suc_u32: "unat (c :: u32) < unat (h :: u32) \<Longrightarrow> unat (c + 1) = Suc (unat c)"
  using unat_add_of_nat_u32 [of c 1] unat_lt_u32 [of h] by simp

text \<open>
  Starting with every slot below the cursor ready, the frontier stops at the first slot that is
  not, or at the highest sequence seen.
\<close>

lemma recv_advance_frontier:
  assumes "ring_shape r" "unat (rr_cumulative r) \<le> unat (rr_highest r)"
  shows "unat (rr_cumulative r) \<le> unat (rr_cumulative (recv_advance r))
    \<and> unat (rr_cumulative (recv_advance r)) \<le> unat (rr_highest r)
    \<and> (\<forall>k. unat (rr_cumulative r) \<le> k \<and> k < unat (rr_cumulative (recv_advance r)) \<longrightarrow> ready_at r k)
    \<and> (unat (rr_cumulative (recv_advance r)) < unat (rr_highest r)
         \<longrightarrow> \<not> ready_at r (unat (rr_cumulative (recv_advance r))))"
  using assms
proof (induction r rule: recv_advance.induct)
  case (1 r)
  let ?c = "rr_cumulative r" and ?h = "rr_highest r"
  have rdy: "slot_ready r (recv_index r ?c) \<longleftrightarrow> ready_at r (unat ?c)"
    using "1.prems"(1) by (simp add: slot_ready_def recv_index_def get_at_def ready_at_def recv_slots_def ring_shape_def)
  show ?case
  proof (cases "?c \<noteq> ?h \<and> ready_at r (unat ?c)")
    case True
    then have lt: "unat ?c < unat ?h" using "1.prems"(2) by (metis le_neq_implies_less word_unat_eq_iff)
    let ?r = "r\<lparr>rr_cumulative := ?c + 1\<rparr>"
    have eq: "recv_advance r = recv_advance ?r"
      using True rdy by (subst recv_advance.simps) simp
    have suc: "unat (?c + 1) = Suc (unat ?c)" using lt by (rule unat_Suc_u32)
    have ra: "ready_at ?r = ready_at r" by (rule ext) (simp add: ready_at_def recv_slots_def)
    have "ring_shape ?r" using "1.prems"(1) by (simp add: ring_shape_def recv_slots_def)
    moreover have "unat (rr_cumulative ?r) \<le> unat (rr_highest ?r)" using suc lt by simp
    ultimately have IH: "Suc (unat ?c) \<le> unat (rr_cumulative (recv_advance ?r))
      \<and> unat (rr_cumulative (recv_advance ?r)) \<le> unat ?h
      \<and> (\<forall>k. Suc (unat ?c) \<le> k \<and> k < unat (rr_cumulative (recv_advance ?r)) \<longrightarrow> ready_at r k)
      \<and> (unat (rr_cumulative (recv_advance ?r)) < unat ?h
           \<longrightarrow> \<not> ready_at r (unat (rr_cumulative (recv_advance ?r))))"
      using "1.IH" True rdy suc ra by simp
    have "ready_at r k" if "unat ?c \<le> k \<and> k < unat (rr_cumulative (recv_advance ?r))" for k
      using that IH True by (cases "k = unat ?c") auto
    with IH eq show ?thesis by simp
  next
    case False
    then have "recv_advance r = r" using rdy by (subst recv_advance.simps) auto
    with False "1.prems" show ?thesis by auto
  qed
qed

section \<open>Storing\<close>

lemma in_window:
  assumes "unat (d :: u32) + n < 4294967296"
  shows "unat (s - d) < n \<longleftrightarrow> unat d \<le> unat s \<and> unat s < unat d + n"
  using assms by (auto simp: unat_sub_if')

text \<open>Writing one slot leaves the bytes of every other slot alone.\<close>

lemma slot_bytes_update:
  assumes "ring_shape r" "j < recv_slots r" "j' < recv_slots r" "length b \<le> rr_slot_len r" "length b < 65536"
    and r1: "r1 = r\<lparr>rr_bodies := put_at (rr_bodies r) (j * rr_slot_len r) b,
      rr_meta := (rr_meta r)[j := \<lparr>sm_len = of_nat (length b), sm_ready = True\<rparr>], rr_highest := h\<rparr>"
  shows "slot_bytes r1 j' = (if j' = j then b else slot_bytes r j')"
proof (cases "j' = j")
  case True
  have "j * rr_slot_len r + length b \<le> length (rr_bodies r)"
    using slot_region [OF assms(2,4)] assms(1) by (simp add: ring_shape_def)
  then show ?thesis
    using True assms(2,5) take_drop_put_at_same [of "j * rr_slot_len r" b "rr_bodies r"]
    by (simp add: slot_bytes_def r1 recv_slots_def unat_of_nat_16)
next
  case False
  let ?l = "unat (sm_len (rr_meta r ! j'))" and ?sl = "rr_slot_len r"
  have "rr_meta r ! j' \<in> set (rr_meta r)" using assms(3) by (simp add: recv_slots_def)
  then have l: "?l \<le> ?sl" using assms(1) by (simp add: ring_shape_def)
  have "take ?l (drop (j' * ?sl) (put_at (rr_bodies r) (j * ?sl) b)) = take ?l (drop (j' * ?sl) (rr_bodies r))"
    using assms(1-4) l False by (intro region_put_other [of _ "recv_slots r"]) (auto simp: ring_shape_def)
  then show ?thesis using False by (simp add: slot_bytes_def r1)
qed

lemma recv_store_accept:
  assumes inv: "ring_inv r"
    and win: "unat (rr_delivered r) \<le> unat s" "unat s < unat (rr_delivered r) + recv_slots r"
    and new: "\<not> ready_at r (unat s)" and fit: "length b \<le> rr_slot_len r" "length b < 65536"
  shows "\<exists>r1. recv_store r s b = (recv_advance r1, Accepted)
    \<and> r1 = r\<lparr>rr_bodies := put_at (rr_bodies r) ((unat s mod recv_slots r) * rr_slot_len r) b,
       rr_meta := (rr_meta r)[unat s mod recv_slots r := \<lparr>sm_len = of_nat (length b), sm_ready = True\<rparr>],
       rr_highest := rr_highest r1\<rparr>
    \<and> unat (rr_highest r1) = max (unat (rr_highest r)) (Suc (unat s))"
proof -
  let ?d = "rr_delivered r" and ?n = "recv_slots r" and ?j = "unat s mod recv_slots r"
  have sh: "ring_shape r" and nw: "unat ?d + ?n < 4294967296" and n31: "?n < 2147483648" "0 < ?n"
    using inv by (auto simp: ring_inv_def ring_shape_def)
  have off: "unat (s - ?d) < ?n" using in_window [OF nw] win by blast
  have nlt: "\<not> seq_lt s ?d" using off n31 by (simp add: seq_lt_unat)
  have j: "?j < ?n" using n31 by simp
  have fitb: "?j * rr_slot_len r + length b \<le> length (rr_bodies r)"
    using slot_region [OF j fit(1)] sh by (simp add: ring_shape_def)
  have mulok: "usize_checked_mul ?j (rr_slot_len r) = Some (?j * rr_slot_len r)"
    using fitb sh by (simp add: usize_checked_mul_def ring_shape_def)
  have nx: "unat (s + 1) = Suc (unat s)" using unat_add_of_nat_u32 [of s 1] win nw by simp
  let ?h = "rr_highest r"
  have hb: "unat ?d \<le> unat ?h" "unat ?h \<le> unat ?d + ?n" using inv by (auto simp: ring_inv_def)
  have gt: "seq_gt (s + 1) ?h \<longleftrightarrow> unat ?h < Suc (unat s)"
    using hb win nx n31 nw unat_lt_u32 [of ?h] by (auto simp: seq_gt_unat unat_sub_if')
  define h where "h = (if seq_gt (s + 1) ?h then s + 1 else ?h)"
  have "unat h = max (unat ?h) (Suc (unat s))" using gt nx by (auto simp: h_def max_def)
  moreover have "recv_store r s b = (recv_advance (r\<lparr>rr_bodies := put_at (rr_bodies r) (?j * rr_slot_len r) b,
       rr_meta := (rr_meta r)[?j := \<lparr>sm_len = of_nat (length b), sm_ready = True\<rparr>], rr_highest := h\<rparr>), Accepted)"
    using nlt off fit new j mulok fitb
    by (simp add: recv_store_def seq_distance_def recv_slots_def u16_try_from_def recv_index_def get_at_def
        Let_def ready_at_def h_def)
  ultimately show ?thesis by (intro exI) auto
qed

lemma ring_inv_advance:
  assumes sh: "ring_shape r" and nw: "unat (rr_delivered r) + recv_slots r < 4294967296"
    and ord: "unat (rr_delivered r) \<le> unat (rr_cumulative r)" "unat (rr_cumulative r) \<le> unat (rr_highest r)"
      "unat (rr_highest r) \<le> unat (rr_delivered r) + recv_slots r"
    and hi: "\<And>k. unat (rr_delivered r) \<le> k \<Longrightarrow> k < unat (rr_delivered r) + recv_slots r \<Longrightarrow> ready_at r k
          \<Longrightarrow> k < unat (rr_highest r)"
    and lo: "\<And>k. unat (rr_delivered r) \<le> k \<Longrightarrow> k < unat (rr_cumulative r) \<Longrightarrow> ready_at r k"
  shows "ring_inv (recv_advance r)"
proof -
  let ?c = "unat (rr_cumulative (recv_advance r))"
  have f: "unat (rr_cumulative r) \<le> ?c" "?c \<le> unat (rr_highest r)"
    "\<And>k. unat (rr_cumulative r) \<le> k \<Longrightarrow> k < ?c \<Longrightarrow> ready_at r k"
    "?c < unat (rr_highest r) \<Longrightarrow> \<not> ready_at r ?c"
    using recv_advance_frontier [OF sh ord(2)] by auto
  have sl: "recv_slots (recv_advance r) = recv_slots r" by (simp add: recv_slots_def)
  have ra: "ready_at (recv_advance r) k = ready_at r k" for k by (simp add: ready_at_def sl)
  have "ring_shape (recv_advance r)" using sh by (simp add: ring_shape_def sl)
  moreover have "ready_at r k" if "unat (rr_delivered r) \<le> k" "k < ?c" for k
    using that lo f(3) by (cases "k < unat (rr_cumulative r)") auto
  ultimately show ?thesis
    using nw ord f hi unfolding ring_inv_def sl ra recv_advance_frame by auto
qed

lemma recv_abs_advance [simp]: "recv_abs (recv_advance r) = recv_abs r"
  by (rule ext) (simp only: recv_abs_def recv_slots_def slot_body_def recv_index_def recv_advance_frame)

text \<open>
  A fragment that fits, falls in the window and is not held yet is accepted; the abstract channel
  gains exactly that fragment and the invariant is kept.
\<close>

lemma recv_store_new:
  assumes inv: "ring_inv r"
    and win: "unat (rr_delivered r) \<le> unat s" "unat s < unat (rr_delivered r) + recv_slots r"
    and new: "recv_abs r (unat s) = None" and fit: "length b \<le> rr_slot_len r" "length b < 65536"
    and st: "recv_store r s b = (r', res)"
  shows "res = Accepted \<and> ring_inv r' \<and> recv_abs r' = (recv_abs r)(unat s \<mapsto> b)
    \<and> rr_delivered r' = rr_delivered r \<and> recv_slots r' = recv_slots r \<and> rr_slot_len r' = rr_slot_len r"
proof -
  let ?d = "unat (rr_delivered r)" and ?n = "recv_slots r" and ?k = "unat s"
  have sh: "ring_shape r" and nw: "?d + ?n < 4294967296" and n: "0 < ?n"
    using inv by (auto simp: ring_inv_def ring_shape_def)
  have nr: "\<not> ready_at r ?k" using new win by (auto simp: recv_abs_ready [OF sh nw] split: if_splits)
  obtain r1 where eq: "recv_store r s b = (recv_advance r1, Accepted)"
    and r1: "r1 = r\<lparr>rr_bodies := put_at (rr_bodies r) ((?k mod ?n) * rr_slot_len r) b,
       rr_meta := (rr_meta r)[?k mod ?n := \<lparr>sm_len = of_nat (length b), sm_ready = True\<rparr>],
       rr_highest := rr_highest r1\<rparr>"
    and h1: "unat (rr_highest r1) = max (unat (rr_highest r)) (Suc ?k)"
    using recv_store_accept [OF inv win nr fit] by blast
  have sl: "recv_slots r1 = ?n" "rr_delivered r1 = rr_delivered r" "rr_slot_len r1 = rr_slot_len r"
    "rr_cumulative r1 = rr_cumulative r"
    by (subst r1, simp add: recv_slots_def)+
  have j: "?k mod ?n < ?n" using n by simp
  have fitb: "(?k mod ?n) * rr_slot_len r + length b \<le> length (rr_bodies r)"
    using slot_region [OF j fit(1)] sh by (simp add: ring_shape_def)
  have ml: "rr_meta r1 = (rr_meta r)[?k mod ?n := \<lparr>sm_len = of_nat (length b), sm_ready = True\<rparr>]"
    by (subst r1) simp
  have sh1: "ring_shape r1"
  proof -
    have "length (rr_bodies r1) = length (rr_bodies r)" by (subst r1) (simp add: fitb)
    moreover have "unat (sm_len m) \<le> rr_slot_len r" if "m \<in> set (rr_meta r1)" for m
    proof -
      from that ml have "m \<in> set (rr_meta r) \<or> m = \<lparr>sm_len = of_nat (length b), sm_ready = True\<rparr>"
        using set_update_subset_insert by fastforce
      then show ?thesis using sh fit by (auto simp: ring_shape_def unat_of_nat_16)
    qed
    ultimately show ?thesis using sh by (simp add: ring_shape_def sl)
  qed
  have ra: "ready_at r1 k \<longleftrightarrow> k mod ?n = ?k mod ?n \<or> ready_at r k" for k
    using n by (auto simp: ready_at_def sl ml nth_list_update recv_slots_def)
  have uniq: "k = ?k" if "k mod ?n = ?k mod ?n" "?d \<le> k" "k < ?d + ?n" for k
    using mod_window_inj [OF that(1) that(2,3) win] .
  have o: "?d \<le> unat (rr_cumulative r)" "unat (rr_cumulative r) \<le> unat (rr_highest r)"
    "unat (rr_highest r) \<le> ?d + ?n"
    and ohi: "\<And>k. ?d \<le> k \<Longrightarrow> k < ?d + ?n \<Longrightarrow> ready_at r k \<Longrightarrow> k < unat (rr_highest r)"
    and olo: "\<And>k. ?d \<le> k \<Longrightarrow> k < unat (rr_cumulative r) \<Longrightarrow> ready_at r k"
    using inv by (auto simp: ring_inv_def)
  have inv1: "ring_inv (recv_advance r1)"
  proof (rule ring_inv_advance [OF sh1], unfold sl h1)
    show "k < max (unat (rr_highest r)) (Suc ?k)" if "?d \<le> k" "k < ?d + ?n" "ready_at r1 k" for k
      using that uniq [of k] ohi [of k] ra [of k] by auto
  qed (use nw o win olo ra in auto)
  have "recv_abs r1 k = ((recv_abs r)(?k \<mapsto> b)) k" for k
  proof -
    have sb: "slot_bytes r1 (k mod ?n) = (if k mod ?n = ?k mod ?n then b else slot_bytes r (k mod ?n))"
      using n by (intro slot_bytes_update [OF sh j _ fit, of _ _ "rr_highest r1"]) (simp, subst r1, simp)
    show ?thesis
      using uniq [of k] win nw ra [of k] sb
      by (auto simp: recv_abs_ready [OF sh nw] recv_abs_ready [OF sh1, unfolded sl])
  qed
  then have "recv_abs (recv_advance r1) = (recv_abs r)(?k \<mapsto> b)" by (simp add: fun_eq_iff)
  with inv1 eq st sl show ?thesis by (auto simp: recv_slots_def)
qed

text \<open>Every other offer is refused and leaves the ring exactly as it was.\<close>

lemma recv_store_refused:
  assumes inv: "ring_inv r"
    and "\<not> (unat (rr_delivered r) \<le> unat s \<and> unat s < unat (rr_delivered r) + recv_slots r)
      \<or> recv_abs r (unat s) \<noteq> None \<or> rr_slot_len r < length b \<or> 65536 \<le> length b"
  shows "fst (recv_store r s b) = r \<and> snd (recv_store r s b) \<noteq> Accepted"
proof -
  have sh: "ring_shape r" and nw: "unat (rr_delivered r) + recv_slots r < 4294967296"
    using inv by (auto simp: ring_inv_def)
  have "recv_abs r (unat s) \<noteq> None \<Longrightarrow> ready_at r (unat s)"
    by (auto simp: recv_abs_ready [OF sh nw] split: if_splits)
  then show ?thesis
    using assms(2) in_window [OF nw, of s]
    by (auto simp: recv_store_def seq_distance_def recv_slots_def u16_try_from_def Let_def
        recv_index_def get_at_def ready_at_def)
qed

lemma recv_store_inv: "ring_inv r \<Longrightarrow> ring_inv (fst (recv_store r s b))"
  using recv_store_new [of r s b] recv_store_refused [of r s b]
  by (metis eq_fst_iff linorder_not_le)

lemma recv_store_abs:
  assumes "ring_inv r"
  shows "recv_abs (fst (recv_store r s b)) =
    (if unat (rr_delivered r) \<le> unat s \<and> unat s < unat (rr_delivered r) + recv_slots r
        \<and> recv_abs r (unat s) = None \<and> length b \<le> rr_slot_len r \<and> length b < 65536
     then (recv_abs r)(unat s \<mapsto> b) else recv_abs r)"
  using recv_store_new [OF assms, of s b "fst (recv_store r s b)" "snd (recv_store r s b)"]
    recv_store_refused [OF assms, of s b] by auto

lemma recv_store_frame:
  assumes "ring_inv r"
  shows "rr_delivered (fst (recv_store r s b)) = rr_delivered r"
    "recv_slots (fst (recv_store r s b)) = recv_slots r"
    "rr_slot_len (fst (recv_store r s b)) = rr_slot_len r"
  using recv_store_new [OF assms, of s b "fst (recv_store r s b)" "snd (recv_store r s b)"]
    recv_store_refused [OF assms, of s b] by fastforce+

text \<open>The acknowledged frontier is the first sequence not held.\<close>

lemma ring_inv_frontier:
  assumes "ring_inv r"
  shows "unat (rr_delivered r) \<le> k \<Longrightarrow> k < unat (rr_cumulative r) \<Longrightarrow> recv_abs r k \<noteq> None"
    and "recv_abs r (unat (rr_cumulative r)) = None"
proof -
  have sh: "ring_shape r" and nw: "unat (rr_delivered r) + recv_slots r < 4294967296"
    using assms by (auto simp: ring_inv_def)
  show "unat (rr_delivered r) \<le> k \<Longrightarrow> k < unat (rr_cumulative r) \<Longrightarrow> recv_abs r k \<noteq> None"
    using assms by (auto simp: recv_abs_ready [OF sh nw] ring_inv_def)
  show "recv_abs r (unat (rr_cumulative r)) = None"
    using assms by (auto simp: recv_abs_ready [OF sh nw] ring_inv_def le_less)
qed

section \<open>Releasing slots\<close>

lemma length_clear_count [simp]: "length (clear_count meta c n) = length meta"
  by (induction meta c n rule: clear_count.induct) auto

lemma clear_count_nth:
  "unat c + n < 4294967296 \<Longrightarrow> j < length meta \<Longrightarrow>
   clear_count meta c n ! j =
     (if \<exists>i<n. (unat c + i) mod length meta = j then slot_meta_default else meta ! j)"
proof (induction meta c n rule: clear_count.induct)
  case (2 meta c n)
  have suc: "unat (c + 1) = Suc (unat c)" using unat_add_of_nat_u32 [of c 1] "2.prems" by simp
  have split: "(\<exists>i<Suc n. (unat c + i) mod length meta = j) \<longleftrightarrow>
      unat c mod length meta = j \<or> (\<exists>i<n. (Suc (unat c) + i) mod length meta = j)"
    by (subst Ex_less_Suc2) simp
  show ?case using "2.IH" "2.prems" suc unfolding split by (auto simp: nth_list_update)
qed simp

lemma clear_range_count: "clear_range meta c t = clear_count meta c (unat (t - c))"
proof (induction meta c t rule: clear_range.induct)
  case (1 meta c t)
  show ?case
  proof (cases "c = t")
    case True
    then show ?thesis by (simp add: clear_range.simps)
  next
    case False
    then show ?thesis using 1 by (subst clear_range.simps) (simp add: unat_dist_Suc)
  qed
qed

text \<open>
  Moving \<open>delivered\<close> forward over cleared slots drops exactly the fragments below the new
  position from the abstract channel.
\<close>

lemma release_slots:
  assumes inv: "ring_inv r" and t: "unat (rr_delivered r) \<le> unat t" "unat t \<le> unat (rr_highest r)"
    and nw': "unat t + recv_slots r < 4294967296"
    and r': "r' = r\<lparr>rr_meta := clear_count (rr_meta r) (rr_delivered r) (unat t - unat (rr_delivered r)),
        rr_delivered := t, rr_cumulative := c\<rparr>"
  shows "ring_shape r'" "recv_slots r' = recv_slots r"
    "unat t \<le> k \<Longrightarrow> k < unat t + recv_slots r \<Longrightarrow>
       ready_at r' k \<longleftrightarrow> k < unat (rr_delivered r) + recv_slots r \<and> ready_at r k"
    "recv_abs r' = (\<lambda>k. if unat t \<le> k then recv_abs r k else None)"
proof -
  let ?d = "unat (rr_delivered r)" and ?n = "recv_slots r" and ?m = "unat t - unat (rr_delivered r)"
  have sh: "ring_shape r" and nw: "?d + ?n < 4294967296" and n: "0 < ?n" "?n = length (rr_meta r)"
    and hi: "unat (rr_highest r) \<le> ?d + ?n"
    using inv by (auto simp: ring_inv_def ring_shape_def recv_slots_def)
  show sl: "recv_slots r' = ?n" by (simp add: r' recv_slots_def)
  have b: "?d + ?m < 4294967296" using t hi nw by linarith
  have meta: "rr_meta r' ! j =
      (if \<exists>i<?m. (?d + i) mod ?n = j then slot_meta_default else rr_meta r ! j)" if "j < ?n" for j
    using clear_count_nth [OF b, of j] that n by (simp add: r')
  show "ring_shape r'"
  proof -
    have "unat (sm_len x) \<le> rr_slot_len r" if x: "x \<in> set (rr_meta r')" for x
    proof -
      from x obtain j where j: "j < ?n" "x = rr_meta r' ! j"
        using sl by (auto simp: in_set_conv_nth recv_slots_def)
      show ?thesis
      proof (cases "\<exists>i<?m. (?d + i) mod ?n = j")
        case True then show ?thesis using j meta by (simp add: slot_meta_default_def)
      next
        case False
        then have "x = rr_meta r ! j" using j(2) meta [OF j(1)] by (simp only: if_False)
        then show ?thesis using sh j n by (simp add: ring_shape_def)
      qed
    qed
    then show ?thesis using sh sl by (simp add: ring_shape_def r')
  qed
  have keep: "rr_meta r' ! (k mod ?n) = (if k < ?d + ?n then rr_meta r ! (k mod ?n) else slot_meta_default)"
    if k: "unat t \<le> k" "k < unat t + ?n" for k
  proof (cases "k < ?d + ?n")
    case True
    have "\<not> (\<exists>i<?m. (?d + i) mod ?n = k mod ?n)"
    proof
      assume "\<exists>i<?m. (?d + i) mod ?n = k mod ?n"
      then obtain i where i: "i < ?m" "(?d + i) mod ?n = k mod ?n" by blast
      have "?d + i = k" using i True k t hi by (intro mod_window_inj [OF i(2), of ?d]) auto
      with i k t show False by simp
    qed
    moreover have "k mod ?n < ?n" using n(1) by simp
    ultimately show ?thesis using True meta [of "k mod ?n"] by (simp only: if_False if_True)
  next
    case False
    then have "?d \<le> k - ?n" "k - ?n < unat t" using k by auto
    then have "k - ?n - ?d < ?m" "(?d + (k - ?n - ?d)) mod ?n = k mod ?n"
      using False t by (auto simp: le_mod_geq [symmetric])
    moreover have "k mod ?n < ?n" using n(1) by simp
    ultimately show ?thesis using False meta [of "k mod ?n"] by auto
  qed
  show rdy: "ready_at r' k \<longleftrightarrow> k < ?d + ?n \<and> ready_at r k" if "unat t \<le> k" "k < unat t + ?n" for k
    using keep [OF that] by (simp add: ready_at_def sl slot_meta_default_def)
  have "recv_abs r' k = (if unat t \<le> k then recv_abs r k else None)" for k
  proof -
    have "slot_bytes r' (k mod ?n) = slot_bytes r (k mod ?n)" if "unat t \<le> k" "k < unat t + ?n" "k < ?d + ?n"
      using keep [OF that(1,2)] that(3) by (simp add: slot_bytes_def r')
    moreover have "rr_delivered r' = t" by (simp add: r')
    ultimately show ?thesis
      using rdy [of k] t nw' recv_abs_ready [OF \<open>ring_shape r'\<close>, of k]
      by (auto simp: recv_abs_ready [OF sh nw] sl)
  qed
  then show "recv_abs r' = (\<lambda>k. if unat t \<le> k then recv_abs r k else None)" by blast
qed

section \<open>Reassembly\<close>

text \<open>\<open>held r c bs\<close>: the consecutive slots from \<open>c\<close> on hold the bodies \<open>bs\<close>.\<close>

definition held :: "recv_ring \<Rightarrow> u32 \<Rightarrow> bytes list \<Rightarrow> bool" where
  "held r c bs \<longleftrightarrow> (\<forall>i < length bs. slot_body r (c + of_nat i) = Some (bs ! i))"

lemma held_Nil [simp]: "held r c []"
  by (simp add: held_def)

lemma held_Cons [simp]: "held r c (b # bs) \<longleftrightarrow> slot_body r c = Some b \<and> held r (c + 1) bs"
  by (auto simp: held_def All_less_Suc2 add.assoc)

lemma copy_loop_held:
  "held r c bs \<Longrightarrow> w + length (concat bs) = tot \<Longrightarrow> tot \<le> length out \<Longrightarrow> length bs \<le> fuel \<Longrightarrow>
   copy_loop fuel r tot c w 0 out = Some (Inr (put_at out w (concat bs)))"
proof (induction bs arbitrary: c w out fuel)
  case Nil
  then show ?case by (subst copy_loop.simps) simp
next
  case (Cons b bs)
  then obtain fuel' where f: "fuel = Suc fuel'" by (cases fuel) auto
  show ?case
  proof (cases "w < tot")
    case True
    have "copy_loop fuel' r tot (c + 1) (w + length b) 0 (put_at out w b)
        = Some (Inr (put_at (put_at out w b) (w + length b) (concat bs)))"
      using Cons.prems f by (intro Cons.IH) auto
    also have "put_at (put_at out w b) (w + length b) (concat bs) = put_at out w (b @ concat bs)"
      using Cons.prems by (intro put_at_append) auto
    finally show ?thesis
      using True Cons.prems f by (subst copy_loop.simps) (auto simp: get_from_def Let_def)
  next
    case False
    then have "length (concat (b # bs)) = 0" using Cons.prems(2) by linarith
    then have c: "concat (b # bs) = []" by (simp only: length_0_conv)
    have "w \<le> length out" using Cons.prems(2,3) by simp
    then have "put_at out w (concat (b # bs)) = out" unfolding c by simp
    then show ?thesis using False by (subst copy_loop.simps) (simp only: if_True not_False_eq_True)
  qed
qed

lemma copy_loop_enough:
  assumes "held r c (b # bs)" "4 \<le> length b" "length (b @ concat bs) = tot + 4" "tot \<le> length out"
    "Suc (length bs) \<le> fuel"
  shows "copy_loop fuel r tot c 0 LENGTH_PREFIX_LEN out = Some (Inr (put_at out 0 (drop 4 (b @ concat bs))))"
proof -
  obtain fuel' where f: "fuel = Suc fuel'" using assms by (cases fuel) auto
  show ?thesis
  proof (cases "0 < tot")
    case True
    let ?b = "drop 4 b"
    have "copy_loop fuel' r tot (c + 1) (length ?b) 0 (put_at out 0 ?b)
        = Some (Inr (put_at (put_at out 0 ?b) (length ?b) (concat bs)))"
      using assms f by (intro copy_loop_held) auto
    also have "put_at (put_at out 0 ?b) (length ?b) (concat bs) = put_at out 0 (?b @ concat bs)"
      using put_at_append [of 0 ?b "concat bs" out] assms by simp
    finally show ?thesis
      using True assms f by (subst copy_loop.simps) (auto simp: get_from_def Let_def LENGTH_PREFIX_LEN_def)
  next
    case False
    then have "drop 4 (b @ concat bs) = []" using assms(3) by simp
    then show ?thesis using False by (subst copy_loop.simps) (simp del: drop_append)
  qed
qed

lemma collect_sound:
  "collect r strm c k f = Some (k', f') \<Longrightarrow>
   \<exists>bs. held r c bs \<and> k' = k + length (concat bs) \<and> unat f' = unat f + length bs
     \<and> f' = f + of_nat (length bs) \<and> length bs \<le> unat (rr_cumulative r - c)"
proof (induction r strm c k f rule: collect.induct)
  case (1 r strm c k f)
  show ?case
  proof (cases "k < strm")
    case False
    then show ?thesis using "1.prems" by (intro exI [of _ "[]"]) (auto simp: collect.simps)
  next
    case True
    with "1.prems" obtain body where
      ne: "c \<noteq> rr_cumulative r" and body: "slot_body r c = Some body"
      and k: "usize_checked_add k (length body) = Some (k + length body)"
      and f: "chk_add f 1 = Some (f + 1)"
      and rest: "collect r strm (c + 1) (k + length body) (f + 1) = Some (k', f')"
      by (subst (asm) collect.simps)
        (auto simp: usize_checked_add_def chk_add_def split: if_splits option.splits)
    from "1.IH" [OF _ ne body k f rest] True
    obtain bs where bs: "held r (c + 1) bs" "k' = k + length body + length (concat bs)"
      "unat f' = unat (f + 1) + length bs" "f' = f + 1 + of_nat (length bs)"
      "length bs \<le> unat (rr_cumulative r - (c + 1))" by auto
    have "unat (f + 1) = Suc (unat f)"
      using f by (auto simp: chk_add_def unat_word_ariths split: if_splits)
    with bs body ne show ?thesis
      by (intro exI [of _ "body # bs"]) (auto simp: unat_dist_Suc [of c])
  qed
qed

lemma collect_complete:
  "held r c bs \<Longrightarrow> k + length (concat bs) = strm \<Longrightarrow> strm < usize_bound \<Longrightarrow> [] \<notin> set bs \<Longrightarrow>
   length bs \<le> unat (rr_cumulative r - c) \<Longrightarrow> unat f + length bs < 4294967296 \<Longrightarrow>
   collect r strm c k f = Some (strm, f + of_nat (length bs))"
proof (induction bs arbitrary: c k f)
  case Nil
  then show ?case by (simp add: collect.simps)
next
  case (Cons b bs)
  have ne: "c \<noteq> rr_cumulative r" using Cons.prems(5) by auto
  have f: "unat (f + 1) = Suc (unat f)" using unat_add_of_nat_u32 [of f 1] Cons.prems(6) by simp
  have "collect r strm (c + 1) (k + length b) (f + 1) = Some (strm, f + 1 + of_nat (length bs))"
    using Cons.prems ne f by (intro Cons.IH) (auto simp: unat_dist_Suc [of c])
  moreover have "k < strm" using Cons.prems by (cases b) auto
  ultimately show ?case
    using Cons.prems ne
    by (subst collect.simps) (simp add: usize_checked_add_def chk_add_def add.assoc)
qed

text \<open>
  \<open>take_message\<close> succeeds exactly when a complete message lies at the reader's position, and then
  it hands out the content, releases its fragments and nothing else.
\<close>

lemma held_abs:
  assumes "ring_inv r"
  shows "held r (rr_delivered r) bs \<and> length bs \<le> recv_slots r \<longleftrightarrow>
    (\<forall>i < length bs. recv_abs r (unat (rr_delivered r) + i) = Some (bs ! i))"
    (is "?l \<longleftrightarrow> ?r")
proof -
  have e: "(of_nat (unat (rr_delivered r) + i) :: u32) = rr_delivered r + of_nat i" for i by simp
  show ?thesis
  proof
    assume ?l
    then show ?r unfolding held_def recv_abs_def e by auto
  next
    assume r: ?r
    have "length bs \<le> recv_slots r"
    proof (rule ccontr)
      assume "\<not> length bs \<le> recv_slots r"
      then have "recv_abs r (unat (rr_delivered r) + recv_slots r) \<noteq> None" using r by simp
      then show False by (simp add: recv_abs_def)
    qed
    with r show ?l unfolding held_def recv_abs_def e by (auto split: if_splits)
  qed
qed

lemma take_released_inv:
  assumes inv: "ring_inv r" and l: "unat (rr_delivered r) + m \<le> unat (rr_cumulative r)"
    and nw: "unat (rr_delivered r) + m + recv_slots r < 4294967296" and mb: "m < 4294967296"
    and r': "r' = r\<lparr>rr_meta := clear_count (rr_meta r) (rr_delivered r) m,
        rr_delivered := rr_delivered r + of_nat m\<rparr>"
  shows "ring_inv r'"
    "recv_abs r' = (\<lambda>k. if unat (rr_delivered r) + m \<le> k then recv_abs r k else None)"
    "unat (rr_delivered r') = unat (rr_delivered r) + m"
proof -
  let ?t = "rr_delivered r + of_nat m"
  have t: "unat ?t = unat (rr_delivered r) + m" using nw by (intro unat_add_of_nat_u32) simp
  have "r' = r\<lparr>rr_meta := clear_count (rr_meta r) (rr_delivered r) (unat ?t - unat (rr_delivered r)),
      rr_delivered := ?t, rr_cumulative := rr_cumulative r\<rparr>"
    unfolding r' t by simp
  moreover have "unat ?t \<le> unat (rr_highest r)" using l inv t by (auto simp: ring_inv_def)
  ultimately have rel: "ring_shape r'" "recv_slots r' = recv_slots r"
    "\<And>k. unat ?t \<le> k \<Longrightarrow> k < unat ?t + recv_slots r \<Longrightarrow>
       ready_at r' k \<longleftrightarrow> k < unat (rr_delivered r) + recv_slots r \<and> ready_at r k"
    "recv_abs r' = (\<lambda>k. if unat ?t \<le> k then recv_abs r k else None)"
    using release_slots [OF inv, of ?t r' "rr_cumulative r"] t nw by auto
  show "unat (rr_delivered r') = unat (rr_delivered r) + m" using t by (simp add: r')
  show "recv_abs r' = (\<lambda>k. if unat (rr_delivered r) + m \<le> k then recv_abs r k else None)"
    using rel(4) t by simp
  have c: "rr_cumulative r' = rr_cumulative r" "rr_highest r' = rr_highest r" "rr_delivered r' = ?t"
    by (simp_all add: r')
  show "ring_inv r'"
    using inv rel(1-3) nw l unfolding ring_inv_def c t rel(2) by auto
qed

lemma recv_take_message_complete:
  assumes inv: "ring_inv r" and wf: "wf_message m" and cap: "4 \<le> cap"
    and nw: "unat (rr_delivered r) + message_fragment_count m cap + recv_slots r < 4294967296"
    and frags: "\<And>i. i < message_fragment_count m cap \<Longrightarrow>
        recv_abs r (unat (rr_delivered r) + i) = Some (chunk cap i (stream m))"
    and room: "length (content m) \<le> length out"
  shows "\<exists>r'. recv_take_message r out =
      (r', put_at out 0 (content m), Some (Inr (length (content m))))
    \<and> ring_inv r' \<and> unat (rr_delivered r') = unat (rr_delivered r) + message_fragment_count m cap
    \<and> recv_abs r' = (\<lambda>k. if unat (rr_delivered r) + message_fragment_count m cap \<le> k
         then recv_abs r k else None)"
proof -
  let ?N = "message_fragment_count m cap" and ?bs = "fragments cap m" and ?d = "rr_delivered r"
  have c0: "0 < cap" using cap by simp
  have ne: "[] \<notin> set ?bs" "0 < ?N" and cc: "concat ?bs = stream m"
    using fragments_nonempty [OF wf c0] concat_fragments [OF wf c0] by auto
  have held: "held r ?d ?bs" using held_abs [OF inv, of ?bs] frags by simp
  obtain b bs where bs: "?bs = b # bs" and b: "b = chunk cap 0 (stream m)"
    using ne(2) by (cases ?bs) (auto simp: fragments_def upt_conv_Cons)
  have Nl: "?N = Suc (length bs)" using arg_cong [OF bs, of length] by simp
  have dc: "unat ?d + ?N \<le> unat (rr_cumulative r)"
  proof (rule ccontr)
    assume "\<not> ?thesis"
    moreover have "unat ?d \<le> unat (rr_cumulative r)" using inv by (simp add: ring_inv_def)
    ultimately have "recv_abs r (unat (rr_cumulative r)) \<noteq> None"
      using frags [of "unat (rr_cumulative r) - unat ?d"] by simp
    then show False using ring_inv_frontier(2) [OF inv] by simp
  qed
  have dist: "unat (rr_cumulative r - ?d) = unat (rr_cumulative r) - unat ?d"
    using dc by (simp add: unat_sub_if')
  have strm: "length (stream m) = length (content m) + 4" "length (content m) < 2 ^ 32"
    using wf_message_lengths [OF wf] wf by (simp_all add: wf_message_def)
  have col: "collect r (length (stream m)) ?d 0 0 = Some (length (stream m), of_nat ?N)"
    using collect_complete [OF held, of 0 "length (stream m)" 0] cc ne strm dist dc nw
    by (simp add: usize_bound_def)
  have bl: "4 \<le> length b" using b cap stream_nonempty [OF wf] by (simp add: chunk_def)
  have str: "b @ concat bs = stream m" using cc bs by simp
  have cp: "copy_loop ?N r (length (content m)) ?d 0 LENGTH_PREFIX_LEN out
      = Some (Inr (put_at out 0 (content m)))"
    using copy_loop_enough [of r ?d b bs "length (content m)" out ?N] held bl str strm room Nl bs
    by (simp add: drop_4_stream [OF wf] del: drop_append)
  have nN: "unat (of_nat ?N :: u32) = ?N" using nw by (intro unat_of_nat_32) simp
  have first: "slot_body r ?d = Some b" using held bs by simp
  define r' where "r' = r\<lparr>rr_meta := clear_count (rr_meta r) ?d ?N, rr_delivered := ?d + of_nat ?N\<rparr>"
  have "?d \<noteq> rr_cumulative r" using dc ne(2) by auto
  then have "recv_take_message r out = (r', put_at out 0 (content m), Some (Inr (length (content m))))"
    using first parse_prefix_chunk [OF wf cap] b col cp nN strm room
    by (simp add: recv_take_message_def Let_def usize_checked_add_def usize_bound_def LENGTH_PREFIX_LEN_def
        unat_of_nat_32 r'_def)
  moreover have "ring_inv r'" "recv_abs r' = (\<lambda>k. if unat ?d + ?N \<le> k then recv_abs r k else None)"
    "unat (rr_delivered r') = unat ?d + ?N"
    using take_released_inv [OF inv dc nw _ r'_def] nw by auto
  ultimately show ?thesis by blast
qed

lemma recv_take_message_slots [simp]: "recv_slots (fst (recv_take_message r out)) = recv_slots r"
  by (simp add: recv_take_message_def recv_slots_def Let_def split: option.splits sum.splits prod.splits)

end
