(* ===== verification/Recv_Delivery.thy ===== *)
theory Recv_Delivery
  imports Recv_Ring
begin

text \<open>
  What the receive ring promises its caller: fragments may arrive in any order and any number of
  times, a message is handed out whole and exactly when its last fragment is there, messages come
  out in sending order, and an escaped stall resumes at the furthest fragment worth resuming at.
\<close>

section \<open>Arrival in any order\<close>

text \<open>\<open>arrive r base bs is\<close>: the fragments \<open>bs\<close>, numbered from \<open>base\<close>, reach the ring in the order \<open>is\<close>.\<close>

definition arrive :: "recv_ring \<Rightarrow> u32 \<Rightarrow> bytes list \<Rightarrow> nat list \<Rightarrow> recv_ring" where
  "arrive r base bs order = fold (\<lambda>i r. fst (recv_store r (base + of_nat i) (bs ! i))) order r"

lemma arrive_simps [simp]:
  "arrive r base bs [] = r"
  "arrive r base bs (i # is) = arrive (fst (recv_store r (base + of_nat i) (bs ! i))) base bs is"
  by (simp_all add: arrive_def)

text \<open>The part of a run of fragments that has arrived.\<close>

definition arrived :: "nat \<Rightarrow> bytes list \<Rightarrow> nat set \<Rightarrow> nat \<rightharpoonup> bytes" where
  "arrived d bs I = (\<lambda>k. if d \<le> k \<and> k - d \<in> I then Some (bs ! (k - d)) else None)"

lemma recv_store_step:
  assumes inv: "ring_inv r" and i: "i < recv_slots r" and fit: "length b \<le> rr_slot_len r" "length b < 65536"
    and ok: "recv_abs r (unat (rr_delivered r) + i) \<in> {None, Some b}"
  shows "recv_abs (fst (recv_store r (rr_delivered r + of_nat i) b))
    = (recv_abs r)(unat (rr_delivered r) + i \<mapsto> b)"
proof -
  have "unat (rr_delivered r) + recv_slots r < 4294967296" using inv by (simp add: ring_inv_def)
  then have u: "unat (rr_delivered r + of_nat i) = unat (rr_delivered r) + i"
    using i by (intro unat_add_of_nat_u32) simp
  show ?thesis
    using ok i fit unfolding recv_store_abs [OF inv] u by (auto simp: fun_upd_idem)
qed

lemma arrive_abs:
  assumes "ring_inv r" "set order \<subseteq> {0..<length bs}" "length bs \<le> recv_slots r"
    and "\<forall>b \<in> set bs. length b \<le> rr_slot_len r \<and> length b < 65536"
    and "\<forall>i < length bs. recv_abs r (unat (rr_delivered r) + i) \<in> {None, Some (bs ! i)}"
  shows "ring_inv (arrive r (rr_delivered r) bs order)
    \<and> rr_delivered (arrive r (rr_delivered r) bs order) = rr_delivered r
    \<and> recv_slots (arrive r (rr_delivered r) bs order) = recv_slots r
    \<and> recv_abs (arrive r (rr_delivered r) bs order)
        = recv_abs r ++ arrived (unat (rr_delivered r)) bs (set order)"
  using assms
proof (induction order arbitrary: r)
  case Nil
  then show ?case by (auto simp: arrived_def map_add_def fun_eq_iff)
next
  case (Cons i "is")
  let ?d = "unat (rr_delivered r)" and ?r = "fst (recv_store r (rr_delivered r + of_nat i) (bs ! i))"
  have i: "i < length bs" using Cons.prems(2) by auto
  have fit: "length (bs ! i) \<le> rr_slot_len r" "length (bs ! i) < 65536"
    using Cons.prems(4) nth_mem [OF i] by auto
  have abs: "recv_abs ?r = (recv_abs r)(?d + i \<mapsto> bs ! i)"
    using Cons.prems i by (intro recv_store_step fit) auto
  note fr = recv_store_frame [OF Cons.prems(1), of "rr_delivered r + of_nat i" "bs ! i"]
  have "ring_inv ?r" using Cons.prems(1) by (rule recv_store_inv)
  then have "ring_inv (arrive ?r (rr_delivered ?r) bs is)
    \<and> rr_delivered (arrive ?r (rr_delivered ?r) bs is) = rr_delivered ?r
    \<and> recv_slots (arrive ?r (rr_delivered ?r) bs is) = recv_slots ?r
    \<and> recv_abs (arrive ?r (rr_delivered ?r) bs is)
        = recv_abs ?r ++ arrived (unat (rr_delivered ?r)) bs (set is)"
    using Cons.prems by (intro Cons.IH) (auto simp: fr abs)
  moreover have "recv_abs ?r ++ arrived ?d bs (set is) = recv_abs r ++ arrived ?d bs (set (i # is))"
    by (auto simp: abs arrived_def map_add_def fun_eq_iff)
  ultimately show ?case unfolding fr by simp
qed

section \<open>Draining the ring\<close>

text \<open>The caller's read loop: take messages until none is complete, at most \<open>n\<close> of them.\<close>

fun take_all :: "nat \<Rightarrow> recv_ring \<Rightarrow> bytes \<Rightarrow> recv_ring \<times> bytes list" where
  "take_all 0 r out = (r, [])"
| "take_all (Suc n) r out =
     (case recv_take_message r out of
        (r', out', Some (Inr len)) \<Rightarrow>
          (case take_all n r' out' of (r'', ms) \<Rightarrow> (r'', take len out' # ms))
      | _ \<Rightarrow> (r, []))"

definition run_fragments :: "nat \<Rightarrow> message list \<Rightarrow> bytes list" where
  "run_fragments cap ms = concat (map (fragments cap) ms)"

lemma run_fragments_simps [simp]:
  "run_fragments cap [] = []" "run_fragments cap (m # ms) = fragments cap m @ run_fragments cap ms"
  by (simp_all add: run_fragments_def)

lemma take_all_run:
  assumes "ring_inv r" "\<forall>m \<in> set ms. wf_message m \<and> length (content m) \<le> length out" "4 \<le> cap"
    and "unat (rr_delivered r) + length (run_fragments cap ms) + recv_slots r < 4294967296"
    and "\<forall>i < length (run_fragments cap ms).
      recv_abs r (unat (rr_delivered r) + i) = Some (run_fragments cap ms ! i)"
  shows "snd (take_all (length ms) r out) = map content ms
    \<and> unat (rr_delivered (fst (take_all (length ms) r out)))
        = unat (rr_delivered r) + length (run_fragments cap ms)"
  using assms
proof (induction ms arbitrary: r out)
  case (Cons m ms)
  let ?N = "message_fragment_count m cap" and ?d = "unat (rr_delivered r)"
  have "recv_abs r (?d + i) = Some (chunk cap i (stream m))" if "i < ?N" for i
    using Cons.prems(5) that by (auto simp: nth_append)
  then obtain r' where r': "recv_take_message r out = (r', put_at out 0 (content m), Some (Inr (length (content m))))"
    "ring_inv r'" "unat (rr_delivered r') = ?d + ?N"
    "recv_abs r' = (\<lambda>k. if ?d + ?N \<le> k then recv_abs r k else None)"
    using recv_take_message_complete [OF Cons.prems(1) _ Cons.prems(3), of m out] Cons.prems(2,4) by auto
  have sl: "recv_slots r' = recv_slots r"
    using recv_take_message_slots [of r out] r'(1) by simp
  let ?out = "put_at out 0 (content m)"
  have ol: "length ?out = length out" "take (length (content m)) ?out = content m"
    using Cons.prems(2) by (simp_all add: put_at_prefix)
  have "recv_abs r' (unat (rr_delivered r') + i) = Some (run_fragments cap ms ! i)"
    if "i < length (run_fragments cap ms)" for i
    using Cons.prems(5) [rule_format, of "?N + i"] that r'(3,4) by (simp add: nth_append add.assoc)
  then have "snd (take_all (length ms) r' ?out) = map content ms
    \<and> unat (rr_delivered (fst (take_all (length ms) r' ?out)))
        = unat (rr_delivered r') + length (run_fragments cap ms)"
    using Cons.prems r' ol sl by (intro Cons.IH) auto
  then show ?case
    using r' ol by (auto split: prod.splits)
qed simp

text \<open>A message with a missing fragment is not handed out, and the ring stays as it is.\<close>

lemma collect_stops:
  assumes "ring_inv r" "rr_cumulative r = c + of_nat n" "n < 4294967296"
    and "k + (\<Sum>i<n. case slot_body r (c + of_nat i) of None \<Rightarrow> 0 | Some b \<Rightarrow> length b) < strm"
  shows "collect r strm c k f = None"
  using assms
proof (induction n arbitrary: c k f)
  case 0
  then show ?case by (simp add: collect.simps)
next
  case (Suc n)
  show ?case
  proof (cases "slot_body r c")
    case None
    then show ?thesis using Suc.prems by (subst collect.simps) simp
  next
    case (Some b)
    have "(\<Sum>i<Suc n. case slot_body r (c + of_nat i) of None \<Rightarrow> 0 | Some b \<Rightarrow> length b)
      = length b + (\<Sum>i<n. case slot_body r (c + 1 + of_nat i) of None \<Rightarrow> 0 | Some b \<Rightarrow> length b)"
      using Some by (subst sum.lessThan_Suc_shift) (simp add: add.assoc)
    then have "collect r strm (c + 1) (k + length b) f' = None" for f'
      using Suc.prems by (intro Suc.IH) (auto simp: add.assoc)
    then show ?thesis using Some Suc.prems(4)
      by (subst collect.simps) (auto simp: usize_checked_add_def split: option.splits)
  qed
qed

lemma sum_chunks: "(\<Sum>i<n. length (chunk cap i xs)) = length (take (n * cap) xs)"
proof -
  have "(\<Sum>i<n. length (chunk cap i xs)) = length (concat (map (\<lambda>i. chunk cap i xs) [0..<n]))"
    by (simp add: length_concat comp_def sum_list_sum_nth atLeast0LessThan)
  then show ?thesis by (simp only: concat_chunks)
qed

lemma take_message_incomplete:
  assumes inv: "ring_inv r" and wf: "wf_message m" and cap: "4 \<le> cap"
    and held: "\<And>i. i < message_fragment_count m cap \<Longrightarrow>
        recv_abs r (unat (rr_delivered r) + i) \<in> {None, Some (chunk cap i (stream m))}"
    and miss: "j < message_fragment_count m cap" "recv_abs r (unat (rr_delivered r) + j) = None"
  shows "recv_take_message r out = (r, out, None)"
proof -
  let ?d = "rr_delivered r" and ?c = "rr_cumulative r" and ?N = "message_fragment_count m cap"
  have ord: "unat ?d \<le> unat ?c" "unat ?c \<le> unat ?d + recv_slots r" "unat ?d + recv_slots r < 4294967296"
    using inv by (auto simp: ring_inv_def)
  have cj: "unat ?c \<le> unat ?d + j"
    using ring_inv_frontier(1) [OF inv, of "unat ?d + j"] miss(2) by fastforce
  let ?n = "unat ?c - unat ?d"
  have body: "slot_body r (?d + of_nat i) = Some (chunk cap i (stream m))" if "i < ?n" for i
  proof -
    have "recv_abs r (unat ?d + i) \<noteq> None" using that ord by (intro ring_inv_frontier(1) [OF inv]) auto
    then have "recv_abs r (unat ?d + i) = Some (chunk cap i (stream m))"
      using held [of i] that cj miss(1) by auto
    then show ?thesis by (auto simp: recv_abs_def split: if_splits)
  qed
  show ?thesis
  proof (cases "?n = 0")
    case True
    then have "?d = ?c" using ord by (simp add: word_unat_eq_iff)
    then show ?thesis by (simp add: recv_take_message_def)
  next
    case False
    have "(\<Sum>i<?n. case slot_body r (?d + of_nat i) of None \<Rightarrow> 0 | Some b \<Rightarrow> length b)
      = (\<Sum>i<?n. length (chunk cap i (stream m)))" by (rule sum.cong) (auto simp: body)
    also have "\<dots> \<le> ?n * cap" by (simp add: sum_chunks)
    also have "\<dots> \<le> j * cap" using cj by (intro mult_le_mono1) linarith
    also have "\<dots> < length (stream m)" using fragment_count_ceil [OF wf, of cap j] miss(1) cap by simp
    finally have sm: "(\<Sum>i<?n. case slot_body r (?d + of_nat i) of None \<Rightarrow> 0 | Some b \<Rightarrow> length b)
      < length (stream m)" .
    have "collect r (length (stream m)) ?d 0 0 = None"
      using ord sm by (intro collect_stops [OF inv, where n = ?n])
        (auto simp: word_unat_eq_iff unat_add_of_nat_u32)
    moreover have "slot_body r ?d = Some (chunk cap 0 (stream m))" using body [of 0] False by simp
    moreover have "length (stream m) = length (content m) + 4" "length (content m) < 2 ^ 32"
      using wf_message_lengths [OF wf] wf by (simp_all add: wf_message_def)
    ultimately show ?thesis
      using parse_prefix_chunk [OF wf cap]
      by (simp add: recv_take_message_def Let_def unat_of_nat_32 usize_checked_add_def LENGTH_PREFIX_LEN_def)
  qed
qed

section \<open>Escaping a stall\<close>

text \<open>\<open>last_such P a b dflt res\<close>: \<open>res\<close> is the last index of \<open>[a, b)\<close> with \<open>P\<close>, or \<open>dflt\<close> if there is none.\<close>

definition last_such :: "(nat \<Rightarrow> bool) \<Rightarrow> nat \<Rightarrow> nat \<Rightarrow> u32 option \<Rightarrow> u32 option \<Rightarrow> bool" where
  "last_such P a b dflt res \<longleftrightarrow>
     (\<exists>k. a \<le> k \<and> k < b \<and> P k \<and> (\<forall>j. k < j \<and> j < b \<longrightarrow> \<not> P j) \<and> res = Some (of_nat k))
     \<or> (\<forall>j. a \<le> j \<and> j < b \<longrightarrow> \<not> P j) \<and> res = dflt"

lemma last_such_empty: "last_such P a a dflt dflt"
  by (auto simp: last_such_def)

lemma last_such_step:
  assumes "last_such P (Suc a) b (if P a then Some (of_nat a) else dflt) res" "a < b"
  shows "last_such P a b dflt res"
proof -
  from assms(1) consider
    (found) k where "Suc a \<le> k" "k < b" "P k" "\<forall>j. k < j \<and> j < b \<longrightarrow> \<not> P j" "res = Some (of_nat k)"
    | (none) "\<forall>j. Suc a \<le> j \<and> j < b \<longrightarrow> \<not> P j" "res = (if P a then Some (of_nat a) else dflt)"
    unfolding last_such_def by blast
  then show ?thesis
  proof cases
    case found
    then show ?thesis unfolding last_such_def by (intro disjI1 exI [of _ k]) simp
  next
    case none
    show ?thesis
    proof (cases "P a")
      case True
      then show ?thesis using none assms(2) unfolding last_such_def by (intro disjI1 exI [of _ a]) simp
    next
      case False
      have "\<not> P j" if "a \<le> j" "j < b" for j
        using that none(1) False by (cases "j = a") auto
      with False none(2) show ?thesis unfolding last_such_def by simp
    qed
  qed
qed

lemma escape_scan_last:
  assumes "unat c \<le> unat (rr_highest r)"
  shows "last_such (\<lambda>k. slot_body r (of_nat k) \<noteq> None) (unat c) (unat (rr_highest r)) f
      (fst (escape_scan r p c f g))
    \<and> last_such (\<lambda>k. \<exists>b. slot_body r (of_nat k) = Some b \<and> p b) (unat c) (unat (rr_highest r)) g
      (snd (escape_scan r p c f g))"
  using assms
proof (induction r p c f g rule: escape_scan.induct)
  case (1 r p c f g)
  show ?case
  proof (cases "c = rr_highest r")
    case True
    then show ?thesis by (simp add: escape_scan.simps last_such_empty)
  next
    case False
    then have lt: "unat c < unat (rr_highest r)"
      using "1.prems" by (metis le_neq_implies_less word_unat_eq_iff)
    have suc: "unat (c + 1) = Suc (unat c)" using lt by (rule unat_Suc_u32)
    have le: "unat (c + 1) \<le> unat (rr_highest r)" using suc lt by simp
    show ?thesis
    proof (cases "slot_body r c")
      case None
      have "escape_scan r p c f g = escape_scan r p (c + 1) f g"
        using False None by (subst escape_scan.simps) simp
      then show ?thesis
        using "1.IH"(1) [OF False None le] None unfolding suc
        by (intro conjI last_such_step [OF _ lt]) simp_all
    next
      case (Some b)
      have "escape_scan r p c f g = escape_scan r p (c + 1) (Some c) (if p b then Some c else g)"
        using False Some by (subst escape_scan.simps) simp
      then show ?thesis
        using "1.IH"(2) [OF False Some le] Some unfolding suc
        by (intro conjI last_such_step [OF _ lt]) (auto split: if_splits)
    qed
  qed
qed

text \<open>
  The fragment an escape lands on: the furthest held one a decoder can resume at or, when no held
  fragment is such, the furthest one held at all.
\<close>

definition escape_target :: "recv_ring \<Rightarrow> (bytes \<Rightarrow> bool) \<Rightarrow> nat \<Rightarrow> bool" where
  "escape_target r p t \<longleftrightarrow>
     (\<exists>b. recv_abs r t = Some b \<and> p b) \<and> (\<forall>k b. t < k \<and> recv_abs r k = Some b \<longrightarrow> \<not> p b)
     \<or> (\<forall>k b. recv_abs r k = Some b \<longrightarrow> \<not> p b) \<and> recv_abs r t \<noteq> None
       \<and> (\<forall>k. t < k \<longrightarrow> recv_abs r k = None)"

lemma recv_abs_scan:
  assumes "ring_inv r"
  shows "recv_abs r k = (if unat (rr_delivered r) \<le> k \<and> k < unat (rr_highest r) then slot_body r (of_nat k) else None)"
proof -
  have sh: "ring_shape r" and nw: "unat (rr_delivered r) + recv_slots r < 4294967296"
    and hi: "unat (rr_highest r) \<le> unat (rr_delivered r) + recv_slots r"
    using assms by (auto simp: ring_inv_def)
  have rdy: "ready_at r k \<longrightarrow> k < unat (rr_highest r)"
    if "unat (rr_delivered r) \<le> k" "k < unat (rr_delivered r) + recv_slots r"
    using assms that by (auto simp: ring_inv_def)
  have "recv_abs r k = None" if "unat (rr_highest r) \<le> k"
    using rdy that unfolding recv_abs_ready [OF sh nw, of k] by auto
  then show ?thesis using hi by (auto simp: recv_abs_def)
qed

lemma escape_choice:
  assumes inv: "ring_inv r" and e: "escape_scan r p (rr_delivered r) None None = (f, g)"
    and t: "(case g of Some t \<Rightarrow> Some t | None \<Rightarrow> f) = Some t"
  shows "escape_target r p (unat t) \<and> unat (rr_delivered r) \<le> unat t \<and> unat t < unat (rr_highest r)"
proof -
  let ?d = "unat (rr_delivered r)" and ?h = "unat (rr_highest r)"
  note ab = recv_abs_scan [OF inv]
  have dh: "?d \<le> ?h" using inv by (auto simp: ring_inv_def)
  have hb: "k < ?h \<Longrightarrow> unat (of_nat k :: u32) = k" for k
    using unat_lt_u32 [of "rr_highest r"] by (intro unat_of_nat_32) simp
  have ls: "last_such (\<lambda>k. slot_body r (of_nat k) \<noteq> None) ?d ?h None f"
    "last_such (\<lambda>k. \<exists>b. slot_body r (of_nat k) = Some b \<and> p b) ?d ?h None g"
    using escape_scan_last [OF dh, of None p None] e by auto
  show ?thesis
  proof (cases g)
    case (Some t')
    then have [simp]: "t' = t" using t by simp
    from ls(2) obtain k where k: "?d \<le> k" "k < ?h" "\<exists>b. slot_body r (of_nat k) = Some b \<and> p b"
      "\<forall>j. k < j \<and> j < ?h \<longrightarrow> \<not> (\<exists>b. slot_body r (of_nat j) = Some b \<and> p b)" "t = of_nat k"
      unfolding last_such_def Some by auto
    have u: "unat t = k" using hb k by simp
    have "\<not> p b" if "k < j" "recv_abs r j = Some b" for j b
      using k(4) that by (auto simp: ab split: if_splits)
    then show ?thesis unfolding escape_target_def u using k(1-3) by (auto simp: ab)
  next
    case None
    then have f: "f = Some t" using t by simp
    from ls(1) obtain k where k: "?d \<le> k" "k < ?h" "slot_body r (of_nat k) \<noteq> None"
      "\<forall>j. k < j \<and> j < ?h \<longrightarrow> slot_body r (of_nat j) = None" "t = of_nat k"
      unfolding last_such_def f by auto
    have u: "unat t = k" using hb k by simp
    have np: "\<not> p b" if "recv_abs r j = Some b" for j b
      using ls(2) that unfolding last_such_def None by (auto simp: ab split: if_splits)
    have "recv_abs r j = None" if "k < j" for j using k(4) that by (auto simp: ab)
    then show ?thesis unfolding escape_target_def u using k(1-3) np by (auto simp: ab)
  qed
qed

lemma escape_released:
  assumes inv: "ring_inv r" and t: "unat (rr_delivered r) < unat t" "unat t < unat (rr_highest r)"
    and nw': "unat t + recv_slots r < 4294967296"
    and r': "r' = recv_advance (r\<lparr>rr_meta := clear_range (rr_meta r) (rr_delivered r) t, rr_delivered := t,
        rr_cumulative := (if seq_lt (rr_cumulative r) t then t else rr_cumulative r)\<rparr>)"
  shows "ring_inv r' \<and> rr_delivered r' = t \<and> recv_abs r' = (\<lambda>k. if unat t \<le> k then recv_abs r k else None)"
proof -
  let ?d = "rr_delivered r" and ?c = "if seq_lt (rr_cumulative r) t then t else rr_cumulative r"
  let ?r = "r\<lparr>rr_meta := clear_count (rr_meta r) ?d (unat t - unat ?d), rr_delivered := t, rr_cumulative := ?c\<rparr>"
  have i: "unat ?d \<le> unat (rr_cumulative r)" "unat (rr_cumulative r) \<le> unat (rr_highest r)"
    "unat (rr_highest r) \<le> unat ?d + recv_slots r" "recv_slots r < 2147483648"
    using inv by (auto simp: ring_inv_def ring_shape_def)
  have "unat (t - ?d) = unat t - unat ?d" using t by (simp add: unat_sub_if')
  then have r1: "r' = recv_advance ?r" by (simp add: r' clear_range_count)
  have "unat (rr_cumulative r - ?d) = unat (rr_cumulative r) - unat ?d" "unat (t - ?d) = unat t - unat ?d"
    using i t by (simp_all add: unat_sub_if')
  then have slt: "seq_lt (rr_cumulative r) t \<longleftrightarrow> unat (rr_cumulative r) < unat t"
    using seq_lt_offsets [of "rr_cumulative r" ?d t] i t by auto
  have c: "unat ?c = max (unat (rr_cumulative r)) (unat t)" using slt by auto
  note rel = release_slots [OF inv less_imp_le [OF t(1)] less_imp_le [OF t(2)] nw', where c = ?c, OF refl]
  have cm: "rr_cumulative ?r = ?c" "rr_highest ?r = rr_highest r" "rr_delivered ?r = t" by simp_all
  have "ring_inv (recv_advance ?r)"
  proof (rule ring_inv_advance [OF rel(1)], goal_cases)
    case 1 show ?case using nw' rel(2) by simp
  next case 2 show ?case unfolding cm c by simp
  next case 3 show ?case unfolding cm c using i t by simp
  next case 4 show ?case unfolding cm rel(2) using i t by simp
  next case (5 k) then show ?case unfolding cm rel(2) using rel(3) [of k] inv t by (auto simp: ring_inv_def)
  next
    case (6 k)
    then have "k < unat (rr_cumulative r)" "unat t \<le> k" unfolding cm c by auto
    then show ?case using rel(3) [of k] inv i t by (auto simp: ring_inv_def)
  qed
  then show ?thesis unfolding r1 using rel(4) by simp
qed

lemma recv_escape_stall_spec:
  assumes inv: "ring_inv r" and e: "recv_escape_stall r p = (r', Some t)"
    and nw: "unat t + recv_slots r < 4294967296"
  shows "ring_inv r' \<and> rr_delivered r' = t \<and> unat (rr_delivered r) < unat t \<and> escape_target r p (unat t)
    \<and> recv_abs r' = (\<lambda>k. if unat t \<le> k then recv_abs r k else None)"
proof -
  obtain f g where fg: "escape_scan r p (rr_delivered r) None None = (f, g)" by fastforce
  have ch: "(case g of Some t \<Rightarrow> Some t | None \<Rightarrow> f) = Some t" and le: "\<not> seq_le t (rr_delivered r)"
    and r': "r' = recv_advance (r\<lparr>rr_meta := clear_range (rr_meta r) (rr_delivered r) t, rr_delivered := t,
        rr_cumulative := (if seq_lt (rr_cumulative r) t then t else rr_cumulative r)\<rparr>)"
    using e fg by (auto simp: recv_escape_stall_def Let_def split: if_splits option.splits)
  have tg: "escape_target r p (unat t)" "unat (rr_delivered r) \<le> unat t" "unat t < unat (rr_highest r)"
    using escape_choice [OF inv fg ch] by auto
  have "t \<noteq> rr_delivered r" using le by (auto simp: seq_le_unat)
  then have lt: "unat (rr_delivered r) < unat t" using tg(2) by (metis le_neq_implies_less word_unat_eq_iff)
  show ?thesis using escape_released [OF inv lt tg(3) nw r'] lt tg(1) by blast
qed

lemma recv_escape_stall_none: "recv_escape_stall r p = (r', None) \<Longrightarrow> r' = r"
  by (auto simp: recv_escape_stall_def Let_def split: if_splits option.splits prod.splits)

section \<open>The ring as a transition system\<close>

text \<open>
  Every way the session drives a receive ring. A step is taken while the window stays clear of the
  end of the sequence space (\<open>recv_regime\<close>); what happens beyond is \<open>recv_wrap_alias\<close> below.
\<close>

definition recv_regime :: "recv_ring \<Rightarrow> bool" where
  "recv_regime r \<longleftrightarrow> unat (rr_delivered r) + recv_slots r < 4294967296"

definition recv_fresh :: "recv_ring \<Rightarrow> bool" where
  "recv_fresh r \<longleftrightarrow> (\<exists>bodies n slot_len. n < 2147483648
     \<and> recv_new bodies (replicate n slot_meta_default) slot_len = Inr r)"

inductive recv_step :: "recv_ring \<Rightarrow> recv_ring \<Rightarrow> bool" where
  rs_store: "recv_store r s b = (r', res) \<Longrightarrow> recv_step r r'"
| rs_take: "recv_take_message r out = (r', out', res) \<Longrightarrow> recv_regime r' \<Longrightarrow> recv_step r r'"
| rs_escape: "recv_escape_stall r p = (r', res) \<Longrightarrow> recv_regime r' \<Longrightarrow> recv_step r r'"
| rs_reset: "recv_regime (recv_reset_to r s) \<Longrightarrow> recv_step r (recv_reset_to r s)"

lemma ring_inv_empty:
  assumes "0 < rr_slot_len r" "rr_meta r = replicate n slot_meta_default" "0 < n" "n < 2147483648"
    "length (rr_bodies r) = n * rr_slot_len r" "n * rr_slot_len r < usize_bound"
    "rr_cumulative r = rr_delivered r" "rr_highest r = rr_delivered r" "recv_regime r"
  shows "ring_inv r"
proof -
  have sl: "recv_slots r = n" using assms by (simp add: recv_slots_def)
  have "\<not> ready_at r k" for k
    using assms by (simp add: ready_at_def sl slot_meta_default_def)
  then show ?thesis
    using assms by (simp add: ring_inv_def ring_shape_def sl slot_meta_default_def recv_regime_def)
qed

lemma recv_fresh_inv: "recv_fresh r \<Longrightarrow> ring_inv r"
proof (unfold recv_fresh_def, elim exE conjE)
  fix bodies n slot_len
  assume n: "n < 2147483648" and r: "recv_new bodies (replicate n slot_meta_default) slot_len = Inr r"
  then show "ring_inv r"
    by (intro ring_inv_empty [of r n])
      (auto simp: recv_new_def usize_checked_mul_def recv_regime_def recv_slots_def split: if_splits)
qed

lemma recv_reset_inv: "ring_inv r \<Longrightarrow> recv_regime (recv_reset_to r s) \<Longrightarrow> ring_inv (recv_reset_to r s)"
  by (intro ring_inv_empty [of _ "recv_slots r"])
    (auto simp: recv_reset_to_def map_replicate_const recv_slots_def ring_inv_def ring_shape_def)

lemma recv_take_message_inv:
  assumes inv: "ring_inv r" and t: "recv_take_message r out = (r', out', res)" and nw: "recv_regime r'"
  shows "ring_inv r'"
proof (cases "\<exists>n. res = Some (Inr n)")
  case True
  then obtain n strm k f where
    c: "collect r strm (rr_delivered r) 0 0 = Some (k, f)"
    and r': "r' = r\<lparr>rr_meta := clear_count (rr_meta r) (rr_delivered r) (unat f), rr_delivered := rr_delivered r + f\<rparr>"
    using t by (auto simp: recv_take_message_def Let_def split: if_splits option.splits sum.splits)
  have ord: "unat (rr_delivered r) \<le> unat (rr_cumulative r)" using inv by (simp add: ring_inv_def)
  from collect_sound [OF c] have f: "unat f \<le> unat (rr_cumulative r) - unat (rr_delivered r)"
    using ord by (auto simp: unat_sub_if')
  then have l: "unat (rr_delivered r) + unat f \<le> unat (rr_cumulative r)" using ord by simp
  have "unat (rr_delivered r + of_nat (unat f)) = unat (rr_delivered r) + unat f"
    using l unat_lt_u32 [of "rr_cumulative r"] by (intro unat_add_of_nat_u32) simp
  then have "unat (rr_delivered r) + unat f + recv_slots r < 4294967296"
    using nw by (simp add: recv_regime_def r' recv_slots_def)
  then show ?thesis using take_released_inv(1) [OF inv l _ unat_lt_u32, of r'] r' by simp
next
  case False
  then have "r' = r"
    using t by (auto simp: recv_take_message_def Let_def split: if_splits option.splits sum.splits)
  then show ?thesis using inv by simp
qed

interpretation recv_sys: invariant_system recv_fresh recv_step ring_inv
proof
  show "ring_inv r" if "recv_fresh r" for r using that by (rule recv_fresh_inv)
  show "ring_inv r'" if "ring_inv r" "recv_step r r'" for r r'
    using that(2)
  proof (cases rule: recv_step.cases)
    case (rs_store s b res)
    then show ?thesis using recv_store_inv [OF that(1), of s b] by simp
  next
    case (rs_take out out' res)
    then show ?thesis using recv_take_message_inv [OF that(1)] by blast
  next
    case (rs_escape p res)
    show ?thesis
    proof (cases res)
      case None
      then show ?thesis using rs_escape recv_escape_stall_none that(1) by blast
    next
      case (Some t)
      have "rr_delivered r' = t" "recv_slots r' = recv_slots r"
        using rs_escape(1) Some by (auto simp: recv_escape_stall_def recv_slots_def Let_def clear_range_count
            split: if_splits option.splits prod.splits)
      then show ?thesis using rs_escape Some recv_escape_stall_spec [OF that(1), of p r' t] by (simp add: recv_regime_def)
    qed
  next
    case (rs_reset s)
    then show ?thesis using recv_reset_inv that(1) by simp
  qed
qed

lemma length_chunk_le: "length (chunk cap i xs) \<le> cap"
  by (simp add: chunk_def)

lemma run_fragments_fit: "b \<in> set (run_fragments cap ms) \<Longrightarrow> length b \<le> cap"
  by (auto simp: run_fragments_def fragments_def length_chunk_le)

section \<open>Properties\<close>

text \<open>
  C21: a run of messages whose fragments arrive in any order and any number of times is handed out
  whole, in sending order, by the read loop. It holds in every reachable state of the ring in which
  none of the run has arrived yet.
\<close>

theorem recv_any_order_delivery:
  assumes "reachable recv_fresh recv_step r"
    and "\<forall>m \<in> set ms. wf_message m \<and> length (content m) \<le> length out"
    and "4 \<le> cap" "cap \<le> rr_slot_len r" "cap < 65536"
    and "length (run_fragments cap ms) \<le> recv_slots r"
    and "unat (rr_delivered r) + length (run_fragments cap ms) + recv_slots r < 4294967296"
    and "\<forall>i < length (run_fragments cap ms). recv_abs r (unat (rr_delivered r) + i) = None"
    and "set order = {0..<length (run_fragments cap ms)}"
  shows "snd (take_all (length ms) (arrive r (rr_delivered r) (run_fragments cap ms) order) out)
    = map content ms"
proof -
  let ?bs = "run_fragments cap ms" and ?r = "arrive r (rr_delivered r) (run_fragments cap ms) order"
  have inv: "ring_inv r" using assms(1) by (rule recv_sys.reachable_inv)
  have fit: "\<forall>b \<in> set ?bs. length b \<le> rr_slot_len r \<and> length b < 65536"
    using run_fragments_fit assms(4,5) by fastforce
  have ok: "\<forall>i < length ?bs. recv_abs r (unat (rr_delivered r) + i) \<in> {None, Some (?bs ! i)}"
    using assms(8) by simp
  have arr: "ring_inv ?r" "rr_delivered ?r = rr_delivered r" "recv_slots ?r = recv_slots r"
    "recv_abs ?r = recv_abs r ++ arrived (unat (rr_delivered r)) ?bs {0..<length ?bs}"
    using arrive_abs [OF inv _ assms(6) fit ok, of order] assms(9) by auto
  have "recv_abs ?r (unat (rr_delivered ?r) + i) = Some (?bs ! i)" if "i < length ?bs" for i
    using that by (simp add: arr arrived_def map_add_def)
  then show ?thesis using take_all_run [OF arr(1) assms(2,3)] arr(2,3) assms(7) by simp
qed

definition demo_ring :: recv_ring where
  "demo_ring = \<lparr>rr_bodies = replicate 16 0, rr_meta = replicate 4 slot_meta_default, rr_slot_len = 4,
     rr_delivered = 0, rr_cumulative = 0, rr_highest = 0\<rparr>"

definition demo_message :: message where
  "demo_message = \<lparr>m_prefix = [0, 0, 0, 5], m_header = [1, 2], m_payload = [3, 4, 5]\<rparr>"

lemma demo_fresh: "recv_fresh demo_ring"
  unfolding recv_fresh_def demo_ring_def
  by (intro exI [of _ "replicate 16 0"] exI [of _ 4])
    (simp add: recv_new_def usize_checked_mul_def usize_bound_def)

lemma demo_reachable: "reachable recv_fresh recv_step demo_ring"
  using demo_fresh by (rule reach_start)

lemma demo_wf: "wf_message demo_message" "content demo_message = [1, 2, 3, 4, 5]"
  by (simp_all add: wf_message_def demo_message_def content_def to_be32_def)

lemma demo_fragments:
  "run_fragments 4 [demo_message] = [[0, 0, 0, 5], [1, 2, 3, 4], [5]]"
  "message_fragment_count demo_message 4 = 3"
  by code_simp+

lemma demo_empty: "recv_abs demo_ring k = None"
proof -
  have "\<not> ready_at demo_ring k"
    by (simp add: ready_at_def demo_ring_def recv_slots_def slot_meta_default_def)
  then show ?thesis
    using recv_fresh_inv [OF demo_fresh] recv_abs_ready [of demo_ring k] by (auto simp: ring_inv_def)
qed

lemma demo_params: "rr_slot_len demo_ring = 4" "recv_slots demo_ring = 4" "rr_delivered demo_ring = 0"
  by (simp_all add: demo_ring_def recv_slots_def)

theorem recv_any_order_delivery_witness:
  "snd (take_all 1 (arrive demo_ring 0 (run_fragments 4 [demo_message]) [2, 0, 2, 1]) (replicate 8 0))
    = [[1, 2, 3, 4, 5]]"
proof -
  have "snd (take_all (length [demo_message]) (arrive demo_ring (rr_delivered demo_ring)
      (run_fragments 4 [demo_message]) [2, 0, 2, 1]) (replicate 8 0)) = map content [demo_message]"
    by (rule recv_any_order_delivery [OF demo_reachable])
      (auto simp: demo_wf demo_fragments demo_empty demo_params)
  then show ?thesis by (simp add: demo_wf demo_params)
qed

text \<open>Evaluation of the ring on concrete states.\<close>

lemma recv_advance_go:
  "rr_cumulative r \<noteq> rr_highest r \<Longrightarrow> slot_ready r (recv_index r (rr_cumulative r)) \<Longrightarrow>
   recv_advance r = recv_advance (r\<lparr>rr_cumulative := rr_cumulative r + 1\<rparr>)"
  "rr_cumulative r = rr_highest r \<Longrightarrow> recv_advance r = r"
  "\<not> slot_ready r (recv_index r (rr_cumulative r)) \<Longrightarrow> recv_advance r = r"
  by (subst recv_advance.simps, simp)+

lemma escape_scan_go:
  "c = rr_highest r \<Longrightarrow> escape_scan r p c f g = (f, g)"
  "c \<noteq> rr_highest r \<Longrightarrow> slot_body r c = None \<Longrightarrow> escape_scan r p c f g = escape_scan r p (c + 1) f g"
  "c \<noteq> rr_highest r \<Longrightarrow> slot_body r c = Some b \<Longrightarrow>
   escape_scan r p c f g = escape_scan r p (c + 1) (Some c) (if p b then Some c else g)"
  by (subst escape_scan.simps, simp)+

lemmas recv_eval = recv_store_def recv_advance_go escape_scan_go clear_range_count
  recv_escape_stall_def recv_has_gap_def recv_slots_def recv_index_def slot_body_def slot_ready_def
  get_at_def get_range_def put_at_def usize_checked_mul_def usize_checked_add_def usize_bound_def
  u16_try_from_def seq_lt_def seq_gt_unat seq_le_unat seq_distance_def slot_meta_default_def Let_def
  recv_cumulative_ack_def

text \<open>
  no partial message. While a fragment of the message at the reader's position is missing,
  \<open>take_message\<close> returns nothing and changes neither the ring nor the buffer.
\<close>

theorem recv_no_partial_message:
  assumes "reachable recv_fresh recv_step r" "wf_message m"
    and "4 \<le> cap" "cap \<le> rr_slot_len r" "cap < 65536"
    and "message_fragment_count m cap \<le> recv_slots r"
    and "\<forall>i < message_fragment_count m cap. recv_abs r (unat (rr_delivered r) + i) = None"
    and "set order \<subset> {0..<message_fragment_count m cap}"
  shows "recv_take_message (arrive r (rr_delivered r) (fragments cap m) order) out
    = (arrive r (rr_delivered r) (fragments cap m) order, out, None)"
proof -
  let ?bs = "fragments cap m" and ?r = "arrive r (rr_delivered r) (fragments cap m) order"
  have inv: "ring_inv r" using assms(1) by (rule recv_sys.reachable_inv)
  have fit: "\<forall>b \<in> set ?bs. length b \<le> rr_slot_len r \<and> length b < 65536"
    using run_fragments_fit [of _ cap "[m]"] assms(4,5) by fastforce
  have ok: "\<forall>i < length ?bs. recv_abs r (unat (rr_delivered r) + i) \<in> {None, Some (?bs ! i)}"
    using assms(7) by simp
  have arr: "ring_inv ?r" "rr_delivered ?r = rr_delivered r"
    "recv_abs ?r = recv_abs r ++ arrived (unat (rr_delivered r)) ?bs (set order)"
    using arrive_abs [OF inv _ _ fit ok, of order] assms(6,8) by auto
  obtain j where j: "j < message_fragment_count m cap" "j \<notin> set order"
    using psubset_imp_ex_mem [OF assms(8)] by auto
  have held: "recv_abs ?r (unat (rr_delivered ?r) + i) =
      (if i \<in> set order then Some (chunk cap i (stream m)) else None)"
    if "i < message_fragment_count m cap" for i
    using that assms(7) by (simp add: arr arrived_def map_add_def)
  show ?thesis
    by (rule take_message_incomplete [OF arr(1) assms(2,3) _ j(1)]) (simp_all add: held j)
qed

theorem recv_no_partial_message_witness:
  "recv_take_message (arrive demo_ring 0 (fragments 4 demo_message) [2, 0, 2]) (replicate 8 0)
    = (arrive demo_ring 0 (fragments 4 demo_message) [2, 0, 2], replicate 8 0, None)"
proof -
  have "set [2, 0, 2] \<subset> {0..<message_fragment_count demo_message 4}"
    unfolding demo_fragments by (rule psubsetI) (auto simp: set_eq_iff intro!: exI [of _ 1])
  then show ?thesis
    using recv_no_partial_message [OF demo_reachable demo_wf(1), of 4 "[2, 0, 2]" "replicate 8 0"]
    by (simp only: demo_fragments demo_empty demo_params) simp
qed

text \<open>
  storing a fragment refines a partial-map update. A fragment is accepted exactly when it lies
  in the window, is not held yet and fits a slot; then the abstract channel gains exactly that
  fragment, and in every other case the ring is returned unchanged.
\<close>

theorem recv_store_refines:
  assumes "reachable recv_fresh recv_step r" "recv_store r s b = (r', res)"
  shows "(res = Accepted \<longleftrightarrow> unat (rr_delivered r) \<le> unat s \<and> unat s < unat (rr_delivered r) + recv_slots r
        \<and> recv_abs r (unat s) = None \<and> length b \<le> rr_slot_len r \<and> length b < 65536)
    \<and> (if res = Accepted then recv_abs r' = (recv_abs r)(unat s \<mapsto> b) else r' = r)"
proof -
  have inv: "ring_inv r" using assms(1) by (rule recv_sys.reachable_inv)
  show ?thesis
    using recv_store_new [OF inv, of s b r' res] recv_store_refused [OF inv, of s b] assms(2)
    by (cases "unat (rr_delivered r) \<le> unat s \<and> unat s < unat (rr_delivered r) + recv_slots r
        \<and> recv_abs r (unat s) = None \<and> length b \<le> rr_slot_len r \<and> length b < 65536") auto
qed

theorem recv_store_refines_witness:
  "recv_abs (fst (recv_store demo_ring 3 [7, 8])) = (recv_abs demo_ring)(3 \<mapsto> [7, 8])"
  using recv_store_refines [OF demo_reachable prod.collapse [symmetric], of 3 "[7, 8]"]
  by (simp add: demo_params demo_empty split: if_splits)

text \<open>
  the cumulative acknowledgement is honest. In every reachable state all the sequences between
  the reader and the acknowledged frontier are held, and the frontier itself is not.
\<close>

theorem recv_frontier_first_missing:
  assumes "reachable recv_fresh recv_step r"
  shows "recv_abs r (unat (recv_cumulative_ack r)) = None
    \<and> (\<forall>k. unat (rr_delivered r) \<le> k \<and> k < unat (recv_cumulative_ack r) \<longrightarrow> recv_abs r k \<noteq> None)"
proof -
  have inv: "ring_inv r" using assms by (rule recv_sys.reachable_inv)
  show ?thesis
    using ring_inv_frontier [OF inv] by (auto simp: recv_cumulative_ack_def)
qed

theorem recv_frontier_first_missing_witness:
  "recv_abs (fst (recv_store demo_ring 1 [7])) 0 = None"
proof -
  have "reachable recv_fresh recv_step (fst (recv_store demo_ring 1 [7]))"
    using demo_reachable by (rule reach_step) (rule rs_store [OF prod.collapse [symmetric]])
  moreover have "recv_cumulative_ack (fst (recv_store demo_ring 1 [7])) = 0"
    by (simp add: recv_eval demo_ring_def)
  ultimately show ?thesis using recv_frontier_first_missing [of "fst (recv_store demo_ring 1 [7])"] by simp
qed

text \<open>
  an escape moves the reader strictly forward, to the furthest held fragment the caller's
  predicate can resume at (or the furthest held one when there is none), drops what lies before it
  and keeps everything from it on.
\<close>

theorem recv_escape_lands:
  assumes "reachable recv_fresh recv_step r" "recv_escape_stall r p = (r', Some t)"
    and "unat t + recv_slots r < 4294967296"
  shows "unat (rr_delivered r) < unat t \<and> rr_delivered r' = t \<and> escape_target r p (unat t)
    \<and> recv_abs r' = (\<lambda>k. if unat t \<le> k then recv_abs r k else None)
    \<and> unat t < unat (rr_cumulative r')"
proof -
  have inv: "ring_inv r" using assms(1) by (rule recv_sys.reachable_inv)
  note sp = recv_escape_stall_spec [OF inv assms(2,3)]
  have "recv_abs r' (unat t) \<noteq> None" using sp by (auto simp: escape_target_def)
  moreover have "recv_abs r' (unat (rr_cumulative r')) = None" "unat (rr_delivered r') \<le> unat (rr_cumulative r')"
    using ring_inv_frontier(2) [of r'] sp by (auto simp: ring_inv_def)
  ultimately have "unat t < unat (rr_cumulative r')" using sp by (metis le_neq_implies_less)
  then show ?thesis using sp by blast
qed

theorem recv_escape_lands_witness:
  "recv_abs (fst (recv_escape_stall (arrive demo_ring 0 [[1], [2], [3], [4]] [1, 3]) (\<lambda>b. b = [2]))) 1 = Some [2]"
proof -
  let ?r = "arrive demo_ring 0 [[1], [2], [3], [4]] [1, 3]"
  have "reachable recv_fresh recv_step (fst (recv_store demo_ring 1 [2]))"
    using demo_reachable by (rule reach_step) (rule rs_store [OF prod.collapse [symmetric]])
  then have "reachable recv_fresh recv_step (fst (recv_store (fst (recv_store demo_ring 1 [2])) 3 [4]))"
    by (rule reach_step) (rule rs_store [OF prod.collapse [symmetric]])
  then have reach: "reachable recv_fresh recv_step ?r" by simp
  have r: "?r = \<lparr>rr_bodies = [0, 0, 0, 0, 2, 0, 0, 0, 0, 0, 0, 0, 4, 0, 0, 0],
      rr_meta = [slot_meta_default, \<lparr>sm_len = 1, sm_ready = True\<rparr>, slot_meta_default,
        \<lparr>sm_len = 1, sm_ready = True\<rparr>],
      rr_slot_len = 4, rr_delivered = 0, rr_cumulative = 0, rr_highest = 4\<rparr>"
    by (simp add: recv_eval demo_ring_def replicate_rec)
  have e: "recv_escape_stall ?r (\<lambda>b. b = [2]) = (fst (recv_escape_stall ?r (\<lambda>b. b = [2])), Some 1)"
    "recv_slots ?r = 4" "recv_abs ?r 1 = Some [2]"
    unfolding r by (simp_all add: recv_eval recv_abs_def)
  show ?thesis using recv_escape_lands [OF reach e(1)] e(2,3) by simp
qed

text \<open>
  at the end of the sequence space the ring of \<open>RING_SLOTS\<close> slots confuses two sequences. The
  slot of a sequence is \<open>seq mod 4000\<close> and 4000 does not divide \<open>2 ^ 32\<close>, so sequence 3295 of the
  window that starts at \<open>u32::MAX\<close> lands in the slot of \<open>u32::MAX\<close> itself: the frontier advances
  over a fragment that never arrived, and reading it yields the other fragment's body.
\<close>

theorem recv_wrap_alias:
  "let r = recv_reset_to \<lparr>rr_bodies = replicate RING_SLOTS 0, rr_meta = replicate RING_SLOTS slot_meta_default,
         rr_slot_len = 1, rr_delivered = 0, rr_cumulative = 0, rr_highest = 0\<rparr> U32_MAX;
       (r', res) = recv_store r 3295 [b]
   in res = Accepted \<and> recv_cumulative_ack r' = 0 \<and> slot_body r' U32_MAX = Some [b]"
proof -
  let ?r = "\<lparr>rr_bodies = (replicate 4000 0)[3295 := b],
     rr_meta = (replicate 4000 slot_meta_default)[3295 := \<lparr>sm_len = 1, sm_ready = True\<rparr>],
     rr_slot_len = 1, rr_delivered = 0xFFFFFFFF, rr_cumulative = 0xFFFFFFFF, rr_highest = 3296\<rparr>"
  have p: "put_at (replicate 4000 0) 3295 [b] = (replicate 4000 0)[3295 := b]"
    by (simp add: put_at_def upd_conv_take_nth_drop)
  have "recv_store (recv_reset_to \<lparr>rr_bodies = replicate RING_SLOTS 0,
      rr_meta = replicate RING_SLOTS slot_meta_default, rr_slot_len = 1, rr_delivered = 0,
      rr_cumulative = 0, rr_highest = 0\<rparr> U32_MAX) 3295 [b] = (recv_advance ?r, Accepted)"
    using p by (simp add: recv_store_def recv_reset_to_def RING_SLOTS_def U32_MAX_def recv_index_def
        get_at_def usize_checked_mul_def usize_bound_def u16_try_from_def seq_lt_def seq_gt_unat
        seq_distance_def slot_meta_default_def Let_def map_replicate_const)
  moreover have "recv_advance ?r = ?r\<lparr>rr_cumulative := 0\<rparr>"
    by (simp add: recv_advance_go slot_ready_def recv_index_def get_at_def slot_meta_default_def)
  ultimately show ?thesis
    by (simp add: recv_cumulative_ack_def slot_body_def recv_index_def get_at_def U32_MAX_def
        usize_checked_mul_def usize_checked_add_def usize_bound_def get_range_def take_Suc_conv_app_nth
        drop_update_swap Let_def)
qed

end
