(* ===== verification/Policy.thy ===== *)
theory Policy
  imports Core_Base
begin

text \<open>
  The transport policy (\<open>transport-policy/src/lib.rs\<close>): the bounded token-bucket pacer and the
  stale-ratio rate controller. Rates, times and token counts are doubles.
\<close>

section \<open>The pacer\<close>

definition MAX_BURST_DATAGRAMS :: nat where "MAX_BURST_DATAGRAMS = 4"

definition MAX_BURST_TIME_MS :: f64 where "MAX_BURST_TIME_MS = rnd 5"

datatype config_error = ZeroDatagramSize | MinimumExceedsMaximum | ZeroBurstDatagrams | InvalidBurstTime

definition config_error_message :: "config_error \<Rightarrow> string" where
  "config_error_message e = (case e of
     ZeroDatagramSize \<Rightarrow> ''datagram sizes must be non-zero''
   | MinimumExceedsMaximum \<Rightarrow> ''minimum datagram size exceeds maximum''
   | ZeroBurstDatagrams \<Rightarrow> ''burst datagram count must be non-zero''
   | InvalidBurstTime \<Rightarrow> ''burst time must be finite and positive'')"

record pacer_config =
  min_datagram_bytes :: nat
  max_datagram_bytes :: nat
  max_burst_datagrams :: nat
  max_burst_time_ms :: f64

definition compatibility_default :: pacer_config where
  "compatibility_default = \<lparr>min_datagram_bytes = 1229, max_datagram_bytes = 2000,
     max_burst_datagrams = MAX_BURST_DATAGRAMS, max_burst_time_ms = MAX_BURST_TIME_MS\<rparr>"

definition config_validate :: "pacer_config \<Rightarrow> config_error + pacer_config" where
  "config_validate c =
     (if min_datagram_bytes c = 0 \<or> max_datagram_bytes c = 0 then Inl ZeroDatagramSize
      else if max_datagram_bytes c < min_datagram_bytes c then Inl MinimumExceedsMaximum
      else if max_burst_datagrams c = 0 then Inl ZeroBurstDatagrams
      else if \<not> is_finite (max_burst_time_ms c) \<or> fle (max_burst_time_ms c) (Fin 0) then Inl InvalidBurstTime
      else Inr c)"

record pacer =
  pc_config :: pacer_config
  pc_rate_mbps :: f64
  pc_tokens_bytes :: f64
  pc_last_ms :: f64
  pc_datagram_bytes :: nat

definition pacer_new :: "f64 \<Rightarrow> pacer" where
  "pacer_new now_ms = \<lparr>pc_config = compatibility_default, pc_rate_mbps = Fin 0, pc_tokens_bytes = Fin 0,
     pc_last_ms = now_ms, pc_datagram_bytes = min_datagram_bytes compatibility_default\<rparr>"

definition pacer_with_config :: "f64 \<Rightarrow> pacer_config \<Rightarrow> config_error + pacer" where
  "pacer_with_config now_ms config = (case config_validate config of Inl e \<Rightarrow> Inl e | Inr config \<Rightarrow>
     Inr \<lparr>pc_config = config, pc_rate_mbps = Fin 0, pc_tokens_bytes = Fin 0, pc_last_ms = now_ms,
          pc_datagram_bytes = max_datagram_bytes config\<rparr>)"

definition pacer_enabled :: "pacer \<Rightarrow> bool" where
  "pacer_enabled p = flt (Fin 0) (pc_rate_mbps p)"

definition bytes_per_ms :: "f64 \<Rightarrow> f64 option" where
  "bytes_per_ms rate_mbps =
     (let b = fdiv (fdiv (fmul rate_mbps (rnd 1000000)) (rnd 8)) (rnd 1000) in
      if is_finite b \<and> flt (Fin 0) b then Some b else None)"

definition pacer_capacity :: "pacer \<Rightarrow> f64" where
  "pacer_capacity p = (case bytes_per_ms (pc_rate_mbps p) of None \<Rightarrow> Fin 0
   | Some bpm \<Rightarrow>
       let datagram_bytes = f64_of_nat (pc_datagram_bytes p);
           packet_cap = fmul datagram_bytes (f64_of_nat (max_burst_datagrams (pc_config p)));
           time_cap = fmul bpm (max_burst_time_ms (pc_config p))
       in fmin (fmax time_cap datagram_bytes) packet_cap)"

definition set_datagram_size :: "pacer \<Rightarrow> nat \<Rightarrow> pacer \<times> bool" where
  "set_datagram_size p datagram_bytes =
     (if \<not> (min_datagram_bytes (pc_config p) \<le> datagram_bytes \<and> datagram_bytes \<le> max_datagram_bytes (pc_config p))
      then (p, False)
      else let p = p\<lparr>pc_datagram_bytes := datagram_bytes\<rparr> in
        (if pacer_enabled p
         then p\<lparr>pc_tokens_bytes := fmin (pc_tokens_bytes p) (pacer_capacity p)\<rparr> else p, True))"

definition burst_capacity_bytes :: "pacer \<Rightarrow> nat" where
  "burst_capacity_bytes p = usize_of_f64 (pacer_capacity p)"

definition refill :: "pacer \<Rightarrow> f64 \<Rightarrow> pacer" where
  "refill p now_ms =
     (if \<not> is_finite now_ms then p
      else if \<not> is_finite (pc_last_ms p) then p\<lparr>pc_last_ms := now_ms\<rparr>
      else if fle now_ms (pc_last_ms p) then p
      else
        let p1 = (if pacer_enabled p
                  then let elapsed_ms = fsub now_ms (pc_last_ms p) in
                    case bytes_per_ms (pc_rate_mbps p) of None \<Rightarrow> p
                    | Some bpm \<Rightarrow> p\<lparr>pc_tokens_bytes :=
                        fmin (fadd (pc_tokens_bytes p) (fmul elapsed_ms bpm)) (pacer_capacity p)\<rparr>
                  else p)
        in p1\<lparr>pc_last_ms := now_ms\<rparr>)"

definition set_rate :: "pacer \<Rightarrow> f64 \<Rightarrow> f64 \<Rightarrow> pacer" where
  "set_rate p now_ms rate_mbps =
     (let p = refill p now_ms in
      if bytes_per_ms rate_mbps = None then p\<lparr>pc_rate_mbps := Fin 0, pc_tokens_bytes := Fin 0\<rparr>
      else let was_enabled = pacer_enabled p; p = p\<lparr>pc_rate_mbps := rate_mbps\<rparr> in
        if \<not> was_enabled then p\<lparr>pc_tokens_bytes := pacer_capacity p\<rparr>
        else p\<lparr>pc_tokens_bytes := fmin (pc_tokens_bytes p) (pacer_capacity p)\<rparr>)"

definition available :: "pacer \<Rightarrow> f64 \<Rightarrow> f64" where
  "available p now_ms =
     (if \<not> pacer_enabled p \<or> \<not> is_finite now_ms \<or> \<not> is_finite (pc_last_ms p) then pc_tokens_bytes p
      else if fle now_ms (pc_last_ms p) then pc_tokens_bytes p
      else let elapsed_ms = fsub now_ms (pc_last_ms p) in
        case bytes_per_ms (pc_rate_mbps p) of None \<Rightarrow> pc_tokens_bytes p
        | Some bpm \<Rightarrow> fmin (fadd (pc_tokens_bytes p) (fmul elapsed_ms bpm)) (pacer_capacity p))"

definition can_consume :: "pacer \<Rightarrow> f64 \<Rightarrow> nat \<Rightarrow> bool" where
  "can_consume p now_ms n =
     (if \<not> pacer_enabled p \<or> n = 0 then True else fle (f64_of_nat n) (available p now_ms))"

definition try_consume :: "pacer \<Rightarrow> f64 \<Rightarrow> nat \<Rightarrow> pacer \<times> bool" where
  "try_consume p now_ms n =
     (if n = 0 then (p, True)
      else if \<not> pacer_enabled p then (p, True)
      else let p = refill p now_ms in
        if flt (pc_tokens_bytes p) (f64_of_nat n) then (p, False)
        else (p\<lparr>pc_tokens_bytes := fsub (pc_tokens_bytes p) (f64_of_nat n)\<rparr>, True))"

definition wait_ms :: "pacer \<Rightarrow> f64 \<Rightarrow> nat \<Rightarrow> f64" where
  "wait_ms p now_ms n =
     (if n = 0 \<or> \<not> pacer_enabled p then Fin 0
      else let b = f64_of_nat n in
        if flt (pacer_capacity p) b then PInf
        else let av = available p now_ms in
          if fle b av then Fin 0
          else case bytes_per_ms (pc_rate_mbps p) of None \<Rightarrow> PInf | Some bpm \<Rightarrow> fdiv (fsub b av) bpm)"

section \<open>The rate controller\<close>

record congestion_observation =
  ob_in_flight :: "u32 option"
  ob_stale :: "u32 option"
  ob_delivery_rate_mbps :: "f64 option"
  ob_srtt_ms :: "f64 option"

definition WINDOW_FLOOR :: u32 where "WINDOW_FLOOR = 100"
definition INCREASE_PERIOD :: u32 where "INCREASE_PERIOD = 30"
definition DECREASE_PERIOD :: u32 where "DECREASE_PERIOD = 60"
definition DECREASE_FACTOR :: f64 where "DECREASE_FACTOR = rnd (7 / 10)"
definition INCREASE_STEP_MBPS :: f64 where "INCREASE_STEP_MBPS = rnd (15 / 100)"
definition STEP_GROWTH :: u32 where "STEP_GROWTH = 2"
definition STEP_CAP :: u32 where "STEP_CAP = 5"

record level =
  rtt_mult :: f64
  base_ms :: f64
  stale_ratio :: f64

definition LEVELS :: "level list" where
  "LEVELS = [
     \<lparr>rtt_mult = Fin 0, base_ms = Fin 0, stale_ratio = Fin 0\<rparr>,
     \<lparr>rtt_mult = rnd (11 / 10), base_ms = rnd 20, stale_ratio = rnd (15 / 100)\<rparr>,
     \<lparr>rtt_mult = rnd (15 / 10), base_ms = rnd 50, stale_ratio = rnd (35 / 100)\<rparr>]"

definition DEFAULT_LEVEL :: nat where "DEFAULT_LEVEL = 1"

definition level_of :: "nat \<Rightarrow> level" where
  "level_of index = (case get_at LEVELS index of Some l \<Rightarrow> l | None \<Rightarrow> LEVELS ! DEFAULT_LEVEL)"

record controller =
  ct_level :: nat
  ct_min_mbps :: f64
  ct_max_mbps :: f64
  ct_current_mbps :: f64
  ct_peak_mbps :: f64
  ct_increase_ticks :: u32
  ct_decrease_ticks :: u32
  ct_step :: u32
  ct_reset_pending :: bool
  ct_total_decreases :: u32

definition controller_new :: "nat \<Rightarrow> f64 \<Rightarrow> f64 \<Rightarrow> controller" where
  "controller_new lvl min_mbps max_mbps = \<lparr>ct_level = lvl, ct_min_mbps = min_mbps, ct_max_mbps = max_mbps,
     ct_current_mbps = min_mbps, ct_peak_mbps = min_mbps, ct_increase_ticks = 0, ct_decrease_ticks = 0,
     ct_step = 1, ct_reset_pending = True, ct_total_decreases = 0\<rparr>"

definition set_bounds :: "controller \<Rightarrow> f64 \<Rightarrow> f64 \<Rightarrow> controller" where
  "set_bounds c min_mbps max_mbps =
     (let c = c\<lparr>ct_min_mbps := min_mbps, ct_max_mbps := max_mbps\<rparr>;
          c = (if flt max_mbps (ct_current_mbps c) then c\<lparr>ct_current_mbps := max_mbps\<rparr> else c);
          c = (if flt max_mbps (ct_peak_mbps c) then c\<lparr>ct_peak_mbps := max_mbps\<rparr> else c)
      in c\<lparr>ct_reset_pending := True\<rparr>)"

definition controller_rate :: "controller \<Rightarrow> f64 option" where
  "controller_rate c = fclamp (ct_current_mbps c) (ct_min_mbps c) (ct_max_mbps c)"

definition is_congested :: "controller \<Rightarrow> u32 \<Rightarrow> u32 \<Rightarrow> bool" where
  "is_congested c window stale =
     (if window \<le> WINDOW_FLOOR then False
      else flt (stale_ratio (level_of (ct_level c))) (fdiv (f64_of_nat (unat stale)) (f64_of_nat (unat window))))"

definition tick_step :: "controller \<Rightarrow> u32 \<Rightarrow> u32 \<Rightarrow> f64 \<Rightarrow> controller" where
  "tick_step c window stale measured_mbps =
     (if is_congested c window stale then
        let observed = ct_decrease_ticks c;
            c = c\<lparr>ct_decrease_ticks := ct_decrease_ticks c + 1\<rparr> in
        if observed mod DECREASE_PERIOD = 0 then
          let c = c\<lparr>ct_total_decreases := sat_add (ct_total_decreases c) 1, ct_increase_ticks := 0,
                    ct_peak_mbps := fmul (ct_peak_mbps c) DECREASE_FACTOR\<rparr>
          in c\<lparr>ct_current_mbps := ct_peak_mbps c\<rparr>
        else c
      else
        let c = c\<lparr>ct_increase_ticks := ct_increase_ticks c + 1\<rparr> in
        if ct_increase_ticks c mod INCREASE_PERIOD = 0 then
          let c = c\<lparr>ct_decrease_ticks := 0\<rparr> in
          if ct_reset_pending c then
            c\<lparr>ct_current_mbps := ct_min_mbps c, ct_peak_mbps := ct_min_mbps c, ct_reset_pending := False\<rparr>
          else
            let c = (if flt (ct_peak_mbps c) measured_mbps then c\<lparr>ct_peak_mbps := measured_mbps\<rparr> else c);
                step = min (ct_step c) STEP_CAP
            in c\<lparr>ct_current_mbps := fadd (ct_current_mbps c)
                   (fmul (f64_of_nat (unat step)) INCREASE_STEP_MBPS),
                 ct_step := sat_add (ct_step c) STEP_GROWTH\<rparr>
        else c)"

text \<open>One tick returns the clamped rate; \<^const>\<open>None\<close> is the panic of \<open>clamp\<close> on reversed bounds.\<close>

definition tick :: "controller \<Rightarrow> u32 \<Rightarrow> u32 \<Rightarrow> f64 \<Rightarrow> controller \<times> f64 option" where
  "tick c window stale measured_mbps =
     (let c = tick_step c window stale measured_mbps in (c, controller_rate c))"

definition tick_observation :: "controller \<Rightarrow> congestion_observation \<Rightarrow> controller \<times> f64 option option" where
  "tick_observation c ob = (case (ob_in_flight ob, ob_stale ob) of
     (Some window, Some stale) \<Rightarrow>
       (let (c, rate) = tick c window stale (case ob_delivery_rate_mbps ob of Some m \<Rightarrow> m | None \<Rightarrow> Fin 0)
        in (c, Some rate))
   | _ \<Rightarrow> (c, None))"

section \<open>Invariant of the pacer\<close>

text \<open>
  The configuration a constructor accepts, a datagram size within it, and either a disabled bucket
  without credit or an enabled one whose credit lies between zero and the capacity.
\<close>

definition pacer_cfg_ok :: "pacer \<Rightarrow> bool" where
  "pacer_cfg_ok p \<longleftrightarrow> config_validate (pc_config p) = Inr (pc_config p)
     \<and> min_datagram_bytes (pc_config p) \<le> pc_datagram_bytes p
     \<and> pc_datagram_bytes p \<le> max_datagram_bytes (pc_config p)
     \<and> max_datagram_bytes (pc_config p) < usize_bound \<and> max_burst_datagrams (pc_config p) < usize_bound"

definition pacer_inv :: "pacer \<Rightarrow> bool" where
  "pacer_inv p \<longleftrightarrow> pacer_cfg_ok p \<and> f64_ok (pc_tokens_bytes p)
     \<and> (pc_rate_mbps p = Fin 0 \<and> pc_tokens_bytes p = Fin 0
        \<or> bytes_per_ms (pc_rate_mbps p) \<noteq> None \<and> fle (Fin 0) (pc_tokens_bytes p)
          \<and> fle (pc_tokens_bytes p) (pacer_capacity p))"

lemma bytes_per_ms_Some:
  "bytes_per_ms r = Some b \<Longrightarrow> \<exists>q. b = Fin q \<and> 0 < q"
  by (cases b) (auto simp: bytes_per_ms_def Let_def split: if_splits)

lemma fdiv_nonpos: "fle x (Fin 0) \<Longrightarrow> 0 < d \<Longrightarrow> fle (fdiv x (Fin d)) (Fin 0)"
  using rnd_mono [of _ 0] by (cases x) (auto simp: finf_def divide_nonpos_pos)

lemma bytes_per_ms_enabled: "bytes_per_ms r \<noteq> None \<Longrightarrow> flt (Fin 0) r"
proof (rule ccontr)
  assume b: "bytes_per_ms r \<noteq> None" and n: "\<not> flt (Fin 0) r"
  have "r \<noteq> NaN" using b by (auto simp: bytes_per_ms_def)
  with n have "fle r (Fin 0)" by (simp add: flt_iff)
  then have "fle (fmul r (rnd 1000000)) (Fin 0)"
    using rnd_mono [of _ 0] by (cases r) (auto simp: finf_def)
  then have "fle (fdiv (fdiv (fmul r (rnd 1000000)) (rnd 8)) (rnd 1000)) (Fin 0)"
    by (simp add: fdiv_nonpos)
  with b show False by (auto simp: bytes_per_ms_def Let_def dest: fle_not_flt split: if_splits)
qed

lemma bytes_per_ms_0 [simp]: "bytes_per_ms (Fin 0) = None"
  by (simp add: bytes_per_ms_def)

lemma pacer_inv_enabled: "pacer_inv p \<Longrightarrow> pacer_enabled p \<longleftrightarrow> bytes_per_ms (pc_rate_mbps p) \<noteq> None"
  unfolding pacer_inv_def pacer_enabled_def using bytes_per_ms_enabled [of "pc_rate_mbps p"] by auto

lemma fmul_of_nat_ge:
  assumes "0 < n" "n \<le> 2 ^ 64" "d \<le> 2 ^ 64"
  shows "fle (f64_of_nat d) (fmul (f64_of_nat d) (f64_of_nat n))"
    "\<exists>q. fmul (f64_of_nat d) (f64_of_nat n) = Fin q"
proof -
  obtain x where x: "f64_of_nat d = Fin x" "0 \<le> x" "x \<le> 2 ^ 64" using f64_of_nat_finite [OF assms(3)] by blast
  obtain y where y: "f64_of_nat n = Fin y" "0 \<le> y" "y \<le> 2 ^ 64" using f64_of_nat_finite [OF assms(2)] by blast
  have "fle (rnd 1) (f64_of_nat n)" unfolding f64_of_nat_def using assms(1) by (intro rnd_mono) simp
  then have y1: "1 \<le> y" by (simp add: y)
  have "x * 1 \<le> x * y" using x y1 by (intro mult_left_mono) auto
  then have "fle (rnd x) (rnd (x * y))" by (intro rnd_mono) simp
  moreover have "rnd x = Fin x" using f64_ok_of_nat [of d] by (simp add: f64_ok_def x)
  ultimately show ge: "fle (f64_of_nat d) (fmul (f64_of_nat d) (f64_of_nat n))" by (simp add: x y)
  have "x * y \<le> 2 ^ 64 * 2 ^ 64" using x y by (intro mult_mono) auto
  then have "fle (rnd (x * y)) (rnd (2 ^ 128))" by (intro rnd_mono) simp
  then show "\<exists>q. fmul (f64_of_nat d) (f64_of_nat n) = Fin q"
    using rnd_pow2 [of 128] rnd_nonneg [of "x * y"] x y fle_between_finite [of 0 "rnd (x * y)" "2 ^ 128"] by auto
qed

text \<open>
  The capacity is a finite number of bytes, holds at least one datagram of the current size, and
  at most the configured number of datagrams.
\<close>

lemma pacer_capacity_bounds:
  assumes "pacer_cfg_ok p" "bytes_per_ms (pc_rate_mbps p) \<noteq> None"
  shows "fle (f64_of_nat (pc_datagram_bytes p)) (pacer_capacity p)" "is_finite (pacer_capacity p)"
    "f64_ok (pacer_capacity p)"
    "fle (pacer_capacity p) (fmul (f64_of_nat (pc_datagram_bytes p)) (f64_of_nat (max_burst_datagrams (pc_config p))))"
proof -
  obtain b where bpm: "bytes_per_ms (pc_rate_mbps p) = Some b" using assms(2) by blast
  obtain q where q: "b = Fin q" "0 < q" using bytes_per_ms_Some [OF bpm] by blast
  let ?d = "f64_of_nat (pc_datagram_bytes p)" and ?n = "f64_of_nat (max_burst_datagrams (pc_config p))"
  let ?t = "fmul b (max_burst_time_ms (pc_config p))"
  have cfg: "0 < max_burst_datagrams (pc_config p)" "max_burst_datagrams (pc_config p) \<le> 2 ^ 64"
    "pc_datagram_bytes p \<le> 2 ^ 64" "is_finite (max_burst_time_ms (pc_config p))"
    using assms(1) by (auto simp: pacer_cfg_ok_def config_validate_def usize_bound_def split: if_splits)
  have t: "?t \<noteq> NaN" using cfg(4) q by (cases "max_burst_time_ms (pc_config p)") auto
  have cap: "pacer_capacity p = fmin (fmax ?t ?d) (fmul ?d ?n)" by (simp add: pacer_capacity_def bpm Let_def)
  obtain k where k: "fmul ?d ?n = Fin k" using fmul_of_nat_ge(2) [OF cfg(1-3)] by blast
  have m: "fmax ?t ?d \<noteq> NaN" "fle ?d (fmax ?t ?d)" using t by (simp_all add: fmax_not_NaN fmax_ge)
  show ge: "fle ?d (pacer_capacity p)"
    unfolding cap using m(2) fmul_of_nat_ge(1) [OF cfg(1-3)] by (rule fmin_ge)
  show le: "fle (pacer_capacity p) (fmul ?d ?n)" unfolding cap using m(1) k by (simp add: fmin_le)
  have "fle (Fin 0) (pacer_capacity p)" using f64_of_nat_nonneg ge by (rule fle_trans)
  then show "is_finite (pacer_capacity p)" using le k by (cases "pacer_capacity p") auto
  show "f64_ok (pacer_capacity p)" unfolding cap by simp
qed

lemma pacer_capacity_nonneg:
  assumes "pacer_cfg_ok p"
  shows "fle (Fin 0) (pacer_capacity p)" "is_finite (pacer_capacity p)" "f64_ok (pacer_capacity p)"
proof -
  have "fle (Fin 0) (pacer_capacity p) \<and> is_finite (pacer_capacity p) \<and> f64_ok (pacer_capacity p)"
  proof (cases "bytes_per_ms (pc_rate_mbps p)")
    case None
    then show ?thesis by (simp add: pacer_capacity_def)
  next
    case (Some b)
    then have ne: "bytes_per_ms (pc_rate_mbps p) \<noteq> None" by simp
    show ?thesis
      using pacer_capacity_bounds(1-3) [OF assms ne] fle_trans [OF f64_of_nat_nonneg] by blast
  qed
  then show "fle (Fin 0) (pacer_capacity p)" "is_finite (pacer_capacity p)" "f64_ok (pacer_capacity p)"
    by blast+
qed

text \<open>
  \<open>refill\<close> and the read-only \<open>available\<close> agree, and neither leaves the interval from zero to the
  capacity.
\<close>

lemma refill_frame [simp]:
  "pc_config (refill p t) = pc_config p" "pc_rate_mbps (refill p t) = pc_rate_mbps p"
  "pc_datagram_bytes (refill p t) = pc_datagram_bytes p"
  by (auto simp: refill_def Let_def split: option.splits)

lemma capacity_cong:
  "pc_config p = pc_config q \<Longrightarrow> pc_rate_mbps p = pc_rate_mbps q \<Longrightarrow> pc_datagram_bytes p = pc_datagram_bytes q \<Longrightarrow>
   pacer_capacity p = pacer_capacity q"
  by (simp only: pacer_capacity_def)

lemma refill_available: "pacer_enabled p \<Longrightarrow> pc_tokens_bytes (refill p t) = available p t"
  by (auto simp: refill_def available_def Let_def split: option.splits)

lemma available_bounds:
  assumes inv: "pacer_inv p" and en: "pacer_enabled p"
  shows "fle (Fin 0) (available p t)" "fle (available p t) (pacer_capacity p)" "f64_ok (available p t)"
    "is_finite (available p t)"
proof -
  obtain b where b: "bytes_per_ms (pc_rate_mbps p) = Some b" using pacer_inv_enabled [OF inv] en by auto
  obtain q where q: "b = Fin q" "0 < q" using bytes_per_ms_Some [OF b] by blast
  have ok: "pacer_cfg_ok p" "f64_ok (pc_tokens_bytes p)" "fle (Fin 0) (pc_tokens_bytes p)"
    "fle (pc_tokens_bytes p) (pacer_capacity p)"
    using inv b by (auto simp: pacer_inv_def)
  note cap = pacer_capacity_nonneg [OF ok(1)]
  let ?gain = "fmul (fsub t (pc_last_ms p)) b"
  have gain: "fle (Fin 0) ?gain" if "\<not> fle t (pc_last_ms p)" "is_finite t" "is_finite (pc_last_ms p)"
  proof -
    have "fle (pc_last_ms p) t" using that by (cases t; cases "pc_last_ms p") auto
    then have "fle (Fin 0) (fsub t (pc_last_ms p))" using that(3) by (rule fsub_nonneg)
    then show ?thesis using q by (cases "fsub t (pc_last_ms p)") (auto simp: finf_def rnd_nonneg)
  qed
  show lo: "fle (Fin 0) (available p t)"
    using ok cap gain b by (auto simp: available_def Let_def intro!: fmin_ge fadd_nonneg)
  have "fle (fmin (fadd (pc_tokens_bytes p) ?gain) (pacer_capacity p)) (pacer_capacity p)"
    if "\<not> fle t (pc_last_ms p)" "is_finite t" "is_finite (pc_last_ms p)"
    using fadd_nonneg [OF ok(3) gain [OF that]] cap(1) by (intro fmin_le [THEN conjunct2]) (auto dest: fle_not_NaN)
  then show hi: "fle (available p t) (pacer_capacity p)"
    using ok b by (auto simp: available_def Let_def)
  show "f64_ok (available p t)"
    using ok cap b by (auto simp: available_def Let_def)
  show "is_finite (available p t)" using lo hi cap(2) by (cases "available p t"; cases "pacer_capacity p") auto
qed

lemma refill_inv:
  assumes "pacer_inv p"
  shows "pacer_inv (refill p t)"
proof -
  have c: "pacer_capacity (refill p t) = pacer_capacity p" by (rule capacity_cong) simp_all
  have cfg: "pacer_cfg_ok (refill p t)" using assms by (simp add: pacer_inv_def pacer_cfg_ok_def)
  show ?thesis
  proof (cases "pacer_enabled p")
    case True
    then show ?thesis
      using available_bounds [OF assms True, of t] pacer_inv_enabled [OF assms] cfg
      by (simp add: pacer_inv_def refill_available c)
  next
    case False
    then have "bytes_per_ms (pc_rate_mbps p) = None" using pacer_inv_enabled [OF assms] by simp
    moreover have "pc_tokens_bytes (refill p t) = pc_tokens_bytes p"
      using False by (simp add: refill_def Let_def)
    ultimately show ?thesis using assms cfg by (auto simp: pacer_inv_def)
  qed
qed

lemma pacer_inv_clip:
  assumes "pacer_cfg_ok p" "bytes_per_ms (pc_rate_mbps p) \<noteq> None" "f64_ok (pc_tokens_bytes p)"
    "fle (Fin 0) (pc_tokens_bytes p)"
  shows "pacer_inv (p\<lparr>pc_tokens_bytes := fmin (pc_tokens_bytes p) (pacer_capacity p)\<rparr>)"
proof -
  let ?p = "p\<lparr>pc_tokens_bytes := fmin (pc_tokens_bytes p) (pacer_capacity p)\<rparr>"
  have c: "pacer_capacity ?p = pacer_capacity p" by (rule capacity_cong) simp_all
  note cap = pacer_capacity_nonneg [OF assms(1)]
  have "pacer_cfg_ok ?p" using assms(1) by (simp add: pacer_cfg_ok_def)
  then show ?thesis
    using assms cap unfolding pacer_inv_def c by (auto intro: fmin_ge fmin_le [THEN conjunct2] dest: fle_not_NaN)
qed

lemma set_datagram_size_inv: "pacer_inv p \<Longrightarrow> pacer_inv (fst (set_datagram_size p n))"
proof -
  assume inv: "pacer_inv p"
  let ?p = "p\<lparr>pc_datagram_bytes := n\<rparr>"
  show ?thesis
  proof (cases "min_datagram_bytes (pc_config p) \<le> n \<and> n \<le> max_datagram_bytes (pc_config p)")
    case True
    then have cfg: "pacer_cfg_ok ?p" using inv by (simp add: pacer_inv_def pacer_cfg_ok_def)
    have en: "pacer_enabled ?p = pacer_enabled p" by (simp add: pacer_enabled_def)
    show ?thesis
    proof (cases "pacer_enabled p")
      case True
      then have "bytes_per_ms (pc_rate_mbps p) \<noteq> None" "fle (Fin 0) (pc_tokens_bytes p)" "f64_ok (pc_tokens_bytes p)"
        using inv pacer_inv_enabled [OF inv] by (auto simp: pacer_inv_def)
      then show ?thesis
        using pacer_inv_clip [OF cfg] True \<open>_ \<and> _\<close> by (simp add: set_datagram_size_def Let_def en)
    next
      case False
      then have "bytes_per_ms (pc_rate_mbps p) = None" using pacer_inv_enabled [OF inv] by simp
      then show ?thesis
        using inv cfg False \<open>_ \<and> _\<close> by (auto simp: set_datagram_size_def Let_def en pacer_inv_def)
    qed
  qed (use inv in \<open>auto simp: set_datagram_size_def\<close>)
qed

lemma set_rate_inv: "pacer_inv p \<Longrightarrow> pacer_inv (set_rate p t r)"
proof -
  assume "pacer_inv p"
  then have inv: "pacer_inv (refill p t)" (is "pacer_inv ?q") by (rule refill_inv)
  let ?r = "?q\<lparr>pc_rate_mbps := r\<rparr>"
  have cfg: "pacer_cfg_ok ?r" using inv by (simp add: pacer_inv_def pacer_cfg_ok_def)
  consider (off) "bytes_per_ms r = None" | (fresh) "bytes_per_ms r \<noteq> None" "\<not> pacer_enabled ?q"
    | (on) "bytes_per_ms r \<noteq> None" "pacer_enabled ?q" by blast
  then show ?thesis
  proof cases
    case off
    then show ?thesis using inv by (simp add: set_rate_def Let_def pacer_inv_def pacer_cfg_ok_def)
  next
    case fresh
    have c: "pacer_capacity (?r\<lparr>pc_tokens_bytes := x\<rparr>) = pacer_capacity ?r" for x
      by (rule capacity_cong) simp_all
    have cfg': "pacer_cfg_ok (?r\<lparr>pc_tokens_bytes := x\<rparr>)" for x using cfg by (simp add: pacer_cfg_ok_def)
    have "pacer_inv (?r\<lparr>pc_tokens_bytes := pacer_capacity ?r\<rparr>)"
      using pacer_capacity_nonneg [OF cfg] fresh(1) cfg' unfolding pacer_inv_def c
      by (auto dest: fle_not_NaN)
    then show ?thesis using fresh by (auto simp: set_rate_def Let_def)
  next
    case on
    then have "f64_ok (pc_tokens_bytes ?q)" "fle (Fin 0) (pc_tokens_bytes ?q)"
      using inv by (auto simp: pacer_inv_def)
    then show ?thesis using pacer_inv_clip [OF cfg] on by (auto simp: set_rate_def Let_def)
  qed
qed

lemma try_consume_inv: "pacer_inv p \<Longrightarrow> pacer_inv (fst (try_consume p t n))"
proof -
  assume inv0: "pacer_inv p"
  show ?thesis
  proof (cases "n = 0 \<or> \<not> pacer_enabled p")
    case True
    then show ?thesis using inv0 by (auto simp: try_consume_def)
  next
    case False
    let ?q = "refill p t" and ?b = "f64_of_nat n"
    have inv: "pacer_inv ?q" using inv0 by (rule refill_inv)
    have av: "pc_tokens_bytes ?q = available p t" using False by (simp add: refill_available)
    note ab = available_bounds [OF inv0, of t]
    show ?thesis
    proof (cases "flt (pc_tokens_bytes ?q) ?b")
      case True
      then show ?thesis using False inv by (simp add: try_consume_def Let_def)
    next
      case fits: False
      let ?p = "?q\<lparr>pc_tokens_bytes := fsub (pc_tokens_bytes ?q) ?b\<rparr>"
      have c: "pacer_capacity ?p = pacer_capacity ?q" by (rule capacity_cong) simp_all
      have tk: "fle (pc_tokens_bytes ?q) (pacer_capacity ?q)" "is_finite (pc_tokens_bytes ?q)"
        "f64_ok (pc_tokens_bytes ?q)" "bytes_per_ms (pc_rate_mbps ?q) \<noteq> None"
        using ab False pacer_inv_enabled [OF inv0] capacity_cong [of ?q p] by (auto simp: av)
      have le: "fle ?b (pc_tokens_bytes ?q)" using fits tk(2) by (cases "pc_tokens_bytes ?q") (auto simp: flt_iff)
      have fb: "is_finite ?b" using le tk(2) f64_of_nat_nonneg [of n] by (cases ?b; cases "pc_tokens_bytes ?q") auto
      have "fle (fsub (pc_tokens_bytes ?q) ?b) (pacer_capacity ?q)"
        using fsub_le [OF tk(3,2) f64_of_nat_nonneg] tk(1) by (rule fle_trans)
      moreover have "fle (Fin 0) (fsub (pc_tokens_bytes ?q) ?b)" using le fb by (rule fsub_nonneg)
      moreover have "pacer_cfg_ok ?p" using inv by (simp add: pacer_inv_def pacer_cfg_ok_def)
      ultimately have "pacer_inv ?p" using tk unfolding pacer_inv_def c by simp
      then show ?thesis using False fits by (simp add: try_consume_def Let_def)
    qed
  qed
qed

section \<open>The interface the session relies on\<close>

text \<open>
  A bucket with a read-only preflight: the session asks \<open>can\<close> before it commits a fragment and
  charges with \<open>take\<close> afterwards. What it needs is that the charge never refuses what the
  preflight granted, however many charges go before.
\<close>

locale preflight_bucket =
  fixes inv :: "'p \<Rightarrow> bool" and can :: "'p \<Rightarrow> f64 \<Rightarrow> nat \<Rightarrow> bool" and charge :: "'p \<Rightarrow> f64 \<Rightarrow> nat \<Rightarrow> 'p \<times> bool"
  assumes charge_can: "inv p \<Longrightarrow> snd (charge p t n) = can p t n"
    and charge_inv: "inv p \<Longrightarrow> inv (fst (charge p t n))"
begin

text \<open>Charges made one after the other, each after its own preflight.\<close>

fun charges :: "'p \<Rightarrow> (f64 \<times> nat) list \<Rightarrow> 'p \<times> bool list" where
  "charges p [] = (p, [])"
| "charges p ((t, n) # rs) =
     (if can p t n
      then let c = charge p t n; d = charges (fst c) rs in (fst d, snd c # snd d)
      else charges p rs)"

lemma charges_granted: "inv p \<Longrightarrow> inv (fst (charges p rs)) \<and> set (snd (charges p rs)) \<subseteq> {True}"
proof (induction p rs rule: charges.induct)
  case (2 p t n rs)
  then show ?case using charge_can [OF 2(3), of t n] charge_inv [OF 2(3), of t n] by (simp add: Let_def)
qed simp

end

lemma try_consume_can:
  assumes "pacer_inv p"
  shows "snd (try_consume p t n) = can_consume p t n"
proof (cases "pacer_enabled p \<and> n \<noteq> 0")
  case True
  then have "available p t \<noteq> NaN" using available_bounds(4) [OF assms, of t] by auto
  then have "flt (available p t) (f64_of_nat n) \<longleftrightarrow> \<not> fle (f64_of_nat n) (available p t)"
    by (simp add: flt_iff)
  then show ?thesis
    using True by (simp add: try_consume_def can_consume_def Let_def refill_available)
qed (auto simp: try_consume_def can_consume_def)

interpretation pacer_bucket: preflight_bucket pacer_inv can_consume try_consume
  by unfold_locales (simp_all add: try_consume_can try_consume_inv)

inductive pacer_start :: "pacer \<Rightarrow> bool" where
  "pacer_start (pacer_new t)"
| "pacer_with_config t config = Inr p \<Longrightarrow> max_datagram_bytes config < usize_bound \<Longrightarrow>
   max_burst_datagrams config < usize_bound \<Longrightarrow> pacer_start p"

inductive pacer_step :: "pacer \<Rightarrow> pacer \<Rightarrow> bool" where
  ps_rate: "pacer_step p (set_rate p t r)"
| ps_size: "pacer_step p (fst (set_datagram_size p n))"
| ps_consume: "pacer_step p (fst (try_consume p t n))"

lemma pacer_start_inv: "pacer_start p \<Longrightarrow> pacer_inv p"
  by (induction rule: pacer_start.induct)
    (auto simp: pacer_inv_def pacer_cfg_ok_def pacer_new_def pacer_with_config_def config_validate_def
      compatibility_default_def MAX_BURST_DATAGRAMS_def MAX_BURST_TIME_MS_def usize_bound_def
      split: if_splits)

interpretation pacer_sys: invariant_system pacer_start pacer_step pacer_inv
proof
  show "pacer_inv p" if "pacer_start p" for p using that by (rule pacer_start_inv)
  show "pacer_inv q" if "pacer_inv p" "pacer_step p q" for p q
    using that(2,1) by cases (auto intro: set_rate_inv set_datagram_size_inv try_consume_inv)
qed

section \<open>Invariant of the controller\<close>

definition controller_inv :: "controller \<Rightarrow> bool" where
  "controller_inv c \<longleftrightarrow> fle (ct_min_mbps c) (ct_max_mbps c) \<and> ct_current_mbps c \<noteq> NaN \<and> ct_peak_mbps c \<noteq> NaN"

lemma rnd_pos_not_zero: "2 powi (-1074) \<le> x \<Longrightarrow> rnd x \<noteq> Fin 0"
proof -
  assume "2 powi (-1074) \<le> x"
  then have "fle (rnd (2 powi (-1074))) (rnd x)" by (rule rnd_mono)
  moreover have "rnd (2 powi (-1074)) = Fin (2 powi (-1074))"
  proof -
    have r: "rnd_rat (2 powi (-1074)) = 2 powi (-1074)" using rnd_rat_grid [of 1 "-1074"] by simp
    have le: "(2::rat) powi (-1074) \<le> 1" using powi_mono [of "-1074" 0] by simp
    have "(2::rat) powi (-1074) < 2 ^ 1024" by (rule le_less_trans [OF le]) simp
    moreover have "- (2 ^ 1024) < (2::rat) powi (-1074)" by (rule less_trans [OF _ powi_pos]) simp
    ultimately have "\<not> 2 ^ 1024 \<le> (2::rat) powi (-1074)" "\<not> (2::rat) powi (-1074) \<le> - (2 ^ 1024)"
      by (simp_all only: not_le)
    then show ?thesis by (simp only: rnd_def Let_def r if_False)
  qed
  ultimately show ?thesis using powi_pos [of "-1074"] by auto
qed

lemma decrease_factor_finite: "\<exists>q. DECREASE_FACTOR = Fin q \<and> 0 < q"
proof -
  have "fle (rnd 0) (rnd (7 / 10))" "fle (rnd (7 / 10)) (rnd 1)" by (rule rnd_mono, simp)+
  then obtain q where q: "rnd (7 / 10) = Fin q" "0 \<le> q" using fle_between_finite [of 0 "rnd (7 / 10)" 1] by auto
  have "(2::rat) powi (-1074) \<le> 2 powi (-1)" by (rule powi_mono) simp
  then have "rnd (7 / 10) \<noteq> Fin 0" by (intro rnd_pos_not_zero) (simp add: power_int_minus)
  then show ?thesis using q by (auto simp: DECREASE_FACTOR_def)
qed

lemma step_gain_finite: "n \<le> 5 \<Longrightarrow> \<exists>q. fmul (f64_of_nat n) INCREASE_STEP_MBPS = Fin q"
proof -
  assume n: "n \<le> 5"
  have f: "f64_of_nat n = Fin (of_nat n)"
    by (rule f64_of_nat_small) (rule order_trans [OF n], simp)
  have "fle (rnd 0) (rnd (15 / 100))" "fle (rnd (15 / 100)) (rnd 1)" by (rule rnd_mono, simp)+
  then obtain q where q: "INCREASE_STEP_MBPS = Fin q" "0 \<le> q" "q \<le> 1"
    using fle_between_finite [of 0 "rnd (15 / 100)" 1] by (auto simp: INCREASE_STEP_MBPS_def)
  have "rat_of_nat n * q \<le> 5 * 1" using n q by (intro mult_mono) auto
  then have "fle (rnd (rat_of_nat n * q)) (rnd 5)" by (intro rnd_mono) simp
  then show ?thesis
    using fle_between_finite [of 0 "rnd (rat_of_nat n * q)" 5] rnd_nonneg [of "rat_of_nat n * q"] q(2)
    by (auto simp: f q(1))
qed

lemma fmul_fin_not_NaN: "x \<noteq> NaN \<Longrightarrow> q \<noteq> 0 \<Longrightarrow> fmul x (Fin q) \<noteq> NaN"
  by (cases x) (auto simp: finf_def)

lemma fadd_fin_not_NaN: "x \<noteq> NaN \<Longrightarrow> fadd x (Fin q) \<noteq> NaN"
  by (cases x) auto

lemma tick_step_bounds [simp]:
  "ct_min_mbps (tick_step c w s m) = ct_min_mbps c" "ct_max_mbps (tick_step c w s m) = ct_max_mbps c"
  "ct_level (tick_step c w s m) = ct_level c"
  by (simp_all add: tick_step_def Let_def)

lemma tick_step_inv: "controller_inv c \<Longrightarrow> controller_inv (tick_step c w s m)"
proof -
  assume inv: "controller_inv c"
  obtain q where q: "DECREASE_FACTOR = Fin q" "q \<noteq> 0" using decrease_factor_finite by auto
  have "min (ct_step c) STEP_CAP \<le> 5" by (simp add: STEP_CAP_def)
  then have "unat (min (ct_step c) STEP_CAP) \<le> 5" by (simp only: word_le_nat_alt unat_numeral) simp
  then obtain g where g: "fmul (f64_of_nat (unat (min (ct_step c) STEP_CAP))) INCREASE_STEP_MBPS = Fin g"
    using step_gain_finite by blast
  have "ct_peak_mbps (tick_step c w s m) \<noteq> NaN"
    using inv q fmul_fin_not_NaN [of "ct_peak_mbps c" q] fle_not_NaN
    by (auto simp: tick_step_def Let_def controller_inv_def)
  moreover have "ct_current_mbps (tick_step c w s m) \<noteq> NaN"
    using inv q g fmul_fin_not_NaN [of "ct_peak_mbps c" q] fadd_fin_not_NaN [of "ct_current_mbps c" g] fle_not_NaN
    by (auto simp: tick_step_def Let_def controller_inv_def)
  ultimately show ?thesis using inv by (simp add: controller_inv_def)
qed

lemma set_bounds_inv: "controller_inv c \<Longrightarrow> fle lo hi \<Longrightarrow> controller_inv (set_bounds c lo hi)"
  using fle_not_NaN [of lo hi] by (simp add: controller_inv_def set_bounds_def Let_def)

inductive controller_step :: "controller \<Rightarrow> controller \<Rightarrow> bool" where
  cs_tick: "tick c w s m = (c', r) \<Longrightarrow> controller_step c c'"
| cs_bounds: "fle lo hi \<Longrightarrow> controller_step c (set_bounds c lo hi)"

definition controller_start :: "controller \<Rightarrow> bool" where
  "controller_start c \<longleftrightarrow> (\<exists>lvl lo hi. fle lo hi \<and> c = controller_new lvl lo hi)"

interpretation controller_sys: invariant_system controller_start controller_step controller_inv
proof
  show "controller_inv c" if "controller_start c" for c
    using that by (auto simp: controller_start_def controller_new_def controller_inv_def dest: fle_not_NaN)
  show "controller_inv c'" if "controller_inv c" "controller_step c c'" for c c'
    using that(2,1) by cases (auto simp: tick_def Let_def intro: tick_step_inv set_bounds_inv)
qed

lemma tick_bounded:
  assumes "controller_inv c"
  shows "\<exists>c' r. tick c window stale measured = (c', Some r) \<and> fle (ct_min_mbps c) r \<and> fle r (ct_max_mbps c)
    \<and> controller_inv c' \<and> ct_min_mbps c' = ct_min_mbps c \<and> ct_max_mbps c' = ct_max_mbps c"
proof -
  let ?c = "tick_step c window stale measured"
  have inv: "controller_inv ?c" by (rule tick_step_inv) (rule assms)
  then obtain r where r: "controller_rate ?c = Some r"
    using fclamp_Some [of "ct_min_mbps ?c" "ct_max_mbps ?c"]
    by (auto simp: controller_rate_def controller_inv_def)
  then have "fle (ct_min_mbps ?c) r \<and> fle r (ct_max_mbps ?c)"
    using inv fclamp_bounds by (auto simp: controller_rate_def controller_inv_def)
  then show ?thesis using r inv by (simp add: tick_def Let_def)
qed

section \<open>Schedule of the controller\<close>

text \<open>A run of ticks under a constant observation.\<close>

definition ticks :: "nat \<Rightarrow> controller \<Rightarrow> u32 \<Rightarrow> u32 \<Rightarrow> f64 \<Rightarrow> controller" where
  "ticks n c w s m = ((\<lambda>c. fst (tick c w s m)) ^^ n) c"

lemma ticks_simps [simp]: "ticks 0 c w s m = c" "ticks (Suc n) c w s m = tick_step (ticks n c w s m) w s m"
  by (simp_all add: ticks_def tick_def Let_def)

lemma ticks_level [simp]: "ct_level (ticks n c w s m) = ct_level c"
  by (induction n) simp_all

lemma is_congested_ticks [simp]: "is_congested (ticks n c w s m) w s = is_congested c w s"
  by (simp add: is_congested_def)

lemma ceil_div_Suc: "(Suc n + 59) div 60 = (if n mod 60 = 0 then Suc ((n + 59) div 60) else (n + 59) div (60::nat))"
proof -
  have a: "(Suc n + 59) div 60 = Suc (n div 60)" by simp
  have "n + 59 = n div 60 * 60 + (n mod 60 + 59)" by simp
  then have b: "(n + 59) div 60 = n div 60 + (n mod 60 + 59) div 60" by (metis div_mult_self3 zero_neq_numeral)
  have "(n mod 60 + 59) div 60 = 1" if "n mod 60 \<noteq> 0" using that mod_less_divisor [of 60 n] by linarith
  then show ?thesis unfolding a b by auto
qed

lemma mod_period: "unat d = n \<Longrightarrow> (d mod (numeral k :: u32) = 0) = (n mod unat (numeral k :: u32) = 0)"
  by (simp add: word_unat_eq_iff unat_mod)

lemma congested_run:
  assumes "is_congested c w s" "ct_decrease_ticks c = 0" "n < 4294967296"
  shows "unat (ct_decrease_ticks (ticks n c w s m)) = n mod 4294967296
    \<and> ct_peak_mbps (ticks n c w s m) = ((\<lambda>x. fmul x DECREASE_FACTOR) ^^ ((n + 59) div 60)) (ct_peak_mbps c)
    \<and> (0 < n \<longrightarrow> ct_current_mbps (ticks n c w s m) = ct_peak_mbps (ticks n c w s m))
    \<and> unat (ct_total_decreases (ticks n c w s m)) = min (unat (ct_total_decreases c) + (n + 59) div 60) 4294967295"
  using assms(3)
proof (induction n)
  case 0
  then show ?case using assms(2) unat_lt_u32 [of "ct_total_decreases c"] by simp
next
  case (Suc n)
  let ?c = "ticks n c w s m"
  have IH: "unat (ct_decrease_ticks ?c) = n"
    "ct_peak_mbps ?c = ((\<lambda>x. fmul x DECREASE_FACTOR) ^^ ((n + 59) div 60)) (ct_peak_mbps c)"
    "0 < n \<longrightarrow> ct_current_mbps ?c = ct_peak_mbps ?c"
    "unat (ct_total_decreases ?c) = min (unat (ct_total_decreases c) + (n + 59) div 60) 4294967295"
    using Suc by auto
  have per: "ct_decrease_ticks ?c mod DECREASE_PERIOD = 0 \<longleftrightarrow> n mod 60 = 0"
    unfolding DECREASE_PERIOD_def using mod_period [OF IH(1)] by simp
  have inc: "unat (ct_decrease_ticks ?c + 1) = Suc n"
    using unat_add_of_nat_u32 [of "ct_decrease_ticks ?c" 1] IH(1) Suc.prems by simp
  have st: "tick_step ?c w s m = (let c' = ?c\<lparr>ct_decrease_ticks := ct_decrease_ticks ?c + 1\<rparr> in
      if n mod 60 = 0 then c'\<lparr>ct_total_decreases := sat_add (ct_total_decreases ?c) 1, ct_increase_ticks := 0,
         ct_peak_mbps := fmul (ct_peak_mbps ?c) DECREASE_FACTOR, ct_current_mbps := fmul (ct_peak_mbps ?c) DECREASE_FACTOR\<rparr>
      else c')"
    using assms(1) by (simp add: tick_step_def Let_def per)
  show ?case
  proof (cases "n mod 60 = 0")
    case True
    then show ?thesis
      using IH inc Suc.prems unfolding ticks_simps(2) st Let_def ceil_div_Suc by (simp add: unat_sat_add)
  next
    case False
    then have "0 < n" by (cases n) auto
    then show ?thesis
      using False IH inc Suc.prems unfolding ticks_simps(2) st Let_def ceil_div_Suc by simp
  qed
qed

lemma clean_run:
  assumes "\<not> is_congested c w s" "ct_increase_ticks c = 0" "n < 30"
  shows "ticks n c w s m = c\<lparr>ct_increase_ticks := of_nat n\<rparr>"
  using assms(3)
proof (induction n)
  case 0
  then show ?case using assms(2) by simp
next
  case (Suc n)
  have u: "unat (1 + of_nat n :: u32) = Suc n" using Suc.prems unat_of_nat_32 [of "Suc n"] by simp
  have "(1 + of_nat n :: u32) mod 30 \<noteq> 0" using mod_period [OF u, of "num.Bit0 (num.Bit1 (num.Bit1 (num.Bit1 num.One)))"] Suc.prems by simp
  then show ?case
    using Suc assms(1) is_congested_ticks [of n c w s m]
    by (simp add: tick_step_def Let_def INCREASE_PERIOD_def add.commute)
qed

section \<open>Properties\<close>

text \<open>
  in every reachable state of the pacer the stored credit is a finite double between zero and
  the burst capacity, a disabled pacer stores none, and the capacity of an enabled one holds at
  least one datagram of the current path size and at most the configured number of them.
\<close>

theorem pacer_credit_bounded:
  assumes "reachable pacer_start pacer_step p"
  shows "if pacer_enabled p
    then fle (Fin 0) (pc_tokens_bytes p) \<and> fle (pc_tokens_bytes p) (pacer_capacity p)
      \<and> fle (f64_of_nat (pc_datagram_bytes p)) (pacer_capacity p)
      \<and> fle (pacer_capacity p) (fmul (f64_of_nat (pc_datagram_bytes p)) (f64_of_nat (max_burst_datagrams (pc_config p))))
    else pc_tokens_bytes p = Fin 0"
proof -
  have inv: "pacer_inv p" using assms by (rule pacer_sys.reachable_inv)
  then have cfg: "pacer_cfg_ok p" by (simp add: pacer_inv_def)
  show ?thesis
    using inv pacer_inv_enabled [OF inv] pacer_capacity_bounds [OF cfg] by (auto simp: pacer_inv_def)
qed

lemma pacer_new_reachable: "reachable pacer_start pacer_step (pacer_new t)"
  by (rule reach_start, rule pacer_start.intros(1))

lemma demo_rate: "bytes_per_ms (Fin 8) = Some (Fin 1000)"
  by (simp add: bytes_per_ms_def Let_def)

theorem pacer_credit_bounded_witness:
  "fle (pc_tokens_bytes (set_rate (pacer_new (Fin 0)) (Fin 0) (Fin 8)))
       (pacer_capacity (set_rate (pacer_new (Fin 0)) (Fin 0) (Fin 8)))"
proof -
  let ?p = "set_rate (pacer_new (Fin 0)) (Fin 0) (Fin 8)"
  have r: "reachable pacer_start pacer_step ?p"
    by (rule reach_step [OF pacer_new_reachable]) (rule ps_rate)
  have "pacer_enabled ?p"
    by (simp add: set_rate_def Let_def demo_rate pacer_enabled_def refill_def pacer_new_def)
  then show ?thesis using pacer_credit_bounded [OF r] by simp
qed

text \<open>
  the preflight and the charge of the pacer agree. In every reachable state \<open>try_consume\<close>
  succeeds exactly when \<open>can_consume\<close> says so, for every time and size, so a fragment committed
  after a positive preflight is never refused its credit.
\<close>

theorem pacer_preflight_exact:
  assumes "reachable pacer_start pacer_step p"
  shows "snd (try_consume p now_ms n) = can_consume p now_ms n"
  using pacer_bucket.charge_can [OF pacer_sys.reachable_inv [OF assms]] .

theorem pacer_preflight_exact_witness:
  "snd (try_consume (pacer_new (Fin 0)) (Fin 1) 1200) = can_consume (pacer_new (Fin 0)) (Fin 1) 1200"
  by (rule pacer_preflight_exact [OF pacer_new_reachable])

text \<open>
  \<open>wait_ms\<close> agrees with the bucket. In every reachable state it is zero whenever the request can
  be consumed now, and the infinite answer for a request over the capacity, which no preflight grants.
\<close>

theorem pacer_wait_consistent:
  assumes "reachable pacer_start pacer_step p"
  shows "(can_consume p now_ms n \<longrightarrow> wait_ms p now_ms n = Fin 0)
    \<and> (pacer_enabled p \<and> n \<noteq> 0 \<and> flt (pacer_capacity p) (f64_of_nat n)
         \<longrightarrow> wait_ms p now_ms n = PInf \<and> \<not> can_consume p now_ms n)"
proof (cases "n = 0 \<or> \<not> pacer_enabled p")
  case False
  have inv: "pacer_inv p" using assms by (rule pacer_sys.reachable_inv)
  have "fle (f64_of_nat n) (available p now_ms) \<Longrightarrow> fle (f64_of_nat n) (pacer_capacity p)"
    using available_bounds(2) [OF inv] False by (blast intro: fle_trans)
  then have "can_consume p now_ms n \<Longrightarrow> \<not> flt (pacer_capacity p) (f64_of_nat n)"
    using False by (simp add: can_consume_def fle_not_flt)
  then show ?thesis using False by (auto simp: wait_ms_def can_consume_def Let_def)
qed (auto simp: wait_ms_def)

theorem pacer_wait_consistent_witness: "wait_ms (pacer_new (Fin 0)) (Fin 1) 1200 = Fin 0"
  using pacer_wait_consistent [OF pacer_new_reachable, of "Fin 0" "Fin 1" 1200]
  by (simp add: can_consume_def pacer_new_def pacer_enabled_def)

text \<open>
  the controller's rate stays within the bounds in force. In every reachable state (bounds
  given in order) a tick returns, never panics, and its rate lies between floor and ceiling
  whatever was measured, NaN and infinities included.
\<close>

theorem controller_rate_bounded:
  assumes "reachable controller_start controller_step c"
  shows "\<exists>c' r. tick c window stale measured = (c', Some r) \<and> fle (ct_min_mbps c) r \<and> fle r (ct_max_mbps c)"
  using tick_bounded [OF controller_sys.reachable_inv [OF assms], of window stale measured] by blast

theorem controller_rate_bounded_witness:
  "\<exists>c' r. tick (controller_new 1 (Fin 3) (Fin 50)) 200 100 NaN = (c', Some r) \<and> fle (Fin 3) r \<and> fle r (Fin 50)"
proof -
  have "reachable controller_start controller_step (controller_new 1 (Fin 3) (Fin 50))"
    by (rule reach_start, unfold controller_start_def) (intro exI conjI, auto)
  from controller_rate_bounded [OF this, of 200 100 NaN] show ?thesis by (simp add: controller_new_def)
qed

text \<open>
  the decrease schedule. Under sustained congestion the controller cuts on the first tick and
  then every sixtieth: after \<open>n\<close> congested ticks the peak has been multiplied by the decrease factor
  exactly \<open>ceil (n / 60)\<close> times, and the rate rests on the peak.
\<close>

theorem controller_decrease_schedule:
  assumes "is_congested c window stale" "ct_decrease_ticks c = 0" "0 < n" "n < 4294967296"
  shows "ct_current_mbps (ticks n c window stale measured)
      = ((\<lambda>x. fmul x DECREASE_FACTOR) ^^ ((n + 59) div 60)) (ct_peak_mbps c)
    \<and> unat (ct_total_decreases (ticks n c window stale measured))
      = min (unat (ct_total_decreases c) + (n + 59) div 60) 4294967295"
  using congested_run [OF assms(1,2,4), of measured] assms(3) by auto

lemma demo_congested: "is_congested (controller_new 0 (Fin 3) (Fin 50)) 200 200"
  by (simp add: is_congested_def controller_new_def level_of_def LEVELS_def get_at_def WINDOW_FLOOR_def
      f64_of_nat_def)

theorem controller_decrease_schedule_witness:
  "unat (ct_total_decreases (ticks 61 (controller_new 0 (Fin 3) (Fin 50)) 200 200 NaN)) = 2"
  using controller_decrease_schedule [OF demo_congested, of 61 NaN] by (simp add: controller_new_def)

text \<open>
  congestion is never declared on a small window. While at most \<open>WINDOW_FLOOR\<close> fragments are
  outstanding, fewer than thirty ticks after a cut leave every rate where it was, whatever the
  stale count and the level.
\<close>

theorem controller_small_window:
  assumes "window \<le> 100" "ct_increase_ticks c = 0" "n < 30"
  shows "ticks n c window stale measured = c\<lparr>ct_increase_ticks := of_nat n\<rparr>"
  using clean_run [of c window stale n measured] assms by (simp add: is_congested_def WINDOW_FLOOR_def)

theorem controller_small_window_witness:
  "ticks 29 (controller_new 1 (Fin 3) (Fin 50)) 100 100 NaN
    = (controller_new 1 (Fin 3) (Fin 50))\<lparr>ct_increase_ticks := 29\<rparr>"
  using controller_small_window [of 100 "controller_new 1 (Fin 3) (Fin 50)" 29 100 NaN]
  by (simp add: controller_new_def)

end
