(* ===== verification/Send_Ring.thy ===== *)
theory Send_Ring
  imports Message Policy
begin

text \<open>
  The per-channel send ring (\<open>core/src/send.rs\<close>): fragments of queued messages over a flat arena,
  the scan that emits what is due, retransmission timeouts, the once-per-fragment fast retransmit,
  acknowledgement accounting and the staleness count the controller consumes.
\<close>

section \<open>State\<close>

definition OUTSTANDING_CAP :: u32 where "OUTSTANDING_CAP = WINDOW_FLOOR"
definition RTO_FLOOR_MS :: f64 where "RTO_FLOOR_MS = rnd 50"
definition RTO_CEILING_MS :: f64 where "RTO_CEILING_MS = rnd 1000"
definition RTO_GRACE_MS :: f64 where "RTO_GRACE_MS = rnd 30"
definition SLOT_BUDGET_MS :: f64 where "SLOT_BUDGET_MS = rnd 100"

record send_slot =
  ss_len :: u16
  ss_occupied :: bool
  ss_last :: bool
  ss_sent :: bool
  ss_nack_resent :: bool
  ss_retransmits :: u16
  ss_first_sent_ms :: f64
  ss_last_sent_ms :: f64
  ss_acked_accounted :: bool

definition send_slot_default :: send_slot where
  "send_slot_default = \<lparr>ss_len = 0, ss_occupied = False, ss_last = False, ss_sent = False,
     ss_nack_resent = False, ss_retransmits = 0, ss_first_sent_ms = Fin 0, ss_last_sent_ms = Fin 0,
     ss_acked_accounted = False\<rparr>"

record send_ring =
  sr_bodies :: bytes
  sr_meta :: "send_slot list"
  sr_slot_len :: nat
  sr_fragment_capacity :: nat
  sr_channel :: byte
  sr_base :: u32
  sr_next :: u32
  sr_cursor :: u32
  sr_nack_below :: "u32 option"
  sr_outstanding :: u32
  sr_stale :: u32
  sr_bytes_sent :: u64
  sr_acked :: u64
  sr_bytes_acked :: u64
  sr_retransmitted :: u64

definition send_new_with_capacity :: "bytes \<Rightarrow> send_slot list \<Rightarrow> nat \<Rightarrow> nat \<Rightarrow> byte \<Rightarrow> send_ring result" where
  "send_new_with_capacity bodies meta storage_len fragment_capacity channel =
     (if storage_len = 0 \<or> fragment_capacity = 0 \<or> storage_len < fragment_capacity
         \<or> 65535 < fragment_capacity \<or> meta = [] \<or> CHANNEL_COUNT \<le> unat channel then Inl BadLength
      else case usize_checked_mul (length meta) storage_len of None \<Rightarrow> Inl BadLength
      | Some n \<Rightarrow>
          if length bodies \<noteq> n then Inl BadLength
          else Inr \<lparr>sr_bodies = bodies, sr_meta = meta, sr_slot_len = storage_len,
                    sr_fragment_capacity = fragment_capacity, sr_channel = channel, sr_base = 0, sr_next = 0,
                    sr_cursor = 0, sr_nack_below = None, sr_outstanding = 0, sr_stale = 0, sr_bytes_sent = 0,
                    sr_acked = 0, sr_bytes_acked = 0, sr_retransmitted = 0\<rparr>)"

definition send_new :: "bytes \<Rightarrow> send_slot list \<Rightarrow> nat \<Rightarrow> byte \<Rightarrow> send_ring result" where
  "send_new bodies meta slot_len channel = send_new_with_capacity bodies meta slot_len slot_len channel"

definition can_set_fragment_capacity :: "send_ring \<Rightarrow> nat \<Rightarrow> bool" where
  "can_set_fragment_capacity r capacity =
     (0 < capacity \<and> capacity \<le> sr_slot_len r \<and> capacity \<le> 65535
      \<and> list_all (\<lambda>slot. \<not> ss_occupied slot \<or> unat (ss_len slot) \<le> capacity) (sr_meta r))"

definition set_fragment_capacity :: "send_ring \<Rightarrow> nat \<Rightarrow> send_ring \<times> bool" where
  "set_fragment_capacity r capacity =
     (if \<not> can_set_fragment_capacity r capacity then (r, False)
      else (r\<lparr>sr_fragment_capacity := capacity\<rparr>, True))"

definition send_in_flight :: "send_ring \<Rightarrow> u32" where
  "send_in_flight r = sr_next r - sr_base r"

definition discard_pending :: "send_ring \<Rightarrow> send_ring \<times> u32" where
  "discard_pending r =
     (r\<lparr>sr_meta := map (\<lambda>_. send_slot_default) (sr_meta r), sr_base := sr_next r, sr_cursor := sr_next r,
        sr_nack_below := None, sr_outstanding := 0, sr_stale := 0\<rparr>, send_in_flight r)"

definition window_free :: "send_ring \<Rightarrow> nat" where
  "window_free r =
     (let depth = (case u32_try_from (length (sr_meta r)) of Some d \<Rightarrow> d | None \<Rightarrow> U32_MAX)
      in unat (sat_sub depth (send_in_flight r)))"

definition send_index :: "send_ring \<Rightarrow> u32 \<Rightarrow> nat" where
  "send_index r sequence = unat sequence mod length (sr_meta r)"

section \<open>Retransmission timeout and staleness\<close>

text \<open>The bounds of the clamp are in order, so its panic branch does not arise.\<close>

definition rto_ms :: "u16 \<Rightarrow> f64 \<Rightarrow> f64" where
  "rto_ms retransmits srtt_ms =
     (let scaled = fmul (fmul (rnd 2) (f64_of_nat (unat retransmits + 1))) srtt_ms in
      case fclamp scaled RTO_FLOOR_MS RTO_CEILING_MS of Some x \<Rightarrow> fadd x RTO_GRACE_MS | None \<Rightarrow> NaN)"

definition is_stale :: "send_slot \<Rightarrow> f64 \<Rightarrow> f64 \<Rightarrow> level \<Rightarrow> bool" where
  "is_stale slot now_ms srtt_ms l =
     (let age = fsub now_ms (ss_last_sent_ms slot);
          threshold = fadd (fmul (rtt_mult l) srtt_ms) (base_ms l)
      in flt threshold age
         \<or> flt (fadd (fmul (rtt_mult l) SLOT_BUDGET_MS) (base_ms l)) srtt_ms
         \<or> 0 < ss_retransmits slot \<or> ss_nack_resent slot \<or> \<not> ss_sent slot)"

definition send_classify :: "send_ring \<Rightarrow> nat \<Rightarrow> f64 \<Rightarrow> f64 \<Rightarrow> level \<Rightarrow> send_ring" where
  "send_classify r index now_ms srtt_ms l = (case get_at (sr_meta r) index of None \<Rightarrow> r
   | Some slot \<Rightarrow>
       if \<not> ss_occupied slot then r
       else if is_stale slot now_ms srtt_ms l then r\<lparr>sr_stale := sat_add (sr_stale r) 1\<rparr> else r)"

definition begin_pass :: "send_ring \<Rightarrow> send_ring" where
  "begin_pass r = r\<lparr>sr_outstanding := 0, sr_stale := 0, sr_cursor := sr_base r\<rparr>"

section \<open>Queueing a message\<close>

text \<open>
  The loop of \<open>enqueue\<close> from fragment \<open>i\<close>, with \<open>n\<close> fragments to go. A failing iteration leaves the
  slots written before it.
\<close>

fun enqueue_loop :: "send_ring \<Rightarrow> message \<Rightarrow> nat \<Rightarrow> nat \<Rightarrow> nat \<Rightarrow> send_ring \<times> unit result" where
  "enqueue_loop r m cap i 0 = (r, Inr ())"
| "enqueue_loop r m cap i (Suc n) =
     (case u32_try_from i of None \<Rightarrow> (r, Inl BadLength)
      | Some step \<Rightarrow>
          let sequence = sr_next r + step; slot = send_index r sequence in
          case usize_checked_mul slot (sr_slot_len r) of None \<Rightarrow> (r, Inl BadLength)
          | Some start \<Rightarrow> case get_range (sr_bodies r) start (start + sr_slot_len r) of None \<Rightarrow> (r, Inl BadLength)
            | Some region \<Rightarrow> case message_fragment m i cap region of
                None \<Rightarrow> (r, Inl BadLength)
              | Some (Inl e) \<Rightarrow> (r, Inl e)
              | Some (Inr (fr, region')) \<Rightarrow>
                  let r = r\<lparr>sr_bodies := put_at (sr_bodies r) start region'\<rparr> in
                  case get_at (sr_meta r) slot of None \<Rightarrow> (r, Inl BadLength)
                  | Some _ \<Rightarrow> case u16_try_from (fr_len fr) of None \<Rightarrow> (r, Inl BadLength)
                    | Some len \<Rightarrow>
                        enqueue_loop (r\<lparr>sr_meta := (sr_meta r)[slot := send_slot_default\<lparr>ss_len := len,
                            ss_occupied := True, ss_last := fr_last fr\<rparr>]\<rparr>) m cap (Suc i) n)"

definition send_enqueue :: "send_ring \<Rightarrow> message \<Rightarrow> send_ring \<times> u32 result" where
  "send_enqueue r m =
     (let capacity = sr_fragment_capacity r; nfrag = message_fragment_count m capacity in
      if window_free r < nfrag then (r, Inl BufferTooSmall)
      else case enqueue_loop r m capacity 0 nfrag of
        (r, Inl e) \<Rightarrow> (r, Inl e)
      | (r, Inr _) \<Rightarrow> (case u32_try_from nfrag of None \<Rightarrow> (r, Inl BadLength)
          | Some count \<Rightarrow> (r\<lparr>sr_next := sr_next r + count\<rparr>, Inr count)))"

section \<open>Acknowledgements\<close>

text \<open>The accounting loop of \<open>on_ack\<close> over the sequences the frontier moves across.\<close>

definition account_slot :: "send_slot list \<Rightarrow> u64 \<Rightarrow> nat \<Rightarrow> send_slot list \<times> u64" where
  "account_slot meta acked index = (case get_at meta index of None \<Rightarrow> (meta, acked)
   | Some slot \<Rightarrow>
       if ss_sent slot \<and> \<not> ss_acked_accounted slot
       then (meta[index := slot\<lparr>ss_acked_accounted := True\<rparr>], sat_add acked (ucast (ss_len slot)))
       else (meta, acked))"

function account_loop :: "send_slot list \<Rightarrow> u64 \<Rightarrow> u32 \<Rightarrow> u32 \<Rightarrow> send_slot list \<times> u64" where
  "account_loop meta acked sequence cumulative =
     (if seq_lt sequence cumulative then
        case account_slot meta acked (unat sequence mod length meta) of
          (meta', acked') \<Rightarrow> account_loop meta' acked' (sequence + 1) cumulative
      else (meta, acked))"
  by pat_completeness auto
termination
  by (relation "measure (\<lambda>(m, a, s, c). unat (c - s))")
    (auto simp: seq_lt_def seq_gt_unat intro: unat_dist_less)

declare account_loop.simps [simp del]

definition ack_frontier :: "send_ring \<Rightarrow> ack_pkt \<Rightarrow> send_ring" where
  "ack_frontier r ack =
     (let cumulative = (case get_at (ak_cumulative ack) (unat (sr_channel r)) of
            Some v \<Rightarrow> if unat (sr_channel r) < ak_reported ack then v else sr_base r
          | None \<Rightarrow> sr_base r)
      in if seq_gt cumulative (sr_base r) \<and> seq_le cumulative (sr_next r) then
           (case account_loop (sr_meta r) (sr_bytes_acked r) (sr_base r) cumulative of (meta, acked) \<Rightarrow>
              r\<lparr>sr_meta := meta, sr_bytes_acked := acked,
                sr_acked := sat_add (sr_acked r) (ucast (cumulative - sr_base r)),
                sr_base := cumulative,
                sr_cursor := (if seq_lt (sr_cursor r) cumulative then cumulative else sr_cursor r)\<rparr>)
         else r)"

definition on_ack :: "send_ring \<Rightarrow> ack_pkt \<Rightarrow> f64 \<Rightarrow> send_ring \<times> f64 option" where
  "on_ack r ack now_ms =
     (let previous = sr_base r;
          r = ack_frontier r ack;
          r = (if ak_nack ack \<and> ak_trigger_channel ack = sr_channel r
               then r\<lparr>sr_nack_below := Some (ak_trigger_seq ack)\<rparr> else r)
      in if ak_trigger_channel ack \<noteq> sr_channel r then (r, None)
         else if seq_lt (ak_trigger_seq ack) previous \<or> seq_ge (ak_trigger_seq ack) (sr_next r) then (r, None)
         else let index = send_index r (ak_trigger_seq ack) in
           case get_at (sr_meta r) index of None \<Rightarrow> (r, None)
           | Some slot \<Rightarrow>
               if \<not> ss_occupied slot \<or> \<not> ss_sent slot then (r, None)
               else
                 let sample = fsub now_ms (ss_first_sent_ms slot);
                     r = r\<lparr>sr_meta := (sr_meta r)[index := slot\<lparr>ss_occupied := False\<rparr>]\<rparr>
                 in (r, if is_finite sample \<and> fle (Fin 0) sample then Some sample else None))"

section \<open>The scan\<close>

text \<open>Whether the fragment at \<open>sequence\<close> is named by a pending negative acknowledgement, and whether it is due.\<close>

definition slot_nacked :: "send_ring \<Rightarrow> u32 \<Rightarrow> send_slot \<Rightarrow> bool" where
  "slot_nacked r sequence slot = (case sr_nack_below r of None \<Rightarrow> False
   | Some below \<Rightarrow> seq_lt sequence below \<and> \<not> ss_nack_resent slot)"

definition slot_due :: "send_ring \<Rightarrow> u32 \<Rightarrow> send_slot \<Rightarrow> f64 \<Rightarrow> f64 \<Rightarrow> bool" where
  "slot_due r sequence slot now_ms srtt_ms =
     (\<not> ss_sent slot \<or> slot_nacked r sequence slot
      \<or> flt (rto_ms (ss_retransmits slot) srtt_ms) (fsub now_ms (ss_last_sent_ms slot)))"

function next_due_from :: "send_ring \<Rightarrow> u32 \<Rightarrow> f64 \<Rightarrow> f64 \<Rightarrow> nat option" where
  "next_due_from r cursor now_ms srtt_ms =
     (if cursor = sr_next r then None
      else case get_at (sr_meta r) (send_index r cursor) of
        None \<Rightarrow> next_due_from r (cursor + 1) now_ms srtt_ms
      | Some slot \<Rightarrow>
          if \<not> ss_occupied slot then next_due_from r (cursor + 1) now_ms srtt_ms
          else if OUTSTANDING_CAP \<le> sr_outstanding r then None
          else if slot_due r cursor slot now_ms srtt_ms then usize_checked_add HEADER_LEN (unat (ss_len slot))
          else next_due_from r (cursor + 1) now_ms srtt_ms)"
  by pat_completeness auto
termination
  by (relation "measure (\<lambda>(r, c, n, s). unat (sr_next r - c))") (auto simp: unat_dist_less)

declare next_due_from.simps [simp del]

definition next_due_len :: "send_ring \<Rightarrow> f64 \<Rightarrow> f64 \<Rightarrow> nat \<Rightarrow> nat option" where
  "next_due_len r now_ms srtt_ms level_index = next_due_from r (sr_cursor r) now_ms srtt_ms"

text \<open>The bookkeeping of an emitted fragment.\<close>

definition mark_sent :: "send_ring \<Rightarrow> nat \<Rightarrow> send_slot \<Rightarrow> bool \<Rightarrow> f64 \<Rightarrow> send_ring" where
  "mark_sent r index slot nacked now_ms =
     (let was_sent = ss_sent slot;
          entry = (if was_sent
                   then if nacked then slot\<lparr>ss_nack_resent := True\<rparr>
                        else slot\<lparr>ss_retransmits := sat_add (ss_retransmits slot) 1\<rparr>
                   else slot\<lparr>ss_sent := True, ss_first_sent_ms := now_ms\<rparr>)\<lparr>ss_last_sent_ms := now_ms\<rparr>
      in r\<lparr>sr_meta := (sr_meta r)[index := entry],
           sr_outstanding := sat_add (sr_outstanding r) 1,
           sr_bytes_sent := sat_add (sr_bytes_sent r) (ucast (ss_len slot)),
           sr_retransmitted := (if was_sent then sat_add (sr_retransmitted r) 1 else sr_retransmitted r)\<rparr>)"

lemma send_classify_frame [simp]:
  "sr_next (send_classify r i n s l) = sr_next r" "sr_cursor (send_classify r i n s l) = sr_cursor r"
  "sr_base (send_classify r i n s l) = sr_base r" "sr_meta (send_classify r i n s l) = sr_meta r"
  "sr_bodies (send_classify r i n s l) = sr_bodies r" "sr_slot_len (send_classify r i n s l) = sr_slot_len r"
  "sr_channel (send_classify r i n s l) = sr_channel r" "sr_nack_below (send_classify r i n s l) = sr_nack_below r"
  "sr_outstanding (send_classify r i n s l) = sr_outstanding r"
  "sr_fragment_capacity (send_classify r i n s l) = sr_fragment_capacity r"
  "sr_acked (send_classify r i n s l) = sr_acked r" "sr_bytes_acked (send_classify r i n s l) = sr_bytes_acked r"
  "sr_bytes_sent (send_classify r i n s l) = sr_bytes_sent r"
  "sr_retransmitted (send_classify r i n s l) = sr_retransmitted r"
  by (simp_all add: send_classify_def split: option.splits)

function poll_send :: "send_ring \<Rightarrow> f64 \<Rightarrow> f64 \<Rightarrow> nat \<Rightarrow> bytes \<Rightarrow> send_ring \<times> bytes \<times> nat result option" where
  "poll_send r now_ms srtt_ms level_index out =
     (if sr_cursor r = sr_next r then (r\<lparr>sr_nack_below := None, sr_cursor := sr_base r\<rparr>, out, None)
      else
        let l = level_of level_index; sequence = sr_cursor r; index = send_index r sequence in
        case get_at (sr_meta r) index of
          None \<Rightarrow> poll_send (r\<lparr>sr_cursor := sr_cursor r + 1\<rparr>) now_ms srtt_ms level_index out
        | Some slot \<Rightarrow>
            if \<not> ss_occupied slot
            then poll_send (r\<lparr>sr_cursor := sr_cursor r + 1\<rparr>) now_ms srtt_ms level_index out
            else if OUTSTANDING_CAP \<le> sr_outstanding r
            then poll_send ((send_classify r index now_ms srtt_ms l)\<lparr>sr_cursor := sr_cursor r + 1\<rparr>)
                   now_ms srtt_ms level_index out
            else if \<not> slot_due r sequence slot now_ms srtt_ms then
              let r1 = (if 0 < ss_retransmits slot \<or> ss_nack_resent slot
                        then r\<lparr>sr_outstanding := sat_add (sr_outstanding r) 1\<rparr> else r)
              in poll_send ((send_classify r1 index now_ms srtt_ms l)\<lparr>sr_cursor := sr_cursor r + 1\<rparr>)
                   now_ms srtt_ms level_index out
            else case usize_checked_mul index (sr_slot_len r) of None \<Rightarrow> (r, out, None)
            | Some start \<Rightarrow> case usize_checked_add start (unat (ss_len slot)) of None \<Rightarrow> (r, out, None)
              | Some stop \<Rightarrow> case get_range (sr_bodies r) start stop of None \<Rightarrow> (r, out, None)
                | Some body \<Rightarrow>
                    case encode_data out \<lparr>d_channel = sr_channel r, d_seq = sequence, d_last = ss_last slot,
                           d_body = body\<rparr> of
                      Inl e \<Rightarrow> (r, out, Some (Inl e))
                    | Inr (out', written) \<Rightarrow>
                        let r1 = mark_sent r index slot (slot_nacked r sequence slot) now_ms;
                            r2 = send_classify r1 index now_ms srtt_ms l
                        in (r2\<lparr>sr_cursor := sr_cursor r + 1\<rparr>, out', Some (Inr written)))"
  by pat_completeness auto
termination
  by (relation "measure (\<lambda>(r, n, s, l, out). unat (sr_next r - sr_cursor r))")
    (auto simp: unat_dist_less)

declare poll_send.simps [simp del]

section \<open>Invariant and abstraction\<close>

definition send_shape :: "send_ring \<Rightarrow> bool" where
  "send_shape r \<longleftrightarrow> 0 < sr_fragment_capacity r \<and> sr_fragment_capacity r \<le> sr_slot_len r
     \<and> sr_fragment_capacity r \<le> 65535 \<and> 0 < length (sr_meta r) \<and> length (sr_meta r) < 2147483648
     \<and> length (sr_bodies r) = length (sr_meta r) * sr_slot_len r
     \<and> length (sr_meta r) * sr_slot_len r < usize_bound
     \<and> (\<forall>m \<in> set (sr_meta r). unat (ss_len m) \<le> sr_slot_len r)
     \<and> unat (sr_channel r) < CHANNEL_COUNT"

text \<open>
  The cursors are in order and the window is no deeper than the ring, in the regime in which no
  assigned sequence has reached the end of the number space.
\<close>

definition send_inv :: "send_ring \<Rightarrow> bool" where
  "send_inv r \<longleftrightarrow> send_shape r
     \<and> unat (sr_base r) \<le> unat (sr_cursor r) \<and> unat (sr_cursor r) \<le> unat (sr_next r)
     \<and> unat (sr_next r) \<le> unat (sr_base r) + length (sr_meta r)"

definition send_slot_at :: "send_ring \<Rightarrow> nat \<Rightarrow> send_slot" where
  "send_slot_at r k = sr_meta r ! (k mod length (sr_meta r))"

definition send_body_at :: "send_ring \<Rightarrow> nat \<Rightarrow> bytes" where
  "send_body_at r k = take (unat (ss_len (send_slot_at r k)))
     (drop ((k mod length (sr_meta r)) * sr_slot_len r) (sr_bodies r))"

text \<open>The abstract sender: the fragments not yet retired, by sequence, with their last flag.\<close>

definition send_abs :: "send_ring \<Rightarrow> nat \<rightharpoonup> bytes \<times> bool" where
  "send_abs r k =
     (if unat (sr_base r) \<le> k \<and> k < unat (sr_next r) \<and> ss_occupied (send_slot_at r k)
      then Some (send_body_at r k, ss_last (send_slot_at r k)) else None)"

lemma send_slot_len:
  "send_shape r \<Longrightarrow> unat (ss_len (send_slot_at r k)) \<le> sr_slot_len r"
  by (simp add: send_shape_def send_slot_at_def)

lemma send_region:
  assumes "send_shape r"
  shows "(k mod length (sr_meta r)) * sr_slot_len r + unat (ss_len (send_slot_at r k)) \<le> length (sr_bodies r)"
    "(k mod length (sr_meta r)) * sr_slot_len r + sr_slot_len r \<le> length (sr_bodies r)"
    "length (sr_bodies r) < usize_bound"
proof -
  have j: "k mod length (sr_meta r) < length (sr_meta r)" using assms by (simp add: send_shape_def)
  show "(k mod length (sr_meta r)) * sr_slot_len r + unat (ss_len (send_slot_at r k)) \<le> length (sr_bodies r)"
    "(k mod length (sr_meta r)) * sr_slot_len r + sr_slot_len r \<le> length (sr_bodies r)"
    "length (sr_bodies r) < usize_bound"
    using slot_region [OF j send_slot_len [OF assms]] slot_region [OF j order_refl] assms
    by (simp_all add: send_shape_def)
qed

section \<open>Retransmission timeout\<close>

lemma rto_bounds:
  assumes "srtt \<noteq> NaN" "srtt \<noteq> PInf" "srtt \<noteq> NInf"
  shows "fle (Fin 80) (rto_ms n srtt)" "fle (rto_ms n srtt) (Fin 1030)"
proof -
  let ?f = "fmul (fmul (rnd 2) (f64_of_nat (unat n + 1))) srtt"
  have "unat n + 1 \<le> 65536" using unat_lt_u16 [of n] by simp
  then have f: "f64_of_nat (unat n + 1) = Fin (of_nat (unat n + 1))" by (intro f64_of_nat_small) simp
  obtain q where q: "srtt = Fin q" using assms by (cases srtt) auto
  have m: "fmul (Fin 2) (Fin (of_nat (unat n + 1))) = rnd (of_nat (2 * (unat n + 1)))" by simp
  have "rnd (of_nat (2 * (unat n + 1))) = Fin (of_nat (2 * (unat n + 1)))"
    using unat_lt_u16 [of n] by (intro rnd_of_nat) simp
  then have "?f \<noteq> NaN" unfolding f q using m by simp
  moreover obtain x where x: "fclamp ?f (Fin 50) (Fin 1000) = Some x"
    using fclamp_Some [of "Fin 50" "Fin 1000" ?f] by auto
  ultimately have "fle (Fin 50) x" "fle x (Fin 1000)" using fclamp_bounds by blast+
  then obtain y where y: "x = Fin y" "50 \<le> y" "y \<le> 1000" using fle_between_finite [of 50 x 1000] by blast
  have e: "rto_ms n srtt = rnd (y + 30)"
    using x y by (simp add: rto_ms_def RTO_FLOOR_MS_def RTO_CEILING_MS_def RTO_GRACE_MS_def Let_def)
  have "fle (rnd 80) (rnd (y + 30))" "fle (rnd (y + 30)) (rnd 1030)"
    by (rule rnd_mono, use y in simp)+
  then show "fle (Fin 80) (rto_ms n srtt)" "fle (rto_ms n srtt) (Fin 1030)" by (simp_all add: e)
qed

section \<open>Queueing\<close>

lemma window_free_eq:
  assumes "send_inv r"
  shows "window_free r = length (sr_meta r) - (unat (sr_next r) - unat (sr_base r))"
proof -
  have o: "unat (sr_base r) \<le> unat (sr_next r)" "unat (sr_next r) \<le> unat (sr_base r) + length (sr_meta r)"
    and n: "length (sr_meta r) < 2147483648"
    using assms by (auto simp: send_inv_def send_shape_def)
  have f: "unat (send_in_flight r) = unat (sr_next r) - unat (sr_base r)"
    using o by (simp add: send_in_flight_def unat_sub_if')
  have d: "unat (of_nat (length (sr_meta r)) :: u32) = length (sr_meta r)" using n by (intro unat_of_nat_32) simp
  have "send_in_flight r \<le> of_nat (length (sr_meta r))" unfolding word_le_nat_alt d f using o by simp
  then show ?thesis
    using n by (simp add: window_free_def u32_try_from_def sat_sub_def unat_sub d f)
qed

text \<open>One iteration of the loop writes fragment \<open>i\<close> into its slot and leaves all others alone.\<close>

definition put_fragment :: "send_ring \<Rightarrow> message \<Rightarrow> nat \<Rightarrow> nat \<Rightarrow> send_ring" where
  "put_fragment r m cap i =
     (let j = (unat (sr_next r) + i) mod length (sr_meta r); start = j * sr_slot_len r in
      r\<lparr>sr_bodies := put_at (sr_bodies r) start
           (put_at (take (sr_slot_len r) (drop start (sr_bodies r))) 0 (chunk cap i (stream m))),
        sr_meta := (sr_meta r)[j := send_slot_default\<lparr>ss_len := of_nat (length (chunk cap i (stream m))),
           ss_occupied := True, ss_last := length (stream m) \<le> i * cap + cap\<rparr>]\<rparr>)"

lemma put_fragment_frame [simp]:
  "sr_next (put_fragment r m cap i) = sr_next r" "sr_base (put_fragment r m cap i) = sr_base r"
  "sr_cursor (put_fragment r m cap i) = sr_cursor r" "sr_slot_len (put_fragment r m cap i) = sr_slot_len r"
  "length (sr_meta (put_fragment r m cap i)) = length (sr_meta r)"
  "sr_fragment_capacity (put_fragment r m cap i) = sr_fragment_capacity r"
  "sr_channel (put_fragment r m cap i) = sr_channel r"
  "sr_outstanding (put_fragment r m cap i) = sr_outstanding r"
  by (simp_all add: put_fragment_def Let_def)

lemma put_region: "length c \<le> length reg \<Longrightarrow> put_at reg 0 c = c @ drop (length c) reg"
  by (simp add: put_at_def)

lemma put_region_twice:
  assumes "start + sl \<le> length xs" "length c \<le> sl"
  shows "put_at xs start (put_at (take sl (drop start xs)) 0 c) = put_at xs start c"
proof -
  have "drop (start + length c) xs = take (sl - length c) (drop (start + length c) xs)
      @ drop (start + sl) xs"
    using assms append_take_drop_id [of "sl - length c" "drop (start + length c) xs"] by (simp add: add.commute)
  then show ?thesis using assms by (simp add: put_at_def drop_take add.commute)
qed

lemma length_chunk_cap: "length (chunk cap i xs) \<le> cap"
  by (simp add: chunk_def)

lemma put_fragment_shape:
  assumes sh: "send_shape r" and cap: "cap \<le> sr_slot_len r" "cap \<le> 65535"
  shows "send_shape (put_fragment r m cap i)"
    "send_slot_at (put_fragment r m cap i) k = (if k mod length (sr_meta r) = (unat (sr_next r) + i) mod length (sr_meta r)
       then send_slot_default\<lparr>ss_len := of_nat (length (chunk cap i (stream m))), ss_occupied := True,
              ss_last := length (stream m) \<le> i * cap + cap\<rparr>
       else send_slot_at r k)"
    "send_body_at (put_fragment r m cap i) k = (if k mod length (sr_meta r) = (unat (sr_next r) + i) mod length (sr_meta r)
       then chunk cap i (stream m) else send_body_at r k)"
proof -
  let ?n = "length (sr_meta r)" and ?sl = "sr_slot_len r" and ?c = "chunk cap i (stream m)"
  let ?j = "(unat (sr_next r) + i) mod ?n" and ?r = "put_fragment r m cap i"
  have n: "0 < ?n" and lb: "length (sr_bodies r) = ?n * ?sl" using sh by (auto simp: send_shape_def)
  have j: "?j < ?n" and k: "k mod ?n < ?n" using n by simp_all
  have cl: "length ?c \<le> ?sl" "length ?c < 2 ^ 16" using length_chunk_cap [of cap i "stream m"] cap by auto
  have reg: "?j * ?sl + ?sl \<le> length (sr_bodies r)" using slot_region [OF j order_refl] lb by simp
  have b: "sr_bodies ?r = put_at (sr_bodies r) (?j * ?sl) ?c"
    using put_region_twice [OF reg cl(1)] by (simp add: put_fragment_def Let_def)
  show slot: "send_slot_at ?r k = (if k mod ?n = ?j
       then send_slot_default\<lparr>ss_len := of_nat (length ?c), ss_occupied := True,
              ss_last := length (stream m) \<le> i * cap + cap\<rparr>
       else send_slot_at r k)"
    using j k by (auto simp: send_slot_at_def put_fragment_def Let_def nth_list_update)
  have u: "unat (of_nat (length ?c) :: u16) = length ?c" using cl(2) by (rule unat_of_nat_16)
  show "send_body_at ?r k = (if k mod ?n = ?j then ?c else send_body_at r k)"
  proof (cases "k mod ?n = ?j")
    case True
    then show ?thesis
      using reg cl take_drop_put_at_same [of "?j * ?sl" ?c "sr_bodies r"]
      by (simp add: send_body_at_def slot b u)
  next
    case False
    then show ?thesis
      using region_put_other [OF j k False cl(1) send_slot_len [OF sh] lb]
      by (simp add: send_body_at_def slot b)
  qed
  have "unat (ss_len x) \<le> ?sl" if "x \<in> set (sr_meta ?r)" for x
    using that sh cl u by (auto simp: put_fragment_def Let_def send_shape_def dest!: set_update_subset_insert [THEN subsetD])
  then show "send_shape ?r"
    using sh reg cl by (simp add: send_shape_def b)
qed

lemma enqueue_loop_step:
  assumes sh: "send_shape r" and wf: "wf_message m" and cap: "0 < cap" "cap \<le> sr_slot_len r" "cap \<le> 65535"
    and i: "i < message_fragment_count m cap" and nw: "unat (sr_next r) + i < 4294967296"
  shows "enqueue_loop r m cap i (Suc n) = enqueue_loop (put_fragment r m cap i) m cap (Suc i) n"
proof -
  let ?n = "length (sr_meta r)" and ?sl = "sr_slot_len r" and ?c = "chunk cap i (stream m)"
  let ?j = "(unat (sr_next r) + i) mod ?n"
  have n: "0 < ?n" and lb: "length (sr_bodies r) = ?n * ?sl" "?n * ?sl < usize_bound"
    using sh by (auto simp: send_shape_def)
  have j: "?j < ?n" using n by simp
  have reg: "?j * ?sl + ?sl \<le> length (sr_bodies r)" using slot_region [OF j order_refl] lb by simp
  have idx: "send_index r (sr_next r + of_nat i) = ?j"
    using nw by (simp add: send_index_def unat_add_of_nat_u32)
  have fr: "message_fragment m i cap (take ?sl (drop (?j * ?sl) (sr_bodies r))) = Some (Inr
     (\<lparr>fr_len = length ?c, fr_last = (length (stream m) \<le> i * cap + cap)\<rparr>,
      put_at (take ?sl (drop (?j * ?sl) (sr_bodies r))) 0 ?c))"
    using wf cap i reg by (intro message_fragment_chunk) auto
  have "length ?c \<le> cap" by (rule length_chunk_cap)
  then have cl: "length ?c < 65536" using cap by simp
  have i32: "i < 4294967296" using nw by simp
  show ?thesis
    using idx fr j reg lb cl i32
    by (simp add: u32_try_from_def usize_checked_mul_def get_range_def get_at_def u16_try_from_def Let_def
        put_fragment_def)
qed

definition put_fragments :: "send_ring \<Rightarrow> message \<Rightarrow> nat \<Rightarrow> nat \<Rightarrow> nat \<Rightarrow> send_ring" where
  "put_fragments r m cap i n = fold (\<lambda>i r. put_fragment r m cap i) [i..<i + n] r"

lemma put_fragments_simps [simp]:
  "put_fragments r m cap i 0 = r"
  "put_fragments r m cap i (Suc n) = put_fragment (put_fragments r m cap i n) m cap (i + n)"
  by (simp_all add: put_fragments_def)

lemma put_fragments_Cons: "put_fragments (put_fragment r m cap i) m cap (Suc i) n = put_fragments r m cap i (Suc n)"
proof -
  have "[i..<i + Suc n] = i # [Suc i..<i + Suc n]" by (rule upt_conv_Cons) simp
  then show ?thesis by (simp add: put_fragments_def del: upt_Suc)
qed

lemma put_fragments_frame [simp]:
  "sr_next (put_fragments r m cap i n) = sr_next r" "sr_base (put_fragments r m cap i n) = sr_base r"
  "sr_cursor (put_fragments r m cap i n) = sr_cursor r" "sr_slot_len (put_fragments r m cap i n) = sr_slot_len r"
  "length (sr_meta (put_fragments r m cap i n)) = length (sr_meta r)"
  "sr_channel (put_fragments r m cap i n) = sr_channel r"
  "sr_outstanding (put_fragments r m cap i n) = sr_outstanding r"
  by (induction n) simp_all

lemma enqueue_loop_all:
  assumes "send_shape r" "wf_message m" "0 < cap" "cap \<le> sr_slot_len r" "cap \<le> 65535"
    "i + n \<le> message_fragment_count m cap" "unat (sr_next r) + (i + n) \<le> 4294967296"
  shows "enqueue_loop r m cap i n = (put_fragments r m cap i n, Inr ())"
  using assms
proof (induction n arbitrary: r i)
  case (Suc n)
  have "enqueue_loop r m cap i (Suc n) = enqueue_loop (put_fragment r m cap i) m cap (Suc i) n"
    using Suc.prems by (intro enqueue_loop_step) auto
  also have "\<dots> = (put_fragments (put_fragment r m cap i) m cap (Suc i) n, Inr ())"
    using Suc.prems by (intro Suc.IH put_fragment_shape(1)) auto
  finally show ?case by (simp only: put_fragments_Cons)
qed simp

lemma put_fragments_slots:
  assumes sh: "send_shape r" and cap: "cap \<le> sr_slot_len r" "cap \<le> 65535"
    and win: "unat (sr_next r) + n \<le> unat (sr_base r) + length (sr_meta r)"
  shows "send_shape (put_fragments r m cap 0 n)
    \<and> (\<forall>k. unat (sr_base r) \<le> k \<and> k < unat (sr_next r) + n \<longrightarrow>
        send_slot_at (put_fragments r m cap 0 n) k =
          (if k < unat (sr_next r) then send_slot_at r k
           else let i = k - unat (sr_next r) in
             send_slot_default\<lparr>ss_len := of_nat (length (chunk cap i (stream m))), ss_occupied := True,
               ss_last := length (stream m) \<le> i * cap + cap\<rparr>)
        \<and> send_body_at (put_fragments r m cap 0 n) k =
          (if k < unat (sr_next r) then send_body_at r k else chunk cap (k - unat (sr_next r)) (stream m)))"
  using win
proof (induction n)
  case 0
  then show ?case using sh by simp
next
  case (Suc n)
  let ?r = "put_fragments r m cap 0 n" and ?N = "length (sr_meta r)"
  have IH: "send_shape ?r" using Suc by simp
  have pf: "send_shape (put_fragment ?r m cap n)"
    using put_fragment_shape(1) [OF IH] cap by simp
  have same: "k mod ?N = (unat (sr_next r) + n) mod ?N \<longleftrightarrow> k = unat (sr_next r) + n"
    if "unat (sr_base r) \<le> k" "k < unat (sr_next r) + Suc n" for k
    using that Suc.prems mod_window_inj [of k ?N "unat (sr_next r) + n" "unat (sr_base r)"]
      by (cases "unat (sr_base r) \<le> unat (sr_next r) + n") auto
  have "send_slot_at (put_fragment ?r m cap n) k =
        (if k < unat (sr_next r) then send_slot_at r k
         else let i = k - unat (sr_next r) in
           send_slot_default\<lparr>ss_len := of_nat (length (chunk cap i (stream m))), ss_occupied := True,
             ss_last := length (stream m) \<le> i * cap + cap\<rparr>)
      \<and> send_body_at (put_fragment ?r m cap n) k =
        (if k < unat (sr_next r) then send_body_at r k else chunk cap (k - unat (sr_next r)) (stream m))"
    if k: "unat (sr_base r) \<le> k" "k < unat (sr_next r) + Suc n" for k
  proof (cases "k = unat (sr_next r) + n")
    case True
    then show ?thesis
      using put_fragment_shape(2,3) [OF IH, of cap m n k] cap by simp
  next
    case False
    then have "k < unat (sr_next r) + n" using k by simp
    then show ?thesis
      using put_fragment_shape(2,3) [OF IH, of cap m n k] cap same [OF k] False Suc k by simp
  qed
  then show ?case using pf by simp
qed

text \<open>
  Queueing a message that fits the window appends its fragments to the abstract sender and touches
  nothing that is still in flight.
\<close>

lemma last_fragment:
  assumes "wf_message m" "0 < cap" "i < message_fragment_count m cap"
  shows "length (stream m) \<le> i * cap + cap \<longleftrightarrow> Suc i = message_fragment_count m cap"
  using fragment_count_ceil [OF assms(1,2), of "Suc i"] assms(3) by (auto simp: add.commute)

lemma send_enqueue_ok:
  assumes inv: "send_inv r" and wf: "wf_message m"
    and N: "N = message_fragment_count m (sr_fragment_capacity r)"
    and fit: "N \<le> window_free r" and nw: "unat (sr_next r) + N < 4294967296"
  shows "\<exists>r'. send_enqueue r m = (r', Inr (of_nat N)) \<and> send_inv r' \<and> sr_base r' = sr_base r
    \<and> sr_cursor r' = sr_cursor r \<and> length (sr_meta r') = length (sr_meta r)
    \<and> sr_slot_len r' = sr_slot_len r \<and> sr_channel r' = sr_channel r \<and> sr_outstanding r' = sr_outstanding r
    \<and> unat (sr_next r') = unat (sr_next r) + N
    \<and> (\<forall>k. unat (sr_next r) \<le> k \<and> k < unat (sr_next r) + N \<longrightarrow>
         ss_occupied (send_slot_at r' k) \<and> \<not> ss_sent (send_slot_at r' k))
    \<and> send_abs r' = (\<lambda>k. if unat (sr_next r) \<le> k \<and> k < unat (sr_next r) + N
        then Some (chunk (sr_fragment_capacity r) (k - unat (sr_next r)) (stream m), Suc (k - unat (sr_next r)) = N)
        else send_abs r k)"
proof -
  let ?cap = "sr_fragment_capacity r" and ?R = "put_fragments r m (sr_fragment_capacity r) 0 N"
  have sh: "send_shape r" and o: "unat (sr_base r) \<le> unat (sr_cursor r)" "unat (sr_cursor r) \<le> unat (sr_next r)"
    "unat (sr_next r) \<le> unat (sr_base r) + length (sr_meta r)"
    using inv by (auto simp: send_inv_def)
  have cap: "0 < ?cap" "?cap \<le> sr_slot_len r" "?cap \<le> 65535" using sh by (auto simp: send_shape_def)
  have win: "unat (sr_next r) + N \<le> unat (sr_base r) + length (sr_meta r)"
    using fit window_free_eq [OF inv] o by simp
  note sl = put_fragments_slots [OF sh cap(2,3) win, of m]
  let ?r = "?R\<lparr>sr_next := sr_next r + of_nat N\<rparr>"
  have nx: "unat (sr_next r + of_nat N) = unat (sr_next r) + N" using nw by (rule unat_add_of_nat_u32)
  have "send_enqueue r m = (?r, Inr (of_nat N))"
    using enqueue_loop_all [OF sh wf cap, of 0 N] fit nw N
    by (simp add: send_enqueue_def Let_def u32_try_from_def)
  moreover
  have at: "send_slot_at ?r = send_slot_at ?R" "send_body_at ?r = send_body_at ?R"
    by (rule ext, simp add: send_slot_at_def send_body_at_def)+
  have "send_shape ?r" using sl by (simp add: send_shape_def)
  then have "send_inv ?r" using o win nx by (simp add: send_inv_def)
  moreover have "send_abs ?r k = (if unat (sr_next r) \<le> k \<and> k < unat (sr_next r) + N
        then Some (chunk ?cap (k - unat (sr_next r)) (stream m), Suc (k - unat (sr_next r)) = N)
        else send_abs r k)" for k
  proof (cases "unat (sr_base r) \<le> k \<and> k < unat (sr_next r) + N")
    case True
    note f = sl [THEN conjunct2, rule_format, OF True]
    have l: "\<not> k < unat (sr_next r) \<Longrightarrow> length (stream m) \<le> (k - unat (sr_next r)) * ?cap + ?cap
        \<longleftrightarrow> Suc (k - unat (sr_next r)) = N"
      using True last_fragment [OF wf cap(1), of "k - unat (sr_next r)"] unfolding N by auto
    show ?thesis
      using True f l by (cases "k < unat (sr_next r)") (simp_all add: send_abs_def at nx Let_def)
  next
    case False
    then show ?thesis using o by (auto simp: send_abs_def nx)
  qed
  moreover have "ss_occupied (send_slot_at ?r k) \<and> \<not> ss_sent (send_slot_at ?r k)"
    if "unat (sr_next r) \<le> k" "k < unat (sr_next r) + N" for k
    using that o sl by (simp add: at Let_def send_slot_default_def)
  ultimately show ?thesis using nx by (intro exI [of _ ?r]) auto
qed

section \<open>The scan\<close>

text \<open>A scan moves the cursor and the two per-pass counters; \<open>scanned r c st o'\<close> is the ring it has reached.\<close>

abbreviation scanned :: "send_ring \<Rightarrow> u32 \<Rightarrow> u32 \<Rightarrow> u32 \<Rightarrow> send_ring" where
  "scanned r c st cnt \<equiv> r\<lparr>sr_cursor := c, sr_stale := st, sr_outstanding := cnt\<rparr>"

lemma send_classify_scanned:
  "\<exists>st. send_classify r i now srtt l = r\<lparr>sr_stale := st\<rparr>"
proof -
  have "send_classify r i now srtt l = r\<lparr>sr_stale := sr_stale r\<rparr>
    \<or> send_classify r i now srtt l = r\<lparr>sr_stale := sat_add (sr_stale r) 1\<rparr>"
    by (auto simp: send_classify_def split: option.splits)
  then show ?thesis by blast
qed

lemma slot_due_scanned [simp]:
  "slot_nacked (scanned r c st cnt) q slot = slot_nacked r q slot"
  "slot_due (scanned r c st cnt) q slot now srtt = slot_due r q slot now srtt"
  by (simp_all add: slot_due_def slot_nacked_def)

lemma next_due_from_scanned:
  "sr_outstanding r < OUTSTANDING_CAP \<Longrightarrow> cnt < OUTSTANDING_CAP \<Longrightarrow>
   next_due_from (scanned r x y cnt) c now srtt = next_due_from r c now srtt"
proof (induction r c now srtt rule: next_due_from.induct)
  case (1 r c now srtt)
  show ?case
  proof (cases "c = sr_next r")
    case True
    then show ?thesis by (simp add: next_due_from.simps)
  next
    case False
    have i: "send_index (scanned r x y cnt) c = send_index r c" by (simp add: send_index_def)
    show ?thesis
      using 1 False
      by (subst (1 2) next_due_from.simps) (auto simp: i not_le split: option.splits)
  qed
qed

definition scan_emit :: "send_ring \<Rightarrow> u32 \<Rightarrow> f64 \<Rightarrow> f64 \<Rightarrow> nat \<Rightarrow> bytes \<Rightarrow> send_ring \<times> bytes \<times> nat result option" where
  "scan_emit r c now srtt lvl out =
     (let slot = send_slot_at r (unat c) in
      case encode_data out \<lparr>d_channel = sr_channel r, d_seq = c, d_last = ss_last slot,
             d_body = send_body_at r (unat c)\<rparr> of
        Inl e \<Rightarrow> (r, out, Some (Inl e))
      | Inr (out', written) \<Rightarrow>
          ((send_classify (mark_sent r (send_index r c) slot (slot_nacked r c slot) now)
              (send_index r c) now srtt (level_of lvl))\<lparr>sr_cursor := c + 1\<rparr>, out', Some (Inr written)))"

definition scan_result :: "send_ring \<Rightarrow> f64 \<Rightarrow> f64 \<Rightarrow> nat \<Rightarrow> bytes \<Rightarrow> u32 \<Rightarrow> u32 \<Rightarrow> u32 \<Rightarrow> bool" where
  "scan_result r now srtt lvl out c st cnt \<longleftrightarrow>
     unat (sr_cursor r) \<le> unat c \<and> unat c \<le> unat (sr_next r) \<and> unat (sr_outstanding r) \<le> unat cnt
     \<and> (if c = sr_next r
        then poll_send r now srtt lvl out
          = ((scanned r c st cnt)\<lparr>sr_nack_below := None, sr_cursor := sr_base r\<rparr>, out, None)
        else ss_occupied (send_slot_at r (unat c)) \<and> cnt < OUTSTANDING_CAP
          \<and> slot_due r c (send_slot_at r (unat c)) now srtt
          \<and> next_due_from r (sr_cursor r) now srtt = Some (HEADER_LEN + unat (ss_len (send_slot_at r (unat c))))
          \<and> poll_send r now srtt lvl out = scan_emit (scanned r c st cnt) c now srtt lvl out)"

lemma scan_result_skip:
  assumes IH: "scan_result (scanned r (sr_cursor r + 1) st0 cnt0) now srtt lvl out c st cnt"
    and lt: "unat (sr_cursor r) < unat (sr_next r)"
    and p: "poll_send r now srtt lvl out = poll_send (scanned r (sr_cursor r + 1) st0 cnt0) now srtt lvl out"
    and o: "unat (sr_outstanding r) \<le> unat cnt0"
    and nd: "cnt0 < OUTSTANDING_CAP \<Longrightarrow>
      next_due_from r (sr_cursor r) now srtt = next_due_from r (sr_cursor r + 1) now srtt"
  shows "scan_result r now srtt lvl out c st cnt"
proof -
  let ?r = "scanned r (sr_cursor r + 1) st0 cnt0"
  have suc: "unat (sr_cursor r + 1) = Suc (unat (sr_cursor r))"
    using unat_add_of_nat_u32 [of "sr_cursor r" 1] lt unat_lt_u32 [of "sr_next r"] by simp
  have at: "send_slot_at ?r = send_slot_at r" by (rule ext) (simp add: send_slot_at_def)
  have "next_due_from r (sr_cursor r) now srtt = next_due_from ?r (sr_cursor ?r) now srtt"
    if "cnt < OUTSTANDING_CAP" "unat cnt0 \<le> unat cnt"
  proof -
    have "cnt0 < OUTSTANDING_CAP" "sr_outstanding r < OUTSTANDING_CAP"
      using that o by (auto simp: word_less_nat_alt)
    then show ?thesis using nd next_due_from_scanned by simp
  qed
  then show ?thesis
    using IH suc o unfolding scan_result_def p at by (auto split: if_splits)
qed

lemma scanned_swap:
  "r\<lparr>sr_stale := st, sr_cursor := c\<rparr> = scanned r c st (sr_outstanding r)"
  "r\<lparr>sr_outstanding := cnt, sr_stale := st, sr_cursor := c\<rparr> = scanned r c st cnt"
  by simp_all

lemma send_inv_scanned:
  assumes "send_inv r" "unat (sr_base r) \<le> unat c" "unat c \<le> unat (sr_next r)"
  shows "send_inv (scanned r c st cnt)"
  using assms by (simp add: send_inv_def send_shape_def)

lemma poll_send_due:
  assumes sh: "send_shape r" and ne: "sr_cursor r \<noteq> sr_next r"
    and due: "ss_occupied (send_slot_at r (unat (sr_cursor r)))" "\<not> OUTSTANDING_CAP \<le> sr_outstanding r"
      "slot_due r (sr_cursor r) (send_slot_at r (unat (sr_cursor r))) now srtt"
  shows "poll_send r now srtt lvl out = scan_emit r (sr_cursor r) now srtt lvl out"
proof -
  let ?k = "unat (sr_cursor r)" and ?i = "send_index r (sr_cursor r)" and ?slot = "send_slot_at r (unat (sr_cursor r))"
  have slot: "get_at (sr_meta r) ?i = Some ?slot"
    using sh by (simp add: get_at_def send_index_def send_slot_at_def send_shape_def)
  note reg = send_region(1) [OF sh, of ?k] send_region(3) [OF sh]
  have mul: "usize_checked_mul ?i (sr_slot_len r) = Some (?k mod length (sr_meta r) * sr_slot_len r)"
    using reg by (simp add: usize_checked_mul_def send_index_def)
  have add: "usize_checked_add (?k mod length (sr_meta r) * sr_slot_len r) (unat (ss_len ?slot))
      = Some (?k mod length (sr_meta r) * sr_slot_len r + unat (ss_len ?slot))"
    using reg by (simp add: usize_checked_add_def)
  have body: "get_range (sr_bodies r) (?k mod length (sr_meta r) * sr_slot_len r)
      (?k mod length (sr_meta r) * sr_slot_len r + unat (ss_len ?slot)) = Some (send_body_at r ?k)"
    using reg by (simp add: get_range_def send_body_at_def)
  show ?thesis
    using ne slot due mul add body
    by (subst poll_send.simps) (simp add: Let_def scan_emit_def split: sum.splits)
qed

lemma poll_send_scan:
  assumes "send_inv r"
  shows "\<exists>c st cnt. scan_result r now srtt lvl out c st cnt"
  using assms
proof (induction "unat (sr_next r - sr_cursor r)" arbitrary: r rule: less_induct)
  case less
  let ?k = "unat (sr_cursor r)" and ?i = "send_index r (sr_cursor r)" and ?slot = "send_slot_at r (unat (sr_cursor r))"
  have sh: "send_shape r" and o: "unat (sr_base r) \<le> ?k" "?k \<le> unat (sr_next r)"
    using less.prems by (auto simp: send_inv_def)
  show ?case
  proof (cases "sr_cursor r = sr_next r")
    case True
    then have "scan_result r now srtt lvl out (sr_cursor r) (sr_stale r) (sr_outstanding r)"
      by (simp add: scan_result_def poll_send.simps [of r])
    then show ?thesis by blast
  next
    case False
    then have lt: "?k < unat (sr_next r)" using o(2) by (metis le_neq_implies_less word_unat_eq_iff)
    have suc: "unat (sr_cursor r + 1) = Suc ?k"
      using unat_add_of_nat_u32 [of "sr_cursor r" 1] lt unat_lt_u32 [of "sr_next r"] by simp
    have slot: "get_at (sr_meta r) ?i = Some ?slot"
      using sh by (simp add: get_at_def send_index_def send_slot_at_def send_shape_def)
    have IH: "\<exists>c st cnt. scan_result (scanned r (sr_cursor r + 1) st0 cnt0) now srtt lvl out c st cnt" for st0 cnt0
      by (rule less.hyps) (use False o lt suc in \<open>simp_all add: unat_dist_less send_inv_scanned less.prems\<close>)
    have skip: ?thesis
      if "poll_send r now srtt lvl out = poll_send (scanned r (sr_cursor r + 1) st0 cnt0) now srtt lvl out"
        "unat (sr_outstanding r) \<le> unat cnt0"
        "cnt0 < OUTSTANDING_CAP \<Longrightarrow> next_due_from r (sr_cursor r) now srtt = next_due_from r (sr_cursor r + 1) now srtt"
      for st0 cnt0
      using IH [of cnt0 st0] scan_result_skip [OF _ lt that(1,2)] that(3) by blast
    consider (free) "\<not> ss_occupied ?slot" | (capped) "ss_occupied ?slot" "OUTSTANDING_CAP \<le> sr_outstanding r"
      | (waiting) "ss_occupied ?slot" "\<not> OUTSTANDING_CAP \<le> sr_outstanding r" "\<not> slot_due r (sr_cursor r) ?slot now srtt"
      | (due) "ss_occupied ?slot" "\<not> OUTSTANDING_CAP \<le> sr_outstanding r" "slot_due r (sr_cursor r) ?slot now srtt"
      by blast
    then show ?thesis
    proof cases
      case free
      have p: "poll_send r now srtt lvl out
          = poll_send (scanned r (sr_cursor r + 1) (sr_stale r) (sr_outstanding r)) now srtt lvl out"
        using False slot free by (subst poll_send.simps) (simp add: Let_def)
      have nd: "next_due_from r (sr_cursor r) now srtt = next_due_from r (sr_cursor r + 1) now srtt"
        using False slot free by (subst next_due_from.simps) simp
      show ?thesis by (rule skip [OF p order_refl nd])
    next
      case capped
      obtain st where st: "send_classify r ?i now srtt (level_of lvl) = r\<lparr>sr_stale := st\<rparr>"
        using send_classify_scanned by blast
      have p: "poll_send r now srtt lvl out
          = poll_send (scanned r (sr_cursor r + 1) st (sr_outstanding r)) now srtt lvl out"
        using False slot capped by (subst poll_send.simps) (simp only: if_False if_True Let_def option.case st scanned_swap not_True_eq_False)
      show ?thesis by (rule skip [OF p order_refl]) (use capped in auto)
    next
      case waiting
      let ?cnt = "if 0 < ss_retransmits ?slot \<or> ss_nack_resent ?slot then sat_add (sr_outstanding r) 1 else sr_outstanding r"
      let ?r1 = "r\<lparr>sr_outstanding := ?cnt\<rparr>"
      obtain st where st: "send_classify ?r1 ?i now srtt (level_of lvl) = ?r1\<lparr>sr_stale := st\<rparr>"
        using send_classify_scanned by blast
      have r1: "(if 0 < ss_retransmits ?slot \<or> ss_nack_resent ?slot
          then r\<lparr>sr_outstanding := sat_add (sr_outstanding r) 1\<rparr> else r) = ?r1" by simp
      have p: "poll_send r now srtt lvl out = poll_send (scanned r (sr_cursor r + 1) st ?cnt) now srtt lvl out"
        using False slot waiting by (subst poll_send.simps) (simp only: if_False if_True Let_def option.case r1 st scanned_swap(2) not_True_eq_False not_False_eq_True)
      have nd: "next_due_from r (sr_cursor r) now srtt = next_due_from r (sr_cursor r + 1) now srtt"
        using False slot waiting by (subst next_due_from.simps) simp
      have le: "unat (sr_outstanding r) \<le> unat ?cnt"
        using sat_add_mono [of "sr_outstanding r" 1] by (simp add: word_le_nat_alt)
      show ?thesis by (rule skip [OF p le nd])
    next
      case due
      note reg = send_region(1) [OF sh, of ?k] send_region(3) [OF sh]
      have "poll_send r now srtt lvl out = scan_emit r (sr_cursor r) now srtt lvl out"
        using sh False due by (rule poll_send_due)
      moreover have "next_due_from r (sr_cursor r) now srtt = Some (HEADER_LEN + unat (ss_len ?slot))"
        using False slot due reg by (subst next_due_from.simps)
          (simp add: usize_checked_add_def HEADER_LEN_def usize_bound_def less_trans [OF add_strict_left_mono [OF unat_lt_u16]])
      ultimately have "scan_result r now srtt lvl out (sr_cursor r) (sr_stale r) (sr_outstanding r)"
        using False due lt by (simp add: scan_result_def not_le)
      then show ?thesis by blast
    qed
  qed
qed

text \<open>Emitting a fragment changes its bookkeeping but neither its bytes nor any other slot.\<close>

lemma send_at_update:
  assumes "0 < length (sr_meta r)" "ss_len e = ss_len (send_slot_at r k)"
    and r': "sr_meta r' = (sr_meta r)[k mod length (sr_meta r) := e]" "sr_bodies r' = sr_bodies r"
      "sr_slot_len r' = sr_slot_len r"
  shows "send_slot_at r' j = (if j mod length (sr_meta r) = k mod length (sr_meta r) then e else send_slot_at r j)"
    "send_body_at r' j = send_body_at r j"
proof -
  show at: "send_slot_at r' j = (if j mod length (sr_meta r) = k mod length (sr_meta r) then e else send_slot_at r j)"
    using assms by (auto simp: send_slot_at_def nth_list_update)
  then have "ss_len (send_slot_at r' j) = ss_len (send_slot_at r j)"
    using assms(2) by (simp add: send_slot_at_def)
  then show "send_body_at r' j = send_body_at r j" using r' by (simp add: send_body_at_def)
qed

lemma send_shape_update:
  assumes "send_shape r" "ss_len e = ss_len (send_slot_at r k)"
    and "sr_meta r' = (sr_meta r)[k mod length (sr_meta r) := e]" "sr_bodies r' = sr_bodies r"
      "sr_slot_len r' = sr_slot_len r" "sr_fragment_capacity r' = sr_fragment_capacity r" "sr_channel r' = sr_channel r"
  shows "send_shape r'"
proof -
  have "unat (ss_len x) \<le> sr_slot_len r" if "x \<in> set (sr_meta r')" for x
    using that assms(1-3) send_slot_len [OF assms(1), of k]
    by (auto simp: send_shape_def dest!: set_update_subset_insert [THEN subsetD])
  then show ?thesis using assms by (simp add: send_shape_def)
qed

lemma send_abs_cong:
  assumes "sr_base r' = sr_base r" "sr_next r' = sr_next r"
    "\<And>k. ss_occupied (send_slot_at r' k) = ss_occupied (send_slot_at r k)"
    "\<And>k. ss_last (send_slot_at r' k) = ss_last (send_slot_at r k)" "\<And>k. send_body_at r' k = send_body_at r k"
  shows "send_abs r' = send_abs r"
  using assms by (simp add: send_abs_def fun_eq_iff)

definition sent_entry :: "send_slot \<Rightarrow> bool \<Rightarrow> f64 \<Rightarrow> send_slot" where
  "sent_entry slot nacked now_ms =
     (if ss_sent slot then if nacked then slot\<lparr>ss_nack_resent := True\<rparr>
        else slot\<lparr>ss_retransmits := sat_add (ss_retransmits slot) 1\<rparr>
      else slot\<lparr>ss_sent := True, ss_first_sent_ms := now_ms\<rparr>)\<lparr>ss_last_sent_ms := now_ms\<rparr>"

lemma sent_entry_frame [simp]:
  "ss_len (sent_entry slot nk now) = ss_len slot" "ss_occupied (sent_entry slot nk now) = ss_occupied slot"
  "ss_last (sent_entry slot nk now) = ss_last slot" "ss_sent (sent_entry slot nk now)"
  by (simp_all add: sent_entry_def)

lemma mark_sent_frame [simp]:
  "sr_meta (mark_sent r i slot nk now) = (sr_meta r)[i := sent_entry slot nk now]"
  "sr_bodies (mark_sent r i slot nk now) = sr_bodies r" "sr_slot_len (mark_sent r i slot nk now) = sr_slot_len r"
  "sr_base (mark_sent r i slot nk now) = sr_base r" "sr_next (mark_sent r i slot nk now) = sr_next r"
  "sr_channel (mark_sent r i slot nk now) = sr_channel r"
  "sr_fragment_capacity (mark_sent r i slot nk now) = sr_fragment_capacity r"
  "sr_outstanding (mark_sent r i slot nk now) = sat_add (sr_outstanding r) 1"
  "sr_nack_below (mark_sent r i slot nk now) = sr_nack_below r"
  by (simp_all add: mark_sent_def sent_entry_def Let_def)

lemma scan_emit_spec:
  assumes inv: "send_inv r" and c: "unat (sr_base r) \<le> unat c" "unat c < unat (sr_next r)"
    and e: "scan_emit r c now srtt lvl out = (r', out', res)"
  shows "send_inv r' \<and> send_abs r' = send_abs r \<and> sr_base r' = sr_base r \<and> sr_next r' = sr_next r
    \<and> length (sr_meta r') = length (sr_meta r) \<and> sr_channel r' = sr_channel r \<and> sr_nack_below r' = sr_nack_below r
    \<and> (\<forall>n. res = Some (Inr n) \<longrightarrow>
        parse (take n out') = Inr (PData \<lparr>d_channel = sr_channel r, d_seq = c,
            d_last = ss_last (send_slot_at r (unat c)), d_body = send_body_at r (unat c)\<rparr>)
        \<and> n = HEADER_LEN + length (send_body_at r (unat c))
        \<and> sr_outstanding r' = sat_add (sr_outstanding r) 1 \<and> sr_cursor r' = c + 1
        \<and> (\<forall>j. send_slot_at r' j = (if j mod length (sr_meta r) = unat c mod length (sr_meta r)
             then sent_entry (send_slot_at r (unat c)) (slot_nacked r c (send_slot_at r (unat c))) now
             else send_slot_at r j)))
    \<and> ((\<exists>err. res = Some (Inl err)) \<longrightarrow> r' = r)"
proof -
  let ?slot = "send_slot_at r (unat c)" and ?i = "unat c mod length (sr_meta r)"
  let ?d = "\<lparr>d_channel = sr_channel r, d_seq = c, d_last = ss_last ?slot, d_body = send_body_at r (unat c)\<rparr>"
  have sh: "send_shape r" and n0: "0 < length (sr_meta r)" using inv by (auto simp: send_inv_def send_shape_def)
  show ?thesis
  proof (cases "encode_data out ?d")
    case (Inl x)
    then have "r' = r" "res = Some (Inl x)" using e by (auto simp: scan_emit_def Let_def)
    then show ?thesis using inv by simp
  next
    case (Inr p)
    then obtain n where enc: "encode_data out ?d = Inr (out', n)" and res: "res = Some (Inr n)"
      and r': "r' = (send_classify (mark_sent r (send_index r c) ?slot (slot_nacked r c ?slot) now)
          (send_index r c) now srtt (level_of lvl))\<lparr>sr_cursor := c + 1\<rparr>"
      using e by (cases p) (auto simp: scan_emit_def Let_def)
    let ?e = "sent_entry ?slot (slot_nacked r c ?slot) now"
    have m: "sr_meta r' = (sr_meta r)[?i := ?e]" "sr_bodies r' = sr_bodies r" "sr_slot_len r' = sr_slot_len r"
      "sr_fragment_capacity r' = sr_fragment_capacity r" "sr_channel r' = sr_channel r"
      by (simp_all add: r' send_index_def)
    have fr: "sr_base r' = sr_base r" "sr_next r' = sr_next r" "sr_cursor r' = c + 1"
      "sr_outstanding r' = sat_add (sr_outstanding r) 1" "sr_nack_below r' = sr_nack_below r"
      by (simp_all add: r')
    note at = send_at_update [of r ?e "unat c" r', OF n0 _ m(1-3)]
    have sh': "send_shape r'" using sh _ m by (rule send_shape_update) simp
    have cs: "unat (c + 1) = Suc (unat c)"
      using unat_add_of_nat_u32 [of c 1] c(2) unat_lt_u32 [of "sr_next r"] by simp
    have inv': "send_inv r'" using inv sh' c cs by (simp add: send_inv_def fr m)
    have "ss_occupied (send_slot_at r' k) = ss_occupied (send_slot_at r k)"
      "ss_last (send_slot_at r' k) = ss_last (send_slot_at r k)" for k
      using at(1) [of k] by (simp_all add: send_slot_at_def)
    then have abs: "send_abs r' = send_abs r" by (intro send_abs_cong) (simp_all add: fr at(2))
    have "n = HEADER_LEN + length (send_body_at r (unat c))"
      using enc by (auto simp: encode_data_def usize_checked_add_def split: if_splits)
    then show ?thesis
      using inv' abs res at(1) encode_data_parse [OF enc] by (simp add: fr m)
  qed
qed

lemma send_abs_scanned [simp]: "send_abs (scanned r c st cnt) = send_abs r"
  by (rule send_abs_cong) (simp_all add: send_slot_at_def send_body_at_def)

lemma at_scanned [simp]:
  "send_slot_at (scanned r c st cnt) k = send_slot_at r k" "send_body_at (scanned r c st cnt) k = send_body_at r k"
  by (simp_all add: send_slot_at_def send_body_at_def)

lemma length_send_body: "send_shape r \<Longrightarrow> length (send_body_at r k) = unat (ss_len (send_slot_at r k))"
  using send_region(1) [of r k] by (simp add: send_body_at_def)

text \<open>
  What one call of \<open>poll_send\<close> does, on every branch. \<open>emits\<close>: the call wrote \<open>n\<close> bytes, the data packet
  of the pending fragment \<open>c\<close>, which was due, and updated that fragment's bookkeeping.
\<close>

definition emits :: "send_ring \<Rightarrow> f64 \<Rightarrow> f64 \<Rightarrow> send_ring \<Rightarrow> bytes \<Rightarrow> nat \<Rightarrow> u32 \<Rightarrow> bool" where
  "emits r now srtt r' out' n c \<longleftrightarrow>
     unat (sr_cursor r) \<le> unat c \<and> unat c < unat (sr_next r)
     \<and> (\<exists>b l. send_abs r (unat c) = Some (b, l) \<and> n = HEADER_LEN + length b
          \<and> parse (take n out') = Inr (PData \<lparr>d_channel = sr_channel r, d_seq = c, d_last = l, d_body = b\<rparr>))
     \<and> next_due_from r (sr_cursor r) now srtt = Some n
     \<and> slot_due r c (send_slot_at r (unat c)) now srtt
     \<and> unat (sr_outstanding r) < unat (sr_outstanding r') \<and> unat (sr_outstanding r') \<le> 100
     \<and> sr_cursor r' = c + 1
     \<and> send_slot_at r' (unat c) = sent_entry (send_slot_at r (unat c)) (slot_nacked r c (send_slot_at r (unat c))) now"

definition scan_keeps :: "send_ring \<Rightarrow> send_ring \<Rightarrow> bool" where
  "scan_keeps r r' \<longleftrightarrow> send_inv r' \<and> send_abs r' = send_abs r \<and> sr_base r' = sr_base r \<and> sr_next r' = sr_next r
    \<and> length (sr_meta r') = length (sr_meta r) \<and> sr_channel r' = sr_channel r"

lemma poll_send_spec:
  assumes inv: "send_inv r" and p: "poll_send r now srtt lvl out = (r', out', res)"
  shows "scan_keeps r r' \<and> (\<forall>n. res = Some (Inr n) \<longrightarrow> (\<exists>c. emits r now srtt r' out' n c))"
proof -
  obtain c st cnt where sc: "scan_result r now srtt lvl out c st cnt" using poll_send_scan [OF inv] by blast
  let ?r = "scanned r c st cnt"
  have sh: "send_shape r" and o: "unat (sr_base r) \<le> unat (sr_cursor r)" using inv by (auto simp: send_inv_def)
  have c: "unat (sr_cursor r) \<le> unat c" "unat c \<le> unat (sr_next r)" "unat (sr_outstanding r) \<le> unat cnt"
    using sc by (auto simp: scan_result_def)
  have inv1: "send_inv ?r" using inv o c by (intro send_inv_scanned) auto
  show ?thesis
  proof (cases "c = sr_next r")
    case True
    then have r': "r' = ?r\<lparr>sr_nack_below := None, sr_cursor := sr_base r\<rparr>" "res = None"
      using sc p by (auto simp: scan_result_def)
    have "send_abs r' = send_abs r"
      by (rule send_abs_cong) (simp_all add: r' send_slot_at_def send_body_at_def)
    then show ?thesis using inv by (simp add: r' send_inv_def send_shape_def scan_keeps_def)
  next
    case False
    then have lt: "unat c < unat (sr_next r)" using c(2) by (metis le_neq_implies_less word_unat_eq_iff)
    have f: "ss_occupied (send_slot_at r (unat c))" "cnt < OUTSTANDING_CAP"
      "slot_due r c (send_slot_at r (unat c)) now srtt"
      "next_due_from r (sr_cursor r) now srtt = Some (HEADER_LEN + unat (ss_len (send_slot_at r (unat c))))"
      "scan_emit ?r c now srtt lvl out = (r', out', res)"
      using sc False p by (auto simp: scan_result_def)
    have "unat cnt < 100" using f(2) by (simp add: OUTSTANDING_CAP_def WINDOW_FLOOR_def word_less_nat_alt)
    then have oc: "unat (sat_add cnt 1) = Suc (unat cnt)" by (simp add: unat_sat_add)
    have em: "scan_keeps r r'"
      "\<And>n. res = Some (Inr n) \<Longrightarrow>
        parse (take n out') = Inr (PData \<lparr>d_channel = sr_channel r, d_seq = c,
            d_last = ss_last (send_slot_at r (unat c)), d_body = send_body_at r (unat c)\<rparr>)
        \<and> n = HEADER_LEN + length (send_body_at r (unat c))
        \<and> sr_outstanding r' = sat_add cnt 1 \<and> sr_cursor r' = c + 1
        \<and> send_slot_at r' (unat c) = sent_entry (send_slot_at r (unat c)) (slot_nacked r c (send_slot_at r (unat c))) now"
      using scan_emit_spec [OF inv1 _ _ f(5)] o c lt by (simp_all add: scan_keeps_def)
    have abs: "send_abs r (unat c) = Some (send_body_at r (unat c), ss_last (send_slot_at r (unat c)))"
      using f(1) lt o c by (simp add: send_abs_def)
    have "emits r now srtt r' out' n c" if "res = Some (Inr n)" for n
      using em(2) [OF that] c lt abs f(3,4) oc \<open>unat cnt < 100\<close> length_send_body [OF sh, of "unat c"]
      unfolding emits_def by auto
    then show ?thesis using em(1) by blast
  qed
qed

section \<open>Acknowledgements\<close>

definition unaccounted :: "send_slot \<Rightarrow> send_slot" where
  "unaccounted slot = slot\<lparr>ss_acked_accounted := False\<rparr>"

lemma account_slot_frame: "map unaccounted (fst (account_slot meta a i)) = map unaccounted meta"
  by (auto simp: account_slot_def get_at_def map_update unaccounted_def list_eq_iff_nth_eq nth_list_update
      split: option.splits)

lemma account_loop_frame: "map unaccounted (fst (account_loop meta a s c)) = map unaccounted meta"
proof (induction meta a s c rule: account_loop.induct)
  case (1 meta a s c)
  obtain m' a' where e: "account_slot meta a (unat s mod length meta) = (m', a')" by fastforce
  have "map unaccounted m' = map unaccounted meta" using account_slot_frame [of meta a "unat s mod length meta"] e by simp
  then show ?case using 1 e by (subst account_loop.simps) simp
qed

lemma unaccounted_nth:
  assumes "map unaccounted ms = map unaccounted ns" "j < length ns"
  shows "ss_len (ms ! j) = ss_len (ns ! j) \<and> ss_occupied (ms ! j) = ss_occupied (ns ! j) \<and> ss_last (ms ! j) = ss_last (ns ! j)"
proof -
  have "length ms = length ns" using arg_cong [OF assms(1), of length] by simp
  then have e: "unaccounted (ms ! j) = unaccounted (ns ! j)"
    using arg_cong [OF assms(1), of "\<lambda>xs. xs ! j"] assms(2) by simp
  show ?thesis
    using arg_cong [OF e, of ss_len] arg_cong [OF e, of ss_occupied] arg_cong [OF e, of ss_last]
    by (simp add: unaccounted_def)
qed

lemma unat_add_u32: "unat (x :: u32) + unat y < 4294967296 \<Longrightarrow> unat (x + y) = unat x + unat y"
  by (simp add: unat_word_ariths)

lemma ack_range:
  assumes "unat (sr_base r) \<le> unat (sr_next r)" "unat (sr_next r) \<le> unat (sr_base r) + n" "n < 2147483648"
    and "seq_gt c (sr_base r)" "seq_le c (sr_next r)"
  shows "unat (sr_base r) < unat c" "unat c \<le> unat (sr_next r)"
proof -
  let ?a = "c - sr_base r" and ?b = "sr_next r - c"
  have a: "0 < unat ?a" "unat ?a < 2147483648" and b: "unat ?b < 2147483648"
    using assms(4,5) by (auto simp: seq_gt_unat seq_le_unat)
  have "unat (?a + ?b) = unat ?a + unat ?b" by (rule unat_add_u32) (use a b in linarith)
  moreover have "unat (?a + ?b) = unat (sr_next r) - unat (sr_base r)" using assms(1) by (simp add: unat_sub_if')
  ultimately have s: "unat ?a + unat ?b = unat (sr_next r) - unat (sr_base r)" by simp
  have "unat (sr_base r + of_nat (unat ?a)) = unat (sr_base r) + unat ?a"
    using s assms(1) unat_lt_u32 [of "sr_next r"] by (intro unat_add_of_nat_u32) linarith
  then have "unat c = unat (sr_base r) + unat ?a" by simp
  then show "unat (sr_base r) < unat c" "unat c \<le> unat (sr_next r)" using a s assms(1) by linarith+
qed

lemma send_inv_seq_lt:
  fixes b x y :: u32
  assumes "unat b \<le> unat x" "unat b \<le> unat y" "unat x \<le> unat b + n" "unat y \<le> unat b + n" "n < 2147483648"
  shows "seq_lt x y \<longleftrightarrow> unat x < unat y"
proof -
  have d: "unat (x - b) = unat x - unat b" "unat (y - b) = unat y - unat b"
    using assms by (simp_all add: unat_sub_if')
  have "seq_lt x y \<longleftrightarrow> unat (x - b) < unat (y - b)"
    by (rule seq_lt_offsets) (use assms d in linarith)+
  then show ?thesis unfolding d using assms(1) by linarith
qed

lemma ack_frontier_spec:
  assumes inv: "send_inv r" and f: "r' = ack_frontier r ack"
  shows "send_inv r' \<and> sr_next r' = sr_next r \<and> length (sr_meta r') = length (sr_meta r) \<and> sr_channel r' = sr_channel r
    \<and> unat (sr_base r) \<le> unat (sr_base r')
    \<and> send_abs r' = (\<lambda>k. if unat (sr_base r') \<le> k then send_abs r k else None)"
proof (cases "r' = r")
  case True
  then show ?thesis using inv by (auto simp: send_abs_def fun_eq_iff)
next
  case False
  then obtain c m a where c: "seq_gt c (sr_base r)" "seq_le c (sr_next r)"
    and al: "account_loop (sr_meta r) (sr_bytes_acked r) (sr_base r) c = (m, a)"
    and r': "sr_meta r' = m" "sr_base r' = c" "sr_next r' = sr_next r" "sr_bodies r' = sr_bodies r"
      "sr_cursor r' = (if seq_lt (sr_cursor r) c then c else sr_cursor r)" "sr_slot_len r' = sr_slot_len r"
      "sr_channel r' = sr_channel r" "sr_fragment_capacity r' = sr_fragment_capacity r"
    unfolding f ack_frontier_def Let_def by (auto split: if_splits option.splits prod.splits)
  have sh: "send_shape r" and o: "unat (sr_base r) \<le> unat (sr_cursor r)" "unat (sr_cursor r) \<le> unat (sr_next r)"
    "unat (sr_next r) \<le> unat (sr_base r) + length (sr_meta r)" and n: "length (sr_meta r) < 2147483648" "0 < length (sr_meta r)"
    using inv by (auto simp: send_inv_def send_shape_def)
  have rg: "unat (sr_base r) < unat c" "unat c \<le> unat (sr_next r)"
    using ack_range [OF _ o(3) n(1) c] o by auto
  have un: "map unaccounted m = map unaccounted (sr_meta r)"
    using account_loop_frame [of "sr_meta r" "sr_bytes_acked r" "sr_base r" c] al by simp
  have lm: "length m = length (sr_meta r)" using arg_cong [OF un, of length] by simp
  have at: "ss_len (send_slot_at r' k) = ss_len (send_slot_at r k)
      \<and> ss_occupied (send_slot_at r' k) = ss_occupied (send_slot_at r k)
      \<and> ss_last (send_slot_at r' k) = ss_last (send_slot_at r k)" for k
    using unaccounted_nth [OF un, of "k mod length (sr_meta r)"] n(2) by (simp add: send_slot_at_def r' lm)
  then have body: "send_body_at r' k = send_body_at r k" for k by (simp add: send_body_at_def r' lm)
  have "unat (ss_len x) \<le> sr_slot_len r" if "x \<in> set m" for x
  proof -
    from that obtain j where "j < length (sr_meta r)" "x = m ! j" by (auto simp: in_set_conv_nth lm)
    then show ?thesis using unaccounted_nth [OF un, of j] sh by (simp add: send_shape_def)
  qed
  then have sh': "send_shape r'" using sh by (simp add: send_shape_def r' lm)
  have "seq_lt (sr_cursor r) c \<longleftrightarrow> unat (sr_cursor r) < unat c"
    by (rule send_inv_seq_lt [of "sr_base r" _ _ "length (sr_meta r)"]) (use o rg n in auto)
  then have "send_inv r'" using sh' o rg by (simp add: send_inv_def r' lm)
  moreover have "send_abs r' = (\<lambda>k. if unat c \<le> k then send_abs r k else None)"
    using at body rg by (auto simp: send_abs_def r' fun_eq_iff)
  ultimately show ?thesis using rg by (simp add: r' lm)
qed

lemma trigger_window:
  assumes "\<not> seq_lt t b" "\<not> seq_ge t n" "unat b < unat n"
  shows "unat t \<in> {unat b..<unat n}"
proof -
  have x: "unat (t - b) \<le> 2147483648" "2147483648 \<le> unat (t - n)"
    using assms(1,2) by (auto simp: seq_lt_unat seq_ge_unat)
  have w: "unat (n - b) = unat n - unat b" using assms(3) by (simp add: unat_sub_if')
  have lt: "unat (t - b) < unat (n - b)"
  proof (rule ccontr)
    assume "\<not> ?thesis"
    then have "unat (t - n) = unat (t - b) - unat (n - b)" using unat_diff_offsets [of n b t] by simp
    then show False using x w assms(3) by linarith
  qed
  have "unat (b + of_nat (unat (t - b))) = unat b + unat (t - b)"
    using lt w unat_lt_u32 [of n] by (intro unat_add_of_nat_u32) linarith
  then have "unat t = unat b + unat (t - b)" by simp
  then show ?thesis using lt w assms(3) by simp
qed

text \<open>
  An acknowledgement can only retire fragments: those below the new base, and the one it names as
  its trigger. Everything else stays as queued.
\<close>

lemma on_ack_spec:
  assumes inv: "send_inv r" and a: "on_ack r ack now = (r', sample)"
  shows "send_inv r' \<and> sr_next r' = sr_next r \<and> length (sr_meta r') = length (sr_meta r)
    \<and> unat (sr_base r) \<le> unat (sr_base r') \<and> sr_channel r' = sr_channel r
    \<and> (\<forall>k. send_abs r' k = None \<or> send_abs r' k = send_abs r k)
    \<and> (\<forall>k. unat (sr_base r') \<le> k \<and> k \<noteq> unat (ak_trigger_seq ack) \<longrightarrow> send_abs r' k = send_abs r k)"
proof -
  define r1 where "r1 = ack_frontier r ack"
  define r2 where "r2 = (if ak_nack ack \<and> ak_trigger_channel ack = sr_channel r1
      then r1\<lparr>sr_nack_below := Some (ak_trigger_seq ack)\<rparr> else r1)"
  note s1 = ack_frontier_spec [OF inv r1_def]
  have same: "send_slot_at r2 = send_slot_at r1" "send_body_at r2 = send_body_at r1"
    "sr_base r2 = sr_base r1" "sr_next r2 = sr_next r1" "sr_meta r2 = sr_meta r1" "sr_channel r2 = sr_channel r1"
    by (auto simp: r2_def send_slot_at_def send_body_at_def fun_eq_iff)
  have abs2: "send_abs r2 = send_abs r1" by (rule send_abs_cong) (simp_all add: same)
  have "send_inv r1" using s1 by blast
  then have inv2: "send_inv r2" by (simp add: r2_def send_inv_def send_shape_def)
  let ?t = "ak_trigger_seq ack" and ?i = "send_index r2 (ak_trigger_seq ack)"
  have n: "0 < length (sr_meta r2)" "length (sr_meta r2) < 2147483648"
    using inv2 by (auto simp: send_inv_def send_shape_def)
  show ?thesis
  proof (cases "r' = r2")
    case True
    then show ?thesis using s1 inv2 abs2 by (auto simp: same)
  next
    case False
    then obtain slot where slot: "slot = send_slot_at r2 (unat ?t)"
      and r': "r' = r2\<lparr>sr_meta := (sr_meta r2)[unat ?t mod length (sr_meta r2) := slot\<lparr>ss_occupied := False\<rparr>]\<rparr>"
      and rg: "\<not> seq_lt ?t (sr_base r)" "\<not> seq_ge ?t (sr_next r2)"
      using a n(1) unfolding on_ack_def Let_def r1_def [symmetric] r2_def [symmetric]
      by (auto simp: get_at_def send_index_def send_slot_at_def split: if_splits)
    let ?e = "slot\<lparr>ss_occupied := False\<rparr>"
    have m: "sr_meta r' = (sr_meta r2)[unat ?t mod length (sr_meta r2) := ?e]" "sr_bodies r' = sr_bodies r2"
      "sr_slot_len r' = sr_slot_len r2" "sr_fragment_capacity r' = sr_fragment_capacity r2" "sr_channel r' = sr_channel r2"
      "sr_base r' = sr_base r2" "sr_next r' = sr_next r2" "sr_cursor r' = sr_cursor r2"
      by (simp_all add: r')
    have len: "ss_len ?e = ss_len (send_slot_at r2 (unat ?t))" by (simp add: slot)
    note at = send_at_update [OF n(1) len m(1-3)]
    have sh': "send_shape r'" using _ len m(1-5) by (rule send_shape_update) (use inv2 in \<open>simp add: send_inv_def\<close>)
    then have inv': "send_inv r'" using inv2 by (simp add: send_inv_def m)
    have o: "unat (sr_base r) \<le> unat (sr_base r2)" "unat (sr_base r2) \<le> unat (sr_next r2)"
      "unat (sr_next r2) \<le> unat (sr_base r) + length (sr_meta r2)"
      using s1 inv inv2 by (auto simp: same send_inv_def)
    have hit: "k = unat ?t" if k: "k mod length (sr_meta r2) = unat ?t mod length (sr_meta r2)"
      "unat (sr_base r2) \<le> k" "k < unat (sr_next r2)" for k
    proof -
      have "unat ?t \<in> {unat (sr_base r)..<unat (sr_next r2)}"
        by (rule trigger_window [OF rg]) (use o k in linarith)
      then show ?thesis using k o by (intro mod_window_inj [OF k(1), of "unat (sr_base r)"]) auto
    qed
    have abs': "send_abs r' k = send_abs r1 k" if "k \<noteq> unat ?t" for k
    proof (cases "unat (sr_base r2) \<le> k \<and> k < unat (sr_next r2)")
      case True
      then have "send_slot_at r' k = send_slot_at r1 k" using hit that at(1) [of k] by (auto simp: same)
      then show ?thesis using at(2) [of k] by (simp add: send_abs_def m same)
    qed (auto simp: send_abs_def m same)
    moreover have "send_abs r' (unat ?t) = None" using at(1) [of "unat ?t"] by (simp add: send_abs_def)
    ultimately have "(\<forall>k. send_abs r' k = None \<or> send_abs r' k = send_abs r k)
      \<and> (\<forall>k. unat (sr_base r') \<le> k \<and> k \<noteq> unat ?t \<longrightarrow> send_abs r' k = send_abs r k)"
      using s1 by (auto simp: m same) metis
    then show ?thesis using inv' s1 by (simp add: m same)
  qed
qed

end
