(* ===== verification/Send_Delivery.thy ===== *)
theory Send_Delivery
  imports Send_Ring
begin

text \<open>
  What the send ring promises: queued fragments are never overwritten while in flight, every
  emitted datagram is the data packet of a queued fragment, a pass emits at most the outstanding
  cap, and acknowledgements only retire fragments.
\<close>

section \<open>The ring as a transition system\<close>

definition send_fresh :: "send_ring \<Rightarrow> bool" where
  "send_fresh r \<longleftrightarrow> (\<exists>bodies n storage_len cap channel. n < 2147483648
     \<and> send_new_with_capacity bodies (replicate n send_slot_default) storage_len cap channel = Inr r)"

inductive send_step :: "send_ring \<Rightarrow> send_ring \<Rightarrow> bool" where
  se_enqueue: "wf_message m \<Longrightarrow> send_enqueue r m = (r', res) \<Longrightarrow>
    unat (sr_next r) + message_fragment_count m (sr_fragment_capacity r) < 4294967296 \<Longrightarrow> send_step r r'"
| se_poll: "poll_send r now srtt lvl out = (r', out', res) \<Longrightarrow> send_step r r'"
| se_ack: "on_ack r ack now = (r', sample) \<Longrightarrow> send_step r r'"
| se_pass: "send_step r (begin_pass r)"
| se_discard: "discard_pending r = (r', dropped) \<Longrightarrow> send_step r r'"
| se_capacity: "set_fragment_capacity r cap = (r', ok) \<Longrightarrow> send_step r r'"

lemma send_fresh_inv: "send_fresh r \<Longrightarrow> send_inv r"
  by (auto simp: send_fresh_def send_new_with_capacity_def usize_checked_mul_def send_inv_def send_shape_def
      send_slot_default_def split: if_splits)

lemma send_enqueue_refused: "window_free r < message_fragment_count m (sr_fragment_capacity r) \<Longrightarrow>
  send_enqueue r m = (r, Inl BufferTooSmall)"
  by (simp add: send_enqueue_def Let_def)

lemma begin_pass_inv: "send_inv r \<Longrightarrow> send_inv (begin_pass r)"
  by (simp add: begin_pass_def send_inv_def send_shape_def)

lemma discard_inv: "send_inv r \<Longrightarrow> send_inv (fst (discard_pending r))"
  by (auto simp: discard_pending_def send_inv_def send_shape_def send_slot_default_def)

lemma set_capacity_inv: "send_inv r \<Longrightarrow> send_inv (fst (set_fragment_capacity r cap))"
  by (auto simp: set_fragment_capacity_def can_set_fragment_capacity_def send_inv_def send_shape_def)

interpretation send_sys: invariant_system send_fresh send_step send_inv
proof
  show "send_inv r" if "send_fresh r" for r using that by (rule send_fresh_inv)
  show "send_inv r'" if "send_inv r" "send_step r r'" for r r'
    using that(2)
  proof (cases rule: send_step.cases)
    case (se_enqueue m res)
    show ?thesis
    proof (cases "window_free r < message_fragment_count m (sr_fragment_capacity r)")
      case True
      then show ?thesis using se_enqueue that(1) send_enqueue_refused by simp
    next
      case False
      then show ?thesis
        using se_enqueue send_enqueue_ok [OF that(1) se_enqueue(1) refl] by auto
    qed
  next
    case (se_poll now srtt lvl out out' res)
    then show ?thesis using poll_send_spec [OF that(1)] by (auto simp: scan_keeps_def)
  next
    case (se_ack ack now sample)
    then show ?thesis using on_ack_spec [OF that(1)] by blast
  next
    case se_pass
    then show ?thesis using begin_pass_inv that(1) by simp
  next
    case (se_discard dropped)
    then show ?thesis using discard_inv [OF that(1)] by simp
  next
    case (se_capacity cap ok)
    then show ?thesis using set_capacity_inv [OF that(1), of cap] by simp
  qed
qed

section \<open>Driving a pass\<close>

text \<open>The shell's loop: poll until nothing is emitted, at most \<open>n\<close> times; the datagrams in order.\<close>

fun drain :: "nat \<Rightarrow> send_ring \<Rightarrow> f64 \<Rightarrow> f64 \<Rightarrow> nat \<Rightarrow> bytes \<Rightarrow> send_ring \<times> bytes list" where
  "drain 0 r now srtt lvl out = (r, [])"
| "drain (Suc n) r now srtt lvl out =
     (case poll_send r now srtt lvl out of
        (r', out', Some (Inr w)) \<Rightarrow>
          let d = drain n r' now srtt lvl out' in (fst d, take w out' # snd d)
      | (r', _, _) \<Rightarrow> (r', []))"

lemma drain_cap:
  "send_inv r \<Longrightarrow> snd (drain n r now srtt lvl out) \<noteq> [] \<Longrightarrow>
   unat (sr_outstanding r) + length (snd (drain n r now srtt lvl out)) \<le> 100"
proof (induction n arbitrary: r out)
  case (Suc n)
  obtain r' out' res where p: "poll_send r now srtt lvl out = (r', out', res)" by (cases "poll_send r now srtt lvl out") auto
  from Suc.prems(2) p obtain w where w: "res = Some (Inr w)" by (auto split: option.splits sum.splits)
  note sp = poll_send_spec [OF Suc.prems(1) p]
  then obtain c where c: "emits r now srtt r' out' w c" using w by blast
  have "send_inv r'" using sp by (simp add: scan_keeps_def)
  then show ?case
    using Suc.IH [of r' out'] c p w
    by (cases "snd (drain n r' now srtt lvl out') = []") (auto simp: emits_def Let_def)
qed simp

lemma drain_packets:
  "send_inv r \<Longrightarrow> p \<in> set (snd (drain n r now srtt lvl out)) \<Longrightarrow>
   \<exists>c b l. send_abs r (unat c) = Some (b, l)
     \<and> parse p = Inr (PData \<lparr>d_channel = sr_channel r, d_seq = c, d_last = l, d_body = b\<rparr>)"
proof (induction n arbitrary: r out)
  case (Suc n)
  obtain r' out' res where q: "poll_send r now srtt lvl out = (r', out', res)" by (cases "poll_send r now srtt lvl out") auto
  from Suc.prems(2) q obtain w where w: "res = Some (Inr w)" by (auto split: option.splits sum.splits)
  note sp = poll_send_spec [OF Suc.prems(1) q]
  then obtain c where c: "emits r now srtt r' out' w c" using w by blast
  have k: "send_inv r'" "send_abs r' = send_abs r" "sr_channel r' = sr_channel r" using sp by (simp_all add: scan_keeps_def)
  from Suc.prems(2) q w consider "p = take w out'" | "p \<in> set (snd (drain n r' now srtt lvl out'))"
    by (auto simp: Let_def)
  then show ?case
  proof cases
    case 1
    then show ?thesis using c unfolding emits_def by blast
  next
    case 2
    then show ?thesis using Suc.IH [OF k(1) 2] k by simp
  qed
qed simp

text \<open>A pass over fragments that wait for their first send emits them all, in order.\<close>

lemma poll_send_pending:
  assumes inv: "send_inv r" and lt: "unat (sr_cursor r) < unat (sr_next r)"
    and slot: "ss_occupied (send_slot_at r (unat (sr_cursor r)))" "\<not> ss_sent (send_slot_at r (unat (sr_cursor r)))"
    and cap: "unat (sr_outstanding r) < 100"
  shows "poll_send r now srtt lvl out = scan_emit r (sr_cursor r) now srtt lvl out"
proof -
  let ?k = "unat (sr_cursor r)"
  have sh: "send_shape r" using inv by (simp add: send_inv_def)
  have ne: "sr_cursor r \<noteq> sr_next r" using lt by auto
  have due: "slot_due r (sr_cursor r) (send_slot_at r ?k) now srtt" using slot(2) by (simp add: slot_due_def)
  have c: "\<not> OUTSTANDING_CAP \<le> sr_outstanding r"
    using cap by (simp add: OUTSTANDING_CAP_def WINDOW_FLOOR_def word_le_nat_alt)
  show ?thesis
    by (rule poll_send_due [OF sh ne slot(1) c due])
qed

lemma scan_emit_ok:
  assumes inv: "send_inv r" and c: "unat c < unat (sr_next r)" and out: "HEADER_LEN + sr_slot_len r \<le> length out"
  shows "\<exists>r' out'. scan_emit r c now srtt lvl out
    = (r', out', Some (Inr (HEADER_LEN + length (send_body_at r (unat c))))) \<and> length out' = length out"
proof -
  let ?d = "\<lparr>d_channel = sr_channel r, d_seq = c, d_last = ss_last (send_slot_at r (unat c)), d_body = send_body_at r (unat c)\<rparr>"
  have sh: "send_shape r" using inv by (simp add: send_inv_def)
  have l: "length (send_body_at r (unat c)) \<le> sr_slot_len r" "length (send_body_at r (unat c)) < 65536"
    using length_send_body [OF sh] send_slot_len [OF sh] unat_lt_u16 by auto
  have "c \<noteq> U32_MAX" using c unat_lt_u32 [of "sr_next r"] by (auto simp: U32_MAX_def)
  then have "encode_data out ?d = Inr (put_at out 0 (data_bytes ?d), HEADER_LEN + length (send_body_at r (unat c)))"
    using sh l out by (simp add: encode_data_def send_shape_def usize_checked_add_def HEADER_LEN_def usize_bound_def)
  moreover have "length (put_at out 0 (data_bytes ?d)) = length out"
    using l out by (intro length_put_at) (simp add: length_data_bytes)
  ultimately show ?thesis by (simp add: scan_emit_def Let_def)
qed

definition pending_datagram :: "send_ring \<Rightarrow> nat \<Rightarrow> bytes \<Rightarrow> bool" where
  "pending_datagram r k p \<longleftrightarrow> (\<exists>b l. send_abs r k = Some (b, l)
     \<and> parse p = Inr (PData \<lparr>d_channel = sr_channel r, d_seq = of_nat k, d_last = l, d_body = b\<rparr>))"

lemma drain_pending:
  assumes "send_inv r" "HEADER_LEN + sr_slot_len r \<le> length out"
    and "\<forall>k. unat (sr_cursor r) \<le> k \<and> k < unat (sr_next r) \<longrightarrow>
      ss_occupied (send_slot_at r k) \<and> \<not> ss_sent (send_slot_at r k)"
    and "unat (sr_next r) - unat (sr_cursor r) = d" "unat (sr_outstanding r) + d \<le> 100" "d \<le> n"
  shows "length (snd (drain n r now srtt lvl out)) = d
    \<and> (\<forall>i < d. pending_datagram r (unat (sr_cursor r) + i) (snd (drain n r now srtt lvl out) ! i))"
  using assms
proof (induction d arbitrary: r out n)
  case 0
  then have e: "sr_cursor r = sr_next r" by (simp add: send_inv_def word_unat_eq_iff)
  show ?case
  proof (cases n)
    case (Suc m)
    then show ?thesis using e by (simp add: poll_send.simps)
  qed simp
next
  case (Suc d)
  then obtain m where n: "n = Suc m" by (cases n) auto
  let ?k = "unat (sr_cursor r)"
  have sh: "send_shape r" and n0: "0 < length (sr_meta r)"
    and o: "unat (sr_base r) \<le> ?k" "?k \<le> unat (sr_next r)" "unat (sr_next r) \<le> unat (sr_base r) + length (sr_meta r)"
    using Suc.prems(1) by (auto simp: send_inv_def send_shape_def)
  have lt: "?k < unat (sr_next r)" using Suc.prems(4) by simp
  have slot: "ss_occupied (send_slot_at r ?k)" "\<not> ss_sent (send_slot_at r ?k)" using Suc.prems(3) lt by auto
  obtain r' out' where e: "scan_emit r (sr_cursor r) now srtt lvl out
      = (r', out', Some (Inr (HEADER_LEN + length (send_body_at r ?k))))" and ol: "length out' = length out"
    using scan_emit_ok [OF Suc.prems(1) lt Suc.prems(2)] by blast
  let ?w = "HEADER_LEN + length (send_body_at r ?k)"
  have p: "poll_send r now srtt lvl out = (r', out', Some (Inr ?w))"
    using poll_send_pending [OF Suc.prems(1) lt slot] Suc.prems(5) e by simp
  note em = scan_emit_spec [OF Suc.prems(1) o(1) lt e]
  have cs: "unat (sr_cursor r + 1) = Suc ?k"
    using unat_add_of_nat_u32 [of "sr_cursor r" 1] lt unat_lt_u32 [of "sr_next r"] by simp
  have fr: "send_inv r'" "send_abs r' = send_abs r" "sr_next r' = sr_next r" "sr_channel r' = sr_channel r"
    "sr_cursor r' = sr_cursor r + 1" "sr_outstanding r' = sat_add (sr_outstanding r) 1"
    "length (sr_meta r') = length (sr_meta r)" using em by auto
  have sl: "sr_slot_len r' = sr_slot_len r"
    using e by (auto simp: scan_emit_def Let_def split: sum.splits)
  have oc: "unat (sat_add (sr_outstanding r) 1) = Suc (unat (sr_outstanding r))"
    using Suc.prems(5) by (simp add: unat_sat_add)
  have keep: "send_slot_at r' j = send_slot_at r j" if "Suc ?k \<le> j" "j < unat (sr_next r)" for j
  proof -
    have "j mod length (sr_meta r) \<noteq> ?k mod length (sr_meta r)"
      using mod_window_inj [of j "length (sr_meta r)" ?k "unat (sr_base r)"] that o by auto
    then show ?thesis using em by auto
  qed
  have "length (snd (drain m r' now srtt lvl out')) = d
    \<and> (\<forall>i < d. pending_datagram r' (unat (sr_cursor r') + i) (snd (drain m r' now srtt lvl out') ! i))"
    using Suc.prems n ol by (intro Suc.IH fr) (auto simp: sl fr cs oc keep)
  moreover have "pending_datagram r ?k (take ?w out')"
    using em slot(1) lt o by (auto simp: pending_datagram_def send_abs_def)
  moreover have "pending_datagram r' = pending_datagram r" by (simp add: pending_datagram_def fr fun_eq_iff)
  ultimately show ?case
    by (auto simp: n p Let_def nth_Cons cs fr split: nat.splits)
qed

section \<open>Properties\<close>

text \<open>
  the window never exceeds the ring, and queueing a message never overwrites a fragment in
  flight. In every reachable state a message that fits the free window is queued whole: the sender
  then holds its fragments under the next sequences, the last one flagged, and everything queued
  before is unchanged.
\<close>

theorem send_enqueue_appends:
  assumes "reachable send_fresh send_step r" "wf_message m"
    and "message_fragment_count m (sr_fragment_capacity r) \<le> window_free r"
    and "unat (sr_next r) + message_fragment_count m (sr_fragment_capacity r) < 4294967296"
  shows "\<exists>r'. send_enqueue r m = (r', Inr (of_nat (message_fragment_count m (sr_fragment_capacity r))))
    \<and> unat (sr_next r') - unat (sr_base r') \<le> length (sr_meta r')
    \<and> send_abs r' = (\<lambda>k. if unat (sr_next r) \<le> k
          \<and> k < unat (sr_next r) + message_fragment_count m (sr_fragment_capacity r)
        then Some (chunk (sr_fragment_capacity r) (k - unat (sr_next r)) (stream m),
                   Suc (k - unat (sr_next r)) = message_fragment_count m (sr_fragment_capacity r))
        else send_abs r k)"
proof -
  have inv: "send_inv r" using assms(1) by (rule send_sys.reachable_inv)
  from send_enqueue_ok [OF inv assms(2) refl assms(3,4)] show ?thesis
    by (auto simp: send_inv_def)
qed

definition demo_send :: send_ring where
  "demo_send = \<lparr>sr_bodies = replicate 16 0, sr_meta = replicate 4 send_slot_default, sr_slot_len = 4,
     sr_fragment_capacity = 4, sr_channel = 0, sr_base = 0, sr_next = 0, sr_cursor = 0, sr_nack_below = None,
     sr_outstanding = 0, sr_stale = 0, sr_bytes_sent = 0, sr_acked = 0, sr_bytes_acked = 0, sr_retransmitted = 0\<rparr>"

definition demo_msg :: message where
  "demo_msg = \<lparr>m_prefix = [0, 0, 0, 5], m_header = [1, 2], m_payload = [3, 4, 5]\<rparr>"

lemma demo_send_fresh: "send_fresh demo_send"
  unfolding send_fresh_def demo_send_def
  by (rule exI [of _ "replicate 16 0"], rule exI [of _ 4], rule exI [of _ 4], rule exI [of _ 4], rule exI [of _ 0])
    (simp add: send_new_with_capacity_def usize_checked_mul_def usize_bound_def CHANNEL_COUNT_def)

lemma demo_send_reachable: "reachable send_fresh send_step demo_send"
  using demo_send_fresh by (rule reach_start)

lemma demo_msg_wf: "wf_message demo_msg" "content demo_msg = [1, 2, 3, 4, 5]"
  by (simp_all add: wf_message_def demo_msg_def content_def to_be32_def)

lemma demo_msg_count: "message_fragment_count demo_msg 4 = 3"
  by (simp add: message_fragment_count_def fragment_count_def total_len_def demo_msg_def of_be32_def
      LENGTH_PREFIX_LEN_def Let_def)

lemma demo_send_params:
  "sr_fragment_capacity demo_send = 4" "sr_next demo_send = 0" "window_free demo_send = 4" "sr_slot_len demo_send = 4"
  "sr_cursor demo_send = 0" "sr_outstanding demo_send = 0"
  by (simp_all add: demo_send_def window_free_def u32_try_from_def send_in_flight_def sat_sub_def Let_def)

theorem send_enqueue_appends_witness:
  "\<exists>r'. send_enqueue demo_send demo_msg = (r', Inr 3) \<and> send_abs r' 2 = Some ([5], True)"
proof -
  have "chunk 4 2 (stream demo_msg) = [5]" by (simp add: chunk_def stream_def demo_msg_def)
  then show ?thesis
    using send_enqueue_appends [OF demo_send_reachable demo_msg_wf(1)]
    by (auto simp: demo_send_params demo_msg_count)
qed

text \<open>The example ring with the example message queued; its first poll emits the first fragment.\<close>

definition demo_sent :: send_ring where
  "demo_sent = fst (send_enqueue demo_send demo_msg)"

lemma demo_enqueued:
  "send_enqueue demo_send demo_msg = (demo_sent, Inr 3)" "send_inv demo_sent" "sr_cursor demo_sent = 0"
  "unat (sr_next demo_sent) = 3" "sr_slot_len demo_sent = 4" "sr_outstanding demo_sent = 0"
  "k < 3 \<Longrightarrow> ss_occupied (send_slot_at demo_sent k) \<and> \<not> ss_sent (send_slot_at demo_sent k)"
  using send_enqueue_ok [OF send_fresh_inv [OF demo_send_fresh] demo_msg_wf(1) refl]
  by (auto simp: demo_send_params demo_msg_count demo_sent_def)

lemma demo_sent_reachable: "reachable send_fresh send_step demo_sent"
  by (rule reach_step [OF demo_send_reachable], rule se_enqueue [OF demo_msg_wf(1) demo_enqueued(1)])
    (simp add: demo_send_params demo_msg_count)

lemma demo_drain:
  "length (snd (drain 3 demo_sent (Fin 0) (Fin 20) 1 (replicate 16 0))) = 3"
  using drain_pending [OF demo_enqueued(2), of "replicate 16 0" 3 3 "Fin 0" "Fin 20" 1]
  by (simp add: demo_enqueued HEADER_LEN_def)

lemma demo_poll:
  "\<exists>r' out' n. poll_send demo_sent (Fin 0) (Fin 20) 1 (replicate 16 0) = (r', out', Some (Inr n))"
  using poll_send_pending [OF demo_enqueued(2), of "Fin 0" "Fin 20" 1 "replicate 16 0"]
    scan_emit_ok [OF demo_enqueued(2), of 0 "replicate 16 0" "Fin 0" "Fin 20" 1]
  by (auto simp: demo_enqueued HEADER_LEN_def)

text \<open>
  no datagram is made up. Every datagram a pass emits is the data packet of a fragment the ring
  holds: it parses back to the channel, a sequence in the window, and exactly the queued body and
  last flag of that sequence.
\<close>

theorem send_pass_authentic:
  assumes "reachable send_fresh send_step r" "p \<in> set (snd (drain n r now srtt lvl out))"
  shows "\<exists>c b l. send_abs r (unat c) = Some (b, l)
     \<and> parse p = Inr (PData \<lparr>d_channel = sr_channel r, d_seq = c, d_last = l, d_body = b\<rparr>)"
  using drain_packets [OF send_sys.reachable_inv [OF assms(1)] assms(2)] .

theorem send_pass_authentic_witness:
  "\<exists>p c b l. p \<in> set (snd (drain 3 demo_sent (Fin 0) (Fin 20) 1 (replicate 16 0)))
    \<and> send_abs demo_sent (unat c) = Some (b, l)
    \<and> parse p = Inr (PData \<lparr>d_channel = sr_channel demo_sent, d_seq = c, d_last = l, d_body = b\<rparr>)"
proof -
  let ?ps = "snd (drain 3 demo_sent (Fin 0) (Fin 20) 1 (replicate 16 0))"
  have p: "?ps ! 0 \<in> set ?ps" using demo_drain by (intro nth_mem) simp
  show ?thesis using send_pass_authentic [OF demo_sent_reachable p] p by blast
qed

text \<open>
  the ceiling on retransmission. However many fragments are pending, stale or named by negative
  acknowledgements, one pass (from \<open>begin_pass\<close> until nothing is emitted) puts at most
  \<open>OUTSTANDING_CAP\<close> = 100 datagrams on the wire.
\<close>

theorem send_pass_capped:
  assumes "reachable send_fresh send_step r"
  shows "length (snd (drain n (begin_pass r) now srtt lvl out)) \<le> unat OUTSTANDING_CAP"
proof -
  have "send_inv (begin_pass r)" using begin_pass_inv send_sys.reachable_inv [OF assms] by blast
  from drain_cap [OF this, of n now srtt lvl out] show ?thesis
    by (cases "snd (drain n (begin_pass r) now srtt lvl out) = []")
      (auto simp: OUTSTANDING_CAP_def WINDOW_FLOOR_def)
qed

theorem send_pass_capped_witness:
  "length (snd (drain 7 (begin_pass demo_send) (Fin 0) (Fin 20) 1 [])) \<le> unat OUTSTANDING_CAP"
  using demo_send_reachable by (rule send_pass_capped)

text \<open>
  the preflight names what the scan emits. Whenever \<open>poll_send\<close> emits, \<open>next_due_len\<close> asked just
  before had answered exactly the length written, so pacer credit is charged for the right bytes.
\<close>

theorem send_preflight_sound:
  assumes "reachable send_fresh send_step r" "poll_send r now srtt lvl out = (r', out', Some (Inr n))"
  shows "next_due_len r now srtt lvl = Some n"
  using poll_send_spec [OF send_sys.reachable_inv [OF assms(1)] assms(2)]
  by (auto simp: emits_def next_due_len_def)

theorem send_preflight_sound_witness: "\<exists>n. next_due_len demo_sent (Fin 0) (Fin 20) 1 = Some n"
  using demo_poll send_preflight_sound [OF demo_sent_reachable] by blast

text \<open>
  acknowledgements retire and never corrupt. Applying one leaves the next sequence alone, never
  moves the base back, and every fragment it does not retire (below the base, or its trigger) is
  kept as queued.
\<close>

theorem send_ack_retires:
  assumes "reachable send_fresh send_step r" "on_ack r ack now = (r', sample)"
  shows "sr_next r' = sr_next r \<and> unat (sr_base r) \<le> unat (sr_base r') \<and> unat (sr_base r') \<le> unat (sr_next r')
    \<and> (\<forall>k. send_abs r' k = None \<or> send_abs r' k = send_abs r k)
    \<and> (\<forall>k. unat (sr_base r') \<le> k \<and> k \<noteq> unat (ak_trigger_seq ack) \<longrightarrow> send_abs r' k = send_abs r k)"
  using on_ack_spec [OF send_sys.reachable_inv [OF assms(1)] assms(2)] by (auto simp: send_inv_def)

definition demo_ack :: ack_pkt where
  "demo_ack = \<lparr>ak_kind = AK_Ack, ak_nack = False, ak_trigger_channel = 0, ak_trigger_seq = 1,
     ak_cumulative = replicate 19 1, ak_reported = 19\<rparr>"

theorem send_ack_retires_witness:
  "sr_next (fst (on_ack demo_sent demo_ack (Fin 5))) = sr_next demo_sent
    \<and> unat (sr_base (fst (on_ack demo_sent demo_ack (Fin 5)))) \<le> 3
    \<and> send_abs (fst (on_ack demo_sent demo_ack (Fin 5))) 3 = send_abs demo_sent 3"
proof -
  let ?r = "fst (on_ack demo_sent demo_ack (Fin 5))"
  note a = send_ack_retires [OF demo_sent_reachable prod.collapse [symmetric], of demo_ack "Fin 5"]
  have "unat (sr_next ?r) = 3" using a demo_enqueued(4) by (elim conjE) simp
  then have "unat (sr_base ?r) \<le> 3" using a by (elim conjE) simp
  moreover have "3 \<noteq> unat (ak_trigger_seq demo_ack)" by (simp add: demo_ack_def)
  ultimately show ?thesis using a by blast
qed

text \<open>
  the retransmission timeout of a fragment lies between 80 and 1030 milliseconds for every
  finite round-trip estimate, negative ones included, and every retry count.
\<close>

theorem send_rto_bounded:
  assumes "is_finite srtt"
  shows "fle (Fin 80) (rto_ms n srtt) \<and> fle (rto_ms n srtt) (Fin 1030)"
  using rto_bounds [of srtt n] assms by (cases srtt) auto

theorem send_rto_bounded_witness: "fle (Fin 80) (rto_ms 65535 (Fin 20)) \<and> fle (rto_ms 65535 (Fin 20)) (Fin 1030)"
  by (rule send_rto_bounded) simp

text \<open>
  abandoning pending media preserves the sequence space. \<open>discard_pending\<close> empties the window and
  reopens all of it, reports how many fragments were dropped, and leaves the next sequence where it
  was, so no sequence is used twice.
\<close>

theorem send_discard_reopens:
  assumes "reachable send_fresh send_step r"
  shows "let (r', dropped) = discard_pending r in
    sr_next r' = sr_next r \<and> send_abs r' = Map.empty \<and> window_free r' = length (sr_meta r)
    \<and> unat dropped = unat (sr_next r) - unat (sr_base r)"
proof -
  have inv: "send_inv r" using assms by (rule send_sys.reachable_inv)
  then have "unat (sr_base r) \<le> unat (sr_next r)" by (auto simp: send_inv_def)
  then have "unat (send_in_flight r) = unat (sr_next r) - unat (sr_base r)"
    by (simp add: send_in_flight_def unat_sub_if')
  moreover have "send_abs (fst (discard_pending r)) = Map.empty"
    by (auto simp: send_abs_def discard_pending_def)
  ultimately show ?thesis
    using window_free_eq [OF discard_inv [OF inv]] by (simp add: discard_pending_def Let_def)
qed

theorem send_discard_reopens_witness:
  "window_free (fst (discard_pending demo_sent)) = length (sr_meta demo_sent)"
  using send_discard_reopens [OF demo_sent_reachable] by (simp add: split_beta Let_def)

text \<open>
  the channel jams at the end of the sequence space. Sequence \<open>u32::MAX\<close> is refused by the packet
  encoder, yet the ring assigns it; once the scan stands on that fragment every poll returns the
  same error and leaves the ring as it was, so nothing behind it is ever emitted.
\<close>

theorem send_sequence_max_jams:
  assumes "send_shape r" "sr_cursor r = U32_MAX" "sr_next r \<noteq> U32_MAX"
    and "ss_occupied (send_slot_at r (unat U32_MAX))" "\<not> ss_sent (send_slot_at r (unat U32_MAX))"
    and "sr_outstanding r < OUTSTANDING_CAP"
  shows "poll_send r now srtt lvl out = (r, out, Some (Inl Malformed))"
proof -
  have "poll_send r now srtt lvl out = scan_emit r U32_MAX now srtt lvl out"
    using poll_send_due [of r now srtt lvl out] assms by (simp add: slot_due_def not_le)
  then show ?thesis by (simp add: scan_emit_def encode_data_def Let_def)
qed

definition demo_max :: send_ring where
  "demo_max = \<lparr>sr_bodies = [0], sr_meta = [send_slot_default\<lparr>ss_occupied := True\<rparr>], sr_slot_len = 1,
     sr_fragment_capacity = 1, sr_channel = 0, sr_base = U32_MAX, sr_next = 0, sr_cursor = U32_MAX,
     sr_nack_below = None, sr_outstanding = 0, sr_stale = 0, sr_bytes_sent = 0, sr_acked = 0, sr_bytes_acked = 0,
     sr_retransmitted = 0\<rparr>"

theorem send_sequence_max_jams_witness:
  "poll_send demo_max (Fin 0) (Fin 20) 1 [0, 0] = (demo_max, [0, 0], Some (Inl Malformed))"
  by (rule send_sequence_max_jams)
    (simp_all add: demo_max_def send_shape_def send_slot_at_def send_slot_default_def usize_bound_def
      CHANNEL_COUNT_def OUTSTANDING_CAP_def WINDOW_FLOOR_def U32_MAX_def)

end
