(* ===== verification/Ring_Transfer.thy ===== *)
theory Ring_Transfer
  imports Recv_Delivery Send_Delivery
begin

text \<open>
  The two rings composed over the packet format: what is queued on one side comes out of the other,
  whatever order the datagrams arrive in and however often.
\<close>

text \<open>The receiving side of one cleartext datagram of the channel.\<close>

definition wire_in :: "bytes \<Rightarrow> recv_ring \<Rightarrow> recv_ring" where
  "wire_in p r = (case parse p of Inr (PData d) \<Rightarrow> fst (recv_store r (d_seq d) (d_body d)) | _ \<Rightarrow> r)"

lemma wire_in_arrive:
  assumes "\<And>i. i \<in> set order \<Longrightarrow> \<exists>ch l. parse (ps ! i)
      = Inr (PData \<lparr>d_channel = ch, d_seq = base + of_nat i, d_last = l, d_body = bs ! i\<rparr>)"
  shows "fold wire_in (map ((!) ps) order) r = arrive r base bs order"
  using assms
proof (induction order arbitrary: r)
  case (Cons i "is")
  obtain ch l where "parse (ps ! i) = Inr (PData \<lparr>d_channel = ch, d_seq = base + of_nat i, d_last = l, d_body = bs ! i\<rparr>)"
    using Cons.prems [of i] by auto
  then have "wire_in (ps ! i) r = fst (recv_store r (base + of_nat i) (bs ! i))" by (simp add: wire_in_def)
  then show ?case using Cons by simp
qed simp

lemma arrived_message:
  assumes inv: "ring_inv r" and wf: "wf_message m" and cap: "4 \<le> cap" "cap \<le> rr_slot_len r" "cap < 65536"
    and N: "message_fragment_count m cap \<le> recv_slots r"
    and nw: "unat (rr_delivered r) + message_fragment_count m cap + recv_slots r < 4294967296"
    and none: "\<forall>i < message_fragment_count m cap. recv_abs r (unat (rr_delivered r) + i) = None"
    and order: "set order = {0..<message_fragment_count m cap}" and room: "length (content m) \<le> length buf"
  shows "snd (recv_take_message (arrive r (rr_delivered r) (fragments cap m) order) buf)
    = (put_at buf 0 (content m), Some (Inr (length (content m))))"
proof -
  let ?bs = "fragments cap m" and ?r = "arrive r (rr_delivered r) (fragments cap m) order"
  have fit: "\<forall>b \<in> set ?bs. length b \<le> rr_slot_len r \<and> length b < 65536"
    using run_fragments_fit [of _ cap "[m]"] cap(2,3) by fastforce
  have ok: "\<forall>i < length ?bs. recv_abs r (unat (rr_delivered r) + i) \<in> {None, Some (?bs ! i)}" using none by simp
  have arr: "ring_inv ?r" "rr_delivered ?r = rr_delivered r" "recv_slots ?r = recv_slots r"
    "recv_abs ?r = recv_abs r ++ arrived (unat (rr_delivered r)) ?bs {0..<length ?bs}"
    using arrive_abs [OF inv _ _ fit ok, of order] order N by auto
  have "recv_abs ?r (unat (rr_delivered ?r) + i) = Some (chunk cap i (stream m))"
    if "i < message_fragment_count m cap" for i
    using that by (simp add: arr arrived_def map_add_def)
  then show ?thesis
    using recv_take_message_complete [OF arr(1) wf cap(1), of buf] arr(2,3) nw room by auto
qed

text \<open>
  C1: end to end. A message queued on a send ring, scanned out as datagrams, carried over the packet
  format and stored by the peer's receive ring in any order and any multiplicity is read back by
  \<open>take_message\<close> with exactly its content.
\<close>

theorem transfer_any_order:
  assumes "reachable send_fresh send_step s" "reachable recv_fresh recv_step r" "wf_message m"
    and "N = message_fragment_count m cap" "cap = sr_fragment_capacity s"
    and "N \<le> window_free s" "N \<le> 100" "N \<le> recv_slots r"
    and "sr_cursor s = sr_next s" "sr_outstanding s = 0" "rr_delivered r = sr_next s"
    and "4 \<le> cap" "cap \<le> rr_slot_len r" "unat (sr_next s) + N + recv_slots r < 4294967296"
    and "\<forall>i < N. recv_abs r (unat (rr_delivered r) + i) = None"
    and "HEADER_LEN + sr_slot_len s \<le> length out" "length (content m) \<le> length buf"
    and "set order = {0..<N}"
  shows "\<exists>s'. send_enqueue s m = (s', Inr (of_nat N))
    \<and> (let ps = snd (drain N s' now srtt lvl out) in
         length ps = N
         \<and> snd (recv_take_message (fold wire_in (map ((!) ps) order) r) buf)
           = (put_at buf 0 (content m), Some (Inr (length (content m)))))"
proof -
  have invs: "send_inv s" using assms(1) by (rule send_sys.reachable_inv)
  have invr: "ring_inv r" using assms(2) by (rule recv_sys.reachable_inv)
  have "sr_fragment_capacity s \<le> 65535" using invs by (simp add: send_inv_def send_shape_def)
  then have cap: "cap < 65536" using assms(5) by simp
  obtain s' where s': "send_enqueue s m = (s', Inr (of_nat N))" "send_inv s'" "sr_cursor s' = sr_next s"
    "sr_slot_len s' = sr_slot_len s" "sr_outstanding s' = 0" "unat (sr_next s') = unat (sr_next s) + N"
    "\<forall>k. unat (sr_next s) \<le> k \<and> k < unat (sr_next s) + N \<longrightarrow> ss_occupied (send_slot_at s' k) \<and> \<not> ss_sent (send_slot_at s' k)"
    "send_abs s' = (\<lambda>k. if unat (sr_next s) \<le> k \<and> k < unat (sr_next s) + N
        then Some (chunk cap (k - unat (sr_next s)) (stream m), Suc (k - unat (sr_next s)) = N) else send_abs s k)"
    using send_enqueue_ok [OF invs assms(3), of N] assms(4-6,9,10,14) by auto
  let ?ps = "snd (drain N s' now srtt lvl out)"
  have d: "length ?ps = N" "\<And>i. i < N \<Longrightarrow> pending_datagram s' (unat (sr_next s) + i) (?ps ! i)"
    using drain_pending [OF s'(2), of out N N now srtt lvl] assms(7,16) s' by auto
  have "fold wire_in (map ((!) ?ps) order) r = arrive r (rr_delivered r) (fragments cap m) order"
  proof (rule wire_in_arrive)
    fix i assume "i \<in> set order"
    then have i: "i < N" using assms(18) by simp
    then show "\<exists>ch l. parse (?ps ! i) = Inr (PData \<lparr>d_channel = ch, d_seq = rr_delivered r + of_nat i, d_last = l,
        d_body = fragments cap m ! i\<rparr>)"
      using d(2) [OF i] assms(4,11) by (auto simp: pending_datagram_def s'(8))
  qed
  moreover have "snd (recv_take_message (arrive r (rr_delivered r) (fragments cap m) order) buf)
      = (put_at buf 0 (content m), Some (Inr (length (content m))))"
    by (rule arrived_message [OF invr assms(3,12,13) cap]) (use assms in auto)
  ultimately show ?thesis using s'(1) d(1) by (simp add: Let_def)
qed

theorem transfer_any_order_witness:
  "\<exists>s'. send_enqueue demo_send demo_msg = (s', Inr 3)
    \<and> snd (recv_take_message (fold wire_in (map ((!) (snd (drain 3 s' (Fin 0) (Fin 20) 1 (replicate 16 0)))) [2, 0, 2, 1])
        demo_ring) (replicate 5 0)) = ([1, 2, 3, 4, 5], Some (Inr 5))"
proof -
  have "\<exists>s'. send_enqueue demo_send demo_msg = (s', Inr (of_nat 3))
    \<and> (let ps = snd (drain 3 s' (Fin 0) (Fin 20) 1 (replicate 16 0)) in
         length ps = 3
         \<and> snd (recv_take_message (fold wire_in (map ((!) ps) [2, 0, 2, 1]) demo_ring) (replicate 5 0))
           = (put_at (replicate 5 0) 0 (content demo_msg), Some (Inr (length (content demo_msg)))))"
    by (rule transfer_any_order [OF demo_send_reachable demo_reachable demo_msg_wf(1), of 3 4])
      (auto simp: demo_send_params demo_msg_count demo_msg_wf demo_params demo_empty HEADER_LEN_def)
  then obtain s' where s': "send_enqueue demo_send demo_msg = (s', Inr (of_nat 3))"
    "snd (recv_take_message (fold wire_in (map ((!) (snd (drain 3 s' (Fin 0) (Fin 20) 1 (replicate 16 0)))) [2, 0, 2, 1])
        demo_ring) (replicate 5 0))
      = (put_at (replicate 5 0) 0 (content demo_msg), Some (Inr (length (content demo_msg))))"
    unfolding Let_def by blast
  moreover have "put_at (replicate 5 0) 0 (content demo_msg) = [1, 2, 3, 4, 5]" "length (content demo_msg) = 5"
    by (simp_all add: demo_msg_wf put_at_def)
  ultimately show ?thesis by (intro exI [of _ s'] conjI) (simp_all only: of_nat_numeral)
qed

end
