(* ===== verification/Send_Once.thy ===== *)
theory Send_Once
  imports Send_Delivery
begin

text \<open>
  The fast-retransmission latch of the send ring over whole runs (\<open>core/src/send.rs\<close>): a run carries the
  log of the datagrams it put on the wire, each with what made it due, and the log shows that a
  fragment is sent for the first time once, fast-retransmitted once, and otherwise repeated only after
  its timeout, whatever acknowledgements, passes, messages and path changes happen in between.
\<close>

section \<open>Runs with a log of the datagrams sent\<close>

text \<open>
  A log entry: the sequence read back from the datagram, whether the fragment had been sent before,
  whether a negative acknowledgement asked for it, and whether its timeout had passed.
\<close>

record emission =
  em_seq :: u32
  em_again :: bool
  em_nacked :: bool
  em_timed :: bool

definition wire_seq :: "bytes \<Rightarrow> u32" where
  "wire_seq p = (case parse p of Inr (PData d) \<Rightarrow> d_seq d | _ \<Rightarrow> 0)"

definition emission_of :: "send_ring \<Rightarrow> f64 \<Rightarrow> f64 \<Rightarrow> bytes \<Rightarrow> emission" where
  "emission_of r now srtt p =
     (let c = wire_seq p; slot = send_slot_at r (unat c) in
      \<lparr>em_seq = c, em_again = ss_sent slot, em_nacked = slot_nacked r c slot,
       em_timed = flt (rto_ms (ss_retransmits slot) srtt) (fsub now (ss_last_sent_ms slot))\<rparr>)"

definition log_fresh :: "send_ring \<times> emission list \<Rightarrow> bool" where
  "log_fresh x \<longleftrightarrow> send_fresh (fst x) \<and> snd x = []"

inductive log_step :: "send_ring \<times> emission list \<Rightarrow> send_ring \<times> emission list \<Rightarrow> bool" where
  ls_emit: "poll_send r now srtt lvl out = (r', out', Some (Inr n)) \<Longrightarrow>
    log_step (r, es) (r', es @ [emission_of r now srtt (take n out')])"
| ls_quiet: "poll_send r now srtt lvl out = (r', out', res) \<Longrightarrow> (\<And>n. res \<noteq> Some (Inr n)) \<Longrightarrow> log_step (r, es) (r', es)"
| ls_enqueue: "wf_message m \<Longrightarrow> send_enqueue r m = (r', res) \<Longrightarrow>
    unat (sr_next r) + message_fragment_count m (sr_fragment_capacity r) < 4294967296 \<Longrightarrow> log_step (r, es) (r', es)"
| ls_ack: "on_ack r ack now = (r', sample) \<Longrightarrow> log_step (r, es) (r', es)"
| ls_pass: "log_step (r, es) (begin_pass r, es)"
| ls_discard: "discard_pending r = (r', dropped) \<Longrightarrow> log_step (r, es) (r', es)"
| ls_capacity: "set_fragment_capacity r cap = (r', ok) \<Longrightarrow> log_step (r, es) (r', es)"

text \<open>The log only watches: its steps are the steps of the ring.\<close>

lemma log_step_ring: "log_step x y \<Longrightarrow> send_step (fst x) (fst y)"
  by (induction rule: log_step.induct) (auto intro: send_step.intros)

section \<open>The latch persists\<close>

definition latches :: "send_slot \<Rightarrow> bool \<times> bool" where
  "latches slot = (ss_sent slot, ss_nack_resent slot)"

text \<open>Every fragment still in the window keeps the flags it had.\<close>

definition keeps_latch :: "send_ring \<Rightarrow> send_ring \<Rightarrow> bool" where
  "keeps_latch r r' \<longleftrightarrow> unat (sr_next r) \<le> unat (sr_next r') \<and> unat (sr_base r) \<le> unat (sr_base r')
     \<and> (\<forall>k. unat (sr_base r') \<le> k \<and> k < unat (sr_next r) \<longrightarrow>
          (ss_sent (send_slot_at r k) \<longrightarrow> ss_sent (send_slot_at r' k))
          \<and> (ss_nack_resent (send_slot_at r k) \<longrightarrow> ss_nack_resent (send_slot_at r' k)))"

lemma keeps_latch_refl [simp]: "keeps_latch r r"
  by (simp add: keeps_latch_def)

lemma keeps_latch_meta:
  assumes "map latches (sr_meta r') = map latches (sr_meta r)" "0 < length (sr_meta r)"
    and "sr_next r' = sr_next r" "unat (sr_base r) \<le> unat (sr_base r')"
  shows "keeps_latch r r'"
proof -
  have l: "length (sr_meta r') = length (sr_meta r)" using arg_cong [OF assms(1), of length] by simp
  have "latches (send_slot_at r' k) = latches (send_slot_at r k)" for k
    using arg_cong [OF assms(1), of "\<lambda>xs. xs ! (k mod length (sr_meta r))"] assms(2) by (simp add: send_slot_at_def l)
  then show ?thesis using assms(3,4) by (simp add: keeps_latch_def latches_def)
qed

lemma keeps_latch_enqueue:
  assumes inv: "send_inv r" and wf: "wf_message m" and e: "send_enqueue r m = (r', res)"
    and nw: "unat (sr_next r) + message_fragment_count m (sr_fragment_capacity r) < 4294967296"
  shows "keeps_latch r r'"
proof (cases "window_free r < message_fragment_count m (sr_fragment_capacity r)")
  case True
  then show ?thesis using e send_enqueue_refused by simp
next
  case False
  let ?cap = "sr_fragment_capacity r" and ?N = "message_fragment_count m (sr_fragment_capacity r)"
  let ?R = "put_fragments r m ?cap 0 ?N"
  have sh: "send_shape r" and o: "unat (sr_base r) \<le> unat (sr_next r)" using inv by (auto simp: send_inv_def)
  have cap: "0 < ?cap" "?cap \<le> sr_slot_len r" "?cap \<le> 65535" using sh by (auto simp: send_shape_def)
  have win: "unat (sr_next r) + ?N \<le> unat (sr_base r) + length (sr_meta r)" using False window_free_eq [OF inv] o inv by (auto simp: send_inv_def)
  have r': "r' = ?R\<lparr>sr_next := sr_next r + of_nat ?N\<rparr>"
    using e enqueue_loop_all [OF sh wf cap, of 0 ?N] False nw by (auto simp: send_enqueue_def Let_def u32_try_from_def)
  have "send_slot_at r' k = send_slot_at r k" if "unat (sr_base r) \<le> k" "k < unat (sr_next r)" for k
    using put_fragments_slots [OF sh cap(2,3) win, of m] that by (simp add: r' send_slot_at_def)
  moreover have "unat (sr_next r') = unat (sr_next r) + ?N" "sr_base r' = sr_base r"
    using unat_add_of_nat_u32 [OF nw] by (simp_all add: r')
  ultimately show ?thesis by (simp add: keeps_latch_def)
qed

lemma latches_unaccounted: "latches (unaccounted slot) = latches slot"
  by (simp add: latches_def unaccounted_def)

lemma latches_account: "map latches (fst (account_loop meta a s c)) = map latches meta"
  using arg_cong [OF account_loop_frame [of meta a s c], of "map latches"] by (simp add: latches_unaccounted comp_def)

lemma latches_frontier: "map latches (sr_meta (ack_frontier r ack)) = map latches (sr_meta r)"
  using latches_account [of "sr_meta r" "sr_bytes_acked r" "sr_base r"]
  by (auto simp: ack_frontier_def Let_def split: prod.splits option.splits) (metis fst_conv)+

lemma latches_ack: "map latches (sr_meta (fst (on_ack r ack now))) = map latches (sr_meta r)"
proof -
  have upd: "map latches (xs[i := (xs ! i)\<lparr>ss_occupied := False\<rparr>]) = map latches xs" for xs i
    by (cases "i < length xs") (simp_all add: map_update latches_def list_update_same_conv list_update_beyond)
  show ?thesis
    by (auto simp: on_ack_def Let_def get_at_def upd latches_frontier split: option.splits if_splits)
qed

lemma keeps_latch_ack: "send_inv r \<Longrightarrow> on_ack r ack now = (r', sample) \<Longrightarrow> keeps_latch r r'"
  using latches_ack [of r ack now] on_ack_spec [of r ack now r' sample]
  by (intro keeps_latch_meta) (auto simp: send_inv_def send_shape_def)

text \<open>A poll touches the bookkeeping of the fragment it emits and of no other.\<close>

lemma poll_send_slots:
  assumes inv: "send_inv r" and p: "poll_send r now srtt lvl out = (r', out', res)"
  shows "(\<forall>n. res \<noteq> Some (Inr n)) \<and> sr_meta r' = sr_meta r
    \<or> (\<exists>n c. res = Some (Inr n) \<and> wire_seq (take n out') = c \<and> unat (sr_base r) \<le> unat c \<and> unat c < unat (sr_next r)
        \<and> slot_due r c (send_slot_at r (unat c)) now srtt
        \<and> (\<forall>k. unat (sr_base r) \<le> k \<and> k < unat (sr_next r) \<longrightarrow> send_slot_at r' k =
             (if k = unat c then sent_entry (send_slot_at r k) (slot_nacked r c (send_slot_at r k)) now else send_slot_at r k)))"
proof -
  obtain c st cnt where sc: "scan_result r now srtt lvl out c st cnt" using poll_send_scan [OF inv] by blast
  let ?r = "scanned r c st cnt"
  have o: "unat (sr_base r) \<le> unat (sr_cursor r)" "unat (sr_next r) \<le> unat (sr_base r) + length (sr_meta r)"
    using inv by (auto simp: send_inv_def)
  have c: "unat (sr_cursor r) \<le> unat c" "unat c \<le> unat (sr_next r)" using sc by (auto simp: scan_result_def)
  have inv1: "send_inv ?r" using inv o c by (intro send_inv_scanned) auto
  show ?thesis
  proof (cases "c = sr_next r")
    case True
    then show ?thesis using sc p by (auto simp: scan_result_def)
  next
    case False
    then have lt: "unat c < unat (sr_next r)" using c(2) by (metis le_neq_implies_less word_unat_eq_iff)
    have f: "slot_due r c (send_slot_at r (unat c)) now srtt" "scan_emit ?r c now srtt lvl out = (r', out', res)"
      using sc False p by (auto simp: scan_result_def)
    note em = scan_emit_spec [OF inv1 _ _ f(2)]
    show ?thesis
    proof (cases "\<exists>n. res = Some (Inr n)")
      case True
      then obtain n where n: "res = Some (Inr n)" by blast
      have nk: "slot_nacked ?r c slot = slot_nacked r c slot" for slot by (simp add: slot_nacked_def)
      have "k mod length (sr_meta r) = unat c mod length (sr_meta r) \<longleftrightarrow> k = unat c"
        if "unat (sr_base r) \<le> k" "k < unat (sr_next r)" for k
        using mod_window_inj [of k "length (sr_meta r)" "unat c" "unat (sr_base r)"] that o c lt by auto
      then show ?thesis using em n o c lt f(1) by (intro disjI2 exI [of _ n] exI [of _ c]) (auto simp: wire_seq_def nk)
    next
      case False
      then have "r' = ?r" using f(2) em o c lt by (auto simp: scan_emit_def Let_def split: sum.splits)
      then show ?thesis using False by simp
    qed
  qed
qed

lemma keeps_latch_emit:
  assumes "sr_base r' = sr_base r" "sr_next r' = sr_next r"
    and "\<forall>k. unat (sr_base r) \<le> k \<and> k < unat (sr_next r) \<longrightarrow> send_slot_at r' k =
      (if k = unat c then sent_entry (send_slot_at r k) nk now else send_slot_at r k)"
  shows "keeps_latch r r'"
  using assms by (auto simp: keeps_latch_def sent_entry_def)

section \<open>The invariant of the log\<close>

definition firsts :: "u32 \<Rightarrow> emission list \<Rightarrow> nat" where
  "firsts k es = length (filter (\<lambda>e. em_seq e = k \<and> \<not> em_again e) es)"

definition fasts :: "u32 \<Rightarrow> emission list \<Rightarrow> nat" where
  "fasts k es = length (filter (\<lambda>e. em_seq e = k \<and> em_again e \<and> em_nacked e) es)"

lemma counts_Nil [simp]: "firsts k [] = 0" "fasts k [] = 0"
  by (simp_all add: firsts_def fasts_def)

lemma counts_snoc [simp]:
  "firsts k (es @ [e]) = firsts k es + of_bool (em_seq e = k \<and> \<not> em_again e)"
  "fasts k (es @ [e]) = fasts k es + of_bool (em_seq e = k \<and> em_again e \<and> em_nacked e)"
  by (simp_all add: firsts_def fasts_def)

lemma filter_length_mono: "(\<And>x. x \<in> set xs \<Longrightarrow> P x \<Longrightarrow> Q x) \<Longrightarrow> length (filter P xs) \<le> length (filter Q xs)"
  by (induction xs) auto

lemma counts_none: "\<forall>e \<in> set es. em_seq e \<noteq> k \<Longrightarrow> firsts k es = 0 \<and> fasts k es = 0"
  by (auto simp: firsts_def fasts_def filter_empty_conv)

definition log_inv :: "send_ring \<times> emission list \<Rightarrow> bool" where
  "log_inv x \<longleftrightarrow> (let r = fst x; es = snd x in send_inv r
     \<and> (\<forall>e \<in> set es. unat (em_seq e) < unat (sr_next r) \<and> (em_again e \<longrightarrow> em_nacked e \<or> em_timed e))
     \<and> (\<forall>k. firsts k es \<le> 1 \<and> fasts k es \<le> 1
          \<and> (unat (sr_base r) \<le> unat k \<and> unat k < unat (sr_next r) \<longrightarrow>
               firsts k es \<le> of_bool (ss_sent (send_slot_at r (unat k)))
               \<and> fasts k es \<le> of_bool (ss_nack_resent (send_slot_at r (unat k))))))"

lemma log_inv_keeps:
  assumes "log_inv (r, es)" "send_inv r'" "keeps_latch r r'"
  shows "log_inv (r', es)"
proof -
  have le: "unat (sr_next r) \<le> unat (sr_next r')" "unat (sr_base r) \<le> unat (sr_base r')"
    and kl: "\<And>k. unat (sr_base r') \<le> k \<Longrightarrow> k < unat (sr_next r) \<Longrightarrow>
      (ss_sent (send_slot_at r k) \<longrightarrow> ss_sent (send_slot_at r' k))
      \<and> (ss_nack_resent (send_slot_at r k) \<longrightarrow> ss_nack_resent (send_slot_at r' k))"
    using assms(3) by (auto simp: keeps_latch_def)
  have e: "unat (em_seq e) < unat (sr_next r)" "em_again e \<longrightarrow> em_nacked e \<or> em_timed e" if "e \<in> set es" for e
    using assms(1) that by (auto simp: log_inv_def)
  have "firsts k es \<le> of_bool (ss_sent (send_slot_at r' (unat k)))
      \<and> fasts k es \<le> of_bool (ss_nack_resent (send_slot_at r' (unat k)))"
    if k: "unat (sr_base r') \<le> unat k" for k
  proof (cases "unat k < unat (sr_next r)")
    case True
    then have "firsts k es \<le> of_bool (ss_sent (send_slot_at r (unat k)))
        \<and> fasts k es \<le> of_bool (ss_nack_resent (send_slot_at r (unat k)))"
      using assms(1) k le by (simp add: log_inv_def)
    then show ?thesis using kl [OF k True] by (auto simp: of_bool_def split: if_splits)
  next
    case False
    then show ?thesis using counts_none [of es k] e(1) by fastforce
  qed
  moreover have "\<forall>k. firsts k es \<le> 1 \<and> fasts k es \<le> 1" using assms(1) by (simp add: log_inv_def)
  moreover have "unat (em_seq e) < unat (sr_next r')" if "e \<in> set es" for e using e(1) [OF that] le by linarith
  ultimately show ?thesis using assms(2) e(2) by (simp add: log_inv_def)
qed

lemma log_inv_snoc:
  assumes inv: "log_inv (r', es)" and c: "unat (sr_base r') \<le> unat (em_seq e)" "unat (em_seq e) < unat (sr_next r')"
    and due: "em_again e \<longrightarrow> em_nacked e \<or> em_timed e"
    and first: "\<not> em_again e \<Longrightarrow> firsts (em_seq e) es = 0" and fast: "em_again e \<and> em_nacked e \<Longrightarrow> fasts (em_seq e) es = 0"
    and sent: "ss_sent (send_slot_at r' (unat (em_seq e)))"
    and latch: "em_again e \<and> em_nacked e \<Longrightarrow> ss_nack_resent (send_slot_at r' (unat (em_seq e)))"
  shows "log_inv (r', es @ [e])"
  using assms unfolding log_inv_def Let_def fst_conv snd_conv
  by (intro conjI allI ballI) (auto simp: of_bool_def split: if_splits)

lemma log_inv_emit:
  assumes inv: "log_inv (r, es)" and p: "poll_send r now srtt lvl out = (r', out', Some (Inr n))"
  shows "log_inv (r', es @ [emission_of r now srtt (take n out')])"
proof -
  have si: "send_inv r" using inv by (simp add: log_inv_def)
  have k: "send_inv r'" "sr_base r' = sr_base r" "sr_next r' = sr_next r"
    using poll_send_spec [OF si p] by (auto simp: scan_keeps_def)
  define c where "c = wire_seq (take n out')"
  let ?s = "send_slot_at r (unat c)" and ?e = "emission_of r now srtt (take n out')"
  have c: "unat (sr_base r) \<le> unat c" "unat c < unat (sr_next r)" "slot_due r c ?s now srtt"
    and sl: "\<forall>k. unat (sr_base r) \<le> k \<and> k < unat (sr_next r) \<longrightarrow> send_slot_at r' k =
      (if k = unat c then sent_entry (send_slot_at r k) (slot_nacked r c ?s) now else send_slot_at r k)"
    using poll_send_slots [OF si p] by (auto simp: c_def)
  have inv': "log_inv (r', es)" by (rule log_inv_keeps [OF inv k(1) keeps_latch_emit [OF k(2,3) sl]])
  have s': "send_slot_at r' (unat c) = sent_entry ?s (slot_nacked r c ?s) now" using sl c by simp
  have e: "em_seq ?e = c" "em_again ?e = ss_sent ?s" "em_nacked ?e = slot_nacked r c ?s"
    "em_timed ?e = flt (rto_ms (ss_retransmits ?s) srtt) (fsub now (ss_last_sent_ms ?s))"
    by (simp_all add: emission_of_def Let_def c_def)
  have cnt: "firsts c es \<le> of_bool (ss_sent ?s)" "fasts c es \<le> of_bool (ss_nack_resent ?s)"
    using inv c by (simp_all add: log_inv_def)
  show ?thesis
  proof (rule log_inv_snoc [OF inv'])
    show "em_again ?e \<longrightarrow> em_nacked ?e \<or> em_timed ?e" using c(3) by (auto simp: e slot_due_def)
    show "fasts (em_seq ?e) es = 0" if "em_again ?e \<and> em_nacked ?e"
      using that cnt(2) by (auto simp: e slot_nacked_def split: option.splits)
  qed (use c cnt(1) in \<open>auto simp: e k s' sent_entry_def\<close>)
qed

lemma log_inv_step:
  assumes inv: "log_inv x" and s: "log_step x y"
  shows "log_inv y"
  using s inv
proof (induction rule: log_step.induct)
  case (ls_emit r now srtt lvl out r' out' n es)
  then show ?case using log_inv_emit by blast
next
  case (ls_quiet r now srtt lvl out r' out' res es)
  then have si: "send_inv r" by (simp add: log_inv_def)
  have k: "send_inv r'" "sr_base r' = sr_base r" "sr_next r' = sr_next r"
    using poll_send_spec [OF si ls_quiet(1)] by (auto simp: scan_keeps_def)
  have "sr_meta r' = sr_meta r" using poll_send_slots [OF si ls_quiet(1)] ls_quiet(2) by blast
  then have "keeps_latch r r'" using k by (simp add: keeps_latch_def send_slot_at_def)
  then show ?case using log_inv_keeps ls_quiet(3) k(1) by blast
next
  case (ls_enqueue m r r' res es)
  then have si: "send_inv r" by (simp add: log_inv_def)
  have "send_inv r'" using send_sys.step_inv [OF si se_enqueue [OF ls_enqueue(1-3)]] .
  then show ?case using log_inv_keeps keeps_latch_enqueue [OF si ls_enqueue(1-3)] ls_enqueue(4) by blast
next
  case (ls_ack r ack now r' sample es)
  then have si: "send_inv r" by (simp add: log_inv_def)
  then show ?case using log_inv_keeps [OF ls_ack(2)] keeps_latch_ack [OF si ls_ack(1)] on_ack_spec [OF si ls_ack(1)] by blast
next
  case (ls_pass r es)
  then have "send_inv (begin_pass r)" by (intro begin_pass_inv) (simp add: log_inv_def)
  then show ?case by (rule log_inv_keeps [OF ls_pass]) (simp add: keeps_latch_def begin_pass_def send_slot_at_def)
next
  case (ls_discard r r' dropped es)
  then have si: "send_inv r" by (simp add: log_inv_def)
  have "keeps_latch r r'" using ls_discard(1) si by (auto simp: discard_pending_def keeps_latch_def send_inv_def)
  then show ?case using log_inv_keeps [OF ls_discard(2)] discard_inv [OF si] ls_discard(1) by simp
next
  case (ls_capacity r cap r' ok es)
  then have si: "send_inv r" by (simp add: log_inv_def)
  have "keeps_latch r r'" using ls_capacity(1)
    by (auto simp: set_fragment_capacity_def keeps_latch_def send_slot_at_def split: if_splits)
  then show ?case using log_inv_keeps [OF ls_capacity(2)] set_capacity_inv [OF si, of cap] ls_capacity(1) by simp
qed

interpretation log_sys: invariant_system log_fresh log_step log_inv
proof
  show "log_inv x" if "log_fresh x" for x
    using that send_fresh_inv by (auto simp: log_fresh_def log_inv_def)
  show "log_inv y" if "log_inv x" "log_step x y" for x y using that by (rule log_inv_step)
qed

section \<open>Property\<close>

text \<open>
  C40: One fast retransmission per fragment. Over any run of a send ring, whatever messages are queued,
  acknowledgements and negative acknowledgements applied, passes begun, media discarded and capacities
  changed in between, each sequence goes on the wire for the first time at most once, goes out again
  before its timeout has passed at most once, and goes out because of a negative acknowledgement at
  most once; a datagram that repeats one is always either that fast retransmission or after the
  timeout.
\<close>

theorem send_fast_retransmit_once:
  assumes "reachable log_fresh log_step (r, es)"
  shows "length (filter (\<lambda>e. em_seq e = k \<and> \<not> em_again e) es) \<le> 1
    \<and> length (filter (\<lambda>e. em_seq e = k \<and> em_again e \<and> \<not> em_timed e) es) \<le> 1
    \<and> length (filter (\<lambda>e. em_seq e = k \<and> em_again e \<and> em_nacked e) es) \<le> 1
    \<and> (\<forall>e \<in> set es. em_again e \<longrightarrow> em_nacked e \<or> em_timed e)"
proof -
  have inv: "log_inv (r, es)" using assms by (rule log_sys.reachable_inv)
  then have d: "em_again e \<longrightarrow> em_nacked e \<or> em_timed e" if "e \<in> set es" for e using that by (simp add: log_inv_def)
  have f: "firsts k es \<le> 1" "fasts k es \<le> 1" using inv by (simp_all add: log_inv_def)
  have "length (filter (\<lambda>e. em_seq e = k \<and> em_again e \<and> \<not> em_timed e) es) \<le> fasts k es"
    unfolding fasts_def by (rule filter_length_mono) (use d in auto)
  then show ?thesis using d f unfolding firsts_def fasts_def by auto
qed


text \<open>
  An example run: the first of three fragments goes out, a negative acknowledgement names it, and it
  is repeated six milliseconds later.
\<close>

definition log_poll :: "f64 \<Rightarrow> send_ring \<times> emission list \<Rightarrow> send_ring \<times> emission list" where
  "log_poll now x = (case poll_send (fst x) now (Fin 20) 1 (replicate 16 0) of
     (r', out', Some (Inr n)) \<Rightarrow> (r', snd x @ [emission_of (fst x) now (Fin 20) (take n out')])
   | (r', out', res) \<Rightarrow> (r', snd x))"

definition demo_nack :: ack_pkt where
  "demo_nack = \<lparr>ak_kind = AK_Ack, ak_nack = True, ak_trigger_channel = 0, ak_trigger_seq = 3,
     ak_cumulative = replicate 19 0, ak_reported = 19\<rparr>"

definition log_nack :: "f64 \<Rightarrow> send_ring \<times> emission list \<Rightarrow> send_ring \<times> emission list" where
  "log_nack now x = (begin_pass (fst (on_ack (fst x) demo_nack now)), snd x)"

definition demo_log :: "send_ring \<times> emission list" where
  "demo_log = log_poll (Fin 6) (log_nack (Fin 5) (log_poll (Fin 0) (demo_sent, [])))"

lemma log_poll_reachable:
  assumes "reachable log_fresh log_step x"
  shows "reachable log_fresh log_step (log_poll now x)"
proof -
  obtain r es where x: "x = (r, es)" by (cases x)
  obtain r' out' res where p: "poll_send r now (Fin 20) 1 (replicate 16 0) = (r', out', res)"
    by (cases "poll_send r now (Fin 20) 1 (replicate 16 0)")
  have "log_step x (log_poll now x)"
  proof (cases "\<exists>n. res = Some (Inr n)")
    case True
    then show ?thesis using p ls_emit by (auto simp: x log_poll_def)
  next
    case False
    then have "log_poll now x = (r', es)" using p by (auto simp: x log_poll_def split: option.splits sum.splits)
    then show ?thesis using ls_quiet [OF p] False x by auto
  qed
  then show ?thesis by (rule reach_step [OF assms])
qed

lemma log_nack_reachable:
  assumes "reachable log_fresh log_step x"
  shows "reachable log_fresh log_step (log_nack now x)"
proof -
  have "log_step (fst x, snd x) (fst (on_ack (fst x) demo_nack now), snd x)" by (rule ls_ack [OF prod.collapse [symmetric]])
  then have "reachable log_fresh log_step (fst (on_ack (fst x) demo_nack now), snd x)" using assms reach_step by fastforce
  then show ?thesis unfolding log_nack_def by (rule reach_step) (rule ls_pass)
qed

lemma demo_log_reachable: "reachable log_fresh log_step demo_log"
proof -
  have "reachable log_fresh log_step (demo_send, [])" by (rule reach_start) (simp add: log_fresh_def demo_send_fresh)
  then have "reachable log_fresh log_step (demo_sent, [])"
    by (rule reach_step) (rule ls_enqueue [OF demo_msg_wf(1) demo_enqueued(1)], simp add: demo_send_params demo_msg_count)
  then show ?thesis unfolding demo_log_def by (intro log_poll_reachable log_nack_reachable)
qed

text \<open>Polling a ring whose fragment at the cursor is due logs that fragment.\<close>

lemma log_poll_due:
  assumes inv: "send_inv r" and lt: "unat (sr_cursor r) < unat (sr_next r)" and occ: "ss_occupied (send_slot_at r (unat (sr_cursor r)))"
    and cap: "sr_outstanding r < OUTSTANDING_CAP" and due: "slot_due r (sr_cursor r) (send_slot_at r (unat (sr_cursor r))) now (Fin 20)"
    and out: "HEADER_LEN + sr_slot_len r \<le> 16"
  shows "\<exists>r' e. log_poll now (r, es) = (r', es @ [e]) \<and> em_seq e = sr_cursor r
    \<and> em_again e = ss_sent (send_slot_at r (unat (sr_cursor r)))
    \<and> em_nacked e = slot_nacked r (sr_cursor r) (send_slot_at r (unat (sr_cursor r)))
    \<and> send_inv r' \<and> send_abs r' = send_abs r \<and> sr_base r' = sr_base r \<and> sr_next r' = sr_next r \<and> sr_channel r' = sr_channel r
    \<and> sr_slot_len r' = sr_slot_len r
    \<and> send_slot_at r' (unat (sr_cursor r)) = sent_entry (send_slot_at r (unat (sr_cursor r)))
        (slot_nacked r (sr_cursor r) (send_slot_at r (unat (sr_cursor r)))) now"
proof -
  let ?c = "sr_cursor r" and ?out = "replicate 16 (0 :: byte)"
  have sh: "send_shape r" and o: "unat (sr_base r) \<le> unat ?c" using inv by (auto simp: send_inv_def)
  have ne: "?c \<noteq> sr_next r" and nc: "\<not> OUTSTANDING_CAP \<le> sr_outstanding r" using lt cap by auto
  have p: "poll_send r now (Fin 20) 1 ?out = scan_emit r ?c now (Fin 20) 1 ?out" by (rule poll_send_due [OF sh ne occ nc due])
  obtain r' out' n where e: "scan_emit r ?c now (Fin 20) 1 ?out = (r', out', Some (Inr n))"
    using scan_emit_ok [OF inv lt, of ?out now "Fin 20" 1] out by auto
  note em = scan_emit_spec [OF inv o lt e]
  have sl: "sr_slot_len r' = sr_slot_len r" using e by (auto simp: scan_emit_def Let_def split: sum.splits)
  have "parse (take n out') = Inr (PData \<lparr>d_channel = sr_channel r, d_seq = ?c, d_last = ss_last (send_slot_at r (unat ?c)),
      d_body = send_body_at r (unat ?c)\<rparr>)" using em by blast
  then have "wire_seq (take n out') = ?c" by (simp add: wire_seq_def)
  then show ?thesis using em p e sl by (auto simp: log_poll_def emission_of_def Let_def)
qed

lemma demo_sent_fields:
  "sr_base demo_sent = 0" "sr_channel demo_sent = 0" "sr_next demo_sent = 3" "sr_nack_below demo_sent = None"
  "\<not> ss_nack_resent (send_slot_at demo_sent 0)"
proof -
  have sh: "send_shape demo_send" using send_fresh_inv [OF demo_send_fresh] by (simp add: send_inv_def)
  have f: "sr_base demo_send = 0" "length (sr_meta demo_send) = 4" "sr_channel demo_send = 0" "sr_nack_below demo_send = None"
    by (simp_all add: demo_send_def)
  have "enqueue_loop demo_send demo_msg 4 0 3 = (put_fragments demo_send demo_msg 4 0 3, Inr ())"
    using sh demo_msg_wf(1) by (intro enqueue_loop_all) (simp_all add: demo_send_params demo_msg_count)
  then have e: "demo_sent = (put_fragments demo_send demo_msg 4 0 3)\<lparr>sr_next := 3\<rparr>"
    by (simp add: demo_sent_def send_enqueue_def demo_send_params demo_msg_count u32_try_from_def Let_def)
  have "sr_nack_below (put_fragments r m cap i n) = sr_nack_below r" for r m cap i n
    by (induction n) (simp_all add: put_fragment_def Let_def)
  then show "sr_base demo_sent = 0" "sr_channel demo_sent = 0" "sr_next demo_sent = 3" "sr_nack_below demo_sent = None"
    by (simp_all add: e f)
  have "send_slot_at demo_sent 0 = send_slot_at (put_fragments demo_send demo_msg 4 0 3) 0"
    by (simp add: e send_slot_at_def)
  then show "\<not> ss_nack_resent (send_slot_at demo_sent 0)"
    using put_fragments_slots [OF sh, of 4 3 demo_msg] by (simp add: f demo_send_params send_slot_default_def Let_def)
qed

lemma demo_log_seqs: "map (\<lambda>e. (em_seq e, em_again e, em_nacked e)) (snd demo_log) = [(0, False, False), (0, True, True)]"
proof -
  have due: "ss_occupied (send_slot_at demo_sent 0)" "\<not> ss_sent (send_slot_at demo_sent 0)"
    using demo_enqueued(7) [of 0] by simp_all
  have nk: "\<not> slot_nacked demo_sent 0 slot" for slot by (simp add: slot_nacked_def demo_sent_fields)
  obtain r1 e1 where x1: "log_poll (Fin 0) (demo_sent, []) = (r1, [e1])" "em_seq e1 = 0" "\<not> em_again e1" "\<not> em_nacked e1"
    and r1: "send_inv r1" "send_abs r1 = send_abs demo_sent" "sr_base r1 = 0" "sr_next r1 = 3" "sr_channel r1 = 0"
      "sr_slot_len r1 = 4" and s1: "send_slot_at r1 0 = sent_entry (send_slot_at demo_sent 0) False (Fin 0)"
    using log_poll_due [of demo_sent "Fin 0" "[]"] due nk
    by (auto simp: demo_enqueued demo_sent_fields slot_due_def OUTSTANDING_CAP_def WINDOW_FLOOR_def HEADER_LEN_def)
  define r2 where "r2 = r1\<lparr>sr_nack_below := Some 3, sr_outstanding := 0, sr_stale := 0, sr_cursor := 0\<rparr>"
  have x2: "log_nack (Fin 5) (r1, [e1]) = (r2, [e1])"
    using r1 by (simp add: log_nack_def on_ack_def ack_frontier_def demo_nack_def r2_def begin_pass_def Let_def get_at_def
        seq_gt_def seq_ge_def seq_lt_def)
  have at: "send_slot_at r2 k = send_slot_at r1 k" for k by (simp add: r2_def send_slot_at_def)
  have fast: "slot_nacked r2 0 (send_slot_at r1 0)"
    using due demo_sent_fields(5) by (simp add: slot_nacked_def r2_def s1 sent_entry_def seq_lt_def seq_gt_def)
  have inv: "send_inv r2" using r1 by (simp add: send_inv_def send_shape_def r2_def)
  have f2: "sr_cursor r2 = 0" "sr_next r2 = 3" "sr_outstanding r2 = 0" "sr_slot_len r2 = 4" by (simp_all add: r2_def r1)
  obtain r3 e2 where "log_poll (Fin 6) (r2, [e1]) = (r3, [e1, e2])" "em_seq e2 = 0" "em_again e2" "em_nacked e2"
    using log_poll_due [OF inv, of "Fin 6" "[e1]"] fast due s1
    by (auto simp: at f2 slot_due_def OUTSTANDING_CAP_def WINDOW_FLOOR_def HEADER_LEN_def)
  then show ?thesis using x1 x2 by (simp add: demo_log_def)
qed

theorem send_fast_retransmit_once_witness:
  "\<exists>e \<in> set (snd demo_log). em_seq e = 0 \<and> em_again e \<and> em_nacked e
    \<and> length (filter (\<lambda>e. em_seq e = 0 \<and> em_again e \<and> em_nacked e) (snd demo_log)) \<le> 1"
proof -
  have "(0, True, True) \<in> (\<lambda>e. (em_seq e, em_again e, em_nacked e)) ` set (snd demo_log)"
    unfolding set_map [symmetric] demo_log_seqs by simp
  then obtain e where "e \<in> set (snd demo_log)" "em_seq e = 0" "em_again e" "em_nacked e" by auto
  moreover have "reachable log_fresh log_step (fst demo_log, snd demo_log)" using demo_log_reachable by simp
  from send_fast_retransmit_once [OF this, of 0]
  have "length (filter (\<lambda>e. em_seq e = 0 \<and> em_again e \<and> em_nacked e) (snd demo_log)) \<le> 1" by blast
  ultimately show ?thesis by blast
qed

end
