(* ===== verification/Pmtu.thy ===== *)
theory Pmtu
  imports Packet
begin

text \<open>
  Path MTU discovery (\<open>core/src/pmtu.rs\<close>): the search state machine of one network path. It reserves
  probes of exact sizes, learns only from their acknowledgements, gives a rung three attempts and
  falls back to the base size on a black hole.
\<close>

section \<open>Configuration\<close>

definition FLOOR :: nat where "FLOOR = DEFAULT_DATAGRAM"
definition CEILING :: nat where "CEILING = MAX_DATAGRAM"
definition IPV4_UDP_OVERHEAD :: nat where "IPV4_UDP_OVERHEAD = 20 + 8"
definition IPV6_UDP_OVERHEAD :: nat where "IPV6_UDP_OVERHEAD = 40 + 8"
definition MAX_PROBES :: byte where "MAX_PROBES = 3"
definition PROBE_TIMEOUT_MS :: f64 where "PROBE_TIMEOUT_MS = rnd 1000"
definition REPROBE_INTERVAL_MS :: f64 where "REPROBE_INTERVAL_MS = rnd 600000"
definition LADDER :: "nat list" where "LADDER = [1280, 1350, 1400]"
definition RELAY_INDICATION_OVERHEAD :: nat where "RELAY_INDICATION_OVERHEAD = 36"
definition RELAY_CHANNEL_OVERHEAD :: nat where "RELAY_CHANNEL_OVERHEAD = 4"

lemmas pmtu_consts = FLOOR_def CEILING_def MAX_DATAGRAM_def DEFAULT_DATAGRAM_def

datatype path = Direct | RelayIndication | RelayChannel

definition path_overhead :: "path \<Rightarrow> nat" where
  "path_overhead p = (case p of Direct \<Rightarrow> 0 | RelayIndication \<Rightarrow> RELAY_INDICATION_OVERHEAD
     | RelayChannel \<Rightarrow> RELAY_CHANNEL_OVERHEAD)"

datatype ip_version = V4 | V6

definition ip_udp_overhead :: "ip_version \<Rightarrow> nat" where
  "ip_udp_overhead v = (case v of V4 \<Rightarrow> IPV4_UDP_OVERHEAD | V6 \<Rightarrow> IPV6_UDP_OVERHEAD)"

record path_config =
  cfg_path :: path
  cfg_ip_version :: ip_version
  cfg_path_mtu :: nat

definition path_config_new :: "path \<Rightarrow> ip_version \<Rightarrow> nat \<Rightarrow> path_config" where
  "path_config_new p v mtu = \<lparr>cfg_path = p, cfg_ip_version = v, cfg_path_mtu = mtu\<rparr>"

definition default_for :: "path \<Rightarrow> path_config" where
  "default_for p = path_config_new p V4 1500"

definition direct_v4 :: "nat \<Rightarrow> path_config" where
  "direct_v4 mtu = path_config_new Direct V4 mtu"

definition direct_v6 :: "nat \<Rightarrow> path_config" where
  "direct_v6 mtu = path_config_new Direct V6 mtu"

definition config_max_datagram_size :: "path_config \<Rightarrow> nat" where
  "config_max_datagram_size c =
     (let sz = cfg_path_mtu c - (ip_udp_overhead (cfg_ip_version c) + path_overhead (cfg_path c))
      in if sz < CEILING then sz else CEILING)"

section \<open>State\<close>

datatype path_mtu_state = Base | Searching | SearchComplete | ErrorState

record mtu_probe =
  pb_id :: u32
  pb_size :: nat
  pb_attempt :: byte

record in_flight =
  if_probe :: mtu_probe
  if_sent_ms :: f64

record path_mtu =
  mt_config :: path_config
  mt_current :: nat
  mt_clamp :: nat
  mt_rung :: nat
  mt_state :: path_mtu_state
  mt_next_probe_id :: u32
  mt_probe_attempts :: byte
  mt_probe :: "in_flight option"
  mt_next_action_ms :: f64

definition mtu_new_with_config :: "path_config \<Rightarrow> f64 \<Rightarrow> path_mtu" where
  "mtu_new_with_config config now_ms =
     (let clamp = config_max_datagram_size config in
      \<lparr>mt_config = config, mt_current = FLOOR, mt_clamp = clamp, mt_rung = 0,
       mt_state = (if clamp < FLOOR then ErrorState else Base), mt_next_probe_id = 1,
       mt_probe_attempts = 0, mt_probe = None,
       mt_next_action_ms = (if is_finite now_ms then now_ms else Fin 0)\<rparr>)"

definition mtu_new :: "path \<Rightarrow> path_mtu" where
  "mtu_new p = mtu_new_with_config (default_for p) (Fin 0)"

definition mtu_body_capacity :: "path_mtu \<Rightarrow> nat" where
  "mtu_body_capacity m = mt_current m - (ENVELOPE_LEN + HEADER_LEN)"

definition mtu_settled :: "path_mtu \<Rightarrow> bool" where
  "mtu_settled m = (mt_state m = SearchComplete \<or> mt_state m = ErrorState)"

definition in_flight_probe :: "path_mtu \<Rightarrow> mtu_probe option" where
  "in_flight_probe m = map_option if_probe (mt_probe m)"

section \<open>Operations\<close>

definition candidate :: "path_mtu \<Rightarrow> nat option" where
  "candidate m = (case find (\<lambda>sz. mt_current m < sz \<and> sz \<le> mt_clamp m \<and> sz \<le> CEILING)
       (drop (mt_rung m) LADDER) of
     Some sz \<Rightarrow> Some sz
   | None \<Rightarrow> if mt_current m < mt_clamp m \<and> mt_clamp m \<le> CEILING then Some (mt_clamp m) else None)"

definition next_probe_size :: "path_mtu \<Rightarrow> nat option" where
  "next_probe_size m =
     (if mt_state m = ErrorState \<or> mt_state m = SearchComplete \<or> mt_probe m \<noteq> None then None else candidate m)"

definition allocate_probe_id :: "path_mtu \<Rightarrow> path_mtu \<times> u32" where
  "allocate_probe_id m =
     (let i = (if mt_next_probe_id m = U32_MAX then 1 else mt_next_probe_id m)
      in (m\<lparr>mt_next_probe_id := sat_add i 1\<rparr>, i))"

definition mtu_complete :: "path_mtu \<Rightarrow> f64 \<Rightarrow> path_mtu" where
  "mtu_complete m now_ms = m\<lparr>mt_probe := None, mt_probe_attempts := 0, mt_state := SearchComplete,
     mt_next_action_ms := (if is_finite now_ms then fadd now_ms REPROBE_INTERVAL_MS else PInf)\<rparr>"

text \<open>The second half of \<open>start_probe\<close>: reserve a probe of the candidate size, or end the round.\<close>

definition reserve_probe :: "path_mtu \<Rightarrow> f64 \<Rightarrow> path_mtu \<times> mtu_probe option" where
  "reserve_probe m now_ms = (case candidate m of None \<Rightarrow> (mtu_complete m now_ms, None)
   | Some sz \<Rightarrow>
       let m = m\<lparr>mt_state := Searching\<rparr>; attempt = sat_add (mt_probe_attempts m) 1 in
       if MAX_PROBES < attempt then (mtu_complete m now_ms, None)
       else
         let (m, i) = allocate_probe_id m; probe = \<lparr>pb_id = i, pb_size = sz, pb_attempt = attempt\<rparr>
         in (m\<lparr>mt_probe_attempts := attempt, mt_probe := Some \<lparr>if_probe = probe, if_sent_ms = now_ms\<rparr>,
               mt_next_action_ms := fadd now_ms PROBE_TIMEOUT_MS\<rparr>, Some probe))"

definition start_probe :: "path_mtu \<Rightarrow> f64 \<Rightarrow> path_mtu \<times> mtu_probe option" where
  "start_probe m now_ms =
     (if \<not> is_finite now_ms \<or> mt_state m = ErrorState \<or> mt_probe m \<noteq> None then (m, None)
      else if mt_state m = SearchComplete \<and> flt now_ms (mt_next_action_ms m) then (m, None)
      else
        let m = (if mt_state m = SearchComplete then m\<lparr>mt_state := Searching, mt_probe_attempts := 0\<rparr> else m) in
        if flt now_ms (mt_next_action_ms m) then (m, None) else reserve_probe m now_ms)"

definition poll_probe :: "path_mtu \<Rightarrow> f64 \<Rightarrow> path_mtu \<times> mtu_probe option" where
  "poll_probe m now_ms = start_probe m now_ms"

definition mtu_next_timer_ms :: "path_mtu \<Rightarrow> f64 \<Rightarrow> f64" where
  "mtu_next_timer_ms m now_ms =
     (if \<not> is_finite now_ms then PInf
      else case (case mt_probe m of Some fl \<Rightarrow> Some (fadd (if_sent_ms fl) PROBE_TIMEOUT_MS)
          | None \<Rightarrow> (case mt_state m of ErrorState \<Rightarrow> None
              | SearchComplete \<Rightarrow> Some (mt_next_action_ms m)
              | _ \<Rightarrow> if candidate m \<noteq> None then Some (mt_next_action_ms m) else None)) of
        None \<Rightarrow> PInf
      | Some deadline \<Rightarrow> fmax (fsub deadline now_ms) (Fin 0))"

definition on_probe_ack :: "path_mtu \<Rightarrow> u32 \<Rightarrow> nat \<Rightarrow> f64 \<Rightarrow> path_mtu \<times> bool" where
  "on_probe_ack m i sz now_ms = (case mt_probe m of None \<Rightarrow> (m, False)
   | Some fl \<Rightarrow>
       if pb_id (if_probe fl) \<noteq> i \<or> pb_size (if_probe fl) \<noteq> sz then (m, False)
       else if \<not> is_finite now_ms \<or> flt now_ms (if_sent_ms fl) \<or> sz < FLOOR \<or> mt_clamp m < sz \<or> CEILING < sz
       then (m, False)
       else
         let m = m\<lparr>mt_probe := None, mt_current := sz, mt_rung := min (usize_saturating_add (mt_rung m) 1) (length LADDER),
                   mt_probe_attempts := 0\<rparr>
         in (if candidate m \<noteq> None then m\<lparr>mt_state := Searching, mt_next_action_ms := now_ms\<rparr>
             else mtu_complete m now_ms, True))"

definition on_probe_timeout :: "path_mtu \<Rightarrow> f64 \<Rightarrow> path_mtu \<times> bool" where
  "on_probe_timeout m now_ms = (case mt_probe m of None \<Rightarrow> (m, False)
   | Some fl \<Rightarrow>
       if \<not> is_finite now_ms \<or> flt now_ms (fadd (if_sent_ms fl) PROBE_TIMEOUT_MS) then (m, False)
       else
         let m = m\<lparr>mt_probe := None\<rparr> in
         (if MAX_PROBES \<le> mt_probe_attempts m then mtu_complete m now_ms
          else m\<lparr>mt_state := Searching, mt_next_action_ms := now_ms\<rparr>, True))"

definition on_probe_send_failed :: "path_mtu \<Rightarrow> path_mtu \<times> bool" where
  "on_probe_send_failed m = (case mt_probe m of None \<Rightarrow> (m, False)
   | Some _ \<Rightarrow> (m\<lparr>mt_probe := None, mt_probe_attempts := sat_sub (mt_probe_attempts m) 1,
                  mt_next_action_ms := Fin 0\<rparr>, True))"

definition mtu_on_timer :: "path_mtu \<Rightarrow> f64 \<Rightarrow> path_mtu \<times> mtu_probe option" where
  "mtu_on_timer m now_ms =
     (let m = (if mt_probe m \<noteq> None then fst (on_probe_timeout m now_ms) else m) in start_probe m now_ms)"

definition on_black_hole :: "path_mtu \<Rightarrow> f64 \<Rightarrow> path_mtu \<times> bool" where
  "on_black_hole m now_ms =
     (if mt_state m = ErrorState then (m, False)
      else
        let m = m\<lparr>mt_probe := None, mt_probe_attempts := 0\<rparr> in
        (if mt_current m = FLOOR then m\<lparr>mt_state := ErrorState, mt_next_action_ms := PInf\<rparr>
         else m\<lparr>mt_current := FLOOR, mt_rung := 0, mt_state := Base,
                mt_next_action_ms := (if is_finite now_ms then now_ms else Fin 0)\<rparr>, True))"

definition mtu_reset_with_config :: "path_mtu \<Rightarrow> path_config \<Rightarrow> f64 \<Rightarrow> path_mtu" where
  "mtu_reset_with_config m config now_ms = mtu_new_with_config config now_ms"

definition mtu_reset :: "path_mtu \<Rightarrow> path \<Rightarrow> path_mtu" where
  "mtu_reset m p = mtu_new p"

section \<open>Invariant\<close>

definition mtu_inv :: "path_mtu \<Rightarrow> bool" where
  "mtu_inv m \<longleftrightarrow> mt_clamp m = config_max_datagram_size (mt_config m)
     \<and> FLOOR \<le> mt_current m \<and> mt_clamp m \<le> CEILING
     \<and> (if FLOOR \<le> mt_clamp m then mt_current m \<le> mt_clamp m else mt_state m = ErrorState)
     \<and> (mt_state m = ErrorState \<longrightarrow> mt_current m = FLOOR \<and> mt_probe m = None)
     \<and> mt_rung m \<le> 3 \<and> unat (mt_probe_attempts m) \<le> 3
     \<and> (case mt_probe m of None \<Rightarrow> True
        | Some fl \<Rightarrow> mt_state m = Searching \<and> mt_current m < pb_size (if_probe fl)
            \<and> pb_size (if_probe fl) \<le> mt_clamp m \<and> pb_id (if_probe fl) \<noteq> U32_MAX
            \<and> pb_attempt (if_probe fl) = mt_probe_attempts m \<and> 0 < unat (mt_probe_attempts m))"

lemma candidate_bounds: "candidate m = Some sz \<Longrightarrow> mt_current m < sz \<and> sz \<le> mt_clamp m \<and> sz \<le> CEILING"
  by (auto simp: candidate_def find_Some_iff split: option.splits if_splits)

lemma candidate_None: "mt_clamp m \<le> CEILING \<Longrightarrow> candidate m = None \<longleftrightarrow> mt_clamp m \<le> mt_current m"
proof
  assume c: "mt_clamp m \<le> CEILING"
  show "mt_clamp m \<le> mt_current m" if "candidate m = None"
    using that c by (auto simp: candidate_def not_less split: option.splits if_splits)
  show "candidate m = None" if "mt_clamp m \<le> mt_current m"
    using that candidate_bounds [of m] by (cases "candidate m") auto
qed

lemma config_clamp: "config_max_datagram_size c \<le> CEILING"
  by (simp add: config_max_datagram_size_def Let_def)

lemma mtu_new_inv: "mtu_inv (mtu_new_with_config c now)"
  by (auto simp: mtu_inv_def mtu_new_with_config_def Let_def config_clamp not_less)

lemma mtu_complete_inv: "mtu_inv m \<Longrightarrow> mt_state m \<noteq> ErrorState \<Longrightarrow> mtu_inv (mtu_complete m now)"
  by (auto simp: mtu_inv_def mtu_complete_def split: if_splits)

lemma reserve_probe_cases:
  assumes inv: "mtu_inv m" and st: "mt_state m \<noteq> ErrorState" "mt_probe m = None"
    and e: "reserve_probe m now = (m', pr)"
  shows "mtu_inv m' \<and> mt_current m' = mt_current m \<and> mt_clamp m' = mt_clamp m
    \<and> (case pr of None \<Rightarrow> m' = mtu_complete m now \<or> m' = mtu_complete (m\<lparr>mt_state := Searching\<rparr>) now
       | Some p \<Rightarrow> candidate m = Some (pb_size p) \<and> mt_probe m' = Some \<lparr>if_probe = p, if_sent_ms = now\<rparr>)"
proof (cases "candidate m")
  case None
  then have "m' = mtu_complete m now" "pr = None" using e by (simp_all add: reserve_probe_def)
  moreover have "mt_current (mtu_complete m now) = mt_current m" "mt_clamp (mtu_complete m now) = mt_clamp m"
    by (simp_all add: mtu_complete_def)
  ultimately show ?thesis using mtu_complete_inv [OF inv st(1)] by simp
next
  case (Some sz)
  let ?a = "sat_add (mt_probe_attempts m) 1" and ?m = "m\<lparr>mt_state := Searching\<rparr>"
  let ?i = "if mt_next_probe_id m = U32_MAX then 1 else mt_next_probe_id m"
  let ?p = "\<lparr>pb_id = ?i, pb_size = sz, pb_attempt = ?a\<rparr>"
  have s2: "mtu_inv ?m" using inv st by (auto simp: mtu_inv_def split: if_splits)
  have a: "unat ?a = Suc (unat (mt_probe_attempts m))" using inv by (simp add: unat_sat_add mtu_inv_def)
  have i: "?i \<noteq> U32_MAX" by (simp add: U32_MAX_def)
  show ?thesis
  proof (cases "MAX_PROBES < ?a")
    case True
    then have m': "m' = mtu_complete ?m now" "pr = None" using e Some by (simp_all add: reserve_probe_def Let_def)
    have "mtu_inv m'" unfolding m' using s2 by (rule mtu_complete_inv) simp
    then show ?thesis by (simp add: m' mtu_complete_def)
  next
    case False
    then have le: "unat ?a \<le> 3" by (simp add: MAX_PROBES_def word_less_nat_alt)
    have m': "m' = m\<lparr>mt_state := Searching, mt_next_probe_id := sat_add ?i 1, mt_probe_attempts := ?a,
        mt_probe := Some \<lparr>if_probe = ?p, if_sent_ms = now\<rparr>, mt_next_action_ms := fadd now PROBE_TIMEOUT_MS\<rparr>"
      and pr: "pr = Some ?p"
      using e Some False by (auto simp: reserve_probe_def Let_def allocate_probe_id_def split: if_splits)
    have "mtu_inv m'"
      using inv st i a le candidate_bounds [OF Some] unfolding mtu_inv_def m' by (simp split: if_splits)
    then show ?thesis using Some by (simp add: m' pr)
  qed
qed

lemma start_probe_cases:
  assumes inv: "mtu_inv m" and e: "start_probe m now = (m', pr)"
  shows "mtu_inv m' \<and> mt_current m' = mt_current m \<and> mt_clamp m' = mt_clamp m
    \<and> (\<forall>p. pr = Some p \<longrightarrow> mt_probe m' = Some \<lparr>if_probe = p, if_sent_ms = now\<rparr>)"
proof (cases "\<not> is_finite now \<or> mt_state m = ErrorState \<or> mt_probe m \<noteq> None
    \<or> mt_state m = SearchComplete \<and> flt now (mt_next_action_ms m)")
  case True
  then show ?thesis using inv e by (auto simp: start_probe_def split: if_splits)
next
  case False
  define m1 where "m1 = (if mt_state m = SearchComplete then m\<lparr>mt_state := Searching, mt_probe_attempts := 0\<rparr> else m)"
  have inv1: "mtu_inv m1" using inv False by (auto simp: m1_def mtu_inv_def split: if_splits option.splits)
  have st: "mt_state m1 \<noteq> ErrorState" "mt_probe m1 = None" and same: "mt_current m1 = mt_current m" "mt_clamp m1 = mt_clamp m"
    using False by (auto simp: m1_def)
  have e1: "(m', pr) = (if flt now (mt_next_action_ms m1) then (m1, None) else reserve_probe m1 now)"
    using False e unfolding start_probe_def m1_def Let_def by (auto split: if_splits)
  show ?thesis
    using e1 inv1 same reserve_probe_cases [OF inv1 st, of now m' pr] by (auto split: if_splits option.splits)
qed

lemma start_probe_inv: "mtu_inv m \<Longrightarrow> mtu_inv (fst (start_probe m now))"
  using start_probe_cases [of m now "fst (start_probe m now)" "snd (start_probe m now)"] by simp

lemma on_probe_ack_inv: "mtu_inv m \<Longrightarrow> mtu_inv (fst (on_probe_ack m i sz now))"
proof (cases "mt_probe m")
  case (Some fl)
  assume inv: "mtu_inv m"
  let ?m = "m\<lparr>mt_probe := None, mt_current := sz, mt_rung := min (usize_saturating_add (mt_rung m) 1) (length LADDER),
    mt_probe_attempts := 0\<rparr>"
  show ?thesis
  proof (cases "pb_id (if_probe fl) \<noteq> i \<or> pb_size (if_probe fl) \<noteq> sz \<or> \<not> is_finite now \<or> flt now (if_sent_ms fl)
      \<or> sz < FLOOR \<or> mt_clamp m < sz \<or> CEILING < sz")
    case True
    then show ?thesis using inv Some by (auto simp: on_probe_ack_def)
  next
    case False
    then have inv1: "mtu_inv ?m" and st: "mt_state ?m \<noteq> ErrorState"
      using inv Some by (auto simp: mtu_inv_def LADDER_def split: if_splits)
    have "fst (on_probe_ack m i sz now) = (if candidate ?m \<noteq> None
        then ?m\<lparr>mt_state := Searching, mt_next_action_ms := now\<rparr> else mtu_complete ?m now)"
      using False Some by (simp add: on_probe_ack_def Let_def)
    moreover have "mtu_inv (?m\<lparr>mt_state := Searching, mt_next_action_ms := now\<rparr>)"
      using inv1 st by (auto simp: mtu_inv_def split: if_splits)
    ultimately show ?thesis using mtu_complete_inv [OF inv1 st] by simp
  qed
qed (simp add: on_probe_ack_def)

lemma on_probe_timeout_inv: "mtu_inv m \<Longrightarrow> mtu_inv (fst (on_probe_timeout m now))"
proof (cases "mt_probe m")
  case (Some fl)
  assume inv: "mtu_inv m"
  have inv1: "mtu_inv (m\<lparr>mt_probe := None\<rparr>)" and st: "mt_state m \<noteq> ErrorState"
    using inv Some by (auto simp: mtu_inv_def split: if_splits)
  have "mtu_inv (m\<lparr>mt_probe := None, mt_state := Searching, mt_next_action_ms := now\<rparr>)"
    using inv1 st by (auto simp: mtu_inv_def split: if_splits)
  then show ?thesis
    using inv mtu_complete_inv [OF inv1] st Some by (simp add: on_probe_timeout_def Let_def)
qed (simp add: on_probe_timeout_def)

lemma on_probe_send_failed_inv: "mtu_inv m \<Longrightarrow> mtu_inv (fst (on_probe_send_failed m))"
proof -
  assume inv: "mtu_inv m"
  have "unat (sat_sub (mt_probe_attempts m) 1) \<le> unat (mt_probe_attempts m)"
    by (auto simp: sat_sub_def unat_sub word_le_nat_alt)
  then show ?thesis using inv by (auto simp: on_probe_send_failed_def mtu_inv_def split: option.splits if_splits)
qed

lemma on_black_hole_inv: "mtu_inv m \<Longrightarrow> mtu_inv (fst (on_black_hole m now))"
  by (auto simp: on_black_hole_def mtu_inv_def Let_def split: option.splits if_splits)

inductive mtu_step :: "path_mtu \<Rightarrow> path_mtu \<Rightarrow> bool" where
  ms_start: "start_probe m now = (m', pr) \<Longrightarrow> mtu_step m m'"
| ms_ack: "on_probe_ack m i sz now = (m', ok) \<Longrightarrow> mtu_step m m'"
| ms_timeout: "on_probe_timeout m now = (m', ok) \<Longrightarrow> mtu_step m m'"
| ms_failed: "on_probe_send_failed m = (m', ok) \<Longrightarrow> mtu_step m m'"
| ms_timer: "mtu_on_timer m now = (m', pr) \<Longrightarrow> mtu_step m m'"
| ms_hole: "on_black_hole m now = (m', ok) \<Longrightarrow> mtu_step m m'"
| ms_reset: "mtu_step m (mtu_reset_with_config m config now)"

definition mtu_start :: "path_mtu \<Rightarrow> bool" where
  "mtu_start m \<longleftrightarrow> (\<exists>config now. m = mtu_new_with_config config now)"

lemma mtu_on_timer_inv: "mtu_inv m \<Longrightarrow> mtu_inv (fst (mtu_on_timer m now))"
  by (simp add: mtu_on_timer_def Let_def start_probe_inv on_probe_timeout_inv)

interpretation mtu_sys: invariant_system mtu_start mtu_step mtu_inv
proof
  show "mtu_inv m" if "mtu_start m" for m using that mtu_new_inv by (auto simp: mtu_start_def)
  show "mtu_inv m'" if inv: "mtu_inv m" and st: "mtu_step m m'" for m m'
    using st
  proof (cases rule: mtu_step.cases)
    case (ms_start now pr) then show ?thesis using start_probe_inv [OF inv, of now] by simp
  next case (ms_ack i sz now ok) then show ?thesis using on_probe_ack_inv [OF inv, of i sz now] by simp
  next case (ms_timeout now ok) then show ?thesis using on_probe_timeout_inv [OF inv, of now] by simp
  next case (ms_failed ok) then show ?thesis using on_probe_send_failed_inv [OF inv] by simp
  next case (ms_timer now pr) then show ?thesis using mtu_on_timer_inv [OF inv, of now] by simp
  next case (ms_hole now ok) then show ?thesis using on_black_hole_inv [OF inv, of now] by simp
  next case (ms_reset config now) then show ?thesis using mtu_new_inv by (simp add: mtu_reset_with_config_def)
  qed
qed

section \<open>The search against a path\<close>

text \<open>
  A path that passes datagrams of up to \<open>K\<close> bytes: one round is the timer call, and the acknowledgement
  of the probe it produced when that probe fits.
\<close>

definition search_round :: "nat \<Rightarrow> f64 \<Rightarrow> path_mtu \<Rightarrow> path_mtu" where
  "search_round K t m = (case mtu_on_timer m t of
     (m', None) \<Rightarrow> m'
   | (m', Some p) \<Rightarrow> if pb_size p \<le> K then fst (on_probe_ack m' (pb_id p) (pb_size p) t) else m')"

fun search_run :: "nat \<Rightarrow> f64 list \<Rightarrow> path_mtu \<Rightarrow> path_mtu" where
  "search_run K [] m = m"
| "search_run K (t # ts) m = (if mtu_settled m then m else search_run K ts (search_round K t m))"

text \<open>Timer calls a probe timeout apart, on a clock whose resolution still sees the reprobe interval.\<close>

fun spaced :: "f64 \<Rightarrow> f64 list \<Rightarrow> bool" where
  "spaced t0 [] = True"
| "spaced t0 (t # ts) = (is_finite t \<and> fle t0 t \<and> fle (fadd t0 PROBE_TIMEOUT_MS) t
     \<and> flt t (fadd t REPROBE_INTERVAL_MS) \<and> spaced t ts)"

text \<open>The sizes a search may confirm, and the largest of them that the path passes.\<close>

definition legal_sizes :: "nat \<Rightarrow> nat list" where
  "legal_sizes clamp = filter (\<lambda>sz. sz \<le> clamp) LADDER @ [clamp]"

definition search_goal :: "nat \<Rightarrow> nat \<Rightarrow> nat" where
  "search_goal clamp K = fold max (filter (\<lambda>sz. sz \<le> K) (legal_sizes clamp)) FLOOR"

definition cand_of :: "nat \<Rightarrow> nat \<Rightarrow> nat \<Rightarrow> nat option" where
  "cand_of clamp c r = (case find (\<lambda>sz. c < sz \<and> sz \<le> clamp \<and> sz \<le> CEILING) (drop r LADDER) of
     Some sz \<Rightarrow> Some sz | None \<Rightarrow> if c < clamp \<and> clamp \<le> CEILING then Some clamp else None)"

lemma candidate_cand_of: "candidate m = cand_of (mt_clamp m) (mt_current m) (mt_rung m)"
  by (simp add: candidate_def cand_of_def)

definition rung_ok :: "nat \<Rightarrow> nat \<Rightarrow> nat \<Rightarrow> bool" where
  "rung_ok clamp c r \<longleftrightarrow> (\<forall>sz \<in> set (take r LADDER). sz \<le> c \<or> clamp < sz)"

definition sizes_above :: "nat \<Rightarrow> nat \<Rightarrow> nat list" where
  "sizes_above clamp c = filter (\<lambda>sz. c < sz) (legal_sizes clamp)"

definition ready :: "path_mtu \<Rightarrow> nat \<Rightarrow> nat \<Rightarrow> nat \<Rightarrow> byte \<Rightarrow> f64 \<Rightarrow> bool" where
  "ready m cl c r a t \<longleftrightarrow> mt_clamp m = cl \<and> mt_current m = c \<and> mt_rung m = r \<and> mt_probe_attempts m = a
     \<and> (mt_state m = Base \<or> mt_state m = Searching) \<and> mt_probe m = None \<and> \<not> flt t (mt_next_action_ms m)"

definition waiting :: "path_mtu \<Rightarrow> nat \<Rightarrow> nat \<Rightarrow> nat \<Rightarrow> byte \<Rightarrow> f64 \<Rightarrow> bool" where
  "waiting m cl c r a t0 \<longleftrightarrow> mt_clamp m = cl \<and> mt_current m = c \<and> mt_rung m = r \<and> mt_probe_attempts m = a
     \<and> mt_state m = Searching \<and> (\<exists>fl. mt_probe m = Some fl \<and> if_sent_ms fl = t0)"

definition search_over :: "path_mtu \<Rightarrow> nat \<Rightarrow> bool" where
  "search_over m c \<longleftrightarrow> mt_state m = SearchComplete \<and> mt_current m = c"

definition probe_id :: "path_mtu \<Rightarrow> u32" where
  "probe_id m = (if mt_next_probe_id m = U32_MAX then 1 else mt_next_probe_id m)"

lemma allocate_probe_id_eq: "allocate_probe_id m = (m\<lparr>mt_next_probe_id := sat_add (probe_id m) 1\<rparr>, probe_id m)"
  by (simp add: allocate_probe_id_def probe_id_def Let_def)

lemma probe_id_state [simp]: "probe_id (m\<lparr>mt_state := s\<rparr>) = probe_id m"
  by (simp add: probe_id_def)

definition reserved :: "path_mtu \<Rightarrow> nat \<Rightarrow> f64 \<Rightarrow> path_mtu" where
  "reserved m sz t = m\<lparr>mt_state := Searching, mt_next_probe_id := sat_add (probe_id m) 1,
     mt_probe_attempts := sat_add (mt_probe_attempts m) 1,
     mt_probe := Some \<lparr>if_probe = \<lparr>pb_id = probe_id m, pb_size = sz, pb_attempt = sat_add (mt_probe_attempts m) 1\<rparr>, if_sent_ms = t\<rparr>,
     mt_next_action_ms := fadd t PROBE_TIMEOUT_MS\<rparr>"

lemma ready_start:
  assumes "ready m cl c r a t" "is_finite t" "cand_of cl c r = Some sz" "unat a < 3"
  shows "start_probe m t = (reserved m sz t, Some \<lparr>pb_id = probe_id m, pb_size = sz, pb_attempt = sat_add a 1\<rparr>)"
proof -
  have "\<not> MAX_PROBES < sat_add a 1"
    using assms(4) by (simp add: MAX_PROBES_def word_less_nat_alt unat_sat_add)
  moreover have "start_probe m t = reserve_probe m t" using assms(1,2) by (auto simp: start_probe_def ready_def)
  ultimately show ?thesis
    using assms by (simp add: reserve_probe_def ready_def candidate_cand_of allocate_probe_id_eq reserved_def Let_def)
qed

lemma ready_round:
  assumes r: "ready m cl c r a t" and t: "is_finite t" and cand: "cand_of cl c r = Some sz" and a: "unat a < 3"
    and big: "K < sz"
  shows "waiting (search_round K t m) cl c r (sat_add a 1) t"
proof -
  have "mtu_on_timer m t = start_probe m t" using r by (simp add: mtu_on_timer_def ready_def)
  then show ?thesis
    using ready_start [OF r t cand a] r big by (simp add: search_round_def waiting_def reserved_def ready_def)
qed

lemma waiting_round:
  assumes w: "waiting m cl c r a t0" and t: "spaced t0 [t]" and cand: "cand_of cl c r = Some sz" and a: "unat a < 3"
    and big: "K < sz"
  shows "waiting (search_round K t m) cl c r (sat_add a 1) t"
proof -
  let ?m = "m\<lparr>mt_probe := None, mt_state := Searching, mt_next_action_ms := t\<rparr>"
  have "fst (on_probe_timeout m t) = ?m"
    using w t a by (auto simp: on_probe_timeout_def waiting_def fle_not_flt MAX_PROBES_def word_le_nat_alt)
  then have on: "mtu_on_timer m t = start_probe ?m t" using w by (auto simp: mtu_on_timer_def waiting_def)
  have r: "ready ?m cl c r a t" using w t by (cases t) (auto simp: ready_def waiting_def)
  then show ?thesis
    using on ready_start [OF r _ cand a] r big t by (simp add: search_round_def waiting_def reserved_def ready_def)
qed

lemma waiting_last:
  assumes w: "waiting m cl c r 3 t0" and t: "spaced t0 [t]"
  shows "search_over (search_round K t m) c"
proof -
  have "fst (on_probe_timeout m t) = mtu_complete (m\<lparr>mt_probe := None\<rparr>) t"
    using w t by (auto simp: on_probe_timeout_def waiting_def fle_not_flt MAX_PROBES_def)
  then have "mtu_on_timer m t = (mtu_complete (m\<lparr>mt_probe := None\<rparr>) t, None)"
    using w t by (auto simp: mtu_on_timer_def waiting_def start_probe_def mtu_complete_def)
  then show ?thesis using w by (simp add: search_round_def search_over_def mtu_complete_def waiting_def)
qed

lemma ready_ack:
  assumes r: "ready m cl c r a t" and t: "is_finite t" and cand: "cand_of cl c r = Some sz" and a: "unat a < 3"
    and fits: "sz \<le> K" and cl: "cl \<le> CEILING" and fl: "FLOOR \<le> c" and r3: "r \<le> 3" and t': "\<not> flt t' t"
  shows "if cand_of cl sz (min (Suc r) 3) = None then search_over (search_round K t m) sz
    else ready (search_round K t m) cl sz (min (Suc r) 3) 0 t'"
proof -
  have b: "c < sz" "sz \<le> cl" using cand by (auto simp: cand_of_def find_Some_iff split: option.splits if_splits)
  have "mtu_on_timer m t = start_probe m t" using r by (simp add: mtu_on_timer_def ready_def)
  then have sr: "search_round K t m = fst (on_probe_ack (reserved m sz t) (probe_id m) sz t)"
    using ready_start [OF r t cand a] fits by (simp add: search_round_def)
  have "\<not> flt t t" using t by (cases t) auto
  moreover have "min (usize_saturating_add r 1) (length LADDER) = min (Suc r) 3"
    using r3 by (simp add: usize_saturating_add_def usize_bound_def LADDER_def min_def)
  ultimately show ?thesis
    using sr r t b cl fl t'
    by (auto simp: on_probe_ack_def reserved_def ready_def candidate_cand_of search_over_def mtu_complete_def)
qed

lemma run_settled: "mtu_settled m \<Longrightarrow> search_run K ts m = m"
  by (cases ts) simp_all

lemma search_states:
  "ready m cl c r a t \<Longrightarrow> \<not> mtu_settled m" "waiting m cl c r a t0 \<Longrightarrow> \<not> mtu_settled m"
  "search_over m c \<Longrightarrow> mtu_settled m"
  by (auto simp: ready_def waiting_def search_over_def mtu_settled_def)

lemma ready_fail_run:
  assumes r: "ready m cl c r 0 t1" and cand: "cand_of cl c r = Some sz" and big: "K < sz"
    and sp: "spaced t0 (t1 # t2 # t3 # t4 # ts)"
  shows "search_over (search_run K (t1 # t2 # t3 # t4 # ts) m) c"
proof -
  let ?m1 = "search_round K t1 m" let ?m2 = "search_round K t2 ?m1" let ?m3 = "search_round K t3 ?m2"
  let ?m4 = "search_round K t4 ?m3"
  have n: "sat_add 0 1 = (1 :: byte)" "sat_add 1 1 = (2 :: byte)" "sat_add 2 1 = (3 :: byte)"
    by (simp_all add: sat_add_def)
  have w1: "waiting ?m1 cl c r 1 t1" using ready_round [OF r _ cand _ big] sp n by simp
  have w2: "waiting ?m2 cl c r 2 t2" using waiting_round [OF w1 _ cand _ big, of t2] sp n by simp
  have w3: "waiting ?m3 cl c r 3 t3" using waiting_round [OF w2 _ cand _ big, of t3] sp n by simp
  have o4: "search_over ?m4 c" using waiting_last [OF w3, of t4] sp by simp
  have "search_run K (t1 # t2 # t3 # t4 # ts) m = ?m4"
    using search_states(1) [OF r] search_states(2) [OF w1] search_states(2) [OF w2] search_states(2) [OF w3]
      run_settled [OF search_states(3) [OF o4]] by simp
  then show ?thesis using o4 by simp
qed

lemma cand_of_None: "cl \<le> CEILING \<Longrightarrow> cand_of cl c r = None \<longleftrightarrow> sizes_above cl c = []"
  by (auto simp: cand_of_def sizes_above_def legal_sizes_def filter_empty_conv find_None_iff split: option.splits
      dest!: find_Some_iff [THEN iffD1])

lemma find_sorted_least:
  assumes "find P xs = Some x" "sorted xs" "y \<in> set xs" "P y"
  shows "x \<le> (y :: nat)"
proof -
  obtain i where i: "i < length xs" "x = xs ! i" "\<forall>j < i. \<not> P (xs ! j)" using assms(1) by (auto simp: find_Some_iff)
  obtain j where j: "j < length xs" "y = xs ! j" using assms(3) by (auto simp: in_set_conv_nth)
  then have "i \<le> j" using i(3) assms(4) by (meson not_less)
  then show ?thesis using i j assms(2) by (simp add: sorted_iff_nth_mono)
qed

lemma cand_of_least:
  assumes cl: "cl \<le> CEILING" and rk: "rung_ok cl c r" and cand: "cand_of cl c r = Some sz"
  shows "sz \<in> set (sizes_above cl c)" and "\<And>s. s \<in> set (sizes_above cl c) \<Longrightarrow> sz \<le> s"
proof -
  let ?P = "\<lambda>sz. c < sz \<and> sz \<le> cl \<and> sz \<le> CEILING"
  have "set (drop r LADDER) \<subseteq> set LADDER" by (rule set_drop_subset)
  then show "sz \<in> set (sizes_above cl c)"
    using cand by (auto simp: cand_of_def find_Some_iff sizes_above_def legal_sizes_def split: option.splits if_splits)
  have srt: "sorted (drop r LADDER)" by (rule sorted_wrt_drop) (simp add: LADDER_def)
  have set_split: "set LADDER = set (take r LADDER) \<union> set (drop r LADDER)" by (metis append_take_drop_id set_append)
  fix s assume s: "s \<in> set (sizes_above cl c)"
  then have s': "s = cl \<or> s \<in> set LADDER \<and> ?P s" using cl by (auto simp: sizes_above_def legal_sizes_def split: if_splits)
  then have "s = cl \<or> s \<in> set (drop r LADDER) \<and> ?P s" using rk set_split unfolding rung_ok_def by (metis UnE leD)
  then consider "s = cl" | "s \<in> set (drop r LADDER)" "?P s" by blast
  then show "sz \<le> s"
  proof cases
    case 1
    then show ?thesis using cand by (auto simp: cand_of_def find_Some_iff split: option.splits if_splits)
  next
    case 2
    then obtain x where x: "find ?P (drop r LADDER) = Some x" by (cases "find ?P (drop r LADDER)") (auto simp: find_None_iff)
    then have "sz = x" using cand by (simp add: cand_of_def)
    then show ?thesis using find_sorted_least [OF x srt 2] by simp
  qed
qed

lemma cand_of_Some:
  assumes cl: "cl \<le> CEILING" and rk: "rung_ok cl c r" and cand: "cand_of cl c r = Some sz"
  shows "rung_ok cl sz (min (Suc r) 3)" and "length (sizes_above cl sz) < length (sizes_above cl c)"
    and "\<And>s. s \<in> set (sizes_above cl c) \<Longrightarrow> s = sz \<or> s \<in> set (sizes_above cl sz)"
    and "\<And>s. s \<in> set (sizes_above cl sz) \<Longrightarrow> s \<in> set (sizes_above cl c)"
proof -
  note least = cand_of_least [OF assms]
  show sub: "s \<in> set (sizes_above cl c)" if "s \<in> set (sizes_above cl sz)" for s using that least(1) by (auto simp: sizes_above_def)
  show "s = sz \<or> s \<in> set (sizes_above cl sz)" if "s \<in> set (sizes_above cl c)" for s
    using that least(2) [OF that] by (auto simp: sizes_above_def)
  have "sizes_above cl sz = filter (\<lambda>s. sz < s) (sizes_above cl c)"
    using least(1) by (auto simp: sizes_above_def intro!: filter_cong)
  then show "length (sizes_above cl sz) < length (sizes_above cl c)" using length_filter_less [OF least(1), of "\<lambda>s. sz < s"] by simp
  show "rung_ok cl sz (min (Suc r) 3)"
  proof (cases "r < length LADDER")
    case True
    have "LADDER ! r \<le> sz \<or> cl < LADDER ! r"
      using cand cl True by (auto simp: cand_of_def Cons_nth_drop_Suc [symmetric] split: if_splits option.splits
          dest!: find_Some_iff [THEN iffD1])
    moreover have "take (min (Suc r) 3) LADDER = take r LADDER @ [LADDER ! r]"
      using True take_Suc_conv_app_nth [OF True] by (simp add: LADDER_def min_def)
    moreover have "c < sz" using least(1) by (simp add: sizes_above_def)
    ultimately show ?thesis using rk by (fastforce simp: rung_ok_def)
  next
    case False
    then have "take r LADDER = LADDER" "take (min (Suc r) 3) LADDER = LADDER" by (simp_all add: LADDER_def)
    then show ?thesis using rk least(1) by (auto simp: rung_ok_def sizes_above_def)
  qed
qed

lemma length_ge_4:
  assumes "0 < n" "n + 3 \<le> length ts"
  obtains t1 t2 t3 t4 ts' where "ts = t1 # t2 # t3 # t4 # ts'"
proof -
  have "\<exists>t1 t2 t3 t4 ts'. ts = t1 # t2 # t3 # t4 # ts'"
    using assms by (cases n) (auto simp: Suc_le_length_iff numeral_3_eq_3)
  then show ?thesis using that by blast
qed

lemma search_run_ready:
  assumes "ready m cl c r 0 (hd ts)" "rung_ok cl c r" "r \<le> 3" "FLOOR \<le> c" "cl \<le> CEILING"
    and "sizes_above cl c \<noteq> []" "spaced t0 ts" "length (sizes_above cl c) + 3 \<le> length ts"
  shows "\<exists>g. search_over (search_run K ts m) g \<and> (g = c \<or> g \<in> set (sizes_above cl c) \<and> g \<le> K)
    \<and> (\<forall>s \<in> set (sizes_above cl c). s \<le> K \<longrightarrow> s \<le> g)"
  using assms
proof (induction "length (sizes_above cl c)" arbitrary: m c r t0 ts rule: less_induct)
  case less
  obtain sz where cand: "cand_of cl c r = Some sz" using cand_of_None [OF less.prems(5)] less.prems(6) by auto
  note least = cand_of_least [OF less.prems(5,2) cand] and step = cand_of_Some [OF less.prems(5,2) cand]
  have "0 < length (sizes_above cl c)" using less.prems(6) by simp
  then obtain t1 t2 t3 t4 ts' where ts: "ts = t1 # t2 # t3 # t4 # ts'" using less.prems(8) by (rule length_ge_4)
  have r: "ready m cl c r 0 t1" using less.prems(1) ts by simp
  show ?case
  proof (cases "sz \<le> K")
    case False
    have "s \<notin> set (sizes_above cl c)" if "s \<le> K" for s
      using that False least(2) [of s] by auto
    then show ?thesis using ready_fail_run [OF r cand, of K t0 t2 t3 t4 ts'] less.prems(7) ts False by auto
  next
    case True
    let ?m = "search_round K t1 m"
    have t: "is_finite t1" "\<not> flt t2 t1" using less.prems(7) ts by (simp_all add: fle_not_flt)
    have ack: "if cand_of cl sz (min (Suc r) 3) = None then search_over ?m sz else ready ?m cl sz (min (Suc r) 3) 0 t2"
      using ready_ack [OF r t(1) cand _ True less.prems(5,4,3) t(2)] by simp
    have run: "search_run K ts m = search_run K (t2 # t3 # t4 # ts') ?m" using search_states(1) [OF r] ts by simp
    have fl: "FLOOR \<le> sz" using least(1) less.prems(4) by (auto simp: sizes_above_def)
    show ?thesis
    proof (cases "sizes_above cl sz = []")
      case end': True
      then have o: "search_over ?m sz" using ack cand_of_None [OF less.prems(5)] by simp
      have "s \<le> sz" if "s \<in> set (sizes_above cl c)" for s using that step(3) [of s] end' by auto
      moreover have "search_run K ts m = ?m" unfolding run by (rule run_settled [OF search_states(3) [OF o]])
      ultimately show ?thesis using o least(1) True by auto
    next
      case more: False
      then have rd: "ready ?m cl sz (min (Suc r) 3) 0 (hd (t2 # t3 # t4 # ts'))"
        using ack cand_of_None [OF less.prems(5)] by simp
      have sp: "spaced t1 (t2 # t3 # t4 # ts')" and len: "length (sizes_above cl sz) + 3 \<le> length (t2 # t3 # t4 # ts')"
        using less.prems(7,8) step(2) ts by auto
      obtain g where g: "search_over (search_run K (t2 # t3 # t4 # ts') ?m) g"
          "g = sz \<or> g \<in> set (sizes_above cl sz) \<and> g \<le> K" "\<forall>s \<in> set (sizes_above cl sz). s \<le> K \<longrightarrow> s \<le> g"
        using less.hyps [OF step(2) rd step(1) _ fl less.prems(5) more sp len] by auto
      have "sz \<le> g" using g(2) by (auto simp: sizes_above_def)
      then have "\<forall>s \<in> set (sizes_above cl c). s \<le> K \<longrightarrow> s \<le> g" using g(3) step(3) by blast
      moreover have "g \<in> set (sizes_above cl c) \<and> g \<le> K" using g(2) least(1) step(4) True by auto
      ultimately show ?thesis using g(1) run by metis
    qed
  qed
qed

lemma search_goal_eq:
  assumes "g = FLOOR \<or> g \<in> set (sizes_above cl FLOOR) \<and> g \<le> K" "\<forall>s \<in> set (sizes_above cl FLOOR). s \<le> K \<longrightarrow> s \<le> g"
  shows "search_goal cl K = g"
proof -
  have "search_goal cl K = Max (set (FLOOR # filter (\<lambda>sz. sz \<le> K) (legal_sizes cl)))"
    unfolding search_goal_def by (rule Max.set_eq_fold [symmetric])
  also have "\<dots> = g"
  proof (rule Max_eqI)
    show "y \<le> g" if "y \<in> set (FLOOR # filter (\<lambda>sz. sz \<le> K) (legal_sizes cl))" for y
      using that assms by (cases "y \<le> FLOOR") (auto simp: sizes_above_def)
  qed (use assms in \<open>auto simp: sizes_above_def\<close>)
  finally show ?thesis .
qed

text \<open>
  C18: The search always ends, at the right size: against a path that passes datagrams of up to \<open>K\<close> bytes,
  a fresh discovery whose configuration admits the base size settles within seven timer rounds spaced by
  the probe timeout, and the size it then uses is the largest of the base size, the ladder rungs and the
  path ceiling that the path passes and the configuration allows.
\<close>

theorem mtu_search_settles:
  assumes "FLOOR \<le> config_max_datagram_size config" "is_finite now" "spaced now ts" "7 \<le> length ts"
  shows "mt_state (search_run K ts (mtu_new_with_config config now)) = SearchComplete
    \<and> mt_current (search_run K ts (mtu_new_with_config config now)) = search_goal (config_max_datagram_size config) K"
proof -
  let ?cl = "config_max_datagram_size config" and ?m = "mtu_new_with_config config now"
  obtain t ts' where ts: "ts = t # ts'" using assms(4) by (cases ts) auto
  have t: "\<not> flt t now" "is_finite t" using assms(3) ts by (simp_all add: fle_not_flt)
  have r: "ready ?m ?cl FLOOR 0 0 t"
    using assms(1,2) t by (simp add: ready_def mtu_new_with_config_def Let_def not_less)
  have cl: "?cl \<le> CEILING" by (rule config_clamp)
  have len: "length (sizes_above ?cl FLOOR) \<le> 4"
    using length_filter_le by (simp add: sizes_above_def legal_sizes_def LADDER_def)
  show ?thesis
  proof (cases "sizes_above ?cl FLOOR = []")
    case True
    then have "candidate ?m = None" using cand_of_None [OF cl] r by (simp add: candidate_cand_of ready_def)
    then have "search_round K t ?m = mtu_complete ?m t"
      using r t(2) by (auto simp: search_round_def mtu_on_timer_def ready_def start_probe_def reserve_probe_def)
    then have o: "search_over (search_round K t ?m) FLOOR" using r by (simp add: search_over_def mtu_complete_def ready_def)
    have "search_run K ts ?m = search_round K t ?m"
      using ts search_states(1) [OF r] run_settled [OF search_states(3) [OF o]] by simp
    then show ?thesis using o search_goal_eq [of FLOOR ?cl K] True by (simp add: search_over_def)
  next
    case False
    obtain g where g: "search_over (search_run K ts ?m) g" "g = FLOOR \<or> g \<in> set (sizes_above ?cl FLOOR) \<and> g \<le> K"
        "\<forall>s \<in> set (sizes_above ?cl FLOOR). s \<le> K \<longrightarrow> s \<le> g"
      using search_run_ready [OF _ _ _ _ cl False assms(3), of ?m 0 K] r ts len assms(4) by (auto simp: rung_ok_def)
    then show ?thesis using search_goal_eq [OF g(2,3)] by (simp add: search_over_def)
  qed
qed

theorem mtu_search_settles_witness:
  "mt_state (search_run 1390 (map (\<lambda>n. Fin (of_nat n)) [1000, 2000, 3000, 4000, 5000, 6000, 7000]) (mtu_new_with_config (direct_v4 1500) (Fin 0)))
     = SearchComplete
   \<and> mt_current (search_run 1390 (map (\<lambda>n. Fin (of_nat n)) [1000, 2000, 3000, 4000, 5000, 6000, 7000]) (mtu_new_with_config (direct_v4 1500) (Fin 0)))
     = 1350"
proof -
  let ?ts = "map (\<lambda>n. Fin (of_nat n)) [1000, 2000, 3000, 4000, 5000, 6000, 7000]"
  have c: "config_max_datagram_size (direct_v4 1500) = 1472"
    by (simp add: config_max_datagram_size_def direct_v4_def path_config_new_def ip_udp_overhead_def path_overhead_def
        IPV4_UDP_OVERHEAD_def pmtu_consts)
  have "spaced (Fin 0) ?ts" by (simp add: PROBE_TIMEOUT_MS_def REPROBE_INTERVAL_MS_def)
  moreover have "search_goal 1472 1390 = 1350"
    by (simp add: search_goal_def legal_sizes_def LADDER_def pmtu_consts)
  ultimately show ?thesis using mtu_search_settles [of "direct_v4 1500" "Fin 0" ?ts 1390] c by (simp add: pmtu_consts)
qed

definition demo_mtu :: path_mtu where
  "demo_mtu = fst (start_probe (mtu_new Direct) (Fin 5))"

lemma demo_mtu_start: "mt_probe demo_mtu = Some \<lparr>if_probe = \<lparr>pb_id = 1, pb_size = 1280, pb_attempt = 1\<rparr>, if_sent_ms = Fin 5\<rparr>"
  and demo_mtu_clamp: "mt_clamp demo_mtu = 1472" "mt_current demo_mtu = FLOOR" and demo_mtu_inv: "mtu_inv demo_mtu"
proof -
  have r: "ready (mtu_new Direct) 1472 FLOOR 0 0 (Fin 5)" and i: "probe_id (mtu_new Direct) = 1"
    by (simp_all add: ready_def mtu_new_def mtu_new_with_config_def default_for_def config_max_datagram_size_def Let_def
        path_config_new_def ip_udp_overhead_def path_overhead_def IPV4_UDP_OVERHEAD_def pmtu_consts probe_id_def U32_MAX_def)
  have d: "demo_mtu = reserved (mtu_new Direct) 1280 (Fin 5)"
    using ready_start [OF r, of 1280] by (simp add: demo_mtu_def cand_of_def LADDER_def pmtu_consts)
  have a: "sat_add 0 1 = (1 :: byte)" by (simp add: sat_add_def)
  show "mt_probe demo_mtu = Some \<lparr>if_probe = \<lparr>pb_id = 1, pb_size = 1280, pb_attempt = 1\<rparr>, if_sent_ms = Fin 5\<rparr>"
    "mt_clamp demo_mtu = 1472" "mt_current demo_mtu = FLOOR"
    using r i a by (simp_all add: d reserved_def ready_def)
  show "mtu_inv demo_mtu" unfolding demo_mtu_def by (rule start_probe_inv) (simp add: mtu_new_def mtu_new_inv)
qed

text \<open>
  Whatever sequence of probes, acknowledgements, timeouts, failed sends, black-hole reports and path
  changes the machine goes through, the size in use stays between the base size and the path ceiling
  (which never exceeds the protocol maximum), a path whose ceiling is below the base size stays in the
  error state, and an outstanding probe always asks for more than the size in use, fits the path, and is
  one of at most three attempts.
\<close>

theorem mtu_reachable_bounds:
  assumes "reachable mtu_start mtu_step m"
  shows "FLOOR \<le> mt_current m \<and> mt_clamp m \<le> CEILING
    \<and> (if FLOOR \<le> mt_clamp m then mt_current m \<le> mt_clamp m else mt_state m = ErrorState \<and> mt_current m = FLOOR)
    \<and> (case mt_probe m of None \<Rightarrow> True
       | Some fl \<Rightarrow> mt_state m = Searching \<and> mt_current m < pb_size (if_probe fl) \<and> pb_size (if_probe fl) \<le> mt_clamp m
           \<and> 1 \<le> unat (pb_attempt (if_probe fl)) \<and> unat (pb_attempt (if_probe fl)) \<le> 3)"
  using mtu_sys.reachable_inv [OF assms] by (auto simp: mtu_inv_def Suc_le_eq split: option.splits if_splits)

theorem mtu_reachable_bounds_witness:
  "mt_probe demo_mtu \<noteq> None \<and> mt_current demo_mtu \<le> mt_clamp demo_mtu \<and> mt_clamp demo_mtu \<le> CEILING"
proof -
  have "reachable mtu_start mtu_step (mtu_new Direct)" by (rule reach_start) (auto simp: mtu_start_def mtu_new_def)
  then have "reachable mtu_start mtu_step demo_mtu"
    unfolding demo_mtu_def by (rule reach_step) (rule ms_start [OF prod.collapse [symmetric]])
  from mtu_reachable_bounds [OF this] show ?thesis by (simp add: demo_mtu_start demo_mtu_clamp pmtu_consts)
qed

lemma on_probe_ack_grows:
  assumes e: "on_probe_ack m i sz now = (m', ok)" and gr: "mt_current m < mt_current m'"
  shows "\<exists>fl now. mt_probe m = Some fl \<and> on_probe_ack m (pb_id (if_probe fl)) (pb_size (if_probe fl)) now = (m', True)
    \<and> \<not> flt now (if_sent_ms fl) \<and> mt_current m' = pb_size (if_probe fl)"
proof (cases "mt_probe m")
  case None
  then show ?thesis using assms by (simp add: on_probe_ack_def)
next
  case (Some fl)
  have k: "pb_id (if_probe fl) = i" "pb_size (if_probe fl) = sz" "\<not> flt now (if_sent_ms fl)" "ok" "mt_current m' = sz"
    using e gr Some by (auto simp: on_probe_ack_def mtu_complete_def Let_def split: if_splits)
  then show ?thesis using e Some by auto
qed

text \<open>
  The size in use grows only on evidence: a step that leaves the machine with a larger size is an
  acknowledgement that names the identifier and the size of the outstanding probe, at a time not before
  it was sent, and the new size is exactly the probe's.
\<close>

theorem mtu_grows_on_exact_ack:
  assumes "mtu_step m m'" "mtu_inv m" "mt_current m < mt_current m'"
  shows "\<exists>fl now. mt_probe m = Some fl \<and> on_probe_ack m (pb_id (if_probe fl)) (pb_size (if_probe fl)) now = (m', True)
    \<and> \<not> flt now (if_sent_ms fl) \<and> mt_current m' = pb_size (if_probe fl)"
  using assms(1)
proof (cases rule: mtu_step.cases)
  case (ms_start now pr)
  then show ?thesis using start_probe_cases [OF assms(2), of now m' pr] assms(3) by simp
next
  case (ms_ack i sz now ok)
  then show ?thesis using assms(3) by (rule on_probe_ack_grows)
next
  case (ms_timeout now ok)
  then show ?thesis using assms(3) by (auto simp: on_probe_timeout_def mtu_complete_def Let_def split: option.splits if_splits)
next
  case (ms_failed ok)
  then show ?thesis using assms(3) by (auto simp: on_probe_send_failed_def split: option.splits)
next
  case (ms_timer now pr)
  have "mt_current (fst (on_probe_timeout m now)) = mt_current m"
    by (simp add: on_probe_timeout_def mtu_complete_def Let_def split: option.split)
  moreover note start_probe_cases [OF assms(2), of now m' pr]
    start_probe_cases [OF on_probe_timeout_inv [OF assms(2), of now], of now m' pr]
  ultimately show ?thesis using ms_timer assms(3) by (auto simp: mtu_on_timer_def Let_def split: if_splits)
next
  case (ms_hole now ok)
  then show ?thesis using assms(2,3) by (auto simp: on_black_hole_def mtu_inv_def Let_def split: if_splits)
next
  case (ms_reset config now)
  then show ?thesis using assms(2,3) by (simp add: mtu_reset_with_config_def mtu_new_with_config_def mtu_inv_def Let_def)
qed

theorem mtu_grows_on_exact_ack_witness:
  "mt_current demo_mtu = FLOOR \<and> mt_current (fst (on_probe_ack demo_mtu 1 1280 (Fin 9))) = 1280
   \<and> (\<exists>fl now. mt_probe demo_mtu = Some fl
     \<and> on_probe_ack demo_mtu (pb_id (if_probe fl)) (pb_size (if_probe fl)) now = (fst (on_probe_ack demo_mtu 1 1280 (Fin 9)), True)
     \<and> \<not> flt now (if_sent_ms fl) \<and> mt_current (fst (on_probe_ack demo_mtu 1 1280 (Fin 9))) = pb_size (if_probe fl))"
proof -
  have c: "mt_current (fst (on_probe_ack demo_mtu 1 1280 (Fin 9))) = 1280"
    by (simp add: on_probe_ack_def demo_mtu_start demo_mtu_clamp Let_def mtu_complete_def pmtu_consts)
  moreover have "mtu_step demo_mtu (fst (on_probe_ack demo_mtu 1 1280 (Fin 9)))" by (rule ms_ack [OF prod.collapse [symmetric]])
  moreover have "mt_current demo_mtu < mt_current (fst (on_probe_ack demo_mtu 1 1280 (Fin 9)))"
    unfolding c by (simp add: demo_mtu_clamp pmtu_consts)
  ultimately show ?thesis using mtu_grows_on_exact_ack [OF _ demo_mtu_inv] demo_mtu_clamp by blast
qed

end
