(* ===== verification/Stun.thy ===== *)
theory Stun
  imports Packet
begin

text \<open>
  The connectivity-check codec (\<open>core/src/stun.rs\<close>): structural parsing, the two-pass
  authentication (integrity under a substituted length, then the fingerprint), the three encoders
  and the obfuscated mapped address. HMAC-SHA1 comes from the \<open>hmac\<close> and \<open>sha1\<close> crates and is the
  parameter \<open>H\<close> of every definition that signs or verifies; it takes a key of any length and returns
  twenty bytes (\<open>hmac_ok\<close>). A string slice is its bytes.
\<close>

section \<open>Constants and data\<close>

definition STUN_HEADER_LEN :: nat where "STUN_HEADER_LEN = 20"
definition MAGIC_COOKIE :: u32 where "MAGIC_COOKIE = 0x2112A442"
definition MIN_MESSAGE :: nat where "MIN_MESSAGE = 52"
definition MAX_MESSAGE :: nat where "MAX_MESSAGE = 256"
definition MAX_UFRAG :: nat where "MAX_UFRAG = 32"
definition TYPE_BINDING_REQUEST :: u16 where "TYPE_BINDING_REQUEST = 0x0001"
definition TYPE_BINDING_SUCCESS :: u16 where "TYPE_BINDING_SUCCESS = 0x0101"
definition ATTR_USERNAME :: u16 where "ATTR_USERNAME = 0x0006"
definition ATTR_MESSAGE_INTEGRITY :: u16 where "ATTR_MESSAGE_INTEGRITY = 0x0008"
definition ATTR_XOR_MAPPED_ADDRESS :: u16 where "ATTR_XOR_MAPPED_ADDRESS = 0x0020"
definition ATTR_PRIORITY :: u16 where "ATTR_PRIORITY = 0x0024"
definition ATTR_FINGERPRINT :: u16 where "ATTR_FINGERPRINT = 0x8028"
definition ATTR_ICE_CONTROLLED :: u16 where "ATTR_ICE_CONTROLLED = 0x8029"
definition ATTR_NETWORK_COST :: u16 where "ATTR_NETWORK_COST = 0xC057"
definition INTEGRITY_LEN :: nat where "INTEGRITY_LEN = 24"
definition FINGERPRINT_LEN :: nat where "FINGERPRINT_LEN = 8"
definition TRAILER_LEN :: nat where "TRAILER_LEN = INTEGRITY_LEN + FINGERPRINT_LEN"
definition FINGERPRINT_XOR :: u32 where "FINGERPRINT_XOR = 0x5354554E"
definition PRIORITY_VALUE :: u32 where "PRIORITY_VALUE = 0x6E001EFF"
definition NETWORK_COST_VALUE :: u32 where "NETWORK_COST_VALUE = 0x00000032"

lemmas stun_sizes = STUN_HEADER_LEN_def MIN_MESSAGE_def MAX_MESSAGE_def MAX_UFRAG_def
  INTEGRITY_LEN_def FINGERPRINT_LEN_def TRAILER_LEN_def

lemmas stun_attrs = ATTR_USERNAME_def ATTR_MESSAGE_INTEGRITY_def ATTR_XOR_MAPPED_ADDRESS_def
  ATTR_PRIORITY_def ATTR_FINGERPRINT_def ATTR_ICE_CONTROLLED_def ATTR_NETWORK_COST_def

text \<open>A transaction identifier is its twelve bytes.\<close>

type_synonym transaction_id = bytes

datatype stun_method = BindingRequest | BindingSuccess

text \<open>\<open>core::net::SocketAddr\<close>: the octets in network order, the port, and for IPv6 the flow
  information and scope identifier.\<close>

datatype socket_addr = SA_V4 bytes u16 | SA_V6 bytes u16 u32 u32

record stun_message =
  stn_bytes :: bytes
  stn_method :: stun_method
  stn_tid :: transaction_id
  stn_integrity_at :: "nat option"

text \<open>The \<open>?\<close> operator.\<close>

definition and_then :: "'a result \<Rightarrow> ('a \<Rightarrow> 'b result) \<Rightarrow> 'b result" where
  "and_then r f = (case r of Inl e \<Rightarrow> Inl e | Inr v \<Rightarrow> f v)"

section \<open>Reading fields\<close>

definition stun_be16 :: "bytes \<Rightarrow> nat \<Rightarrow> u16 result" where
  "stun_be16 bs i = (case get_range bs i (i + 2) of
     Some [a, b] \<Rightarrow> Inr (of_be16 a b) | _ \<Rightarrow> Inl Malformed)"

definition stun_be32 :: "bytes \<Rightarrow> nat \<Rightarrow> u32 result" where
  "stun_be32 bs i = (case get_range bs i (i + 4) of
     Some [a, b, c, d] \<Rightarrow> Inr (of_be32 a b c d) | _ \<Rightarrow> Inl Malformed)"

definition put_be16 :: "bytes \<Rightarrow> nat \<Rightarrow> u16 \<Rightarrow> bytes result" where
  "put_be16 bs i v = (if i + 2 \<le> length bs then Inr (put_at bs i (to_be16 v)) else Inl BufferTooSmall)"

section \<open>Walking the attributes\<close>

record attributes =
  aw_bytes :: bytes
  aw_at :: nat
  aw_end :: nat
  aw_done :: bool

definition attributes_new :: "bytes \<Rightarrow> nat \<Rightarrow> attributes" where
  "attributes_new bs stop = \<lparr>aw_bytes = bs, aw_at = STUN_HEADER_LEN, aw_end = stop, aw_done = False\<rparr>"

definition padding :: "nat \<Rightarrow> nat" where
  "padding len = (4 - len mod 4) mod 4"

definition attributes_next :: "attributes \<Rightarrow> attributes \<times> (u16 \<times> bytes \<times> nat) result option" where
  "attributes_next w =
     (if aw_done w \<or> aw_end w < aw_at w + 4 then (w, None)
      else let failed = w\<lparr>aw_done := True\<rparr> in
        case stun_be16 (aw_bytes w) (aw_at w) of Inl e \<Rightarrow> (failed, Some (Inl e)) | Inr kind \<Rightarrow>
        case stun_be16 (aw_bytes w) (aw_at w + 2) of Inl e \<Rightarrow> (failed, Some (Inl e)) | Inr len16 \<Rightarrow>
          let len = unat len16; start = aw_at w + 4 in
          case usize_checked_add start len of None \<Rightarrow> (failed, Some (Inl Malformed)) | Some stop \<Rightarrow>
            if aw_end w < stop then (failed, Some (Inl Malformed))
            else case get_range (aw_bytes w) start stop of
              None \<Rightarrow> (failed, Some (Inl Malformed))
            | Some value \<Rightarrow>
                let nxt = stop + padding len in (w\<lparr>aw_at := nxt\<rparr>, Some (Inr (kind, value, nxt))))"

lemma attributes_next_progress:
  "attributes_next w = (w', Some (Inr (k, v, n))) \<Longrightarrow>
     aw_end w' = aw_end w \<and> aw_at w + 4 \<le> aw_end w \<and> aw_at w + 4 \<le> aw_at w'"
  by (auto simp: attributes_next_def Let_def usize_checked_add_def
      split: if_splits sum.splits option.splits)

text \<open>The walk of \<open>parse\<close>: the offset just past the last attribute, or the first error.\<close>

function walk_reached :: "attributes \<Rightarrow> nat \<Rightarrow> nat result" where
  "walk_reached w reached = (case attributes_next w of
     (_, None) \<Rightarrow> Inr reached
   | (_, Some (Inl e)) \<Rightarrow> Inl e
   | (w', Some (Inr (_, _, nxt))) \<Rightarrow> walk_reached w' nxt)"
  by pat_completeness auto
termination
  by (relation "measure (\<lambda>(w, _). aw_end w - aw_at w)")
    (auto dest!: attributes_next_progress [OF sym])

declare walk_reached.simps [simp del]

text \<open>The loop of \<open>username\<close> and \<open>mapped_address\<close>: the value of the first attribute of a type,
  giving up at the first malformed one.\<close>

function attr_find :: "u16 \<Rightarrow> attributes \<Rightarrow> bytes option" where
  "attr_find wanted w = (case attributes_next w of
     (w', Some (Inr (kind, v, _))) \<Rightarrow> if kind = wanted then Some v else attr_find wanted w'
   | _ \<Rightarrow> None)"
  by pat_completeness auto
termination
  by (relation "measure (\<lambda>(_, w). aw_end w - aw_at w)")
    (auto dest!: attributes_next_progress [OF sym])

declare attr_find.simps [simp del]

section \<open>Integrity and fingerprint\<close>

type_synonym hmac = "bytes \<Rightarrow> bytes \<Rightarrow> bytes"

definition hmac_ok :: "hmac \<Rightarrow> bool" where
  "hmac_ok H \<longleftrightarrow> (\<forall>k m. length (H k m) = 20)"

text \<open>Feeding a digest in three pieces is feeding it their concatenation.\<close>

definition integrity_of :: "hmac \<Rightarrow> bytes \<Rightarrow> nat \<Rightarrow> bytes \<Rightarrow> bytes result" where
  "integrity_of H bs i password =
     and_then (ok_or (u16_try_from (i + 4)) Oversized) (\<lambda>claimed.
     and_then (ok_or (get_range bs 0 2) Malformed) (\<lambda>head.
     and_then (ok_or (get_range bs 4 i) Malformed) (\<lambda>body.
       Inr (H password (head @ to_be16 claimed @ body)))))"

definition fingerprint_of :: "bytes \<Rightarrow> nat \<Rightarrow> u32 result" where
  "fingerprint_of bs i =
     and_then (ok_or (u16_try_from (i + 12)) Oversized) (\<lambda>claimed.
     and_then (ok_or (get_range bs 0 2) Malformed) (\<lambda>head.
     let crc = crc32_update (crc32_update crc32_new head) (to_be16 claimed) in
     and_then (ok_or (get_range bs 4 (i + INTEGRITY_LEN)) Malformed) (\<lambda>body.
       Inr (crc32_finish (crc32_update crc body) XOR FINGERPRINT_XOR))))"

section \<open>Parsing\<close>

definition is_trailer :: "bytes \<Rightarrow> nat \<Rightarrow> bool" where
  "is_trailer bs i \<longleftrightarrow> stun_be16 bs i = Inr ATTR_MESSAGE_INTEGRITY \<and> stun_be16 bs (i + 2) = Inr 20
     \<and> stun_be16 bs (i + INTEGRITY_LEN) = Inr ATTR_FINGERPRINT
     \<and> stun_be16 bs (i + INTEGRITY_LEN + 2) = Inr 4"

definition stun_integrity_at :: "bytes \<Rightarrow> nat option" where
  "stun_integrity_at bs = (if MIN_MESSAGE \<le> length bs \<and> is_trailer bs (length bs - TRAILER_LEN)
     then Some (length bs - TRAILER_LEN) else None)"

definition stun_parse :: "bytes \<Rightarrow> stun_message result" where
  "stun_parse datagram =
     (if length datagram < STUN_HEADER_LEN \<or> MAX_MESSAGE < length datagram then Inl Malformed
      else and_then (ok_or (get_range datagram 0 STUN_HEADER_LEN) Malformed) (\<lambda>head.
        and_then (stun_be16 head 0) (\<lambda>kind.
        and_then (if kind = TYPE_BINDING_REQUEST then Inr BindingRequest
                  else if kind = TYPE_BINDING_SUCCESS then Inr BindingSuccess
                  else Inl Malformed) (\<lambda>meth.
        and_then (stun_be32 head 4) (\<lambda>cookie.
        if cookie \<noteq> MAGIC_COOKIE then Inl Malformed
        else and_then (stun_be16 head 2) (\<lambda>claimed.
        if unat claimed \<noteq> length datagram - STUN_HEADER_LEN then Inl Malformed
        else and_then (ok_or (get_range head 8 20) Malformed) (\<lambda>tid.
        let integrity_at = stun_integrity_at datagram;
            stop = (case integrity_at of None \<Rightarrow> length datagram | Some i \<Rightarrow> i) in
        and_then (walk_reached (attributes_new datagram stop) STUN_HEADER_LEN) (\<lambda>reached.
        if reached \<noteq> stop then Inl Malformed
        else Inr \<lparr>stn_bytes = datagram, stn_method = meth, stn_tid = tid,
                  stn_integrity_at = integrity_at\<rparr>))))))))"

definition is_authenticated :: "stun_message \<Rightarrow> bool" where
  "is_authenticated m = (stn_integrity_at m \<noteq> None)"

text \<open>The constant-time comparison: the differences of all byte pairs, combined.\<close>

definition diff_bytes :: "bytes \<Rightarrow> bytes \<Rightarrow> byte" where
  "diff_bytes xs ys = fold (\<lambda>(a, b) diff. diff OR (a XOR b)) (zip xs ys) 0"

definition stun_verify :: "hmac \<Rightarrow> stun_message \<Rightarrow> bytes \<Rightarrow> bool" where
  "stun_verify H m password = (case stn_integrity_at m of None \<Rightarrow> False | Some i \<Rightarrow>
     case stun_be32 (stn_bytes m) (i + INTEGRITY_LEN + 4) of Inl _ \<Rightarrow> False | Inr expected \<Rightarrow>
     case fingerprint_of (stn_bytes m) i of Inl _ \<Rightarrow> False | Inr actual \<Rightarrow>
     if expected \<noteq> actual then False
     else case integrity_of H (stn_bytes m) i password of Inl _ \<Rightarrow> False | Inr mac \<Rightarrow>
     case get_range (stn_bytes m) (i + 4) (i + 24) of None \<Rightarrow> False | Some carried \<Rightarrow>
       diff_bytes mac carried = 0)"

definition attributes_end :: "stun_message \<Rightarrow> nat" where
  "attributes_end m = (case stn_integrity_at m of None \<Rightarrow> length (stn_bytes m) | Some i \<Rightarrow> i)"

text \<open>\<open>core::str::from_utf8\<close> accepts the well-formed sequences of the Unicode standard.\<close>

definition cont_byte :: "byte \<Rightarrow> bool" where
  "cont_byte b \<longleftrightarrow> 0x80 \<le> b \<and> b \<le> 0xBF"

fun utf8_valid :: "bytes \<Rightarrow> bool" where
  "utf8_valid [] = True"
| "utf8_valid (a # bs) =
     (if a \<le> 0x7F then utf8_valid bs
      else if 0xC2 \<le> a \<and> a \<le> 0xDF then
        (case bs of b # r \<Rightarrow> cont_byte b \<and> utf8_valid r | _ \<Rightarrow> False)
      else if 0xE0 \<le> a \<and> a \<le> 0xEF then
        (case bs of b # c # r \<Rightarrow> cont_byte b \<and> (a = 0xE0 \<longrightarrow> 0xA0 \<le> b) \<and> (a = 0xED \<longrightarrow> b \<le> 0x9F)
           \<and> cont_byte c \<and> utf8_valid r | _ \<Rightarrow> False)
      else if 0xF0 \<le> a \<and> a \<le> 0xF4 then
        (case bs of b # c # d # r \<Rightarrow> cont_byte b \<and> (a = 0xF0 \<longrightarrow> 0x90 \<le> b) \<and> (a = 0xF4 \<longrightarrow> b \<le> 0x8F)
           \<and> cont_byte c \<and> cont_byte d \<and> utf8_valid r | _ \<Rightarrow> False)
      else False)"

definition stun_username :: "stun_message \<Rightarrow> bytes option" where
  "stun_username m = (case attr_find ATTR_USERNAME (attributes_new (stn_bytes m) (attributes_end m)) of
     None \<Rightarrow> None | Some v \<Rightarrow> if utf8_valid v then Some v else None)"

section \<open>Mapped addresses\<close>

definition sa_port :: "socket_addr \<Rightarrow> u16" where
  "sa_port a = (case a of SA_V4 _ p \<Rightarrow> p | SA_V6 _ p _ _ \<Rightarrow> p)"

definition to_ipv4_mapped :: "bytes \<Rightarrow> bytes option" where
  "to_ipv4_mapped octets =
     (if take 12 octets = replicate 10 0 @ [0xFF, 0xFF] then Some (drop 12 octets) else None)"

definition canonical :: "socket_addr \<Rightarrow> socket_addr" where
  "canonical addr = (case addr of
     SA_V6 octets port _ _ \<Rightarrow> (case to_ipv4_mapped octets of Some v4 \<Rightarrow> SA_V4 v4 port | None \<Rightarrow> addr)
   | SA_V4 _ _ \<Rightarrow> addr)"

definition wf_addr :: "socket_addr \<Rightarrow> bool" where
  "wf_addr a = (case a of SA_V4 octets _ \<Rightarrow> length octets = 4 | SA_V6 octets _ _ _ \<Rightarrow> length octets = 16)"

text \<open>The mask of octet \<open>index\<close>: the cookie, then the transaction identifier.\<close>

definition mapped_mask :: "transaction_id \<Rightarrow> nat \<Rightarrow> byte option" where
  "mapped_mask tid i = (case get_at (to_be32 MAGIC_COOKIE) i of
     Some b \<Rightarrow> Some b | None \<Rightarrow> get_at tid (i - 4))"

definition encode_mapped :: "bytes \<Rightarrow> socket_addr \<Rightarrow> transaction_id \<Rightarrow> (bytes \<times> nat) result" where
  "encode_mapped out addr0 tid =
     (let addr = canonical addr0; port = sa_port addr XOR 0x2112 in
      if length out < 1 then Inl BufferTooSmall
      else and_then (put_be16 (put_at out 0 [0]) 2 port) (\<lambda>out.
        case addr of
          SA_V4 octets _ \<Rightarrow>
            if length out < 8 then Inl BufferTooSmall
            else Inr (put_at (out[1 := 0x01]) 4
              (map (\<lambda>i. octets ! i XOR (case get_at (to_be32 MAGIC_COOKIE) i of Some b \<Rightarrow> b | None \<Rightarrow> 0))
                 [0..<length octets]), 8)
        | SA_V6 octets _ _ _ \<Rightarrow>
            if length out < 20 then Inl BufferTooSmall
            else Inr (put_at (out[1 := 0x02]) 4
              (map (\<lambda>i. octets ! i XOR (case mapped_mask tid i of Some b \<Rightarrow> b | None \<Rightarrow> 0))
                 [0..<length octets]), 20)))"

fun unmask :: "(nat \<Rightarrow> byte option) \<Rightarrow> nat \<Rightarrow> bytes \<Rightarrow> bytes option" where
  "unmask key i [] = Some []"
| "unmask key i (b # bs) = (case key i of None \<Rightarrow> None | Some k \<Rightarrow>
     case unmask key (Suc i) bs of None \<Rightarrow> None | Some r \<Rightarrow> Some ((b XOR k) # r))"

definition decode_mapped :: "bytes \<Rightarrow> transaction_id \<Rightarrow> socket_addr option" where
  "decode_mapped val tid = (case (get_at val 1, get_at val 2, get_at val 3) of
     (Some family, Some p1, Some p2) \<Rightarrow>
       (let port = of_be16 p1 p2 XOR 0x2112 in
        if family = 0x01 then
          (case get_range val 4 8 of None \<Rightarrow> None | Some raw \<Rightarrow>
             case unmask (get_at (to_be32 MAGIC_COOKIE)) 0 raw of None \<Rightarrow> None
             | Some octets \<Rightarrow> Some (SA_V4 octets port))
        else if family = 0x02 then
          (case get_range val 4 20 of None \<Rightarrow> None | Some raw \<Rightarrow>
             case unmask (mapped_mask tid) 0 raw of None \<Rightarrow> None
             | Some octets \<Rightarrow> Some (canonical (SA_V6 octets port 0 0)))
        else None)
   | _ \<Rightarrow> None)"

definition mapped_address :: "stun_message \<Rightarrow> socket_addr option" where
  "mapped_address m =
     (case attr_find ATTR_XOR_MAPPED_ADDRESS (attributes_new (stn_bytes m) (attributes_end m)) of
        None \<Rightarrow> None | Some v \<Rightarrow> decode_mapped v (stn_tid m))"

section \<open>Encoding\<close>

record stun_writer =
  w_buf :: bytes
  w_at :: nat
  w_tid :: transaction_id

definition writer_new :: "bytes \<Rightarrow> stun_writer" where
  "writer_new out = \<lparr>w_buf = out, w_at = 0, w_tid = replicate 12 0\<rparr>"

definition w_put :: "stun_writer \<Rightarrow> bytes \<Rightarrow> stun_writer result" where
  "w_put w bs = (case usize_checked_add (w_at w) (length bs) of None \<Rightarrow> Inl Oversized | Some stop \<Rightarrow>
     if length (w_buf w) < stop then Inl BufferTooSmall
     else Inr (w\<lparr>w_buf := put_at (w_buf w) (w_at w) bs, w_at := stop\<rparr>))"

definition w_header :: "stun_writer \<Rightarrow> u16 \<Rightarrow> transaction_id \<Rightarrow> stun_writer result" where
  "w_header w kind tid =
     and_then (w_put (w\<lparr>w_tid := tid\<rparr>) (to_be16 kind)) (\<lambda>w.
     and_then (w_put w (to_be16 0)) (\<lambda>w.
     and_then (w_put w (to_be32 MAGIC_COOKIE)) (\<lambda>w.
     w_put w tid)))"

definition w_attribute_header :: "stun_writer \<Rightarrow> u16 \<Rightarrow> nat \<Rightarrow> stun_writer result" where
  "w_attribute_header w kind len =
     and_then (ok_or (u16_try_from len) Oversized) (\<lambda>len16.
     and_then (w_put w (to_be16 kind)) (\<lambda>w. w_put w (to_be16 len16)))"

definition w_pad :: "stun_writer \<Rightarrow> nat \<Rightarrow> stun_writer result" where
  "w_pad w len = and_then (ok_or (get_range (replicate 3 0) 0 (padding len)) Malformed) (w_put w)"

definition w_attribute :: "stun_writer \<Rightarrow> u16 \<Rightarrow> bytes \<Rightarrow> stun_writer result" where
  "w_attribute w kind val =
     and_then (w_attribute_header w kind (length val)) (\<lambda>w.
     and_then (w_put w val) (\<lambda>w. w_pad w (length val)))"

text \<open>The borrow \<open>buf.get_mut(..total)\<close> restricts every write to the message; the rest of the
  caller's buffer is put back behind it.\<close>

definition w_seal :: "hmac \<Rightarrow> stun_writer \<Rightarrow> bytes \<Rightarrow> (bytes \<times> nat) result" where
  "w_seal H w password =
     (let i = w_at w in
      and_then (ok_or (usize_checked_add i TRAILER_LEN) Oversized) (\<lambda>tot.
      if MAX_MESSAGE < tot then Inl Oversized
      else if tot < MIN_MESSAGE then Inl Malformed
      else and_then (ok_or (get_range (w_buf w) 0 tot) BufferTooSmall) (\<lambda>buf.
        and_then (put_be16 buf i ATTR_MESSAGE_INTEGRITY) (\<lambda>buf.
        and_then (put_be16 buf (i + 2) 20) (\<lambda>buf.
        and_then (integrity_of H buf i password) (\<lambda>mac.
        if length buf < i + 24 then Inl BufferTooSmall
        else let buf = put_at buf (i + 4) mac in
        and_then (put_be16 buf (i + INTEGRITY_LEN) ATTR_FINGERPRINT) (\<lambda>buf.
        and_then (put_be16 buf (i + INTEGRITY_LEN + 2) 4) (\<lambda>buf.
        and_then (fingerprint_of buf i) (\<lambda>crc.
        if length buf < i + TRAILER_LEN then Inl BufferTooSmall
        else let buf = put_at buf (i + INTEGRITY_LEN + 4) (to_be32 crc) in
        and_then (ok_or (u16_try_from (i + 12)) Oversized) (\<lambda>claimed.
        and_then (put_be16 buf 2 claimed) (\<lambda>buf.
          Inr (put_at (w_buf w) 0 buf, tot))))))))))))"

definition encode_binding_request ::
    "hmac \<Rightarrow> bytes \<Rightarrow> transaction_id \<Rightarrow> bytes \<Rightarrow> bytes \<Rightarrow> bytes \<Rightarrow> bytes \<Rightarrow> (bytes \<times> nat) result" where
  "encode_binding_request H out tid local_ufrag remote_ufrag tiebreaker password =
     (if MAX_UFRAG < length local_ufrag \<or> MAX_UFRAG < length remote_ufrag then Inl Oversized
      else and_then (w_header (writer_new out) TYPE_BINDING_REQUEST tid) (\<lambda>w.
        and_then (ok_or (case usize_checked_add (length remote_ufrag) 1 of None \<Rightarrow> None
                         | Some n \<Rightarrow> usize_checked_add n (length local_ufrag)) Oversized) (\<lambda>user_len.
        and_then (w_attribute_header w ATTR_USERNAME user_len) (\<lambda>w.
        and_then (w_put w remote_ufrag) (\<lambda>w.
        and_then (w_put w [0x3A]) (\<lambda>w.
        and_then (w_put w local_ufrag) (\<lambda>w.
        and_then (w_pad w user_len) (\<lambda>w.
        and_then (w_attribute w ATTR_NETWORK_COST (to_be32 NETWORK_COST_VALUE)) (\<lambda>w.
        and_then (w_attribute w ATTR_ICE_CONTROLLED tiebreaker) (\<lambda>w.
        and_then (w_attribute w ATTR_PRIORITY (to_be32 PRIORITY_VALUE)) (\<lambda>w.
          w_seal H w password)))))))))))"

definition encode_reflexive_request :: "bytes \<Rightarrow> transaction_id \<Rightarrow> (bytes \<times> nat) result" where
  "encode_reflexive_request out tid =
     and_then (w_header (writer_new out) TYPE_BINDING_REQUEST tid) (\<lambda>w.
     and_then (put_be16 (w_buf w) 2 0) (\<lambda>buf. Inr (buf, w_at w)))"

definition encode_binding_response ::
    "hmac \<Rightarrow> bytes \<Rightarrow> transaction_id \<Rightarrow> socket_addr \<Rightarrow> bytes \<Rightarrow> (bytes \<times> nat) result" where
  "encode_binding_response H out tid observed password =
     and_then (w_header (writer_new out) TYPE_BINDING_SUCCESS tid) (\<lambda>w.
     and_then (encode_mapped (replicate 20 0) observed tid) (\<lambda>(val, written).
     and_then (ok_or (get_range val 0 written) BufferTooSmall) (\<lambda>val.
     and_then (w_attribute w ATTR_XOR_MAPPED_ADDRESS val) (\<lambda>w.
       w_seal H w password))))"

end
