(* ===== verification/Envelope.thy ===== *)
theory Envelope
  imports Packet
begin

text \<open>
  The record envelope (\<open>core/src/envelope.rs\<close>): the 29-byte header, the derived nonce with its direction
  bit, sealing in place and opening. AES-GCM itself is the \<open>aes_gcm\<close> crate: it is the parameter \<open>A\<close> of
  the definitions, and \<open>aead_ok\<close> names the documented behaviour the proofs use.
\<close>

section \<open>Constants and the direction bit\<close>

definition MAGIC :: bytes where "MAGIC = [0x17, 0xFE, 0xFD]"
definition NONCE_OFFSET :: nat where "NONCE_OFFSET = 3"
definition SIZE_OFFSET :: nat where "SIZE_OFFSET = 11"
definition TAG_OFFSET :: nat where "TAG_OFFSET = 13"
definition TAG_LEN :: nat where "TAG_LEN = 16"
definition NONCE_PREFIX_LEN :: nat where "NONCE_PREFIX_LEN = 4"
definition CIPHERTEXT_OFFSET :: nat where "CIPHERTEXT_OFFSET = 29"
definition SIZE_FIELD_BIAS :: u16 where "SIZE_FIELD_BIAS = 45"

lemmas envelope_consts = NONCE_OFFSET_def SIZE_OFFSET_def TAG_OFFSET_def TAG_LEN_def NONCE_PREFIX_LEN_def
  CIPHERTEXT_OFFSET_def ENVELOPE_LEN_def

datatype direction = Host | Guest

definition seal_bit :: "direction \<Rightarrow> u64" where
  "seal_bit d = push_bit 63 (case d of Host \<Rightarrow> 0 | Guest \<Rightarrow> 1)"

definition opposite :: "direction \<Rightarrow> direction" where
  "opposite d = (case d of Host \<Rightarrow> Guest | Guest \<Rightarrow> Host)"

definition from_datagram :: "bytes \<Rightarrow> direction option" where
  "from_datagram datagram = (case get_range datagram NONCE_OFFSET (NONCE_OFFSET + 8) of None \<Rightarrow> None
   | Some counter \<Rightarrow> (case get_at counter 0 of None \<Rightarrow> None
       | Some b \<Rightarrow> if b AND 0x80 = 0 then Some Host else Some Guest))"

section \<open>Keys\<close>

datatype cipher = Aes128 | Aes256

definition key_len :: "cipher \<Rightarrow> nat" where
  "key_len c = (case c of Aes128 \<Rightarrow> 16 | Aes256 \<Rightarrow> 32)"

text \<open>\<open>Keyed\<close> is the cipher with its key; the expanded key schedule is a function of the two.\<close>

record envelope =
  ev_cipher :: cipher
  ev_key :: bytes
  ev_nonce_prefix :: bytes

definition envelope_build :: "bytes \<Rightarrow> cipher \<Rightarrow> bytes \<Rightarrow> envelope" where
  "envelope_build key c prefix = \<lparr>ev_cipher = c, ev_key = key, ev_nonce_prefix = prefix\<rparr>"

definition from_credential :: "bytes \<Rightarrow> cipher \<Rightarrow> envelope result" where
  "from_credential material c = (case get_range material 0 (key_len c) of None \<Rightarrow> Inl BadKeyLength
   | Some key \<Rightarrow> (case get_range material (key_len c) (key_len c + NONCE_PREFIX_LEN) of None \<Rightarrow> Inl BadKeyLength
       | Some prefix \<Rightarrow> Inr (envelope_build key c prefix)))"

definition from_key :: "bytes \<Rightarrow> envelope result" where
  "from_key key = (if length key = 16 then Inr (envelope_build key Aes128 (replicate NONCE_PREFIX_LEN 0))
     else if length key = 32 then Inr (envelope_build key Aes256 (replicate NONCE_PREFIX_LEN 0))
     else Inl BadKeyLength)"

definition nonce_bytes :: "envelope \<Rightarrow> u64 \<Rightarrow> bytes" where
  "nonce_bytes e counter = ev_nonce_prefix e @ to_be64 counter"

section \<open>The AEAD parameter\<close>

text \<open>
  \<open>encrypt_in_place_detached\<close> and \<open>decrypt_in_place_detached\<close> with empty associated data, as functions
  of the cipher, the key, the nonce and the buffer.
\<close>

record aead =
  aead_encrypt :: "cipher \<Rightarrow> bytes \<Rightarrow> bytes \<Rightarrow> bytes \<Rightarrow> (bytes \<times> bytes) option"
  aead_decrypt :: "cipher \<Rightarrow> bytes \<Rightarrow> bytes \<Rightarrow> bytes \<Rightarrow> bytes \<Rightarrow> bytes option"

text \<open>
  What AES-GCM documents: encryption of a datagram-sized buffer succeeds, keeps its length and gives a
  16-byte tag; decryption accepts exactly the pairs of ciphertext and tag that encryption produces.
\<close>

definition aead_ok :: "aead \<Rightarrow> bool" where
  "aead_ok A \<longleftrightarrow>
     (\<forall>c k n p. length p \<le> MAX_DATAGRAM \<longrightarrow> aead_encrypt A c k n p \<noteq> None)
   \<and> (\<forall>c k n p ct t. aead_encrypt A c k n p = Some (ct, t) \<longrightarrow> length ct = length p \<and> length t = TAG_LEN)
   \<and> (\<forall>c k n ct t p. length t = TAG_LEN \<longrightarrow> aead_decrypt A c k n ct t = Some p \<longleftrightarrow> aead_encrypt A c k n p = Some (ct, t))"

section \<open>Sealing\<close>

definition size_field :: "nat \<Rightarrow> u16" where
  "size_field plaintext_len = (case u16_try_from plaintext_len of Some w \<Rightarrow> w | None \<Rightarrow> - 1) + SIZE_FIELD_BIAS"

definition envelope_header :: "u64 \<Rightarrow> nat \<Rightarrow> bytes \<Rightarrow> bytes" where
  "envelope_header counter plaintext_len tag = MAGIC @ to_be64 counter @ to_be16 (size_field plaintext_len) @ tag"

definition seal_in_place :: "aead \<Rightarrow> envelope \<Rightarrow> u64 \<Rightarrow> nat \<Rightarrow> bytes \<Rightarrow> (bytes \<times> nat) result" where
  "seal_in_place A e counter plaintext_len out =
     (case usize_checked_add plaintext_len ENVELOPE_LEN of None \<Rightarrow> Inl Oversized
      | Some tot \<Rightarrow>
          if MAX_DATAGRAM < tot then Inl Oversized
          else case get_range out 0 tot of None \<Rightarrow> Inl BufferTooSmall
          | Some dst \<Rightarrow>
              (case aead_encrypt A (ev_cipher e) (ev_key e) (nonce_bytes e counter) (drop CIPHERTEXT_OFFSET dst) of
                 None \<Rightarrow> Inl Decrypt
               | Some (ct, tag) \<Rightarrow> Inr (put_at out 0 (envelope_header counter plaintext_len tag @ ct), tot)))"

definition envelope_seal :: "aead \<Rightarrow> envelope \<Rightarrow> u64 \<Rightarrow> bytes \<Rightarrow> bytes \<Rightarrow> (bytes \<times> nat) result" where
  "envelope_seal A e counter plaintext out =
     (case usize_checked_add (length plaintext) ENVELOPE_LEN of None \<Rightarrow> Inl Oversized
      | Some tot \<Rightarrow>
          (case get_range out CIPHERTEXT_OFFSET tot of None \<Rightarrow> Inl BufferTooSmall
           | Some _ \<Rightarrow> seal_in_place A e counter (length plaintext) (put_at out CIPHERTEXT_OFFSET plaintext)))"

section \<open>Opening\<close>

record opened =
  op_counter :: u64
  op_cleartext :: bytes

definition envelope_open :: "aead \<Rightarrow> envelope \<Rightarrow> bytes \<Rightarrow> bytes \<Rightarrow> opened result" where
  "envelope_open A e datagram out =
     (if length datagram < ENVELOPE_LEN then Inl ShortDatagram
      else
        let cleartext_len = length datagram - ENVELOPE_LEN in
        case get_range datagram NONCE_OFFSET (NONCE_OFFSET + 8) of None \<Rightarrow> Inl ShortDatagram
        | Some counter_bytes \<Rightarrow>
            let counter = of_be64 counter_bytes in
            case get_range datagram TAG_OFFSET (TAG_OFFSET + TAG_LEN) of None \<Rightarrow> Inl ShortDatagram
            | Some tag \<Rightarrow>
                (case get_from datagram CIPHERTEXT_OFFSET of None \<Rightarrow> Inl ShortDatagram
                 | Some ciphertext \<Rightarrow>
                     (case get_range out 0 cleartext_len of None \<Rightarrow> Inl BufferTooSmall
                      | Some _ \<Rightarrow>
                          (case aead_decrypt A (ev_cipher e) (ev_key e) (nonce_bytes e counter) ciphertext tag of
                             None \<Rightarrow> Inl Decrypt
                           | Some body \<Rightarrow> Inr \<lparr>op_counter = counter, op_cleartext = body\<rparr>))))"

section \<open>Lemmas\<close>

lemma aead_encrypts: "aead_ok A \<Longrightarrow> length p \<le> MAX_DATAGRAM \<Longrightarrow> \<exists>ct t. aead_encrypt A c k n p = Some (ct, t)"
  by (auto simp: aead_ok_def)

lemma aead_lengths: "aead_ok A \<Longrightarrow> aead_encrypt A c k n p = Some (ct, t) \<Longrightarrow> length ct = length p \<and> length t = TAG_LEN"
  by (auto simp: aead_ok_def)

lemma aead_decrypts:
  "aead_ok A \<Longrightarrow> length t = TAG_LEN \<Longrightarrow> aead_decrypt A c k n ct t = Some p \<longleftrightarrow> aead_encrypt A c k n p = Some (ct, t)"
  by (auto simp: aead_ok_def)

lemma length_MAGIC [simp]: "length MAGIC = 3"
  by (simp add: MAGIC_def)

lemma length_envelope_header [simp]: "length (envelope_header c n t) = 13 + length t"
  by (simp add: envelope_header_def)

text \<open>
  A sealed record, as bytes. \<open>sealed\<close> is the specification both directions meet: \<open>seal_in_place\<close> writes
  it, and \<open>open\<close> accepts a datagram of a sealed shape whatever its magic and size field say.
\<close>

definition sealed :: "aead \<Rightarrow> envelope \<Rightarrow> u64 \<Rightarrow> bytes \<Rightarrow> bytes \<Rightarrow> bool" where
  "sealed A e counter plaintext dg \<longleftrightarrow> (\<exists>ct t.
     aead_encrypt A (ev_cipher e) (ev_key e) (nonce_bytes e counter) plaintext = Some (ct, t)
     \<and> dg = envelope_header counter (length plaintext) t @ ct)"

lemma seal_in_place_ok:
  assumes A: "aead_ok A" and n: "n + ENVELOPE_LEN \<le> MAX_DATAGRAM" and out: "n + ENVELOPE_LEN \<le> length out"
  obtains out' where "seal_in_place A e counter n out = Inr (out', n + ENVELOPE_LEN)" "length out' = length out"
    "sealed A e counter (take n (drop ENVELOPE_LEN out)) (take (n + ENVELOPE_LEN) out')"
proof -
  let ?p = "take n (drop ENVELOPE_LEN out)"
  have lp: "length ?p = n" using out by simp
  obtain ct t where enc: "aead_encrypt A (ev_cipher e) (ev_key e) (nonce_bytes e counter) ?p = Some (ct, t)"
    using aead_encrypts [OF A, of ?p] n lp by fastforce
  have l: "length ct = n" "length t = 16" using aead_lengths [OF A enc] lp by (simp_all add: TAG_LEN_def)
  have d: "drop CIPHERTEXT_OFFSET (take (n + 29) out) = ?p"
    by (simp add: drop_take CIPHERTEXT_OFFSET_def ENVELOPE_LEN_def)
  let ?o = "put_at out 0 (envelope_header counter n t @ ct)"
  have "seal_in_place A e counter n out = Inr (?o, n + ENVELOPE_LEN)"
    using n out enc unfolding seal_in_place_def
    by (simp add: usize_checked_add_def usize_bound_def core_consts get_range_def d)
  moreover have "length ?o = length out" using out l by (simp add: ENVELOPE_LEN_def)
  moreover have "take (n + ENVELOPE_LEN) ?o = envelope_header counter n t @ ct"
    using put_at_prefix [of "envelope_header counter n t @ ct" out] out l by (simp add: ENVELOPE_LEN_def add.commute)
  ultimately show ?thesis using that enc lp by (auto simp: sealed_def)
qed

lemma seal_in_place_cases:
  assumes "seal_in_place A e counter n out = Inr (out', m)"
  shows "m = n + ENVELOPE_LEN \<and> m \<le> MAX_DATAGRAM \<and> m \<le> length out"
  using assms by (auto simp: seal_in_place_def usize_checked_add_def get_range_def split: option.splits if_splits prod.splits)

lemma sealed_fields:
  assumes "aead_ok A" "sealed A e counter p dg"
  shows "length dg = length p + ENVELOPE_LEN" "get_range dg NONCE_OFFSET (NONCE_OFFSET + 8) = Some (to_be64 counter)"
    "\<exists>t ct. get_range dg TAG_OFFSET (TAG_OFFSET + TAG_LEN) = Some t \<and> get_from dg CIPHERTEXT_OFFSET = Some ct \<and> length t = TAG_LEN
      \<and> aead_encrypt A (ev_cipher e) (ev_key e) (nonce_bytes e counter) p = Some (ct, t)"
proof -
  obtain ct t where enc: "aead_encrypt A (ev_cipher e) (ev_key e) (nonce_bytes e counter) p = Some (ct, t)"
    and dg: "dg = envelope_header counter (length p) t @ ct" using assms(2) by (auto simp: sealed_def)
  have l: "length ct = length p" "length t = 16" using aead_lengths [OF assms(1) enc] by (simp_all add: TAG_LEN_def)
  show "length dg = length p + ENVELOPE_LEN" using dg l by (simp add: ENVELOPE_LEN_def)
  show "get_range dg NONCE_OFFSET (NONCE_OFFSET + 8) = Some (to_be64 counter)"
    by (simp add: dg l get_range_def envelope_header_def NONCE_OFFSET_def)
  have "get_range dg TAG_OFFSET (TAG_OFFSET + TAG_LEN) = Some t" "get_from dg CIPHERTEXT_OFFSET = Some ct"
    by (simp_all add: dg l get_range_def get_from_def envelope_header_def envelope_consts)
  then show "\<exists>t ct. get_range dg TAG_OFFSET (TAG_OFFSET + TAG_LEN) = Some t \<and> get_from dg CIPHERTEXT_OFFSET = Some ct \<and> length t = TAG_LEN
      \<and> aead_encrypt A (ev_cipher e) (ev_key e) (nonce_bytes e counter) p = Some (ct, t)"
    using enc l by (auto simp: TAG_LEN_def)
qed

lemma open_sealed:
  assumes A: "aead_ok A" and s: "sealed A e counter p dg" and out: "length p \<le> length out"
  shows "envelope_open A e dg out = Inr \<lparr>op_counter = counter, op_cleartext = p\<rparr>"
proof -
  obtain t ct where f: "get_range dg TAG_OFFSET (TAG_OFFSET + TAG_LEN) = Some t" "get_from dg CIPHERTEXT_OFFSET = Some ct"
      "length t = TAG_LEN" "aead_encrypt A (ev_cipher e) (ev_key e) (nonce_bytes e counter) p = Some (ct, t)"
    using sealed_fields(3) [OF A s] by auto
  then have "aead_decrypt A (ev_cipher e) (ev_key e) (nonce_bytes e counter) ct t = Some p"
    using aead_decrypts [OF A f(3)] by simp
  then show ?thesis using sealed_fields(1,2) [OF A s] f out by (simp add: envelope_open_def get_range_def [of out])
qed

lemma open_Inr:
  assumes "envelope_open A e dg out = Inr o'"
  shows "ENVELOPE_LEN \<le> length dg" "op_counter o' = of_be64 (take 8 (drop NONCE_OFFSET dg))"
    "aead_decrypt A (ev_cipher e) (ev_key e) (nonce_bytes e (op_counter o')) (drop CIPHERTEXT_OFFSET dg)
       (take TAG_LEN (drop TAG_OFFSET dg)) = Some (op_cleartext o')"
  using assms by (auto simp: envelope_open_def get_range_def get_from_def Let_def split: if_splits option.splits)

lemma bit_seal_bit: "bit (seal_bit d) n \<longleftrightarrow> d = Guest \<and> n = 63"
proof -
  have "bit (push_bit k 1 :: u64) n \<longleftrightarrow> n = k \<and> k < 64" for k by (auto simp: bit_simps)
  from this [of 63] show ?thesis by (cases d) (auto simp add: seal_bit_def simp del: push_bit_numeral push_bit_of_1)
qed

lemma seal_bit_bit: "bit (c OR seal_bit d) 63 \<longleftrightarrow> bit c 63 \<or> d = Guest"
  by (simp add: bit_or_iff bit_seal_bit)

lemma counter_below: "c < 2 ^ 63 \<Longrightarrow> \<not> bit (c :: u64) 63"
proof
  assume "c < 2 ^ 63" "bit c 63"
  then have "unat c < 2 ^ 63" by (simp add: word_less_nat_alt)
  moreover have "bit (unat c) 63" using \<open>bit c 63\<close> by (simp add: bit_unsigned_iff)
  ultimately show False by (simp add: bit_iff_odd)
qed

lemma seal_bit_disjoint:
  assumes "c < 2 ^ 63" "c' < 2 ^ 63" "c OR seal_bit d = c' OR seal_bit d'"
  shows "c = c' \<and> d = d'"
proof -
  have b: "\<not> bit c 63" "\<not> bit c' 63" using assms counter_below by auto
  have d: "d = d'" using seal_bit_bit [of c d] seal_bit_bit [of c' d'] b assms(3) by (cases d; cases d') auto
  have "bit c n = bit c' n" if "n < 64" for n
  proof (cases "n = 63")
    case False
    have "bit (c OR seal_bit d) n = bit (c' OR seal_bit d) n" using assms(3) d by simp
    then show ?thesis using False by (simp add: bit_or_iff bit_seal_bit)
  qed (use b in simp)
  then have "c = c'" by (intro bit_word_eqI) simp
  with d show ?thesis by simp
qed

lemma sealed_direction:
  assumes "aead_ok A" "sealed A e (c OR seal_bit d) p dg" "c < 2 ^ 63"
  shows "from_datagram dg = Some d"
proof -
  have "from_datagram dg = (if hd (to_be64 (c OR seal_bit d)) AND 0x80 = 0 then Some Host else Some Guest)"
    using sealed_fields(2) [OF assms(1,2)]
    by (simp add: from_datagram_def get_at_def hd_conv_nth to_be64_def to_be32_def)
  then show ?thesis using counter_below [OF assms(3)] unfolding to_be64_hd seal_bit_bit by (cases d) auto
qed

section \<open>Properties\<close>

text \<open>
  C22: Sealing then opening gives back the message: for an AEAD with the documented behaviour, any
  plaintext that fits a datagram, any counter and buffers that are large enough, \<open>seal\<close> succeeds with
  the plaintext length plus 29 bytes, leaves the rest of the buffer in place, and \<open>open\<close> on those bytes
  returns the counter and the plaintext.
\<close>

theorem envelope_roundtrip:
  assumes "aead_ok A" "length p + ENVELOPE_LEN \<le> MAX_DATAGRAM" "length p + ENVELOPE_LEN \<le> length out"
    "length p \<le> length scratch"
  shows "\<exists>out'. envelope_seal A e counter p out = Inr (out', length p + ENVELOPE_LEN) \<and> length out' = length out
    \<and> envelope_open A e (take (length p + ENVELOPE_LEN) out') scratch = Inr \<lparr>op_counter = counter, op_cleartext = p\<rparr>"
proof -
  let ?o = "put_at out CIPHERTEXT_OFFSET p"
  have l: "length ?o = length out" using assms(3) by (simp add: ENVELOPE_LEN_def CIPHERTEXT_OFFSET_def)
  have p: "take (length p) (drop ENVELOPE_LEN ?o) = p"
    using take_drop_put_at_same [of CIPHERTEXT_OFFSET p out] assms(3) by (simp add: ENVELOPE_LEN_def CIPHERTEXT_OFFSET_def)
  have "envelope_seal A e counter p out = seal_in_place A e counter (length p) ?o"
    using assms(2,3) by (simp add: envelope_seal_def usize_checked_add_def usize_bound_def core_consts get_range_def CIPHERTEXT_OFFSET_def)
  moreover obtain out' where "seal_in_place A e counter (length p) ?o = Inr (out', length p + ENVELOPE_LEN)" "length out' = length ?o"
      "sealed A e counter p (take (length p + ENVELOPE_LEN) out')"
    using seal_in_place_ok [OF assms(1,2), of ?o e counter] assms(3) unfolding l p by metis
  ultimately show ?thesis using open_sealed [OF assms(1) _ assms(4)] l by auto
qed

text \<open>A concrete AEAD that meets the contract: the tag authenticates the nonce.\<close>

definition demo_aead :: aead where
  "demo_aead = \<lparr>aead_encrypt = (\<lambda>c k n p. Some (map (\<lambda>b. b XOR 0x5A) p, take TAG_LEN (n @ replicate TAG_LEN 0))),
     aead_decrypt = (\<lambda>c k n ct t. if t = take TAG_LEN (n @ replicate TAG_LEN 0) then Some (map (\<lambda>b. b XOR 0x5A) ct) else None)\<rparr>"

lemma demo_aead_ok: "aead_ok demo_aead"
proof -
  have "map (\<lambda>b. b XOR 0x5A) ct = p \<longleftrightarrow> map (\<lambda>b. b XOR 0x5A) p = ct" for ct p :: bytes
    by (auto simp: comp_def xor.assoc)
  then show ?thesis by (auto simp: aead_ok_def demo_aead_def TAG_LEN_def)
qed

definition demo_envelope :: envelope where
  "demo_envelope = envelope_build (replicate 16 7) Aes128 [1, 2, 3, 4]"

theorem envelope_roundtrip_witness:
  "\<exists>out'. envelope_seal demo_aead demo_envelope 9 [10, 20, 30] (replicate 40 0) = Inr (out', 32) \<and> length out' = 40
    \<and> envelope_open demo_aead demo_envelope (take 32 out') [0, 0, 0] = Inr \<lparr>op_counter = 9, op_cleartext = [10, 20, 30]\<rparr>"
  using envelope_roundtrip [OF demo_aead_ok, of "[10, 20, 30]" "replicate 40 0" "[0, 0, 0]" demo_envelope 9]
  by (simp add: core_consts)

text \<open>
  What \<open>open\<close> returns is authentic: the cleartext it gives was encrypted under this key and under
  the nonce of the counter it reports, and the datagram carries exactly that tag and ciphertext.
\<close>

theorem envelope_open_authentic:
  assumes "aead_ok A" "envelope_open A e dg scratch = Inr opn"
  shows "aead_encrypt A (ev_cipher e) (ev_key e) (nonce_bytes e (op_counter opn)) (op_cleartext opn)
      = Some (drop CIPHERTEXT_OFFSET dg, take TAG_LEN (drop TAG_OFFSET dg))
    \<and> take 8 (drop NONCE_OFFSET dg) = to_be64 (op_counter opn)
    \<and> length dg = length (op_cleartext opn) + ENVELOPE_LEN"
proof -
  note o = open_Inr [OF assms(2)]
  have t: "length (take TAG_LEN (drop TAG_OFFSET dg)) = TAG_LEN" using o(1) by (simp add: envelope_consts)
  have enc: "aead_encrypt A (ev_cipher e) (ev_key e) (nonce_bytes e (op_counter opn)) (op_cleartext opn)
      = Some (drop CIPHERTEXT_OFFSET dg, take TAG_LEN (drop TAG_OFFSET dg))"
    using aead_decrypts [OF assms(1) t] o(3) by simp
  moreover have "take 8 (drop NONCE_OFFSET dg) = to_be64 (op_counter opn)"
    using o(1,2) to_be64_of_be64 [of "take 8 (drop NONCE_OFFSET dg)"] by (simp add: envelope_consts)
  moreover have "length dg = length (op_cleartext opn) + ENVELOPE_LEN"
    using aead_lengths [OF assms(1) enc] o(1) by (simp add: envelope_consts)
  ultimately show ?thesis by simp
qed

theorem envelope_open_authentic_witness:
  "\<exists>dg. envelope_open demo_aead demo_envelope dg [0, 0] = Inr \<lparr>op_counter = 3, op_cleartext = [8, 9]\<rparr>
    \<and> take 8 (drop NONCE_OFFSET dg) = to_be64 3 \<and> length dg = 31"
proof -
  obtain ct t where "aead_encrypt demo_aead (ev_cipher demo_envelope) (ev_key demo_envelope) (nonce_bytes demo_envelope 3) [8, 9]
      = Some (ct, t)"
    using aead_encrypts [OF demo_aead_ok, of "[8, 9]" "ev_cipher demo_envelope" "ev_key demo_envelope" "nonce_bytes demo_envelope 3"]
    by (auto simp: core_consts)
  then have "sealed demo_aead demo_envelope 3 [8, 9] (envelope_header 3 2 t @ ct)" by (simp add: sealed_def numeral_2_eq_2)
  then have "envelope_open demo_aead demo_envelope (envelope_header 3 2 t @ ct) [0, 0] = Inr \<lparr>op_counter = 3, op_cleartext = [8, 9]\<rparr>"
    by (rule open_sealed [OF demo_aead_ok]) simp
  from this envelope_open_authentic [OF demo_aead_ok this] show ?thesis by (auto simp: ENVELOPE_LEN_def)
qed

text \<open>
  The magic and the size field carry no meaning: \<open>open\<close> gives the same answer on any two datagrams of
  the same length that agree on the counter, the tag and the ciphertext.
\<close>

theorem envelope_open_ignores_size:
  assumes "length dg = length dg'" "take 8 (drop NONCE_OFFSET dg) = take 8 (drop NONCE_OFFSET dg')"
    "drop TAG_OFFSET dg = drop TAG_OFFSET dg'"
  shows "envelope_open A e dg scratch = envelope_open A e dg' scratch"
proof -
  have "drop CIPHERTEXT_OFFSET dg = drop CIPHERTEXT_OFFSET dg'"
    using assms(3) drop_drop [of 16 13 dg] drop_drop [of 16 13 dg'] by (simp add: envelope_consts)
  then show ?thesis
    using assms by (simp add: envelope_open_def get_range_def get_from_def envelope_consts)
qed

theorem envelope_open_ignores_size_witness:
  "envelope_open demo_aead demo_envelope (replicate 31 0) [0, 0]
   = envelope_open demo_aead demo_envelope ([1, 2, 3] @ replicate 8 0 @ [4, 5] @ replicate 18 0) [0, 0]"
  by (rule envelope_open_ignores_size) (simp_all add: envelope_consts)

end
