(* ===== verification/Stun_Codec.thy ===== *)
theory Stun_Codec
  imports Stun Envelope
begin

text \<open>
  What the connectivity-check codec promises: the encoders write exactly the sealed form of a
  header and a list of attributes, the parser reads any such message back, and a message verifies
  under a password exactly when it ends in the digest and checksum of its own contents.
\<close>

section \<open>Results and fields\<close>

lemma and_then_simps [simp]: "and_then (Inl e) f = Inl e" "and_then (Inr v) f = f v"
  by (simp_all add: and_then_def)

lemma and_then_assoc: "and_then (and_then r f) g = and_then r (\<lambda>x. and_then (f x) g)"
  by (cases r) auto

lemma and_then_Inr: "and_then r f = Inr y \<longleftrightarrow> (\<exists>x. r = Inr x \<and> f x = Inr y)"
  by (cases r) auto

lemma of_be16_eq: "of_be16 a b = v \<longleftrightarrow> to_be16 v = [a, b]"
proof
  assume "to_be16 v = [a, b]"
  then have "a = ucast (drop_bit 8 v)" "b = ucast v" by (simp_all add: to_be16_def)
  then show "of_be16 a b = v" by simp
qed auto

lemma of_be32_eq: "of_be32 a b c d = v \<longleftrightarrow> to_be32 v = [a, b, c, d]"
proof
  assume "to_be32 v = [a, b, c, d]"
  then have "a = ucast (drop_bit 24 v)" "b = ucast (drop_bit 16 v)" "c = ucast (drop_bit 8 v)" "d = ucast v"
    by (simp_all add: to_be32_def)
  then show "of_be32 a b c d = v" by simp
qed auto

lemma stun_be16_Inr: "stun_be16 bs i = Inr v \<longleftrightarrow> i + 2 \<le> length bs \<and> take 2 (drop i bs) = to_be16 v"
proof (cases "i + 2 \<le> length bs")
  case True
  then have "length (take 2 (drop i bs)) = 2" by simp
  then obtain a b where ab: "take 2 (drop i bs) = [a, b]" unfolding length_2_conv by blast
  have "get_range bs i (i + 2) = Some [a, b]" using True by (simp add: get_range_def ab)
  then have "stun_be16 bs i = Inr (of_be16 a b)" by (simp only: stun_be16_def option.case list.case)
  then show ?thesis using True ab by (simp only: of_be16_eq sum.inject) auto
qed (auto simp: stun_be16_def get_range_def)

lemma stun_be32_Inr: "stun_be32 bs i = Inr v \<longleftrightarrow> i + 4 \<le> length bs \<and> take 4 (drop i bs) = to_be32 v"
proof (cases "i + 4 \<le> length bs")
  case True
  then have "length (take 4 (drop i bs)) = 4" by simp
  then obtain a b c d where ab: "take 4 (drop i bs) = [a, b, c, d]" unfolding length_4_conv by blast
  have "get_range bs i (i + 4) = Some [a, b, c, d]" using True by (simp add: get_range_def ab)
  then have "stun_be32 bs i = Inr (of_be32 a b c d)" by (simp only: stun_be32_def option.case list.case)
  then show ?thesis using True ab by (simp only: of_be32_eq sum.inject) auto
qed (auto simp: stun_be32_def get_range_def)

lemma stun_be16_at: "bs = p @ to_be16 v @ r \<Longrightarrow> i = length p \<Longrightarrow> stun_be16 bs i = Inr v"
  by (simp add: stun_be16_Inr)

lemma stun_be32_at: "bs = p @ to_be32 v @ r \<Longrightarrow> i = length p \<Longrightarrow> stun_be32 bs i = Inr v"
  by (simp add: stun_be32_Inr)

section \<open>The wire form\<close>

text \<open>An attribute, the header, and a message sealed with its two trailing attributes.\<close>

definition attr_bytes :: "u16 \<times> bytes \<Rightarrow> bytes" where
  "attr_bytes a = to_be16 (fst a) @ to_be16 (of_nat (length (snd a))) @ snd a
     @ replicate (padding (length (snd a))) 0"

definition attrs_bytes :: "(u16 \<times> bytes) list \<Rightarrow> bytes" where
  "attrs_bytes as = concat (map attr_bytes as)"

definition kind_of :: "stun_method \<Rightarrow> u16" where
  "kind_of m = (case m of BindingRequest \<Rightarrow> TYPE_BINDING_REQUEST | BindingSuccess \<Rightarrow> TYPE_BINDING_SUCCESS)"

definition head_bytes :: "stun_method \<Rightarrow> nat \<Rightarrow> transaction_id \<Rightarrow> bytes" where
  "head_bytes m len tid = to_be16 (kind_of m) @ to_be16 (of_nat len) @ to_be32 MAGIC_COOKIE @ tid"

definition mac_bytes :: "hmac \<Rightarrow> bytes \<Rightarrow> bytes \<Rightarrow> bytes" where
  "mac_bytes H password p = H password (take 2 p @ to_be16 (of_nat (length p + 4)) @ drop 4 p)"

definition integrity_attr :: "hmac \<Rightarrow> bytes \<Rightarrow> bytes \<Rightarrow> bytes" where
  "integrity_attr H password p = to_be16 ATTR_MESSAGE_INTEGRITY @ to_be16 20 @ mac_bytes H password p"

definition crc_bytes :: "bytes \<Rightarrow> bytes \<Rightarrow> bytes" where
  "crc_bytes p i = to_be32 (crc32_of (take 2 p @ to_be16 (of_nat (length p + 12)) @ drop 4 p @ i)
     XOR FINGERPRINT_XOR)"

definition sealed_message :: "hmac \<Rightarrow> bytes \<Rightarrow> bytes \<Rightarrow> bytes" where
  "sealed_message H password p = take 2 p @ to_be16 (of_nat (length p + 12)) @ drop 4 p
     @ integrity_attr H password p
     @ to_be16 ATTR_FINGERPRINT @ to_be16 4 @ crc_bytes p (integrity_attr H password p)"

lemma length_integrity_attr: "hmac_ok H \<Longrightarrow> length (integrity_attr H k p) = 24"
  by (simp add: integrity_attr_def mac_bytes_def hmac_ok_def)

lemma length_crc_bytes [simp]: "length (crc_bytes p i) = 4"
  by (simp add: crc_bytes_def)

lemma length_sealed:
  "hmac_ok H \<Longrightarrow> 4 \<le> length p \<Longrightarrow> length (sealed_message H k p) = length p + 32"
  by (simp add: sealed_message_def length_integrity_attr)

lemma padding_less: "padding n < 4"
  by (simp add: padding_def)

lemma length_attr_bytes: "length (attr_bytes (k, v)) = 4 + length v + padding (length v)"
  by (simp add: attr_bytes_def)

section \<open>The writer\<close>

text \<open>After writing \<open>p\<close> the buffer is the caller's with \<open>p\<close> in front.\<close>

definition writer_of :: "bytes \<Rightarrow> transaction_id \<Rightarrow> bytes \<Rightarrow> stun_writer" where
  "writer_of out tid p = \<lparr>w_buf = put_at out 0 p, w_at = length p, w_tid = tid\<rparr>"

lemma put_at_0_append:
  "length p + length q \<le> length xs \<Longrightarrow> put_at (put_at xs 0 p) (length p) q = put_at xs 0 (p @ q)"
  using put_at_append [of 0 p q xs] by simp

lemma put_at_snoc:
  "i = length p \<Longrightarrow> length p + length q \<le> length xs \<Longrightarrow> put_at (put_at xs 0 p) i q = put_at xs 0 (p @ q)"
  by (simp add: put_at_0_append)

lemma w_put_writer:
  assumes "length p \<le> length out" "length p + length bs \<le> 256"
  shows "w_put (writer_of out tid p) bs =
    (if length p + length bs \<le> length out then Inr (writer_of out tid (p @ bs)) else Inl BufferTooSmall)"
proof -
  have "length p + length bs < usize_bound" using assms by (simp add: usize_bound_def)
  then show ?thesis using assms
    by (simp add: w_put_def writer_of_def usize_checked_add_def put_at_0_append)
qed

lemma w_put_put:
  assumes "length p \<le> length out" "length p + length a + length b \<le> 256"
  shows "and_then (w_put (writer_of out tid p) a) (\<lambda>w. and_then (w_put w b) f) =
         and_then (w_put (writer_of out tid p) (a @ b)) f"
proof (cases "length p + length a \<le> length out")
  case True
  then show ?thesis using assms by (simp add: w_put_writer add.assoc)
next
  case False
  then show ?thesis using assms by (simp add: w_put_writer)
qed

lemma w_put_put_last:
  assumes "length p \<le> length out" "length p + length a + length b \<le> 256"
  shows "and_then (w_put (writer_of out tid p) a) (\<lambda>w. w_put w b) = w_put (writer_of out tid p) (a @ b)"
proof -
  have "and_then (w_put (writer_of out tid p) a) (\<lambda>w. and_then (w_put w b) Inr) =
        and_then (w_put (writer_of out tid p) (a @ b)) Inr" using assms by (rule w_put_put)
  moreover have "and_then r Inr = r" for r :: "stun_writer result" by (cases r) auto
  ultimately show ?thesis by simp
qed


lemma w_header_writer:
  assumes "length tid = 12"
  shows "w_header (writer_new out) kind tid =
    w_put (writer_of out tid []) (to_be16 kind @ to_be16 0 @ to_be32 MAGIC_COOKIE @ tid)"
proof -
  have "writer_new out\<lparr>w_tid := tid\<rparr> = writer_of out tid []"
    by (simp add: writer_new_def writer_of_def)
  with assms show ?thesis
    by (simp add: w_header_def w_put_put w_put_put_last)
qed

lemma w_attribute_header_writer:
  assumes "length p \<le> length out" "length p + 4 \<le> 256" "len < 65536"
  shows "w_attribute_header (writer_of out tid p) kind len =
    w_put (writer_of out tid p) (to_be16 kind @ to_be16 (of_nat len))"
  using assms by (simp add: w_attribute_header_def u16_try_from_def w_put_put_last)

lemma w_pad_writer: "w_pad w len = w_put w (replicate (padding len) 0)"
proof -
  have "get_range (replicate 3 (0 :: byte)) 0 (padding len) = Some (replicate (padding len) 0)"
    using padding_less [of len] by (simp add: get_range_def)
  then show ?thesis by (simp add: w_pad_def)
qed

lemma w_attribute_writer:
  assumes "length p \<le> length out" "length p + length (attr_bytes (kind, v)) \<le> 256"
  shows "w_attribute (writer_of out tid p) kind v = w_put (writer_of out tid p) (attr_bytes (kind, v))"
  using assms
  by (simp add: w_attribute_def w_attribute_header_writer w_pad_writer w_put_put w_put_put_last
      length_attr_bytes) (simp add: attr_bytes_def)

text \<open>A run of attributes is one write.\<close>

lemma w_put_attribute:
  assumes "length p \<le> length out" "length p + length a + length (attr_bytes (kind, v)) \<le> 256"
  shows "and_then (w_put (writer_of out tid p) a) (\<lambda>w. and_then (w_attribute w kind v) f) =
         and_then (w_put (writer_of out tid p) (a @ attr_bytes (kind, v))) f"
proof (cases "length p + length a \<le> length out")
  case True
  then have "w_put (writer_of out tid p) a = Inr (writer_of out tid (p @ a))"
    using assms by (simp add: w_put_writer)
  then show ?thesis using True assms w_put_put [of p out a "attr_bytes (kind, v)" tid f]
    by (simp add: w_attribute_writer)
next
  case False
  then show ?thesis using assms by (simp add: w_put_writer)
qed

section \<open>Sealing\<close>

lemma put_at_inside:
  "i + length v \<le> length q \<Longrightarrow> length q \<le> length xs \<Longrightarrow>
     put_at (put_at xs 0 q) i v = put_at xs 0 (take i q @ v @ drop (i + length v) q)"
  by (simp add: put_at_def)

lemma integrity_of_put:
  assumes "4 \<le> length p" "length p \<le> 250" "length p + length q \<le> length xs"
  shows "integrity_of H (put_at xs 0 (p @ q)) (length p) k = Inr (mac_bytes H k p)"
proof -
  have "get_range (put_at xs 0 (p @ q)) 0 2 = Some (take 2 p)"
    and "get_range (put_at xs 0 (p @ q)) 4 (length p) = Some (drop 4 p)"
    using assms by (simp_all add: get_range_def put_at_def)
  then show ?thesis using assms by (simp add: integrity_of_def mac_bytes_def u16_try_from_def)
qed

lemma fingerprint_of_put:
  assumes "4 \<le> length p" "length p \<le> 224" "length q = 24" "length p + 24 + length r \<le> length xs"
  shows "fingerprint_of (put_at xs 0 (p @ q @ r)) (length p) =
    Inr (crc32_of (take 2 p @ to_be16 (of_nat (length p + 12)) @ drop 4 p @ q) XOR FINGERPRINT_XOR)"
proof -
  have "get_range (put_at xs 0 (p @ q @ r)) 0 2 = Some (take 2 p)"
    and "get_range (put_at xs 0 (p @ q @ r)) 4 (length p + 24) = Some (drop 4 p @ q)"
    using assms by (simp_all add: get_range_def put_at_def)
  then show ?thesis using assms
    by (simp add: fingerprint_of_def u16_try_from_def crc32_of_def crc32_update_append stun_sizes)
qed


lemma put_be16_put:
  "length p + 2 \<le> length xs \<Longrightarrow> i = length p \<Longrightarrow>
     put_be16 (put_at xs 0 p) i v = Inr (put_at xs 0 (p @ to_be16 v))"
  by (simp add: put_be16_def put_at_0_append)

lemma put_at_all: "length q = length xs \<Longrightarrow> put_at xs 0 q = q"
  by (simp add: put_at_def)

lemma put_at_over: "length p \<le> length q \<Longrightarrow> length p \<le> length xs \<Longrightarrow> put_at (put_at xs 0 p) 0 q = put_at xs 0 q"
  by (simp add: put_at_def)

lemma w_seal_writer:
  assumes H: "hmac_ok H" and p: "20 \<le> length p" "length p \<le> 224" "length p \<le> length out"
  shows "w_seal H (writer_of out tid p) k =
    (if length p + 32 \<le> length out then Inr (put_at out 0 (sealed_message H k p), length p + 32)
     else Inl BufferTooSmall)"
proof (cases "length p + 32 \<le> length out")
  case True
  define xs where "xs = take (length p + 32) out"
  have xs: "length xs = length p + 32" using True by (simp add: xs_def)
  let ?mac = "mac_bytes H k p" and ?ia = "integrity_attr H k p"
  have mac: "length ?mac = 20" using H by (simp add: mac_bytes_def hmac_ok_def)
  have ia: "length ?ia = 24" using H by (rule length_integrity_attr)
  have 1: "get_range (put_at out 0 p) 0 (length p + 32) = Some (put_at xs 0 p)"
    using True p by (simp add: get_range_def put_at_def xs_def take_drop add.commute [of 32])
  have 2: "put_be16 (put_at xs 0 p) (length p) v = Inr (put_at xs 0 (p @ to_be16 v))" for v
    using xs by (simp add: put_be16_put)
  have 3: "put_be16 (put_at xs 0 (p @ to_be16 a)) (length p + 2) v = Inr (put_at xs 0 (p @ to_be16 a @ to_be16 v))"
    for a v using xs put_be16_put [of "p @ to_be16 a" xs "length p + 2" v] by simp
  have 4: "integrity_of H (put_at xs 0 (p @ to_be16 a @ to_be16 v)) (length p) k = Inr ?mac" for a v
    using p xs integrity_of_put [of p "to_be16 a @ to_be16 v" xs H k] by simp
  have 5: "put_at (put_at xs 0 (p @ to_be16 ATTR_MESSAGE_INTEGRITY @ to_be16 20)) (length p + 4) ?mac = put_at xs 0 (p @ ?ia)"
    using xs mac by (subst put_at_snoc) (simp_all add: integrity_attr_def)
  have 6: "put_be16 (put_at xs 0 (p @ ?ia)) (length p + 24) v = Inr (put_at xs 0 (p @ ?ia @ to_be16 v))" for v
    using xs ia by (subst put_be16_put) simp_all
  have 7: "put_be16 (put_at xs 0 (p @ ?ia @ to_be16 a)) (length p + 24 + 2) v = Inr (put_at xs 0 (p @ ?ia @ to_be16 a @ to_be16 v))"
    for a v using xs ia by (subst put_be16_put) simp_all
  let ?crc = "crc32_of (take 2 p @ to_be16 (of_nat (length p + 12)) @ drop 4 p @ ?ia) XOR FINGERPRINT_XOR"
  have 8: "fingerprint_of (put_at xs 0 (p @ ?ia @ to_be16 a @ to_be16 v)) (length p) = Inr ?crc" for a v
    using fingerprint_of_put [of p ?ia "to_be16 a @ to_be16 v" xs] p ia xs by simp
  let ?q = "p @ ?ia @ to_be16 ATTR_FINGERPRINT @ to_be16 4 @ crc_bytes p ?ia"
  have 9: "put_at (put_at xs 0 (p @ ?ia @ to_be16 ATTR_FINGERPRINT @ to_be16 4)) (length p + 24 + 4) (to_be32 ?crc)
      = put_at xs 0 ?q"
    using xs ia by (subst put_at_snoc) (simp_all add: crc_bytes_def)
  have 10: "put_be16 (put_at xs 0 ?q) 2 (of_nat (length p + 12)) = Inr (sealed_message H k p)"
    using p xs ia put_at_inside [of 2 "to_be16 (of_nat (length p + 12))" ?q xs]
    by (simp add: put_be16_def put_at_all sealed_message_def)
  have 11: "put_at (put_at out 0 p) 0 (sealed_message H k p) = put_at out 0 (sealed_message H k p)"
    using p H by (simp add: put_at_over length_sealed)
  have 12: "usize_checked_add (length p) 32 = Some (length p + 32)"
    using p by (simp add: usize_checked_add_def usize_bound_def)
  have 13: "u16_try_from (length p + 12) = Some (of_nat (length p + 12))"
    using p by (simp add: u16_try_from_def)
  have lens: "length (put_at xs 0 (p @ to_be16 a @ to_be16 b)) = length p + 32"
      "length (put_at xs 0 (p @ ?ia @ to_be16 a @ to_be16 b)) = length p + 32" for a b
    using xs ia by simp_all
  have sz: "TRAILER_LEN = 32" "MAX_MESSAGE = 256" "MIN_MESSAGE = 52" "INTEGRITY_LEN = 24"
    by (simp_all add: stun_sizes)
  have g: "(256 < length p + 32) = False" "(length p + 32 < 52) = False" "(length p + 32 < length p + 24) = False"
    "(length p + 32 < length p + 32) = False" using p by simp_all
  show ?thesis
    unfolding w_seal_def writer_of_def Let_def stun_writer.simps sz 12 ok_or_simps and_then_simps g if_False
      1 2 3 4 lens 5 6 7 8 9 13 10 11 using True by simp
next
  case False
  with p have "get_range (put_at out 0 p) 0 (length p + 32) = None"
    by (simp add: get_range_def)
  with p False show ?thesis
    by (simp add: w_seal_def writer_of_def Let_def stun_sizes usize_checked_add_def usize_bound_def)
qed


section \<open>What the encoders write\<close>

definition request_attrs :: "bytes \<Rightarrow> bytes \<Rightarrow> bytes \<Rightarrow> (u16 \<times> bytes) list" where
  "request_attrs local_ufrag remote_ufrag tiebreaker =
     [(ATTR_USERNAME, remote_ufrag @ [0x3A] @ local_ufrag),
      (ATTR_NETWORK_COST, to_be32 NETWORK_COST_VALUE),
      (ATTR_ICE_CONTROLLED, tiebreaker),
      (ATTR_PRIORITY, to_be32 PRIORITY_VALUE)]"

definition unsealed :: "stun_method \<Rightarrow> transaction_id \<Rightarrow> (u16 \<times> bytes) list \<Rightarrow> bytes" where
  "unsealed m tid as = head_bytes m 0 tid @ attrs_bytes as"

lemma length_unsealed: "length tid = 12 \<Longrightarrow> length (unsealed m tid as) = 20 + length (attrs_bytes as)"
  by (simp add: unsealed_def head_bytes_def)

lemma put_then_seal:
  assumes "hmac_ok H" "20 \<le> length p" "length p \<le> 224"
  shows "and_then (w_put (writer_of out tid []) p) (\<lambda>w. w_seal H w k) =
    (if length p + 32 \<le> length out then Inr (put_at out 0 (sealed_message H k p), length p + 32)
     else Inl BufferTooSmall)"
  using assms by (simp add: w_put_writer w_seal_writer)

lemma attrs_bytes_simps [simp]: "attrs_bytes [] = []" "attrs_bytes (a # as) = attr_bytes a @ attrs_bytes as"
  by (simp_all add: attrs_bytes_def)

lemma request_length:
  assumes "length tid = 12" "length l \<le> 32" "length r \<le> 32" "length tb = 8"
  shows "20 \<le> length (unsealed BindingRequest tid (request_attrs l r tb))"
    and "length (unsealed BindingRequest tid (request_attrs l r tb)) \<le> 120"
  using assms padding_less [of "Suc (length l + length r)"]
  by (simp_all add: length_unsealed request_attrs_def length_attr_bytes add.commute)
    (simp_all add: padding_def)

lemma encode_binding_request_eq:
  assumes H: "hmac_ok H" and len: "length tid = 12" "length l \<le> 32" "length r \<le> 32" "length tb = 8"
  defines "p \<equiv> unsealed BindingRequest tid (request_attrs l r tb)"
  shows "encode_binding_request H out tid l r tb k =
    (if length p + 32 \<le> length out then Inr (put_at out 0 (sealed_message H k p), length p + 32)
     else Inl BufferTooSmall)"
proof -
  define n where "n = length r + 1 + length l"
  define h where "h = to_be16 TYPE_BINDING_REQUEST @ to_be16 0 @ to_be32 MAGIC_COOKIE @ tid"
  define a where "a = to_be16 ATTR_USERNAME @ to_be16 (of_nat n)"
  define z where "z = replicate (padding n) (0 :: byte)"
  let ?w = "writer_of out tid []"
  have u: "(case usize_checked_add (length r) 1 of None \<Rightarrow> None
      | Some n \<Rightarrow> usize_checked_add n (length l)) = Some n"
    using len by (simp add: usize_checked_add_def usize_bound_def n_def)
  have lens: "length h = 20" "length a = 4" "length z \<le> 3" "n \<le> 65"
    using len padding_less [of n] by (simp_all add: h_def a_def z_def n_def)
  have ah: "and_then (w_put ?w h) (\<lambda>w. and_then (w_attribute_header w ATTR_USERNAME n) f) =
      and_then (w_put ?w (h @ a)) f" for f :: "stun_writer \<Rightarrow> (bytes \<times> nat) result"
  proof (cases "20 \<le> length out")
    case True
    then have "w_put ?w h = Inr (writer_of out tid h)"
      using lens w_put_writer [of "[]" out h tid] by simp
    moreover have "w_attribute_header (writer_of out tid h) ATTR_USERNAME n = w_put (writer_of out tid h) a"
      using True lens unfolding a_def by (intro w_attribute_header_writer) simp_all
    ultimately show ?thesis using w_put_put [of "[]" out h a tid f] lens by simp
  qed (use lens in \<open>simp add: w_put_writer\<close>)
  have ab: "length (attr_bytes (c, to_be32 v)) = 8" "length (attr_bytes (c, tb)) = 12" for c v
    using len by (simp_all add: length_attr_bytes padding_def)
  have "encode_binding_request H out tid l r tb k =
      and_then (w_put ?w (h @ a @ r @ [0x3A] @ l @ z @ attr_bytes (ATTR_NETWORK_COST, to_be32 NETWORK_COST_VALUE)
        @ attr_bytes (ATTR_ICE_CONTROLLED, tb) @ attr_bytes (ATTR_PRIORITY, to_be32 PRIORITY_VALUE)))
       (\<lambda>w. w_seal H w k)"
    using len lens unfolding encode_binding_request_def u w_header_writer [OF len(1)] h_def [symmetric]
    by (simp add: stun_sizes ah w_pad_writer z_def [symmetric] w_put_put w_put_attribute ab)
  moreover have "h @ a @ r @ [0x3A] @ l @ z @ attr_bytes (ATTR_NETWORK_COST, to_be32 NETWORK_COST_VALUE)
        @ attr_bytes (ATTR_ICE_CONTROLLED, tb) @ attr_bytes (ATTR_PRIORITY, to_be32 PRIORITY_VALUE) = p"
    by (simp add: p_def unsealed_def request_attrs_def head_bytes_def kind_of_def attr_bytes_def h_def
        a_def z_def n_def ac_simps)
  ultimately have "encode_binding_request H out tid l r tb k = and_then (w_put ?w p) (\<lambda>w. w_seal H w k)"
    by simp
  then show ?thesis
    using put_then_seal [OF H, of p out tid k] request_length [OF len] by (simp add: p_def)
qed


lemma encode_reflexive_request_eq:
  assumes "length tid = 12"
  shows "encode_reflexive_request out tid =
    (if 20 \<le> length out then Inr (put_at out 0 (head_bytes BindingRequest 0 tid), 20) else Inl BufferTooSmall)"
proof -
  let ?h = "to_be16 TYPE_BINDING_REQUEST @ to_be16 0 @ to_be32 MAGIC_COOKIE @ tid"
  have w: "w_header (writer_new out) TYPE_BINDING_REQUEST tid =
      (if 20 \<le> length out then Inr (writer_of out tid ?h) else Inl BufferTooSmall)"
    using assms by (simp add: w_header_writer w_put_writer)
  have "20 \<le> length out \<Longrightarrow> put_be16 (put_at out 0 ?h) 2 0 = Inr (put_at out 0 ?h)"
    using assms put_at_inside [of 2 "to_be16 0" ?h out] by (simp add: put_be16_def)
  then show ?thesis
    using assms by (simp add: encode_reflexive_request_def w writer_of_def head_bytes_def kind_of_def)
qed

section \<open>Mapped addresses\<close>

text \<open>The value of the mapped-address attribute, and the address a decoder gets back: the flow
  information and scope of an IPv6 address do not travel.\<close>

definition xor_octets :: "transaction_id \<Rightarrow> bytes \<Rightarrow> bytes" where
  "xor_octets tid octets = map2 (XOR) octets (take (length octets) (to_be32 MAGIC_COOKIE @ tid))"

definition mapped_value :: "transaction_id \<Rightarrow> socket_addr \<Rightarrow> bytes" where
  "mapped_value tid addr = (case canonical addr of
     SA_V4 octets port \<Rightarrow> [0, 1] @ to_be16 (port XOR 0x2112) @ xor_octets tid octets
   | SA_V6 octets port _ _ \<Rightarrow> [0, 2] @ to_be16 (port XOR 0x2112) @ xor_octets tid octets)"

definition plain_addr :: "socket_addr \<Rightarrow> socket_addr" where
  "plain_addr addr = (case canonical addr of
     SA_V4 octets port \<Rightarrow> SA_V4 octets port | SA_V6 octets port _ _ \<Rightarrow> SA_V6 octets port 0 0)"

lemma canonical_wf: "wf_addr a \<Longrightarrow> wf_addr (canonical a)"
  by (auto simp: wf_addr_def canonical_def to_ipv4_mapped_def split: socket_addr.splits option.splits if_splits)

lemma canonical_V6: "canonical a = SA_V6 oc p f c \<Longrightarrow> to_ipv4_mapped oc = None"
  by (auto simp: canonical_def split: socket_addr.splits option.splits)

lemma canonical_idem: "canonical (canonical a) = canonical a"
  by (auto simp: canonical_def split: socket_addr.splits option.splits)

lemma mapped_mask_nth:
  "length tid = 12 \<Longrightarrow> i < 16 \<Longrightarrow> mapped_mask tid i = Some ((to_be32 MAGIC_COOKIE @ tid) ! i)"
  by (auto simp: mapped_mask_def get_at_def nth_append)

lemma xor_octets_nth:
  assumes "length tid = 12" "length octets \<le> 16" "i < length octets"
  shows "xor_octets tid octets ! i = octets ! i XOR (to_be32 MAGIC_COOKIE @ tid) ! i"
  using assms by (simp add: xor_octets_def del: take_append)

lemma length_xor_octets: "length tid = 12 \<Longrightarrow> length octets \<le> 16 \<Longrightarrow> length (xor_octets tid octets) = length octets"
  by (simp add: xor_octets_def)

lemma unmask_nth:
  "(\<forall>j < length bs. key (i + j) = Some (k ! j)) \<Longrightarrow> length k = length bs \<Longrightarrow>
     unmask key i bs = Some (map2 (XOR) bs k)"
proof (induction bs arbitrary: i k)
  case (Cons b bs)
  then obtain x k' where k: "k = x # k'" by (cases k) auto
  have "\<forall>j < length bs. key (Suc i + j) = Some (k' ! j)" using Cons.prems(1) k by force
  then have "unmask key (Suc i) bs = Some (map2 (XOR) bs k')" using Cons.IH Cons.prems(2) k by auto
  moreover have "key i = Some x" using Cons.prems(1) k by force
  ultimately show ?case using k by simp
qed simp

lemma map2_xor_twice:
  "length xs = length ks \<Longrightarrow> map2 (XOR) (map2 (XOR) xs ks) ks = (xs :: bytes)"
  by (rule nth_equalityI) (simp_all add: xor.assoc)

lemma unmask_xor:
  assumes "length tid = 12" "length octets \<le> 16"
    "\<forall>j < length octets. key j = Some ((to_be32 MAGIC_COOKIE @ tid) ! j)"
  shows "unmask key 0 (xor_octets tid octets) = Some octets"
proof -
  let ?k = "take (length octets) (to_be32 MAGIC_COOKIE @ tid)"
  have "unmask key 0 (xor_octets tid octets) = Some (map2 (XOR) (xor_octets tid octets) ?k)"
    using assms by (intro unmask_nth) (simp_all add: length_xor_octets del: take_append)
  then show ?thesis using assms by (simp add: xor_octets_def map2_xor_twice)
qed


lemma length_mapped_value:
  "wf_addr a \<Longrightarrow> length tid = 12 \<Longrightarrow> length (mapped_value tid a) = (case canonical a of SA_V4 _ _ \<Rightarrow> 8 | _ \<Rightarrow> 20)"
  using canonical_wf [of a]
  by (auto simp: mapped_value_def wf_addr_def length_xor_octets split: socket_addr.splits)

lemma decode_mapped_bytes:
  "length raw = 4 \<Longrightarrow> decode_mapped ([0, 1] @ to_be16 v @ raw) tid =
     map_option (\<lambda>octets. SA_V4 octets (v XOR 0x2112)) (unmask (get_at (to_be32 MAGIC_COOKIE)) 0 raw)"
  "length raw = 16 \<Longrightarrow> decode_mapped ([0, 2] @ to_be16 v @ raw) tid =
     map_option (\<lambda>octets. canonical (SA_V6 octets (v XOR 0x2112) 0 0)) (unmask (mapped_mask tid) 0 raw)"
  by (simp_all add: decode_mapped_def get_at_def get_range_def to_be16_def map_option_case)

lemma decode_mapped_value:
  assumes a: "wf_addr a" and tid: "length tid = 12"
  shows "decode_mapped (mapped_value tid a) tid = Some (plain_addr a)"
proof (cases "canonical a")
  case (SA_V4 oc port)
  then have oc: "length oc = 4" using canonical_wf [OF a] by (simp add: wf_addr_def)
  have "unmask (get_at (to_be32 MAGIC_COOKIE)) 0 (xor_octets tid oc) = Some oc"
    using tid oc by (intro unmask_xor) (simp_all add: get_at_def nth_append)
  then show ?thesis using SA_V4 oc tid
    by (simp add: mapped_value_def plain_addr_def length_xor_octets decode_mapped_bytes [simplified] xor.assoc)
next
  case (SA_V6 oc port fl sc)
  then have oc: "length oc = 16" using canonical_wf [OF a] by (simp add: wf_addr_def)
  have "unmask (mapped_mask tid) 0 (xor_octets tid oc) = Some oc"
    using tid oc by (intro unmask_xor) (simp_all add: mapped_mask_nth)
  moreover have "canonical (SA_V6 oc p 0 0) = SA_V6 oc p 0 0" for p
    using canonical_V6 [OF SA_V6] by (simp add: canonical_def)
  ultimately show ?thesis using SA_V6 oc tid
    by (simp add: mapped_value_def plain_addr_def length_xor_octets decode_mapped_bytes [simplified] xor.assoc)
qed

lemma encode_mapped_eq:
  assumes a: "wf_addr a" and tid: "length tid = 12"
  shows "\<exists>z. encode_mapped (replicate 20 0) a tid = Inr (mapped_value tid a @ z, length (mapped_value tid a))"
proof (cases "canonical a")
  case (SA_V4 oc port)
  then have oc: "length oc = 4" using canonical_wf [OF a] by (simp add: wf_addr_def)
  have m: "map (\<lambda>i. oc ! i XOR (case get_at (to_be32 MAGIC_COOKIE) i of Some b \<Rightarrow> b | None \<Rightarrow> 0)) [0..<length oc]
      = xor_octets tid oc"
    using oc tid by (intro nth_equalityI) (simp_all add: length_xor_octets xor_octets_nth get_at_def nth_append)
  show ?thesis using SA_V4 oc tid
    by (simp add: encode_mapped_def m [unfolded oc] oc put_be16_def put_at_def sa_port_def mapped_value_def
        length_xor_octets replicate_rec to_be16_def)
next
  case (SA_V6 oc port fl sc)
  then have oc: "length oc = 16" using canonical_wf [OF a] by (simp add: wf_addr_def)
  have m: "map (\<lambda>i. oc ! i XOR (case mapped_mask tid i of Some b \<Rightarrow> b | None \<Rightarrow> 0)) [0..<length oc]
      = xor_octets tid oc"
    using oc tid by (intro nth_equalityI) (simp_all add: length_xor_octets xor_octets_nth mapped_mask_nth)
  show ?thesis using SA_V6 oc tid
    by (simp add: encode_mapped_def m [unfolded oc] put_be16_def put_at_def sa_port_def mapped_value_def
        length_xor_octets replicate_rec to_be16_def)
qed

definition response_attrs :: "transaction_id \<Rightarrow> socket_addr \<Rightarrow> (u16 \<times> bytes) list" where
  "response_attrs tid observed = [(ATTR_XOR_MAPPED_ADDRESS, mapped_value tid observed)]"

lemma response_length:
  assumes "wf_addr a" "length tid = 12"
  shows "20 \<le> length (unsealed BindingSuccess tid (response_attrs tid a))"
    "length (unsealed BindingSuccess tid (response_attrs tid a)) \<le> 44"
  using assms by (simp_all add: length_unsealed response_attrs_def length_attr_bytes length_mapped_value
      padding_def split: socket_addr.splits)

lemma encode_binding_response_eq:
  assumes H: "hmac_ok H" and a: "wf_addr a" and tid: "length tid = 12"
  defines "p \<equiv> unsealed BindingSuccess tid (response_attrs tid a)"
  shows "encode_binding_response H out tid a k =
    (if length p + 32 \<le> length out then Inr (put_at out 0 (sealed_message H k p), length p + 32)
     else Inl BufferTooSmall)"
proof -
  obtain z where z: "encode_mapped (replicate 20 0) a tid = Inr (mapped_value tid a @ z, length (mapped_value tid a))"
    using encode_mapped_eq [OF a tid] by blast
  have l: "length (attr_bytes (ATTR_XOR_MAPPED_ADDRESS, mapped_value tid a)) \<le> 24"
    using a tid by (simp add: length_attr_bytes length_mapped_value padding_def split: socket_addr.splits)
  have "encode_binding_response H out tid a k =
      and_then (w_put (writer_of out tid []) (to_be16 TYPE_BINDING_SUCCESS @ to_be16 0 @ to_be32 MAGIC_COOKIE @ tid))
        (\<lambda>w. and_then (w_attribute w ATTR_XOR_MAPPED_ADDRESS (mapped_value tid a)) (\<lambda>w. w_seal H w k))"
    using tid by (simp add: encode_binding_response_def w_header_writer z get_range_def)
  also have "\<dots> = and_then (w_put (writer_of out tid []) p) (\<lambda>w. w_seal H w k)"
    using tid l by (simp add: w_put_attribute p_def unsealed_def head_bytes_def kind_of_def response_attrs_def)
  finally show ?thesis
    using put_then_seal [OF H, of p out tid k] response_length [OF a tid] by (simp add: p_def)
qed


section \<open>Reading messages back\<close>

text \<open>An attribute list whose values fit a message.\<close>

definition attrs_ok :: "(u16 \<times> bytes) list \<Rightarrow> bool" where
  "attrs_ok as \<longleftrightarrow> length (attrs_bytes as) \<le> 236"

lemma attributes_next_attr:
  fixes pre post v :: bytes and k :: u16
  assumes v: "length v \<le> 256" and pre: "length pre \<le> 256"
    and e: "length pre + length (attr_bytes (k, v)) \<le> e"
  defines "w \<equiv> \<lparr>aw_bytes = pre @ attr_bytes (k, v) @ post, aw_at = length pre, aw_end = e, aw_done = False\<rparr>"
  shows "attributes_next w = (w\<lparr>aw_at := length pre + length (attr_bytes (k, v))\<rparr>,
    Some (Inr (k, v, length pre + length (attr_bytes (k, v)))))"
proof -
  let ?bs = "pre @ attr_bytes (k, v) @ post"
  have 1: "stun_be16 ?bs (length pre) = Inr k"
    by (rule stun_be16_at [where p = pre]) (simp_all add: attr_bytes_def)
  have 2: "stun_be16 ?bs (length pre + 2) = Inr (of_nat (length v))"
    by (rule stun_be16_at [where p = "pre @ to_be16 k"]) (simp_all add: attr_bytes_def)
  have 3: "get_range ?bs (length pre + 4) (length pre + 4 + length v) = Some v"
    by (simp add: get_range_def attr_bytes_def)
  have 4: "usize_checked_add (length pre + 4) (length v) = Some (length pre + 4 + length v)"
    using v pre by (simp add: usize_checked_add_def usize_bound_def)
  have 5: "unat (of_nat (length v) :: u16) = length v" using v by (simp add: unat_of_nat_16)
  have e': "\<not> e < length pre + 4" "\<not> e < length pre + 4 + length v" using e by (simp_all add: length_attr_bytes)
  show ?thesis
    unfolding w_def attributes_next_def attributes.simps Let_def 1 2 sum.case 5 4 option.case 3
    using e' by (simp add: length_attr_bytes ac_simps)
qed

lemma attributes_next_end:
  "attributes_next \<lparr>aw_bytes = bs, aw_at = e, aw_end = e, aw_done = d\<rparr> =
     (\<lparr>aw_bytes = bs, aw_at = e, aw_end = e, aw_done = d\<rparr>, None)"
  by (simp add: attributes_next_def)

lemma walk_reached_attrs:
  "length pre + length (attrs_bytes as) \<le> 256 \<Longrightarrow> e = length pre + length (attrs_bytes as) \<Longrightarrow>
     r = length pre \<Longrightarrow>
     walk_reached \<lparr>aw_bytes = pre @ attrs_bytes as @ post, aw_at = length pre, aw_end = e, aw_done = False\<rparr> r = Inr e"
proof (induction as arbitrary: pre r)
  case Nil
  then show ?case by (simp add: walk_reached.simps attributes_next_end)
next
  case (Cons a as)
  obtain k v where a: "a = (k, v)" by (cases a)
  let ?pre = "pre @ attr_bytes (k, v)"
  have "attributes_next \<lparr>aw_bytes = pre @ attr_bytes (k, v) @ (attrs_bytes as @ post), aw_at = length pre,
      aw_end = e, aw_done = False\<rparr> =
    (\<lparr>aw_bytes = pre @ attr_bytes (k, v) @ (attrs_bytes as @ post), aw_at = length ?pre, aw_end = e, aw_done = False\<rparr>,
     Some (Inr (k, v, length ?pre)))"
    using Cons.prems a by (subst attributes_next_attr) (simp_all add: length_attr_bytes)
  moreover have "walk_reached \<lparr>aw_bytes = ?pre @ attrs_bytes as @ post, aw_at = length ?pre, aw_end = e,
      aw_done = False\<rparr> (length ?pre) = Inr e"
    using Cons.prems a by (intro Cons.IH) simp_all
  ultimately show ?case using a by (subst walk_reached.simps) simp
qed

lemma attr_find_attrs:
  "length pre + length (attrs_bytes as) \<le> 256 \<Longrightarrow> e = length pre + length (attrs_bytes as) \<Longrightarrow>
     attr_find k \<lparr>aw_bytes = pre @ attrs_bytes as @ post, aw_at = length pre, aw_end = e, aw_done = False\<rparr> = map_of as k"
proof (induction as arbitrary: pre)
  case Nil
  then show ?case by (simp add: attr_find.simps attributes_next_end)
next
  case (Cons a as)
  obtain k' v where a: "a = (k', v)" by (cases a)
  let ?pre = "pre @ attr_bytes (k', v)"
  have "attributes_next \<lparr>aw_bytes = pre @ attr_bytes (k', v) @ (attrs_bytes as @ post), aw_at = length pre,
      aw_end = e, aw_done = False\<rparr> =
    (\<lparr>aw_bytes = pre @ attr_bytes (k', v) @ (attrs_bytes as @ post), aw_at = length ?pre, aw_end = e, aw_done = False\<rparr>,
     Some (Inr (k', v, length ?pre)))"
    using Cons.prems a by (subst attributes_next_attr) (simp_all add: length_attr_bytes)
  moreover have "attr_find k \<lparr>aw_bytes = ?pre @ attrs_bytes as @ post, aw_at = length ?pre, aw_end = e,
      aw_done = False\<rparr> = map_of as k"
    using Cons.prems a by (intro Cons.IH) simp_all
  ultimately show ?case using a by (subst attr_find.simps) simp
qed


text \<open>Parsing a header, attributes and whatever the trailer scan makes of the end.\<close>

lemma head_bytes_fields:
  assumes "length tid = 12"
  shows "length (head_bytes m n tid) = 20"
    "stun_be16 (head_bytes m n tid) 0 = Inr (kind_of m)"
    "stun_be16 (head_bytes m n tid) 2 = Inr (of_nat n)"
    "stun_be32 (head_bytes m n tid) 4 = Inr MAGIC_COOKIE"
    "get_range (head_bytes m n tid) 8 20 = Some tid"
proof -
  show "stun_be16 (head_bytes m n tid) 0 = Inr (kind_of m)"
    by (rule stun_be16_at [where p = "[]"]) (simp_all add: head_bytes_def)
  show "stun_be16 (head_bytes m n tid) 2 = Inr (of_nat n)"
    by (rule stun_be16_at [where p = "to_be16 (kind_of m)"]) (simp_all add: head_bytes_def)
  show "stun_be32 (head_bytes m n tid) 4 = Inr MAGIC_COOKIE"
    by (rule stun_be32_at [where p = "to_be16 (kind_of m) @ to_be16 (of_nat n)"]) (simp_all add: head_bytes_def)
qed (use assms in \<open>simp_all add: head_bytes_def get_range_def\<close>)

lemma method_of_kind:
  "(if kind_of m = TYPE_BINDING_REQUEST then Inr BindingRequest
    else if kind_of m = TYPE_BINDING_SUCCESS then Inr BindingSuccess else Inl Malformed) = (Inr m :: stun_method result)"
  by (cases m) (simp_all add: kind_of_def TYPE_BINDING_REQUEST_def TYPE_BINDING_SUCCESS_def)

lemma stun_parse_attrs:
  assumes tid: "length tid = 12" and len: "length (attrs_bytes as) + length post \<le> 236"
    and i: "stun_integrity_at dg = (if post = [] then None else Some (20 + length (attrs_bytes as)))"
    and dg: "dg = head_bytes m (length (attrs_bytes as) + length post) tid @ attrs_bytes as @ post"
  shows "stun_parse dg = Inr \<lparr>stn_bytes = dg, stn_method = m, stn_tid = tid, stn_integrity_at = stun_integrity_at dg\<rparr>"
proof -
  let ?n = "length (attrs_bytes as) + length post"
  note h = head_bytes_fields [OF tid, of m ?n]
  let ?stop = "20 + length (attrs_bytes as)"
  have d: "length dg = 20 + ?n" using dg h(1) by simp
  have g: "get_range dg 0 20 = Some (head_bytes m ?n tid)" using dg h(1) by (simp add: get_range_def)
  have s: "(case stun_integrity_at dg of None \<Rightarrow> length dg | Some j \<Rightarrow> j) = ?stop" using i d by simp
  have w: "walk_reached (attributes_new dg ?stop) 20 = Inr ?stop"
  proof -
    have "walk_reached \<lparr>aw_bytes = head_bytes m ?n tid @ attrs_bytes as @ post,
        aw_at = length (head_bytes m ?n tid), aw_end = ?stop, aw_done = False\<rparr> 20 = Inr ?stop"
      by (rule walk_reached_attrs) (use h(1) len in simp_all)
    then show ?thesis by (simp only: attributes_new_def STUN_HEADER_LEN_def dg h(1))
  qed
  have n: "unat (of_nat ?n :: u16) = length dg - 20" using len d by (subst unat_of_nat_16) simp_all
  have "\<not> (length dg < 20 \<or> 256 < length dg)" using d len by simp
  then show ?thesis
    unfolding stun_parse_def Let_def STUN_HEADER_LEN_def MAX_MESSAGE_def g ok_or_simps and_then_simps h
      method_of_kind n s w if_False by simp
qed

lemma sealed_shape:
  "length tid = 12 \<Longrightarrow> sealed_message H k (unsealed m tid as) =
     head_bytes m (length (attrs_bytes as) + 32) tid @ attrs_bytes as
     @ integrity_attr H k (unsealed m tid as) @ to_be16 ATTR_FINGERPRINT @ to_be16 4
     @ crc_bytes (unsealed m tid as) (integrity_attr H k (unsealed m tid as))"
  by (simp add: sealed_message_def unsealed_def head_bytes_def ac_simps)

lemma trailer_at_end:
  assumes H: "hmac_ok H" and p: "20 \<le> length q"
    and dg: "dg = q @ integrity_attr H k p @ to_be16 ATTR_FINGERPRINT @ to_be16 4 @ crc_bytes p i"
  shows "stun_integrity_at dg = Some (length q)"
proof -
  let ?m = "mac_bytes H k p" and ?z = "to_be16 ATTR_FINGERPRINT @ to_be16 4 @ crc_bytes p i"
  have m: "length ?m = 20" using H by (simp add: mac_bytes_def hmac_ok_def)
  have d: "dg = q @ to_be16 ATTR_MESSAGE_INTEGRITY @ to_be16 20 @ ?m @ ?z"
    using dg by (simp add: integrity_attr_def)
  then have l: "length dg = length q + 32" using m by simp
  have "stun_be16 dg (length q) = Inr ATTR_MESSAGE_INTEGRITY"
    using d by (rule stun_be16_at) simp
  moreover have "stun_be16 dg (length q + 2) = Inr 20"
    by (rule stun_be16_at [where p = "q @ to_be16 ATTR_MESSAGE_INTEGRITY"]) (simp_all add: d)
  moreover have "stun_be16 dg (length q + 24) = Inr ATTR_FINGERPRINT"
    by (rule stun_be16_at [where p = "q @ to_be16 ATTR_MESSAGE_INTEGRITY @ to_be16 20 @ ?m"]) (simp_all add: d m)
  moreover have "stun_be16 dg (length q + 24 + 2) = Inr 4"
    by (rule stun_be16_at [where p = "q @ to_be16 ATTR_MESSAGE_INTEGRITY @ to_be16 20 @ ?m @ to_be16 ATTR_FINGERPRINT"])
      (simp_all add: d m)
  ultimately show ?thesis using l p by (simp add: stun_integrity_at_def is_trailer_def stun_sizes)
qed


lemma parse_sealed:
  fixes m :: stun_method
  assumes H: "hmac_ok H" and tid: "length tid = 12" and len: "length (attrs_bytes as) \<le> 204"
  defines "p \<equiv> unsealed m tid as"
  shows "stun_parse (sealed_message H k p) =
    Inr \<lparr>stn_bytes = sealed_message H k p, stn_method = m, stn_tid = tid, stn_integrity_at = Some (length p)\<rparr>"
proof -
  let ?post = "integrity_attr H k p @ to_be16 ATTR_FINGERPRINT @ to_be16 4 @ crc_bytes p (integrity_attr H k p)"
  let ?h = "head_bytes m (length (attrs_bytes as) + 32) tid"
  have h: "length ?h = 20" using tid by (rule head_bytes_fields)
  have pl: "length ?post = 32" using length_integrity_attr [OF H] by simp
  then have ne: "?post \<noteq> []" by auto
  have p: "length p = 20 + length (attrs_bytes as)" unfolding p_def using tid by (rule length_unsealed)
  have sh: "sealed_message H k p = ?h @ attrs_bytes as @ ?post"
    using sealed_shape [OF tid] by (simp only: p_def)
  have i: "stun_integrity_at (sealed_message H k p) = Some (length p)"
    using trailer_at_end [OF H, of "?h @ attrs_bytes as" "sealed_message H k p" k p "integrity_attr H k p"] h p sh
    by simp
  have "stun_parse (sealed_message H k p) = Inr \<lparr>stn_bytes = sealed_message H k p, stn_method = m, stn_tid = tid,
      stn_integrity_at = stun_integrity_at (sealed_message H k p)\<rparr>"
  proof (rule stun_parse_attrs [OF tid])
    show "length (attrs_bytes as) + length ?post \<le> 236" using pl len by linarith
    show "stun_integrity_at (sealed_message H k p) = (if ?post = [] then None else Some (20 + length (attrs_bytes as)))"
      unfolding i p using ne by (simp only: if_False)
    show "sealed_message H k p = head_bytes m (length (attrs_bytes as) + length ?post) tid @ attrs_bytes as @ ?post"
      unfolding pl by (rule sh)
  qed
  then show ?thesis unfolding i .
qed

interpretation stun: wire_codec
  "\<lambda>(H, k, m, tid, as). hmac_ok H \<and> length tid = 12 \<and> length (attrs_bytes as) \<le> 204"
  "\<lambda>(H, k, m, tid, as). sealed_message H k (unsealed m tid as)" stun_parse
  "\<lambda>(H, k, m, tid, as). \<lparr>stn_bytes = sealed_message H k (unsealed m tid as), stn_method = m, stn_tid = tid,
     stn_integrity_at = Some (length (unsealed m tid as))\<rparr>"
  by unfold_locales (auto simp: parse_sealed)

section \<open>Verification\<close>

lemma xor_zero_iff: "a XOR b = 0 \<longleftrightarrow> a = (b :: byte)"
  by (metis xor.assoc xor.left_neutral xor_self_eq)

lemma fold_or_zero:
  "fold (\<lambda>(a, b) d. d OR (a XOR b)) zs d = (0 :: byte) \<longleftrightarrow> d = 0 \<and> (\<forall>(a, b) \<in> set zs. a = b)"
proof (induction zs arbitrary: d)
  case (Cons z zs)
  obtain a b where z: "z = (a, b)" by (cases z)
  show ?case unfolding z by (simp add: Cons.IH or_eq_0_iff xor_zero_iff)
qed simp

lemma diff_bytes_zero: "length xs = length ys \<Longrightarrow> diff_bytes xs ys = 0 \<longleftrightarrow> xs = ys"
  by (induction xs ys rule: list_induct2) (auto simp: diff_bytes_def fold_or_zero xor_zero_iff)

lemma integrity_of_append:
  assumes "4 \<le> length p" "length p \<le> 250"
  shows "integrity_of H (p @ q) (length p) k = Inr (mac_bytes H k p)"
  using integrity_of_put [OF assms, of q "p @ q" H k] by (simp add: put_at_all)

lemma fingerprint_of_append:
  assumes "4 \<le> length p" "length p \<le> 224" "length q = 24"
  shows "fingerprint_of (p @ q @ r) (length p) =
    Inr (crc32_of (take 2 p @ to_be16 (of_nat (length p + 12)) @ drop 4 p @ q) XOR FINGERPRINT_XOR)"
  using fingerprint_of_put [OF assms, of r "p @ q @ r"] assms by (simp add: put_at_all)

lemma verify_trailer:
  assumes H: "hmac_ok H" and p: "20 \<le> length p" "length p \<le> 224" "length c = 20" "length d = 4"
    and m: "stn_integrity_at m = Some (length p)"
      "stn_bytes m = p @ (to_be16 ATTR_MESSAGE_INTEGRITY @ to_be16 20 @ c) @ to_be16 ATTR_FINGERPRINT @ to_be16 4 @ d"
  shows "stun_verify H m k \<longleftrightarrow> c = mac_bytes H k p
    \<and> d = crc_bytes p (to_be16 ATTR_MESSAGE_INTEGRITY @ to_be16 20 @ c)"
proof -
  let ?ia = "to_be16 ATTR_MESSAGE_INTEGRITY @ to_be16 20 @ c"
  let ?crc = "crc32_of (take 2 p @ to_be16 (of_nat (length p + 12)) @ drop 4 p @ ?ia) XOR FINGERPRINT_XOR"
  obtain d1 d2 d3 d4 where "d = [d1, d2, d3, d4]" using p(4) unfolding length_4_conv by blast
  then obtain w where d: "d = to_be32 w" using to_be32_of_be32 [of d1 d2 d3 d4] by metis
  have 1: "stun_be32 (stn_bytes m) (length p + INTEGRITY_LEN + 4) = Inr w"
    using p m(2) d by (intro stun_be32_at [where p = "p @ ?ia @ to_be16 ATTR_FINGERPRINT @ to_be16 4" and r = "[]"])
      (simp_all add: stun_sizes)
  have 2: "fingerprint_of (stn_bytes m) (length p) = Inr ?crc"
    unfolding m(2) using p by (intro fingerprint_of_append) simp_all
  have 3: "integrity_of H (stn_bytes m) (length p) k = Inr (mac_bytes H k p)"
    unfolding m(2) using p by (intro integrity_of_append) simp_all
  have 4: "get_range (stn_bytes m) (length p + 4) (length p + 24) = Some c"
    unfolding m(2) using p by (simp add: get_range_def)
  have 5: "length (mac_bytes H k p) = length c" using H p(3) by (simp add: mac_bytes_def hmac_ok_def)
  have 6: "d = crc_bytes p ?ia \<longleftrightarrow> w = ?crc" unfolding d crc_bytes_def by (metis of_be32_eq to_be32_of_be32 to_be32_def of_be32_split)
  show ?thesis
    unfolding stun_verify_def m(1) option.case 1 2 3 4 sum.case diff_bytes_zero [OF 5] 6 by auto
qed


text \<open>What a parsed message is made of.\<close>

lemma stun_parse_fields:
  assumes "stun_parse dg = Inr m"
  shows "stn_bytes m = dg" "20 \<le> length dg" "length dg \<le> 256" "length (stn_tid m) = 12"
    "stn_integrity_at m = stun_integrity_at dg" "stun_be16 dg 2 = Inr (of_nat (length dg - 20))"
proof -
  note f = assms [unfolded stun_parse_def Let_def]
  show sz: "20 \<le> length dg" "length dg \<le> 256"
    using f by (auto simp: stun_sizes split: if_splits)
  then have g: "get_range dg 0 20 = Some (take 20 dg)" by (simp add: get_range_def)
  show "stn_bytes m = dg" "stn_integrity_at m = stun_integrity_at dg"
    using f by (auto simp: and_then_Inr split: if_splits)
  show "length (stn_tid m) = 12"
    using f by (auto simp: and_then_Inr ok_or_Inr dest!: get_range_length split: if_splits)
  obtain c where c: "stun_be16 (take 20 dg) 2 = Inr c" "unat c = length dg - 20"
    using f g by (auto simp: and_then_Inr STUN_HEADER_LEN_def split: if_splits)
  have "stun_be16 dg 2 = Inr c" using c(1) sz by (simp add: stun_be16_Inr drop_take min_def)
  then show "stun_be16 dg 2 = Inr (of_nat (length dg - 20))" using c(2) by (metis of_nat_unat ucast_id)
qed

lemma integrity_at_Some:
  assumes "stun_integrity_at dg = Some i"
  obtains c d where "length c = 20" "length d = 4" "i + 32 = length dg" "20 \<le> i"
    "dg = take i dg @ (to_be16 ATTR_MESSAGE_INTEGRITY @ to_be16 20 @ c) @ to_be16 ATTR_FINGERPRINT @ to_be16 4 @ d"
proof -
  have i: "52 \<le> length dg" "i = length dg - 32" and t: "is_trailer dg i"
    using assms by (auto simp: stun_integrity_at_def stun_sizes split: if_splits)
  define z where "z = drop i dg"
  define c where "c = take 20 (drop 4 z)"
  define d where "d = drop 28 z"
  have parts: "take 2 z = to_be16 ATTR_MESSAGE_INTEGRITY" "take 2 (drop 2 z) = to_be16 20"
    "take 2 (drop 24 z) = to_be16 ATTR_FINGERPRINT" "take 2 (drop 26 z) = to_be16 4"
    using t by (simp_all add: is_trailer_def stun_be16_Inr stun_sizes add.commute z_def)
  have s: "drop a z = take n (drop a z) @ drop (a + n) z" for a n
    by (metis append_take_drop_id drop_drop add.commute)
  have "z = to_be16 ATTR_MESSAGE_INTEGRITY @ drop 2 z" using parts(1) by (metis append_take_drop_id)
  moreover have "drop 2 z = to_be16 20 @ drop 4 z" using s [of 2 2] parts(2) by simp
  moreover have "drop 4 z = c @ drop 24 z" using s [of 4 20] by (simp add: c_def)
  moreover have "drop 24 z = to_be16 ATTR_FINGERPRINT @ drop 26 z" using s [of 24 2] parts(3) by simp
  moreover have "drop 26 z = to_be16 4 @ d" using s [of 26 2] parts(4) by (simp add: d_def)
  ultimately have "z = to_be16 ATTR_MESSAGE_INTEGRITY @ to_be16 20 @ c @ to_be16 ATTR_FINGERPRINT @ to_be16 4 @ d"
    by metis
  then have "dg = take i dg @ (to_be16 ATTR_MESSAGE_INTEGRITY @ to_be16 20 @ c) @ to_be16 ATTR_FINGERPRINT @ to_be16 4 @ d"
    by (metis append_assoc append_take_drop_id z_def)
  then show thesis by (rule that [rotated 4]) (use i in \<open>simp_all add: c_def d_def z_def\<close>)
qed


lemma length_field_same:
  assumes "stun_be16 dg 2 = Inr v" "4 \<le> i" "i \<le> length dg"
  shows "take 2 (take i dg) @ to_be16 v @ drop 4 (take i dg) = take i dg"
proof -
  have "take 2 (drop 2 dg) = to_be16 v" using assms(1) by (simp add: stun_be16_Inr)
  moreover have "take 2 (take i dg) = take 2 (take i dg)" by simp
  moreover have "drop 2 (take i dg) = take 2 (drop 2 dg) @ drop 4 (take i dg)"
    using assms(2) append_take_drop_id [of 2 "drop 2 (take i dg)"]
    by (cases "2 \<le> i - 2") (simp_all add: drop_take min_def)
  ultimately show ?thesis by (metis append_take_drop_id)
qed

lemma verify_sealed:
  assumes H: "hmac_ok H" and len: "20 \<le> length p" "length p \<le> 224"
    and f: "stun_be16 p 2 = Inr (of_nat (length p + 12))"
    and m: "stn_integrity_at m = Some (length p)" "stn_bytes m = sealed_message H k p"
  shows "stun_verify H m k"
proof -
  have "take 2 p @ to_be16 (of_nat (length p + 12)) @ drop 4 p = p"
    using length_field_same [OF f, of "length p"] len by simp
  then have "stn_bytes m = p @ (to_be16 ATTR_MESSAGE_INTEGRITY @ to_be16 20 @ mac_bytes H k p)
      @ to_be16 ATTR_FINGERPRINT @ to_be16 4 @ crc_bytes p (integrity_attr H k p)"
    unfolding m(2) sealed_message_def integrity_attr_def by (metis append_assoc)
  moreover have "length (mac_bytes H k p) = 20" using H by (simp add: mac_bytes_def hmac_ok_def)
  ultimately show ?thesis
    using verify_trailer [OF H len _ _ m(1), of "mac_bytes H k p" "crc_bytes p (integrity_attr H k p)" k]
    by (simp add: integrity_attr_def)
qed

text \<open>The digest and the checksum do not read the length field, so sealing the finished header
  seals the same message.\<close>

lemma sealed_length_field:
  assumes "2 \<le> length h" "length x = 2" "length y = 2"
  shows "sealed_message H k (take 2 h @ x @ r) = sealed_message H k (take 2 h @ y @ r)"
proof -
  have "length (take 2 h) = 2" using assms by simp
  then show ?thesis using assms
    by (simp add: sealed_message_def integrity_attr_def mac_bytes_def crc_bytes_def)
qed

lemma parsed_sealed_verifies:
  fixes m :: stun_method
  assumes H: "hmac_ok H" and tid: "length tid = 12" and len: "length (attrs_bytes as) \<le> 204"
  defines "p \<equiv> unsealed m tid as"
  shows "\<exists>msg. stun_parse (sealed_message H k p) = Inr msg \<and> stn_method msg = m \<and> stn_tid msg = tid
    \<and> stun_verify H msg k
    \<and> (\<forall>kind. attr_find kind (attributes_new (stn_bytes msg) (attributes_end msg)) = map_of as kind)"
proof -
  let ?n = "length (attrs_bytes as) + 32"
  let ?h = "head_bytes m ?n tid" and ?p = "head_bytes m ?n tid @ attrs_bytes as"
  let ?msg = "\<lparr>stn_bytes = sealed_message H k p, stn_method = m, stn_tid = tid, stn_integrity_at = Some (length p)\<rparr>"
  have pl: "length p = 20 + length (attrs_bytes as)" unfolding p_def using tid by (rule length_unsealed)
  note h = head_bytes_fields [OF tid, of m ?n]
  have q: "length ?p = length p" using h(1) pl by simp
  have same: "sealed_message H k ?p = sealed_message H k p"
    using sealed_length_field [of "to_be16 (kind_of m)" "to_be16 (of_nat ?n)" "to_be16 (of_nat 0)" H k
        "to_be32 MAGIC_COOKIE @ tid @ attrs_bytes as"]
    by (simp add: p_def unsealed_def head_bytes_def)
  have "stun_be16 ?p 2 = Inr (of_nat (length ?p + 12))"
    unfolding q pl by (rule stun_be16_at [where p = "to_be16 (kind_of m)"]) (simp_all add: head_bytes_def ac_simps)
  then have v: "stun_verify H ?msg k"
    using verify_sealed [OF H, of ?p ?msg k] same q pl len by simp
  obtain post where post: "sealed_message H k p = ?h @ attrs_bytes as @ post"
    using sealed_shape [OF tid] unfolding p_def by blast
  have "attr_find kind (attributes_new (sealed_message H k p) (length p)) = map_of as kind" for kind
    using attr_find_attrs [of ?h as "length p" kind post] h(1) len pl post
    by (simp add: attributes_new_def STUN_HEADER_LEN_def)
  then show ?thesis using parse_sealed [OF H tid len, of k m] v by (simp add: p_def attributes_end_def)
qed


lemma utf8_valid_append: "utf8_valid xs \<Longrightarrow> utf8_valid (xs @ ys) = utf8_valid ys"
proof (induction "length xs" arbitrary: xs rule: less_induct)
  case less
  show ?case
  proof (cases xs)
    case (Cons a bs)
    have tail: "utf8_valid r \<Longrightarrow> length r < length xs \<Longrightarrow> utf8_valid (r @ ys) = utf8_valid ys" for r
      using less.hyps by blast
    have valid: "utf8_valid (a # bs)" using less.prems Cons by simp
    consider (one) "a \<le> 0x7F"
      | (two) "\<not> a \<le> 0x7F" "0xC2 \<le> a \<and> a \<le> 0xDF"
      | (three) "\<not> a \<le> 0x7F" "\<not> (0xC2 \<le> a \<and> a \<le> 0xDF)" "0xE0 \<le> a \<and> a \<le> 0xEF"
      | (four) "\<not> a \<le> 0x7F" "\<not> (0xC2 \<le> a \<and> a \<le> 0xDF)" "\<not> (0xE0 \<le> a \<and> a \<le> 0xEF)" "0xF0 \<le> a \<and> a \<le> 0xF4"
      using valid [unfolded utf8_valid.simps(2)] by argo
    then show ?thesis
    proof cases
      case one
      then show ?thesis using valid tail [of bs] Cons by simp
    next
      case two
      have e: "utf8_valid (a # cs) = (case cs of b # r \<Rightarrow> cont_byte b \<and> utf8_valid r | _ \<Rightarrow> False)" for cs
        unfolding utf8_valid.simps(2) [of a cs] if_not_P [OF two(1)] if_P [OF two(2)] ..
      obtain b r where "bs = b # r" using valid unfolding e by (cases bs) simp_all
      then show ?thesis using valid tail [of r] Cons by (simp add: e del: utf8_valid.simps(2))
    next
      case three
      have e: "utf8_valid (a # cs) = (case cs of b # c # r \<Rightarrow> cont_byte b \<and> (a = 0xE0 \<longrightarrow> 0xA0 \<le> b)
          \<and> (a = 0xED \<longrightarrow> b \<le> 0x9F) \<and> cont_byte c \<and> utf8_valid r | _ \<Rightarrow> False)" for cs
        unfolding utf8_valid.simps(2) [of a cs] if_not_P [OF three(1)] if_not_P [OF three(2)] if_P [OF three(3)] ..
      obtain b c r where "bs = b # c # r" using valid unfolding e by (cases bs; cases "tl bs") simp_all
      then show ?thesis using valid tail [of r] Cons by (simp add: e del: utf8_valid.simps(2))
    next
      case four
      have e: "utf8_valid (a # cs) = (case cs of b # c # d # r \<Rightarrow> cont_byte b \<and> (a = 0xF0 \<longrightarrow> 0x90 \<le> b)
          \<and> (a = 0xF4 \<longrightarrow> b \<le> 0x8F) \<and> cont_byte c \<and> cont_byte d \<and> utf8_valid r | _ \<Rightarrow> False)" for cs
        unfolding utf8_valid.simps(2) [of a cs] if_not_P [OF four(1)] if_not_P [OF four(2)] if_not_P [OF four(3)]
          if_P [OF four(4)] ..
      obtain b c d r where "bs = b # c # d # r"
        using valid unfolding e by (cases bs; cases "tl bs"; cases "tl (tl bs)") simp_all
      then show ?thesis using valid tail [of r] Cons by (simp add: e del: utf8_valid.simps(2))
    qed
  qed simp
qed

lemma classify_head:
  assumes "20 \<le> length dg" "take 2 dg = to_be16 (kind_of m)"
  shows "classify dg = Check"
proof -
  obtain a b r where dg: "dg = a # b # r" using assms(1) by (cases dg; cases "tl dg") auto
  then have "[a, b] = to_be16 (kind_of m)" using assms(2) by (simp add: numeral_2_eq_2)
  then have "a \<le> 1" "b = 1"
    by (cases m; simp add: kind_of_def TYPE_BINDING_REQUEST_def TYPE_BINDING_SUCCESS_def to_be16_def)+
  moreover have "r \<noteq> []" using assms(1) dg by auto
  ultimately show ?thesis using assms(1) dg by (simp add: classify_def get_at_def)
qed

lemma classify_sealed:
  assumes "hmac_ok H" "length tid = 12"
  shows "classify (sealed_message H k (unsealed m tid as)) = Check"
proof (rule classify_head [where m = m])
  show "20 \<le> length (sealed_message H k (unsealed m tid as))"
    using assms by (simp add: length_sealed length_unsealed)
  show "take 2 (sealed_message H k (unsealed m tid as)) = to_be16 (kind_of m)"
    using sealed_shape [OF assms(2)] by (simp add: head_bytes_def)
qed

section \<open>Properties\<close>

text \<open>A stand-in for the digest, to evaluate the model on concrete messages.\<close>

definition demo_hmac :: hmac where
  "demo_hmac k m = take 20 (k @ rev m @ replicate 20 0)"

lemma demo_hmac_ok: "hmac_ok demo_hmac"
  by (auto simp: hmac_ok_def demo_hmac_def min_def)

text \<open>A binding request round trip. With fragments of at most 32 bytes and a buffer of 152 bytes
  encode_binding_request succeeds, the bytes it wrote are classified as a check by the demultiplexer,
  parse as a binding request with the transaction identifier, verify under the password they were
  signed with, and carry the username remote, colon, local.\<close>
theorem stun_request_roundtrip:
  assumes "hmac_ok H" "length tid = 12" "length tb = 8"
    and "length l \<le> MAX_UFRAG" "length r \<le> MAX_UFRAG" "utf8_valid l" "utf8_valid r" "152 \<le> length out"
  shows "\<exists>out' n m. encode_binding_request H out tid l r tb k = Inr (out', n) \<and> n \<le> 152
    \<and> classify (take n out') = Check
    \<and> stun_parse (take n out') = Inr m \<and> stn_method m = BindingRequest \<and> stn_tid m = tid
    \<and> stun_verify H m k \<and> stun_username m = Some (r @ [0x3A] @ l)"
proof -
  let ?as = "request_attrs l r tb"
  let ?p = "unsealed BindingRequest tid ?as" and ?u = "r @ [0x3A] @ l"
  have uf: "length l \<le> 32" "length r \<le> 32" using assms(4,5) by (simp_all add: MAX_UFRAG_def)
  note rl = request_length [OF assms(2) uf assms(3)]
  have e: "encode_binding_request H out tid l r tb k = Inr (put_at out 0 (sealed_message H k ?p), length ?p + 32)"
    using encode_binding_request_eq [OF assms(1,2) uf assms(3), of out k] rl assms(8) by simp
  have t: "take (length ?p + 32) (put_at out 0 (sealed_message H k ?p)) = sealed_message H k ?p"
    using length_sealed [OF assms(1), of ?p k] rl assms(8) put_at_prefix [of "sealed_message H k ?p" out] by simp
  have "length (attrs_bytes ?as) \<le> 204" using rl length_unsealed [OF assms(2)] by simp
  then obtain m where m: "stun_parse (sealed_message H k ?p) = Inr m" "stn_method m = BindingRequest"
      "stn_tid m = tid" "stun_verify H m k"
      "attr_find ATTR_USERNAME (attributes_new (stn_bytes m) (attributes_end m)) = map_of ?as ATTR_USERNAME"
    using parsed_sealed_verifies [OF assms(1,2)] by blast
  have "utf8_valid ?u" using assms(6,7) by (simp add: utf8_valid_append)
  then have "stun_username m = Some ?u" by (simp add: stun_username_def m(5) request_attrs_def)
  then show ?thesis
    unfolding e using m t classify_sealed [OF assms(1,2)] rl
    by (intro exI [of _ "put_at out 0 (sealed_message H k ?p)"] exI [of _ "length ?p + 32"] exI [of _ m]) simp
qed

theorem stun_request_roundtrip_witness:
  "\<exists>out' n m. encode_binding_request demo_hmac (replicate 152 0) (replicate 12 7) [97, 98] [0xC3, 0xA9]
      (replicate 8 1) [1, 2, 3] = Inr (out', n) \<and> n \<le> 152 \<and> classify (take n out') = Check
    \<and> stun_parse (take n out') = Inr m \<and> stn_method m = BindingRequest \<and> stn_tid m = replicate 12 7
    \<and> stun_verify demo_hmac m [1, 2, 3] \<and> stun_username m = Some ([0xC3, 0xA9] @ [0x3A] @ [97, 98])"
  using stun_request_roundtrip [OF demo_hmac_ok, of "replicate 12 7" "replicate 8 1" "[97, 98]" "[0xC3, 0xA9]"
      "replicate 152 0" "[1, 2, 3]"]
  by (simp add: MAX_UFRAG_def cont_byte_def)

text \<open>A binding response round trip. Into a buffer of 76 bytes encode_binding_response succeeds for
  every address; the bytes are classified as a check, parse as a binding success with the identifier,
  verify under the password, and the mapped address read back is the observed one in canonical form,
  without the flow information and scope the wire does not carry.\<close>
theorem stun_response_roundtrip:
  assumes "hmac_ok H" "length tid = 12" "wf_addr a" "76 \<le> length out"
  shows "\<exists>out' n m. encode_binding_response H out tid a k = Inr (out', n) \<and> n \<le> 76
    \<and> classify (take n out') = Check
    \<and> stun_parse (take n out') = Inr m \<and> stn_method m = BindingSuccess \<and> stn_tid m = tid
    \<and> stun_verify H m k \<and> mapped_address m = Some (plain_addr a)"
proof -
  let ?as = "response_attrs tid a"
  let ?p = "unsealed BindingSuccess tid ?as"
  note rl = response_length [OF assms(3,2)]
  have e: "encode_binding_response H out tid a k = Inr (put_at out 0 (sealed_message H k ?p), length ?p + 32)"
    using encode_binding_response_eq [OF assms(1,3,2), of out k] rl assms(4) by simp
  have t: "take (length ?p + 32) (put_at out 0 (sealed_message H k ?p)) = sealed_message H k ?p"
    using length_sealed [OF assms(1), of ?p k] rl assms(4) put_at_prefix [of "sealed_message H k ?p" out] by simp
  have "length (attrs_bytes ?as) \<le> 204" using rl length_unsealed [OF assms(2)] by simp
  then obtain m where m: "stun_parse (sealed_message H k ?p) = Inr m" "stn_method m = BindingSuccess"
      "stn_tid m = tid" "stun_verify H m k"
      "attr_find ATTR_XOR_MAPPED_ADDRESS (attributes_new (stn_bytes m) (attributes_end m))
         = map_of ?as ATTR_XOR_MAPPED_ADDRESS"
    using parsed_sealed_verifies [OF assms(1,2)] by blast
  have "mapped_address m = Some (plain_addr a)"
    by (simp add: mapped_address_def m response_attrs_def decode_mapped_value [OF assms(3,2)])
  then show ?thesis
    unfolding e using m t classify_sealed [OF assms(1,2)] rl
    by (intro exI [of _ "put_at out 0 (sealed_message H k ?p)"] exI [of _ "length ?p + 32"] exI [of _ m]) simp
qed

theorem stun_response_roundtrip_witness:
  "\<exists>out' n m. encode_binding_response demo_hmac (replicate 76 0) (replicate 12 7)
      (SA_V6 (replicate 10 0 @ [0xFF, 0xFF, 10, 0, 0, 1]) 443 0 0) [1, 2, 3] = Inr (out', n) \<and> n \<le> 76
    \<and> classify (take n out') = Check
    \<and> stun_parse (take n out') = Inr m \<and> stn_method m = BindingSuccess \<and> stn_tid m = replicate 12 7
    \<and> stun_verify demo_hmac m [1, 2, 3] \<and> mapped_address m = Some (SA_V4 [10, 0, 0, 1] 443)"
proof -
  have "plain_addr (SA_V6 (replicate 10 0 @ [0xFF, 0xFF, 10, 0, 0, 1]) 443 0 0) = SA_V4 [10, 0, 0, 1] 443"
    by (simp add: plain_addr_def canonical_def to_ipv4_mapped_def)
  then show ?thesis
    using stun_response_roundtrip [OF demo_hmac_ok, of "replicate 12 7"
        "SA_V6 (replicate 10 0 @ [0xFF, 0xFF, 10, 0, 0, 1]) 443 0 0" "replicate 76 0" "[1, 2, 3]"]
    by (simp add: wf_addr_def)
qed

text \<open>C23: Verification is exact. A message that parses verifies under a password exactly when the
  datagram is the sealed form of its own front part: everything up to the last 32 bytes, then the
  digest of that part under the password, then the checksum, both over the substituted lengths.\<close>
theorem stun_verify_exact:
  assumes "hmac_ok H" "stun_parse dg = Inr m"
  shows "stun_verify H m k \<longleftrightarrow> is_authenticated m \<and> dg = sealed_message H k (take (length dg - 32) dg)"
proof (cases "stn_integrity_at m")
  case None
  then show ?thesis by (simp add: stun_verify_def is_authenticated_def)
next
  case (Some i)
  note f = stun_parse_fields [OF assms(2)]
  have i: "stun_integrity_at dg = Some i" using Some f(5) by simp
  obtain c d where cd: "length c = 20" "length d = 4" "i + 32 = length dg" "20 \<le> i"
    "dg = take i dg @ (to_be16 ATTR_MESSAGE_INTEGRITY @ to_be16 20 @ c) @ to_be16 ATTR_FINGERPRINT @ to_be16 4 @ d"
    using i by (rule integrity_at_Some)
  define p where "p = take i dg"
  have p: "length p = i" "i \<le> 224" using cd f(3) by (simp_all add: p_def)
  have lf: "take 2 p @ to_be16 (of_nat (i + 12)) @ drop 4 p = p"
  proof -
    have "length dg - 20 = i + 12" using cd(3) by simp
    then show ?thesis using length_field_same [OF f(6), of i] cd(3,4) by (simp add: p_def)
  qed
  have v: "stun_verify H m k \<longleftrightarrow> c = mac_bytes H k p \<and> d = crc_bytes p (to_be16 ATTR_MESSAGE_INTEGRITY @ to_be16 20 @ c)"
    using p cd f(1) Some by (intro verify_trailer [OF assms(1)]) (simp_all add: p_def)
  have "sealed_message H k p = p @ integrity_attr H k p @ to_be16 ATTR_FINGERPRINT @ to_be16 4
      @ crc_bytes p (integrity_attr H k p)"
    unfolding sealed_message_def p(1) using lf by (metis append_assoc)
  moreover have "dg = p @ to_be16 ATTR_MESSAGE_INTEGRITY @ to_be16 20 @ c @ to_be16 ATTR_FINGERPRINT @ to_be16 4 @ d"
    using cd(5) by (simp add: p_def)
  moreover have "length (mac_bytes H k p) = 20" using assms(1) by (simp add: mac_bytes_def hmac_ok_def)
  ultimately have "dg = sealed_message H k p \<longleftrightarrow>
      c = mac_bytes H k p \<and> d = crc_bytes p (to_be16 ATTR_MESSAGE_INTEGRITY @ to_be16 20 @ c)"
    using cd(1) by (auto simp: integrity_attr_def)
  moreover have "take (length dg - 32) dg = p" using cd(3) [symmetric] by (simp add: p_def)
  ultimately show ?thesis using v Some by (simp add: is_authenticated_def)
qed


definition demo_check :: bytes where
  "demo_check = sealed_message demo_hmac [1, 2, 3] (unsealed BindingRequest (replicate 12 7) [])"

definition demo_check_msg :: stun_message where
  "demo_check_msg = \<lparr>stn_bytes = demo_check, stn_method = BindingRequest, stn_tid = replicate 12 7,
     stn_integrity_at = Some (length (unsealed BindingRequest (replicate 12 7) []))\<rparr>"

theorem stun_verify_exact_witness:
  "stun_parse demo_check = Inr demo_check_msg
   \<and> (stun_verify demo_hmac demo_check_msg [4] \<longleftrightarrow>
        is_authenticated demo_check_msg \<and> demo_check = sealed_message demo_hmac [4] (take (length demo_check - 32) demo_check))"
proof -
  have p: "stun_parse demo_check = Inr demo_check_msg"
    using stun.parse_encode [of "(demo_hmac, [1, 2, 3], BindingRequest, replicate 12 7, [])"] demo_hmac_ok
    by (simp add: demo_check_def demo_check_msg_def)
  show ?thesis using p stun_verify_exact [OF demo_hmac_ok p, of "[4]"] by simp
qed

end
