(* ===== verification/Conn.thy ===== *)
theory Conn
  imports Stun_Codec
begin

text \<open>
  The punch (\<open>core/src/conn.rs\<close>): candidates in, authenticated checks out, a path or a typed failure.
  The two digests of the \<open>sha1\<close> and \<open>hmac\<close> crates are the fields of \<open>digests\<close>, a parameter of the
  operations that use them. An operation that writes a datagram returns the caller's buffer with its
  length; a returned error says nothing about the buffer.
\<close>

section \<open>Constants and data\<close>

definition CHECK_CADENCE_MS :: f64 where "CHECK_CADENCE_MS = Fin 500"
definition PUNCH_WINDOW_MS :: f64 where "PUNCH_WINDOW_MS = Fin 7500"
definition PACING_MS :: f64 where "PACING_MS = Fin 10"
definition PROBE_TTL :: byte where "PROBE_TTL = 4"
definition MAX_CANDIDATES :: nat where "MAX_CANDIDATES = 16"
definition MAX_PENDING :: nat where "MAX_PENDING = 4"
definition MAX_SERVERS :: nat where "MAX_SERVERS = 4"

datatype ttl = TTL_Default | TTL_Probe

record egress =
  eg_to :: socket_addr
  eg_ttl :: ttl
  eg_len :: nat

datatype conn_failure = ProbeTimeout | NoCandidates

datatype conn_state = Checking | Established socket_addr | Failed conn_failure

datatype conn_inbound =
    CheckAnswered | PathEstablished socket_addr | Reflexive socket_addr | Redundant

record credentials =
  cr_local_ufrag :: bytes
  cr_local_pwd :: bytes
  cr_remote_ufrag :: bytes
  cr_remote_pwd :: bytes

record conn_candidate =
  ca_addr :: socket_addr
  ca_last_check_ms :: "f64 option"
  ca_outstanding :: "transaction_id option"

record conn_server =
  sv_addr :: socket_addr
  sv_last_probe_ms :: "f64 option"
  sv_outstanding :: "transaction_id option"
  sv_answered :: bool
  sv_mapped :: "socket_addr option"

record conn =
  cn_credentials :: credentials
  cn_seed :: bytes
  cn_candidates :: "conn_candidate option list"
  cn_servers :: "conn_server option list"
  cn_pending :: "(socket_addr \<times> transaction_id) option list"
  cn_state :: conn_state
  cn_started_ms :: f64
  cn_last_sent_ms :: "f64 option"
  cn_probe_sent :: bool
  cn_counter :: u32

record digests =
  dg_hmac :: hmac
  dg_sha1 :: "bytes \<Rightarrow> bytes"

section \<open>Tables of optional slots\<close>

text \<open>\<open>iter().flatten()\<close>, the first slot that satisfies a predicate, and the update of a slot
  through \<open>as_mut\<close>.\<close>

definition slots :: "'a option list \<Rightarrow> 'a list" where
  "slots xs = concat (map (\<lambda>s. case s of None \<Rightarrow> [] | Some x \<Rightarrow> [x]) xs)"

fun slot_index :: "('a \<Rightarrow> bool) \<Rightarrow> 'a list \<Rightarrow> nat option" where
  "slot_index P [] = None"
| "slot_index P (x # xs) = (if P x then Some 0 else map_option Suc (slot_index P xs))"

definition slot_sat :: "('a \<Rightarrow> bool) \<Rightarrow> 'a option \<Rightarrow> bool" where
  "slot_sat P s = (case s of None \<Rightarrow> False | Some x \<Rightarrow> P x)"

definition slot_update :: "'a option list \<Rightarrow> nat \<Rightarrow> ('a \<Rightarrow> 'a) \<Rightarrow> 'a option list" where
  "slot_update xs i f = (if i < length xs then xs[i := map_option f (xs ! i)] else xs)"

section \<open>Construction and tables\<close>

definition conn_new :: "credentials \<Rightarrow> bytes \<Rightarrow> f64 \<Rightarrow> conn" where
  "conn_new creds seed now_ms = \<lparr>cn_credentials = creds, cn_seed = seed,
     cn_candidates = replicate MAX_CANDIDATES None, cn_servers = replicate MAX_SERVERS None,
     cn_pending = replicate MAX_PENDING None, cn_state = Checking, cn_started_ms = now_ms,
     cn_last_sent_ms = None, cn_probe_sent = False, cn_counter = 0\<rparr>"

definition conn_reflexive :: "conn \<Rightarrow> socket_addr list" where
  "conn_reflexive c = slots (map sv_mapped (slots (cn_servers c)))"

definition conn_path :: "conn \<Rightarrow> socket_addr option" where
  "conn_path c = (case cn_state c of Established a \<Rightarrow> Some a | _ \<Rightarrow> None)"

definition add_candidate :: "conn \<Rightarrow> socket_addr \<Rightarrow> conn \<times> unit result" where
  "add_candidate c addr0 = (let addr = canonical addr0 in
     if list_ex (\<lambda>x. ca_addr x = addr) (slots (cn_candidates c)) then (c, Inr ())
     else case slot_index (\<lambda>s. s = None) (cn_candidates c) of
       None \<Rightarrow> (c, Inl Oversized)
     | Some i \<Rightarrow> (c\<lparr>cn_candidates := (cn_candidates c)[i := Some
           \<lparr>ca_addr = addr, ca_last_check_ms = None, ca_outstanding = None\<rparr>]\<rparr>, Inr ()))"

definition candidate_count :: "conn \<Rightarrow> nat" where
  "candidate_count c = length (slots (cn_candidates c))"

definition add_server :: "conn \<Rightarrow> socket_addr \<Rightarrow> conn \<times> unit result" where
  "add_server c addr0 = (let addr = canonical addr0 in
     if list_ex (\<lambda>x. sv_addr x = addr) (slots (cn_servers c)) then (c, Inr ())
     else case slot_index (\<lambda>s. s = None) (cn_servers c) of
       None \<Rightarrow> (c, Inl Oversized)
     | Some i \<Rightarrow> (c\<lparr>cn_servers := (cn_servers c)[i := Some
           \<lparr>sv_addr = addr, sv_last_probe_ms = None, sv_outstanding = None, sv_answered = False,
            sv_mapped = None\<rparr>]\<rparr>, Inr ()))"

definition queue_response :: "conn \<Rightarrow> socket_addr \<Rightarrow> transaction_id \<Rightarrow> conn \<times> unit result" where
  "queue_response c to tid = (case slot_index (\<lambda>s. s = None) (cn_pending c) of
     None \<Rightarrow> (c, Inl Oversized)
   | Some i \<Rightarrow> (c\<lparr>cn_pending := (cn_pending c)[i := Some (to, tid)]\<rparr>, Inr ()))"

section \<open>Input\<close>

definition handle_request :: "hmac \<Rightarrow> conn \<Rightarrow> stun_message \<Rightarrow> socket_addr \<Rightarrow> conn \<times> conn_inbound result" where
  "handle_request H c m from_addr =
     (if \<not> stun_verify H m (cr_local_pwd (cn_credentials c)) then (c, Inl Decrypt)
      else let c1 = fst (add_candidate c from_addr) in
        case queue_response c1 from_addr (stn_tid m) of
          (c2, Inl e) \<Rightarrow> (c2, Inl e)
        | (c2, Inr _) \<Rightarrow> (c2, Inr CheckAnswered))"

definition server_answer :: "conn \<Rightarrow> nat \<Rightarrow> stun_message \<Rightarrow> conn \<times> conn_inbound result" where
  "server_answer c i m =
     (let c1 = c\<lparr>cn_servers := slot_update (cn_servers c) i
           (\<lambda>s. s\<lparr>sv_outstanding := None, sv_answered := True\<rparr>)\<rparr> in
      case mapped_address m of
        Some mapped \<Rightarrow> (c1\<lparr>cn_servers := slot_update (cn_servers c1) i
             (\<lambda>s. s\<lparr>sv_mapped := Some mapped\<rparr>)\<rparr>, Inr (Reflexive mapped))
      | None \<Rightarrow> (c1, Inl Malformed))"

definition candidate_answer :: "conn \<Rightarrow> nat \<Rightarrow> conn \<times> conn_inbound result" where
  "candidate_answer c i = (case cn_candidates c ! i of
     None \<Rightarrow> (c, Inr Redundant)
   | Some x \<Rightarrow>
       (let c1 = c\<lparr>cn_candidates := slot_update (cn_candidates c) i (\<lambda>x. x\<lparr>ca_outstanding := None\<rparr>)\<rparr> in
        if cn_state c1 = Checking
        then (c1\<lparr>cn_state := Established (ca_addr x)\<rparr>, Inr (PathEstablished (ca_addr x)))
        else (c1, Inr Redundant)))"

definition handle_success :: "hmac \<Rightarrow> conn \<Rightarrow> stun_message \<Rightarrow> socket_addr \<Rightarrow> conn \<times> conn_inbound result" where
  "handle_success H c m from_addr = (let tid = stn_tid m in
     case slot_index (slot_sat (\<lambda>s. sv_outstanding s = Some tid \<and> sv_addr s = from_addr)) (cn_servers c) of
       Some i \<Rightarrow> server_answer c i m
     | None \<Rightarrow>
         if \<not> stun_verify H m (cr_remote_pwd (cn_credentials c)) then (c, Inl Decrypt)
         else case slot_index (slot_sat (\<lambda>x. ca_outstanding x = Some tid)) (cn_candidates c) of
           None \<Rightarrow> (c, Inr Redundant)
         | Some i \<Rightarrow> candidate_answer c i)"

definition conn_process_input :: "hmac \<Rightarrow> conn \<Rightarrow> bytes \<Rightarrow> socket_addr \<Rightarrow> conn \<times> conn_inbound result" where
  "conn_process_input H c datagram from0 = (let from_addr = canonical from0 in
     case stun_parse datagram of Inl e \<Rightarrow> (c, Inl e) | Inr m \<Rightarrow>
       (case stn_method m of
          BindingRequest \<Rightarrow> handle_request H c m from_addr
        | BindingSuccess \<Rightarrow> handle_success H c m from_addr))"

section \<open>Time\<close>

definition conn_poll :: "conn \<Rightarrow> f64 \<Rightarrow> conn" where
  "conn_poll c now_ms =
     (if cn_state c \<noteq> Checking then c
      else if fle PUNCH_WINDOW_MS (fsub now_ms (cn_started_ms c))
        then c\<lparr>cn_state := Failed (if candidate_count c = 0 then NoCandidates else ProbeTimeout)\<rparr>
      else c)"

definition pace_wait :: "conn \<Rightarrow> f64 \<Rightarrow> f64" where
  "pace_wait c now_ms = (case cn_last_sent_ms c of
     Some sent \<Rightarrow> fmax (fsub (fadd sent PACING_MS) now_ms) (Fin 0) | None \<Rightarrow> Fin 0)"

definition cadence_due :: "f64 option \<Rightarrow> f64 \<Rightarrow> f64" where
  "cadence_due sent now_ms = (case sent of
     Some t \<Rightarrow> fmax (fsub (fadd t CHECK_CADENCE_MS) now_ms) (Fin 0) | None \<Rightarrow> Fin 0)"

definition cadence_ready :: "f64 option \<Rightarrow> f64 \<Rightarrow> bool" where
  "cadence_ready sent now_ms = (case sent of
     Some t \<Rightarrow> fle CHECK_CADENCE_MS (fsub now_ms t) | None \<Rightarrow> True)"

definition conn_next_timer_ms :: "conn \<Rightarrow> f64 \<Rightarrow> f64" where
  "conn_next_timer_ms c now_ms =
     (if cn_state c \<noteq> Checking then PInf
      else let soonest = fmax (fsub (fadd (cn_started_ms c) PUNCH_WINDOW_MS) now_ms) (Fin 0);
               soonest = (if slots (cn_pending c) \<noteq> [] then fmin soonest (pace_wait c now_ms) else soonest);
               soonest = fold (\<lambda>x t. fmin t (fmax (cadence_due (ca_last_check_ms x) now_ms) (pace_wait c now_ms)))
                              (slots (cn_candidates c)) soonest
        in fold (\<lambda>s t. fmin t (fmax (cadence_due (sv_last_probe_ms s) now_ms) (pace_wait c now_ms)))
             (filter (\<lambda>s. \<not> sv_answered s) (slots (cn_servers c))) soonest)"

section \<open>Output\<close>

definition next_transaction_id :: "digests \<Rightarrow> conn \<Rightarrow> conn \<times> transaction_id" where
  "next_transaction_id D c =
     (c\<lparr>cn_counter := cn_counter c + 1\<rparr>, take 12 (dg_sha1 D (cn_seed c @ to_be32 (cn_counter c))))"

definition tiebreaker :: "conn \<Rightarrow> bytes" where
  "tiebreaker c = take 8 (cn_seed c)"

definition emit_check ::
    "digests \<Rightarrow> conn \<Rightarrow> socket_addr \<Rightarrow> ttl \<Rightarrow> f64 \<Rightarrow> bytes \<Rightarrow> conn \<times> (bytes \<times> egress) result" where
  "emit_check D c to ttl now_ms out = (case next_transaction_id D c of (c, tid) \<Rightarrow>
     case encode_binding_request (dg_hmac D) out tid (cr_local_ufrag (cn_credentials c))
            (cr_remote_ufrag (cn_credentials c)) (tiebreaker c) (cr_remote_pwd (cn_credentials c)) of
       Inl e \<Rightarrow> (c, Inl e)
     | Inr (out, len) \<Rightarrow>
         (let c1 = (case slot_index (slot_sat (\<lambda>x. ca_addr x = to)) (cn_candidates c) of
                      Some i \<Rightarrow> c\<lparr>cn_candidates := slot_update (cn_candidates c) i
                                     (\<lambda>x. x\<lparr>ca_outstanding := Some tid\<rparr>)\<rparr>
                    | None \<Rightarrow> c)
          in (c1\<lparr>cn_last_sent_ms := Some now_ms\<rparr>, Inr (out, \<lparr>eg_to = to, eg_ttl = ttl, eg_len = len\<rparr>))))"

definition emit_reflexive ::
    "digests \<Rightarrow> conn \<Rightarrow> nat \<Rightarrow> socket_addr \<Rightarrow> f64 \<Rightarrow> bytes \<Rightarrow> conn \<times> (bytes \<times> egress) result" where
  "emit_reflexive D c i to now_ms out = (case next_transaction_id D c of (c, tid) \<Rightarrow>
     case encode_reflexive_request out tid of
       Inl e \<Rightarrow> (c, Inl e)
     | Inr (out, len) \<Rightarrow>
         (c\<lparr>cn_servers := slot_update (cn_servers c) i
              (\<lambda>s. s\<lparr>sv_last_probe_ms := Some now_ms, sv_outstanding := Some tid\<rparr>),
            cn_last_sent_ms := Some now_ms\<rparr>,
          Inr (out, \<lparr>eg_to = to, eg_ttl = TTL_Default, eg_len = len\<rparr>)))"

definition emit_response ::
    "digests \<Rightarrow> conn \<Rightarrow> socket_addr \<Rightarrow> transaction_id \<Rightarrow> f64 \<Rightarrow> bytes \<Rightarrow> conn \<times> (bytes \<times> egress) result" where
  "emit_response D c to tid now_ms out =
     (case encode_binding_response (dg_hmac D) out tid to (cr_local_pwd (cn_credentials c)) of
        Inl e \<Rightarrow> (c, Inl e)
      | Inr (out, len) \<Rightarrow> (c\<lparr>cn_last_sent_ms := Some now_ms\<rparr>,
          Inr (out, \<lparr>eg_to = to, eg_ttl = TTL_Default, eg_len = len\<rparr>)))"

definition server_ready :: "f64 \<Rightarrow> conn_server \<Rightarrow> bool" where
  "server_ready now_ms s = (\<not> sv_answered s \<and> cadence_ready (sv_last_probe_ms s) now_ms)"

definition candidate_ready :: "f64 \<Rightarrow> conn_candidate \<Rightarrow> bool" where
  "candidate_ready now_ms x = cadence_ready (ca_last_check_ms x) now_ms"

text \<open>The part of \<open>get_output\<close> after the probe: a due server, else a due candidate.\<close>

definition emit_due :: "digests \<Rightarrow> conn \<Rightarrow> f64 \<Rightarrow> bytes \<Rightarrow> conn \<times> (bytes \<times> egress) result option" where
  "emit_due D c now_ms out =
     (case slot_index (slot_sat (server_ready now_ms)) (cn_servers c) of
        Some i \<Rightarrow> (case emit_reflexive D c i (sv_addr (the (cn_servers c ! i))) now_ms out of
                      (c, r) \<Rightarrow> (c, Some r))
      | None \<Rightarrow>
          (case slot_index (slot_sat (candidate_ready now_ms)) (cn_candidates c) of
             None \<Rightarrow> (c, None)
           | Some i \<Rightarrow>
               (case emit_check D c (ca_addr (the (cn_candidates c ! i))) TTL_Default now_ms out of
                  (c, Inl e) \<Rightarrow> (c, Some (Inl e))
                | (c, Inr r) \<Rightarrow> (c\<lparr>cn_candidates := slot_update (cn_candidates c) i
                        (\<lambda>x. x\<lparr>ca_last_check_ms := Some now_ms\<rparr>)\<rparr>, Some (Inr r)))))"

definition conn_get_output :: "digests \<Rightarrow> conn \<Rightarrow> f64 \<Rightarrow> bytes \<Rightarrow> conn \<times> (bytes \<times> egress) result option" where
  "conn_get_output D c now_ms out =
     (if flt (Fin 0) (pace_wait c now_ms) then (c, None)
      else case slot_index (\<lambda>s. s \<noteq> None) (cn_pending c) of
        Some i \<Rightarrow> (case cn_pending c ! i of None \<Rightarrow> (c, None) | Some (to, tid) \<Rightarrow>
           (case emit_response D (c\<lparr>cn_pending := (cn_pending c)[i := None]\<rparr>) to tid now_ms out of
              (c, r) \<Rightarrow> (c, Some r)))
      | None \<Rightarrow>
          if cn_state c \<noteq> Checking then (c, None)
          else if \<not> cn_probe_sent c \<and> slots (cn_candidates c) \<noteq> [] then
            (case emit_check D (c\<lparr>cn_probe_sent := True\<rparr>) (ca_addr (hd (slots (cn_candidates c)))) TTL_Probe now_ms out of
               (c, r) \<Rightarrow> (c, Some r))
          else emit_due D c now_ms out)"

end
