(* ===== verification/Conn_Inv.thy ===== *)
theory Conn_Inv
  imports Conn "HOL-Library.Multiset"
begin

text \<open>
  Invariants of the punch: the tables of an attempt stay well formed, every outstanding identifier
  belongs to a check that left, the effect of each operation on them, and the exchange of one check
  and its answer between two ends.
\<close>

section \<open>Slots\<close>

lemma slot_index_Some:
  "slot_index P xs = Some i \<Longrightarrow> i < length xs \<and> P (xs ! i)"
  by (induction xs arbitrary: i) (auto split: if_splits)

lemma slot_index_None: "slot_index P xs = None \<longleftrightarrow> (\<forall>x \<in> set xs. \<not> P x)"
  by (induction xs) auto

lemma slots_mem [simp]: "x \<in> set (slots xs) \<longleftrightarrow> Some x \<in> set xs"
  by (force simp: slots_def split: option.splits)

lemma length_slots: "length (slots xs) \<le> length xs"
  by (induction xs) (auto simp: slots_def split: option.split)

lemma slots_Nil: "slots xs = [] \<longleftrightarrow> (\<forall>s \<in> set xs. s = None)"
  by (induction xs) (auto simp: slots_def split: option.splits)

lemma slot_sat_index:
  assumes "slot_index (slot_sat P) xs = Some i"
  obtains x where "i < length xs" "xs ! i = Some x" "P x" "Some x \<in> set xs"
proof -
  from slot_index_Some [OF assms] have "i < length xs" "slot_sat P (xs ! i)" by simp_all
  moreover from this obtain x where "xs ! i = Some x" "P x" by (cases "xs ! i") (auto simp: slot_sat_def)
  ultimately show thesis using that nth_mem [of i xs] by metis
qed

lemma length_slot_update [simp]: "length (slot_update xs i f) = length xs"
  by (simp add: slot_update_def)

lemma slot_update_mem:
  "Some y \<in> set (slot_update xs i f) \<Longrightarrow> Some y \<in> set xs \<or> (\<exists>x. i < length xs \<and> xs ! i = Some x \<and> y = f x)"
  by (auto simp: slot_update_def in_set_conv_nth nth_list_update split: if_splits)

lemma slot_update_map:
  "(\<And>x. g (f x) = g x) \<Longrightarrow> map (map_option g) (slot_update xs i f) = map (map_option g) xs"
  by (simp add: slot_update_def map_update option.map_comp comp_def)
    (metis list_update_id map_update)

lemma map_slots: "map g (slots xs) = slots (map (map_option g) xs)"
  by (induction xs) (auto simp: slots_def split: option.splits)

lemma slots_fill:
  "i < length xs \<Longrightarrow> xs ! i = None \<Longrightarrow> mset (slots (xs[i := Some y])) = add_mset y (mset (slots xs))"
proof (induction xs arbitrary: i)
  case (Cons a xs)
  then show ?case by (cases i) (auto simp: slots_def split: option.splits)
qed simp

section \<open>The invariant\<close>

definition digests_ok :: "digests \<Rightarrow> bool" where
  "digests_ok D \<longleftrightarrow> hmac_ok (dg_hmac D) \<and> (\<forall>m. length (dg_sha1 D m) = 20)"

definition candidate_addrs :: "conn \<Rightarrow> socket_addr list" where
  "candidate_addrs c = map ca_addr (slots (cn_candidates c))"

definition good_addr :: "socket_addr \<Rightarrow> bool" where
  "good_addr a \<longleftrightarrow> wf_addr a \<and> canonical a = a"

definition conn_inv :: "conn \<Rightarrow> bool" where
  "conn_inv c \<longleftrightarrow> length (cn_candidates c) = MAX_CANDIDATES \<and> length (cn_servers c) = MAX_SERVERS
     \<and> length (cn_pending c) = MAX_PENDING \<and> length (cn_seed c) = 16
     \<and> distinct (candidate_addrs c) \<and> (\<forall>a \<in> set (candidate_addrs c). good_addr a)
     \<and> (\<forall>a. cn_state c = Established a \<longrightarrow> a \<in> set (candidate_addrs c))
     \<and> (\<forall>a tid. Some (a, tid) \<in> set (cn_pending c) \<longrightarrow> good_addr a \<and> length tid = 12)"

lemma good_canonical: "wf_addr a \<Longrightarrow> good_addr (canonical a)"
  by (simp add: good_addr_def canonical_wf canonical_idem)

lemma conn_new_inv: "length seed = 16 \<Longrightarrow> conn_inv (conn_new creds seed t)"
  by (simp add: conn_inv_def conn_new_def candidate_addrs_def slots_def)

lemma addrs_update:
  "(\<And>x. ca_addr (f x) = ca_addr x) \<Longrightarrow>
     candidate_addrs (c\<lparr>cn_candidates := slot_update (cn_candidates c) i f\<rparr>) = candidate_addrs c"
  by (simp add: candidate_addrs_def map_slots slot_update_map)

lemma addrs_frame [simp]:
  "candidate_addrs (c\<lparr>cn_servers := a\<rparr>) = candidate_addrs c"
  "candidate_addrs (c\<lparr>cn_pending := b\<rparr>) = candidate_addrs c"
  "candidate_addrs (c\<lparr>cn_state := d\<rparr>) = candidate_addrs c"
  "candidate_addrs (c\<lparr>cn_last_sent_ms := e\<rparr>) = candidate_addrs c"
  "candidate_addrs (c\<lparr>cn_probe_sent := f\<rparr>) = candidate_addrs c"
  "candidate_addrs (c\<lparr>cn_counter := g\<rparr>) = candidate_addrs c"
  by (simp_all add: candidate_addrs_def)

lemma addrs_mem: "a \<in> set (candidate_addrs c) \<longleftrightarrow> (\<exists>x. Some x \<in> set (cn_candidates c) \<and> ca_addr x = a)"
  by (auto simp: candidate_addrs_def)

text \<open>Adding a candidate leaves everything else alone and adds at most its canonical address.\<close>

lemma add_candidate_cases:
  assumes "add_candidate c a = (c', r)"
  obtains (same) "c' = c"
  | (added) i where "i < length (cn_candidates c)" "cn_candidates c ! i = None"
      "canonical a \<notin> set (candidate_addrs c)"
      "c' = c\<lparr>cn_candidates := (cn_candidates c)[i := Some
         \<lparr>ca_addr = canonical a, ca_last_check_ms = None, ca_outstanding = None\<rparr>]\<rparr>"
proof (cases "list_ex (\<lambda>x. ca_addr x = canonical a) (slots (cn_candidates c))")
  case True
  then show thesis using assms same by (simp add: add_candidate_def)
next
  case False
  then have ne: "canonical a \<notin> set (candidate_addrs c)" by (auto simp: list_ex_iff addrs_mem)
  show thesis
  proof (cases "slot_index (\<lambda>s. s = None) (cn_candidates c)")
    case None
    then show thesis using assms same False by (simp add: add_candidate_def)
  next
    case (Some i)
    then show thesis
      using assms False ne slot_index_Some [OF Some] by (intro added [of i]) (auto simp: add_candidate_def)
  qed
qed

lemma mset_addrs_added:
  assumes "i < length (cn_candidates c)" "cn_candidates c ! i = None"
  shows "mset (candidate_addrs (c\<lparr>cn_candidates := (cn_candidates c)[i := Some x]\<rparr>))
    = add_mset (ca_addr x) (mset (candidate_addrs c))"
  using slots_fill [OF assms, of x] by (simp add: candidate_addrs_def)

lemma add_candidate_inv:
  assumes inv: "conn_inv c" and a: "wf_addr a" and c': "add_candidate c a = (c', r)"
  shows "conn_inv c'"
  using c'
proof (cases rule: add_candidate_cases)
  case (added i)
  have m: "mset (candidate_addrs c') = add_mset (canonical a) (mset (candidate_addrs c))"
    using mset_addrs_added [OF added(1,2)] added(4) by simp
  have s: "set (candidate_addrs c') = insert (canonical a) (set (candidate_addrs c))"
    using arg_cong [OF m, of set_mset] by simp
  have "distinct (candidate_addrs c')"
    using m added(3) inv by (metis conn_inv_def distinct.simps(2) mset.simps(2) mset_eq_imp_distinct_iff)
  with s inv added(4) good_canonical [OF a] show ?thesis by (auto simp: conn_inv_def)
qed (simp add: inv)


lemma queue_response_cases:
  assumes "queue_response c a tid = (c', r)"
  obtains (full) "c' = c" "r = Inl Oversized"
  | (queued) i where "i < length (cn_pending c)" "cn_pending c ! i = None" "r = Inr ()"
      "c' = c\<lparr>cn_pending := (cn_pending c)[i := Some (a, tid)]\<rparr>"
proof (cases "slot_index (\<lambda>s. s = None) (cn_pending c)")
  case None
  then show thesis using assms full by (simp add: queue_response_def)
next
  case (Some i)
  from slot_index_Some [OF Some] show thesis
    using assms Some by (intro queued [of i]) (simp_all add: queue_response_def)
qed

lemma queue_response_inv:
  assumes "conn_inv c" "good_addr a" "length tid = 12" "queue_response c a tid = (c', r)"
  shows "conn_inv c'"
  using assms(4)
proof (cases rule: queue_response_cases)
  case (queued i)
  have sub: "set (cn_pending c') \<subseteq> insert (Some (a, tid)) (set (cn_pending c))"
    by (simp add: queued(4) set_update_subset_insert)
  have "good_addr b \<and> length t = 12" if "Some (b, t) \<in> set (cn_pending c')" for b t
  proof (cases "(b, t) = (a, tid)")
    case False
    then have "Some (b, t) \<in> set (cn_pending c)" using that sub by blast
    then show ?thesis using assms(1) unfolding conn_inv_def by blast
  qed (simp add: assms(2,3))
  then show ?thesis using assms(1) queued(4) by (simp add: conn_inv_def)
qed (simp add: assms(1))

section \<open>Input\<close>

text \<open>What a datagram can do to an attempt.\<close>

lemma conn_process_input_cases:
  assumes "conn_process_input H c dg from0 = (c', r)"
  obtains (rejected) "c' = c"
  | (request) m c1 q where "stun_parse dg = Inr m" "stn_method m = BindingRequest"
      "stun_verify H m (cr_local_pwd (cn_credentials c))"
      "c1 = fst (add_candidate c (canonical from0))"
      "queue_response c1 (canonical from0) (stn_tid m) = (c', q)"
  | (server) m ss where "stun_parse dg = Inr m" "stn_method m = BindingSuccess"
      "c' = c\<lparr>cn_servers := ss\<rparr>" "length ss = length (cn_servers c)"
  | (answer) m i x where "stun_parse dg = Inr m" "stn_method m = BindingSuccess"
      "stun_verify H m (cr_remote_pwd (cn_credentials c))" "i < length (cn_candidates c)"
      "cn_candidates c ! i = Some x" "ca_outstanding x = Some (stn_tid m)" "Some x \<in> set (cn_candidates c)"
      "c' = c\<lparr>cn_candidates := slot_update (cn_candidates c) i (\<lambda>x. x\<lparr>ca_outstanding := None\<rparr>),
              cn_state := (if cn_state c = Checking then Established (ca_addr x) else cn_state c)\<rparr>"
      "r = Inr (if cn_state c = Checking then PathEstablished (ca_addr x) else Redundant)"
proof (cases "stun_parse dg")
  case (Inl e)
  then show thesis using assms rejected by (simp add: conn_process_input_def)
next
  case (Inr m)
  note p = Inr
  show thesis
  proof (cases "stn_method m")
    case BindingRequest
    show thesis
    proof (cases "stun_verify H m (cr_local_pwd (cn_credentials c))")
      case True
      then show thesis
        using assms p BindingRequest request [OF p BindingRequest True refl]
        by (auto simp: conn_process_input_def handle_request_def Let_def split: prod.splits sum.splits)
    next
      case False
      then show thesis using assms p BindingRequest rejected
        by (simp add: conn_process_input_def handle_request_def)
    qed
  next
    case BindingSuccess
    let ?si = "slot_index (slot_sat (\<lambda>s. sv_outstanding s = Some (stn_tid m) \<and> sv_addr s = canonical from0)) (cn_servers c)"
    have h: "handle_success H c m (canonical from0) = (c', r)"
      using assms p BindingSuccess by (simp add: conn_process_input_def)
    show thesis
    proof (cases ?si)
      case (Some i)
      then have "server_answer c i m = (c', r)" using h by (simp add: handle_success_def)
      then obtain ss where "c' = c\<lparr>cn_servers := ss\<rparr>" "length ss = length (cn_servers c)"
        by (cases "mapped_address m") (auto simp: server_answer_def)
      then show thesis by (rule server [OF p BindingSuccess])
    next
      case None
      note h1 = h [unfolded handle_success_def Let_def None option.case]
      show thesis
      proof (cases "stun_verify H m (cr_remote_pwd (cn_credentials c))")
        case False
        then show thesis using h1 rejected by simp
      next
        case True
        show thesis
        proof (cases "slot_index (slot_sat (\<lambda>x. ca_outstanding x = Some (stn_tid m))) (cn_candidates c)")
          case None
          then show thesis using h1 True rejected by simp
        next
          case (Some i)
          then obtain x where x: "i < length (cn_candidates c)" "cn_candidates c ! i = Some x"
              "ca_outstanding x = Some (stn_tid m)" "Some x \<in> set (cn_candidates c)"
            by (rule slot_sat_index)
          have "candidate_answer c i = (c', r)" using h1 True Some by simp
          then show thesis using x
            by (intro answer [OF p BindingSuccess True x(1,2,3,4)])
              (auto simp: candidate_answer_def Let_def split: if_splits)
        qed
      qed
    qed
  qed
qed


lemma conn_inv_slot_update:
  assumes "conn_inv c" "\<And>x. ca_addr (f x) = ca_addr x"
  shows "conn_inv (c\<lparr>cn_candidates := slot_update (cn_candidates c) i f\<rparr>)"
  using assms addrs_update [of f c i] unfolding conn_inv_def by simp

lemma conn_inv_frame:
  assumes "conn_inv c"
  shows "length ss = MAX_SERVERS \<Longrightarrow> conn_inv (c\<lparr>cn_servers := ss\<rparr>)"
    "conn_inv (c\<lparr>cn_last_sent_ms := l\<rparr>)" "conn_inv (c\<lparr>cn_probe_sent := b\<rparr>)" "conn_inv (c\<lparr>cn_counter := n\<rparr>)"
    "conn_inv (c\<lparr>cn_pending := (cn_pending c)[i := None]\<rparr>)"
    "(\<And>a. st = Established a \<Longrightarrow> a \<in> set (candidate_addrs c)) \<Longrightarrow> conn_inv (c\<lparr>cn_state := st\<rparr>)"
  using assms by (auto simp: conn_inv_def dest!: set_update_subset_insert [THEN subsetD])

lemma conn_process_input_inv:
  assumes inv: "conn_inv c" and a: "wf_addr from0" and c': "conn_process_input H c dg from0 = (c', r)"
  shows "conn_inv c'"
  using c'
proof (cases rule: conn_process_input_cases)
  case (request m c1 q)
  have "conn_inv c1" unfolding request(4)
    by (rule add_candidate_inv [OF inv canonical_wf [OF a], OF surjective_pairing])
  then show ?thesis
    using request(1,5) good_canonical [OF a] stun_parse_fields(4) queue_response_inv by blast
next
  case (server m ss)
  then show ?thesis using inv by (auto intro: conn_inv_frame(1) simp: conn_inv_def)
next
  case (answer m i x)
  let ?c = "c\<lparr>cn_candidates := slot_update (cn_candidates c) i (\<lambda>x. x\<lparr>ca_outstanding := None\<rparr>)\<rparr>"
  have i: "conn_inv ?c" using inv by (rule conn_inv_slot_update) simp
  have s: "set (candidate_addrs ?c) = set (candidate_addrs c)" by (subst addrs_update) simp_all
  have "ca_addr x \<in> set (candidate_addrs c)" using answer(7) by (auto simp: addrs_mem)
  then have "conn_inv (?c\<lparr>cn_state := (if cn_state c = Checking then Established (ca_addr x) else cn_state c)\<rparr>)"
    using inv s by (intro conn_inv_frame(6) [OF i]) (auto simp: conn_inv_def split: if_splits)
  then show ?thesis using answer(8) by simp
qed (simp add: inv)

section \<open>Output\<close>

definition conn_tid :: "digests \<Rightarrow> conn \<Rightarrow> transaction_id" where
  "conn_tid D c = snd (next_transaction_id D c)"

lemma length_conn_tid: "digests_ok D \<Longrightarrow> length (conn_tid D c) = 12"
  by (simp add: conn_tid_def next_transaction_id_def digests_ok_def)

text \<open>A check that left: the buffer parses as a request with the fresh identifier, signed with the
  peer's password.\<close>

definition is_check :: "digests \<Rightarrow> bytes \<Rightarrow> transaction_id \<Rightarrow> bytes \<Rightarrow> bool" where
  "is_check D dg tid pwd \<longleftrightarrow> (\<exists>m. stun_parse dg = Inr m \<and> stn_method m = BindingRequest \<and> stn_tid m = tid
     \<and> stun_verify (dg_hmac D) m pwd)"

definition note_check :: "conn \<Rightarrow> socket_addr \<Rightarrow> transaction_id \<Rightarrow> conn" where
  "note_check c to tid = (case slot_index (slot_sat (\<lambda>x. ca_addr x = to)) (cn_candidates c) of
     Some i \<Rightarrow> c\<lparr>cn_candidates := slot_update (cn_candidates c) i (\<lambda>x. x\<lparr>ca_outstanding := Some tid\<rparr>)\<rparr>
   | None \<Rightarrow> c)"

lemma request_written:
  assumes H: "hmac_ok H" and tid: "length tid = 12" and tb: "length tb = 8"
    and e: "encode_binding_request H out tid l r tb k = Inr (out', n)"
  shows "\<exists>m. stun_parse (take n out') = Inr m \<and> stn_method m = BindingRequest \<and> stn_tid m = tid \<and> stun_verify H m k"
proof -
  have uf: "length l \<le> 32" "length r \<le> 32"
    using e by (auto simp: encode_binding_request_def MAX_UFRAG_def split: if_splits)
  let ?p = "unsealed BindingRequest tid (request_attrs l r tb)"
  note rl = request_length [OF tid uf tb]
  have o: "length ?p + 32 \<le> length out" "out' = put_at out 0 (sealed_message H k ?p)" "n = length ?p + 32"
    using e encode_binding_request_eq [OF H tid uf tb, of out k] by (auto split: if_splits)
  have "take n out' = sealed_message H k ?p"
    using length_sealed [OF H, of ?p k] rl o put_at_prefix [of "sealed_message H k ?p" out] by simp
  moreover have "length (attrs_bytes (request_attrs l r tb)) \<le> 204" using rl length_unsealed [OF tid] by simp
  ultimately show ?thesis
    using parsed_sealed_verifies [OF H tid, of "request_attrs l r tb" k BindingRequest] by auto
qed

lemma emit_check_cases:
  assumes D: "digests_ok D" and inv: "conn_inv c" and e: "emit_check D c to ttl now out = (c', r)"
  obtains (failed) err where "r = Inl err" "c' = c\<lparr>cn_counter := cn_counter c + 1\<rparr>"
  | (sent) out' n where "r = Inr (out', \<lparr>eg_to = to, eg_ttl = ttl, eg_len = n\<rparr>)"
      "is_check D (take n out') (conn_tid D c) (cr_remote_pwd (cn_credentials c))"
      "c' = (note_check (c\<lparr>cn_counter := cn_counter c + 1\<rparr>) to (conn_tid D c))\<lparr>cn_last_sent_ms := Some now\<rparr>"
proof -
  let ?c = "c\<lparr>cn_counter := cn_counter c + 1\<rparr>"
  let ?e = "encode_binding_request (dg_hmac D) out (conn_tid D c) (cr_local_ufrag (cn_credentials c))
            (cr_remote_ufrag (cn_credentials c)) (tiebreaker c) (cr_remote_pwd (cn_credentials c))"
  have t: "next_transaction_id D c = (?c, conn_tid D c)"
    by (simp add: next_transaction_id_def conn_tid_def)
  have tb: "tiebreaker ?c = tiebreaker c" by (simp add: tiebreaker_def)
  note e1 = e [unfolded emit_check_def t prod.case tb conn.simps]
  show thesis
  proof (cases ?e)
    case (Inl err)
    then show thesis using e1 by (intro failed [of err]) simp_all
  next
    case (Inr p)
    obtain out' n where p: "p = (out', n)" by (cases p)
    have tl: "length (tiebreaker c) = 8" using inv by (simp add: tiebreaker_def conn_inv_def)
    have H: "hmac_ok (dg_hmac D)" using D by (simp add: digests_ok_def)
    have "is_check D (take n out') (conn_tid D c) (cr_remote_pwd (cn_credentials c))"
      unfolding is_check_def by (rule request_written [OF H length_conn_tid [OF D] tl Inr [unfolded p]])
    then show thesis
      using e1 Inr p by (intro sent [of out' n]) (simp_all add: note_check_def Let_def split: option.splits)
  qed
qed


lemma note_check_inv: "conn_inv c \<Longrightarrow> conn_inv (note_check c to tid)"
  by (auto simp: note_check_def conn_inv_slot_update split: option.splits)

lemma emit_check_inv:
  assumes "digests_ok D" "conn_inv c" "emit_check D c to ttl now out = (c', r)"
  shows "conn_inv c'"
  using assms
proof (cases rule: emit_check_cases)
  case (failed err)
  then show ?thesis using assms(2) by (simp add: conn_inv_frame)
next
  case (sent out' n)
  have "conn_inv (note_check (c\<lparr>cn_counter := cn_counter c + 1\<rparr>) to (conn_tid D c))"
    using assms(2) by (intro note_check_inv conn_inv_frame)
  then show ?thesis unfolding sent(3) by (rule conn_inv_frame)
qed

text \<open>The four things an output call can do: nothing, answer an owed response, ask a server, or send a
  check to a candidate; a failed encoding sends nothing.\<close>

lemma emit_due_cases:
  assumes D: "digests_ok D" and inv: "conn_inv c" and g: "emit_due D c now out = (c', r)"
  obtains (idle) "r = None" "c' = c"
  | (server) x ss y i to res where "emit_reflexive D c i to now out = (c', res)" "r = Some res"
      "c' = c\<lparr>cn_counter := cn_counter c + 1, cn_servers := ss, cn_last_sent_ms := x\<rparr>"
      "length ss = length (cn_servers c)" "Some y \<in> set (cn_servers c)"
  | (check) x c1 res where "Some x \<in> set (cn_candidates c)" "emit_check D c (ca_addr x) TTL_Default now out = (c1, res)"
      "r = Some res" "\<exists>i f. c' = c1\<lparr>cn_candidates := slot_update (cn_candidates c1) i f\<rparr>
         \<and> (\<forall>x. ca_addr (f x) = ca_addr x \<and> ca_outstanding (f x) = ca_outstanding x)"
proof (cases "slot_index (slot_sat (server_ready now)) (cn_servers c)")
  case (Some i)
  let ?c = "c\<lparr>cn_counter := cn_counter c + 1\<rparr>"
  obtain c1 res where e: "emit_reflexive D c i (sv_addr (the (cn_servers c ! i))) now out = (c1, res)" by fastforce
  then have c1: "c' = c1" "r = Some res" using g Some by (simp_all add: emit_due_def)
  have "\<exists>x ss. c1 = c\<lparr>cn_counter := cn_counter c + 1, cn_servers := ss, cn_last_sent_ms := x\<rparr>
      \<and> length ss = length (cn_servers c)"
  proof (cases "encode_reflexive_request out (conn_tid D c)")
    case (Inl err)
    then have "c1 = ?c" using e by (simp add: emit_reflexive_def next_transaction_id_def conn_tid_def)
    then show ?thesis by (intro exI [of _ "cn_last_sent_ms c"] exI [of _ "cn_servers c"]) simp
  next
    case (Inr p)
    let ?ss = "slot_update (cn_servers c) i (\<lambda>s. s\<lparr>sv_last_probe_ms := Some now, sv_outstanding := Some (conn_tid D c)\<rparr>)"
    have "c1 = c\<lparr>cn_counter := cn_counter c + 1, cn_servers := ?ss, cn_last_sent_ms := Some now\<rparr>"
      using e Inr by (cases p) (simp add: emit_reflexive_def next_transaction_id_def conn_tid_def)
    then show ?thesis by (intro exI [of _ "Some now"] exI [of _ ?ss]) simp
  qed
  moreover obtain y where "Some y \<in> set (cn_servers c)" using Some by (rule slot_sat_index)
  ultimately show thesis using c1 e server by blast
next
  case None
  note g1 = g [unfolded emit_due_def None option.case]
  show thesis
  proof (cases "slot_index (slot_sat (candidate_ready now)) (cn_candidates c)")
    case None
    then show thesis using g1 idle by simp
  next
    case (Some i)
    then obtain x where x: "cn_candidates c ! i = Some x" "Some x \<in> set (cn_candidates c)"
      by (rule slot_sat_index)
    obtain c1 res where e: "emit_check D c (ca_addr x) TTL_Default now out = (c1, res)" by fastforce
    show thesis
    proof (rule check [OF x(2) e])
      show "r = Some res" using g1 Some x e by (cases res) auto
      have "c' = c1 \<or> c' = c1\<lparr>cn_candidates := slot_update (cn_candidates c1) i (\<lambda>x. x\<lparr>ca_last_check_ms := Some now\<rparr>)\<rparr>"
        using g1 Some x e by (cases res) auto
      moreover have "slot_update xs (length xs) f = xs" for xs :: "conn_candidate option list" and f
        by (simp add: slot_update_def)
      ultimately show "\<exists>i f. c' = c1\<lparr>cn_candidates := slot_update (cn_candidates c1) i f\<rparr>
         \<and> (\<forall>x. ca_addr (f x) = ca_addr x \<and> ca_outstanding (f x) = ca_outstanding x)"
      proof (elim disjE)
        assume "c' = c1"
        then show ?thesis
          by (intro exI [of _ "length (cn_candidates c1)"] exI [of _ id]) (simp add: slot_update_def)
      qed (rule exI [of _ i], rule exI, rule conjI, assumption, simp)
    qed
  qed
qed

lemma conn_get_output_cases:
  assumes D: "digests_ok D" and inv: "conn_inv c" and g: "conn_get_output D c now out = (c', r)"
  obtains (idle) "r = None" "c' = c"
  | (response) i to tid ls res where "emit_response D (c\<lparr>cn_pending := (cn_pending c)[i := None]\<rparr>) to tid now out = (c', res)"
      "r = Some res" "i < length (cn_pending c)" "cn_pending c ! i = Some (to, tid)"
      "c' = c\<lparr>cn_pending := (cn_pending c)[i := None], cn_last_sent_ms := ls\<rparr>"
  | (probe) x where "Some x \<in> set (cn_candidates c)" "cn_state c = Checking"
      "\<exists>res. emit_check D (c\<lparr>cn_probe_sent := True\<rparr>) (ca_addr x) TTL_Probe now out = (c', res) \<and> r = Some res"
  | (due) "cn_state c = Checking" "emit_due D c now out = (c', r)"
proof (cases "flt (Fin 0) (pace_wait c now)")
  case True
  then show thesis using g idle by (simp add: conn_get_output_def)
next
  case False
  note g1 = g [unfolded conn_get_output_def if_not_P [OF False]]
  show thesis
  proof (cases "slot_index (\<lambda>s. s \<noteq> None) (cn_pending c)")
    case (Some i)
    from slot_index_Some [OF Some] obtain to tid where i: "i < length (cn_pending c)" "cn_pending c ! i = Some (to, tid)"
      by auto
    let ?c = "c\<lparr>cn_pending := (cn_pending c)[i := None]\<rparr>"
    obtain c1 res where e: "emit_response D ?c to tid now out = (c1, res)" by fastforce
    have c1: "c' = c1" "r = Some res" using g1 Some i e by simp_all
    moreover have "\<exists>ls. c1 = ?c\<lparr>cn_last_sent_ms := ls\<rparr>"
    proof (cases "encode_binding_response (dg_hmac D) out tid to (cr_local_pwd (cn_credentials c))")
      case (Inl err)
      then have "c1 = ?c" using e by (simp add: emit_response_def)
      then show ?thesis by (intro exI [of _ "cn_last_sent_ms c"]) simp
    next
      case (Inr p)
      then have "c1 = ?c\<lparr>cn_last_sent_ms := Some now\<rparr>" using e by (cases p) (simp add: emit_response_def)
      then show ?thesis ..
    qed
    ultimately show thesis using response [OF e [folded c1(1)] c1(2) i] by auto
  next
    case None
    note g2 = g1 [unfolded None option.case]
    show thesis
    proof (cases "cn_state c = Checking")
      case False
      then show thesis using g2 idle by simp
    next
      case True
      show thesis
      proof (cases "\<not> cn_probe_sent c \<and> slots (cn_candidates c) \<noteq> []")
        case P: True
        then have "hd (slots (cn_candidates c)) \<in> set (slots (cn_candidates c))" by (intro list.set_sel(1)) blast
        then have m: "Some (hd (slots (cn_candidates c))) \<in> set (cn_candidates c)" by (simp only: slots_mem)
        obtain c1 res where e: "emit_check D (c\<lparr>cn_probe_sent := True\<rparr>) (ca_addr (hd (slots (cn_candidates c)))) TTL_Probe now out = (c1, res)"
          by fastforce
        have "c' = c1" "r = Some res" using g2 True P e by simp_all
        then show thesis using e by (intro probe [OF m True]) simp
      next
        case False
        then show thesis using g2 True by (intro due) (auto split: if_splits)
      qed
    qed
  qed
qed


section \<open>The attempt as a transition system\<close>

text \<open>The events of an attempt: a datagram fed in with its source, a datagram sent with its target.\<close>

datatype conn_event = CI bytes socket_addr | CO bytes socket_addr

definition conn_start :: "credentials \<Rightarrow> conn \<times> conn_event list \<Rightarrow> bool" where
  "conn_start creds s \<longleftrightarrow> (\<exists>seed t. length seed = 16 \<and> s = (conn_new creds seed t, []))"

inductive conn_step :: "digests \<Rightarrow> conn \<times> conn_event list \<Rightarrow> conn \<times> conn_event list \<Rightarrow> bool" for D where
  step_candidate: "wf_addr a \<Longrightarrow> add_candidate c a = (c', r) \<Longrightarrow> conn_step D (c, evs) (c', evs)"
| step_server: "wf_addr a \<Longrightarrow> add_server c a = (c', r) \<Longrightarrow> conn_step D (c, evs) (c', evs)"
| step_input: "wf_addr a \<Longrightarrow> conn_process_input (dg_hmac D) c dg a = (c', r) \<Longrightarrow>
    conn_step D (c, evs) (c', evs @ [CI dg a])"
| step_poll: "conn_step D (c, evs) (conn_poll c now, evs)"
| step_quiet: "conn_get_output D c now out = (c', r) \<Longrightarrow> r = None \<or> (\<exists>e. r = Some (Inl e)) \<Longrightarrow>
    conn_step D (c, evs) (c', evs)"
| step_output: "conn_get_output D c now out = (c', Some (Inr (out', eg))) \<Longrightarrow>
    conn_step D (c, evs) (c', evs @ [CO (take (eg_len eg) out') (eg_to eg)])"

text \<open>Outstanding checks as address and identifier pairs.\<close>

definition outs :: "conn \<Rightarrow> (socket_addr \<times> transaction_id) set" where
  "outs c = {(ca_addr x, t) | x t. Some x \<in> set (cn_candidates c) \<and> ca_outstanding x = Some t}"

lemma outs_frame [simp]:
  "outs (c\<lparr>cn_servers := a\<rparr>) = outs c" "outs (c\<lparr>cn_pending := b\<rparr>) = outs c"
  "outs (c\<lparr>cn_state := d\<rparr>) = outs c" "outs (c\<lparr>cn_last_sent_ms := e\<rparr>) = outs c"
  "outs (c\<lparr>cn_probe_sent := f\<rparr>) = outs c" "outs (c\<lparr>cn_counter := g\<rparr>) = outs c"
  by (simp_all add: outs_def)

lemma outsI: "Some x \<in> set (cn_candidates c) \<Longrightarrow> ca_outstanding x = Some t \<Longrightarrow> (ca_addr x, t) \<in> outs c"
  by (auto simp: outs_def)

lemma outs_update:
  assumes "\<And>x. ca_addr (f x) = ca_addr x" "\<And>x t. ca_outstanding (f x) = Some t \<Longrightarrow> ca_outstanding x = Some t"
  shows "outs (c\<lparr>cn_candidates := slot_update (cn_candidates c) i f\<rparr>) \<subseteq> outs c"
proof
  fix p assume "p \<in> outs (c\<lparr>cn_candidates := slot_update (cn_candidates c) i f\<rparr>)"
  then obtain y t where y: "p = (ca_addr y, t)" "Some y \<in> set (slot_update (cn_candidates c) i f)" "ca_outstanding y = Some t"
    by (auto simp: outs_def)
  from slot_update_mem [OF y(2)] show "p \<in> outs c"
  proof (elim disjE exE conjE)
    fix x assume "i < length (cn_candidates c)" "cn_candidates c ! i = Some x" "y = f x"
    then have "Some x \<in> set (cn_candidates c)" using nth_mem [of i "cn_candidates c"] by simp
    moreover have "ca_outstanding x = Some t" using y(3) \<open>y = f x\<close> by (simp add: assms(2) [of x])
    moreover have "ca_addr x = ca_addr y" using \<open>y = f x\<close> by (simp add: assms(1))
    ultimately show ?thesis unfolding y(1) by (metis outsI)
  qed (use y outsI in blast)
qed

lemma outs_note_check: "outs (note_check c to tid) \<subseteq> insert (to, tid) (outs c)"
proof (cases "slot_index (slot_sat (\<lambda>x. ca_addr x = to)) (cn_candidates c)")
  case (Some i)
  then obtain x where x: "cn_candidates c ! i = Some x" "ca_addr x = to" by (rule slot_sat_index)
  show ?thesis
  proof
    fix p assume "p \<in> outs (note_check c to tid)"
    then obtain y t where y: "p = (ca_addr y, t)" "ca_outstanding y = Some t"
        "Some y \<in> set (slot_update (cn_candidates c) i (\<lambda>x. x\<lparr>ca_outstanding := Some tid\<rparr>))"
      using Some by (auto simp: outs_def note_check_def)
    from slot_update_mem [OF y(3)] show "p \<in> insert (to, tid) (outs c)"
    proof
      assume "Some y \<in> set (cn_candidates c)"
      then show ?thesis using outsI y(1,2) by blast
    qed (use x y in auto)
  qed
qed (auto simp: note_check_def)

lemma outs_add_candidate: "add_candidate c a = (c', r) \<Longrightarrow> outs c' \<subseteq> outs c"
proof (erule add_candidate_cases)
  fix i assume c': "c' = c\<lparr>cn_candidates := (cn_candidates c)[i := Some
         \<lparr>ca_addr = canonical a, ca_last_check_ms = None, ca_outstanding = None\<rparr>]\<rparr>"
  have "set (cn_candidates c') \<subseteq> insert (Some \<lparr>ca_addr = canonical a, ca_last_check_ms = None, ca_outstanding = None\<rparr>)
      (set (cn_candidates c))" unfolding c' by (simp add: set_update_subset_insert)
  then show "outs c' \<subseteq> outs c" by (force simp: outs_def)
qed simp

section \<open>Steps\<close>

text \<open>How each operation changes the state and the outstanding checks. The credentials are fixed.\<close>

definition answered :: "digests \<Rightarrow> bytes \<Rightarrow> conn_event list \<Rightarrow> socket_addr \<Rightarrow> bool" where
  "answered D pwd evs a \<longleftrightarrow> (\<exists>pre dg mid dg' src post m tid.
     evs = pre @ [CO dg a] @ mid @ [CI dg' src] @ post \<and> is_check D dg tid pwd
     \<and> stun_parse dg' = Inr m \<and> stn_method m = BindingSuccess \<and> stn_tid m = tid \<and> stun_verify (dg_hmac D) m pwd)"

definition checked :: "digests \<Rightarrow> bytes \<Rightarrow> conn_event list \<Rightarrow> socket_addr \<Rightarrow> transaction_id \<Rightarrow> bool" where
  "checked D pwd evs a tid \<longleftrightarrow> (\<exists>dg. CO dg a \<in> set evs \<and> is_check D dg tid pwd)"

definition run_inv :: "digests \<Rightarrow> credentials \<Rightarrow> conn \<times> conn_event list \<Rightarrow> bool" where
  "run_inv D creds s \<longleftrightarrow> (case s of (c, evs) \<Rightarrow> conn_inv c \<and> cn_credentials c = creds
     \<and> (\<forall>(a, t) \<in> outs c. checked D (cr_remote_pwd creds) evs a t)
     \<and> (\<forall>a. cn_state c = Established a \<longrightarrow> answered D (cr_remote_pwd creds) evs a))"

lemma answered_mono: "answered D pwd evs a \<Longrightarrow> answered D pwd (evs @ es) a"
  unfolding answered_def by (metis append_assoc)

lemma checked_mono: "checked D pwd evs a t \<Longrightarrow> checked D pwd (evs @ es) a t"
  by (auto simp: checked_def)

lemma checked_answered:
  assumes "checked D pwd evs a (stn_tid m)" "stun_parse dg = Inr m" "stn_method m = BindingSuccess"
    "stun_verify (dg_hmac D) m pwd"
  shows "answered D pwd (evs @ [CI dg src]) a"
proof -
  obtain dg0 where d: "CO dg0 a \<in> set evs" "is_check D dg0 (stn_tid m) pwd"
    using assms(1) by (auto simp: checked_def)
  from d(1) obtain pre post where "evs = pre @ CO dg0 a # post" by (auto dest: split_list)
  then have "evs @ [CI dg src] = pre @ [CO dg0 a] @ post @ [CI dg src] @ []" by simp
  then show ?thesis unfolding answered_def using d(2) assms(2-4) by blast
qed


lemma run_inv_mono:
  assumes "run_inv D creds (c, evs)" "conn_inv c'" "cn_credentials c' = cn_credentials c" "outs c' \<subseteq> outs c"
    "\<And>a. cn_state c' = Established a \<Longrightarrow> cn_state c = Established a"
  shows "run_inv D creds (c', evs @ es)"
proof -
  have "checked D (cr_remote_pwd creds) (evs @ es) a t" if "(a, t) \<in> outs c'" for a t
    using assms(1,4) that by (auto simp: run_inv_def intro!: checked_mono)
  moreover have "answered D (cr_remote_pwd creds) (evs @ es) a" if "cn_state c' = Established a" for a
    using assms(1) assms(5) [OF that] by (auto simp: run_inv_def intro!: answered_mono)
  ultimately show ?thesis using assms(1-3) by (auto simp: run_inv_def)
qed

lemma add_server_frame:
  assumes "add_server c a = (c', r)"
  shows "\<exists>ss. c' = c\<lparr>cn_servers := ss\<rparr> \<and> length ss = length (cn_servers c)"
proof -
  have "c' = c \<or> (\<exists>i v. c' = c\<lparr>cn_servers := (cn_servers c)[i := v]\<rparr>)"
    using assms by (auto simp: add_server_def Let_def split: if_splits option.splits)
  then show ?thesis
  proof (elim disjE exE)
    assume "c' = c"
    then show ?thesis by (intro exI [of _ "cn_servers c"]) simp
  next
    fix i v assume "c' = c\<lparr>cn_servers := (cn_servers c)[i := v]\<rparr>"
    then show ?thesis by (intro exI [of _ "(cn_servers c)[i := v]"]) simp
  qed
qed

lemma conn_inv_servers: "conn_inv c \<Longrightarrow> length ss = length (cn_servers c) \<Longrightarrow> conn_inv (c\<lparr>cn_servers := ss\<rparr>)"
  by (rule conn_inv_frame(1)) (simp_all add: conn_inv_def)

lemma note_check_frame [simp]:
  "cn_credentials (note_check c to t) = cn_credentials c" "cn_state (note_check c to t) = cn_state c"
  by (simp_all add: note_check_def split: option.splits)

lemma run_inv_check:
  assumes D: "digests_ok D" and r: "run_inv D creds (c0, evs)"
    and c: "conn_inv c" "cn_credentials c = cn_credentials c0" "cn_state c = cn_state c0" "outs c = outs c0"
    and e: "emit_check D c to ttl now out = (c', res)"
  shows "run_inv D creds (c', evs @ (case res of Inl _ \<Rightarrow> [] | Inr (out', eg) \<Rightarrow> [CO (take (eg_len eg) out') (eg_to eg)]))"
    and "cn_state c' = cn_state c"
proof -
  have i: "conn_inv c'" using D c(1) e by (rule emit_check_inv)
  show "cn_state c' = cn_state c" using D c(1) e by (rule emit_check_cases) simp_all
  show "run_inv D creds (c', evs @ (case res of Inl _ \<Rightarrow> [] | Inr (out', eg) \<Rightarrow> [CO (take (eg_len eg) out') (eg_to eg)]))"
    using D c(1) e
  proof (cases rule: emit_check_cases)
    case (failed err)
    then show ?thesis using run_inv_mono [OF r i, of "[]"] c by simp
  next
    case (sent out' n)
    let ?es = "evs @ [CO (take n out') to]" and ?k = "cr_remote_pwd creds"
    have k: "cr_remote_pwd (cn_credentials c) = ?k" using r c(2) by (simp add: run_inv_def)
    have new: "checked D ?k ?es to (conn_tid D c)" using sent(2) k by (auto simp: checked_def)
    have "outs c' \<subseteq> insert (to, conn_tid D c) (outs c0)"
      using outs_note_check [of "c\<lparr>cn_counter := cn_counter c + 1\<rparr>" to "conn_tid D c"] sent(3) c(4) by simp
    moreover have "checked D ?k ?es a t" if "(a, t) \<in> outs c0" for a t
      using r that by (auto simp: run_inv_def intro!: checked_mono)
    ultimately have "\<forall>(a, t) \<in> outs c'. checked D ?k ?es a t" using new by fast
    moreover have "answered D ?k ?es a" if "cn_state c' = Established a" for a
      using r that sent(3) c(3) by (auto simp: run_inv_def intro!: answered_mono)
    moreover have "cn_credentials c' = creds" using r sent(3) c(2) by (simp add: run_inv_def)
    ultimately show ?thesis using i sent(1) by (simp add: run_inv_def)
  qed
qed


lemma run_inv_output:
  assumes D: "digests_ok D" and r: "run_inv D creds (c, evs)" and g: "conn_get_output D c now out = (c', res)"
  shows "run_inv D creds (c', evs @ (case res of Some (Inr (out', eg)) \<Rightarrow> [CO (take (eg_len eg) out') (eg_to eg)] | _ \<Rightarrow> []))"
    and "cn_state c' = cn_state c"
proof -
  have inv: "conn_inv c" using r by (simp add: run_inv_def)
  let ?ev = "\<lambda>x :: (bytes \<times> egress) result option. case x of Some (Inr (out', eg)) \<Rightarrow> [CO (take (eg_len eg) out') (eg_to eg)] | _ \<Rightarrow> []"
  have "run_inv D creds (c', evs @ ?ev res) \<and> cn_state c' = cn_state c"
    using D inv g
  proof (cases rule: conn_get_output_cases)
    case idle
    then show ?thesis using r by simp
  next
    case (response i to tid ls rs)
    have i: "conn_inv c'" unfolding response(5) using inv by (intro conn_inv_frame(2) conn_inv_frame(5))
    have "run_inv D creds (c', evs @ ?ev res)" by (rule run_inv_mono [OF r i]) (simp_all add: response(5))
    then show ?thesis by (simp add: response(5))
  next
    case (probe x)
    let ?c = "c\<lparr>cn_probe_sent := True\<rparr>"
    obtain rs where e: "emit_check D ?c (ca_addr x) TTL_Probe now out = (c', rs)" "res = Some rs"
      using probe(3) by blast
    have "conn_inv ?c" using inv by (rule conn_inv_frame)
    from run_inv_check [OF D r this _ _ _ e(1)] show ?thesis using e(2) by (cases rs) auto
  next
    case due
    show ?thesis using D inv due(2)
    proof (cases rule: emit_due_cases)
      case idle
      then show ?thesis using r by simp
    next
      case (server x ss y k to rs)
      have i: "conn_inv c'" unfolding server(3) using server(4) inv
        by (intro conn_inv_frame(2) conn_inv_servers conn_inv_frame(4)) simp_all
      have "run_inv D creds (c', evs @ ?ev res)" by (rule run_inv_mono [OF r i]) (simp_all add: server(3))
      then show ?thesis by (simp add: server(3))
    next
      case (check x c1 rs)
      from check(4) obtain i f where f: "c' = c1\<lparr>cn_candidates := slot_update (cn_candidates c1) i f\<rparr>"
        "\<And>x. ca_addr (f x) = ca_addr x" "\<And>x. ca_outstanding (f x) = ca_outstanding x" by blast
      have c1: "run_inv D creds (c1, evs @ ?ev res)" "cn_state c1 = cn_state c"
        using run_inv_check [OF D r inv refl refl refl check(2)] check(3) by (cases rs; auto)+
      have "conn_inv c'" unfolding f(1) using c1 f(2) by (intro conn_inv_slot_update) (simp_all add: run_inv_def)
      moreover have "outs c' \<subseteq> outs c1" unfolding f(1) using f(2,3) by (intro outs_update) simp_all
      ultimately show ?thesis using run_inv_mono [OF c1(1), of c' "[]"] f(1) c1(2) by simp
    qed
  qed
  then show "run_inv D creds (c', evs @ ?ev res)" "cn_state c' = cn_state c" by simp_all
qed

lemma run_inv_input:
  assumes r: "run_inv D creds (c, evs)" and a: "wf_addr a"
    and p: "conn_process_input (dg_hmac D) c dg a = (c', res)"
  shows "run_inv D creds (c', evs @ [CI dg a])"
proof -
  have inv: "conn_inv c" using r by (simp add: run_inv_def)
  have i: "conn_inv c'" using inv a p by (rule conn_process_input_inv)
  show ?thesis using p
  proof (cases rule: conn_process_input_cases)
    case rejected
    then show ?thesis using run_inv_mono [OF r i] by simp
  next
    case (request m c1 q)
    obtain q1 where q1: "add_candidate c (canonical a) = (c1, q1)" using request(4) by (cases "add_candidate c (canonical a)") simp
    have c1: "cn_credentials c1 = cn_credentials c" "cn_state c1 = cn_state c"
      using q1 by (auto elim!: add_candidate_cases)
    have "cn_credentials c' = cn_credentials c1" "cn_state c' = cn_state c1" "outs c' = outs c1"
      using request(5) by (auto elim!: queue_response_cases)
    then show ?thesis using run_inv_mono [OF r i, of "[CI dg a]"] outs_add_candidate [OF q1] c1 by simp
  next
    case (server m ss)
    then show ?thesis using run_inv_mono [OF r i] by simp
  next
    case (answer m j x)
    let ?k = "cr_remote_pwd creds" and ?es = "evs @ [CI dg a]"
    have k: "cr_remote_pwd (cn_credentials c) = ?k" using r by (simp add: run_inv_def)
    let ?c = "c\<lparr>cn_candidates := slot_update (cn_candidates c) j (\<lambda>x. x\<lparr>ca_outstanding := None\<rparr>)\<rparr>"
    have "outs ?c \<subseteq> outs c" by (rule outs_update) simp_all
    moreover have "outs c' = outs ?c" unfolding answer(8) outs_def by simp
    ultimately have "\<forall>(b, t) \<in> outs c'. checked D ?k ?es b t"
      using r by (auto simp: run_inv_def intro!: checked_mono)
    moreover have "answered D ?k ?es b" if st: "cn_state c' = Established b" for b
    proof (cases "cn_state c = Checking")
      case True
      then have b: "b = ca_addr x" using st answer(8) by simp
      have "checked D ?k evs (ca_addr x) (stn_tid m)"
        using r outsI [OF answer(7,6)] by (auto simp: run_inv_def)
      then show ?thesis unfolding b using checked_answered answer(1,2,3) k by simp
    next
      case False
      then show ?thesis using r st answer(8) by (auto simp: run_inv_def intro!: answered_mono)
    qed
    moreover have "cn_credentials c' = creds" using r answer(8) by (simp add: run_inv_def)
    ultimately show ?thesis using i by (simp add: run_inv_def)
  qed
qed

lemma run_inv_step:
  assumes D: "digests_ok D" and r: "run_inv D creds s" and st: "conn_step D s t"
  shows "run_inv D creds t"
  using st
proof cases
  case (step_candidate a c c' q evs)
  have "conn_inv c'" using r step_candidate add_candidate_inv by (auto simp: run_inv_def)
  then show ?thesis
    using run_inv_mono [of D creds c evs c' "[]"] r step_candidate outs_add_candidate
    by (auto elim!: add_candidate_cases)
next
  case (step_server a c c' q evs)
  then obtain ss where ss: "c' = c\<lparr>cn_servers := ss\<rparr>" "length ss = length (cn_servers c)"
    using add_server_frame by blast
  have "conn_inv c'" using r step_server ss conn_inv_servers by (auto simp: run_inv_def)
  then show ?thesis using run_inv_mono [of D creds c evs c' "[]"] r step_server ss by simp
next
  case (step_input a c dg c' q evs)
  then show ?thesis using r run_inv_input by simp
next
  case (step_poll c evs now)
  have i: "conn_inv c" using r step_poll by (simp add: run_inv_def)
  have "conn_inv (c\<lparr>cn_state := Failed f\<rparr>)" for f by (rule conn_inv_frame(6) [OF i]) simp
  then have p: "conn_inv (conn_poll c now)" using i by (simp add: conn_poll_def)
  have "cn_credentials (conn_poll c now) = cn_credentials c" "outs (conn_poll c now) = outs c"
    and "cn_state (conn_poll c now) = Established a \<Longrightarrow> cn_state c = Established a" for a
    by (simp_all add: conn_poll_def split: if_splits)
  then have "run_inv D creds (conn_poll c now, evs @ [])"
    using r step_poll(1) by (intro run_inv_mono [OF _ p, of D creds c evs]) simp_all
  then show ?thesis using step_poll(2) by simp
next
  case (step_quiet c now out c' q evs)
  then show ?thesis using run_inv_output(1) [OF D _ step_quiet(3), of creds evs] r by auto
next
  case (step_output c now out c' out' eg evs)
  then show ?thesis using run_inv_output(1) [OF D _ step_output(3), of creds evs] r by simp
qed


text \<open>Every operation leaves a settled attempt where it is.\<close>

lemma step_settled:
  assumes D: "digests_ok D" and r: "run_inv D creds s" and st: "conn_step D s t" and c: "cn_state (fst s) \<noteq> Checking"
  shows "cn_state (fst t) = cn_state (fst s)"
  using st
proof cases
  case (step_candidate a c1 c' q evs)
  then show ?thesis by (auto elim!: add_candidate_cases)
next
  case (step_server a c1 c' q evs)
  then show ?thesis using add_server_frame by fastforce
next
  case (step_input a c1 dg c' q evs)
  have n: "cn_state c1 \<noteq> Checking" using c step_input(1) by simp
  have "cn_state c' = cn_state c1" using step_input(4)
  proof (cases rule: conn_process_input_cases)
    case (request m c2 q2)
    obtain q1 where "add_candidate c1 (canonical a) = (c2, q1)"
      using request(4) by (cases "add_candidate c1 (canonical a)") simp
    then have "cn_state c2 = cn_state c1" by (auto elim!: add_candidate_cases)
    then show ?thesis using request(5) by (auto elim!: queue_response_cases)
  qed (use n in simp_all)
  then show ?thesis using step_input(1,2) by simp
next
  case (step_poll c1 evs now)
  then show ?thesis using c by (simp add: conn_poll_def)
next
  case (step_quiet c1 now out c' q evs)
  then show ?thesis using run_inv_output(2) [OF D _ step_quiet(3), of creds evs] r by auto
next
  case (step_output c1 now out c' out' eg evs)
  then show ?thesis using run_inv_output(2) [OF D _ step_output(3), of creds evs] r by auto
qed

section \<open>One check and its answer\<close>

lemma outs_update_eq:
  assumes "\<And>x. ca_addr (f x) = ca_addr x" "\<And>x. ca_outstanding (f x) = ca_outstanding x"
  shows "outs (c\<lparr>cn_candidates := slot_update (cn_candidates c) i f\<rparr>) = outs c"
proof
  show "outs (c\<lparr>cn_candidates := slot_update (cn_candidates c) i f\<rparr>) \<subseteq> outs c"
    using assms by (intro outs_update) simp_all
  show "outs c \<subseteq> outs (c\<lparr>cn_candidates := slot_update (cn_candidates c) i f\<rparr>)"
  proof
    fix p assume "p \<in> outs c"
    then obtain x t where x: "p = (ca_addr x, t)" "Some x \<in> set (cn_candidates c)" "ca_outstanding x = Some t"
      by (auto simp: outs_def)
    let ?xs = "slot_update (cn_candidates c) i f"
    have "Some x \<in> set ?xs \<or> Some (f x) \<in> set ?xs"
    proof (cases "i < length (cn_candidates c) \<and> cn_candidates c ! i = Some x")
      case True
      then have "?xs ! i = Some (f x)" "i < length ?xs" by (simp_all add: slot_update_def)
      then show ?thesis by (metis nth_mem)
    next
      case False
      obtain j where j: "j < length (cn_candidates c)" "cn_candidates c ! j = Some x"
        using x(2) by (auto simp: in_set_conv_nth)
      with False have "?xs ! j = Some x" by (cases "j = i") (simp_all add: slot_update_def)
      then show ?thesis using j by (metis length_slot_update nth_mem)
    qed
    then show "p \<in> outs (c\<lparr>cn_candidates := ?xs\<rparr>)"
      using x assms by (auto simp: outs_def) (metis assms)+
  qed
qed

lemma note_check_outs:
  assumes "Some x \<in> set (cn_candidates c)" "ca_addr x = to"
  shows "(to, tid) \<in> outs (note_check c to tid)"
proof (cases "slot_index (slot_sat (\<lambda>x. ca_addr x = to)) (cn_candidates c)")
  case None
  then show ?thesis using assms by (force simp: slot_index_None slot_sat_def)
next
  case (Some i)
  then obtain y where y: "i < length (cn_candidates c)" "cn_candidates c ! i = Some y" "ca_addr y = to"
    by (rule slot_sat_index)
  let ?y = "y\<lparr>ca_outstanding := Some tid\<rparr>"
  let ?xs = "slot_update (cn_candidates c) i (\<lambda>x. x\<lparr>ca_outstanding := Some tid\<rparr>)"
  have "?xs ! i = Some ?y" "i < length ?xs" using y by (simp_all add: slot_update_def)
  then have "Some ?y \<in> set ?xs" by (metis nth_mem)
  then show ?thesis using Some outsI [of ?y "note_check c to tid" tid] y(3) by (simp add: note_check_def)
qed

lemma check_sent:
  assumes D: "digests_ok D" and inv: "conn_inv c"
    and st: "cn_state c = Checking" "slots (cn_servers c) = []" "slots (cn_pending c) = []"
    and g: "conn_get_output D c now out = (c', Some (Inr (dg, eg)))"
  shows "is_check D (take (eg_len eg) dg) (conn_tid D c) (cr_remote_pwd (cn_credentials c))"
    "(eg_to eg, conn_tid D c) \<in> outs c'" "outs c' \<subseteq> insert (eg_to eg, conn_tid D c) (outs c)"
    "cn_credentials c' = cn_credentials c" "cn_state c' = Checking" "cn_servers c' = cn_servers c"
proof -
  have chk: "is_check D (take (eg_len eg) dg) (conn_tid D c) (cr_remote_pwd (cn_credentials c))
      \<and> (eg_to eg, conn_tid D c) \<in> outs c1 \<and> outs c1 \<subseteq> insert (eg_to eg, conn_tid D c) (outs c)
      \<and> cn_credentials c1 = cn_credentials c \<and> cn_state c1 = Checking \<and> cn_servers c1 = cn_servers c"
    if e: "emit_check D c0 (ca_addr x) ttl now out = (c1, Inr (dg, eg))" and x: "Some x \<in> set (cn_candidates c)"
      and c0: "c0 = c\<lparr>cn_probe_sent := b\<rparr>" for c0 c1 x ttl b
  proof -
    have i0: "conn_inv c0" unfolding c0 using inv by (rule conn_inv_frame)
    have t: "conn_tid D c0 = conn_tid D c" by (simp add: c0 conn_tid_def next_transaction_id_def)
    show ?thesis using D i0 e
    proof (cases rule: emit_check_cases)
      case (sent out' n)
      let ?n = "note_check (c0\<lparr>cn_counter := cn_counter c0 + 1\<rparr>) (ca_addr x) (conn_tid D c)"
      have "(ca_addr x, conn_tid D c) \<in> outs ?n" using x by (intro note_check_outs) (simp_all add: c0)
      moreover have "outs ?n \<subseteq> insert (ca_addr x, conn_tid D c) (outs c)"
        using outs_note_check [of "c0\<lparr>cn_counter := cn_counter c0 + 1\<rparr>"] by (simp add: c0)
      moreover have "cn_servers ?n = cn_servers c" by (simp add: note_check_def c0 split: option.splits)
      ultimately show ?thesis using sent(1) sent(2,3) [unfolded t] st(1) by (simp add: c0)
    qed simp
  qed
  have all: "is_check D (take (eg_len eg) dg) (conn_tid D c) (cr_remote_pwd (cn_credentials c))
      \<and> (eg_to eg, conn_tid D c) \<in> outs c' \<and> outs c' \<subseteq> insert (eg_to eg, conn_tid D c) (outs c)
      \<and> cn_credentials c' = cn_credentials c \<and> cn_state c' = Checking \<and> cn_servers c' = cn_servers c"
    using D inv g
  proof (cases rule: conn_get_output_cases)
    case (response i to tid ls rs)
    then have "Some (to, tid) \<in> set (cn_pending c)" by (metis nth_mem)
    then show ?thesis using st(3) by (auto simp: slots_Nil)
  next
    case (probe x)
    then obtain e where "emit_check D (c\<lparr>cn_probe_sent := True\<rparr>) (ca_addr x) TTL_Probe now out = (c', Inr (dg, eg))"
      by auto
    then show ?thesis using probe(1) by (rule chk) (rule refl)
  next
    case due
    show ?thesis using D inv due(2)
    proof (cases rule: emit_due_cases)
      case (server x ss y k to rs)
      then show ?thesis using st(2) by (auto simp: slots_Nil)
    next
      case (check x c1 rs)
      from check(4) obtain i f where f: "c' = c1\<lparr>cn_candidates := slot_update (cn_candidates c1) i f\<rparr>"
        "\<And>x. ca_addr (f x) = ca_addr x" "\<And>x. ca_outstanding (f x) = ca_outstanding x" by blast
      have "outs c' = outs c1" unfolding f(1) using f(2,3) by (rule outs_update_eq)
      moreover have eg: "rs = Inr (dg, eg)" using check(3) by simp
      moreover have pc: "c = c\<lparr>cn_probe_sent := cn_probe_sent c\<rparr>" by simp
      ultimately show ?thesis
        using chk [OF check(2) [unfolded eg] check(1) pc] f(1) by simp
    qed simp
  qed simp
  then show "is_check D (take (eg_len eg) dg) (conn_tid D c) (cr_remote_pwd (cn_credentials c))"
    "(eg_to eg, conn_tid D c) \<in> outs c'" "outs c' \<subseteq> insert (eg_to eg, conn_tid D c) (outs c)"
    "cn_credentials c' = cn_credentials c" "cn_state c' = Checking" "cn_servers c' = cn_servers c"
    by simp_all
qed

text \<open>The response that leaves a buffer of 76 bytes.\<close>

lemma response_written:
  assumes H: "hmac_ok H" and tid: "length tid = 12" and a: "wf_addr a" and out: "76 \<le> length out"
  shows "\<exists>out' n m. encode_binding_response H out tid a k = Inr (out', n) \<and> stun_parse (take n out') = Inr m
    \<and> stn_method m = BindingSuccess \<and> stn_tid m = tid \<and> stun_verify H m k"
proof -
  let ?p = "unsealed BindingSuccess tid (response_attrs tid a)"
  note rl = response_length [OF a tid]
  have e: "encode_binding_response H out tid a k = Inr (put_at out 0 (sealed_message H k ?p), length ?p + 32)"
    using encode_binding_response_eq [OF H a tid, of out k] rl out by simp
  have t: "take (length ?p + 32) (put_at out 0 (sealed_message H k ?p)) = sealed_message H k ?p"
    using length_sealed [OF H, of ?p k] rl out put_at_prefix [of "sealed_message H k ?p" out] by simp
  have "length (attrs_bytes (response_attrs tid a)) \<le> 204" using rl length_unsealed [OF tid] by simp
  then show ?thesis
    using parsed_sealed_verifies [OF H tid, of "response_attrs tid a" k BindingSuccess] e t by auto
qed

lemma request_answered:
  assumes D: "digests_ok D" and inv: "conn_inv c" and a: "wf_addr a"
    and idle: "slots (cn_pending c) = []" "\<not> flt (Fin 0) (pace_wait c now)" and out: "76 \<le> length out"
    and dg: "is_check D dg tid (cr_local_pwd (cn_credentials c))"
  shows "\<exists>c1 c2 out' eg m. conn_process_input (dg_hmac D) c dg a = (c1, Inr CheckAnswered)
    \<and> conn_get_output D c1 now out = (c2, Some (Inr (out', eg))) \<and> eg_to eg = canonical a
    \<and> stun_parse (take (eg_len eg) out') = Inr m \<and> stn_method m = BindingSuccess \<and> stn_tid m = tid
    \<and> stun_verify (dg_hmac D) m (cr_local_pwd (cn_credentials c))"
proof -
  let ?k = "cr_local_pwd (cn_credentials c)"
  obtain q where q: "stun_parse dg = Inr q" "stn_method q = BindingRequest" "stn_tid q = tid"
      "stun_verify (dg_hmac D) q ?k" using dg by (auto simp: is_check_def)
  define c0 where "c0 = fst (add_candidate c (canonical a))"
  obtain r0 where r0: "add_candidate c (canonical a) = (c0, r0)"
    by (cases "add_candidate c (canonical a)") (simp add: c0_def)
  have c0: "cn_pending c0 = cn_pending c" "cn_credentials c0 = cn_credentials c" "cn_last_sent_ms c0 = cn_last_sent_ms c"
    using r0 by (auto elim!: add_candidate_cases)
  have none: "\<forall>s \<in> set (cn_pending c). s = None" "length (cn_pending c) = 4"
    using idle(1) inv by (auto simp: slots_Nil conn_inv_def MAX_PENDING_def)
  then obtain rest where pend: "cn_pending c = None # rest" "\<forall>s \<in> set rest. s = None"
    by (cases "cn_pending c") auto
  let ?c1 = "c0\<lparr>cn_pending := Some (canonical a, tid) # rest\<rparr>"
  have qr: "queue_response c0 (canonical a) tid = (?c1, Inr ())"
    by (simp add: queue_response_def c0 pend)
  have in1: "conn_process_input (dg_hmac D) c dg a = (?c1, Inr CheckAnswered)"
    using q qr by (simp add: conn_process_input_def handle_request_def c0_def [symmetric])
  have w: "\<not> flt (Fin 0) (pace_wait ?c1 now)" using idle(2) c0(3) by (simp add: pace_wait_def)
  have tl: "length tid = 12" using stun_parse_fields(4) [OF q(1)] q(3) by simp
  have H: "hmac_ok (dg_hmac D)" using D by (simp add: digests_ok_def)
  obtain out' n m where e: "encode_binding_response (dg_hmac D) out tid (canonical a) ?k = Inr (out', n)"
      "stun_parse (take n out') = Inr m" "stn_method m = BindingSuccess" "stn_tid m = tid" "stun_verify (dg_hmac D) m ?k"
    using response_written [OF H tl canonical_wf [OF a] out] by blast
  let ?c2 = "?c1\<lparr>cn_pending := None # rest, cn_last_sent_ms := Some now\<rparr>"
  have "conn_get_output D ?c1 now out = (?c2, Some (Inr (out', \<lparr>eg_to = canonical a, eg_ttl = TTL_Default, eg_len = n\<rparr>)))"
    unfolding conn_get_output_def if_not_P [OF w] using e(1) c0(2) by (simp add: emit_response_def)
  with in1 e(2-5) show ?thesis by fastforce
qed

lemma answer_establishes:
  assumes st: "cn_state c = Checking" "slots (cn_servers c) = []"
    and m: "stun_parse dg = Inr m" "stn_method m = BindingSuccess" "stun_verify H m (cr_remote_pwd (cn_credentials c))"
    and o: "(b, stn_tid m) \<in> outs c" "\<And>b'. (b', stn_tid m) \<in> outs c \<Longrightarrow> b' = b"
  shows "\<exists>c'. conn_process_input H c dg src = (c', Inr (PathEstablished b)) \<and> conn_path c' = Some b"
proof -
  have s: "slot_index (slot_sat (\<lambda>s. sv_outstanding s = Some (stn_tid m) \<and> sv_addr s = canonical src)) (cn_servers c) = None"
    using st(2) by (auto simp: slot_index_None slots_Nil slot_sat_def)
  have "slot_index (slot_sat (\<lambda>x. ca_outstanding x = Some (stn_tid m))) (cn_candidates c) \<noteq> None"
  proof
    assume "slot_index (slot_sat (\<lambda>x. ca_outstanding x = Some (stn_tid m))) (cn_candidates c) = None"
    then have "\<forall>s \<in> set (cn_candidates c). \<not> slot_sat (\<lambda>x. ca_outstanding x = Some (stn_tid m)) s"
      by (simp only: slot_index_None)
    moreover obtain x where "Some x \<in> set (cn_candidates c)" "ca_outstanding x = Some (stn_tid m)"
      using o(1) by (auto simp: outs_def)
    ultimately show False by (auto simp: slot_sat_def dest!: bspec [of _ _ "Some x"])
  qed
  then obtain i where i: "slot_index (slot_sat (\<lambda>x. ca_outstanding x = Some (stn_tid m))) (cn_candidates c) = Some i" by auto
  then obtain x where x: "cn_candidates c ! i = Some x" "ca_outstanding x = Some (stn_tid m)" "Some x \<in> set (cn_candidates c)"
    by (rule slot_sat_index)
  have b: "ca_addr x = b" using o(2) outsI [OF x(3,2)] by blast
  have h: "conn_process_input H c dg src = candidate_answer c i"
    using m s i by (simp add: conn_process_input_def handle_success_def)
  show ?thesis unfolding h candidate_answer_def using x(1) st(1) b by (simp add: Let_def conn_path_def)
qed


section \<open>What an output call leaves behind\<close>

lemma conn_get_output_inv:
  assumes D: "digests_ok D" and inv: "conn_inv c" and g: "conn_get_output D c now out = (c', r)"
  shows "conn_inv c'"
  using D inv g
proof (cases rule: conn_get_output_cases)
  case (response i to tid ls res)
  then show ?thesis using inv by (simp add: conn_inv_frame)
next
  case (probe x)
  then show ?thesis using emit_check_inv [OF D conn_inv_frame(3) [OF inv]] by blast
next
  case due
  show ?thesis using D inv due(2)
  proof (cases rule: emit_due_cases)
    case (server x ss y i to res)
    show ?thesis unfolding server(3) using server(4) inv
      by (intro conn_inv_frame(2) conn_inv_servers conn_inv_frame(4)) simp_all
  next
    case (check x c1 res)
    have "conn_inv c1" using D inv check(2) by (rule emit_check_inv)
    then show ?thesis using check(4) conn_inv_slot_update by blast
  qed (simp add: inv)
qed (simp add: inv)

lemma conn_poll_inv:
  assumes "conn_inv c" shows "conn_inv (conn_poll c now)"
proof -
  have "conn_inv (c\<lparr>cn_state := Failed f\<rparr>)" for f by (rule conn_inv_frame(6) [OF assms]) simp
  then show ?thesis using assms by (simp add: conn_poll_def)
qed

lemma stun_parse_classify:
  assumes "stun_parse dg = Inr m" shows "classify dg = Check"
proof -
  have l: "20 \<le> length dg" using assms by (rule stun_parse_fields)
  then have g: "get_range dg 0 20 = Some (take 20 dg)" by (simp add: get_range_def)
  obtain kind where k: "stun_be16 (take 20 dg) 0 = Inr kind" "kind = TYPE_BINDING_REQUEST \<or> kind = TYPE_BINDING_SUCCESS"
    using assms g unfolding stun_parse_def Let_def
    by (auto simp: and_then_Inr STUN_HEADER_LEN_def split: if_splits)
  have "take 2 dg = to_be16 kind" using k(1) l by (simp add: stun_be16_Inr min_def)
  moreover have "\<exists>m. kind = kind_of m"
    using k(2) by (auto simp: kind_of_def intro: exI [of _ BindingRequest] exI [of _ BindingSuccess])
  ultimately show ?thesis using classify_head [OF l] by auto
qed

lemma response_parses:
  assumes H: "hmac_ok H" and tid: "length tid = 12" and a: "wf_addr a"
    and e: "encode_binding_response H out tid a k = Inr (out', n)"
  shows "\<exists>m. stun_parse (take n out') = Inr m"
proof -
  let ?p = "unsealed BindingSuccess tid (response_attrs tid a)"
  note rl = response_length [OF a tid]
  have o: "length ?p + 32 \<le> length out" "out' = put_at out 0 (sealed_message H k ?p)" "n = length ?p + 32"
    using e encode_binding_response_eq [OF H a tid, of out k] by (auto split: if_splits)
  have "take n out' = sealed_message H k ?p"
    using length_sealed [OF H, of ?p k] rl o put_at_prefix [of "sealed_message H k ?p" out] by simp
  moreover have "length (attrs_bytes (response_attrs tid a)) \<le> 204" using rl length_unsealed [OF tid] by simp
  ultimately show ?thesis
    using parsed_sealed_verifies [OF H tid, of "response_attrs tid a" k BindingSuccess] by auto
qed

lemma reflexive_parses:
  assumes tid: "length tid = 12" and e: "encode_reflexive_request out tid = Inr (out', n)"
  shows "\<exists>m. stun_parse (take n out') = Inr m"
proof -
  let ?h = "head_bytes BindingRequest 0 tid"
  have h: "length ?h = 20" using tid by (rule head_bytes_fields)
  have o: "20 \<le> length out" "out' = put_at out 0 ?h" "n = 20"
    using e by (auto simp: encode_reflexive_request_eq [OF tid] split: if_splits)
  have "take n out' = ?h" using o h put_at_prefix [of ?h out] by simp
  moreover have "stun_integrity_at ?h = None" using h by (simp add: stun_integrity_at_def MIN_MESSAGE_def)
  then have "stun_parse ?h = Inr \<lparr>stn_bytes = ?h, stn_method = BindingRequest, stn_tid = tid,
      stn_integrity_at = stun_integrity_at ?h\<rparr>"
    by (intro stun_parse_attrs [where as = "[]" and post = "[]", OF tid]) simp_all
  ultimately show ?thesis by simp
qed

text \<open>Every datagram the punch sends is a well-formed message.\<close>

lemma conn_output_parses:
  assumes D: "digests_ok D" and inv: "conn_inv c" and g: "conn_get_output D c now out = (c', Some (Inr (out', eg)))"
  shows "\<exists>m. stun_parse (take (eg_len eg) out') = Inr m"
  using D inv g
proof (cases rule: conn_get_output_cases)
  case (response i to tid ls res)
  have H: "hmac_ok (dg_hmac D)" using D by (simp add: digests_ok_def)
  have "Some (to, tid) \<in> set (cn_pending c)" using response(3,4) nth_mem by metis
  then have w: "wf_addr to" "length tid = 12" using inv by (auto simp: conn_inv_def good_addr_def)
  have "encode_binding_response (dg_hmac D) out tid to (cr_local_pwd (cn_credentials c)) = Inr (out', eg_len eg)"
    using response(1,2) by (auto simp: emit_response_def split: sum.splits prod.splits)
  then show ?thesis by (rule response_parses [OF H w(2,1)])
next
  case (probe x)
  then have e: "emit_check D (c\<lparr>cn_probe_sent := True\<rparr>) (ca_addr x) TTL_Probe now out = (c', Inr (out', eg))" by auto
  show ?thesis using D conn_inv_frame(3) [OF inv] e
    by (cases rule: emit_check_cases) (auto simp: is_check_def)
next
  case due
  show ?thesis using D inv due(2)
  proof (cases rule: emit_due_cases)
    case (server x ss y i to res)
    have t: "next_transaction_id D c = (c\<lparr>cn_counter := cn_counter c + 1\<rparr>, conn_tid D c)"
      by (simp add: next_transaction_id_def conn_tid_def)
    have "encode_reflexive_request out (conn_tid D c) = Inr (out', eg_len eg)"
      using server(1,2) by (auto simp: emit_reflexive_def t split: sum.splits prod.splits)
    then show ?thesis by (rule reflexive_parses [OF length_conn_tid [OF D]])
  next
    case (check x c1 res)
    then have e: "emit_check D c (ca_addr x) TTL_Default now out = (c1, Inr (out', eg))" by simp
    show ?thesis using D inv e by (cases rule: emit_check_cases) (auto simp: is_check_def)
  qed simp
qed simp

end
