(* ===== verification/Session.thy ===== *)
theory Session
  imports Message Recv_Ring Policy Send_Ring Pmtu Envelope
begin

text \<open>
  The sans-IO session (\<open>core/src/session.rs\<close>): nineteen receive and send rings, the envelope, the rate
  controller, the pacer and the acknowledgement schedule behind one state, driven by \<open>process_input\<close>,
  \<open>poll\<close> and \<open>get_output\<close>. The AEAD is the parameter \<open>A\<close> of the operations that seal or open.
\<close>

section \<open>Constants\<close>

definition ACK_CADENCE_MS :: f64 where "ACK_CADENCE_MS = rnd 30"
definition LIVENESS_SOFT_MS :: f64 where "LIVENESS_SOFT_MS = rnd 60000"
definition LIVENESS_HARD_MS :: f64 where "LIVENESS_HARD_MS = rnd 120000"
definition DELIVERY_DEADLINE_MS :: f64 where "DELIVERY_DEADLINE_MS = rnd 15000"
definition SRTT_ALPHA :: f64 where "SRTT_ALPHA = rnd (1 / 10)"
definition TRANSPORT_SAMPLE_MIN_MS :: f64 where "TRANSPORT_SAMPLE_MIN_MS = rnd 100"
definition VIDEO_CHANNEL :: nat where "VIDEO_CHANNEL = 1"
definition AUDIO_CHANNEL :: nat where "AUDIO_CHANNEL = 2"
definition CONTROL_CHANNEL_INDEX :: nat where "CONTROL_CHANNEL_INDEX = 0"
definition AUDIO_CHANNEL_INDEX :: nat where "AUDIO_CHANNEL_INDEX = AUDIO_CHANNEL"
definition CONTROL_PRIORITY_QUANTUM_BYTES :: nat where
  "CONTROL_PRIORITY_QUANTUM_BYTES = DEFAULT_DATAGRAM * MAX_BURST_DATAGRAMS"
definition AUDIO_PRIORITY_QUANTUM_BYTES :: nat where
  "AUDIO_PRIORITY_QUANTUM_BYTES = DEFAULT_DATAGRAM * MAX_BURST_DATAGRAMS"
definition DRAIN_ORDER :: "nat list" where
  "DRAIN_ORDER = [0, 2, 1, 3, 4, 5, 6, 7, 8, 9, 10, 11, 12, 13, 14, 15, 16, 17, 18]"

section \<open>State\<close>

datatype inbound =
    InData byte
  | InAck
  | InKeepalive
  | InProbe u32 nat
  | InProbeAck u32 nat
  | InUnhandled byte

datatype health = Alive | Stalled | Dead | Undeliverable

record transport_stats =
  ts_interval_ms :: f64
  ts_in_flight :: u32
  ts_stale :: u32
  ts_bytes_sent :: u64
  ts_bytes_acked :: u64
  ts_retransmitted_fragments :: u64
  ts_send_rate_mbps :: f64
  ts_delivery_rate_mbps :: f64
  ts_srtt_ms :: f64

definition transport_stats_default :: transport_stats where
  "transport_stats_default = \<lparr>ts_interval_ms = Fin 0, ts_in_flight = 0, ts_stale = 0, ts_bytes_sent = 0,
     ts_bytes_acked = 0, ts_retransmitted_fragments = 0, ts_send_rate_mbps = Fin 0, ts_delivery_rate_mbps = Fin 0,
     ts_srtt_ms = Fin 0\<rparr>"

record delivery =
  dl_acked_seen :: u64
  dl_since_ms :: f64

record session =
  se_envelope :: envelope
  se_direction :: direction
  se_recv :: "recv_ring option list"
  se_send :: "send_ring option list"
  se_controller :: controller
  se_level :: nat
  se_tx_counter :: u64
  se_srtt_ms :: f64
  se_srtt_seeded :: bool
  se_last_ack_sent_ms :: f64
  se_last_progress_ms :: f64
  se_delivery :: "delivery list"
  se_transport_stats :: transport_stats
  se_channel_stats :: "transport_stats list"
  se_last_sample_ms :: f64
  se_last_sample_bytes_sent :: "u64 list"
  se_last_sample_bytes_acked :: "u64 list"
  se_ack_due :: bool
  se_ack_kind :: ack_kind
  se_trigger :: "byte \<times> u32"
  se_drain_channel :: nat
  se_drain_started :: bool
  se_pacer :: pacer
  se_drain_bytes :: "nat list"
  se_path_datagram_size :: nat
  se_pending_probe_ack :: "probe_ack_pkt option"

definition session_with_direction :: "envelope \<Rightarrow> direction \<Rightarrow> nat \<Rightarrow> f64 \<Rightarrow> session" where
  "session_with_direction env dir lvl now_ms =
     \<lparr>se_envelope = env, se_direction = dir, se_recv = replicate CHANNEL_COUNT None,
      se_send = replicate CHANNEL_COUNT None, se_controller = controller_new lvl (rnd 1) (rnd 500), se_level = lvl,
      se_tx_counter = 0, se_srtt_ms = Fin 0, se_srtt_seeded = False, se_last_ack_sent_ms = now_ms,
      se_last_progress_ms = now_ms,
      se_delivery = replicate CHANNEL_COUNT \<lparr>dl_acked_seen = 0, dl_since_ms = now_ms\<rparr>,
      se_transport_stats = transport_stats_default,
      se_channel_stats = replicate CHANNEL_COUNT transport_stats_default, se_last_sample_ms = now_ms,
      se_last_sample_bytes_sent = replicate CHANNEL_COUNT 0, se_last_sample_bytes_acked = replicate CHANNEL_COUNT 0,
      se_ack_due = False, se_ack_kind = AK_Ack, se_trigger = (0, 0), se_drain_channel = 0, se_drain_started = False,
      se_pacer = pacer_new now_ms, se_drain_bytes = replicate CHANNEL_COUNT 0,
      se_path_datagram_size = DEFAULT_DATAGRAM, se_pending_probe_ack = None\<rparr>"

definition session_new :: "envelope \<Rightarrow> nat \<Rightarrow> f64 \<Rightarrow> session" where
  "session_new env lvl now_ms = session_with_direction env Host lvl now_ms"

definition session_new_guest :: "envelope \<Rightarrow> nat \<Rightarrow> f64 \<Rightarrow> session" where
  "session_new_guest env lvl now_ms = session_with_direction env Guest lvl now_ms"

text \<open>\<open>rings.get(channel).and_then(Option::as_ref)\<close>.\<close>

definition ring_at :: "'r option list \<Rightarrow> nat \<Rightarrow> 'r option" where
  "ring_at rings ch = (case get_at rings ch of None \<Rightarrow> None | Some r \<Rightarrow> r)"

section \<open>Attaching rings and path changes\<close>

definition body_capacity_of :: "nat \<Rightarrow> nat" where
  "body_capacity_of datagram_bytes = datagram_bytes - (ENVELOPE_LEN + HEADER_LEN)"

definition attach_recv :: "session \<Rightarrow> byte \<Rightarrow> recv_ring \<Rightarrow> session \<times> unit result" where
  "attach_recv s channel ring =
     (if unat channel < length (se_recv s) then (s\<lparr>se_recv := (se_recv s)[unat channel := Some ring]\<rparr>, Inr ())
      else (s, Inl Malformed))"

definition attach_send :: "session \<Rightarrow> byte \<Rightarrow> send_ring \<Rightarrow> session \<times> unit result" where
  "attach_send s channel ring =
     (let active_body = body_capacity_of (se_path_datagram_size s);
          (ring, fits) = (if active_body < sr_fragment_capacity ring then set_fragment_capacity ring active_body
                          else (ring, True))
      in if \<not> fits then (s, Inl BufferTooSmall)
         else if unat channel < length (se_send s)
         then (s\<lparr>se_send := (se_send s)[unat channel := Some ring]\<rparr>, Inr ())
         else (s, Inl Malformed))"

definition set_pacing_rate_mbps :: "session \<Rightarrow> f64 \<Rightarrow> f64 \<Rightarrow> session" where
  "set_pacing_rate_mbps s now_ms rate_mbps = s\<lparr>se_pacer := set_rate (se_pacer s) now_ms rate_mbps\<rparr>"

definition set_pacing_datagram_size :: "session \<Rightarrow> nat \<Rightarrow> session \<times> bool" where
  "set_pacing_datagram_size s datagram_bytes =
     (case set_datagram_size (se_pacer s) datagram_bytes of (p, ok) \<Rightarrow> (s\<lparr>se_pacer := p\<rparr>, ok))"

definition resize_rings :: "send_ring option list \<Rightarrow> nat \<Rightarrow> send_ring option list" where
  "resize_rings rings body = map (map_option (\<lambda>ring. fst (set_fragment_capacity ring body))) rings"

definition set_path_datagram_size :: "session \<Rightarrow> nat \<Rightarrow> session \<times> bool" where
  "set_path_datagram_size s datagram_bytes =
     (if \<not> legal_datagram datagram_bytes then (s, False)
      else
        let body = body_capacity_of datagram_bytes in
        if list_ex (\<lambda>slot. case slot of None \<Rightarrow> False | Some ring \<Rightarrow> \<not> can_set_fragment_capacity ring body) (se_send s)
        then (s, False)
        else case set_datagram_size (se_pacer s) datagram_bytes of
          (p, False) \<Rightarrow> (s\<lparr>se_pacer := p\<rparr>, False)
        | (p, True) \<Rightarrow> (s\<lparr>se_pacer := p, se_send := resize_rings (se_send s) body,
                         se_path_datagram_size := datagram_bytes\<rparr>, True))"

definition can_recover_video_path_datagram_size :: "session \<Rightarrow> nat \<Rightarrow> bool" where
  "can_recover_video_path_datagram_size s datagram_bytes =
     (if se_path_datagram_size s \<le> datagram_bytes \<or> \<not> legal_datagram datagram_bytes then False
      else
        let body = body_capacity_of datagram_bytes in
        list_all (\<lambda>(channel, slot). case slot of None \<Rightarrow> True
          | Some ring \<Rightarrow> if channel = VIDEO_CHANNEL then body \<le> sr_slot_len ring
                         else can_set_fragment_capacity ring body)
          (enumerate 0 (se_send s)))"

definition recover_video_path_datagram_size :: "session \<Rightarrow> nat \<Rightarrow> session \<times> u32 option" where
  "recover_video_path_datagram_size s datagram_bytes =
     (if \<not> can_recover_video_path_datagram_size s datagram_bytes then (s, None)
      else case set_datagram_size (se_pacer s) datagram_bytes of
        (p, False) \<Rightarrow> (s\<lparr>se_pacer := p\<rparr>, None)
      | (p, True) \<Rightarrow>
          let (rings, dropped) = (case ring_at (se_send s) VIDEO_CHANNEL of None \<Rightarrow> (se_send s, 0)
                | Some ring \<Rightarrow> (case discard_pending ring of (ring', n) \<Rightarrow> ((se_send s)[VIDEO_CHANNEL := Some ring'], n)));
              body = body_capacity_of datagram_bytes
          in (s\<lparr>se_pacer := p, se_send := resize_rings rings body, se_path_datagram_size := datagram_bytes\<rparr>,
              Some dropped))"

definition apply_path_mtu :: "session \<Rightarrow> path_mtu \<Rightarrow> session \<times> bool" where
  "apply_path_mtu s m = (if mt_state m = ErrorState then (s, False) else set_path_datagram_size s (mt_current m))"

definition feedback_pending :: "session \<Rightarrow> bool" where
  "feedback_pending s = (se_ack_due s \<or> se_pending_probe_ack s \<noteq> None)"

definition probe_ack_pending :: "session \<Rightarrow> bool" where
  "probe_ack_pending s = (se_pending_probe_ack s \<noteq> None)"

definition reset_delivery_watchdog :: "session \<Rightarrow> f64 \<Rightarrow> session" where
  "reset_delivery_watchdog s now_ms =
     (if \<not> is_finite now_ms then s
      else s\<lparr>se_last_progress_ms := now_ms, se_delivery := map (\<lambda>entry. entry\<lparr>dl_since_ms := now_ms\<rparr>) (se_delivery s)\<rparr>)"

section \<open>Queries\<close>

definition channel_transport_stats :: "session \<Rightarrow> byte \<Rightarrow> transport_stats option" where
  "channel_transport_stats s channel = (case ring_at (se_send s) (unat channel) of None \<Rightarrow> None
   | Some ring \<Rightarrow> (case get_at (se_channel_stats s) (unat channel) of None \<Rightarrow> None
       | Some stats \<Rightarrow> Some (stats\<lparr>ts_in_flight := send_in_flight ring, ts_stale := sr_stale ring,
           ts_bytes_sent := sr_bytes_sent ring, ts_bytes_acked := sr_bytes_acked ring,
           ts_retransmitted_fragments := sr_retransmitted ring, ts_srtt_ms := se_srtt_ms s\<rparr>)))"

definition undeliverable :: "session \<Rightarrow> f64 \<Rightarrow> bool" where
  "undeliverable s now_ms =
     list_ex (\<lambda>(channel, slot). case slot of None \<Rightarrow> False
       | Some ring \<Rightarrow> 0 < send_in_flight ring
           \<and> (case get_at (se_delivery s) channel of None \<Rightarrow> False
              | Some entry \<Rightarrow> fle DELIVERY_DEADLINE_MS (fsub now_ms (dl_since_ms entry))))
       (enumerate 0 (se_send s))"

definition session_health :: "session \<Rightarrow> f64 \<Rightarrow> health" where
  "session_health s now_ms =
     (let idle = fsub now_ms (se_last_progress_ms s) in
      if fle LIVENESS_HARD_MS idle then Dead
      else if undeliverable s now_ms then Undeliverable
      else if fle LIVENESS_SOFT_MS idle then Stalled else Alive)"

definition send_pressure :: "session \<Rightarrow> byte \<Rightarrow> (u32 \<times> u32 \<times> u64) option" where
  "send_pressure s channel =
     map_option (\<lambda>ring. (send_in_flight ring, sr_stale ring, sr_bytes_sent ring)) (ring_at (se_send s) (unat channel))"

definition session_recv_cumulative :: "session \<Rightarrow> byte \<Rightarrow> u32 option" where
  "session_recv_cumulative s channel = map_option recv_cumulative_ack (ring_at (se_recv s) (unat channel))"

definition session_has_gap :: "session \<Rightarrow> byte \<Rightarrow> bool" where
  "session_has_gap s channel = (case ring_at (se_recv s) (unat channel) of None \<Rightarrow> False | Some r \<Rightarrow> recv_has_gap r)"

section \<open>Messages\<close>

definition reset_recv :: "session \<Rightarrow> byte \<Rightarrow> u32 \<Rightarrow> session \<times> unit result" where
  "reset_recv s channel sequence = (case ring_at (se_recv s) (unat channel) of None \<Rightarrow> (s, Inl Malformed)
   | Some ring \<Rightarrow> (s\<lparr>se_recv := (se_recv s)[unat channel := Some (recv_reset_to ring sequence)]\<rparr>, Inr ()))"

definition send_message :: "session \<Rightarrow> byte \<Rightarrow> bytes \<Rightarrow> bytes \<Rightarrow> session \<times> u32 result" where
  "send_message s channel hdr payload = (case ring_at (se_send s) (unat channel) of None \<Rightarrow> (s, Inl Malformed)
   | Some ring \<Rightarrow> (case message_new hdr payload of Inl e \<Rightarrow> (s, Inl e)
       | Inr m \<Rightarrow> (case send_enqueue ring m of (ring', res) \<Rightarrow>
           (s\<lparr>se_send := (se_send s)[unat channel := Some ring']\<rparr>, res))))"

definition session_take_message :: "session \<Rightarrow> byte \<Rightarrow> bytes \<Rightarrow> session \<times> bytes \<times> nat result option" where
  "session_take_message s channel out = (case ring_at (se_recv s) (unat channel) of None \<Rightarrow> (s, out, None)
   | Some ring \<Rightarrow> (case recv_take_message ring out of (ring', out', res) \<Rightarrow>
       (s\<lparr>se_recv := (se_recv s)[unat channel := Some ring']\<rparr>, out', res)))"

definition session_escape_stall :: "session \<Rightarrow> byte \<Rightarrow> (bytes \<Rightarrow> bool) \<Rightarrow> session \<times> u32 option" where
  "session_escape_stall s channel resumable = (case ring_at (se_recv s) (unat channel) of None \<Rightarrow> (s, None)
   | Some ring \<Rightarrow> (case recv_escape_stall ring resumable of (ring', res) \<Rightarrow>
       (s\<lparr>se_recv := (se_recv s)[unat channel := Some ring']\<rparr>, res)))"

section \<open>Input\<close>

definition observe_rtt :: "session \<Rightarrow> f64 \<Rightarrow> session" where
  "observe_rtt s sample_ms =
     (if \<not> is_finite sample_ms \<or> flt sample_ms (Fin 0) then s
      else if se_srtt_seeded s
      then s\<lparr>se_srtt_ms := fadd (fmul (se_srtt_ms s) (fsub (Fin 1) SRTT_ALPHA)) (fmul sample_ms SRTT_ALPHA)\<rparr>
      else s\<lparr>se_srtt_ms := sample_ms, se_srtt_seeded := True\<rparr>)"

text \<open>The loop of the acknowledgement arm: every ring sees it, the last sample taken is kept.\<close>

fun ack_rings :: "send_ring option list \<Rightarrow> ack_pkt \<Rightarrow> f64 \<Rightarrow> f64 option \<Rightarrow> send_ring option list \<times> f64 option" where
  "ack_rings [] ack now_ms sample = ([], sample)"
| "ack_rings (None # rings) ack now_ms sample =
     (case ack_rings rings ack now_ms sample of (rings', res) \<Rightarrow> (None # rings', res))"
| "ack_rings (Some ring # rings) ack now_ms sample =
     (case on_ack ring ack now_ms of (ring', taken) \<Rightarrow>
        (case ack_rings rings ack now_ms (case taken of None \<Rightarrow> sample | Some t \<Rightarrow> Some t) of
           (rings', res) \<Rightarrow> (Some ring' # rings', res)))"

definition handle_data :: "session \<Rightarrow> data_pkt \<Rightarrow> session \<times> inbound result" where
  "handle_data s d =
     (let s = s\<lparr>se_trigger := (d_channel d, d_seq d), se_ack_due := True, se_ack_kind := AK_Ack\<rparr> in
      case ring_at (se_recv s) (unat (d_channel d)) of None \<Rightarrow> (s, Inr (InUnhandled (d_channel d)))
      | Some ring \<Rightarrow> (s\<lparr>se_recv := (se_recv s)[unat (d_channel d) := Some (fst (recv_store ring (d_seq d) (d_body d)))]\<rparr>,
                      Inr (InData (d_channel d))))"

definition handle_ack :: "session \<Rightarrow> ack_pkt \<Rightarrow> f64 \<Rightarrow> session \<times> inbound result" where
  "handle_ack s ack now_ms =
     (case ack_rings (se_send s) ack now_ms None of (rings, sample) \<Rightarrow>
        let s = s\<lparr>se_send := rings\<rparr>;
            s = (case sample of None \<Rightarrow> s | Some x \<Rightarrow> observe_rtt s x)
        in (s, Inr (case ak_kind ack of AK_Ack \<Rightarrow> InAck | AK_Keepalive \<Rightarrow> InKeepalive)))"

definition handle_probe :: "session \<Rightarrow> nat \<Rightarrow> probe_pkt \<Rightarrow> session \<times> inbound result" where
  "handle_probe s datagram_len p =
     (if datagram_len \<noteq> pr_size p then (s, Inl Malformed)
      else (s\<lparr>se_pending_probe_ack := Some \<lparr>pa_id = pr_id p, pa_size = pr_size p\<rparr>\<rparr>, Inr (InProbe (pr_id p) (pr_size p))))"

definition dispatch_packet :: "session \<Rightarrow> packet \<Rightarrow> nat \<Rightarrow> f64 \<Rightarrow> session \<times> inbound result" where
  "dispatch_packet s pkt datagram_len now_ms = (case pkt of
     PData d \<Rightarrow> handle_data s d
   | PAck ack \<Rightarrow> handle_ack s ack now_ms
   | PProbe p \<Rightarrow> handle_probe s datagram_len p
   | PProbeAck a \<Rightarrow> (s, Inr (InProbeAck (pa_id a) (pa_size a))))"

definition process_input :: "aead \<Rightarrow> session \<Rightarrow> bytes \<Rightarrow> f64 \<Rightarrow> bytes \<Rightarrow> session \<times> inbound result" where
  "process_input A s datagram now_ms scratch =
     (if from_datagram datagram \<noteq> Some (opposite (se_direction s)) then (s, Inl Decrypt)
      else case envelope_open A (se_envelope s) datagram scratch of Inl e \<Rightarrow> (s, Inl e)
      | Inr opn \<Rightarrow> (case parse (op_cleartext opn) of Inl e \<Rightarrow> (s, Inl e)
          | Inr pkt \<Rightarrow> dispatch_packet (s\<lparr>se_last_progress_ms := now_ms\<rparr>) pkt (length datagram) now_ms))"

section \<open>Housekeeping\<close>

definition refresh_delivery :: "send_ring option \<Rightarrow> delivery \<Rightarrow> f64 \<Rightarrow> delivery" where
  "refresh_delivery slot entry now_ms = (case slot of None \<Rightarrow> entry
   | Some ring \<Rightarrow> if send_in_flight ring = 0 \<or> sr_acked ring \<noteq> dl_acked_seen entry
       then entry\<lparr>dl_acked_seen := sr_acked ring, dl_since_ms := now_ms\<rparr> else entry)"

definition refresh_stats :: "send_ring option \<Rightarrow> transport_stats \<Rightarrow> f64 \<Rightarrow> transport_stats" where
  "refresh_stats slot stats srtt_ms = (case slot of None \<Rightarrow> transport_stats_default
   | Some ring \<Rightarrow> stats\<lparr>ts_in_flight := send_in_flight ring, ts_stale := sr_stale ring,
       ts_bytes_sent := sr_bytes_sent ring, ts_bytes_acked := sr_bytes_acked ring,
       ts_retransmitted_fragments := sr_retransmitted ring, ts_srtt_ms := srtt_ms\<rparr>)"

text \<open>One rate of a sample: \<open>delta as f64 * 8.0 / (elapsed / 1000.0) / 1_000_000.0\<close>, kept finite and non-negative.\<close>

definition sample_rate :: "u64 \<Rightarrow> f64 \<Rightarrow> f64" where
  "sample_rate delta elapsed =
     (let rate = fdiv (fdiv (fmul (f64_of_nat (unat delta)) (Fin 8)) (fdiv elapsed (rnd 1000))) (rnd 1000000)
      in if is_finite rate then fmax rate (Fin 0) else Fin 0)"

definition sample_stats :: "transport_stats \<Rightarrow> u64 \<Rightarrow> u64 \<Rightarrow> f64 \<Rightarrow> transport_stats" where
  "sample_stats stats last_sent last_acked elapsed =
     stats\<lparr>ts_interval_ms := elapsed,
           ts_send_rate_mbps := sample_rate (sat_sub (ts_bytes_sent stats) last_sent) elapsed,
           ts_delivery_rate_mbps := sample_rate (sat_sub (ts_bytes_acked stats) last_acked) elapsed\<rparr>"

definition aggregate_step :: "transport_stats \<Rightarrow> transport_stats \<Rightarrow> transport_stats" where
  "aggregate_step stats agg =
     agg\<lparr>ts_in_flight := sat_add (ts_in_flight agg) (ts_in_flight stats), ts_stale := sat_add (ts_stale agg) (ts_stale stats),
         ts_bytes_sent := sat_add (ts_bytes_sent agg) (ts_bytes_sent stats),
         ts_bytes_acked := sat_add (ts_bytes_acked agg) (ts_bytes_acked stats),
         ts_retransmitted_fragments := sat_add (ts_retransmitted_fragments agg) (ts_retransmitted_fragments stats),
         ts_send_rate_mbps := fadd (ts_send_rate_mbps agg) (ts_send_rate_mbps stats),
         ts_delivery_rate_mbps := fadd (ts_delivery_rate_mbps agg) (ts_delivery_rate_mbps stats)\<rparr>"

definition poll_ack :: "session \<Rightarrow> f64 \<Rightarrow> session" where
  "poll_ack s now_ms = (if \<not> se_ack_due s \<and> fle ACK_CADENCE_MS (fsub now_ms (se_last_ack_sent_ms s))
     then s\<lparr>se_ack_due := True, se_ack_kind := AK_Keepalive\<rparr> else s)"

definition poll_delivery :: "session \<Rightarrow> f64 \<Rightarrow> session" where
  "poll_delivery s now_ms =
     s\<lparr>se_delivery := map (\<lambda>(slot, entry). refresh_delivery slot entry now_ms) (zip (se_send s) (se_delivery s))\<rparr>"

definition poll_sample :: "session \<Rightarrow> f64 \<Rightarrow> session" where
  "poll_sample s now_ms =
     (let elapsed = fsub now_ms (se_last_sample_ms s);
          sampled = (is_finite elapsed \<and> fle TRANSPORT_SAMPLE_MIN_MS elapsed \<and> fle (se_last_sample_ms s) now_ms);
          fresh = map (\<lambda>(slot, stats). refresh_stats slot stats (se_srtt_ms s)) (zip (se_send s) (se_channel_stats s));
          stats = (if sampled
                   then map (\<lambda>((st, last_sent), last_acked). sample_stats st last_sent last_acked elapsed)
                          (zip (zip fresh (se_last_sample_bytes_sent s)) (se_last_sample_bytes_acked s))
                   else fresh);
          agg = fold aggregate_step stats (transport_stats_default\<lparr>ts_interval_ms := ts_interval_ms (se_transport_stats s)\<rparr>)
      in s\<lparr>se_channel_stats := stats,
           se_last_sample_bytes_sent := (if sampled then map ts_bytes_sent stats else se_last_sample_bytes_sent s),
           se_last_sample_bytes_acked := (if sampled then map ts_bytes_acked stats else se_last_sample_bytes_acked s),
           se_last_sample_ms := (if sampled then now_ms else se_last_sample_ms s),
           se_transport_stats := (if sampled then agg\<lparr>ts_interval_ms := elapsed\<rparr> else agg)\<lparr>ts_srtt_ms := se_srtt_ms s\<rparr>\<rparr>)"

definition poll_controller :: "session \<Rightarrow> session" where
  "poll_controller s = (case get_at (se_channel_stats s) VIDEO_CHANNEL of None \<Rightarrow> s
   | Some video \<Rightarrow>
       if ring_at (se_send s) VIDEO_CHANNEL \<noteq> None
       then s\<lparr>se_controller := fst (tick (se_controller s) (ts_in_flight video) (ts_stale video) (ts_delivery_rate_mbps video))\<rparr>
       else s)"

definition session_poll :: "session \<Rightarrow> f64 \<Rightarrow> session" where
  "session_poll s now_ms =
     poll_controller (poll_sample (poll_delivery (poll_ack (s\<lparr>se_drain_started := False\<rparr>) now_ms) now_ms) now_ms)"

section \<open>Scheduling\<close>

definition priority_quantum :: "nat \<Rightarrow> nat option" where
  "priority_quantum channel = (if channel = CONTROL_CHANNEL_INDEX then Some CONTROL_PRIORITY_QUANTUM_BYTES
     else if channel = AUDIO_CHANNEL_INDEX then Some AUDIO_PRIORITY_QUANTUM_BYTES else None)"

definition due_len :: "session \<Rightarrow> nat \<Rightarrow> f64 \<Rightarrow> nat option" where
  "due_len s channel now_ms = (case ring_at (se_send s) channel of None \<Rightarrow> None
   | Some ring \<Rightarrow> next_due_len ring now_ms (se_srtt_ms s) (se_level s))"

definition has_due_after :: "session \<Rightarrow> nat \<Rightarrow> f64 \<Rightarrow> bool" where
  "has_due_after s position now_ms =
     list_ex (\<lambda>order_position. case get_at DRAIN_ORDER order_position of None \<Rightarrow> False
         | Some channel \<Rightarrow> due_len s channel now_ms \<noteq> None)
       [usize_saturating_add position 1 ..< CHANNEL_COUNT]"

definition has_due_priority :: "session \<Rightarrow> f64 \<Rightarrow> bool" where
  "has_due_priority s now_ms =
     list_ex (\<lambda>channel. due_len s channel now_ms \<noteq> None) [CONTROL_CHANNEL_INDEX, AUDIO_CHANNEL_INDEX]"

definition session_next_timer_ms :: "session \<Rightarrow> f64 \<Rightarrow> f64" where
  "session_next_timer_ms s now_ms =
     (if se_pending_probe_ack s \<noteq> None then Fin 0
      else
        let since_ack = fsub now_ms (se_last_ack_sent_ms s);
            next = fmax (fsub ACK_CADENCE_MS since_ack) (Fin 0)
        in case due_len s VIDEO_CHANNEL now_ms of
             None \<Rightarrow> if has_due_priority s now_ms then Fin 0 else next
           | Some cleartext_len \<Rightarrow>
               let wire_len = usize_saturating_add ENVELOPE_LEN cleartext_len;
                   wait = (if pacer_enabled (se_pacer s) then wait_ms (se_pacer s) now_ms wire_len else Fin 0);
                   next = fmin next wait
               in if pacer_enabled (se_pacer s) \<and> is_finite wait \<and> flt (Fin 0) wait then next
                  else if has_due_priority s now_ms then Fin 0 else next)"

section \<open>Output\<close>

definition session_seal :: "aead \<Rightarrow> session \<Rightarrow> nat \<Rightarrow> bytes \<Rightarrow> session \<times> (bytes \<times> nat) result" where
  "session_seal A s cleartext_len out =
     (if push_bit 63 1 \<le> se_tx_counter s then (s, Inl Oversized)
      else
        let counter = se_tx_counter s OR seal_bit (se_direction s) in
        case chk_add (se_tx_counter s) 1 of None \<Rightarrow> (s, Inl Oversized)
        | Some c \<Rightarrow> (s\<lparr>se_tx_counter := c\<rparr>, seal_in_place A (se_envelope s) counter cleartext_len out))"

text \<open>
  The shape of the three feedback emitters: build the cleartext at the ciphertext offset, then seal. On
  an error the caller's buffer is returned as it was given; its contents then carry no meaning.
\<close>

definition emit :: "aead \<Rightarrow> session \<Rightarrow> bytes \<Rightarrow> (bytes \<Rightarrow> (bytes \<times> nat) result) \<Rightarrow> session \<times> (bytes \<times> nat) result" where
  "emit A s out enc = (case get_from out ENVELOPE_LEN of None \<Rightarrow> (s, Inl BufferTooSmall)
   | Some body \<Rightarrow> (case enc body of Inl e \<Rightarrow> (s, Inl e)
       | Inr (body', written) \<Rightarrow> session_seal A s written (take ENVELOPE_LEN out @ body')))"

definition emit_path_probe :: "aead \<Rightarrow> session \<Rightarrow> mtu_probe \<Rightarrow> bytes \<Rightarrow> session \<times> (bytes \<times> nat) result" where
  "emit_path_probe A s probe out = emit A s out (\<lambda>body. encode_probe body \<lparr>pr_id = pb_id probe, pr_size = pb_size probe\<rparr>)"

definition session_ack :: "session \<Rightarrow> ack_pkt" where
  "session_ack s =
     (let cumulative = map (\<lambda>slot. case slot of None \<Rightarrow> 0 | Some ring \<Rightarrow> recv_cumulative_ack ring) (se_recv s);
          gap = list_ex (\<lambda>slot. case slot of None \<Rightarrow> False | Some ring \<Rightarrow> recv_has_gap ring) (se_recv s);
          keepalive = (se_ack_kind s = AK_Keepalive)
      in \<lparr>ak_kind = se_ack_kind s, ak_nack = (gap \<and> \<not> keepalive),
          ak_trigger_channel = (if keepalive then 0 else fst (se_trigger s)),
          ak_trigger_seq = (if keepalive then 0 else snd (se_trigger s)),
          ak_cumulative = cumulative, ak_reported = CHANNEL_COUNT\<rparr>)"

definition emit_ack :: "aead \<Rightarrow> session \<Rightarrow> bytes \<Rightarrow> session \<times> (bytes \<times> nat) result" where
  "emit_ack A s out = emit A s out (\<lambda>body. encode_ack body (session_ack s))"

definition emit_probe_ack :: "aead \<Rightarrow> session \<Rightarrow> probe_ack_pkt \<Rightarrow> bytes \<Rightarrow> session \<times> (bytes \<times> nat) result" where
  "emit_probe_ack A s ack out = emit A s out (\<lambda>body. encode_probe_ack body ack)"

text \<open>One turn of the drain loop on channel \<open>index\<close>: go on with the next position, or return.\<close>

datatype drain_outcome =
    Continue session
  | Return session bytes "nat result option"

definition charge_drain :: "session \<Rightarrow> nat \<Rightarrow> bool \<Rightarrow> f64 \<Rightarrow> nat \<Rightarrow> session" where
  "charge_drain s index paced now_ms len =
     (let s = (if paced then s\<lparr>se_pacer := fst (try_consume (se_pacer s) now_ms len)\<rparr> else s)
      in if priority_quantum index \<noteq> None \<and> index < length (se_drain_bytes s)
         then s\<lparr>se_drain_bytes := (se_drain_bytes s)[index := usize_saturating_add (se_drain_bytes s ! index) len]\<rparr>
         else s)"

definition next_position :: "session \<Rightarrow> session" where
  "next_position s = s\<lparr>se_drain_channel := Suc (se_drain_channel s)\<rparr>"

definition yields_quantum :: "session \<Rightarrow> nat \<Rightarrow> nat \<Rightarrow> f64 \<Rightarrow> bool" where
  "yields_quantum s index wire_len now_ms =
     (let priority_bytes = (case get_at (se_drain_bytes s) index of None \<Rightarrow> 0 | Some n \<Rightarrow> n) in
      case priority_quantum index of None \<Rightarrow> False
      | Some quantum \<Rightarrow> 0 < priority_bytes \<and> quantum < usize_saturating_add priority_bytes wire_len
          \<and> has_due_after s (se_drain_channel s) now_ms)"

definition drain_send :: "aead \<Rightarrow> session \<Rightarrow> f64 \<Rightarrow> bytes \<Rightarrow> nat \<Rightarrow> send_ring \<Rightarrow> bool \<Rightarrow> drain_outcome" where
  "drain_send A s now_ms out index ring paced =
     (case get_from out ENVELOPE_LEN of None \<Rightarrow> Return s out (Some (Inl BufferTooSmall))
      | Some body \<Rightarrow>
          (case poll_send ring now_ms (se_srtt_ms s) (se_level s) body of (ring', body', polled) \<Rightarrow>
             let s = s\<lparr>se_send := (se_send s)[index := Some ring']\<rparr> in
             (case polled of
                None \<Rightarrow> Continue (next_position s)
              | Some (Inl e) \<Rightarrow> Return s out (Some (Inl e))
              | Some (Inr written) \<Rightarrow>
                  (case session_seal A s written (take ENVELOPE_LEN out @ body') of
                     (s', Inl e) \<Rightarrow> Return s' out (Some (Inl e))
                   | (s', Inr (out', len)) \<Rightarrow> Return (charge_drain s' index paced now_ms len) out' (Some (Inr len))))))"

definition drain_step :: "aead \<Rightarrow> session \<Rightarrow> f64 \<Rightarrow> bytes \<Rightarrow> nat \<Rightarrow> drain_outcome" where
  "drain_step A s now_ms out index = (case ring_at (se_send s) index of None \<Rightarrow> Continue (next_position s)
   | Some ring \<Rightarrow> (case next_due_len ring now_ms (se_srtt_ms s) (se_level s) of None \<Rightarrow> Continue (next_position s)
       | Some cleartext_len \<Rightarrow>
           let wire_len = usize_saturating_add ENVELOPE_LEN cleartext_len in
           if yields_quantum s index wire_len now_ms then Continue (next_position s)
           else
             let paced = (index = VIDEO_CHANNEL \<and> pacer_enabled (se_pacer s)) in
             if paced \<and> \<not> can_consume (se_pacer s) now_ms wire_len then Return s out None
             else drain_send A s now_ms out index ring paced))"

lemma next_position_simps [simp]:
  "se_drain_channel (next_position s) = Suc (se_drain_channel s)" "se_send (next_position s) = se_send s"
  by (simp_all add: next_position_def)

lemma drain_step_Continue: "drain_step A s now out i = Continue s' \<Longrightarrow> se_drain_channel s' = Suc (se_drain_channel s)"
  by (auto simp: drain_step_def drain_send_def Let_def split: option.splits if_splits prod.splits sum.splits)

function session_drain :: "aead \<Rightarrow> session \<Rightarrow> f64 \<Rightarrow> bytes \<Rightarrow> session \<times> bytes \<times> nat result option" where
  "session_drain A s now_ms out =
     (if CHANNEL_COUNT \<le> se_drain_channel s then (s\<lparr>se_drain_started := False\<rparr>, out, None)
      else case get_at DRAIN_ORDER (se_drain_channel s) of
        None \<Rightarrow> session_drain A (s\<lparr>se_drain_channel := CHANNEL_COUNT\<rparr>) now_ms out
      | Some index \<Rightarrow>
          (case drain_step A s now_ms out index of
             Continue s' \<Rightarrow> session_drain A s' now_ms out
           | Return s' out' res \<Rightarrow> (s', out', res)))"
  by pat_completeness auto
termination
  by (relation "measure (\<lambda>(A, s, now, out). CHANNEL_COUNT - se_drain_channel s)")
    (auto dest: drain_step_Continue)

declare session_drain.simps [simp del]

definition start_pass :: "session \<Rightarrow> session" where
  "start_pass s = (if se_drain_started s then s
     else s\<lparr>se_send := map (map_option begin_pass) (se_send s), se_drain_channel := 0,
            se_drain_bytes := replicate CHANNEL_COUNT 0, se_drain_started := True\<rparr>)"

definition get_output :: "aead \<Rightarrow> session \<Rightarrow> f64 \<Rightarrow> bytes \<Rightarrow> session \<times> bytes \<times> nat result option" where
  "get_output A s now_ms out =
     (let s = start_pass s in
      if se_ack_due s then
        (case emit_ack A s out of
           (s', Inr (out', n)) \<Rightarrow> (s'\<lparr>se_ack_due := False, se_last_ack_sent_ms := now_ms\<rparr>, out', Some (Inr n))
         | (s', Inl e) \<Rightarrow> (s', out, Some (Inl e)))
      else case se_pending_probe_ack s of
        Some ack \<Rightarrow>
          (case emit_probe_ack A s ack out of
             (s', Inr (out', n)) \<Rightarrow> (s'\<lparr>se_pending_probe_ack := None\<rparr>, out', Some (Inr n))
           | (s', Inl e) \<Rightarrow> (s', out, Some (Inl e)))
      | None \<Rightarrow> session_drain A s now_ms out)"

end
