(* ===== verification/Session_Inv.thy ===== *)
theory Session_Inv
  imports Session Send_Delivery
begin

text \<open>
  The invariant of a session: nineteen slots per table, a legal path size that every queued fragment
  fits, a pacer with its invariant, and feedback that can be encoded. Every operation keeps it, and
  what \<open>get_output\<close> emits is characterised on every branch.
\<close>

section \<open>Frames of the ring operations\<close>

lemma poll_send_frame:
  assumes inv: "send_inv r" and p: "poll_send r now srtt lvl out = (r', out', res)"
  shows "sr_fragment_capacity r' = sr_fragment_capacity r \<and> sr_slot_len r' = sr_slot_len r \<and> length out' = length out"
proof -
  obtain c st cnt where "scan_result r now srtt lvl out c st cnt" using poll_send_scan [OF inv] by blast
  then show ?thesis
    using p by (auto simp: scan_result_def scan_emit_def encode_data_Inr length_data_bytes Let_def split: if_splits sum.splits)
qed

lemma on_ack_frame:
  "on_ack r ack now = (r', sample) \<Longrightarrow> sr_fragment_capacity r' = sr_fragment_capacity r \<and> sr_slot_len r' = sr_slot_len r"
  by (auto simp: on_ack_def ack_frontier_def Let_def split: if_splits option.splits prod.splits)

lemma enqueue_loop_frame:
  "enqueue_loop r m cap i n = (r', res) \<Longrightarrow>
   sr_fragment_capacity r' = sr_fragment_capacity r \<and> sr_slot_len r' = sr_slot_len r"
proof (induction r m cap i n arbitrary: r' res rule: enqueue_loop.induct)
  case (2 r m cap i n)
  then show ?case by (fastforce simp: Let_def split: option.splits sum.splits prod.splits)
qed simp

lemma send_enqueue_frame:
  "send_enqueue r m = (r', res) \<Longrightarrow> sr_fragment_capacity r' = sr_fragment_capacity r \<and> sr_slot_len r' = sr_slot_len r"
  by (auto simp: send_enqueue_def Let_def dest!: enqueue_loop_frame split: if_splits prod.splits sum.splits option.splits)

section \<open>Rings that fit a path\<close>

definition ring_fits :: "nat \<Rightarrow> send_ring \<Rightarrow> bool" where
  "ring_fits body r \<longleftrightarrow> send_inv r \<and> sr_fragment_capacity r \<le> body
     \<and> (\<forall>k b l. send_abs r k = Some (b, l) \<longrightarrow> length b \<le> body)"

definition rings_fit :: "nat \<Rightarrow> send_ring option list \<Rightarrow> bool" where
  "rings_fit body rings \<longleftrightarrow> (\<forall>r. Some r \<in> set rings \<longrightarrow> ring_fits body r)"

lemma ring_at_set: "ring_at rings i = Some r \<Longrightarrow> Some r \<in> set rings \<and> i < length rings \<and> rings ! i = Some r"
  by (auto simp: ring_at_def get_at_def split: option.splits if_splits) (metis nth_mem)

lemma rings_fit_at: "rings_fit body rings \<Longrightarrow> ring_at rings i = Some r \<Longrightarrow> ring_fits body r"
  by (auto simp: rings_fit_def dest: ring_at_set)

lemma rings_fit_update: "rings_fit body rings \<Longrightarrow> ring_fits body r \<Longrightarrow> rings_fit body (rings[i := Some r])"
  by (auto simp: rings_fit_def dest!: set_update_subset_insert [THEN subsetD])

lemma rings_fit_map:
  "rings_fit body rings \<Longrightarrow> (\<And>r. Some r \<in> set rings \<Longrightarrow> ring_fits body r \<Longrightarrow> ring_fits body' (f r)) \<Longrightarrow>
   rings_fit body' (map (map_option f) rings)"
  unfolding rings_fit_def by (auto simp: eq_commute [of "Some _"])

lemma ring_fits_poll:
  assumes "ring_fits body r" "poll_send r now srtt lvl out = (r', out', res)"
  shows "ring_fits body r'" "send_abs r' = send_abs r" "sr_channel r' = sr_channel r"
  using assms poll_send_spec [OF _ assms(2)] poll_send_frame [OF _ assms(2)] by (auto simp: ring_fits_def scan_keeps_def)

lemma ring_fits_ack:
  assumes "ring_fits body r" "on_ack r ack now = (r', sample)"
  shows "ring_fits body r'"
proof -
  have "send_abs r' k = None \<or> send_abs r' k = send_abs r k" for k
    using on_ack_spec [OF _ assms(2)] assms(1) by (auto simp: ring_fits_def)
  then show ?thesis
    using assms on_ack_spec [OF _ assms(2)] on_ack_frame [OF assms(2)] unfolding ring_fits_def by (metis option.distinct(1))
qed

lemma ring_fits_enqueue:
  assumes r: "ring_fits body r" and wf: "wf_message m" and e: "send_enqueue r m = (r', res)"
    and nw: "unat (sr_next r) + message_fragment_count m (sr_fragment_capacity r) < 4294967296"
  shows "ring_fits body r'"
proof (cases "window_free r < message_fragment_count m (sr_fragment_capacity r)")
  case True
  then show ?thesis using send_enqueue_refused [OF True] e r by simp
next
  case False
  have inv: "send_inv r" using r by (simp add: ring_fits_def)
  from send_enqueue_ok [OF inv wf refl _ nw] False e
  have "send_inv r'" and abs: "send_abs r' = (\<lambda>k. if unat (sr_next r) \<le> k \<and> k < unat (sr_next r) + message_fragment_count m (sr_fragment_capacity r)
        then Some (chunk (sr_fragment_capacity r) (k - unat (sr_next r)) (stream m), Suc (k - unat (sr_next r)) = message_fragment_count m (sr_fragment_capacity r))
        else send_abs r k)" by auto
  moreover have "length (chunk (sr_fragment_capacity r) j xs) \<le> body" for j xs
    using length_chunk_cap r unfolding ring_fits_def by (meson le_trans)
  ultimately show ?thesis
    using r send_enqueue_frame [OF e] by (auto simp: ring_fits_def split: if_splits)
qed

lemma begin_pass_abs [simp]: "send_abs (begin_pass r) = send_abs r"
  by (rule send_abs_cong) (simp_all add: begin_pass_def send_slot_at_def send_body_at_def)

lemma ring_fits_begin: "ring_fits body r \<Longrightarrow> ring_fits body (begin_pass r)"
  by (auto simp: ring_fits_def begin_pass_inv) (auto simp: begin_pass_def)

lemma set_capacity_abs [simp]: "send_abs (fst (set_fragment_capacity r cap)) = send_abs r"
  by (rule send_abs_cong) (simp_all add: set_fragment_capacity_def send_slot_at_def send_body_at_def)

text \<open>A resize that passes its preflight fits the new size: every occupied slot was checked.\<close>

lemma ring_fits_resize:
  assumes inv: "send_inv r" and ok: "can_set_fragment_capacity r body"
  shows "ring_fits body (fst (set_fragment_capacity r body))"
proof -
  have "length b \<le> body" if "send_abs r k = Some (b, l)" for k b l
  proof -
    have sh: "send_shape r" using inv by (simp add: send_inv_def)
    have occ: "ss_occupied (send_slot_at r k)" and b: "b = send_body_at r k"
      using that by (auto simp: send_abs_def split: if_splits)
    have "send_slot_at r k \<in> set (sr_meta r)" using sh by (simp add: send_slot_at_def send_shape_def)
    then have "unat (ss_len (send_slot_at r k)) \<le> body" using ok occ by (auto simp: can_set_fragment_capacity_def list_all_iff)
    then show ?thesis using length_send_body [OF sh, of k] b by simp
  qed
  then show ?thesis using set_capacity_inv [OF inv, of body] ok by (auto simp: ring_fits_def) (simp add: set_fragment_capacity_def)
qed

lemma send_fresh_abs: "send_fresh r \<Longrightarrow> send_abs r = (\<lambda>k. None)"
  by (auto simp: send_fresh_def send_new_with_capacity_def usize_checked_mul_def send_abs_def fun_eq_iff split: if_splits)

lemma ring_fits_fresh: "send_fresh r \<Longrightarrow> sr_fragment_capacity r \<le> body \<Longrightarrow> ring_fits body r"
  by (simp add: ring_fits_def send_fresh_inv send_fresh_abs)

lemma discard_abs: "send_inv r \<Longrightarrow> send_abs (fst (discard_pending r)) = (\<lambda>k. None)"
  by (auto simp: discard_pending_def send_abs_def fun_eq_iff)

section \<open>The invariant\<close>

definition session_tables :: "session \<Rightarrow> bool" where
  "session_tables s \<longleftrightarrow> length (se_recv s) = CHANNEL_COUNT \<and> length (se_send s) = CHANNEL_COUNT
     \<and> length (se_delivery s) = CHANNEL_COUNT \<and> length (se_channel_stats s) = CHANNEL_COUNT
     \<and> length (se_last_sample_bytes_sent s) = CHANNEL_COUNT \<and> length (se_last_sample_bytes_acked s) = CHANNEL_COUNT
     \<and> length (se_drain_bytes s) = CHANNEL_COUNT"

definition session_feedback :: "session \<Rightarrow> bool" where
  "session_feedback s \<longleftrightarrow> unat (fst (se_trigger s)) < CHANNEL_COUNT \<and> snd (se_trigger s) \<noteq> U32_MAX
     \<and> (\<forall>a. se_pending_probe_ack s = Some a \<longrightarrow> wf_probe_ack a)"

definition session_inv :: "session \<Rightarrow> bool" where
  "session_inv s \<longleftrightarrow> session_tables s \<and> session_feedback s \<and> legal_datagram (se_path_datagram_size s)
     \<and> rings_fit (body_capacity_of (se_path_datagram_size s)) (se_send s)
     \<and> pacer_inv (se_pacer s) \<and> pc_config (se_pacer s) = compatibility_default
     \<and> unat (se_tx_counter s) \<le> 2 ^ 63"

lemmas session_inv_defs = session_inv_def session_tables_def session_feedback_def

lemma rings_fit_replicate [simp]: "rings_fit body (replicate n None)"
  by (simp add: rings_fit_def)

lemma session_new_inv: "session_inv (session_with_direction env dir lvl now)"
  using pacer_start_inv [OF pacer_start.intros(1)]
  by (simp add: session_inv_defs session_with_direction_def legal_datagram_def core_consts U32_MAX_def pacer_new_def)

section \<open>Sealing\<close>

lemma two63: "push_bit 63 1 = (2 ^ 63 :: u64)"
  by (simp add: push_bit_eq_mult)

lemma counter_Suc: "(c :: u64) < 2 ^ 63 \<Longrightarrow> unat (c + 1) = Suc (unat c) \<and> chk_add c 1 = Some (c + 1)"
proof -
  assume "c < 2 ^ 63"
  then have "unat c < 2 ^ 63" by (simp add: word_less_nat_alt)
  then have "unat c + 1 < 18446744073709551616" by simp
  then show ?thesis by (simp add: chk_add_def unat_word_ariths)
qed

lemma session_seal_cases:
  assumes "session_seal A s n out = (s', res)"
  shows "s' = s\<lparr>se_tx_counter := se_tx_counter s'\<rparr>"
    "unat (se_tx_counter s) \<le> 2 ^ 63 \<Longrightarrow> unat (se_tx_counter s') \<le> 2 ^ 63"
    "unat (se_tx_counter s) \<le> unat (se_tx_counter s')"
proof -
  have "s' = s \<or> se_tx_counter s < 2 ^ 63 \<and> s' = s\<lparr>se_tx_counter := se_tx_counter s + 1\<rparr>"
    using assms counter_Suc [of "se_tx_counter s"]
    by (auto simp: session_seal_def two63 Let_def not_le split: if_splits option.splits simp del: push_bit_of_1)
  then show "s' = s\<lparr>se_tx_counter := se_tx_counter s'\<rparr>"
    "unat (se_tx_counter s) \<le> 2 ^ 63 \<Longrightarrow> unat (se_tx_counter s') \<le> 2 ^ 63"
    "unat (se_tx_counter s) \<le> unat (se_tx_counter s')"
    using counter_Suc [of "se_tx_counter s"] by (auto simp: word_less_nat_alt)
qed

text \<open>
  \<open>emitted A s s' dg pkt\<close>: the datagram \<open>dg\<close> is the record of the packet \<open>pkt\<close>, sealed under the next
  counter of \<open>s\<close> with its direction bit, and that counter is used up in \<open>s'\<close>.
\<close>

definition emitted :: "aead \<Rightarrow> session \<Rightarrow> session \<Rightarrow> bytes \<Rightarrow> packet \<Rightarrow> bool" where
  "emitted A s s' dg pkt \<longleftrightarrow> se_tx_counter s < 2 ^ 63 \<and> unat (se_tx_counter s') = Suc (unat (se_tx_counter s))
     \<and> (\<exists>p. sealed A (se_envelope s) (se_tx_counter s OR seal_bit (se_direction s)) p dg \<and> parse p = Inr pkt
          \<and> length dg = length p + ENVELOPE_LEN)"

lemma session_seal_emitted:
  assumes A: "aead_ok A" and e: "session_seal A s n out = (s', Inr (out', m))"
    and p: "parse (take n (drop ENVELOPE_LEN out)) = Inr pkt"
  shows "emitted A s s' (take m out') pkt" "m = n + ENVELOPE_LEN" "m \<le> MAX_DATAGRAM" "length out' = length out" "m \<le> length out"
proof -
  let ?c = "se_tx_counter s OR seal_bit (se_direction s)"
  have c: "se_tx_counter s < 2 ^ 63" and si: "seal_in_place A (se_envelope s) ?c n out = Inr (out', m)"
    and s': "se_tx_counter s' = se_tx_counter s + 1"
    using e by (auto simp: session_seal_def two63 Let_def chk_add_def not_le split: if_splits option.splits simp del: push_bit_of_1)
  note sc = seal_in_place_cases [OF si]
  obtain o2 where o2: "seal_in_place A (se_envelope s) ?c n out = Inr (o2, n + ENVELOPE_LEN)" "length o2 = length out"
      "sealed A (se_envelope s) ?c (take n (drop ENVELOPE_LEN out)) (take (n + ENVELOPE_LEN) o2)"
    using seal_in_place_ok [OF A, of n out "se_envelope s" ?c] sc by metis
  then have "sealed A (se_envelope s) ?c (take n (drop ENVELOPE_LEN out)) (take m out')" using si by simp
  then show "emitted A s s' (take m out') pkt"
    unfolding emitted_def using c p counter_Suc [OF c] s' sealed_fields(1) [OF A] by metis
  show "m = n + ENVELOPE_LEN" "m \<le> MAX_DATAGRAM" "length out' = length out" "m \<le> length out" using sc o2 si by auto
qed

lemma emit_cases:
  assumes A: "aead_ok A" and e: "emit A s out enc = (s', res)"
    and enc: "\<forall>body body' n. enc body = Inr (body', n) \<longrightarrow> parse (take n body') = Inr pkt \<and> length body' = length body"
  shows "s' = s\<lparr>se_tx_counter := se_tx_counter s'\<rparr>"
    "unat (se_tx_counter s) \<le> 2 ^ 63 \<Longrightarrow> unat (se_tx_counter s') \<le> 2 ^ 63"
    "unat (se_tx_counter s) \<le> unat (se_tx_counter s')"
    "\<And>out' m. res = Inr (out', m) \<Longrightarrow> emitted A s s' (take m out') pkt \<and> m \<le> length out'
      \<and> (\<exists>body body' n. enc body = Inr (body', n) \<and> m = n + ENVELOPE_LEN)"
proof -
  consider "s' = s" "\<And>x. res \<noteq> Inr x"
    | body body' n where "get_from out ENVELOPE_LEN = Some body" "enc body = Inr (body', n)"
        "session_seal A s n (take ENVELOPE_LEN out @ body') = (s', res)"
  proof (cases "get_from out ENVELOPE_LEN")
    case None
    then show ?thesis using e that(1) by (auto simp: emit_def)
  next
    case (Some body)
    show ?thesis
    proof (cases "enc body")
      case (Inl err)
      then have "s' = s" "res = Inl err" using e Some by (simp_all add: emit_def)
      then show ?thesis by (intro that(1)) auto
    next
      case (Inr b)
      then show ?thesis using e Some that(2) [OF Some, of "fst b" "snd b"] by (auto simp: emit_def split: prod.splits)
    qed
  qed
  then have "s' = s\<lparr>se_tx_counter := se_tx_counter s'\<rparr>
      \<and> (unat (se_tx_counter s) \<le> 2 ^ 63 \<longrightarrow> unat (se_tx_counter s') \<le> 2 ^ 63)
      \<and> unat (se_tx_counter s) \<le> unat (se_tx_counter s')
      \<and> (\<forall>out' m. res = Inr (out', m) \<longrightarrow> emitted A s s' (take m out') pkt \<and> m \<le> length out'
          \<and> (\<exists>body body' n. enc body = Inr (body', n) \<and> m = n + ENVELOPE_LEN))"
  proof cases
    case 2
    have l: "ENVELOPE_LEN \<le> length out" using 2(1) by (auto simp: get_from_def split: if_splits)
    have p: "parse (take n (drop ENVELOPE_LEN (take ENVELOPE_LEN out @ body'))) = Inr pkt" using enc 2(2) l by simp
    have "emitted A s s' (take m out') pkt \<and> m \<le> length out' \<and> (\<exists>body body' n. enc body = Inr (body', n) \<and> m = n + ENVELOPE_LEN)"
      if "res = Inr (out', m)" for out' m
      using session_seal_emitted [OF A 2(3) [unfolded that] p] 2(2) by auto
    then show ?thesis using session_seal_cases [OF 2(3)] by blast
  qed auto
  then show "s' = s\<lparr>se_tx_counter := se_tx_counter s'\<rparr>"
    "unat (se_tx_counter s) \<le> 2 ^ 63 \<Longrightarrow> unat (se_tx_counter s') \<le> 2 ^ 63"
    "unat (se_tx_counter s) \<le> unat (se_tx_counter s')"
    "\<And>out' m. res = Inr (out', m) \<Longrightarrow> emitted A s s' (take m out') pkt \<and> m \<le> length out'
      \<and> (\<exists>body body' n. enc body = Inr (body', n) \<and> m = n + ENVELOPE_LEN)" by blast+
qed

section \<open>The drain loop\<close>

text \<open>The fields a drain may change.\<close>

definition drain_frame :: "session \<Rightarrow> session \<Rightarrow> bool" where
  "drain_frame s s' \<longleftrightarrow> s' = s\<lparr>se_send := se_send s', se_drain_channel := se_drain_channel s',
     se_drain_started := se_drain_started s', se_drain_bytes := se_drain_bytes s', se_pacer := se_pacer s',
     se_tx_counter := se_tx_counter s'\<rparr>"

lemma drain_frame_refl [simp]: "drain_frame s s"
  by (simp add: drain_frame_def)

lemma drain_frame_trans: "drain_frame s t \<Longrightarrow> drain_frame t u \<Longrightarrow> drain_frame s u"
  unfolding drain_frame_def by (cases s; cases t; cases u) simp

lemma drain_frame_fields:
  assumes "drain_frame s t"
  shows "se_envelope t = se_envelope s" "se_direction t = se_direction s" "se_recv t = se_recv s"
    "se_path_datagram_size t = se_path_datagram_size s" "se_srtt_ms t = se_srtt_ms s" "se_level t = se_level s"
    "se_ack_due t = se_ack_due s" "se_pending_probe_ack t = se_pending_probe_ack s" "se_trigger t = se_trigger s"
    "se_delivery t = se_delivery s" "se_channel_stats t = se_channel_stats s"
    "se_last_sample_bytes_sent t = se_last_sample_bytes_sent s" "se_last_sample_bytes_acked t = se_last_sample_bytes_acked s"
    "se_ack_kind t = se_ack_kind s"
  using assms unfolding drain_frame_def by (cases s; cases t; simp)+

text \<open>
  The same channels have a ring attached, and each ring holds the same fragments: a channel has a ring
  afterwards exactly when it had one before.
\<close>

definition same_ring :: "send_ring \<Rightarrow> send_ring \<Rightarrow> bool" where
  "same_ring r r' \<longleftrightarrow> send_abs r' = send_abs r \<and> sr_channel r' = sr_channel r"

definition same_queue :: "send_ring option list \<Rightarrow> send_ring option list \<Rightarrow> bool" where
  "same_queue rings rings' \<longleftrightarrow> length rings' = length rings \<and> (\<forall>i. rel_option same_ring (ring_at rings i) (ring_at rings' i))"

lemma same_ring_refl [simp]: "same_ring r r"
  by (simp add: same_ring_def)

lemma same_queue_at:
  "same_queue a b \<Longrightarrow> ring_at b i = Some r' \<Longrightarrow> \<exists>r. ring_at a i = Some r \<and> send_abs r' = send_abs r \<and> sr_channel r' = sr_channel r"
  by (auto simp: same_queue_def same_ring_def option_rel_Some2 dest!: spec [of _ i])

lemma same_queue_refl [simp]: "same_queue rings rings"
  by (simp add: same_queue_def option.rel_refl)

lemma same_queue_trans:
  assumes "same_queue a b" "same_queue b c"
  shows "same_queue a c"
proof -
  have "rel_option same_ring (ring_at a i) (ring_at c i)" for i
    using assms by (cases "ring_at a i"; cases "ring_at b i"; cases "ring_at c i")
      (auto simp: same_queue_def same_ring_def dest!: spec [of _ i])
  then show ?thesis using assms by (simp add: same_queue_def)
qed

lemma ring_at_update: "i < length rings \<Longrightarrow> ring_at (rings[i := x]) j = (if j = i then x else ring_at rings j)"
  by (auto simp: ring_at_def get_at_def)

lemma same_queue_update:
  "ring_at rings i = Some r \<Longrightarrow> send_abs r' = send_abs r \<Longrightarrow> sr_channel r' = sr_channel r \<Longrightarrow>
   same_queue rings (rings[i := Some r'])"
  using ring_at_update [of i rings "Some r'"] ring_at_set [of rings i r]
  by (auto simp: same_queue_def same_ring_def option.rel_refl split: if_splits)

lemma ring_at_map: "ring_at (map (map_option f) rings) i = map_option f (ring_at rings i)"
  by (simp add: ring_at_def get_at_def)

lemma same_queue_map: "(\<And>r. same_ring r (f r)) \<Longrightarrow> same_queue rings (map (map_option f) rings)"
  by (simp add: same_queue_def ring_at_map option.rel_map option.rel_refl)

definition queued :: "send_ring option list \<Rightarrow> data_pkt \<Rightarrow> bool" where
  "queued rings d \<longleftrightarrow> (\<exists>i r. ring_at rings i = Some r \<and> d_channel d = sr_channel r
     \<and> send_abs r (unat (d_seq d)) = Some (d_body d, d_last d))"

lemma same_queue_queued: "same_queue a b \<Longrightarrow> queued b d \<Longrightarrow> queued a d"
  using same_queue_at unfolding queued_def by metis

lemma try_consume_config: "pc_config (fst (try_consume p now n)) = pc_config p"
  by (simp add: try_consume_def refill_def Let_def split: option.split)

lemma charge_drain_fields [simp]:
  "se_tx_counter (charge_drain s i p now n) = se_tx_counter s" "se_send (charge_drain s i p now n) = se_send s"
  "length (se_drain_bytes (charge_drain s i p now n)) = length (se_drain_bytes s)"
  "pc_config (se_pacer (charge_drain s i p now n)) = pc_config (se_pacer s)"
  by (simp_all add: charge_drain_def Let_def try_consume_config)

lemma charge_drain_frame: "drain_frame s (charge_drain s i p now n)"
  by (simp add: drain_frame_def charge_drain_def Let_def)

lemma charge_drain_pacer: "pacer_inv (se_pacer s) \<Longrightarrow> pacer_inv (se_pacer (charge_drain s i p now n))"
  by (simp add: charge_drain_def Let_def try_consume_inv)

text \<open>What a drain, or one turn of it, has done when it stops.\<close>

definition drained :: "aead \<Rightarrow> session \<Rightarrow> session \<Rightarrow> bytes \<Rightarrow> nat result option \<Rightarrow> bool" where
  "drained A s s' out' res \<longleftrightarrow> drain_frame s s' \<and> session_inv s' \<and> same_queue (se_send s) (se_send s')
     \<and> unat (se_tx_counter s) \<le> unat (se_tx_counter s')
     \<and> (\<forall>n. res = Some (Inr n) \<longrightarrow> n \<le> length out' \<and> n \<le> se_path_datagram_size s
         \<and> (\<exists>d. emitted A s s' (take n out') (PData d) \<and> queued (se_send s) d
               \<and> n = ENVELOPE_LEN + HEADER_LEN + length (d_body d)))"

lemma drain_step_inv:
  assumes "session_inv s" "drain_frame s s'" "same_queue (se_send s) (se_send s')"
    "rings_fit (body_capacity_of (se_path_datagram_size s)) (se_send s')" "unat (se_tx_counter s') \<le> 2 ^ 63"
    "pacer_inv (se_pacer s')" "pc_config (se_pacer s') = pc_config (se_pacer s)" "length (se_drain_bytes s') = length (se_drain_bytes s)"
  shows "session_inv s'"
  using assms by (simp add: session_inv_defs drain_frame_fields same_queue_def)

lemma drained_idle: "session_inv s \<Longrightarrow> (\<And>n. res \<noteq> Some (Inr n)) \<Longrightarrow> drained A s s out' res"
  by (simp add: drained_def)

lemma drain_send_spec:
  assumes A: "aead_ok A" and inv: "session_inv s" and ring: "ring_at (se_send s) i = Some ring"
    and e: "drain_send A s now out i ring paced = oc"
  shows "case oc of Continue s' \<Rightarrow> drained A s s' out None \<and> se_tx_counter s' = se_tx_counter s
    | Return s' out' res \<Rightarrow> drained A s s' out' res"
proof (cases "get_from out ENVELOPE_LEN")
  case None
  then show ?thesis using e inv by (auto simp: drain_send_def drained_idle)
next
  case (Some body)
  then have lo: "ENVELOPE_LEN \<le> length out" and body: "body = drop ENVELOPE_LEN out" by (auto simp: get_from_def split: if_splits)
  obtain ring' body' polled where p: "poll_send ring now (se_srtt_ms s) (se_level s) body = (ring', body', polled)"
    by (cases "poll_send ring now (se_srtt_ms s) (se_level s) body") auto
  let ?B = "body_capacity_of (se_path_datagram_size s)"
  have rf: "rings_fit ?B (se_send s)" and len: "length (se_send s) = CHANNEL_COUNT" using inv by (simp_all add: session_inv_defs)
  have fits: "ring_fits ?B ring" using rf ring by (rule rings_fit_at)
  note rp = ring_fits_poll [OF fits p]
  define s1 where "s1 = s\<lparr>se_send := (se_send s)[i := Some ring']\<rparr>"
  have s1: "drain_frame s s1" "same_queue (se_send s) (se_send s1)" "rings_fit ?B (se_send s1)"
    "se_tx_counter s1 = se_tx_counter s" "se_pacer s1 = se_pacer s" "se_drain_bytes s1 = se_drain_bytes s"
    using same_queue_update [OF ring rp(2,3)] rings_fit_update [OF rf rp(1)] by (simp_all add: s1_def drain_frame_def)
  have inv1: "session_inv s1" by (rule drain_step_inv [OF inv s1(1-3)]) (use inv s1 in \<open>simp_all add: session_inv_defs\<close>)
  have d1: "drained A s s1 o' res" if "\<And>n. res \<noteq> Some (Inr n)" for o' res
    using that s1 inv1 by (simp add: drained_def)
  have oc: "oc = (case polled of None \<Rightarrow> Continue (next_position s1) | Some (Inl e) \<Rightarrow> Return s1 out (Some (Inl e))
      | Some (Inr written) \<Rightarrow> (case session_seal A s1 written (take ENVELOPE_LEN out @ body') of
           (s', Inl e) \<Rightarrow> Return s' out (Some (Inl e))
         | (s', Inr (out', len)) \<Rightarrow> Return (charge_drain s' i paced now len) out' (Some (Inr len))))"
    unfolding e [symmetric] drain_send_def Some option.case p prod.case Let_def s1_def [symmetric] by (rule refl)
  show ?thesis
  proof (cases polled)
    case None
    have "drain_frame s1 (next_position s1)" by (simp add: drain_frame_def next_position_def)
    moreover have "session_inv (next_position s1)" using inv1 by (simp add: session_inv_defs next_position_def)
    ultimately show ?thesis
      using oc None s1 drain_frame_trans [OF s1(1)] by (simp add: drained_def) (simp add: next_position_def s1)
  next
    case pol: (Some r)
    show ?thesis
    proof (cases r)
      case (Inl err)
      then show ?thesis using oc pol d1 by simp
    next
      case (Inr w)
      obtain s2 sres where sl: "session_seal A s1 w (take ENVELOPE_LEN out @ body') = (s2, sres)" by fastforce
      note sc = session_seal_cases [OF sl]
      have f2: "drain_frame s1 s2" by (subst sc(1)) (simp add: drain_frame_def)
      have same2: "se_send s2 = se_send s1" "se_pacer s2 = se_pacer s1" "se_drain_bytes s2 = se_drain_bytes s1"
        by (subst sc(1), simp)+
      have inv2: "session_inv s2"
        by (rule drain_step_inv [OF inv1 f2]) (use inv1 same2 sc(2) in \<open>simp_all add: session_inv_defs\<close>)
      have d2: "drain_frame s s2" using s1(1) f2 by (rule drain_frame_trans)
      show ?thesis
      proof (cases sres)
        case err: (Inl x)
        then show ?thesis using oc pol Inr sl d2 inv2 s1 same2 sc(3) by (simp add: drained_def)
      next
        case ok: (Inr om)
        obtain out' m where om: "om = (out', m)" by fastforce
        obtain c where c: "emits ring now (se_srtt_ms s) ring' body' w c"
          using poll_send_spec [of ring now "se_srtt_ms s" "se_level s" body ring' body' polled] p fits pol Inr
          by (auto simp: ring_fits_def)
        then obtain b l where b: "send_abs ring (unat c) = Some (b, l)" "w = HEADER_LEN + length b"
            "parse (take w body') = Inr (PData \<lparr>d_channel = sr_channel ring, d_seq = c, d_last = l, d_body = b\<rparr>)"
          unfolding emits_def by blast
        let ?d = "\<lparr>d_channel = sr_channel ring, d_seq = c, d_last = l, d_body = b\<rparr>"
        have "parse (take w (drop ENVELOPE_LEN (take ENVELOPE_LEN out @ body'))) = Inr (PData ?d)" using b lo by simp
        note em = session_seal_emitted [OF A sl [unfolded ok om] this]
        let ?s' = "charge_drain s2 i paced now m"
        have "emitted A s ?s' (take m out') (PData ?d)"
          using em(1) s1(1,4) by (simp add: emitted_def drain_frame_fields)
        moreover have "queued (se_send s) ?d" using ring b(1) by (auto simp: queued_def)
        moreover have "length b \<le> ?B" using fits b(1) by (auto simp: ring_fits_def)
        then have "m \<le> se_path_datagram_size s"
          using em(2) b(2) inv by (auto simp: body_capacity_of_def session_inv_def legal_datagram_def core_consts)
        moreover have f: "drain_frame s ?s'" using d2 charge_drain_frame by (rule drain_frame_trans)
        moreover have "session_inv ?s'"
          by (rule drain_step_inv [OF inv2 charge_drain_frame])
            (use inv2 drain_frame_fields(4) [OF d2] in \<open>simp_all add: session_inv_defs charge_drain_pacer\<close>)
        ultimately show ?thesis
          using oc pol Inr sl ok om em s1 same2 sc(3) b(2) by (auto simp: drained_def)
      qed
    qed
  qed
qed

lemma drain_step_spec:
  assumes A: "aead_ok A" and inv: "session_inv s" and e: "drain_step A s now out i = oc"
  shows "case oc of Continue s' \<Rightarrow> drained A s s' out None \<and> se_tx_counter s' = se_tx_counter s
    | Return s' out' res \<Rightarrow> drained A s s' out' res"
proof -
  have go: "drained A s (next_position s) out None \<and> se_tx_counter (next_position s) = se_tx_counter s"
  proof -
    have "session_inv (next_position s)" using inv by (simp add: session_inv_defs next_position_def)
    then show ?thesis by (simp add: drained_def) (simp add: drain_frame_def next_position_def)
  qed
  show ?thesis
  proof (cases "ring_at (se_send s) i")
    case None
    then show ?thesis using e go by (auto simp: drain_step_def)
  next
    case ring: (Some ring)
    consider "oc = Continue (next_position s)" | "oc = Return s out None"
      | paced where "drain_send A s now out i ring paced = oc"
      using e ring by (auto simp: drain_step_def Let_def split: option.splits if_splits)
    then show ?thesis
    proof cases
      case 3
      then show ?thesis by (rule drain_send_spec [OF A inv ring])
    qed (use go inv in \<open>simp_all add: drained_idle\<close>)
  qed
qed

lemma drained_trans:
  assumes "drained A s t o1 None" "se_tx_counter t = se_tx_counter s" "drained A t u out' res"
  shows "drained A s u out' res"
proof -
  have f: "drain_frame s t" "same_queue (se_send s) (se_send t)" using assms(1) by (auto simp: drained_def)
  have em: "emitted A t u dg pkt \<Longrightarrow> emitted A s u dg pkt" for dg pkt
    using assms(2) by (simp add: emitted_def drain_frame_fields [OF f(1)])
  have u: "drain_frame t u" "session_inv u" "same_queue (se_send t) (se_send u)" "unat (se_tx_counter t) \<le> unat (se_tx_counter u)"
    "\<And>n. res = Some (Inr n) \<Longrightarrow> n \<le> length out' \<and> n \<le> se_path_datagram_size s
       \<and> (\<exists>d. emitted A t u (take n out') (PData d) \<and> queued (se_send t) d \<and> n = ENVELOPE_LEN + HEADER_LEN + length (d_body d))"
    using assms(3) unfolding drained_def drain_frame_fields(4) [OF f(1)] by blast+
  show ?thesis
    using drain_frame_trans [OF f(1) u(1)] same_queue_trans [OF f(2) u(3)] u(2,4,5) assms(2) em same_queue_queued [OF f(2)]
    unfolding drained_def by metis
qed

lemma session_drain_spec:
  assumes "aead_ok A" "session_inv s" "session_drain A s now out = (s', out', res)"
  shows "drained A s s' out' res"
  using assms
proof (induction A s now out arbitrary: s' out' res rule: session_drain.induct)
  case (1 A s now out)
  show ?case
  proof (cases "CHANNEL_COUNT \<le> se_drain_channel s")
    case True
    then have r: "s' = s\<lparr>se_drain_started := False\<rparr>" "res = None" using "1.prems"(3) by (simp_all add: session_drain.simps)
    have "session_inv s'" using "1.prems"(2) r by (simp add: session_inv_defs)
    then show ?thesis using r by (simp add: drained_def) (simp add: drain_frame_def)
  next
    case False
    let ?i = "DRAIN_ORDER ! se_drain_channel s"
    have "se_drain_channel s < length DRAIN_ORDER" using False by (simp add: DRAIN_ORDER_def CHANNEL_COUNT_def)
    then have at: "get_at DRAIN_ORDER (se_drain_channel s) = Some ?i" by (simp add: get_at_def)
    note st = drain_step_spec [OF "1.prems"(1,2), of now out ?i]
    show ?thesis
    proof (cases "drain_step A s now out ?i")
      case (Continue t)
      have d: "drained A s t out None" "se_tx_counter t = se_tx_counter s" using st [OF Continue] by auto
      have "session_drain A t now out = (s', out', res)"
        using "1.prems"(3) False at Continue by (simp add: session_drain.simps [of A s])
      then have "drained A t s' out' res" using d "1.prems"(1) "1.IH"(2) [OF False at Continue] by (simp add: drained_def)
      then show ?thesis by (rule drained_trans [OF d])
    next
      case (Return t o2 r2)
      then show ?thesis using st [OF Return] "1.prems"(3) False at by (simp add: session_drain.simps [of A s])
    qed
  qed
qed

section \<open>Output\<close>

lemma start_pass_fields [simp]:
  "se_tx_counter (start_pass s) = se_tx_counter s" "se_envelope (start_pass s) = se_envelope s"
  "se_direction (start_pass s) = se_direction s" "se_path_datagram_size (start_pass s) = se_path_datagram_size s"
  "se_ack_due (start_pass s) = se_ack_due s" "se_pending_probe_ack (start_pass s) = se_pending_probe_ack s"
  "se_recv (start_pass s) = se_recv s" "se_ack_kind (start_pass s) = se_ack_kind s" "se_trigger (start_pass s) = se_trigger s"
  "se_last_progress_ms (start_pass s) = se_last_progress_ms s" "se_pacer (start_pass s) = se_pacer s"
  "se_srtt_ms (start_pass s) = se_srtt_ms s" "se_level (start_pass s) = se_level s"
  by (simp_all add: start_pass_def)

lemma session_ack_start_pass [simp]: "session_ack (start_pass s) = session_ack s"
  by (simp add: session_ack_def Let_def)

lemma start_pass_queue: "same_queue (se_send s) (se_send (start_pass s))"
proof -
  have "same_ring r (begin_pass r)" for r by (simp add: same_ring_def) (simp add: begin_pass_def)
  then show ?thesis by (simp add: start_pass_def same_queue_map)
qed

lemma start_pass_inv: "session_inv s \<Longrightarrow> session_inv (start_pass s)"
  using rings_fit_map [of _ "se_send s" _ begin_pass] ring_fits_begin
  by (auto simp: start_pass_def session_inv_defs)

lemma session_ack_encodes:
  assumes inv: "session_inv s" and e: "encode_ack body (session_ack s) = Inr (body', n)"
  shows "parse (take n body') = Inr (PAck (session_ack s))" "length body' = length body" "n = ACK_LEN"
proof -
  have c: "length (ak_cumulative (session_ack s)) = CHANNEL_COUNT" "ak_reported (session_ack s) = CHANNEL_COUNT"
      "ak_trigger_seq (session_ack s) \<noteq> U32_MAX"
    using inv by (auto simp: session_ack_def Let_def session_inv_defs U32_MAX_def)
  show "parse (take n body') = Inr (PAck (session_ack s))" using encode_ack_parse [OF e c] .
  show "length body' = length body" "n = ACK_LEN"
    using e length_ack_bytes [OF c(1)] by (auto simp: encode_ack_def split: if_splits)
qed

definition output_packet :: "session \<Rightarrow> packet \<Rightarrow> bool" where
  "output_packet s pkt \<longleftrightarrow>
     (if se_ack_due s then pkt = PAck (session_ack s)
      else case se_pending_probe_ack s of Some a \<Rightarrow> pkt = PProbeAck a
      | None \<Rightarrow> (\<exists>d. pkt = PData d \<and> queued (se_send s) d))"

definition output_ok :: "aead \<Rightarrow> session \<Rightarrow> session \<Rightarrow> bytes \<Rightarrow> nat result option \<Rightarrow> bool" where
  "output_ok A s s' out' res \<longleftrightarrow> session_inv s' \<and> se_envelope s' = se_envelope s \<and> se_direction s' = se_direction s
     \<and> se_path_datagram_size s' = se_path_datagram_size s \<and> same_queue (se_send s) (se_send s')
     \<and> unat (se_tx_counter s) \<le> unat (se_tx_counter s')
     \<and> (\<forall>n. res = Some (Inr n) \<longrightarrow> n \<le> length out' \<and> n \<le> se_path_datagram_size s
         \<and> (\<exists>pkt. emitted A s s' (take n out') pkt \<and> output_packet s pkt))"

lemma session_inv_tx: "session_inv s \<Longrightarrow> unat c \<le> 2 ^ 63 \<Longrightarrow> session_inv (s\<lparr>se_tx_counter := c\<rparr>)"
  by (simp add: session_inv_defs)

text \<open>The two feedback branches share their shape: an emission, then fields that only schedule feedback.\<close>

lemma feedback_output:
  assumes A: "aead_ok A" and inv: "session_inv s" and e: "emit A (start_pass s) out enc = (s1, r1)"
    and enc: "\<forall>body body' n. enc body = Inr (body', n) \<longrightarrow> parse (take n body') = Inr pkt \<and> length body' = length body"
    and sz: "\<forall>body body' n. enc body = Inr (body', n) \<longrightarrow> n + ENVELOPE_LEN \<le> DEFAULT_DATAGRAM"
    and pkt: "output_packet s pkt"
    and res: "case r1 of Inl err \<Rightarrow> s' = s1 \<and> res = Some (Inl err)
      | Inr (o1, n) \<Rightarrow> out' = o1 \<and> res = Some (Inr n) \<and> (\<exists>ad t pa. s' = s1\<lparr>se_ack_due := ad, se_last_ack_sent_ms := t,
          se_pending_probe_ack := pa\<rparr> \<and> (pa = None \<or> pa = se_pending_probe_ack s))"
  shows "output_ok A s s' out' res"
proof -
  note inv0 = start_pass_inv [OF inv]
  note ec = emit_cases [OF A e enc]
  have tx: "unat (se_tx_counter s1) \<le> 2 ^ 63" using ec(2) inv by (simp add: session_inv_def)
  have inv1: "session_inv s1" by (subst ec(1)) (rule session_inv_tx [OF inv0 tx])
  have fld: "se_envelope s1 = se_envelope s" "se_direction s1 = se_direction s" "se_send s1 = se_send (start_pass s)"
    "se_path_datagram_size s1 = se_path_datagram_size s" "se_pending_probe_ack s1 = se_pending_probe_ack s"
    by (subst ec(1), simp)+
  show ?thesis
  proof (cases r1)
    case (Inl err)
    then show ?thesis using res inv1 fld ec(3) start_pass_queue [of s] by (simp add: output_ok_def)
  next
    case (Inr om)
    obtain o1 n where om: "om = (o1, n)" by fastforce
    obtain ad t pa where r: "s' = s1\<lparr>se_ack_due := ad, se_last_ack_sent_ms := t, se_pending_probe_ack := pa\<rparr>"
        "res = Some (Inr n)" "out' = o1" and pa: "pa = None \<or> pa = se_pending_probe_ack s"
      using res Inr om by auto
    from ec(4) [of o1 n] Inr om have em: "emitted A (start_pass s) s1 (take n o1) pkt" "n \<le> length o1"
      and "n \<le> DEFAULT_DATAGRAM" using sz by auto
    then have "n \<le> se_path_datagram_size s" using inv by (auto simp: session_inv_def legal_datagram_def)
    moreover have "emitted A s s' (take n o1) pkt" using em(1) r by (simp add: emitted_def)
    moreover have "session_inv s'" using inv1 r pa fld(5) by (auto simp: session_inv_defs)
    ultimately show ?thesis using r em(2) fld ec(3) pkt start_pass_queue [of s] by (auto simp: output_ok_def)
  qed
qed

lemma get_output_ack:
  assumes A: "aead_ok A" and inv: "session_inv s" and ad: "se_ack_due s" and g: "get_output A s now out = (s', out', res)"
  shows "output_ok A s s' out' res"
proof -
  obtain s1 r1 where e: "emit_ack A (start_pass s) out = (s1, r1)" by fastforce
  have fld: "se_pending_probe_ack s1 = se_pending_probe_ack s"
    using e by (auto simp: emit_ack_def emit_def session_seal_def Let_def split: option.splits sum.splits if_splits)
  show ?thesis
  proof (rule feedback_output [OF A inv e [unfolded emit_ack_def]])
    show "output_packet s (PAck (session_ack s))" using ad by (simp add: output_packet_def)
    show "case r1 of Inl err \<Rightarrow> s' = s1 \<and> res = Some (Inl err)
      | Inr (o1, n) \<Rightarrow> out' = o1 \<and> res = Some (Inr n) \<and> (\<exists>ad t pa. s' = s1\<lparr>se_ack_due := ad, se_last_ack_sent_ms := t,
          se_pending_probe_ack := pa\<rparr> \<and> (pa = None \<or> pa = se_pending_probe_ack s))"
      using g e ad fld
      by (auto simp: get_output_def split: sum.splits intro!: exI [of _ False] exI [of _ now] exI [of _ "se_pending_probe_ack s1"])
  next
    have "n + ENVELOPE_LEN \<le> DEFAULT_DATAGRAM" if "encode_ack body (session_ack s) = Inr (body', n)" for body body' n
      using session_ack_encodes(3) [OF inv that] by (simp add: core_consts ACK_LEN_def)
    then show "\<forall>body body' n. encode_ack body (session_ack (start_pass s)) = Inr (body', n) \<longrightarrow> n + ENVELOPE_LEN \<le> DEFAULT_DATAGRAM"
      by simp
  qed (use session_ack_encodes [OF inv] in auto)
qed

lemma get_output_probe_ack:
  assumes A: "aead_ok A" and inv: "session_inv s" and ad: "\<not> se_ack_due s" "se_pending_probe_ack s = Some a"
    and g: "get_output A s now out = (s', out', res)"
  shows "output_ok A s s' out' res"
proof -
  obtain s1 r1 where e: "emit_probe_ack A (start_pass s) a out = (s1, r1)" by fastforce
  show ?thesis
  proof (rule feedback_output [OF A inv e [unfolded emit_probe_ack_def]])
    show "output_packet s (PProbeAck a)" using ad by (simp add: output_packet_def)
    show "case r1 of Inl err \<Rightarrow> s' = s1 \<and> res = Some (Inl err)
      | Inr (o1, n) \<Rightarrow> out' = o1 \<and> res = Some (Inr n) \<and> (\<exists>ad t pa. s' = s1\<lparr>se_ack_due := ad, se_last_ack_sent_ms := t,
          se_pending_probe_ack := pa\<rparr> \<and> (pa = None \<or> pa = se_pending_probe_ack s))"
      using g e ad
      by (auto simp: get_output_def split: sum.splits
          intro!: exI [of _ "se_ack_due s1"] exI [of _ "se_last_ack_sent_ms s1"] exI [of _ None])
  qed (use encode_probe_ack_parse in \<open>auto simp: encode_probe_ack_Inr length_probe_ack_bytes core_consts\<close>)
qed

lemma get_output_spec:
  assumes A: "aead_ok A" and inv: "session_inv s" and g: "get_output A s now out = (s', out', res)"
  shows "output_ok A s s' out' res"
proof (cases "se_ack_due s \<or> se_pending_probe_ack s \<noteq> None")
  case True
  then show ?thesis using get_output_ack [OF A inv _ g] get_output_probe_ack [OF A inv _ _ g] by blast
next
  case False
  then have "session_drain A (start_pass s) now out = (s', out', res)" using g by (simp add: get_output_def)
  note d = session_drain_spec [OF A start_pass_inv [OF inv] this, unfolded drained_def]
  have f: "drain_frame (start_pass s) s'" using d by blast
  have em: "\<exists>pkt. emitted A s s' (take n out') pkt \<and> output_packet s pkt" "n \<le> length out'" "n \<le> se_path_datagram_size s"
    if "res = Some (Inr n)" for n
  proof -
    have "\<exists>x. emitted A (start_pass s) s' (take n out') (PData x) \<and> queued (se_send (start_pass s)) x" "n \<le> length out'"
        "n \<le> se_path_datagram_size s"
      using d that by auto
    moreover have "emitted A (start_pass s) s' dg pkt \<Longrightarrow> emitted A s s' dg pkt" for dg pkt by (simp add: emitted_def)
    moreover have "queued (se_send (start_pass s)) x \<Longrightarrow> output_packet s (PData x)" for x
      using False same_queue_queued [OF start_pass_queue] by (auto simp: output_packet_def)
    ultimately show "\<exists>pkt. emitted A s s' (take n out') pkt \<and> output_packet s pkt" "n \<le> length out'" "n \<le> se_path_datagram_size s"
      by blast+
  qed
  show ?thesis
    using d em drain_frame_fields(1,2,4) [OF f] same_queue_trans [OF start_pass_queue] by (auto simp: output_ok_def)
qed

section \<open>The other operations\<close>

lemma ack_rings_fit:
  "ack_rings rings ack now sample = (rings', res) \<Longrightarrow> rings_fit body rings \<Longrightarrow>
   rings_fit body rings' \<and> length rings' = length rings"
proof (induction rings ack now sample arbitrary: rings' res rule: ack_rings.induct)
  case (2 rings ack now sample)
  then show ?case by (auto simp: rings_fit_def split: prod.splits)
next
  case (3 ring rings ack now sample)
  obtain ring' taken where a: "on_ack ring ack now = (ring', taken)" by fastforce
  have "ring_fits body ring'" using ring_fits_ack [OF _ a] 3(3) by (simp add: rings_fit_def)
  then show ?case
    using 3(1) [OF a [symmetric]] 3(2,3) a by (auto simp: rings_fit_def split: prod.splits)
qed (simp add: rings_fit_def)

lemma observe_rtt_inv: "session_inv s \<Longrightarrow> session_inv (observe_rtt s x)"
  by (simp add: observe_rtt_def session_inv_defs)

lemma handle_data_inv:
  assumes "session_inv s" "wf_data d" "handle_data s d = (s', res)"
  shows "session_inv s'"
  using assms by (auto simp: handle_data_def Let_def session_inv_defs wf_data_def split: option.splits)

lemma handle_ack_inv:
  assumes "session_inv s" "handle_ack s ack now = (s', res)"
  shows "session_inv s'"
proof -
  obtain rings sample where a: "ack_rings (se_send s) ack now None = (rings, sample)" by fastforce
  have "session_inv (s\<lparr>se_send := rings\<rparr>)" using assms(1) ack_rings_fit [OF a, of "body_capacity_of (se_path_datagram_size s)"] by (auto simp: session_inv_defs)
  then show ?thesis using assms(2) a observe_rtt_inv by (auto simp: handle_ack_def Let_def split: option.splits)
qed

lemma dispatch_packet_inv:
  assumes inv: "session_inv s" and wf: "wf_packet pkt" and e: "dispatch_packet s pkt len now = (s', res)"
  shows "session_inv s'"
proof (cases pkt)
  case (PData d)
  then show ?thesis using e wf handle_data_inv [OF inv] by (simp add: dispatch_packet_def)
next
  case (PAck a)
  then show ?thesis using e handle_ack_inv [OF inv] by (simp add: dispatch_packet_def)
next
  case (PProbe p)
  then show ?thesis
    using e wf inv by (auto simp: dispatch_packet_def handle_probe_def session_inv_defs wf_probe_def wf_probe_ack_def split: if_splits)
next
  case (PProbeAck a)
  then show ?thesis using e inv by (simp add: dispatch_packet_def)
qed

lemma process_input_inv:
  assumes "session_inv s" "process_input A s dg now scratch = (s', res)"
  shows "session_inv s'"
proof -
  have "session_inv (s\<lparr>se_last_progress_ms := now\<rparr>)" using assms(1) by (simp add: session_inv_defs)
  then show ?thesis
    using assms parse_wf dispatch_packet_inv [of "s\<lparr>se_last_progress_ms := now\<rparr>"]
    by (auto simp: process_input_def split: if_splits sum.splits) blast
qed

lemma tick_config: "session_inv s \<Longrightarrow> session_inv (s\<lparr>se_controller := c\<rparr>)"
  by (simp add: session_inv_defs)

lemma session_poll_inv: "session_inv s \<Longrightarrow> session_inv (session_poll s now)"
proof -
  assume inv: "session_inv s"
  have a: "session_inv (poll_ack (s\<lparr>se_drain_started := False\<rparr>) now)" using inv by (auto simp: poll_ack_def session_inv_defs)
  have b: "session_inv (poll_delivery t now)" if "session_inv t" for t
    using that by (simp add: poll_delivery_def session_inv_defs)
  have c: "session_inv (poll_sample t now)" if "session_inv t" for t
    using that by (simp add: poll_sample_def Let_def session_inv_defs)
  have d: "session_inv (poll_controller t)" if "session_inv t" for t
    using that by (auto simp: poll_controller_def tick_config split: option.splits)
  show ?thesis unfolding session_poll_def by (intro d c b a)
qed

lemma set_rate_config: "pc_config (set_rate p now rate) = pc_config p"
  by (simp add: set_rate_def refill_def Let_def split: option.split)

lemma set_datagram_size_config: "pc_config (fst (set_datagram_size p n)) = pc_config p"
  by (simp add: set_datagram_size_def Let_def)

lemma set_datagram_size_legal:
  "pc_config p = compatibility_default \<Longrightarrow> legal_datagram n \<Longrightarrow> snd (set_datagram_size p n)"
  by (simp add: set_datagram_size_def compatibility_default_def legal_datagram_def core_consts Let_def)

lemma pacer_ops_inv:
  assumes "session_inv s"
  shows "session_inv (set_pacing_rate_mbps s now rate)" "session_inv (fst (set_pacing_datagram_size s n))"
  using assms set_rate_inv [of "se_pacer s" now rate] set_datagram_size_inv [of "se_pacer s" n]
  by (auto simp: session_inv_defs set_pacing_rate_mbps_def set_pacing_datagram_size_def set_rate_config
      set_datagram_size_config split: prod.splits)
    (metis fst_conv set_datagram_size_config)+

lemma resize_rings_fit:
  assumes "\<And>r. Some r \<in> set rings \<Longrightarrow> send_inv r \<and> can_set_fragment_capacity r body"
  shows "rings_fit body (resize_rings rings body)"
  using assms ring_fits_resize unfolding rings_fit_def resize_rings_def by (auto simp: eq_commute [of "Some _"])

lemma session_inv_resized:
  assumes "session_inv s" "legal_datagram n" "rings_fit (body_capacity_of n) rings" "length rings = CHANNEL_COUNT"
  shows "session_inv (s\<lparr>se_pacer := fst (set_datagram_size (se_pacer s) n), se_send := rings, se_path_datagram_size := n\<rparr>)"
  using assms set_datagram_size_inv [of "se_pacer s" n] set_datagram_size_config [of "se_pacer s" n] by (simp add: session_inv_defs)

text \<open>A path transition is refused with no change, or applied to every part at once.\<close>

lemma set_path_cases:
  assumes inv: "session_inv s"
  shows "if legal_datagram n \<and> (\<forall>r. Some r \<in> set (se_send s) \<longrightarrow> can_set_fragment_capacity r (body_capacity_of n))
    then set_path_datagram_size s n = (s\<lparr>se_pacer := fst (set_datagram_size (se_pacer s) n),
      se_send := resize_rings (se_send s) (body_capacity_of n), se_path_datagram_size := n\<rparr>, True)
    else set_path_datagram_size s n = (s, False)"
proof (cases "legal_datagram n")
  case True
  obtain p ok where p: "set_datagram_size (se_pacer s) n = (p, ok)" by fastforce
  have ok: "ok" using set_datagram_size_legal [OF _ True, of "se_pacer s"] inv p by (simp add: session_inv_def)
  have ex: "list_ex (\<lambda>slot. case slot of None \<Rightarrow> False | Some ring \<Rightarrow> \<not> can_set_fragment_capacity ring body) rings
      \<longleftrightarrow> \<not> (\<forall>r. Some r \<in> set rings \<longrightarrow> can_set_fragment_capacity r body)" for body rings
    by (induction rings) (auto split: option.splits)
  show ?thesis using True p ok by (simp add: set_path_datagram_size_def Let_def ex del: not_all)
qed (simp add: set_path_datagram_size_def)

lemma set_path_inv: "session_inv s \<Longrightarrow> session_inv (fst (set_path_datagram_size s n))"
proof -
  assume inv: "session_inv s"
  have "rings_fit (body_capacity_of n) (resize_rings (se_send s) (body_capacity_of n))"
    if "\<forall>r. Some r \<in> set (se_send s) \<longrightarrow> can_set_fragment_capacity r (body_capacity_of n)"
    using inv that by (intro resize_rings_fit) (auto simp: session_inv_def rings_fit_def ring_fits_def)
  then show ?thesis
    using set_path_cases [OF inv, of n] inv session_inv_resized [OF inv, of n "resize_rings (se_send s) (body_capacity_of n)"]
    by (auto simp: session_inv_defs resize_rings_def split: if_splits)
qed

lemma can_set_discarded:
  "send_inv r \<Longrightarrow> 0 < cap \<Longrightarrow> cap \<le> 65535 \<Longrightarrow> cap \<le> sr_slot_len r \<Longrightarrow> can_set_fragment_capacity (fst (discard_pending r)) cap"
  by (simp add: can_set_fragment_capacity_def discard_pending_def list_all_iff send_slot_default_def)

definition recovered_rings :: "send_ring option list \<Rightarrow> send_ring option list" where
  "recovered_rings rings = (case ring_at rings VIDEO_CHANNEL of None \<Rightarrow> rings
     | Some ring \<Rightarrow> rings[VIDEO_CHANNEL := Some (fst (discard_pending ring))])"

lemma recover_cases:
  assumes inv: "session_inv s"
  shows "if can_recover_video_path_datagram_size s n
    then recover_video_path_datagram_size s n = (s\<lparr>se_pacer := fst (set_datagram_size (se_pacer s) n),
        se_send := resize_rings (recovered_rings (se_send s)) (body_capacity_of n), se_path_datagram_size := n\<rparr>,
        Some (case ring_at (se_send s) VIDEO_CHANNEL of None \<Rightarrow> 0 | Some ring \<Rightarrow> send_in_flight ring))
    else recover_video_path_datagram_size s n = (s, None)"
proof (cases "can_recover_video_path_datagram_size s n")
  case True
  then have lg: "legal_datagram n" by (simp add: can_recover_video_path_datagram_size_def split: if_splits)
  obtain p ok where p: "set_datagram_size (se_pacer s) n = (p, ok)" by fastforce
  have ok: "ok" using set_datagram_size_legal [OF _ lg, of "se_pacer s"] inv p by (simp add: session_inv_def)
  show ?thesis
    using True p ok
    by (simp add: recover_video_path_datagram_size_def recovered_rings_def discard_pending_def split: option.split)
qed (simp add: recover_video_path_datagram_size_def)

lemma can_recover_rings:
  assumes inv: "session_inv s" and c: "can_recover_video_path_datagram_size s n" and r: "Some r \<in> set (recovered_rings (se_send s))"
  shows "send_inv r \<and> can_set_fragment_capacity r (body_capacity_of n)"
proof -
  let ?B = "body_capacity_of n"
  have lg: "legal_datagram n"
    and la: "list_all (\<lambda>(i, slot). case slot of None \<Rightarrow> True | Some ring \<Rightarrow> if i = VIDEO_CHANNEL then ?B \<le> sr_slot_len ring
      else can_set_fragment_capacity ring ?B) (enumerate 0 (se_send s))"
    using c unfolding can_recover_video_path_datagram_size_def Let_def by (presburger, presburger)
  have all: "if i = VIDEO_CHANNEL then ?B \<le> sr_slot_len ring else can_set_fragment_capacity ring ?B"
    if "i < length (se_send s)" "se_send s ! i = Some ring" for i ring
  proof -
    have "(i, Some ring) \<in> set (enumerate 0 (se_send s))" using that by (simp add: in_set_enumerate_eq)
    then show ?thesis using la unfolding list_all_iff by fastforce
  qed
  have si: "send_inv ring" if "Some ring \<in> set (se_send s)" for ring
    using inv that by (auto simp: session_inv_def rings_fit_def ring_fits_def)
  obtain i where i: "i < length (recovered_rings (se_send s))" "recovered_rings (se_send s) ! i = Some r"
    using r by (auto simp: in_set_conv_nth)
  have B: "0 < ?B" "?B \<le> 65535" using lg by (auto simp: body_capacity_of_def legal_datagram_def core_consts)
  show ?thesis
  proof (cases "i = VIDEO_CHANNEL \<and> ring_at (se_send s) VIDEO_CHANNEL \<noteq> None")
    case True
    then obtain v where v: "ring_at (se_send s) VIDEO_CHANNEL = Some v" by auto
    note vs = ring_at_set [OF v]
    then have "r = fst (discard_pending v)" using i True v by (auto simp: recovered_rings_def)
    then show ?thesis using all [of VIDEO_CHANNEL v] vs si [of v] B can_set_discarded [of v ?B] discard_inv [of v] by auto
  next
    case False
    then have "se_send s ! i = Some r" "i < length (se_send s)" "i \<noteq> VIDEO_CHANNEL"
      using i by (auto simp: recovered_rings_def ring_at_def get_at_def split: option.splits if_splits)
    then show ?thesis using all [of i r] si [of r] nth_mem by force
  qed
qed

lemma recover_inv: "session_inv s \<Longrightarrow> session_inv (fst (recover_video_path_datagram_size s n))"
proof (cases "can_recover_video_path_datagram_size s n")
  case True
  assume inv: "session_inv s"
  have lg: "legal_datagram n" using True by (simp add: can_recover_video_path_datagram_size_def split: if_splits)
  have f: "rings_fit (body_capacity_of n) (resize_rings (recovered_rings (se_send s)) (body_capacity_of n))"
    using can_recover_rings [OF inv True] by (rule resize_rings_fit)
  have "length (resize_rings (recovered_rings (se_send s)) (body_capacity_of n)) = CHANNEL_COUNT"
    using inv by (simp add: resize_rings_def recovered_rings_def session_inv_defs split: option.split)
  then show ?thesis using recover_cases [OF inv, of n] True session_inv_resized [OF inv lg f] by simp
qed (simp add: recover_video_path_datagram_size_def)

end
