(* ===== verification/Session_Delivery.thy ===== *)
theory Session_Delivery
  imports Session_Inv
begin

text \<open>
  What a session promises: no nonce is ever used twice, by either end; reflected records are refused
  and a refused datagram changes nothing; what one end emits the other end dispatches; datagrams never
  exceed the path size; path transitions are atomic; paced video never overdraws; a keepalive always leaves.
\<close>

section \<open>The session as a transition system\<close>

definition sent_datagram :: "bytes \<Rightarrow> nat result option \<Rightarrow> bytes list" where
  "sent_datagram out res = (case res of Some (Inr n) \<Rightarrow> [take n out] | _ \<Rightarrow> [])"

text \<open>The step relation, labelled with the datagrams a step puts on the wire.\<close>

inductive session_step :: "aead \<Rightarrow> session \<Rightarrow> bytes list \<Rightarrow> session \<Rightarrow> bool" for A :: aead where
  st_attach_recv: "attach_recv s ch rr = (s', r) \<Longrightarrow> session_step A s [] s'"
| st_attach_send: "send_fresh sr \<Longrightarrow> attach_send s ch sr = (s', r) \<Longrightarrow> session_step A s [] s'"
| st_rate: "session_step A s [] (set_pacing_rate_mbps s now rate)"
| st_pacing: "session_step A s [] (fst (set_pacing_datagram_size s n))"
| st_path: "session_step A s [] (fst (set_path_datagram_size s n))"
| st_recover: "session_step A s [] (fst (recover_video_path_datagram_size s n))"
| st_mtu: "session_step A s [] (fst (apply_path_mtu s m))"
| st_watchdog: "session_step A s [] (reset_delivery_watchdog s now)"
| st_reset: "session_step A s [] (fst (reset_recv s ch sq))"
| st_message: "(\<And>ring m. ring_at (se_send s) (unat ch) = Some ring \<Longrightarrow> message_new h p = Inr m \<Longrightarrow>
      unat (sr_next ring) + message_fragment_count m (sr_fragment_capacity ring) < 4294967296) \<Longrightarrow>
    session_step A s [] (fst (send_message s ch h p))"
| st_take: "session_step A s [] (fst (session_take_message s ch out))"
| st_escape: "session_step A s [] (fst (session_escape_stall s ch f))"
| st_input: "process_input A s dg now scratch = (s', r) \<Longrightarrow> session_step A s [] s'"
| st_poll: "session_step A s [] (session_poll s now)"
| st_probe: "emit_path_probe A s probe out = (s', r) \<Longrightarrow>
    session_step A s (case r of Inr (out', n) \<Rightarrow> [take n out'] | Inl e \<Rightarrow> []) s'"
| st_output: "get_output A s now out = (s', out', r) \<Longrightarrow> session_step A s (sent_datagram out' r) s'"

definition session_start :: "session \<Rightarrow> bool" where
  "session_start s \<longleftrightarrow> (\<exists>env dir lvl now. s = session_with_direction env dir lvl now)"

definition session_move :: "session \<Rightarrow> session \<Rightarrow> bool" where
  "session_move s s' \<longleftrightarrow> (\<exists>A ds. aead_ok A \<and> session_step A s ds s')"

text \<open>Steps keep the envelope and the direction; a step that emits uses up the next counter.\<close>

definition step_ok :: "aead \<Rightarrow> session \<Rightarrow> bytes list \<Rightarrow> session \<Rightarrow> bool" where
  "step_ok A s ds s' \<longleftrightarrow> session_inv s' \<and> se_envelope s' = se_envelope s \<and> se_direction s' = se_direction s
     \<and> unat (se_tx_counter s) \<le> unat (se_tx_counter s')
     \<and> (ds = [] \<or> (\<exists>dg pkt. ds = [dg] \<and> emitted A s s' dg pkt))"

lemma quiet_step:
  "session_inv s' \<Longrightarrow> se_envelope s' = se_envelope s \<Longrightarrow> se_direction s' = se_direction s \<Longrightarrow>
   se_tx_counter s' = se_tx_counter s \<Longrightarrow> step_ok A s [] s'"
  by (simp add: step_ok_def)

lemma recv_table_inv: "session_inv s \<Longrightarrow> length rings = length (se_recv s) \<Longrightarrow> session_inv (s\<lparr>se_recv := rings\<rparr>)"
  by (simp add: session_inv_defs)

lemma attach_send_inv:
  assumes inv: "session_inv s" and fr: "send_fresh ring" and e: "attach_send s ch ring = (s', r)"
  shows "session_inv s' \<and> se_envelope s' = se_envelope s \<and> se_direction s' = se_direction s \<and> se_tx_counter s' = se_tx_counter s"
proof -
  let ?B = "body_capacity_of (se_path_datagram_size s)"
  obtain ring' fits where q: "(if ?B < sr_fragment_capacity ring then set_fragment_capacity ring ?B else (ring, True)) = (ring', fits)"
    by fastforce
  have "ring_fits ?B ring'" if fits
  proof (cases "?B < sr_fragment_capacity ring")
    case True
    then have "can_set_fragment_capacity ring ?B" "ring' = fst (set_fragment_capacity ring ?B)"
      using q that by (auto simp: set_fragment_capacity_def split: if_splits)
    then show ?thesis using ring_fits_resize [OF send_fresh_inv [OF fr]] by simp
  next
    case False
    then show ?thesis using q ring_fits_fresh [OF fr] by simp
  qed
  then have "session_inv (s\<lparr>se_send := (se_send s)[unat ch := Some ring']\<rparr>)" if fits
    using inv that rings_fit_update [of ?B "se_send s" ring' "unat ch"] by (simp add: session_inv_defs)
  then show ?thesis using e q inv by (auto simp: attach_send_def Let_def split: if_splits prod.splits)
qed

lemma send_message_inv:
  assumes inv: "session_inv s"
    and nw: "\<And>ring m. ring_at (se_send s) (unat ch) = Some ring \<Longrightarrow> message_new h p = Inr m \<Longrightarrow>
      unat (sr_next ring) + message_fragment_count m (sr_fragment_capacity ring) < 4294967296"
    and e: "send_message s ch h p = (s', r)"
  shows "session_inv s' \<and> se_envelope s' = se_envelope s \<and> se_direction s' = se_direction s \<and> se_tx_counter s' = se_tx_counter s"
proof (cases "ring_at (se_send s) (unat ch)")
  case None
  then show ?thesis using e inv by (simp add: send_message_def)
next
  case (Some ring)
  show ?thesis
  proof (cases "message_new h p")
    case (Inl err)
    then show ?thesis using e inv Some by (simp add: send_message_def)
  next
    case (Inr m)
    obtain ring' q where q: "send_enqueue ring m = (ring', q)" by fastforce
    let ?B = "body_capacity_of (se_path_datagram_size s)"
    have rf: "rings_fit ?B (se_send s)" using inv by (simp add: session_inv_def)
    have "ring_fits ?B ring'"
      using ring_fits_enqueue [OF rings_fit_at [OF rf Some] _ q] nw [OF Some Inr] message_new_wf [OF Inr] by simp
    then have "session_inv (s\<lparr>se_send := (se_send s)[unat ch := Some ring']\<rparr>)"
      using inv rings_fit_update [OF rf] by (simp add: session_inv_defs)
    then show ?thesis using e Some Inr q by (auto simp: send_message_def)
  qed
qed

lemma emit_path_probe_cases:
  assumes A: "aead_ok A" and inv: "session_inv s" and e: "emit_path_probe A s probe out = (s', r)"
  shows "step_ok A s (case r of Inr (out', n) \<Rightarrow> [take n out'] | Inl e \<Rightarrow> []) s'"
    and "\<And>out' n. r = Inr (out', n) \<Longrightarrow> n = pb_size probe \<and> n \<le> length out'
      \<and> emitted A s s' (take n out') (PProbe \<lparr>pr_id = pb_id probe, pr_size = pb_size probe\<rparr>)"
    and "se_path_datagram_size s' = se_path_datagram_size s"
proof -
  let ?p = "\<lparr>pr_id = pb_id probe, pr_size = pb_size probe\<rparr>"
  have enc: "\<forall>body body' n. encode_probe body ?p = Inr (body', n) \<longrightarrow> parse (take n body') = Inr (PProbe ?p) \<and> length body' = length body"
    using encode_probe_parse [of _ ?p] length_probe_bytes [of ?p] unfolding encode_probe_Inr by auto
  note ec = emit_cases [OF A e [unfolded emit_path_probe_def] enc]
  have tx: "unat (se_tx_counter s') \<le> 2 ^ 63" using ec(2) inv by (simp add: session_inv_def)
  have "session_inv s'" "se_envelope s' = se_envelope s" "se_direction s' = se_direction s"
    and path: "se_path_datagram_size s' = se_path_datagram_size s"
    by (subst ec(1), use session_inv_tx [OF inv tx] in simp)+
  then show "step_ok A s (case r of Inr (out', n) \<Rightarrow> [take n out'] | Inl e \<Rightarrow> []) s'"
    using ec(3,4) by (auto simp: step_ok_def split: sum.splits)
  show "n = pb_size probe \<and> n \<le> length out' \<and> emitted A s s' (take n out') (PProbe ?p)" if "r = Inr (out', n)" for out' n
    using ec(4) [OF that] by (auto simp: encode_probe_Inr wf_probe_def legal_datagram_def core_consts)
  show "se_path_datagram_size s' = se_path_datagram_size s" by (rule path)
qed

lemma poll_stages [simp]:
  "se_envelope (poll_ack s now) = se_envelope s" "se_direction (poll_ack s now) = se_direction s"
  "se_tx_counter (poll_ack s now) = se_tx_counter s"
  "se_envelope (poll_delivery s now) = se_envelope s" "se_direction (poll_delivery s now) = se_direction s"
  "se_tx_counter (poll_delivery s now) = se_tx_counter s" "se_ack_due (poll_delivery s now) = se_ack_due s"
  "se_envelope (poll_sample s now) = se_envelope s" "se_direction (poll_sample s now) = se_direction s"
  "se_tx_counter (poll_sample s now) = se_tx_counter s" "se_ack_due (poll_sample s now) = se_ack_due s"
  "se_envelope (poll_controller s) = se_envelope s" "se_direction (poll_controller s) = se_direction s"
  "se_tx_counter (poll_controller s) = se_tx_counter s" "se_ack_due (poll_controller s) = se_ack_due s"
  "se_path_datagram_size (poll_ack s now) = se_path_datagram_size s"
  "se_path_datagram_size (poll_delivery s now) = se_path_datagram_size s"
  "se_path_datagram_size (poll_sample s now) = se_path_datagram_size s"
  "se_path_datagram_size (poll_controller s) = se_path_datagram_size s"
  by (simp_all add: poll_ack_def poll_delivery_def poll_sample_def poll_controller_def Let_def split: option.split)

lemma session_poll_frame [simp]:
  "se_envelope (session_poll s now) = se_envelope s" "se_direction (session_poll s now) = se_direction s"
  "se_tx_counter (session_poll s now) = se_tx_counter s"
  "se_path_datagram_size (session_poll s now) = se_path_datagram_size s"
  by (simp_all add: session_poll_def)

lemma process_input_cases:
  assumes e: "process_input A s dg now scratch = (s', r)"
  obtains "s' = s" "\<exists>e. r = Inl e"
  | opn pkt where "envelope_open A (se_envelope s) dg scratch = Inr opn" "parse (op_cleartext opn) = Inr pkt"
      "dispatch_packet (s\<lparr>se_last_progress_ms := now\<rparr>) pkt (length dg) now = (s', r)"
proof (cases "from_datagram dg = Some (opposite (se_direction s))")
  case False
  then show ?thesis using e that(1) by (auto simp: process_input_def)
next
  case dir: True
  show ?thesis
  proof (cases "envelope_open A (se_envelope s) dg scratch")
    case (Inl x)
    then show ?thesis using e dir that(1) by (auto simp: process_input_def)
  next
    case opn: (Inr opn)
    show ?thesis
    proof (cases "parse (op_cleartext opn)")
      case (Inl x)
      then show ?thesis using e dir opn that(1) by (auto simp: process_input_def)
    next
      case (Inr pkt)
      then show ?thesis using e dir opn that(2) [OF opn Inr] by (simp add: process_input_def)
    qed
  qed
qed

lemma dispatch_packet_frame:
  assumes "dispatch_packet s pkt len now = (s', r)"
  shows "se_envelope s' = se_envelope s \<and> se_direction s' = se_direction s \<and> se_tx_counter s' = se_tx_counter s
    \<and> se_path_datagram_size s' = se_path_datagram_size s"
proof (cases pkt)
  case (PData d)
  then show ?thesis
    using assms by (cases "ring_at (se_recv s) (unat (d_channel d))") (auto simp: dispatch_packet_def handle_data_def Let_def)
next
  case (PAck a)
  have o: "se_envelope (observe_rtt t x) = se_envelope t \<and> se_direction (observe_rtt t x) = se_direction t
      \<and> se_tx_counter (observe_rtt t x) = se_tx_counter t \<and> se_path_datagram_size (observe_rtt t x) = se_path_datagram_size t"
    for t x by (simp add: observe_rtt_def)
  obtain rings sample where "ack_rings (se_send s) a now None = (rings, sample)" by fastforce
  then show ?thesis using assms PAck o by (cases sample) (auto simp: dispatch_packet_def handle_ack_def Let_def)
next
  case (PProbe p)
  then show ?thesis using assms by (cases "len = pr_size p") (auto simp: dispatch_packet_def handle_probe_def)
next
  case (PProbeAck a)
  then show ?thesis using assms by (simp add: dispatch_packet_def)
qed

lemma dispatch_packet_error:
  assumes "dispatch_packet s pkt len now = (s', Inl e)"
  shows "s' = s \<and> e = Malformed \<and> (\<exists>p. pkt = PProbe p \<and> len \<noteq> pr_size p)"
proof (cases pkt)
  case (PData d)
  then show ?thesis
    using assms by (cases "ring_at (se_recv s) (unat (d_channel d))") (auto simp: dispatch_packet_def handle_data_def Let_def)
next
  case (PAck a)
  then show ?thesis using assms by (auto simp: dispatch_packet_def handle_ack_def Let_def split: prod.splits)
next
  case (PProbe p)
  then show ?thesis using assms by (cases "len = pr_size p") (auto simp: dispatch_packet_def handle_probe_def)
next
  case (PProbeAck a)
  then show ?thesis using assms by (simp add: dispatch_packet_def)
qed

lemma session_step_ok:
  assumes A: "aead_ok A" and inv: "session_inv s" and st: "session_step A s ds s'"
  shows "step_ok A s ds s'"
  using st
proof (cases rule: session_step.cases)
  case (st_attach_recv ch rr r)
  then show ?thesis using inv by (auto simp: attach_recv_def intro!: quiet_step recv_table_inv split: if_splits)
next
  case (st_attach_send sr ch r)
  then show ?thesis using attach_send_inv [OF inv] by (auto intro: quiet_step)
next
  case (st_rate now rate)
  then show ?thesis using pacer_ops_inv(1) [OF inv] by (auto intro!: quiet_step simp: set_pacing_rate_mbps_def)
next
  case (st_pacing n)
  then show ?thesis using pacer_ops_inv(2) [OF inv, of n] by (auto intro!: quiet_step simp: set_pacing_datagram_size_def split: prod.splits)
next
  case (st_path n)
  have "se_envelope s' = se_envelope s" "se_direction s' = se_direction s" "se_tx_counter s' = se_tx_counter s"
    using set_path_cases [OF inv, of n] st_path by (auto split: if_splits)
  then show ?thesis using set_path_inv [OF inv] st_path by (auto intro: quiet_step)
next
  case (st_recover n)
  have "se_envelope s' = se_envelope s" "se_direction s' = se_direction s" "se_tx_counter s' = se_tx_counter s"
    using recover_cases [OF inv, of n] st_recover by (auto split: if_splits)
  then show ?thesis using recover_inv [OF inv] st_recover by (auto intro: quiet_step)
next
  case (st_mtu m)
  have "se_envelope s' = se_envelope s" "se_direction s' = se_direction s" "se_tx_counter s' = se_tx_counter s" "session_inv s'"
    using set_path_cases [OF inv, of "mt_current m"] set_path_inv [OF inv, of "mt_current m"] st_mtu inv
    by (auto simp: apply_path_mtu_def split: if_splits)
  then show ?thesis using st_mtu by (auto intro: quiet_step)
next
  case (st_watchdog now)
  then show ?thesis using inv by (auto simp: reset_delivery_watchdog_def session_inv_defs intro!: quiet_step)
next
  case (st_reset ch sq)
  then show ?thesis using inv by (auto simp: reset_recv_def intro!: quiet_step recv_table_inv split: option.splits)
next
  case (st_message ch h p)
  have "send_message s ch h p = (s', snd (send_message s ch h p))" using st_message(2) by simp
  then show ?thesis using send_message_inv [OF inv st_message(3)] st_message(1) by (auto intro: quiet_step)
next
  case (st_take ch out)
  then show ?thesis using inv by (auto simp: session_take_message_def intro!: quiet_step recv_table_inv split: option.splits prod.splits)
next
  case (st_escape ch f)
  then show ?thesis using inv by (auto simp: session_escape_stall_def intro!: quiet_step recv_table_inv split: option.splits prod.splits)
next
  case (st_input dg now scratch r)
  from st_input(2) have "se_envelope s' = se_envelope s \<and> se_direction s' = se_direction s \<and> se_tx_counter s' = se_tx_counter s"
  proof (cases rule: process_input_cases)
    case (2 opn pkt)
    then show ?thesis using dispatch_packet_frame [OF 2(3)] by simp
  qed simp
  then show ?thesis using process_input_inv [OF inv st_input(2)] st_input(1) by (auto intro: quiet_step)
next
  case (st_poll now)
  have "se_envelope s' = se_envelope s" "se_direction s' = se_direction s" "se_tx_counter s' = se_tx_counter s"
    using st_poll by simp_all
  then show ?thesis using session_poll_inv [OF inv] st_poll by (auto intro: quiet_step)
next
  case (st_probe probe out r)
  then show ?thesis using emit_path_probe_cases(1) [OF A inv] by simp
next
  case (st_output now out out' r)
  then show ?thesis using get_output_spec [OF A inv st_output(2)]
    by (auto simp: output_ok_def step_ok_def sent_datagram_def split: option.splits sum.splits)
qed

interpretation session_sys: invariant_system session_start session_move session_inv
proof
  show "session_inv s" if "session_start s" for s using that session_new_inv by (auto simp: session_start_def)
  show "session_inv t" if "session_inv s" "session_move s t" for s t
    using that session_step_ok by (auto simp: session_move_def step_ok_def)
qed

section \<open>Runs\<close>

inductive session_run :: "aead \<Rightarrow> session \<Rightarrow> bytes list \<Rightarrow> session \<Rightarrow> bool" for A :: aead where
  run_refl: "session_run A s [] s"
| run_step: "session_run A s ds t \<Longrightarrow> session_step A t d u \<Longrightarrow> session_run A s (ds @ d) u"

text \<open>The counter field of a datagram, the only part of the nonce that varies within a session.\<close>

definition counter_field :: "bytes \<Rightarrow> bytes" where
  "counter_field dg = take 8 (drop NONCE_OFFSET dg)"

lemma emitted_counter:
  assumes "aead_ok A" "emitted A s s' dg pkt"
  shows "counter_field dg = to_be64 (se_tx_counter s OR seal_bit (se_direction s))" "from_datagram dg = Some (se_direction s)"
proof -
  obtain p where p: "sealed A (se_envelope s) (se_tx_counter s OR seal_bit (se_direction s)) p dg" "se_tx_counter s < 2 ^ 63"
    using assms(2) by (auto simp: emitted_def)
  from sealed_fields(2) [OF assms(1) p(1)]
  show "counter_field dg = to_be64 (se_tx_counter s OR seal_bit (se_direction s))"
    by (auto simp: counter_field_def get_range_def split: if_splits)
  show "from_datagram dg = Some (se_direction s)" using sealed_direction [OF assms(1) p] .
qed

lemma session_run_counters:
  assumes "session_run A s ds t" "aead_ok A" "session_inv s"
  shows "session_inv t \<and> se_direction t = se_direction s \<and> se_envelope t = se_envelope s
    \<and> (\<exists>cs. map counter_field ds = map (\<lambda>c. to_be64 (c OR seal_bit (se_direction s))) cs \<and> distinct cs
        \<and> (\<forall>c \<in> set cs. c < 2 ^ 63 \<and> unat c < unat (se_tx_counter t)))
    \<and> (\<forall>dg \<in> set ds. from_datagram dg = Some (se_direction s))"
  using assms
proof (induction rule: session_run.induct)
  case (run_refl s)
  then show ?case by simp
next
  case (run_step s ds t d u)
  note ih = run_step.IH [OF run_step.prems]
  have inv: "session_inv t" and dir: "se_direction t = se_direction s" using ih by auto
  obtain cs where cs: "map counter_field ds = map (\<lambda>c. to_be64 (c OR seal_bit (se_direction s))) cs" "distinct cs"
      "\<forall>c \<in> set cs. c < 2 ^ 63 \<and> unat c < unat (se_tx_counter t)" using ih by auto
  note so = session_step_ok [OF run_step.prems(1) inv run_step.hyps(2), unfolded step_ok_def]
  show ?case
  proof (cases "d = []")
    case True
    then show ?thesis using so ih cs by (auto intro!: exI [of _ cs] intro: less_le_trans)
  next
    case False
    then obtain dg pkt where d: "d = [dg]" "emitted A t u dg pkt" using so by auto
    note ec = emitted_counter [OF run_step.prems(1) d(2)]
    have tx: "se_tx_counter t < 2 ^ 63" "unat (se_tx_counter u) = Suc (unat (se_tx_counter t))" using d(2) by (auto simp: emitted_def)
    have "map counter_field (ds @ d) = map (\<lambda>c. to_be64 (c OR seal_bit (se_direction s))) (cs @ [se_tx_counter t])"
      using cs(1) d(1) ec(1) dir by simp
    moreover have "distinct (cs @ [se_tx_counter t])" using cs by auto
    moreover have "\<forall>c \<in> set (cs @ [se_tx_counter t]). c < 2 ^ 63 \<and> unat c < unat (se_tx_counter u)" using cs(3) tx by fastforce
    ultimately have "\<exists>cs. map counter_field (ds @ d) = map (\<lambda>c. to_be64 (c OR seal_bit (se_direction s))) cs \<and> distinct cs
        \<and> (\<forall>c \<in> set cs. c < 2 ^ 63 \<and> unat c < unat (se_tx_counter u))" by blast
    then show ?thesis using so ih d ec(2) dir by auto
  qed
qed

section \<open>Helpers of the properties\<close>

lemma emitted_dispatch:
  assumes A: "aead_ok A" and em: "emitted A s s' dg pkt" and env: "se_envelope t = se_envelope s"
    and dir: "se_direction t = opposite (se_direction s)" and scr: "length dg \<le> length scratch + ENVELOPE_LEN"
  shows "process_input A t dg now scratch = dispatch_packet (t\<lparr>se_last_progress_ms := now\<rparr>) pkt (length dg) now"
proof -
  obtain p where p: "sealed A (se_envelope s) (se_tx_counter s OR seal_bit (se_direction s)) p dg" "parse p = Inr pkt"
      "length dg = length p + ENVELOPE_LEN" using em by (auto simp: emitted_def)
  have "envelope_open A (se_envelope t) dg scratch
      = Inr \<lparr>op_counter = se_tx_counter s OR seal_bit (se_direction s), op_cleartext = p\<rparr>"
    using open_sealed [OF A p(1), of scratch] p(3) scr env by simp
  moreover have "from_datagram dg = Some (opposite (se_direction t))"
    using emitted_counter(2) [OF A em] dir by (cases "se_direction s") (simp_all add: opposite_def)
  ultimately show ?thesis using p(2) by (simp add: process_input_def)
qed

lemma poll_makes_due:
  "se_ack_due s \<or> fle ACK_CADENCE_MS (fsub now (se_last_ack_sent_ms s)) \<Longrightarrow> se_ack_due (session_poll s now)"
  by (auto simp: session_poll_def poll_ack_def)

lemma ack_leaves:
  assumes A: "aead_ok A" and inv: "session_inv s" and due: "se_ack_due s" and tx: "se_tx_counter s < 2 ^ 63"
    and out: "ACK_LEN + ENVELOPE_LEN \<le> length out"
  shows "\<exists>s' out'. get_output A s now out = (s', out', Some (Inr (ACK_LEN + ENVELOPE_LEN)))
    \<and> emitted A s s' (take (ACK_LEN + ENVELOPE_LEN) out') (PAck (session_ack s))
    \<and> \<not> se_ack_due s' \<and> se_last_ack_sent_ms s' = now"
proof -
  let ?s = "start_pass s" and ?b = "drop ENVELOPE_LEN out"
  have "encode_ack ?b (session_ack s) = Inr (put_at ?b 0 (ack_bytes (session_ack s)), ACK_LEN)"
    using inv out by (cases "se_ack_kind s") (auto simp: encode_ack_def session_ack_def Let_def session_inv_defs CHANNEL_COUNT_def)
  moreover obtain o1 where "seal_in_place A (se_envelope s) (se_tx_counter s OR seal_bit (se_direction s)) ACK_LEN
      (take ENVELOPE_LEN out @ put_at ?b 0 (ack_bytes (session_ack s))) = Inr (o1, ACK_LEN + ENVELOPE_LEN)"
  proof -
    have "length (ak_cumulative (session_ack s)) = CHANNEL_COUNT" using inv by (simp add: session_ack_def Let_def session_inv_defs)
    then have "length (take ENVELOPE_LEN out @ put_at ?b 0 (ack_bytes (session_ack s))) = length out"
      using out by (simp add: length_ack_bytes)
    then have "ACK_LEN + ENVELOPE_LEN \<le> length (take ENVELOPE_LEN out @ put_at ?b 0 (ack_bytes (session_ack s)))"
      using out by simp
    moreover have "ACK_LEN + ENVELOPE_LEN \<le> MAX_DATAGRAM" by (simp add: ACK_LEN_def ENVELOPE_LEN_def MAX_DATAGRAM_def)
    ultimately show ?thesis using seal_in_place_ok [OF A] that by metis
  qed
  ultimately have e: "emit_ack A ?s out = (?s\<lparr>se_tx_counter := se_tx_counter s + 1\<rparr>, Inr (o1, ACK_LEN + ENVELOPE_LEN))"
    using out tx counter_Suc [OF tx]
    by (simp add: emit_ack_def emit_def get_from_def session_seal_def two63 Let_def del: push_bit_of_1)
  obtain s' where g: "get_output A s now out = (s', o1, Some (Inr (ACK_LEN + ENVELOPE_LEN)))"
    and s': "\<not> se_ack_due s'" "se_last_ack_sent_ms s' = now"
    using e due by (simp add: get_output_def Let_def)
  have "\<exists>pkt. emitted A s s' (take (ACK_LEN + ENVELOPE_LEN) o1) pkt \<and> output_packet s pkt"
    using get_output_spec [OF A inv g] by (simp add: output_ok_def)
  then show ?thesis using g s' due by (auto simp: output_packet_def)
qed

text \<open>The pacer across a drain: charged exactly for a paced video datagram, after a preflight of the same length.\<close>

definition paced_ok :: "session \<Rightarrow> session \<Rightarrow> f64 \<Rightarrow> nat \<Rightarrow> bool" where
  "paced_ok s s' now n \<longleftrightarrow> se_drain_channel s' < CHANNEL_COUNT
     \<and> (if DRAIN_ORDER ! se_drain_channel s' = VIDEO_CHANNEL \<and> pacer_enabled (se_pacer s)
        then can_consume (se_pacer s) now n \<and> se_pacer s' = fst (try_consume (se_pacer s) now n)
        else se_pacer s' = se_pacer s)"

lemma paced_ok_cong: "se_pacer t = se_pacer s \<Longrightarrow> paced_ok t s' now n = paced_ok s s' now n"
proof -
  assume e: "se_pacer t = se_pacer s"
  show ?thesis unfolding paced_ok_def e by (rule refl)
qed

lemma session_seal_frame: "session_seal A s n out = (s', r) \<Longrightarrow> se_pacer s' = se_pacer s \<and> se_drain_channel s' = se_drain_channel s"
  using session_seal_cases(1) [of A s n out s' r] by (metis session.select_convs(21,23) session.surjective session.update_convs(7))

lemma charge_drain_pacer_eq:
  "se_pacer (charge_drain s i paced now n) = (if paced then fst (try_consume (se_pacer s) now n) else se_pacer s)"
  "se_drain_channel (charge_drain s i paced now n) = se_drain_channel s"
  by (simp_all add: charge_drain_def Let_def)

lemma drain_send_emits:
  assumes inv: "session_inv s" and ring: "ring_at (se_send s) i = Some ring"
    and e: "drain_send A s now out i ring paced = Return s' out' (Some (Inr n))"
  shows "\<exists>w. next_due_len ring now (se_srtt_ms s) (se_level s) = Some w \<and> n = w + ENVELOPE_LEN \<and> n \<le> MAX_DATAGRAM
    \<and> se_pacer s' = (if paced then fst (try_consume (se_pacer s) now n) else se_pacer s) \<and> se_drain_channel s' = se_drain_channel s"
proof -
  obtain body where body: "get_from out ENVELOPE_LEN = Some body" using e by (auto simp: drain_send_def split: option.splits)
  obtain ring' body' polled where p: "poll_send ring now (se_srtt_ms s) (se_level s) body = (ring', body', polled)"
    by (cases "poll_send ring now (se_srtt_ms s) (se_level s) body") auto
  obtain w where w: "polled = Some (Inr w)" using e body p by (auto simp: drain_send_def Let_def split: option.splits sum.splits)
  let ?s = "s\<lparr>se_send := (se_send s)[i := Some ring']\<rparr>"
  obtain t sres where sl: "session_seal A ?s w (take ENVELOPE_LEN out @ body') = (t, sres)" by fastforce
  obtain o2 m where sres: "sres = Inr (o2, m)" using e body p w sl by (cases sres) (auto simp: drain_send_def Let_def)
  have r: "s' = charge_drain t i paced now m" "n = m" using e body p w sl sres by (auto simp: drain_send_def Let_def)
  have m: "m = w + ENVELOPE_LEN" "m \<le> MAX_DATAGRAM"
    using sl sres by (auto simp: session_seal_def Let_def dest: seal_in_place_cases split: if_splits option.splits)
  have "send_inv ring" using rings_fit_at [OF _ ring] inv by (auto simp: session_inv_def ring_fits_def)
  then obtain c where "emits ring now (se_srtt_ms s) ring' body' w c" using poll_send_spec [OF _ p] w by blast
  then have "next_due_len ring now (se_srtt_ms s) (se_level s) = Some w" by (simp add: emits_def next_due_len_def)
  then show ?thesis using r m session_seal_frame [OF sl] by (simp add: charge_drain_pacer_eq)
qed

lemma drain_step_pacer:
  assumes inv: "session_inv s" and pos: "se_drain_channel s < CHANNEL_COUNT"
    and e: "drain_step A s now out (DRAIN_ORDER ! se_drain_channel s) = oc"
  shows "case oc of Continue s' \<Rightarrow> se_pacer s' = se_pacer s
    | Return s' out' res \<Rightarrow> (\<forall>n. res = Some (Inr n) \<longrightarrow> paced_ok s s' now n)"
proof -
  let ?i = "DRAIN_ORDER ! se_drain_channel s" and ?en = "pacer_enabled (se_pacer s)"
  have np: "se_pacer (next_position s) = se_pacer s" by (simp add: next_position_def)
  show ?thesis
  proof (cases "ring_at (se_send s) ?i")
    case None
    then show ?thesis using e np by (auto simp: drain_step_def)
  next
    case ring: (Some ring)
    show ?thesis
    proof (cases oc)
      case (Continue s')
      then show ?thesis
        using e ring np by (auto simp: drain_step_def drain_send_def next_position_def Let_def split: option.splits if_splits sum.splits prod.splits)
    next
      case (Return s' out' res)
      have "paced_ok s s' now n" if res: "res = Some (Inr n)" for n
      proof -
        obtain cl where cl: "next_due_len ring now (se_srtt_ms s) (se_level s) = Some cl"
            "\<not> (?i = VIDEO_CHANNEL \<and> ?en \<and> \<not> can_consume (se_pacer s) now (usize_saturating_add ENVELOPE_LEN cl))"
            "drain_send A s now out ?i ring (?i = VIDEO_CHANNEL \<and> ?en) = Return s' out' (Some (Inr n))"
          using e ring Return res by (auto simp: drain_step_def Let_def split: option.splits if_splits)
        from drain_send_emits [OF inv ring cl(3)] cl(1) have n: "n = cl + ENVELOPE_LEN" "n \<le> MAX_DATAGRAM"
            "se_pacer s' = (if ?i = VIDEO_CHANNEL \<and> ?en then fst (try_consume (se_pacer s) now n) else se_pacer s)"
            "se_drain_channel s' = se_drain_channel s" by auto
        have "usize_saturating_add ENVELOPE_LEN cl = n"
          using n(1,2) by (simp add: usize_saturating_add_def usize_bound_def MAX_DATAGRAM_def)
        then show ?thesis using n cl(2) pos by (auto simp: paced_ok_def)
      qed
      then show ?thesis using Return by simp
    qed
  qed
qed

lemma session_drain_paced:
  assumes "aead_ok A" "session_inv s" "session_drain A s now out = (s', out', Some (Inr n))"
  shows "paced_ok s s' now n"
  using assms
proof (induction A s now out arbitrary: s' out' n rule: session_drain.induct)
  case (1 A s now out)
  have pos: "se_drain_channel s < CHANNEL_COUNT"
    using "1.prems"(3) by (cases "CHANNEL_COUNT \<le> se_drain_channel s") (simp_all add: session_drain.simps)
  then have np: "\<not> CHANNEL_COUNT \<le> se_drain_channel s" by simp
  let ?i = "DRAIN_ORDER ! se_drain_channel s"
  have at: "get_at DRAIN_ORDER (se_drain_channel s) = Some ?i" using pos by (simp add: get_at_def DRAIN_ORDER_def CHANNEL_COUNT_def)
  note sp = drain_step_pacer [OF "1.prems"(2) pos, of A now out] and st = drain_step_spec [OF "1.prems"(1,2), of now out ?i]
  show ?case
  proof (cases "drain_step A s now out ?i")
    case (Continue t)
    have "session_inv t" using st [OF Continue] by (simp add: drained_def)
    moreover have "session_drain A t now out = (s', out', Some (Inr n))"
      using "1.prems"(3) np at Continue by (simp add: session_drain.simps [of A s])
    ultimately have "paced_ok t s' now n" using "1.IH"(2) [OF np at Continue "1.prems"(1)] by simp
    then show ?thesis using sp [OF Continue] paced_ok_cong [of t s] by simp
  next
    case (Return t o2 r2)
    then show ?thesis using sp [OF Return] "1.prems"(3) np at by (simp add: session_drain.simps [of A s])
  qed
qed

lemma get_output_paced:
  assumes "aead_ok A" "session_inv s" "\<not> feedback_pending s" "get_output A s now out = (s', out', Some (Inr n))"
  shows "paced_ok s s' now n"
proof -
  have "session_drain A (start_pass s) now out = (s', out', Some (Inr n))"
    using assms(3,4) by (simp add: get_output_def feedback_pending_def)
  from session_drain_paced [OF assms(1) start_pass_inv [OF assms(2)] this] show ?thesis
    using paced_ok_cong [of "start_pass s" s] by simp
qed

end
