(* ===== verification/Endpoint.thy ===== *)
theory Endpoint
  imports Conn_Inv Session_Delivery
begin

text \<open>
  One peer (\<open>core/src/endpoint.rs\<close>): the punch, the session it hands over to and the optional path-MTU
  controller, with the demultiplexer in front, the merged timer, and the order in which the two engines
  use the wire. The invariant ties the three together: an installed controller always claims exactly
  the size the session packetizes for.
\<close>

section \<open>State\<close>

datatype endpoint_inbound = Connectivity conn_inbound | Media inbound

datatype path_mtu_recovery = NotConfigured | Recovered nat nat u32 | Blocked | Unusable

record endpoint =
  ep_conn :: conn
  ep_session :: session
  ep_path_mtu :: "path_mtu option"

definition endpoint_new :: "conn \<Rightarrow> session \<Rightarrow> endpoint" where
  "endpoint_new c s = \<lparr>ep_conn = c, ep_session = s, ep_path_mtu = None\<rparr>"

definition endpoint_path :: "endpoint \<Rightarrow> socket_addr option" where
  "endpoint_path e = conn_path (ep_conn e)"

definition endpoint_health :: "endpoint \<Rightarrow> f64 \<Rightarrow> health" where
  "endpoint_health e now_ms = session_health (ep_session e) now_ms"

section \<open>The path controller\<close>

definition configure_path_mtu :: "endpoint \<Rightarrow> path_config \<Rightarrow> f64 \<Rightarrow> endpoint \<times> bool" where
  "configure_path_mtu e config now_ms =
     (let mtu = mtu_new_with_config config now_ms in
      if mt_state mtu = ErrorState then (e, False)
      else case set_path_datagram_size (ep_session e) (mt_current mtu) of
        (s, False) \<Rightarrow> (e\<lparr>ep_session := s\<rparr>, False)
      | (s, True) \<Rightarrow> (e\<lparr>ep_session := s, ep_path_mtu := Some mtu\<rparr>, True))"

definition recover_path_black_hole :: "endpoint \<Rightarrow> f64 \<Rightarrow> endpoint \<times> path_mtu_recovery" where
  "recover_path_black_hole e now_ms = (case ep_path_mtu e of
     None \<Rightarrow> (e, NotConfigured)
   | Some mtu \<Rightarrow>
       (let previous = mt_current mtu in
        if previous = FLOOR then (e\<lparr>ep_path_mtu := Some (fst (on_black_hole mtu now_ms))\<rparr>, Unusable)
        else if \<not> can_recover_video_path_datagram_size (ep_session e) FLOOR then (e, Blocked)
        else case on_black_hole mtu now_ms of
          (mtu, False) \<Rightarrow> (e\<lparr>ep_path_mtu := Some mtu\<rparr>, Unusable)
        | (mtu, True) \<Rightarrow>
            (let current = mt_current mtu in
             case recover_video_path_datagram_size (ep_session e) current of
               (s, None) \<Rightarrow> (e\<lparr>ep_session := s, ep_path_mtu := Some mtu\<rparr>, Blocked)
             | (s, Some dropped) \<Rightarrow>
                 (e\<lparr>ep_session := reset_delivery_watchdog s now_ms, ep_path_mtu := Some mtu\<rparr>,
                  Recovered previous current dropped))))"

section \<open>Input, time and output\<close>

text \<open>A probe acknowledgement moves the controller, and the session follows it; a session that cannot
  follow drops the controller.\<close>

definition follow_probe_ack :: "endpoint \<Rightarrow> u32 \<Rightarrow> nat \<Rightarrow> f64 \<Rightarrow> endpoint" where
  "follow_probe_ack e i sz now_ms = (case ep_path_mtu e of
     None \<Rightarrow> e
   | Some mtu \<Rightarrow>
       (case on_probe_ack mtu i sz now_ms of (mtu', ok) \<Rightarrow>
          let e = e\<lparr>ep_path_mtu := Some mtu'\<rparr> in
          if ok \<and> mt_current mtu' \<noteq> mt_current mtu then
            (case set_path_datagram_size (ep_session e) (mt_current mtu') of
               (s, True) \<Rightarrow> e\<lparr>ep_session := s\<rparr>
             | (s, False) \<Rightarrow> e\<lparr>ep_session := s, ep_path_mtu := None\<rparr>)
          else e))"

definition endpoint_process_input ::
    "digests \<Rightarrow> aead \<Rightarrow> endpoint \<Rightarrow> bytes \<Rightarrow> socket_addr \<Rightarrow> f64 \<Rightarrow> bytes \<Rightarrow> endpoint \<times> endpoint_inbound result" where
  "endpoint_process_input D A e datagram from0 now_ms scratch = (case classify datagram of
     Check \<Rightarrow>
       (case conn_process_input (dg_hmac D) (ep_conn e) datagram from0 of
          (c, Inl err) \<Rightarrow> (e\<lparr>ep_conn := c\<rparr>, Inl err)
        | (c, Inr inb) \<Rightarrow> (e\<lparr>ep_conn := c\<rparr>, Inr (Connectivity inb)))
   | Record \<Rightarrow>
       (case process_input A (ep_session e) datagram now_ms scratch of
          (s, Inl err) \<Rightarrow> (e\<lparr>ep_session := s\<rparr>, Inl err)
        | (s, Inr inb) \<Rightarrow>
            (let e = e\<lparr>ep_session := s\<rparr> in
             (case inb of InProbeAck i sz \<Rightarrow> follow_probe_ack e i sz now_ms | _ \<Rightarrow> e, Inr (Media inb)))))"

definition endpoint_poll :: "endpoint \<Rightarrow> f64 \<Rightarrow> endpoint" where
  "endpoint_poll e now_ms =
     e\<lparr>ep_conn := conn_poll (ep_conn e) now_ms, ep_session := session_poll (ep_session e) now_ms,
       ep_path_mtu := map_option (\<lambda>mtu.
         if in_flight_probe mtu \<noteq> None \<and> fle (mtu_next_timer_ms mtu now_ms) (Fin 0)
         then fst (on_probe_timeout mtu now_ms) else mtu) (ep_path_mtu e)\<rparr>"

definition endpoint_next_timer_ms :: "endpoint \<Rightarrow> f64 \<Rightarrow> f64" where
  "endpoint_next_timer_ms e now_ms =
     (let path_mtu = (case ep_path_mtu e of None \<Rightarrow> PInf | Some mtu \<Rightarrow> mtu_next_timer_ms mtu now_ms) in
      fmin (fmin (conn_next_timer_ms (ep_conn e) now_ms) (session_next_timer_ms (ep_session e) now_ms)) path_mtu)"

definition media_egress :: "socket_addr \<Rightarrow> nat \<Rightarrow> egress" where
  "media_egress to len = \<lparr>eg_to = to, eg_ttl = TTL_Default, eg_len = len\<rparr>"

definition session_output :: "aead \<Rightarrow> endpoint \<Rightarrow> socket_addr \<Rightarrow> f64 \<Rightarrow> bytes \<Rightarrow>
    endpoint \<times> (bytes \<times> egress) result option" where
  "session_output A e to now_ms out = (case get_output A (ep_session e) now_ms out of
     (s, out', None) \<Rightarrow> (e\<lparr>ep_session := s\<rparr>, None)
   | (s, out', Some (Inl err)) \<Rightarrow> (e\<lparr>ep_session := s\<rparr>, Some (Inl err))
   | (s, out', Some (Inr len)) \<Rightarrow> (e\<lparr>ep_session := s\<rparr>, Some (Inr (out', media_egress to len))))"

definition media_output :: "aead \<Rightarrow> endpoint \<Rightarrow> socket_addr \<Rightarrow> f64 \<Rightarrow> bytes \<Rightarrow>
    endpoint \<times> (bytes \<times> egress) result option" where
  "media_output A e to now_ms out =
     (if feedback_pending (ep_session e) then session_output A e to now_ms out
      else case ep_path_mtu e of
        None \<Rightarrow> session_output A e to now_ms out
      | Some mtu \<Rightarrow>
          (case start_probe mtu now_ms of
             (mtu, None) \<Rightarrow> session_output A (e\<lparr>ep_path_mtu := Some mtu\<rparr>) to now_ms out
           | (mtu, Some probe) \<Rightarrow>
               (case emit_path_probe A (ep_session e) probe out of
                  (s, Inr (out', len)) \<Rightarrow>
                    (e\<lparr>ep_session := s, ep_path_mtu := Some mtu\<rparr>, Some (Inr (out', media_egress to len)))
                | (s, Inl err) \<Rightarrow>
                    (e\<lparr>ep_session := s, ep_path_mtu := Some (fst (on_probe_send_failed mtu))\<rparr>, Some (Inl err)))))"

definition endpoint_get_output :: "digests \<Rightarrow> aead \<Rightarrow> endpoint \<Rightarrow> f64 \<Rightarrow> bytes \<Rightarrow>
    endpoint \<times> (bytes \<times> egress) result option" where
  "endpoint_get_output D A e now_ms out = (case conn_get_output D (ep_conn e) now_ms out of
     (c, Some r) \<Rightarrow> (e\<lparr>ep_conn := c\<rparr>, Some r)
   | (c, None) \<Rightarrow>
       (let e = e\<lparr>ep_conn := c\<rparr> in
        case conn_path c of None \<Rightarrow> (e, None) | Some to \<Rightarrow> media_output A e to now_ms out))"

section \<open>The invariant\<close>

definition mtu_agrees :: "session \<Rightarrow> path_mtu option \<Rightarrow> bool" where
  "mtu_agrees s mtu \<longleftrightarrow> (case mtu of None \<Rightarrow> True | Some m \<Rightarrow> mtu_inv m \<and> mt_current m = se_path_datagram_size s)"

definition ep_inv :: "endpoint \<Rightarrow> bool" where
  "ep_inv e \<longleftrightarrow> conn_inv (ep_conn e) \<and> session_inv (ep_session e) \<and> mtu_agrees (ep_session e) (ep_path_mtu e)"

lemma set_path_size:
  assumes "session_inv s" "set_path_datagram_size s n = (s', ok)"
  shows "session_inv s'" "ok \<Longrightarrow> se_path_datagram_size s' = n" "\<not> ok \<Longrightarrow> s' = s"
proof -
  show "session_inv s'" using set_path_inv [OF assms(1), of n] assms(2) by simp
  show "ok \<Longrightarrow> se_path_datagram_size s' = n" "\<not> ok \<Longrightarrow> s' = s"
    using set_path_cases [OF assms(1), of n] assms(2) by (auto split: if_splits)
qed

lemma process_input_path:
  assumes "process_input A s dg now scratch = (s', r)" "session_inv s"
  shows "se_path_datagram_size s' = se_path_datagram_size s" "session_inv s'"
proof -
  show "session_inv s'" using process_input_inv assms by blast
  show "se_path_datagram_size s' = se_path_datagram_size s"
    using assms(1)
  proof (cases rule: process_input_cases)
    case (2 opn pkt)
    then show ?thesis using dispatch_packet_frame [OF 2(3)] by simp
  qed simp
qed


lemma configure_inv: "ep_inv e \<Longrightarrow> configure_path_mtu e config now = (e', ok) \<Longrightarrow> ep_inv e'"
proof -
  assume inv: "ep_inv e" and c: "configure_path_mtu e config now = (e', ok)"
  let ?m = "mtu_new_with_config config now"
  show ?thesis
  proof (cases "mt_state ?m = ErrorState")
    case True
    then show ?thesis using inv c by (simp add: configure_path_mtu_def Let_def)
  next
    case False
    obtain s b where s: "set_path_datagram_size (ep_session e) (mt_current ?m) = (s, b)" by fastforce
    have si: "session_inv (ep_session e)" using inv by (simp add: ep_inv_def)
    show ?thesis
      using inv c False s set_path_size [OF si s] mtu_new_inv
      by (cases b) (auto simp: configure_path_mtu_def Let_def ep_inv_def mtu_agrees_def)
  qed
qed

lemma on_black_hole_current: "mtu_inv m \<Longrightarrow> on_black_hole m now = (m', ok) \<Longrightarrow> mt_current m' = FLOOR \<and> mtu_inv m'"
proof -
  assume inv: "mtu_inv m" and b: "on_black_hole m now = (m', ok)"
  have "mt_state m = ErrorState \<Longrightarrow> mt_current m = FLOOR" using inv by (simp add: mtu_inv_def)
  then have "mt_current m' = FLOOR" using b by (auto simp: on_black_hole_def Let_def split: if_splits)
  then show ?thesis using on_black_hole_inv [OF inv, of now] b by simp
qed

lemma on_black_hole_True: "mtu_inv m \<Longrightarrow> mt_current m \<noteq> FLOOR \<Longrightarrow> snd (on_black_hole m now)"
  by (auto simp: on_black_hole_def mtu_inv_def Let_def)

text \<open>Recovery, on every branch: the two refusals the code keeps for the future cannot happen.\<close>

lemma recover_path_cases:
  assumes inv: "ep_inv e" and mtu: "ep_path_mtu e = Some m"
  shows "recover_path_black_hole e now =
    (if mt_current m = FLOOR then (e\<lparr>ep_path_mtu := Some (fst (on_black_hole m now))\<rparr>, Unusable)
     else if \<not> can_recover_video_path_datagram_size (ep_session e) FLOOR then (e, Blocked)
     else (e\<lparr>ep_session := reset_delivery_watchdog (fst (recover_video_path_datagram_size (ep_session e) FLOOR)) now,
             ep_path_mtu := Some (fst (on_black_hole m now))\<rparr>,
           Recovered (mt_current m) FLOOR (the (snd (recover_video_path_datagram_size (ep_session e) FLOOR)))))"
proof -
  have mi: "mtu_inv m" and si: "session_inv (ep_session e)" using inv mtu by (simp_all add: ep_inv_def mtu_agrees_def)
  show ?thesis
  proof (cases "mt_current m = FLOOR \<or> \<not> can_recover_video_path_datagram_size (ep_session e) FLOOR")
    case True
    then show ?thesis using mtu by (auto simp: recover_path_black_hole_def Let_def)
  next
    case False
    obtain m' ok where b: "on_black_hole m now = (m', ok)" by fastforce
    have "ok" using on_black_hole_True [OF mi, of now] False b by simp
    moreover have "mt_current m' = FLOOR" using on_black_hole_current [OF mi b] by simp
    moreover obtain s d where "recover_video_path_datagram_size (ep_session e) FLOOR = (s, Some d)"
      using recover_cases [OF si, of FLOOR] False by auto
    ultimately show ?thesis using False mtu b by (simp add: recover_path_black_hole_def Let_def)
  qed
qed

lemma watchdog_frame: "session_inv s \<Longrightarrow> session_inv (reset_delivery_watchdog s now)
  \<and> se_path_datagram_size (reset_delivery_watchdog s now) = se_path_datagram_size s"
  by (auto simp: reset_delivery_watchdog_def session_inv_defs)

lemma recover_path_inv:
  assumes inv: "ep_inv e" shows "ep_inv (fst (recover_path_black_hole e now))"
proof (cases "ep_path_mtu e")
  case None
  then show ?thesis using inv by (simp add: recover_path_black_hole_def)
next
  case (Some m)
  have mi: "mtu_inv m" "mt_current m = se_path_datagram_size (ep_session e)"
    and si: "session_inv (ep_session e)" using inv Some by (simp_all add: ep_inv_def mtu_agrees_def)
  have m': "mt_current (fst (on_black_hole m now)) = FLOOR" "mtu_inv (fst (on_black_hole m now))"
    using on_black_hole_current [OF mi(1), of now] by (metis prod.collapse)+
  have s': "session_inv (fst (recover_video_path_datagram_size (ep_session e) FLOOR))" using si by (rule recover_inv)
  have "can_recover_video_path_datagram_size (ep_session e) FLOOR \<Longrightarrow>
      se_path_datagram_size (fst (recover_video_path_datagram_size (ep_session e) FLOOR)) = FLOOR"
    using recover_cases [OF si, of FLOOR] by simp
  then show ?thesis
    using inv m' mi watchdog_frame [OF s', of now] Some unfolding recover_path_cases [OF inv Some]
    by (cases "mt_current m = FLOOR"; cases "can_recover_video_path_datagram_size (ep_session e) FLOOR")
      (simp_all add: ep_inv_def mtu_agrees_def)
qed

lemma on_probe_ack_False: "on_probe_ack m i sz now = (m', False) \<Longrightarrow> m' = m"
  by (auto simp: on_probe_ack_def Let_def split: option.splits if_splits)

lemma follow_probe_ack_inv:
  assumes inv: "ep_inv e" shows "ep_inv (follow_probe_ack e i sz now)"
proof (cases "ep_path_mtu e")
  case None
  then show ?thesis using inv by (simp add: follow_probe_ack_def)
next
  case (Some m)
  have si: "session_inv (ep_session e)" and mi: "mtu_inv m" "mt_current m = se_path_datagram_size (ep_session e)"
    using inv Some by (simp_all add: ep_inv_def mtu_agrees_def)
  obtain m' ok where a: "on_probe_ack m i sz now = (m', ok)" by fastforce
  have m': "mtu_inv m'" using on_probe_ack_inv [OF mi(1), of i sz now] a by simp
  obtain s b where s: "set_path_datagram_size (ep_session e) (mt_current m') = (s, b)" by fastforce
  note ss = set_path_size [OF si s]
  show ?thesis
  proof (cases "ok \<and> mt_current m' \<noteq> mt_current m")
    case True
    then show ?thesis using inv Some a s ss m'
      by (cases b) (auto simp: follow_probe_ack_def ep_inv_def mtu_agrees_def)
  next
    case False
    then have "mt_current m' = mt_current m" using on_probe_ack_False [of m i sz now m'] a by (cases ok) auto
    then show ?thesis using False inv Some a m' mi
      by (simp add: follow_probe_ack_def ep_inv_def mtu_agrees_def)
  qed
qed

lemma endpoint_input_inv:
  assumes inv: "ep_inv e" and a: "wf_addr a"
    and p: "endpoint_process_input D A e dg a now scratch = (e', r)"
  shows "ep_inv e'"
proof (cases "classify dg")
  case Check
  obtain c q where c: "conn_process_input (dg_hmac D) (ep_conn e) dg a = (c, q)" by fastforce
  have "conn_inv c" using conn_process_input_inv [OF _ a c] inv by (simp add: ep_inv_def)
  then show ?thesis using inv p Check c by (cases q) (auto simp: endpoint_process_input_def ep_inv_def)
next
  case Record
  obtain s q where s: "process_input A (ep_session e) dg now scratch = (s, q)" by fastforce
  have "ep_inv (e\<lparr>ep_session := s\<rparr>)"
    using process_input_path [OF s] inv by (auto simp: ep_inv_def mtu_agrees_def split: option.splits)
  moreover have "e' = e\<lparr>ep_session := s\<rparr> \<or> (\<exists>i sz. e' = follow_probe_ack (e\<lparr>ep_session := s\<rparr>) i sz now)"
    using p Record s by (auto simp: endpoint_process_input_def Let_def split: sum.splits inbound.splits)
  ultimately show ?thesis using follow_probe_ack_inv by auto
qed


lemma on_probe_timeout_current: "mt_current (fst (on_probe_timeout m now)) = mt_current m"
  by (simp add: on_probe_timeout_def mtu_complete_def Let_def split: option.split)

lemma on_probe_send_failed_current: "mt_current (fst (on_probe_send_failed m)) = mt_current m"
  by (simp add: on_probe_send_failed_def split: option.split)

lemma endpoint_poll_inv: "ep_inv e \<Longrightarrow> ep_inv (endpoint_poll e now)"
  by (auto simp: ep_inv_def endpoint_poll_def mtu_agrees_def conn_poll_inv session_poll_inv on_probe_timeout_inv
      on_probe_timeout_current split: option.splits)

text \<open>Output: what leaves is a check of the punch, or a record of the session to the path.\<close>

lemma session_output_cases:
  assumes A: "aead_ok A" and inv: "ep_inv e" and o: "session_output A e to now out = (e', r)"
  shows "ep_inv e'" "ep_conn e' = ep_conn e" "ep_path_mtu e' = ep_path_mtu e"
    "\<And>out' eg. r = Some (Inr (out', eg)) \<Longrightarrow> eg_to eg = to \<and> eg_ttl eg = TTL_Default
      \<and> eg_len eg \<le> se_path_datagram_size (ep_session e)
      \<and> (\<exists>pkt. emitted A (ep_session e) (ep_session e') (take (eg_len eg) out') pkt)"
proof -
  obtain s out' res where g: "get_output A (ep_session e) now out = (s, out', res)" by (metis prod_cases3)
  have ok: "output_ok A (ep_session e) s out' res" using get_output_spec [OF A _ g] inv by (simp add: ep_inv_def)
  have e': "e' = e\<lparr>ep_session := s\<rparr>" using o g by (auto simp: session_output_def split: option.splits sum.splits)
  show "ep_inv e'" using inv ok by (auto simp: e' ep_inv_def mtu_agrees_def output_ok_def split: option.splits)
  show "ep_conn e' = ep_conn e" "ep_path_mtu e' = ep_path_mtu e" by (simp_all add: e')
  fix o2 eg assume r: "r = Some (Inr (o2, eg))"
  then obtain n where n: "res = Some (Inr n)" "o2 = out'" "eg = media_egress to n"
    using o g by (auto simp: session_output_def split: option.splits sum.splits)
  then show "eg_to eg = to \<and> eg_ttl eg = TTL_Default \<and> eg_len eg \<le> se_path_datagram_size (ep_session e)
      \<and> (\<exists>pkt. emitted A (ep_session e) (ep_session e') (take (eg_len eg) o2) pkt)"
    using ok by (auto simp: output_ok_def e' media_egress_def)
qed

lemma media_output_cases:
  assumes A: "aead_ok A" and inv: "ep_inv e" and o: "media_output A e to now out = (e', r)"
  shows "ep_inv e'" "ep_conn e' = ep_conn e"
    "\<And>out' eg. r = Some (Inr (out', eg)) \<Longrightarrow> eg_to eg = to \<and> eg_ttl eg = TTL_Default
      \<and> (\<exists>pkt. emitted A (ep_session e) (ep_session e') (take (eg_len eg) out') pkt)"
proof -
  have "ep_inv e' \<and> ep_conn e' = ep_conn e \<and> (\<forall>out' eg. r = Some (Inr (out', eg)) \<longrightarrow> eg_to eg = to \<and> eg_ttl eg = TTL_Default
      \<and> (\<exists>pkt. emitted A (ep_session e) (ep_session e') (take (eg_len eg) out') pkt))"
  proof (cases "feedback_pending (ep_session e) \<or> ep_path_mtu e = None")
    case True
    then have so: "session_output A e to now out = (e', r)"
      using o by (cases "feedback_pending (ep_session e)") (simp_all add: media_output_def)
    show ?thesis using session_output_cases [OF A inv so] by simp
  next
    case False
    then obtain m where m: "ep_path_mtu e = Some m" by auto
    have mi: "mtu_inv m" "mt_current m = se_path_datagram_size (ep_session e)" and si: "session_inv (ep_session e)"
      using inv m by (simp_all add: ep_inv_def mtu_agrees_def)
    obtain m1 pr where p: "start_probe m now = (m1, pr)" by fastforce
    have m1: "mtu_inv m1" "mt_current m1 = mt_current m" using start_probe_cases [OF mi(1) p] by simp_all
    show ?thesis
    proof (cases pr)
      case None
      let ?e = "e\<lparr>ep_path_mtu := Some m1\<rparr>"
      have i: "ep_inv ?e" using inv m1 mi by (simp add: ep_inv_def mtu_agrees_def)
      have so: "session_output A ?e to now out = (e', r)" using o False m p None by (simp add: media_output_def)
      show ?thesis using session_output_cases [OF A i so] by simp
    next
      case (Some probe)
      obtain s res where x: "emit_path_probe A (ep_session e) probe out = (s, res)" by fastforce
      note ec = emit_path_probe_cases [OF A si x]
      have s: "session_inv s" using ec(1) by (simp add: step_ok_def)
      have f: "mtu_inv (fst (on_probe_send_failed m1))" using m1(1) by (rule on_probe_send_failed_inv)
      show ?thesis
      proof (cases res)
        case (Inl err)
        then have e: "e' = e\<lparr>ep_session := s, ep_path_mtu := Some (fst (on_probe_send_failed m1))\<rparr>" "r = Some (Inl err)"
          using o False m p Some x by (simp_all add: media_output_def)
        then show ?thesis using inv s f ec(3) m1 mi on_probe_send_failed_current [of m1]
          by (simp add: ep_inv_def mtu_agrees_def)
      next
        case (Inr q)
        obtain o2 n where q: "q = (o2, n)" by (cases q)
        then have e: "e' = e\<lparr>ep_session := s, ep_path_mtu := Some m1\<rparr>" "r = Some (Inr (o2, media_egress to n))"
          using o False m p Some x Inr by (simp_all add: media_output_def)
        then show ?thesis using inv s ec(3) m1 mi ec(2) [OF Inr [unfolded q]]
          by (auto simp: ep_inv_def mtu_agrees_def media_egress_def)
      qed
    qed
  qed
  then show "ep_inv e'" "ep_conn e' = ep_conn e"
    "\<And>out' eg. r = Some (Inr (out', eg)) \<Longrightarrow> eg_to eg = to \<and> eg_ttl eg = TTL_Default
      \<and> (\<exists>pkt. emitted A (ep_session e) (ep_session e') (take (eg_len eg) out') pkt)" by blast+
qed

lemma endpoint_output_cases:
  assumes D: "digests_ok D" and A: "aead_ok A" and inv: "ep_inv e" and o: "endpoint_get_output D A e now out = (e', r)"
  obtains (quiet) "r = None" "ep_inv e'"
  | (conn) c res where "conn_get_output D (ep_conn e) now out = (c, Some res)" "r = Some res" "e' = e\<lparr>ep_conn := c\<rparr>" "ep_inv e'"
  | (media) c to where "conn_get_output D (ep_conn e) now out = (c, None)" "conn_path c = Some to" "ep_inv e'"
      "media_output A (e\<lparr>ep_conn := c\<rparr>) to now out = (e', r)" "ep_inv (e\<lparr>ep_conn := c\<rparr>)"
proof -
  obtain c q where c: "conn_get_output D (ep_conn e) now out = (c, q)" by fastforce
  have "conn_inv c" using conn_get_output_inv [OF D _ c] inv by (simp add: ep_inv_def)
  then have i: "ep_inv (e\<lparr>ep_conn := c\<rparr>)" using inv by (simp add: ep_inv_def)
  show thesis
  proof (cases q)
    case (Some res)
    then show thesis using conn [of c res] c o i by (simp add: endpoint_get_output_def)
  next
    case None
    show thesis
    proof (cases "conn_path c")
      case p: None
      then show thesis using quiet o c None i by (simp add: endpoint_get_output_def)
    next
      case (Some to)
      then have m: "media_output A (e\<lparr>ep_conn := c\<rparr>) to now out = (e', r)"
        using o c None by (simp add: endpoint_get_output_def)
      show thesis by (rule media [OF c [unfolded None] Some media_output_cases(1) [OF A i m] m i])
    qed
  qed
qed

end
