(* ===== verification/Conn_Properties.thy ===== *)
theory Conn_Properties
  imports Conn_Inv
begin

text \<open>
  What a punch attempt promises: its path is always an address that was checked and answered under the
  peer's password, a settled attempt never changes its mind, and two ends that share credentials find
  a path as soon as one check and its answer get through.
\<close>

section \<open>Properties\<close>

text \<open>A stand-in for the digests, to evaluate the model on concrete attempts.\<close>

definition demo_digests :: digests where
  "demo_digests = \<lparr>dg_hmac = demo_hmac, dg_sha1 = (\<lambda>m. take 20 (rev m @ replicate 20 0))\<rparr>"

lemma demo_digests_ok: "digests_ok demo_digests"
  using demo_hmac_ok by (auto simp: digests_ok_def demo_digests_def min_def)

interpretation punch: invariant_system "\<lambda>s. digests_ok D \<and> conn_start creds s" "conn_step D"
  "\<lambda>s. digests_ok D \<and> run_inv D creds s" for D creds
proof
  fix s assume "digests_ok D \<and> conn_start creds s"
  then show "digests_ok D \<and> run_inv D creds s"
    using conn_new_inv by (auto simp: conn_start_def run_inv_def outs_def conn_new_def)
next
  fix s t assume "digests_ok D \<and> run_inv D creds s" "conn_step D s t"
  then show "digests_ok D \<and> run_inv D creds t" using run_inv_step by blast
qed


text \<open>Two ends of a punch with each other's credentials, and the attempt of the first once it knows an
  address of the second.\<close>

definition demo_creds :: credentials where
  "demo_creds = \<lparr>cr_local_ufrag = [97], cr_local_pwd = [1], cr_remote_ufrag = [98], cr_remote_pwd = [2]\<rparr>"

definition demo_peer :: credentials where
  "demo_peer = \<lparr>cr_local_ufrag = [98], cr_local_pwd = [2], cr_remote_ufrag = [97], cr_remote_pwd = [1]\<rparr>"

definition demo_addr :: socket_addr where
  "demo_addr = SA_V4 [10, 0, 0, 1] 443"

definition demo_caller :: conn where
  "demo_caller = fst (add_candidate (conn_new demo_creds (replicate 16 0) (Fin 0)) demo_addr)"

definition demo_callee :: conn where
  "demo_callee = conn_new demo_peer (replicate 16 1) (Fin 0)"

lemma probe_leaves:
  assumes D: "digests_ok D" and inv: "conn_inv c"
    and st: "cn_state c = Checking" "slots (cn_pending c) = []" "\<not> flt (Fin 0) (pace_wait c now)"
      "\<not> cn_probe_sent c" "slots (cn_candidates c) = x # xs"
    and uf: "length (cr_local_ufrag (cn_credentials c)) \<le> 32" "length (cr_remote_ufrag (cn_credentials c)) \<le> 32"
    and out: "152 \<le> length out"
  shows "\<exists>c' dg n. conn_get_output D c now out = (c', Some (Inr (dg, \<lparr>eg_to = ca_addr x, eg_ttl = TTL_Probe, eg_len = n\<rparr>)))"
proof -
  let ?p = "slot_index (\<lambda>s. s \<noteq> None) (cn_pending c)"
  have p: "?p = None" using st(2) by (auto simp: slot_index_None slots_Nil)
  have tb: "length (tiebreaker c) = 8" using inv by (simp add: tiebreaker_def conn_inv_def)
  have H: "hmac_ok (dg_hmac D)" using D by (simp add: digests_ok_def)
  note tid = length_conn_tid [OF D, of c]
  obtain dg n where e: "encode_binding_request (dg_hmac D) out (conn_tid D c) (cr_local_ufrag (cn_credentials c))
      (cr_remote_ufrag (cn_credentials c)) (tiebreaker c) (cr_remote_pwd (cn_credentials c)) = Inr (dg, n)"
    using encode_binding_request_eq [OF H tid uf tb, of out] request_length(2) [OF tid uf tb] out by auto
  have t: "next_transaction_id D (c\<lparr>cn_probe_sent := True\<rparr>)
      = (c\<lparr>cn_probe_sent := True, cn_counter := cn_counter c + 1\<rparr>, conn_tid D c)"
    by (simp add: next_transaction_id_def conn_tid_def)
  have b: "tiebreaker (c\<lparr>cn_probe_sent := True, cn_counter := n\<rparr>) = tiebreaker c" for n by (simp add: tiebreaker_def)
  show ?thesis
    unfolding conn_get_output_def if_not_P [OF st(3)] p
    using st e by (simp add: emit_check_def t b Let_def)
qed

lemma demo_start: "conn_start demo_creds (conn_new demo_creds (replicate 16 0) (Fin 0), [])"
  unfolding conn_start_def by (intro exI [of _ "replicate 16 0"] exI [of _ "Fin 0"]) simp

lemma demo_reach:
  "reachable (conn_start demo_creds) (conn_step demo_digests) (conn_new demo_creds (replicate 16 0) (Fin 0), [])"
  using demo_start by (rule reach_start)

lemma demo_caller_facts:
  "conn_inv demo_caller" "cn_state demo_caller = Checking" "slots (cn_servers demo_caller) = []"
  "slots (cn_pending demo_caller) = []" "\<not> cn_probe_sent demo_caller" "cn_credentials demo_caller = demo_creds"
  "cn_last_sent_ms demo_caller = None"
  "slots (cn_candidates demo_caller) = [\<lparr>ca_addr = demo_addr, ca_last_check_ms = None, ca_outstanding = None\<rparr>]"
proof -
  have "conn_inv (conn_new demo_creds (replicate 16 0) (Fin 0))" by (simp add: conn_new_inv)
  then show "conn_inv demo_caller" unfolding demo_caller_def
    by (rule add_candidate_inv [OF _ _ surjective_pairing]) (simp add: demo_addr_def wf_addr_def)
qed (simp_all add: demo_caller_def add_candidate_def conn_new_def MAX_CANDIDATES_def MAX_SERVERS_def MAX_PENDING_def
    demo_addr_def canonical_def slots_def replicate_rec)

lemma demo_callee_facts:
  "conn_inv demo_callee" "slots (cn_pending demo_callee) = []" "cn_credentials demo_callee = demo_peer"
  "cn_last_sent_ms demo_callee = None"
  by (simp_all add: demo_callee_def conn_new_inv) (simp_all add: conn_new_def slots_def MAX_PENDING_def)

lemma demo_first_check:
  "\<exists>c' dg n. conn_get_output demo_digests demo_caller (Fin 0) (replicate 152 0) =
     (c', Some (Inr (dg, \<lparr>eg_to = demo_addr, eg_ttl = TTL_Probe, eg_len = n\<rparr>)))"
proof -
  have "\<not> flt (Fin 0) (pace_wait demo_caller (Fin 0))" by (simp add: pace_wait_def demo_caller_facts)
  then show ?thesis
    using probe_leaves [OF demo_digests_ok demo_caller_facts(1,2,4) _ demo_caller_facts(5,8), of "Fin 0" "replicate 152 0"]
    by (simp add: demo_caller_facts demo_creds_def)
qed

lemma demo_callee_pace: "\<not> flt (Fin 0) (pace_wait demo_callee (Fin 1))"
  by (simp add: pace_wait_def demo_callee_facts)

lemma demo_keys: "cr_local_pwd (cn_credentials demo_callee) = cr_remote_pwd (cn_credentials demo_caller)"
  by (simp add: demo_callee_facts demo_caller_facts demo_creds_def demo_peer_def)

text \<open>C3: The path is always proved. In every state an attempt can reach through any sequence of
  candidates, servers, datagrams, polls and outputs, an established path is an address to which this
  side had sent a check signed with the peer's password, and after which it received a success answer
  with the same transaction identifier that verifies under that password.\<close>
theorem conn_path_proved:
  assumes "digests_ok D" "reachable (conn_start creds) (conn_step D) (c, evs)" "conn_path c = Some a"
  shows "\<exists>pre dg mid dg' src post m m'. evs = pre @ [CO dg a] @ mid @ [CI dg' src] @ post
    \<and> stun_parse dg = Inr m \<and> stn_method m = BindingRequest \<and> stun_verify (dg_hmac D) m (cr_remote_pwd creds)
    \<and> stun_parse dg' = Inr m' \<and> stn_method m' = BindingSuccess \<and> stun_verify (dg_hmac D) m' (cr_remote_pwd creds)
    \<and> stn_tid m' = stn_tid m"
proof -
  have "reachable (\<lambda>s. digests_ok D \<and> conn_start creds s) (conn_step D) (c, evs)" using assms(1,2) by simp
  then have "run_inv D creds (c, evs)" using punch.reachable_inv by blast
  moreover have "cn_state c = Established a" using assms(3) by (simp add: conn_path_def split: conn_state.splits)
  ultimately have "answered D (cr_remote_pwd creds) evs a" by (simp add: run_inv_def)
  then show ?thesis unfolding answered_def is_check_def by metis
qed

text \<open>An attempt never changes its mind. Once a reachable attempt has a path or has failed, no
  further candidate, server, datagram, poll or output changes its state.\<close>
theorem conn_settled_forever:
  assumes "digests_ok D" "reachable (conn_start creds) (conn_step D) s" "cn_state (fst s) \<noteq> Checking"
    and "(conn_step D)\<^sup>*\<^sup>* s t"
  shows "cn_state (fst t) = cn_state (fst s)"
proof -
  have "reachable (\<lambda>s. digests_ok D \<and> conn_start creds s) (conn_step D) s" using assms(1,2) by simp
  then have r: "run_inv D creds s" using punch.reachable_inv by blast
  from assms(4) show ?thesis
  proof (induction rule: rtranclp_induct)
    case (step t u)
    then have "run_inv D creds t" using punch.reachable_steps [of D s t creds] assms(1) r by blast
    then show ?case using step_settled [OF assms(1) _ step(2)] step.IH assms(3) by simp
  qed simp
qed

text \<open>C38: An attempt keeps its shape. In every reachable state the three tables keep the fixed size of the
  source's arrays, at most sixteen candidates are known and no address is known twice, every known
  address is canonical (an IPv4 address is never held in its IPv6-mapped form), an established path is
  one of them, and every owed answer carries a twelve-byte identifier.\<close>
theorem conn_well_formed:
  assumes "digests_ok D" "reachable (conn_start creds) (conn_step D) (c, evs)"
  shows "length (cn_candidates c) = 16 \<and> length (cn_servers c) = MAX_SERVERS \<and> length (cn_pending c) = MAX_PENDING
    \<and> length (candidate_addrs c) \<le> 16 \<and> distinct (candidate_addrs c)
    \<and> list_all (\<lambda>a. wf_addr a \<and> canonical a = a) (candidate_addrs c)
    \<and> pred_option (\<lambda>a. a \<in> set (candidate_addrs c)) (conn_path c)
    \<and> list_all (\<lambda>(a, tid). wf_addr a \<and> canonical a = a \<and> length tid = 12) (slots (cn_pending c))"
proof -
  have "reachable (\<lambda>s. digests_ok D \<and> conn_start creds s) (conn_step D) (c, evs)" using assms by simp
  then have "run_inv D creds (c, evs)" using punch.reachable_inv by blast
  then have i: "conn_inv c" by (simp add: run_inv_def)
  have l: "length (cn_candidates c) = 16" using i by (simp add: conn_inv_def MAX_CANDIDATES_def)
  have "length (candidate_addrs c) \<le> length (cn_candidates c)"
    by (simp add: candidate_addrs_def length_slots)
  moreover have "pred_option (\<lambda>a. a \<in> set (candidate_addrs c)) (conn_path c)"
    using i by (simp add: conn_path_def conn_inv_def split: conn_state.splits)
  moreover have "list_all (\<lambda>(a, tid). wf_addr a \<and> canonical a = a \<and> length tid = 12) (slots (cn_pending c))"
    using i by (auto simp: conn_inv_def list_all_iff good_addr_def slots_mem)
  ultimately show ?thesis using i l by (simp add: conn_inv_def list_all_iff good_addr_def)
qed

theorem conn_well_formed_witness:
  "length (candidate_addrs demo_caller) = 1 \<and> distinct (candidate_addrs demo_caller)
    \<and> list_all (\<lambda>a. wf_addr a \<and> canonical a = a) (candidate_addrs demo_caller)"
proof -
  have w: "wf_addr demo_addr" by (simp add: demo_addr_def wf_addr_def)
  have "reachable (conn_start demo_creds) (conn_step demo_digests) (demo_caller, [])"
    using demo_reach step_candidate [OF w surjective_pairing] unfolding demo_caller_def by (rule reach_step)
  from conn_well_formed [OF demo_digests_ok this] show ?thesis
    by (simp add: candidate_addrs_def demo_caller_facts)
qed

text \<open>C13: A check and its answer make a path. Let one end be checking with no servers and nothing owed,
  and let its next output be a check. If the other end holds the password the check was signed with,
  owes nothing and is not paced, then feeding it the check from any address makes it answer to that
  address, and feeding the answer back from anywhere establishes the checked address as the path,
  provided the identifier of the check was not outstanding already.\<close>
theorem conn_handshake:
  assumes "digests_ok D" "conn_inv A" "conn_inv B" "wf_addr a"
    and "cn_state A = Checking" "slots (cn_servers A) = []" "slots (cn_pending A) = []"
    and "conn_get_output D A now out = (A', Some (Inr (dg, eg)))"
    and "\<forall>x \<in> set (slots (cn_candidates A)). ca_outstanding x \<noteq> Some (snd (next_transaction_id D A))"
    and "cr_local_pwd (cn_credentials B) = cr_remote_pwd (cn_credentials A)"
    and "slots (cn_pending B) = []" "\<not> flt (Fin 0) (pace_wait B now')" "76 \<le> length out'"
  shows "\<exists>B' B'' rsp eg' A''. conn_process_input (dg_hmac D) B (take (eg_len eg) dg) a = (B', Inr CheckAnswered)
    \<and> conn_get_output D B' now' out' = (B'', Some (Inr (rsp, eg'))) \<and> eg_to eg' = canonical a
    \<and> conn_process_input (dg_hmac D) A' (take (eg_len eg') rsp) src = (A'', Inr (PathEstablished (eg_to eg)))
    \<and> conn_path A'' = Some (eg_to eg)"
proof -
  let ?tid = "conn_tid D A"
  note s = check_sent [OF assms(1,2,5,6,7,8)]
  obtain B' B'' rsp eg' m where b: "conn_process_input (dg_hmac D) B (take (eg_len eg) dg) a = (B', Inr CheckAnswered)"
      "conn_get_output D B' now' out' = (B'', Some (Inr (rsp, eg')))" "eg_to eg' = canonical a"
      "stun_parse (take (eg_len eg') rsp) = Inr m" "stn_method m = BindingSuccess" "stn_tid m = ?tid"
      "stun_verify (dg_hmac D) m (cr_local_pwd (cn_credentials B))"
    using request_answered [OF assms(1,3,4,11,12,13) s(1) [folded assms(10)]] by blast
  have fresh: "(b, ?tid) \<notin> outs A" for b using assms(9) by (auto simp: outs_def conn_tid_def)
  have "\<exists>A''. conn_process_input (dg_hmac D) A' (take (eg_len eg') rsp) src = (A'', Inr (PathEstablished (eg_to eg)))
      \<and> conn_path A'' = Some (eg_to eg)"
  proof (rule answer_establishes [OF s(5) _ b(4,5)])
    show "slots (cn_servers A') = []" using s(6) assms(6) by simp
    show "stun_verify (dg_hmac D) m (cr_remote_pwd (cn_credentials A'))" using b(7) assms(10) s(4) by simp
    show "(eg_to eg, stn_tid m) \<in> outs A'" using s(2) b(6) by simp
    show "b' = eg_to eg" if "(b', stn_tid m) \<in> outs A'" for b' using s(3) that fresh b(6) by auto
  qed
  with b(1-3) show ?thesis by blast
qed


theorem conn_handshake_witness:
  "\<exists>A' dg eg B' B'' rsp eg' A''.
     conn_get_output demo_digests demo_caller (Fin 0) (replicate 152 0) = (A', Some (Inr (dg, eg)))
   \<and> conn_process_input demo_hmac demo_callee (take (eg_len eg) dg) demo_addr = (B', Inr CheckAnswered)
   \<and> conn_get_output demo_digests B' (Fin 1) (replicate 76 0) = (B'', Some (Inr (rsp, eg')))
   \<and> conn_process_input demo_hmac A' (take (eg_len eg') rsp) demo_addr = (A'', Inr (PathEstablished (eg_to eg)))
   \<and> conn_path A'' = Some (eg_to eg)"
proof -
  obtain A' dg n where g: "conn_get_output demo_digests demo_caller (Fin 0) (replicate 152 0) =
     (A', Some (Inr (dg, \<lparr>eg_to = demo_addr, eg_ttl = TTL_Probe, eg_len = n\<rparr>)))" using demo_first_check by blast
  have w: "wf_addr demo_addr" by (simp add: demo_addr_def wf_addr_def)
  have f: "\<forall>x \<in> set (slots (cn_candidates demo_caller)). ca_outstanding x \<noteq> Some (snd (next_transaction_id demo_digests demo_caller))"
    unfolding demo_caller_facts by simp
  have o: "76 \<le> length (replicate 76 (0 :: byte))" by simp
  have h: "dg_hmac demo_digests = demo_hmac" by (simp add: demo_digests_def)
  show ?thesis
    using conn_handshake [OF demo_digests_ok demo_caller_facts(1) demo_callee_facts(1) w demo_caller_facts(2,3,4) g f
        demo_keys demo_callee_facts(2) demo_callee_pace o, of demo_addr] g unfolding h by blast
qed

lemma demo_established:
  "\<exists>c evs. reachable (conn_start demo_creds) (conn_step demo_digests) (c, evs) \<and> conn_path c = Some demo_addr"
proof -
  let ?D = demo_digests and ?S = "conn_start demo_creds"
  have w: "wf_addr demo_addr" by (simp add: demo_addr_def wf_addr_def)
  have 0: "reachable ?S (conn_step ?D) (conn_new demo_creds (replicate 16 0) (Fin 0), [])"
    by (rule demo_reach)
  have 1: "reachable ?S (conn_step ?D) (demo_caller, [])"
    using 0 step_candidate [OF w surjective_pairing] unfolding demo_caller_def by (rule reach_step)
  obtain A' dg n where g: "conn_get_output ?D demo_caller (Fin 0) (replicate 152 0) =
     (A', Some (Inr (dg, \<lparr>eg_to = demo_addr, eg_ttl = TTL_Probe, eg_len = n\<rparr>)))" using demo_first_check by blast
  note s = check_sent [OF demo_digests_ok demo_caller_facts(1-4) g]
  have 2: "reachable ?S (conn_step ?D) (A', [] @ [CO (take n dg) demo_addr])"
  proof -
    have "conn_step ?D (demo_caller, []) (A', [] @ [CO (take n dg) demo_addr])"
      using step_output [OF g, of "[]"] by simp
    with 1 show ?thesis by (rule reach_step)
  qed
  have o: "76 \<le> length (replicate 76 (0 :: byte))" by simp
  obtain rsp m where m: "stun_parse rsp = Inr m" "stn_method m = BindingSuccess" "stn_tid m = conn_tid ?D demo_caller"
      "stun_verify (dg_hmac ?D) m (cr_local_pwd (cn_credentials demo_callee))"
    using request_answered [OF demo_digests_ok demo_callee_facts(1) w demo_callee_facts(2) demo_callee_pace o
        s(1) [folded demo_keys]] by blast
  have "\<exists>A''. conn_process_input (dg_hmac ?D) A' rsp demo_addr = (A'', Inr (PathEstablished demo_addr))
      \<and> conn_path A'' = Some demo_addr"
  proof (rule answer_establishes [OF s(5) _ m(1,2)])
    show "slots (cn_servers A') = []" using s(6) demo_caller_facts(3) by simp
    show "stun_verify (dg_hmac ?D) m (cr_remote_pwd (cn_credentials A'))" using m(4) s(4) demo_keys by simp
    show "(demo_addr, stn_tid m) \<in> outs A'" using s(2) m(3) by simp
    have "ca_outstanding x = None" if "Some x \<in> set (cn_candidates demo_caller)" for x
      using that unfolding slots_mem [symmetric] demo_caller_facts(8) by simp
    then have "outs demo_caller = {}" by (auto simp: outs_def)
    then show "b' = demo_addr" if "(b', stn_tid m) \<in> outs A'" for b' using s(3) that by auto
  qed
  then show ?thesis using reach_step [OF 2 step_input [OF w]] by blast
qed

theorem conn_path_proved_witness:
  "\<exists>c evs pre dg mid dg' src post m m'. reachable (conn_start demo_creds) (conn_step demo_digests) (c, evs)
    \<and> conn_path c = Some demo_addr \<and> evs = pre @ [CO dg demo_addr] @ mid @ [CI dg' src] @ post
    \<and> stun_parse dg = Inr m \<and> stn_method m = BindingRequest
    \<and> stun_parse dg' = Inr m' \<and> stn_method m' = BindingSuccess \<and> stn_tid m' = stn_tid m"
proof -
  obtain c evs where c: "reachable (conn_start demo_creds) (conn_step demo_digests) (c, evs)" "conn_path c = Some demo_addr"
    using demo_established by blast
  show ?thesis using conn_path_proved [OF demo_digests_ok c] c by blast
qed

theorem conn_settled_forever_witness:
  "cn_state (fst (add_candidate (conn_poll (conn_new demo_creds (replicate 16 0) (Fin 0)) (Fin 7500)) demo_addr))
    = Failed NoCandidates"
proof -
  let ?c = "conn_poll (conn_new demo_creds (replicate 16 0) (Fin 0)) (Fin 7500)"
  have r: "reachable (conn_start demo_creds) (conn_step demo_digests) (?c, [])"
    by (rule reach_step [OF demo_reach step_poll])
  have st: "cn_state ?c = Failed NoCandidates"
    by (simp add: conn_poll_def conn_new_def PUNCH_WINDOW_MS_def fsub_def candidate_count_def slots_def)
  have w: "wf_addr demo_addr" by (simp add: demo_addr_def wf_addr_def)
  have "conn_step demo_digests (?c, []) (fst (add_candidate ?c demo_addr), [])"
    by (rule step_candidate [OF w surjective_pairing])
  then have "(conn_step demo_digests)\<^sup>*\<^sup>* (?c, []) (fst (add_candidate ?c demo_addr), [])" by (rule r_into_rtranclp)
  then have "cn_state (fst (fst (add_candidate ?c demo_addr), [] :: conn_event list)) = cn_state (fst (?c, [] :: conn_event list))"
    by (rule conn_settled_forever [OF demo_digests_ok r, rotated]) (simp add: st)
  then show ?thesis by (simp add: st)
qed

end
