(* ===== verification/Session_Properties.thy ===== *)
theory Session_Properties
  imports Session_Delivery
begin

text \<open>
  The properties of a session: nonce uniqueness across both ends, refusal of reflected records, error
  atomicity, delivery of every emitted packet to the peer, size bounds, atomic path transitions, pacing
  and keepalives, each with an instance on a concrete session.
\<close>

section \<open>A concrete session\<close>

definition demo_host :: session where "demo_host = session_new demo_envelope 1 (Fin 0)"
definition demo_guest :: session where "demo_guest = session_new_guest demo_envelope 1 (Fin 0)"
definition demo_polled :: session where "demo_polled = session_poll demo_host (Fin 50)"

lemma demo_host_fields:
  "se_tx_counter demo_host = 0" "se_direction demo_host = Host" "se_envelope demo_host = demo_envelope"
  "se_last_ack_sent_ms demo_host = Fin 0" "session_inv demo_host" "session_start demo_host"
  using session_new_inv by (auto simp: demo_host_def session_new_def session_with_direction_def session_start_def)

lemma demo_polled_due: "se_ack_due demo_polled" "session_inv demo_polled" "se_tx_counter demo_polled = 0"
proof -
  show "se_ack_due demo_polled" unfolding demo_polled_def
    by (rule poll_makes_due) (simp add: demo_host_fields ACK_CADENCE_MS_def fsub_def)
  show "session_inv demo_polled" unfolding demo_polled_def by (rule session_poll_inv) (rule demo_host_fields)
  show "se_tx_counter demo_polled = 0" by (simp add: demo_polled_def demo_host_fields)
qed

lemma demo_output:
  "\<exists>s' out'. get_output demo_aead demo_polled (Fin 50) (replicate 200 0) = (s', out', Some (Inr 112))
    \<and> emitted demo_aead demo_polled s' (take 112 out') (PAck (session_ack demo_polled))"
  using ack_leaves [OF demo_aead_ok demo_polled_due(2,1), of "replicate 200 0" "Fin 50"] demo_polled_due(3)
  by (auto simp: ACK_LEN_def ENVELOPE_LEN_def)

lemma demo_run:
  "\<exists>dg s. session_run demo_aead (session_with_direction demo_envelope Host 1 (Fin 0)) [dg] s"
proof -
  obtain s' out' where g: "get_output demo_aead demo_polled (Fin 50) (replicate 200 0) = (s', out', Some (Inr 112))"
    using demo_output by blast
  have "session_run demo_aead demo_host ([] @ []) demo_polled"
    unfolding demo_polled_def by (rule run_step [OF run_refl st_poll])
  then have "session_run demo_aead demo_host (([] @ []) @ sent_datagram out' (Some (Inr 112))) s'"
    by (rule run_step) (rule st_output [OF g])
  then show ?thesis by (auto simp: sent_datagram_def demo_host_def session_new_def)
qed

text \<open>
  C2: No nonce is ever used twice. Take the two ends of a session, which seal under the same key and
  nonce prefix, and any runs of the two, whatever the shells, the network and the peers do. All the
  datagrams either end puts on the wire carry pairwise different counters.
\<close>

theorem session_nonce_unique:
  assumes "aead_ok A"
    and "session_run A (session_with_direction env Host lvl now) ds s"
    and "session_run A (session_with_direction env Guest lvl' now') ds' s'"
  shows "distinct (map counter_field (ds @ ds'))"
proof -
  have d: "se_direction (session_with_direction env dir lvl now) = dir" for env dir lvl now by (simp add: session_with_direction_def)
  obtain cs where cs: "map counter_field ds = map (\<lambda>c. to_be64 (c OR seal_bit Host)) cs" "distinct cs" "\<forall>c \<in> set cs. c < 2 ^ 63"
    using session_run_counters [OF assms(2,1) session_new_inv] unfolding d by blast
  obtain cs' where cs': "map counter_field ds' = map (\<lambda>c. to_be64 (c OR seal_bit Guest)) cs'" "distinct cs'" "\<forall>c \<in> set cs'. c < 2 ^ 63"
    using session_run_counters [OF assms(3,1) session_new_inv] unfolding d by blast
  have inj: "distinct (map (\<lambda>c. to_be64 (c OR seal_bit dir)) xs)" if "distinct xs" "\<forall>c \<in> set xs. c < 2 ^ 63" for dir xs
    using that seal_bit_disjoint unfolding distinct_map inj_on_def by (metis to_be64_inject)
  have "set (map (\<lambda>c. to_be64 (c OR seal_bit Host)) cs) \<inter> set (map (\<lambda>c. to_be64 (c OR seal_bit Guest)) cs') = {}"
  proof -
    have "to_be64 (c OR seal_bit Host) \<noteq> to_be64 (c' OR seal_bit Guest)" if "c \<in> set cs" "c' \<in> set cs'" for c c'
      using seal_bit_disjoint [of c c' Host Guest] that cs(3) cs'(3) by auto
    then show ?thesis by auto
  qed
  then show ?thesis unfolding map_append cs(1) cs'(1) using inj [OF cs(2,3)] inj [OF cs'(2,3)] by simp
qed

theorem session_nonce_unique_witness:
  "\<exists>dg s. session_run demo_aead (session_with_direction demo_envelope Host 1 (Fin 0)) [dg] s
    \<and> distinct (map counter_field ([dg] @ []))"
proof -
  obtain dg s where r: "session_run demo_aead (session_with_direction demo_envelope Host 1 (Fin 0)) [dg] s"
    using demo_run by blast
  show ?thesis using r session_nonce_unique [OF demo_aead_ok r run_refl [of _ "session_with_direction demo_envelope Guest 1 (Fin 0)"]] by blast
qed

text \<open>
  A record that comes back is refused. No datagram a side has put on the wire in any run is
  accepted by a session that seals in the same direction: it is rejected before decryption and the
  session is unchanged.
\<close>

theorem session_reflection_refused:
  assumes "aead_ok A" "session_run A (session_with_direction env dir lvl now) ds s" "dg \<in> set ds" "se_direction t = dir"
  shows "process_input A t dg now' scratch = (t, Inl Decrypt)"
proof -
  have "from_datagram dg = Some dir"
    using session_run_counters [OF assms(2,1) session_new_inv] assms(3) by (auto simp: session_with_direction_def)
  then show ?thesis using assms(4) by (cases dir) (auto simp: process_input_def opposite_def)
qed

theorem session_reflection_refused_witness:
  "\<exists>dg s. session_run demo_aead (session_with_direction demo_envelope Host 1 (Fin 0)) [dg] s
    \<and> process_input demo_aead demo_host dg (Fin 60) (replicate 2000 0) = (demo_host, Inl Decrypt)"
proof -
  obtain dg s where r: "session_run demo_aead (session_with_direction demo_envelope Host 1 (Fin 0)) [dg] s"
    using demo_run by blast
  show ?thesis using r session_reflection_refused [OF demo_aead_ok r _ demo_host_fields(2)] by auto
qed

text \<open>
  C39: A datagram that is refused leaves no trace: when \<open>process_input\<close> returns an error the session is
  exactly as before, except that an authenticated probe whose declared size is not the size of the
  datagram that carried it has refreshed the progress time.
\<close>

theorem session_error_unchanged:
  assumes "process_input A s dg now scratch = (s', Inl e)"
  shows "s' = s \<or> e = Malformed \<and> s' = s\<lparr>se_last_progress_ms := now\<rparr>
    \<and> (\<exists>opn p. envelope_open A (se_envelope s) dg scratch = Inr opn \<and> parse (op_cleartext opn) = Inr (PProbe p) \<and> length dg \<noteq> pr_size p)"
  using assms
proof (cases rule: process_input_cases)
  case (2 opn pkt)
  then show ?thesis using dispatch_packet_error [OF 2(3)] by auto
qed simp

theorem session_error_unchanged_witness:
  "\<exists>s'. process_input demo_aead demo_host [] (Fin 60) [] = (s', Inl Decrypt) \<and> s' = demo_host"
proof -
  have "snd (process_input demo_aead demo_host [] (Fin 60) []) = Inl Decrypt"
    by (simp add: process_input_def from_datagram_def get_range_def NONCE_OFFSET_def)
  then have e: "process_input demo_aead demo_host [] (Fin 60) [] = (fst (process_input demo_aead demo_host [] (Fin 60) []), Inl Decrypt)"
    by (simp add: prod_eq_iff)
  from session_error_unchanged [OF e] e show ?thesis by auto
qed

text \<open>
  C10: What one end emits, the other end receives: whenever \<open>get_output\<close> of a reachable session returns
  a datagram, that datagram carries a pending acknowledgement, else a pending probe acknowledgement,
  else a queued fragment, and a peer with the same envelope and the opposite direction that processes it
  dispatches exactly that packet.
\<close>

theorem session_output_accepted:
  assumes "aead_ok A" "reachable session_start session_move s"
    and "get_output A s now out = (s', out', Some (Inr n))"
    and "se_envelope t = se_envelope s" "se_direction t = opposite (se_direction s)" "n \<le> length scratch + ENVELOPE_LEN"
  shows "\<exists>pkt. output_packet s pkt
    \<and> process_input A t (take n out') now' scratch = dispatch_packet (t\<lparr>se_last_progress_ms := now'\<rparr>) pkt n now'"
proof -
  have inv: "session_inv s" using assms(2) by (rule session_sys.reachable_inv)
  obtain pkt where pkt: "emitted A s s' (take n out') pkt" "output_packet s pkt" and n: "n \<le> length out'"
    using get_output_spec [OF assms(1) inv assms(3)] by (auto simp: output_ok_def)
  have "length (take n out') = n" using n by simp
  then show ?thesis using emitted_dispatch [OF assms(1) pkt(1) assms(4,5), of scratch now'] pkt(2) assms(6) by auto
qed

lemma demo_host_reachable: "reachable session_start session_move demo_host"
  by (rule reach_start) (rule demo_host_fields)

lemma demo_step: "reachable session_start session_move s \<Longrightarrow> session_step demo_aead s ds t \<Longrightarrow> reachable session_start session_move t"
  using reach_step demo_aead_ok session_move_def by metis

lemma demo_polled_reachable: "reachable session_start session_move demo_polled"
  unfolding demo_polled_def by (rule demo_step [OF demo_host_reachable st_poll])

theorem session_output_accepted_witness:
  "\<exists>s' out' pkt. get_output demo_aead demo_polled (Fin 50) (replicate 200 0) = (s', out', Some (Inr 112)) \<and> output_packet demo_polled pkt
    \<and> process_input demo_aead demo_guest (take 112 out') (Fin 60) (replicate 2000 0)
      = dispatch_packet (demo_guest\<lparr>se_last_progress_ms := Fin 60\<rparr>) pkt 112 (Fin 60)"
proof -
  obtain s' out' where g: "get_output demo_aead demo_polled (Fin 50) (replicate 200 0) = (s', out', Some (Inr 112))"
    using demo_output by blast
  have "se_envelope demo_guest = se_envelope demo_polled" "se_direction demo_guest = opposite (se_direction demo_polled)"
    by (simp_all add: demo_polled_def demo_host_fields demo_guest_def session_new_guest_def session_with_direction_def opposite_def)
  from g session_output_accepted [OF demo_aead_ok demo_polled_reachable g this, of "replicate 2000 0" "Fin 60"]
  show ?thesis by auto
qed

text \<open>
  C31: A session never exceeds its path: in every reachable state the path size lies between the base and
  the maximum datagram, and every datagram \<open>get_output\<close> returns is no longer than the path size and fits
  the caller's buffer, also after the path has shrunk with fragments in flight.
\<close>

theorem session_datagram_bounded:
  assumes "aead_ok A" "reachable session_start session_move s" "get_output A s now out = (s', out', Some (Inr n))"
  shows "n \<le> se_path_datagram_size s \<and> DEFAULT_DATAGRAM \<le> se_path_datagram_size s \<and> se_path_datagram_size s \<le> MAX_DATAGRAM
    \<and> n \<le> length out'"
proof -
  have inv: "session_inv s" using assms(2) by (rule session_sys.reachable_inv)
  then show ?thesis using get_output_spec [OF assms(1) inv assms(3)] by (simp add: output_ok_def session_inv_def legal_datagram_def)
qed

theorem session_datagram_bounded_witness:
  "\<exists>s' out'. get_output demo_aead demo_polled (Fin 50) (replicate 200 0) = (s', out', Some (Inr 112)) \<and> 112 \<le> se_path_datagram_size demo_polled"
  using demo_output session_datagram_bounded [OF demo_aead_ok demo_polled_reachable] by blast

text \<open>
  An example session with a reliable ring (channel 0) and a video ring (channel 1) attached, a one-fragment
  message queued on each.
\<close>

definition demo_wide :: "byte \<Rightarrow> send_ring" where
  "demo_wide ch = \<lparr>sr_bodies = replicate 1364 0, sr_meta = [send_slot_default], sr_slot_len = 1364,
     sr_fragment_capacity = 1193, sr_channel = ch, sr_base = 0, sr_next = 0, sr_cursor = 0, sr_nack_below = None,
     sr_outstanding = 0, sr_stale = 0, sr_bytes_sent = 0, sr_acked = 0, sr_bytes_acked = 0, sr_retransmitted = 0\<rparr>"

definition demo_queued :: "byte \<Rightarrow> send_ring" where
  "demo_queued ch = fst (send_enqueue (demo_wide ch) demo_msg)"

definition demo_attached :: session where
  "demo_attached = fst (attach_send (fst (attach_send demo_host 0 (demo_wide 0))) 1 (demo_wide 1))"

definition demo_session :: session where
  "demo_session = fst (send_message (fst (send_message demo_attached 0 [1, 2] [3, 4, 5])) 1 [1, 2] [3, 4, 5])"

lemma demo_wide_fresh: "unat ch < 19 \<Longrightarrow> send_fresh (demo_wide ch)"
  unfolding send_fresh_def demo_wide_def
  by (rule exI [of _ "replicate 1364 0"], rule exI [of _ 1], rule exI [of _ 1364], rule exI [of _ 1193], rule exI [of _ ch])
    (simp add: send_new_with_capacity_def usize_checked_mul_def usize_bound_def CHANNEL_COUNT_def not_le)

lemma demo_wide_fields [simp]:
  "sr_fragment_capacity (demo_wide ch) = 1193" "sr_next (demo_wide ch) = 0" "sr_base (demo_wide ch) = 0"
  "sr_slot_len (demo_wide ch) = 1364" "sr_meta (demo_wide ch) = [send_slot_default]" "window_free (demo_wide ch) = 1"
  by (simp_all add: demo_wide_def window_free_def u32_try_from_def send_in_flight_def sat_sub_def Let_def)

lemma demo_msg_one: "message_fragment_count demo_msg 1193 = 1" "message_new [1, 2] [3, 4, 5] = Inr demo_msg"
  by (simp_all add: message_fragment_count_def fragment_count_def total_len_def demo_msg_def of_be32_def
      LENGTH_PREFIX_LEN_def Let_def message_new_def usize_checked_add_def usize_bound_def u32_try_from_def to_be32_def)

lemma demo_queued_eq:
  assumes "unat ch < 19"
  shows "send_enqueue (demo_wide ch) demo_msg = (demo_queued ch, Inr 1)"
    and "demo_queued ch = (put_fragment (demo_wide ch) demo_msg 1193 0)\<lparr>sr_next := 1\<rparr>"
    and "send_abs (demo_queued ch) 0 = Some ([0, 0, 0, 5, 1, 2, 3, 4, 5], True)"
proof -
  have inv: "send_inv (demo_wide ch)" by (rule send_fresh_inv [OF demo_wide_fresh [OF assms]])
  have sh: "send_shape (demo_wide ch)" using inv by (simp add: send_inv_def)
  have "enqueue_loop (demo_wide ch) demo_msg 1193 0 1 = (put_fragments (demo_wide ch) demo_msg 1193 0 1, Inr ())"
    using sh demo_msg_wf(1) by (intro enqueue_loop_all) (simp_all add: demo_msg_one)
  moreover have "put_fragments (demo_wide ch) demo_msg 1193 0 1 = put_fragment (demo_wide ch) demo_msg 1193 0" by simp
  ultimately have l: "enqueue_loop (demo_wide ch) demo_msg 1193 0 (Suc 0) = (put_fragment (demo_wide ch) demo_msg 1193 0, Inr ())"
    by simp
  show "demo_queued ch = (put_fragment (demo_wide ch) demo_msg 1193 0)\<lparr>sr_next := 1\<rparr>"
    unfolding demo_queued_def send_enqueue_def using l by (simp add: demo_msg_one u32_try_from_def Let_def)
  show e: "send_enqueue (demo_wide ch) demo_msg = (demo_queued ch, Inr 1)"
    unfolding demo_queued_def send_enqueue_def using l by (simp add: demo_msg_one u32_try_from_def Let_def)
  have "chunk 1193 0 (stream demo_msg) = [0, 0, 0, 5, 1, 2, 3, 4, 5]" by (simp add: chunk_def stream_def demo_msg_def)
  then show "send_abs (demo_queued ch) 0 = Some ([0, 0, 0, 5, 1, 2, 3, 4, 5], True)"
    using send_enqueue_ok [OF inv demo_msg_wf(1) refl] e by (simp add: demo_msg_one)
qed

lemma demo_attached_rings:
  "se_send demo_attached = (replicate 19 None)[0 := Some (demo_wide 0), 1 := Some (demo_wide 1)]"
  "se_path_datagram_size demo_attached = 1229"
proof -
  have h: "se_send demo_host = replicate 19 None" "se_path_datagram_size demo_host = 1229"
    by (simp_all add: demo_host_def session_new_def session_with_direction_def CHANNEL_COUNT_def DEFAULT_DATAGRAM_def)
  then show "se_send demo_attached = (replicate 19 None)[0 := Some (demo_wide 0), 1 := Some (demo_wide 1)]"
    "se_path_datagram_size demo_attached = 1229"
    by (simp_all add: demo_attached_def attach_send_def body_capacity_of_def core_consts Let_def)
qed

lemma demo_session_rings:
  "se_send demo_session = (replicate 19 None)[0 := Some (demo_queued 0), 1 := Some (demo_queued 1)]"
  "se_path_datagram_size demo_session = 1229"
  using demo_queued_eq(1) [of 0] demo_queued_eq(1) [of 1]
  by (simp_all add: demo_session_def send_message_def demo_attached_rings ring_at_def get_at_def demo_msg_one list_update_swap)

lemma demo_session_set: "Some r \<in> set (se_send demo_session) \<Longrightarrow> r = demo_queued 0 \<or> r = demo_queued 1"
  using set_update_subset_insert [of "(replicate 19 None)[0 := Some (demo_queued 0)]" 1 "Some (demo_queued 1)"]
    set_update_subset_insert [of "replicate 19 None" 0 "Some (demo_queued 0)"]
  unfolding demo_session_rings by auto

lemma demo_message_step:
  assumes r: "reachable session_start session_move s" and c: "ring_at (se_send s) (unat ch) = Some (demo_wide ch)"
  shows "reachable session_start session_move (fst (send_message s ch [1, 2] [3, 4, 5]))"
  by (rule demo_step [OF r st_message]) (use c in \<open>auto simp: demo_msg_one\<close>)

lemma demo_session_reachable: "reachable session_start session_move demo_session"
proof -
  have a: "reachable session_start session_move (fst (attach_send demo_host 0 (demo_wide 0)))"
    by (rule demo_step [OF demo_host_reachable st_attach_send [OF demo_wide_fresh prod.collapse [symmetric]]]) simp
  have "reachable session_start session_move demo_attached"
    unfolding demo_attached_def by (rule demo_step [OF a st_attach_send [OF demo_wide_fresh prod.collapse [symmetric]]]) simp
  then have "reachable session_start session_move (fst (send_message demo_attached 0 [1, 2] [3, 4, 5]))"
    by (rule demo_message_step) (simp add: demo_attached_rings ring_at_def get_at_def)
  moreover have "ring_at (se_send (fst (send_message demo_attached 0 [1, 2] [3, 4, 5]))) (unat (1 :: byte)) = Some (demo_wide 1)"
    by (simp add: send_message_def demo_attached_rings ring_at_def get_at_def demo_msg_one split: prod.split)
  ultimately show ?thesis unfolding demo_session_def by (rule demo_message_step)
qed

lemma demo_queued_capacity:
  assumes "unat ch < 19" "9 \<le> cap" "cap \<le> 1364"
  shows "can_set_fragment_capacity (demo_queued ch) cap"
  using assms by (simp add: can_set_fragment_capacity_def demo_queued_eq(2) put_fragment_def Let_def send_slot_default_def
      chunk_def stream_def demo_msg_def)

text \<open>
  C12: A path transition is all or nothing. In every reachable state \<open>set_path_datagram_size\<close> either
  returns false and changes nothing, or returns true and changes exactly three things: the path size
  and the pacer's datagram size become the new size, and the ring of every attached channel gets the
  fragment capacity of the new size and nothing else, so the same channels stay attached and every
  queue is as it was. It is granted exactly when the size is legal and every ring can represent what it
  holds at that size.
\<close>

theorem session_path_atomic:
  assumes "reachable session_start session_move s" "set_path_datagram_size s n = (s', ok)"
  shows "(ok \<longleftrightarrow> legal_datagram n \<and> (\<forall>r. Some r \<in> set (se_send s) \<longrightarrow> can_set_fragment_capacity r (body_capacity_of n)))
    \<and> (if ok then se_path_datagram_size s' = n \<and> pc_datagram_bytes (se_pacer s') = n \<and> same_queue (se_send s) (se_send s')
           \<and> se_send s' = map (map_option (\<lambda>r. r\<lparr>sr_fragment_capacity := body_capacity_of n\<rparr>)) (se_send s)
           \<and> s' = s\<lparr>se_pacer := se_pacer s', se_send := se_send s', se_path_datagram_size := se_path_datagram_size s'\<rparr>
       else s' = s)"
proof -
  have inv: "session_inv s" using assms(1) by (rule session_sys.reachable_inv)
  let ?B = "body_capacity_of n" and ?g = "legal_datagram n \<and> (\<forall>r. Some r \<in> set (se_send s) \<longrightarrow> can_set_fragment_capacity r (body_capacity_of n))"
  note c = set_path_cases [OF inv, of n]
  show ?thesis
  proof (cases ?g)
    case True
    then have e: "s' = s\<lparr>se_pacer := fst (set_datagram_size (se_pacer s) n), se_send := resize_rings (se_send s) ?B, se_path_datagram_size := n\<rparr>" "ok"
      using c assms(2) by auto
    have q: "same_queue (se_send s) (resize_rings (se_send s) ?B)"
      unfolding resize_rings_def by (rule same_queue_map) (simp add: same_ring_def, simp add: set_fragment_capacity_def)
    have cap: "resize_rings (se_send s) ?B = map (map_option (\<lambda>r. r\<lparr>sr_fragment_capacity := ?B\<rparr>)) (se_send s)"
      using True by (auto simp: resize_rings_def set_fragment_capacity_def intro!: option.map_cong)
    have "pc_datagram_bytes (fst (set_datagram_size (se_pacer s) n)) = n"
      using True inv by (simp add: set_datagram_size_def Let_def session_inv_def compatibility_default_def legal_datagram_def core_consts)
    then show ?thesis using True e q cap by simp
  next
    case False
    then show ?thesis using c assms(2) by auto
  qed
qed

theorem session_path_atomic_witness:
  "snd (set_path_datagram_size demo_session 1400)
    \<and> se_path_datagram_size (fst (set_path_datagram_size demo_session 1400)) = 1400
    \<and> ring_at (se_send (fst (set_path_datagram_size demo_session 1400))) 0 = Some ((demo_queued 0)\<lparr>sr_fragment_capacity := 1364\<rparr>)
    \<and> ring_at (se_send (fst (set_path_datagram_size demo_session 1400))) 1 = Some ((demo_queued 1)\<lparr>sr_fragment_capacity := 1364\<rparr>)
    \<and> send_abs (demo_queued 0) 0 = Some ([0, 0, 0, 5, 1, 2, 3, 4, 5], True)"
proof -
  have b: "body_capacity_of 1400 = 1364" by (simp add: body_capacity_of_def core_consts)
  have g: "legal_datagram 1400 \<and> (\<forall>r. Some r \<in> set (se_send demo_session) \<longrightarrow> can_set_fragment_capacity r (body_capacity_of 1400))"
    using demo_queued_capacity [of 0 1364] demo_queued_capacity [of 1 1364] demo_session_set
    by (auto simp: b legal_datagram_def core_consts)
  let ?s = "fst (set_path_datagram_size demo_session 1400)"
  note t = session_path_atomic [OF demo_session_reachable prod.collapse [symmetric], of 1400]
  have ok: "snd (set_path_datagram_size demo_session 1400)" using t g by blast
  then have "se_send ?s = map (map_option (\<lambda>r. r\<lparr>sr_fragment_capacity := 1364\<rparr>)) (se_send demo_session)"
    "se_path_datagram_size ?s = 1400" using t b by simp_all
  then show ?thesis using ok demo_queued_eq(3) [of 0] by (simp add: demo_session_rings ring_at_def get_at_def)
qed

lemma can_recover_iff:
  "can_recover_video_path_datagram_size s n \<longleftrightarrow> n < se_path_datagram_size s \<and> legal_datagram n
     \<and> (\<forall>i r. ring_at (se_send s) i = Some r \<longrightarrow>
          (if i = VIDEO_CHANNEL then body_capacity_of n \<le> sr_slot_len r else can_set_fragment_capacity r (body_capacity_of n)))"
proof -
  have "list_all P (enumerate 0 xs) \<longleftrightarrow> (\<forall>i. i < length xs \<longrightarrow> P (i, xs ! i))" for P :: "nat \<times> send_ring option \<Rightarrow> bool" and xs
    by (auto simp: list_all_iff in_set_enumerate_eq)
  then show ?thesis
    by (auto simp: can_recover_video_path_datagram_size_def Let_def ring_at_def get_at_def split: option.splits)
qed

lemma recovered_at:
  "ring_at (recovered_rings rings) i = (if i = VIDEO_CHANNEL then map_option (fst \<circ> discard_pending) (ring_at rings i) else ring_at rings i)"
proof (cases "ring_at rings VIDEO_CHANNEL")
  case (Some v)
  then show ?thesis using ring_at_update [of VIDEO_CHANNEL rings] ring_at_set [OF Some] by (simp add: recovered_rings_def)
qed (simp add: recovered_rings_def)

text \<open>
  C34: Black-hole recovery never loses a reliable message. In every reachable state
  \<open>recover_video_path_datagram_size\<close> either refuses and changes nothing, or shrinks the path with the same
  channels attached: every ring but the video ring is exactly as it was but for its capacity, the
  video ring, if there is one, is emptied at the new capacity with its next sequence kept, and the
  number returned is the number of video fragments abandoned, 0 without a video ring. It is granted
  exactly for a legal smaller size at which the video slots are long enough and every other ring can
  represent what it holds.
\<close>

theorem session_recovery_reliable:
  assumes "reachable session_start session_move s" "recover_video_path_datagram_size s n = (s', res)"
  shows "(res \<noteq> None \<longleftrightarrow> n < se_path_datagram_size s \<and> legal_datagram n
      \<and> (\<forall>i r. ring_at (se_send s) i = Some r \<longrightarrow>
           (if i = VIDEO_CHANNEL then body_capacity_of n \<le> sr_slot_len r else can_set_fragment_capacity r (body_capacity_of n))))
    \<and> (case res of None \<Rightarrow> s' = s
      | Some dropped \<Rightarrow> se_path_datagram_size s' = n
          \<and> s' = s\<lparr>se_pacer := se_pacer s', se_send := se_send s', se_path_datagram_size := se_path_datagram_size s'\<rparr>
          \<and> length (se_send s') = length (se_send s)
          \<and> (\<forall>i. i \<noteq> VIDEO_CHANNEL \<longrightarrow>
               ring_at (se_send s') i = map_option (\<lambda>r. r\<lparr>sr_fragment_capacity := body_capacity_of n\<rparr>) (ring_at (se_send s) i))
          \<and> (case ring_at (se_send s) VIDEO_CHANNEL of None \<Rightarrow> ring_at (se_send s') VIDEO_CHANNEL = None \<and> dropped = 0
             | Some r \<Rightarrow> \<exists>r'. ring_at (se_send s') VIDEO_CHANNEL = Some r' \<and> send_abs r' = (\<lambda>k. None) \<and> dropped = send_in_flight r
                 \<and> sr_fragment_capacity r' = body_capacity_of n \<and> sr_next r' = sr_next r \<and> sr_channel r' = sr_channel r))"
proof -
  have inv: "session_inv s" using assms(1) by (rule session_sys.reachable_inv)
  let ?B = "body_capacity_of n" and ?R = "recovered_rings (se_send s)"
  let ?d = "case ring_at (se_send s) VIDEO_CHANNEL of None \<Rightarrow> 0 | Some ring \<Rightarrow> send_in_flight ring"
  note g = can_recover_iff [of s n]
  show ?thesis
  proof (cases "can_recover_video_path_datagram_size s n")
    case False
    then have "s' = s" "res = None" using assms(2) by (auto simp: recover_video_path_datagram_size_def)
    then show ?thesis using False g by simp
  next
    case True
    then have e: "s' = s\<lparr>se_pacer := fst (set_datagram_size (se_pacer s) n), se_send := resize_rings ?R ?B, se_path_datagram_size := n\<rparr>"
        "res = Some ?d"
      using recover_cases [OF inv, of n] assms(2) by auto
    have at: "ring_at (resize_rings ?R ?B) i = map_option (\<lambda>r. r\<lparr>sr_fragment_capacity := ?B\<rparr>) (ring_at ?R i)" for i
      using can_recover_rings [OF inv True] ring_at_set [of ?R i]
      by (cases "ring_at ?R i") (auto simp: resize_rings_def ring_at_map set_fragment_capacity_def)
    have rec: "ring_at ?R i = (if i = VIDEO_CHANNEL then map_option (fst \<circ> discard_pending) (ring_at (se_send s) i) else ring_at (se_send s) i)" for i
      by (rule recovered_at)
    have len: "length (resize_rings ?R ?B) = length (se_send s)"
      by (simp add: resize_rings_def recovered_rings_def split: option.split)
    have abs: "send_abs ((fst (discard_pending v))\<lparr>sr_fragment_capacity := ?B\<rparr>) = (\<lambda>k. None)" for v
      by (auto simp: discard_pending_def send_abs_def fun_eq_iff)
    show ?thesis
      using True g e len at rec abs
      by (auto simp: discard_pending_def split: option.splits)
  qed
qed

theorem session_recovery_reliable_witness:
  "\<exists>s' r'. recover_video_path_datagram_size (fst (set_path_datagram_size demo_session 1400)) 1300 = (s', Some 1)
    \<and> se_path_datagram_size s' = 1300
    \<and> ring_at (se_send s') 0 = Some ((demo_queued 0)\<lparr>sr_fragment_capacity := 1264\<rparr>)
    \<and> ring_at (se_send s') 1 = Some r' \<and> send_abs r' = (\<lambda>k. None)"
proof -
  let ?s = "fst (set_path_datagram_size demo_session 1400)"
  have b: "body_capacity_of 1400 = 1364" "body_capacity_of 1300 = 1264" by (simp_all add: body_capacity_of_def core_consts)
  have r: "reachable session_start session_move ?s" by (rule demo_step [OF demo_session_reachable st_path])
  have cp: "can_set_fragment_capacity (demo_queued ch) cap" if "ch \<in> {0, 1}" "9 \<le> cap" "cap \<le> 1364" for ch cap
    using demo_queued_capacity [of ch cap] that by auto
  have "legal_datagram 1400 \<and> (\<forall>r. Some r \<in> set (se_send demo_session) \<longrightarrow> can_set_fragment_capacity r (body_capacity_of 1400))"
    using cp [of 0 1364] cp [of 1 1364] demo_session_set by (auto simp: b legal_datagram_def core_consts)
  then have s: "?s = demo_session\<lparr>se_pacer := fst (set_datagram_size (se_pacer demo_session) 1400),
      se_send := resize_rings (se_send demo_session) 1364, se_path_datagram_size := 1400\<rparr>"
    using set_path_cases [OF session_sys.reachable_inv [OF demo_session_reachable], of 1400] by (simp add: b)
  let ?up = "\<lambda>ch. (demo_queued ch)\<lparr>sr_fragment_capacity := 1364\<rparr>"
  have at: "ring_at (se_send ?s) i = (if i = 0 then Some (?up 0) else if i = 1 then Some (?up 1) else None)" for i
  proof -
    have "ring_at (se_send demo_session) i = (if i = 0 then Some (demo_queued 0) else if i = 1 then Some (demo_queued 1) else None)"
      by (simp add: demo_session_rings ring_at_def get_at_def)
    then show ?thesis
      unfolding s using cp [of 0 1364] cp [of 1 1364] by (simp add: resize_rings_def ring_at_map set_fragment_capacity_def)
  qed
  have up: "can_set_fragment_capacity (?up 0) 1264" using cp [of 0 1264] by (simp add: can_set_fragment_capacity_def)
  have q: "sr_slot_len (demo_queued 1) = 1364" "send_in_flight (demo_queued 1) = 1" "1364 < usize_bound"
    by (simp_all add: demo_queued_eq(2) send_in_flight_def usize_bound_def)
  obtain s' res where e: "recover_video_path_datagram_size ?s 1300 = (s', res)" by fastforce
  note t = session_recovery_reliable [OF r e]
  have "se_path_datagram_size ?s = 1400" unfolding s by simp
  then have "res \<noteq> None" using t at up q by (auto simp: b legal_datagram_def core_consts VIDEO_CHANNEL_def)
  then obtain d where d: "res = Some d" by blast
  have "send_in_flight (?up 1) = 1" using q by (simp add: send_in_flight_def)
  then have "d = 1" "se_path_datagram_size s' = 1300" "ring_at (se_send s') 0 = Some ((demo_queued 0)\<lparr>sr_fragment_capacity := 1264\<rparr>)"
      "\<exists>r'. ring_at (se_send s') 1 = Some r' \<and> send_abs r' = (\<lambda>k. None)"
    using t d at by (auto simp: b VIDEO_CHANNEL_def)
  then show ?thesis using e d by blast
qed

text \<open>
  Paced video never overdraws: when \<open>get_output\<close> of a reachable session with an enabled pacer emits a
  datagram from the video position, the charge of exactly that datagram's length succeeds, so the
  assertion after the charge never fires, and the pacer afterwards is the charged one; any other
  datagram leaves the pacer alone.
\<close>

theorem session_paced_video:
  assumes "aead_ok A" "reachable session_start session_move s" "\<not> feedback_pending s"
    and "get_output A s now out = (s', out', Some (Inr n))"
  shows "if DRAIN_ORDER ! se_drain_channel s' = VIDEO_CHANNEL \<and> pacer_enabled (se_pacer s)
    then try_consume (se_pacer s) now n = (se_pacer s', True) else se_pacer s' = se_pacer s"
proof -
  have inv: "session_inv s" using assms(2) by (rule session_sys.reachable_inv)
  have "pacer_inv (se_pacer s)" using inv by (simp add: session_inv_def)
  then have "snd (try_consume (se_pacer s) now n) = can_consume (se_pacer s) now n" by (rule pacer_bucket.charge_can)
  then show ?thesis
    using get_output_paced [OF assms(1) inv assms(3,4)] unfolding paced_ok_def by (auto simp: prod_eq_iff split: if_splits)
qed

text \<open>A session with a paced video ring that holds a message.\<close>

definition demo_video :: session where
  "demo_video = fst (send_message (fst (attach_send (set_pacing_rate_mbps demo_host (Fin 0) (Fin 8)) 1 demo_send)) 1 [1, 2] [3, 4, 5])"

definition demo_pacer :: pacer where
  "demo_pacer = set_rate (pacer_new (Fin 0)) (Fin 0) (Fin 8)"

lemma demo_pacer_eval: "pacer_enabled demo_pacer" "can_consume demo_pacer (Fin 0) 40"
proof -
  have p: "demo_pacer = \<lparr>pc_config = compatibility_default, pc_rate_mbps = Fin 8, pc_tokens_bytes = Fin 4916, pc_last_ms = Fin 0, pc_datagram_bytes = 1229\<rparr>"
    by (simp add: demo_pacer_def set_rate_def Let_def demo_rate pacer_enabled_def refill_def pacer_new_def pacer_capacity_def
        compatibility_default_def MAX_BURST_DATAGRAMS_def MAX_BURST_TIME_MS_def f64_of_nat_small fmin_def fmax_def)
  show "pacer_enabled demo_pacer" "can_consume demo_pacer (Fin 0) 40"
    by (simp_all add: p pacer_enabled_def can_consume_def available_def f64_of_nat_small)
qed

lemma demo_video_fields:
  "se_send demo_video = (replicate 19 None)[1 := Some demo_sent]" "se_pacer demo_video = demo_pacer"
  "\<not> se_ack_due demo_video" "se_pending_probe_ack demo_video = None" "\<not> se_drain_started demo_video"
  "se_srtt_ms demo_video = Fin 0" "se_level demo_video = 1" "se_tx_counter demo_video = 0" "reachable session_start session_move demo_video"
proof -
  define s1 where "s1 = set_pacing_rate_mbps demo_host (Fin 0) (Fin 8)"
  define s2 where "s2 = fst (attach_send s1 1 demo_send)"
  have s1: "s1 = demo_host\<lparr>se_pacer := demo_pacer\<rparr>"
    by (simp add: s1_def set_pacing_rate_mbps_def demo_pacer_def demo_host_def session_new_def session_with_direction_def)
  have s2: "s2 = s1\<lparr>se_send := (se_send s1)[1 := Some demo_send]\<rparr>"
    by (simp add: s2_def attach_send_def s1 demo_host_def session_new_def session_with_direction_def Let_def body_capacity_of_def
        core_consts demo_send_def)
  have sd: "se_send s2 = (replicate 19 None)[1 := Some demo_send]"
    by (simp add: s2 s1 demo_host_def session_new_def session_with_direction_def CHANNEL_COUNT_def)
  have m: "message_new [1, 2] [3, 4, 5] = Inr demo_msg"
    by (simp add: message_new_def demo_msg_def usize_checked_add_def usize_bound_def u32_try_from_def to_be32_def)
  have at: "ring_at (se_send s2) (unat (1 :: byte)) = Some demo_send" unfolding sd by (simp add: ring_at_def get_at_def)
  have v: "demo_video = s2\<lparr>se_send := (se_send s2)[1 := Some demo_sent]\<rparr>"
    using at m demo_enqueued(1) unfolding demo_video_def s1_def [symmetric] s2_def [symmetric] by (simp add: send_message_def)
  show "se_send demo_video = (replicate 19 None)[1 := Some demo_sent]" unfolding v using sd by simp
  show "se_pacer demo_video = demo_pacer" "\<not> se_ack_due demo_video" "se_pending_probe_ack demo_video = None"
    "\<not> se_drain_started demo_video" "se_srtt_ms demo_video = Fin 0" "se_level demo_video = 1" "se_tx_counter demo_video = 0"
    by (simp_all add: v s2 s1 demo_host_def session_new_def session_with_direction_def)
  have r1: "reachable session_start session_move s1" unfolding s1_def by (rule demo_step [OF demo_host_reachable st_rate])
  have r2: "reachable session_start session_move s2"
    by (rule demo_step [OF r1], rule st_attach_send [OF demo_send_fresh, of s1 1]) (simp add: s2_def prod_eq_iff)
  show "reachable session_start session_move demo_video"
    unfolding demo_video_def s1_def [symmetric] s2_def [symmetric]
    by (rule demo_step [OF r2], rule st_message) (use at m in \<open>simp add: demo_send_params demo_msg_count\<close>)
qed

lemma demo_video_output:
  "\<exists>s' out'. get_output demo_aead demo_video (Fin 0) (replicate 100 0) = (s', out', Some (Inr 40)) \<and> se_drain_channel s' = 2"
proof -
  let ?r = "begin_pass demo_sent" and ?out = "replicate 100 (0 :: byte)" and ?body = "replicate 71 (0 :: byte)"
  have base: "sr_base demo_sent = 0"
    using send_enqueue_ok [OF send_fresh_inv [OF demo_send_fresh] demo_msg_wf(1) refl]
    by (auto simp: demo_send_params demo_msg_count demo_sent_def) (simp add: demo_send_def)
  have r: "send_inv ?r" "sr_cursor ?r = 0" "sr_next ?r = sr_next demo_sent" "sr_outstanding ?r = 0" "sr_slot_len ?r = 4"
    "send_slot_at ?r k = send_slot_at demo_sent k" "send_body_at ?r k = send_body_at demo_sent k" for k
    using begin_pass_inv [OF demo_enqueued(2)] base demo_enqueued(5)
    by (simp_all add: begin_pass_def send_slot_at_def send_body_at_def)
  have "send_abs demo_sent 0 = Some (chunk 4 0 (stream demo_msg), False)"
    using send_enqueue_ok [OF send_fresh_inv [OF demo_send_fresh] demo_msg_wf(1) refl]
    by (auto simp: demo_send_params demo_msg_count demo_sent_def)
  then have b0: "length (send_body_at demo_sent 0) = 4"
    by (auto simp: send_abs_def chunk_def stream_def demo_msg_def split: if_splits)
  obtain r' body' where p: "poll_send ?r (Fin 0) (Fin 0) 1 ?body = (r', body', Some (Inr 11))" "length body' = 71"
    using poll_send_pending [OF r(1), of "Fin 0" "Fin 0" 1 ?body] scan_emit_ok [OF r(1), of 0 ?body "Fin 0" "Fin 0" 1] r demo_enqueued b0
    by (auto simp: HEADER_LEN_def)
  have due: "next_due_len ?r (Fin 0) (Fin 0) 1 = Some 11"
    using poll_send_spec [OF r(1) p(1)] by (auto simp: emits_def next_due_len_def)
  define s0 where "s0 = start_pass demo_video"
  have s0: "se_send s0 = (replicate 19 None)[1 := Some ?r]" "se_drain_channel s0 = 0" "se_pacer s0 = demo_pacer" "se_srtt_ms s0 = Fin 0"
    "se_level s0 = 1" "se_tx_counter s0 = 0" "se_drain_bytes s0 = replicate 19 0"
    by (simp_all add: s0_def start_pass_def demo_video_fields map_update CHANNEL_COUNT_def)
  define s2 where "s2 = next_position (next_position s0)"
  have s2: "se_send s2 = (replicate 19 None)[1 := Some ?r]" "se_drain_channel s2 = 2" "se_pacer s2 = demo_pacer" "se_srtt_ms s2 = Fin 0"
    "se_level s2 = 1" "se_tx_counter s2 = 0"
    using s0 by (simp_all add: s2_def next_position_def)
  have none: "ring_at ((replicate 19 None)[1 := Some ?r]) i = None" if "i \<noteq> 1" for i
    using that by (simp add: ring_at_def get_at_def nth_list_update)
  have st: "drain_step demo_aead t (Fin 0) ?out i = Continue (next_position t)"
    if "se_send t = (replicate 19 None)[1 := Some ?r]" "i \<noteq> 1" for t i
    using none [OF that(2)] that(1) by (simp add: drain_step_def)
  have d0: "session_drain demo_aead s0 (Fin 0) ?out = session_drain demo_aead s2 (Fin 0) ?out"
    by (simp add: session_drain.simps [of _ s0] session_drain.simps [of _ "next_position s0"] s0 CHANNEL_COUNT_def DRAIN_ORDER_def
        get_at_def st s2_def)
  obtain t' out' where sl: "session_seal demo_aead (s2\<lparr>se_send := (se_send s2)[1 := Some r']\<rparr>) 11 (take ENVELOPE_LEN ?out @ body') = (t', Inr (out', 40))"
    and t': "se_drain_channel t' = 2"
  proof -
    let ?t = "s2\<lparr>se_send := (se_send s2)[1 := Some r']\<rparr>"
    obtain out' where "seal_in_place demo_aead (se_envelope ?t) (0 OR seal_bit (se_direction ?t)) 11 (take ENVELOPE_LEN ?out @ body') = Inr (out', 11 + ENVELOPE_LEN)"
      using seal_in_place_ok [OF demo_aead_ok, of 11 "take ENVELOPE_LEN ?out @ body'" "se_envelope ?t" "0 OR seal_bit (se_direction ?t)"] p(2)
      by (auto simp: core_consts)
    then show ?thesis
      using that [of "?t\<lparr>se_tx_counter := 1\<rparr>" out'] s2
      by (simp add: session_seal_def two63 Let_def chk_add_def ENVELOPE_LEN_def del: push_bit_of_1)
  qed
  have at: "ring_at (se_send s2) 1 = Some ?r" unfolding s2 by (simp add: ring_at_def get_at_def)
  have ds: "drain_step demo_aead s2 (Fin 0) ?out 1 = Return (charge_drain t' 1 True (Fin 0) 40) out' (Some (Inr 40))"
    using at due p(1) sl demo_pacer_eval s2
    by (simp add: drain_step_def drain_send_def yields_quantum_def priority_quantum_def CONTROL_CHANNEL_INDEX_def AUDIO_CHANNEL_INDEX_def
        AUDIO_CHANNEL_def VIDEO_CHANNEL_def usize_saturating_add_def usize_bound_def ENVELOPE_LEN_def get_from_def Let_def)
  have "session_drain demo_aead s2 (Fin 0) ?out = (charge_drain t' 1 True (Fin 0) 40, out', Some (Inr 40))"
    using ds by (simp add: session_drain.simps [of _ s2] s2 CHANNEL_COUNT_def DRAIN_ORDER_def get_at_def)
  then have "get_output demo_aead demo_video (Fin 0) ?out = (charge_drain t' 1 True (Fin 0) 40, out', Some (Inr 40))"
    using d0 by (simp add: get_output_def demo_video_fields s0_def)
  then show ?thesis using t' by (simp add: charge_drain_pacer_eq)
qed

theorem session_paced_video_witness:
  "\<exists>s' out'. get_output demo_aead demo_video (Fin 0) (replicate 100 0) = (s', out', Some (Inr 40))
    \<and> pacer_enabled (se_pacer demo_video) \<and> try_consume (se_pacer demo_video) (Fin 0) 40 = (se_pacer s', True)"
proof -
  obtain s' out' where g: "get_output demo_aead demo_video (Fin 0) (replicate 100 0) = (s', out', Some (Inr 40))" and c: "se_drain_channel s' = 2"
    using demo_video_output by blast
  have f: "\<not> feedback_pending demo_video" by (simp add: feedback_pending_def demo_video_fields)
  from session_paced_video [OF demo_aead_ok demo_video_fields(9) f g]
  have "try_consume (se_pacer demo_video) (Fin 0) 40 = (se_pacer s', True)"
    by (simp add: c demo_video_fields demo_pacer_eval DRAIN_ORDER_def VIDEO_CHANNEL_def)
  then show ?thesis using g demo_video_fields(2) demo_pacer_eval(1) by auto
qed

text \<open>
  The cadence always produces feedback: a poll of a reachable session at least thirty milliseconds
  after its last acknowledgement, followed by \<open>get_output\<close> with room for 112 bytes, emits a datagram that
  carries the cumulative counts of all channels, clears the debt and restarts the cadence, as long as
  the counter space lasts.
\<close>

theorem session_keepalive_leaves:
  assumes "aead_ok A" "reachable session_start session_move s" "se_tx_counter s < 2 ^ 63"
    and "fle ACK_CADENCE_MS (fsub now (se_last_ack_sent_ms s))" "ACK_LEN + ENVELOPE_LEN \<le> length out"
  shows "\<exists>s' out'. get_output A (session_poll s now) now out = (s', out', Some (Inr (ACK_LEN + ENVELOPE_LEN)))
    \<and> emitted A (session_poll s now) s' (take (ACK_LEN + ENVELOPE_LEN) out') (PAck (session_ack (session_poll s now)))
    \<and> \<not> se_ack_due s' \<and> se_last_ack_sent_ms s' = now"
proof (rule ack_leaves [OF assms(1) _ _ _ assms(5)])
  show "session_inv (session_poll s now)" using session_poll_inv session_sys.reachable_inv [OF assms(2)] by blast
  show "se_ack_due (session_poll s now)" using poll_makes_due assms(4) by blast
  show "se_tx_counter (session_poll s now) < 2 ^ 63" using assms(3) by simp
qed

theorem session_keepalive_leaves_witness:
  "\<exists>s' out'. get_output demo_aead (session_poll demo_host (Fin 50)) (Fin 50) (replicate 112 0) = (s', out', Some (Inr 112))
    \<and> \<not> se_ack_due s'"
  using session_keepalive_leaves [OF demo_aead_ok demo_host_reachable, of "Fin 50" "replicate 112 0"]
  by (auto simp: demo_host_fields ACK_CADENCE_MS_def fsub_def ACK_LEN_def ENVELOPE_LEN_def)

end
