(* ===== verification/Endpoint_Properties.thy ===== *)
theory Endpoint_Properties
  imports Endpoint Conn_Properties Session_Properties
begin

text \<open>
  What an endpoint promises: the controller and the session never disagree about the path size, recovery
  from a black hole is all or nothing, and media leaves only along the path the punch has proved, in
  datagrams the peer routes to the engine they are meant for.
\<close>

section \<open>The endpoint as a transition system\<close>

text \<open>
  The steps are the calls of the shell. Through \<open>conn()\<close> it offers candidates and servers; through
  \<open>session()\<close> it uses the session in every way that leaves the path size to the controller.
\<close>

inductive endpoint_step :: "digests \<Rightarrow> aead \<Rightarrow> endpoint \<Rightarrow> endpoint \<Rightarrow> bool" for D A where
  es_candidate: "wf_addr a \<Longrightarrow> add_candidate (ep_conn e) a = (c, r) \<Longrightarrow> endpoint_step D A e (e\<lparr>ep_conn := c\<rparr>)"
| es_server: "wf_addr a \<Longrightarrow> add_server (ep_conn e) a = (c, r) \<Longrightarrow> endpoint_step D A e (e\<lparr>ep_conn := c\<rparr>)"
| es_session: "session_step A (ep_session e) ds s \<Longrightarrow>
    se_path_datagram_size s = se_path_datagram_size (ep_session e) \<Longrightarrow> endpoint_step D A e (e\<lparr>ep_session := s\<rparr>)"
| es_configure: "configure_path_mtu e config now = (e', ok) \<Longrightarrow> endpoint_step D A e e'"
| es_recover: "recover_path_black_hole e now = (e', r) \<Longrightarrow> endpoint_step D A e e'"
| es_input: "wf_addr a \<Longrightarrow> endpoint_process_input D A e dg a now scratch = (e', r) \<Longrightarrow> endpoint_step D A e e'"
| es_poll: "endpoint_step D A e (endpoint_poll e now)"
| es_output: "endpoint_get_output D A e now out = (e', r) \<Longrightarrow> endpoint_step D A e e'"

definition endpoint_start :: "endpoint \<Rightarrow> bool" where
  "endpoint_start e \<longleftrightarrow> (\<exists>creds seed t s. length seed = 16 \<and> session_start s \<and> e = endpoint_new (conn_new creds seed t) s)"

definition endpoint_move :: "endpoint \<Rightarrow> endpoint \<Rightarrow> bool" where
  "endpoint_move e e' \<longleftrightarrow> (\<exists>D A. digests_ok D \<and> aead_ok A \<and> endpoint_step D A e e')"

lemma endpoint_step_inv:
  assumes D: "digests_ok D" and A: "aead_ok A" and inv: "ep_inv e" and st: "endpoint_step D A e e'"
  shows "ep_inv e'"
  using st
proof cases
  case (es_candidate a c r)
  then show ?thesis using inv add_candidate_inv [OF _ es_candidate(2,3)] by (simp add: ep_inv_def)
next
  case (es_server a c r)
  then obtain ss where "c = (ep_conn e)\<lparr>cn_servers := ss\<rparr>" "length ss = length (cn_servers (ep_conn e))"
    using add_server_frame by blast
  then show ?thesis using inv es_server conn_inv_servers by (simp add: ep_inv_def)
next
  case (es_session ds s)
  have "session_inv s" using session_step_ok [OF A _ es_session(2)] inv by (simp add: ep_inv_def step_ok_def)
  then show ?thesis using inv es_session by (simp add: ep_inv_def mtu_agrees_def split: option.splits)
next
  case (es_configure config now ok)
  then show ?thesis using configure_inv [OF inv] by blast
next
  case (es_recover now r)
  then show ?thesis using recover_path_inv [OF inv, of now] by simp
next
  case (es_input a dg now scratch r)
  then show ?thesis using endpoint_input_inv [OF inv] by blast
next
  case (es_poll now)
  then show ?thesis using endpoint_poll_inv [OF inv] by simp
next
  case (es_output now out r)
  show ?thesis using D A inv es_output by (cases rule: endpoint_output_cases) simp_all
qed

interpretation endpoint_sys: invariant_system endpoint_start endpoint_move ep_inv
proof
  show "ep_inv e" if "endpoint_start e" for e
    using that conn_new_inv session_new_inv
    by (auto simp: endpoint_start_def endpoint_new_def ep_inv_def mtu_agrees_def session_start_def)
  show "ep_inv e'" if "ep_inv e" "endpoint_move e e'" for e e'
    using that endpoint_step_inv by (auto simp: endpoint_move_def)
qed

section \<open>Records are not checks\<close>

lemma classify_sealed_record:
  assumes "aead_ok A" "emitted A s s' dg pkt"
  shows "classify dg = Record"
proof -
  obtain c p where "sealed A (se_envelope s) c p dg" using assms(2) by (auto simp: emitted_def)
  then obtain r where "dg = MAGIC @ r" by (auto simp: sealed_def envelope_header_def)
  then show ?thesis by (simp add: classify_def get_at_def MAGIC_def)
qed

text \<open>What a successful recovery leaves of the session.\<close>

lemma recovered_session:
  fixes s :: session and now :: f64
  assumes "session_inv s" "can_recover_video_path_datagram_size s FLOOR"
  defines "s' \<equiv> reset_delivery_watchdog (fst (recover_video_path_datagram_size s FLOOR)) now"
  shows "se_path_datagram_size s' = FLOOR"
    and "the (snd (recover_video_path_datagram_size s FLOOR))
      = (case ring_at (se_send s) VIDEO_CHANNEL of None \<Rightarrow> 0 | Some v \<Rightarrow> send_in_flight v)"
    and "ch \<noteq> VIDEO_CHANNEL \<Longrightarrow> map_option send_abs (ring_at (se_send s') ch) = map_option send_abs (ring_at (se_send s) ch)"
proof -
  note rc = recover_cases [OF assms(1), of FLOOR]
  show "se_path_datagram_size s' = FLOOR"
    "the (snd (recover_video_path_datagram_size s FLOOR))
      = (case ring_at (se_send s) VIDEO_CHANNEL of None \<Rightarrow> 0 | Some v \<Rightarrow> send_in_flight v)"
    using rc assms(2) by (simp_all add: s'_def reset_delivery_watchdog_def)
  assume "ch \<noteq> VIDEO_CHANNEL"
  then have "ring_at (recovered_rings rings) ch = ring_at rings ch" for rings
    using ring_at_set [of rings VIDEO_CHANNEL] ring_at_update [of VIDEO_CHANNEL rings]
    by (auto simp: recovered_rings_def split: option.split)
  moreover have "se_send s' = resize_rings (recovered_rings (se_send s)) (body_capacity_of FLOOR)"
    using rc assms(2) by (simp add: s'_def reset_delivery_watchdog_def)
  ultimately show "map_option send_abs (ring_at (se_send s') ch) = map_option send_abs (ring_at (se_send s) ch)"
    by (simp add: resize_rings_def ring_at_map option.map_comp comp_def)
qed

section \<open>Properties\<close>

text \<open>An endpoint at the start of its attempt, and one with a controller for an Ethernet path.\<close>

definition demo_endpoint :: endpoint where
  "demo_endpoint = endpoint_new (conn_new demo_creds (replicate 16 0) (Fin 0)) demo_host"

definition demo_configured :: endpoint where
  "demo_configured = fst (configure_path_mtu demo_endpoint (direct_v4 1500) (Fin 0))"

lemma demo_endpoint_start: "endpoint_start demo_endpoint"
  unfolding endpoint_start_def demo_endpoint_def using demo_host_fields(6) by (metis length_replicate)

lemma demo_endpoint_reach: "reachable endpoint_start endpoint_move demo_endpoint"
  using demo_endpoint_start by (rule reach_start)

lemma demo_move: "reachable endpoint_start endpoint_move e \<Longrightarrow> endpoint_step demo_digests demo_aead e e' \<Longrightarrow>
    reachable endpoint_start endpoint_move e'"
  using demo_digests_ok demo_aead_ok by (intro reach_step [of _ _ e e']) (auto simp: endpoint_move_def)

lemma demo_configured_reach: "reachable endpoint_start endpoint_move demo_configured"
  unfolding demo_configured_def by (rule demo_move [OF demo_endpoint_reach es_configure [OF surjective_pairing]])

lemma demo_configured_mtu:
  "ep_path_mtu demo_configured = Some (mtu_new_with_config (direct_v4 1500) (Fin 0))"
  "mt_current (mtu_new_with_config (direct_v4 1500) (Fin 0)) = FLOOR"
proof -
  let ?m = "mtu_new_with_config (direct_v4 1500) (Fin 0)"
  have m: "mt_state ?m \<noteq> ErrorState" "mt_current ?m = FLOOR"
    by (simp_all add: mtu_new_with_config_def direct_v4_def path_config_new_def config_max_datagram_size_def
        ip_udp_overhead_def path_overhead_def pmtu_consts IPV4_UDP_OVERHEAD_def Let_def)
  then show "mt_current ?m = FLOOR" by simp
  have "Some x \<notin> set (se_send demo_host)" for x
    by (simp add: demo_host_def session_new_def session_with_direction_def)
  then have "\<exists>s. set_path_datagram_size demo_host FLOOR = (s, True)"
    using set_path_cases [OF demo_host_fields(5), of FLOOR] by (simp add: legal_datagram_def core_consts FLOOR_def)
  then show "ep_path_mtu demo_configured = Some ?m"
    using m by (auto simp: demo_configured_def configure_path_mtu_def demo_endpoint_def endpoint_new_def Let_def)
qed

text \<open>C19: The controller and the session agree. In every state an endpoint can reach, an installed
  path-MTU controller claims exactly the datagram size the session packetizes for, between the base and
  the maximum, whatever order of datagrams, probe acknowledgements, timeouts, recoveries,
  reconfigurations and outputs led there.\<close>
theorem endpoint_mtu_agrees:
  assumes "reachable endpoint_start endpoint_move e" "ep_path_mtu e = Some m"
  shows "se_path_datagram_size (ep_session e) = mt_current m \<and> FLOOR \<le> mt_current m \<and> mt_current m \<le> CEILING"
proof -
  have i: "ep_inv e" using assms(1) by (rule endpoint_sys.reachable_inv)
  have m: "mtu_inv m" "mt_current m = se_path_datagram_size (ep_session e)"
    using i assms(2) by (simp_all add: ep_inv_def mtu_agrees_def)
  have "legal_datagram (se_path_datagram_size (ep_session e))" using i by (simp add: ep_inv_def session_inv_def)
  then show ?thesis using m by (simp add: legal_datagram_def FLOOR_def CEILING_def)
qed


theorem endpoint_mtu_agrees_witness:
  "\<exists>m. ep_path_mtu demo_configured = Some m \<and> se_path_datagram_size (ep_session demo_configured) = mt_current m
    \<and> FLOOR \<le> mt_current m \<and> mt_current m \<le> CEILING"
  using endpoint_mtu_agrees [OF demo_configured_reach demo_configured_mtu(1)] demo_configured_mtu(1) by blast

text \<open>Recovery is all or nothing. From every reachable state recover_path_black_hole either changes
  nothing (no controller, or a reliable message in the way), or declares the path unusable without
  touching the session because it was at the base size already, or moves controller and session
  together to the base size, reports the sizes and the video fragments it dropped, and keeps the
  queue of every channel but video. The refusals the code keeps for later cannot happen.\<close>
theorem endpoint_recovery_atomic:
  assumes "reachable endpoint_start endpoint_move e" "recover_path_black_hole e now = (e', r)"
  shows "ep_conn e' = ep_conn e \<and> (case r of
      NotConfigured \<Rightarrow> e' = e \<and> ep_path_mtu e = None
    | Blocked \<Rightarrow> e' = e \<and> se_path_datagram_size (ep_session e) \<noteq> FLOOR
        \<and> \<not> can_recover_video_path_datagram_size (ep_session e) FLOOR
    | Unusable \<Rightarrow> ep_session e' = ep_session e \<and> se_path_datagram_size (ep_session e) = FLOOR
        \<and> map_option mt_state (ep_path_mtu e') = Some ErrorState
    | Recovered previous current dropped \<Rightarrow>
        previous = se_path_datagram_size (ep_session e) \<and> current = FLOOR \<and> FLOOR < previous
        \<and> se_path_datagram_size (ep_session e') = FLOOR \<and> map_option mt_current (ep_path_mtu e') = Some FLOOR
        \<and> dropped = (case ring_at (se_send (ep_session e)) VIDEO_CHANNEL of None \<Rightarrow> 0 | Some v \<Rightarrow> send_in_flight v)
        \<and> (\<forall>ch. ch \<noteq> VIDEO_CHANNEL \<longrightarrow> map_option send_abs (ring_at (se_send (ep_session e')) ch)
             = map_option send_abs (ring_at (se_send (ep_session e)) ch)))"
proof (cases "ep_path_mtu e")
  case None
  then show ?thesis using assms(2) by (auto simp: recover_path_black_hole_def)
next
  case (Some m)
  have inv: "ep_inv e" using assms(1) by (rule endpoint_sys.reachable_inv)
  have mi: "mtu_inv m" "mt_current m = se_path_datagram_size (ep_session e)" and si: "session_inv (ep_session e)"
    using inv Some by (simp_all add: ep_inv_def mtu_agrees_def)
  note rc = assms(2) [unfolded recover_path_cases [OF inv Some]]
  show ?thesis
  proof (cases "mt_current m = FLOOR")
    case True
    then have "mt_state (fst (on_black_hole m now)) = ErrorState" by (simp add: on_black_hole_def Let_def)
    then show ?thesis using rc True mi(2) by auto
  next
    case False
    then have lt: "FLOOR < mt_current m" using mi(1) by (simp add: mtu_inv_def)
    show ?thesis
    proof (cases "can_recover_video_path_datagram_size (ep_session e) FLOOR")
      case can: False
      then show ?thesis using rc False mi(2) by auto
    next
      case can: True
      let ?s = "fst (recover_video_path_datagram_size (ep_session e) FLOOR)"
      note rv = recovered_session [OF si can]
      have b: "mt_current (fst (on_black_hole m now)) = FLOOR"
        using on_black_hole_current [OF mi(1), of now] by (metis prod.collapse)
      have "e' = e\<lparr>ep_session := reset_delivery_watchdog ?s now, ep_path_mtu := Some (fst (on_black_hole m now))\<rparr>"
          "r = Recovered (mt_current m) FLOOR (the (snd (recover_video_path_datagram_size (ep_session e) FLOOR)))"
        using rc False can by simp_all
      then show ?thesis using lt mi(2) b rv by simp
    qed
  qed
qed

theorem endpoint_recovery_atomic_witness:
  "\<exists>e'. recover_path_black_hole demo_configured (Fin 9) = (e', Unusable) \<and> ep_session e' = ep_session demo_configured
    \<and> map_option mt_state (ep_path_mtu e') = Some ErrorState"
proof -
  obtain e' where e: "recover_path_black_hole demo_configured (Fin 9) = (e', Unusable)"
    using demo_configured_mtu by (simp add: recover_path_black_hole_def Let_def)
  show ?thesis using endpoint_recovery_atomic [OF demo_configured_reach e] e by auto
qed

text \<open>C11: What an endpoint sends, the peer routes to the right engine, and media follows the path. Every
  datagram get_output of a reachable endpoint returns is either a well-formed connectivity message
  that the demultiplexer classifies as a check, or a sealed record it classifies as a record, addressed
  to the established path and sent at the socket's own TTL.\<close>
theorem endpoint_routes:
  assumes "digests_ok D" "aead_ok A" "reachable endpoint_start endpoint_move e"
    and "endpoint_get_output D A e now out = (e', Some (Inr (out', eg)))"
  shows "classify (take (eg_len eg) out') = Check \<and> (\<exists>m. stun_parse (take (eg_len eg) out') = Inr m)
    \<or> classify (take (eg_len eg) out') = Record \<and> endpoint_path e' = Some (eg_to eg) \<and> eg_ttl eg = TTL_Default
      \<and> (\<exists>pkt. emitted A (ep_session e) (ep_session e') (take (eg_len eg) out') pkt)"
proof -
  have inv: "ep_inv e" using assms(3) by (rule endpoint_sys.reachable_inv)
  show ?thesis using assms(1,2) inv assms(4)
  proof (cases rule: endpoint_output_cases)
    case (conn c res)
    have "\<exists>m. stun_parse (take (eg_len eg) out') = Inr m"
      by (rule conn_output_parses [OF assms(1), of "ep_conn e" now out c]) (use conn(1,2) inv in \<open>simp_all add: ep_inv_def\<close>)
    then show ?thesis using stun_parse_classify by blast
  next
    case (media c to)
    note mo = media_output_cases [OF assms(2) media(5,4)]
    have "ep_conn e' = c" using mo(2) by simp
    then have "endpoint_path e' = Some to" using media(2) by (simp add: endpoint_path_def)
    then show ?thesis using mo(3) [OF refl] classify_sealed_record [OF assms(2)] by auto
  qed simp
qed

theorem endpoint_routes_witness:
  "\<exists>e' dg eg. endpoint_get_output demo_digests demo_aead (demo_endpoint\<lparr>ep_conn := demo_caller\<rparr>) (Fin 0) (replicate 152 0)
      = (e', Some (Inr (dg, eg)))
    \<and> (classify (take (eg_len eg) dg) = Check \<or> classify (take (eg_len eg) dg) = Record)"
proof -
  let ?e = "demo_endpoint\<lparr>ep_conn := demo_caller\<rparr>"
  have "wf_addr demo_addr" by (simp add: demo_addr_def wf_addr_def)
  moreover have "add_candidate (ep_conn demo_endpoint) demo_addr =
      (demo_caller, snd (add_candidate (ep_conn demo_endpoint) demo_addr))"
    by (simp add: demo_endpoint_def endpoint_new_def demo_caller_def)
  ultimately have "endpoint_step demo_digests demo_aead demo_endpoint ?e" by (rule es_candidate)
  then have r: "reachable endpoint_start endpoint_move ?e" by (rule demo_move [OF demo_endpoint_reach])
  obtain c' dg n where "conn_get_output demo_digests demo_caller (Fin 0) (replicate 152 0) =
     (c', Some (Inr (dg, \<lparr>eg_to = demo_addr, eg_ttl = TTL_Probe, eg_len = n\<rparr>)))" using demo_first_check by blast
  then have g: "endpoint_get_output demo_digests demo_aead ?e (Fin 0) (replicate 152 0) =
      (?e\<lparr>ep_conn := c'\<rparr>, Some (Inr (dg, \<lparr>eg_to = demo_addr, eg_ttl = TTL_Probe, eg_len = n\<rparr>)))"
    by (simp add: endpoint_get_output_def)
  show ?thesis using endpoint_routes [OF demo_digests_ok demo_aead_ok r g] g by blast
qed

end
