(* ===== verification/Delivery.thy ===== *)
theory Delivery
  imports F64
begin

text \<open>
  The delivery estimator of the transport policy (\<open>transport-policy/src/delivery.rs\<close>): a fixed ring of
  2048 packet identities indexed by the outer counter, per-class and aggregate counters, smoothed
  round-trip time and delivery rates. Every counter keeps its width and saturates where the code
  saturates; times are the binary64 values of \<open>F64\<close>. The history ring and the class counters are lists
  of fixed length for the source's arrays.
\<close>

section \<open>Data\<close>

definition DELIVERY_HISTORY_CAPACITY :: nat where "DELIVERY_HISTORY_CAPACITY = 2048"

definition STALE_AFTER_MS :: f64 where "STALE_AFTER_MS = rnd 250"

definition MIN_DELIVERY_SAMPLE_INTERVAL_MS :: f64 where "MIN_DELIVERY_SAMPLE_INTERVAL_MS = rnd 10"

definition MAX_ACK_DELAY_US :: u32 where "MAX_ACK_DELAY_US = 25000"

definition DELIVERY_CLASS_COUNT :: nat where "DELIVERY_CLASS_COUNT = 3"

text \<open>\<open>f64::MAX\<close>.\<close>

definition F64_MAX :: f64 where "F64_MAX = Fin ((2 ^ 53 - 1) * 2 ^ 971)"

datatype traffic_class = Critical | Audio | Video

definition class_index :: "traffic_class \<Rightarrow> nat" where
  "class_index c = (case c of Critical \<Rightarrow> 0 | Audio \<Rightarrow> 1 | Video \<Rightarrow> 2)"

record sent_packet =
  sp_generation :: u64
  sp_outer_counter :: u64
  sp_bytes :: u32
  sp_sent_at_ms :: f64
  sp_traffic_class :: traffic_class
  sp_ack_eliciting :: bool
  sp_logical_retransmission :: bool

record send_outcome =
  so_stale_evicted :: bool
  so_logical_retransmission :: bool
  so_outer_retransmission :: bool

definition send_outcome_new :: "bool \<Rightarrow> bool \<Rightarrow> bool \<Rightarrow> send_outcome" where
  "send_outcome_new stale_evicted logical_retransmission outer_retransmission =
     \<lparr>so_stale_evicted = stale_evicted, so_logical_retransmission = logical_retransmission,
      so_outer_retransmission = outer_retransmission\<rparr>"

record ack_outcome =
  ao_packets :: u32
  ao_bytes :: u64
  ao_rtt_sample_ms :: "f64 option"
  ao_ignored_stale_generation :: bool

definition IgnoredStaleGeneration :: ack_outcome where
  "IgnoredStaleGeneration = \<lparr>ao_packets = 0, ao_bytes = 0, ao_rtt_sample_ms = None,
     ao_ignored_stale_generation = True\<rparr>"

definition ack_outcome_acknowledged :: "u32 \<Rightarrow> u64 \<Rightarrow> f64 option \<Rightarrow> ack_outcome" where
  "ack_outcome_acknowledged packets nbytes rtt =
     \<lparr>ao_packets = packets, ao_bytes = nbytes, ao_rtt_sample_ms = rtt, ao_ignored_stale_generation = False\<rparr>"

datatype delivery_error =
  InvalidGeneration | FutureGeneration | StaleGeneration | InvalidTimestamp | CounterUnderflow
| FutureCounter | AckDelayTooLarge | HistoryFull | CounterReuse

definition delivery_error_message :: "delivery_error \<Rightarrow> string" where
  "delivery_error_message e = (case e of
     InvalidGeneration \<Rightarrow> ''delivery generation must be non-zero''
   | FutureGeneration \<Rightarrow> ''delivery generation is from the future''
   | StaleGeneration \<Rightarrow> ''delivery generation is stale''
   | InvalidTimestamp \<Rightarrow> ''delivery timestamp is invalid or moved backward''
   | CounterUnderflow \<Rightarrow> ''delivery acknowledgement counter underflows''
   | FutureCounter \<Rightarrow> ''delivery acknowledgement counter is from the future''
   | AckDelayTooLarge \<Rightarrow> ''delivery acknowledgement delay is too large''
   | HistoryFull \<Rightarrow> ''delivery history slot is still unresolved''
   | CounterReuse \<Rightarrow> ''delivery outer counter was reused'')"

record class_state =
  cs_sent_packets :: u64
  cs_sent_bytes :: u64
  cs_acknowledged_packets :: u64
  cs_acknowledged_bytes :: u64
  cs_delivery_rate_mbps :: "f64 option"
  cs_in_flight :: u32
  cs_stale :: u64
  cs_logical_reliable_retries :: u64
  cs_outer_retransmissions :: u64
  cs_rate_bytes :: u64

definition class_empty :: class_state where
  "class_empty = \<lparr>cs_sent_packets = 0, cs_sent_bytes = 0, cs_acknowledged_packets = 0,
     cs_acknowledged_bytes = 0, cs_delivery_rate_mbps = None, cs_in_flight = 0, cs_stale = 0,
     cs_logical_reliable_retries = 0, cs_outer_retransmissions = 0, cs_rate_bytes = 0\<rparr>"

record delivery_class_snapshot =
  dc_sent_packets :: u64
  dc_sent_bytes :: u64
  dc_acknowledged_packets :: u64
  dc_acknowledged_bytes :: u64
  dc_delivery_rate_mbps :: "f64 option"
  dc_in_flight :: u32
  dc_stale :: u64
  dc_logical_reliable_retries :: u64
  dc_outer_retransmissions :: u64

definition class_snapshot :: "class_state \<Rightarrow> delivery_class_snapshot" where
  "class_snapshot c = \<lparr>dc_sent_packets = cs_sent_packets c, dc_sent_bytes = cs_sent_bytes c,
     dc_acknowledged_packets = cs_acknowledged_packets c, dc_acknowledged_bytes = cs_acknowledged_bytes c,
     dc_delivery_rate_mbps = cs_delivery_rate_mbps c, dc_in_flight = cs_in_flight c, dc_stale = cs_stale c,
     dc_logical_reliable_retries = cs_logical_reliable_retries c,
     dc_outer_retransmissions = cs_outer_retransmissions c\<rparr>"

record delivery_snapshot =
  dn_path_generation :: u64
  dn_sample_interval_ms :: f64
  dn_srtt_ms :: "f64 option"
  dn_aggregate :: delivery_class_snapshot
  dn_video :: delivery_class_snapshot
  dn_audio :: delivery_class_snapshot
  dn_critical :: delivery_class_snapshot

record estimator =
  de_generation :: u64
  de_history :: "sent_packet option list"
  de_highest_sent :: "u64 option"
  de_aggregate :: class_state
  de_classes :: "class_state list"
  de_srtt_ms :: "f64 option"
  de_last_timestamp_ms :: "f64 option"
  de_rate_sample_start_ms :: "f64 option"
  de_sample_interval_ms :: f64

definition estimator_new :: "u64 \<Rightarrow> estimator" where
  "estimator_new generation = \<lparr>de_generation = generation,
     de_history = replicate DELIVERY_HISTORY_CAPACITY None, de_highest_sent = None,
     de_aggregate = class_empty, de_classes = replicate DELIVERY_CLASS_COUNT class_empty,
     de_srtt_ms = None, de_last_timestamp_ms = None, de_rate_sample_start_ms = None,
     de_sample_interval_ms = Fin 0\<rparr>"

section \<open>Helpers\<close>

definition decimal_mbps :: "u64 \<Rightarrow> f64 \<Rightarrow> f64" where
  "decimal_mbps nbytes elapsed =
     (let b = fmul (f64_of_nat (unat nbytes)) (rnd 8); rate = fdiv b (fmul elapsed (rnd 1000))
      in if is_finite rate then rate else Fin 0)"

definition elapsed_ms :: "f64 \<Rightarrow> f64 \<Rightarrow> f64" where
  "elapsed_ms now_ms earlier_ms = (let elapsed = fsub now_ms earlier_ms
     in if is_finite elapsed then fmax elapsed (Fin 0) else F64_MAX)"

definition history_index :: "u64 \<Rightarrow> nat" where
  "history_index counter = unat counter mod DELIVERY_HISTORY_CAPACITY"

definition acceptable_timestamp :: "estimator \<Rightarrow> f64 \<Rightarrow> bool" where
  "acceptable_timestamp e t \<longleftrightarrow> is_finite t \<and> fle (Fin 0) t
     \<and> (case de_last_timestamp_ms e of None \<Rightarrow> True | Some before \<Rightarrow> fle before t)"

definition validate_packet :: "estimator \<Rightarrow> sent_packet \<Rightarrow> delivery_error + unit" where
  "validate_packet e p =
     (if sp_generation p = 0 then Inl InvalidGeneration
      else if sp_generation p < de_generation e then Inl StaleGeneration
      else if de_generation e < sp_generation p then Inl FutureGeneration
      else if \<not> acceptable_timestamp e (sp_sent_at_ms p) then Inl InvalidTimestamp
      else Inr ())"

text \<open>Both counters that a packet concerns, the aggregate and its class.\<close>

definition on_class :: "(class_state \<Rightarrow> class_state) \<Rightarrow> traffic_class \<Rightarrow> estimator \<Rightarrow> estimator" where
  "on_class f c e = e\<lparr>de_aggregate := f (de_aggregate e),
     de_classes := (de_classes e)[class_index c := f (de_classes e ! class_index c)]\<rparr>"

definition add_sent_stats :: "u64 \<Rightarrow> sent_packet \<Rightarrow> bool \<Rightarrow> class_state \<Rightarrow> class_state" where
  "add_sent_stats nbytes p outer s =
     (let s = s\<lparr>cs_sent_packets := sat_add (cs_sent_packets s) 1,
                cs_sent_bytes := sat_add (cs_sent_bytes s) nbytes\<rparr>;
          s = (if sp_logical_retransmission p \<and> \<not> outer
               then s\<lparr>cs_logical_reliable_retries := sat_add (cs_logical_reliable_retries s) 1\<rparr> else s)
      in if outer then s\<lparr>cs_outer_retransmissions := sat_add (cs_outer_retransmissions s) 1\<rparr> else s)"

definition record_sent_stats :: "estimator \<Rightarrow> sent_packet \<Rightarrow> bool \<Rightarrow> estimator" where
  "record_sent_stats e p outer = on_class (add_sent_stats (ucast (sp_bytes p)) p outer) (sp_traffic_class p) e"

definition add_in_flight :: "estimator \<Rightarrow> traffic_class \<Rightarrow> estimator" where
  "add_in_flight e c = on_class (\<lambda>s. s\<lparr>cs_in_flight := sat_add (cs_in_flight s) 1\<rparr>) c e"

definition class_stale :: "class_state \<Rightarrow> class_state" where
  "class_stale s = s\<lparr>cs_in_flight := sat_sub (cs_in_flight s) 1, cs_stale := sat_add (cs_stale s) 1\<rparr>"

definition class_acknowledged :: "u64 \<Rightarrow> class_state \<Rightarrow> class_state" where
  "class_acknowledged nbytes s = s\<lparr>cs_in_flight := sat_sub (cs_in_flight s) 1,
     cs_acknowledged_packets := sat_add (cs_acknowledged_packets s) 1,
     cs_acknowledged_bytes := sat_add (cs_acknowledged_bytes s) nbytes,
     cs_rate_bytes := sat_add (cs_rate_bytes s) nbytes\<rparr>"

definition mark_stale :: "estimator \<Rightarrow> sent_packet \<Rightarrow> estimator" where
  "mark_stale e entry = on_class class_stale (sp_traffic_class entry) e"

definition mark_acknowledged :: "estimator \<Rightarrow> sent_packet \<Rightarrow> estimator" where
  "mark_acknowledged e entry = on_class (class_acknowledged (ucast (sp_bytes entry))) (sp_traffic_class entry) e"

section \<open>Sending\<close>

definition holds_identity :: "estimator \<Rightarrow> u64 \<Rightarrow> u64 \<Rightarrow> bool" where
  "holds_identity e generation counter \<longleftrightarrow> (case de_history e ! history_index counter of
     None \<Rightarrow> False
   | Some entry \<Rightarrow> sp_generation entry = generation \<and> sp_outer_counter entry = counter)"

definition already_sent :: "estimator \<Rightarrow> u64 \<Rightarrow> bool" where
  "already_sent e counter \<longleftrightarrow> (case de_highest_sent e of None \<Rightarrow> False | Some highest \<Rightarrow> counter \<le> highest)"

definition can_record :: "estimator \<Rightarrow> u64 \<Rightarrow> u64 \<Rightarrow> f64 \<Rightarrow> bool" where
  "can_record e generation counter now_ms =
     (if generation = 0 \<or> generation \<noteq> de_generation e \<or> \<not> acceptable_timestamp e now_ms then False
      else if already_sent e counter then holds_identity e generation counter
      else case de_history e ! history_index counter of
        None \<Rightarrow> True
      | Some entry \<Rightarrow> fle STALE_AFTER_MS (elapsed_ms now_ms (sp_sent_at_ms entry)))"

text \<open>A counter at or below the highest one sent is legal only as a resend of an unresolved packet of
  the same size and class.\<close>

definition record_resend :: "estimator \<Rightarrow> sent_packet \<Rightarrow> estimator \<times> (delivery_error + send_outcome)" where
  "record_resend e p =
     (let index = history_index (sp_outer_counter p) in
      if sp_ack_eliciting p \<and> holds_identity e (sp_generation p) (sp_outer_counter p) then
        (let existing = the (de_history e ! index) in
         if sp_bytes existing \<noteq> sp_bytes p \<or> sp_traffic_class existing \<noteq> sp_traffic_class p
            \<or> \<not> sp_ack_eliciting existing
         then (e, Inl CounterReuse)
         else (let e = e\<lparr>de_history := (de_history e)[index := Some p]\<rparr>;
                   e = record_sent_stats e p True
               in (e\<lparr>de_last_timestamp_ms := Some (sp_sent_at_ms p)\<rparr>,
                   Inr (send_outcome_new False False True))))
      else (e, Inl CounterReuse))"

text \<open>Reserving the ring slot: a young unresolved entry refuses, an old one becomes stale.\<close>

definition track_packet :: "estimator \<Rightarrow> sent_packet \<Rightarrow> estimator" where
  "track_packet e p =
     (let e = e\<lparr>de_history := (de_history e)[history_index (sp_outer_counter p) := Some p]\<rparr>;
          e = add_in_flight e (sp_traffic_class p)
      in if de_rate_sample_start_ms e = None then e\<lparr>de_rate_sample_start_ms := Some (sp_sent_at_ms p)\<rparr> else e)"

definition reserve_slot :: "estimator \<Rightarrow> sent_packet \<Rightarrow> estimator \<times> (delivery_error + bool)" where
  "reserve_slot e p =
     (if \<not> sp_ack_eliciting p then (e, Inr False)
      else let index = history_index (sp_outer_counter p) in
        case de_history e ! index of
          None \<Rightarrow> (track_packet e p, Inr False)
        | Some existing \<Rightarrow>
            if flt (elapsed_ms (sp_sent_at_ms p) (sp_sent_at_ms existing)) STALE_AFTER_MS
            then (e, Inl HistoryFull)
            else (track_packet ((mark_stale e existing)\<lparr>de_history := (de_history e)[index := None]\<rparr>) p, Inr True))"

definition record_sent :: "estimator \<Rightarrow> sent_packet \<Rightarrow> estimator \<times> (delivery_error + send_outcome)" where
  "record_sent e p = (case validate_packet e p of
     Inl err \<Rightarrow> (e, Inl err)
   | Inr _ \<Rightarrow>
       if already_sent e (sp_outer_counter p) then record_resend e p
       else case reserve_slot e p of
         (e, Inl err) \<Rightarrow> (e, Inl err)
       | (e, Inr stale_evicted) \<Rightarrow>
           (let e = record_sent_stats e p False
            in (e\<lparr>de_highest_sent := Some (case de_highest_sent e of None \<Rightarrow> sp_outer_counter p
                                            | Some highest \<Rightarrow> max highest (sp_outer_counter p)),
                   de_last_timestamp_ms := Some (sp_sent_at_ms p)\<rparr>,
                Inr (send_outcome_new stale_evicted (sp_logical_retransmission p) False))))"

section \<open>Acknowledgements\<close>

record ack_progress =
  ap_packets :: u32
  ap_bytes :: u64
  ap_largest :: "sent_packet option"

definition acknowledge_bit :: "u64 \<Rightarrow> u64 \<Rightarrow> u64 \<Rightarrow> nat \<Rightarrow> estimator \<times> ack_progress \<Rightarrow> estimator \<times> ack_progress" where
  "acknowledge_bit generation largest received n s = (case s of (e, a) \<Rightarrow>
     if \<not> bit received n then (e, a)
     else let counter = largest - of_nat n; index = history_index counter in
       case de_history e ! index of
         None \<Rightarrow> (e, a)
       | Some entry \<Rightarrow>
           if sp_generation entry \<noteq> generation \<or> sp_outer_counter entry \<noteq> counter then (e, a)
           else (mark_acknowledged (e\<lparr>de_history := (de_history e)[index := None]\<rparr>) entry,
                 a\<lparr>ap_packets := sat_add (ap_packets a) 1,
                   ap_bytes := sat_add (ap_bytes a) (ucast (sp_bytes entry)),
                   ap_largest := (if n = 0 then Some entry else ap_largest a)\<rparr>))"

definition acknowledge_loop :: "u64 \<Rightarrow> u64 \<Rightarrow> u64 \<Rightarrow> estimator \<Rightarrow> estimator \<times> ack_progress" where
  "acknowledge_loop generation largest received e =
     fold (acknowledge_bit generation largest received) [0..<64] (e, \<lparr>ap_packets = 0, ap_bytes = 0, ap_largest = None\<rparr>)"

definition underflows :: "u64 \<Rightarrow> u64 \<Rightarrow> bool" where
  "underflows largest received \<longleftrightarrow> list_ex (\<lambda>n. bit received n \<and> largest < of_nat n) [1..<64]"

definition rtt_of :: "f64 \<Rightarrow> u32 \<Rightarrow> sent_packet \<Rightarrow> f64" where
  "rtt_of now_ms ack_delay_us entry =
     (let delay_ms = fdiv (f64_of_nat (unat ack_delay_us)) (rnd 1000);
          elapsed = elapsed_ms now_ms (sp_sent_at_ms entry)
      in fmax (fsub elapsed delay_ms) (Fin 0))"

definition smooth_rtt :: "f64 option \<Rightarrow> f64 \<Rightarrow> f64" where
  "smooth_rtt srtt sample = (case srtt of None \<Rightarrow> sample
     | Some previous \<Rightarrow> fadd (fmul (fdiv (rnd 7) (rnd 8)) previous) (fmul (fdiv (rnd 1) (rnd 8)) sample))"

definition acknowledge :: "estimator \<Rightarrow> u64 \<Rightarrow> u64 \<Rightarrow> u64 \<Rightarrow> u32 \<Rightarrow> f64 \<Rightarrow> estimator \<times> (delivery_error + ack_outcome)" where
  "acknowledge e generation largest received ack_delay_us now_ms =
     (if generation = 0 then (e, Inl InvalidGeneration)
      else if generation < de_generation e then (e, Inr IgnoredStaleGeneration)
      else if de_generation e < generation then (e, Inl FutureGeneration)
      else if \<not> acceptable_timestamp e now_ms then (e, Inl InvalidTimestamp)
      else if MAX_ACK_DELAY_US < ack_delay_us then (e, Inl AckDelayTooLarge)
      else if de_highest_sent e \<noteq> Some largest
              \<and> (case de_highest_sent e of None \<Rightarrow> True | Some highest \<Rightarrow> highest < largest)
           then (e, Inl FutureCounter)
      else if underflows largest received then (e, Inl CounterUnderflow)
      else case acknowledge_loop generation largest received e of (e, a) \<Rightarrow>
        (let rtt = map_option (rtt_of now_ms ack_delay_us) (ap_largest a);
             e = (case rtt of None \<Rightarrow> e | Some sample \<Rightarrow> e\<lparr>de_srtt_ms := Some (smooth_rtt (de_srtt_ms e) sample)\<rparr>)
         in (e\<lparr>de_last_timestamp_ms := Some now_ms\<rparr>,
             Inr (ack_outcome_acknowledged (ap_packets a) (ap_bytes a) rtt))))"

section \<open>Snapshots and reset\<close>

definition sample_class :: "f64 \<Rightarrow> class_state \<Rightarrow> class_state" where
  "sample_class elapsed s = (if 0 < cs_rate_bytes s
       then s\<lparr>cs_delivery_rate_mbps := Some (decimal_mbps (cs_rate_bytes s) elapsed)\<rparr> else s)\<lparr>cs_rate_bytes := 0\<rparr>"

definition maybe_sample_rate :: "estimator \<Rightarrow> f64 \<Rightarrow> estimator" where
  "maybe_sample_rate e now_ms = (case de_rate_sample_start_ms e of
     None \<Rightarrow> e
   | Some start_ms \<Rightarrow>
       (let elapsed = elapsed_ms now_ms start_ms in
        if flt elapsed MIN_DELIVERY_SAMPLE_INTERVAL_MS \<or> cs_rate_bytes (de_aggregate e) = 0 then e
        else e\<lparr>de_sample_interval_ms := elapsed,
               de_aggregate := (de_aggregate e)\<lparr>
                 cs_delivery_rate_mbps := Some (decimal_mbps (cs_rate_bytes (de_aggregate e)) elapsed),
                 cs_rate_bytes := 0\<rparr>,
               de_classes := map (sample_class elapsed) (de_classes e),
               de_rate_sample_start_ms := Some now_ms\<rparr>))"

definition estimator_snapshot :: "estimator \<Rightarrow> f64 \<Rightarrow> estimator \<times> delivery_snapshot" where
  "estimator_snapshot e now_ms =
     (let e = (if acceptable_timestamp e now_ms
               then maybe_sample_rate (e\<lparr>de_last_timestamp_ms := Some now_ms\<rparr>) now_ms else e)
      in (e, \<lparr>dn_path_generation = de_generation e, dn_sample_interval_ms = de_sample_interval_ms e,
              dn_srtt_ms = de_srtt_ms e, dn_aggregate = class_snapshot (de_aggregate e),
              dn_video = class_snapshot (de_classes e ! class_index Video),
              dn_audio = class_snapshot (de_classes e ! class_index Audio),
              dn_critical = class_snapshot (de_classes e ! class_index Critical)\<rparr>))"

definition reset_generation :: "estimator \<Rightarrow> u64 \<Rightarrow> estimator" where
  "reset_generation e generation = (if generation = 0 then e else estimator_new generation)"

end
