(* ===== verification/Delivery_Properties.thy ===== *)
theory Delivery_Properties
  imports Delivery
begin

text \<open>
  The estimator's accounting. The invariant ties the saturating counters to the history ring, for the
  aggregate and for each class at once; an acknowledgement bitmap is shown to retire exactly the
  unresolved packets it names, and the preflight to predict the recording.
\<close>

section \<open>Sums over the ring\<close>

definition slot_weight :: "(sent_packet \<Rightarrow> nat) \<Rightarrow> sent_packet option \<Rightarrow> nat" where
  "slot_weight f s = (case s of None \<Rightarrow> 0 | Some x \<Rightarrow> f x)"

definition ring_sum :: "(sent_packet \<Rightarrow> nat) \<Rightarrow> sent_packet option list \<Rightarrow> nat" where
  "ring_sum f h = sum_list (map (slot_weight f) h)"

definition held_when :: "(sent_packet \<Rightarrow> bool) \<Rightarrow> sent_packet option list \<Rightarrow> nat" where
  "held_when P = ring_sum (\<lambda>x. if P x then 1 else 0)"

lemma slot_weight_simps [simp]: "slot_weight f None = 0" "slot_weight f (Some x) = f x"
  by (simp_all add: slot_weight_def)

lemma ring_sum_update:
  "i < length h \<Longrightarrow> ring_sum f (h[i := v]) + slot_weight f (h ! i) = ring_sum f h + slot_weight f v"
proof (induction h arbitrary: i)
  case (Cons s h)
  then show ?case by (cases i) (auto simp: ring_sum_def add.assoc add.left_commute)
qed simp

lemma ring_sum_change:
  assumes "i < length h" "\<And>j. j < length h \<Longrightarrow> j \<noteq> i \<Longrightarrow> slot_weight g (h ! j) = slot_weight f (h ! j)"
  shows "ring_sum g h + slot_weight f (h ! i) = ring_sum f h + slot_weight g (h ! i)"
proof -
  have s: "ring_sum u h = slot_weight u (h ! i) + (\<Sum>j \<in> {0..<length h} - {i}. slot_weight u (h ! j))" for u
    using assms(1) by (simp add: ring_sum_def sum_list_sum_nth sum.remove [of _ i])
  have "(\<Sum>j \<in> {0..<length h} - {i}. slot_weight g (h ! j)) = (\<Sum>j \<in> {0..<length h} - {i}. slot_weight f (h ! j))"
    using assms(2) by (intro sum.cong) auto
  then show ?thesis by (simp add: s)
qed

lemma ring_sum_cong:
  "(\<And>x. Some x \<in> set h \<Longrightarrow> g x = f x) \<Longrightarrow> ring_sum g h = ring_sum f h"
  by (auto simp: ring_sum_def slot_weight_def intro!: arg_cong [of _ _ sum_list] split: option.split)

lemma held_when_le: "held_when P h \<le> length h"
  by (induction h) (auto simp: held_when_def ring_sum_def slot_weight_def split: option.split)

section \<open>Aggregate and classes at once\<close>

text \<open>\<^const>\<open>None\<close> names the aggregate, \<^term>\<open>Some c\<close> a class.\<close>

definition class_at :: "estimator \<Rightarrow> traffic_class option \<Rightarrow> class_state" where
  "class_at e k = (case k of None \<Rightarrow> de_aggregate e | Some c \<Rightarrow> de_classes e ! class_index c)"

definition concerns :: "traffic_class option \<Rightarrow> sent_packet \<Rightarrow> bool" where
  "concerns k p \<longleftrightarrow> k = None \<or> k = Some (sp_traffic_class p)"

lemma class_index_less [simp]: "class_index c < 3"
  by (simp add: class_index_def split: traffic_class.split)

lemma class_index_inj: "class_index c = class_index d \<longleftrightarrow> c = d"
  by (simp add: class_index_def split: traffic_class.split)

lemma class_at_on_class:
  assumes "length (de_classes e) = 3"
  shows "class_at (on_class f c e) k = (if k = None \<or> k = Some c then f (class_at e k) else class_at e k)"
  using assms by (auto simp: class_at_def on_class_def class_index_inj nth_list_update split: option.split)

lemma class_at_frame [simp]:
  "class_at (e\<lparr>de_history := h\<rparr>) k = class_at e k" "class_at (e\<lparr>de_highest_sent := n\<rparr>) k = class_at e k"
  "class_at (e\<lparr>de_last_timestamp_ms := t\<rparr>) k = class_at e k" "class_at (e\<lparr>de_srtt_ms := t\<rparr>) k = class_at e k"
  "class_at (e\<lparr>de_rate_sample_start_ms := t\<rparr>) k = class_at e k"
  by (cases k, simp_all add: class_at_def)+

lemma on_class_frame [simp]:
  "de_history (on_class f c e) = de_history e" "de_generation (on_class f c e) = de_generation e"
  "de_highest_sent (on_class f c e) = de_highest_sent e" "length (de_classes (on_class f c e)) = length (de_classes e)"
  "de_srtt_ms (on_class f c e) = de_srtt_ms e" "de_last_timestamp_ms (on_class f c e) = de_last_timestamp_ms e"
  "de_rate_sample_start_ms (on_class f c e) = de_rate_sample_start_ms e"
  by (simp_all add: on_class_def)

section \<open>The invariant\<close>

definition entry_ok :: "estimator \<Rightarrow> nat \<Rightarrow> sent_packet \<Rightarrow> bool" where
  "entry_ok e i x \<longleftrightarrow> history_index (sp_outer_counter x) = i \<and> sp_generation x = de_generation e
     \<and> sp_ack_eliciting x \<and> already_sent e (sp_outer_counter x)"

definition delivery_inv :: "estimator \<Rightarrow> bool" where
  "delivery_inv e \<longleftrightarrow> length (de_history e) = 2048 \<and> length (de_classes e) = 3
     \<and> (\<forall>i x. i < 2048 \<longrightarrow> de_history e ! i = Some x \<longrightarrow> entry_ok e i x)
     \<and> (\<forall>k. unat (cs_in_flight (class_at e k)) = held_when (concerns k) (de_history e))"

lemma entry_mono:
  assumes "entry_ok e i x" "de_generation e' = de_generation e" "\<And>c. already_sent e c \<Longrightarrow> already_sent e' c"
  shows "entry_ok e' i x"
  using assms by (simp add: entry_ok_def)

lemma history_index_less: "history_index c < 2048"
  by (simp add: history_index_def DELIVERY_HISTORY_CAPACITY_def)

lemma unat_in_flight_up:
  "unat n \<le> 2048 \<Longrightarrow> unat (sat_add (n :: u32) 1) = Suc (unat n)"
  by (simp add: unat_sat_add)

lemma unat_sat_sub: "unat (sat_sub a b :: 'a::len word) = unat a - unat b"
  by (simp add: sat_sub_def unat_sub word_le_nat_alt)

lemma new_inv: "delivery_inv (estimator_new g)"
proof -
  have "ring_sum f (replicate n None) = 0" for f n by (simp add: ring_sum_def sum_list_replicate)
  then show ?thesis
    by (simp add: delivery_inv_def estimator_new_def class_at_def class_empty_def held_when_def
        DELIVERY_HISTORY_CAPACITY_def DELIVERY_CLASS_COUNT_def split: option.split)
qed

lemma held_update:
  assumes "i < length h"
  shows "held_when P (h[i := v]) + slot_weight (\<lambda>x. if P x then 1 else 0) (h ! i)
    = held_when P h + slot_weight (\<lambda>x. if P x then 1 else 0) v"
  using ring_sum_update [OF assms] by (simp add: held_when_def)

text \<open>Removing an unresolved entry with one count less in flight.\<close>

lemma retire_inv:
  assumes inv: "delivery_inv e" and x: "i < 2048" "de_history e ! i = Some x"
    and f: "\<And>s. unat (cs_in_flight (f s)) = unat (cs_in_flight s) - 1"
    and e': "e' = (on_class f (sp_traffic_class x) e)\<lparr>de_history := (de_history e)[i := None]\<rparr>"
  shows "delivery_inv e'"
proof -
  have l: "length (de_history e) = 2048" "length (de_classes e) = 3" using inv by (simp_all add: delivery_inv_def)
  have ok: "entry_ok e' j y" if "j < 2048" "de_history e' ! j = Some y" for j y
  proof -
    have "de_history e ! j = Some y" using that l by (cases "j = i") (simp_all add: e')
    then have "entry_ok e j y" using inv that by (simp add: delivery_inv_def)
    then show ?thesis by (rule entry_mono) (simp_all add: e' already_sent_def)
  qed
  have "unat (cs_in_flight (class_at e' k)) = held_when (concerns k) (de_history e')" for k
  proof -
    have "held_when (concerns k) (de_history e') + (if concerns k x then 1 else 0) = held_when (concerns k) (de_history e)"
      using held_update [of i "de_history e" "concerns k" None] x l by (simp add: e')
    moreover have "class_at e' k = (if concerns k x then f (class_at e k) else class_at e k)"
      by (simp add: e' class_at_on_class [OF l(2)] concerns_def)
    moreover have "unat (cs_in_flight (class_at e k)) = held_when (concerns k) (de_history e)"
      using inv by (simp add: delivery_inv_def)
    ultimately show ?thesis by (cases "concerns k x") (simp_all add: f)
  qed
  with ok l show ?thesis by (simp add: delivery_inv_def e')
qed

text \<open>Filling a free slot with one count more in flight.\<close>

lemma insert_inv:
  assumes inv: "delivery_inv e" and free: "i < 2048" "de_history e ! i = None"
    and h: "de_history e' = (de_history e)[i := Some p]" "length (de_classes e') = 3" "entry_ok e' i p"
    and k: "\<And>k. unat (cs_in_flight (class_at e k)) \<le> 2048 \<Longrightarrow>
      unat (cs_in_flight (class_at e' k)) = unat (cs_in_flight (class_at e k)) + (if concerns k p then 1 else 0)"
    and mono: "de_generation e' = de_generation e" "\<And>c. already_sent e c \<Longrightarrow> already_sent e' c"
  shows "delivery_inv e'"
proof -
  have l: "length (de_history e) = 2048" using inv by (simp add: delivery_inv_def)
  have ok: "entry_ok e' j y" if "j < 2048" "de_history e' ! j = Some y" for j y
  proof (cases "j = i")
    case True
    then show ?thesis using that h l free by simp
  next
    case False
    then have "entry_ok e j y" using that inv l by (simp add: h delivery_inv_def)
    then show ?thesis using mono by (rule entry_mono)
  qed
  have "unat (cs_in_flight (class_at e' k)) = held_when (concerns k) (de_history e')" for k
  proof -
    have u: "held_when (concerns k) (de_history e') = held_when (concerns k) (de_history e) + (if concerns k p then 1 else 0)"
      using held_update [of i "de_history e" "concerns k" "Some p"] free l by (simp add: h)
    moreover have "unat (cs_in_flight (class_at e k)) = held_when (concerns k) (de_history e)"
      using inv by (simp add: delivery_inv_def)
    moreover have "held_when (concerns k) (de_history e) \<le> 2048" using held_when_le [of "concerns k" "de_history e"] l by simp
    ultimately show ?thesis using k [of k] by simp
  qed
  with ok l h show ?thesis by (simp add: delivery_inv_def)
qed

section \<open>Recording a packet\<close>

definition finish_send :: "estimator \<Rightarrow> sent_packet \<Rightarrow> estimator" where
  "finish_send e p = (let e = record_sent_stats e p False in
     e\<lparr>de_highest_sent := Some (case de_highest_sent e of None \<Rightarrow> sp_outer_counter p
                                  | Some highest \<Rightarrow> max highest (sp_outer_counter p)),
       de_last_timestamp_ms := Some (sp_sent_at_ms p)\<rparr>)"

definition evicted :: "estimator \<Rightarrow> nat \<Rightarrow> sent_packet \<Rightarrow> estimator" where
  "evicted e i x = (mark_stale e x)\<lparr>de_history := (de_history e)[i := None]\<rparr>"

lemma record_sent_cases:
  assumes "record_sent e p = (e', r)"
  obtains (refused) err where "r = Inl err" "e' = e"
  | (resend) x where "validate_packet e p = Inr ()" "sp_ack_eliciting p"
      "de_history e ! history_index (sp_outer_counter p) = Some x" "sp_outer_counter x = sp_outer_counter p"
      "sp_traffic_class x = sp_traffic_class p" "already_sent e (sp_outer_counter p)"
      "r = Inr (send_outcome_new False False True)"
      "e' = (record_sent_stats (e\<lparr>de_history := (de_history e)[history_index (sp_outer_counter p) := Some p]\<rparr>) p True)
              \<lparr>de_last_timestamp_ms := Some (sp_sent_at_ms p)\<rparr>"
  | (untracked) "\<not> sp_ack_eliciting p" "e' = finish_send e p" "\<not> already_sent e (sp_outer_counter p)"
      "r = Inr (send_outcome_new False (sp_logical_retransmission p) False)"
  | (tracked) e1 b where "validate_packet e p = Inr ()" "sp_ack_eliciting p" "\<not> already_sent e (sp_outer_counter p)"
      "de_history e ! history_index (sp_outer_counter p) = None \<and> e1 = e
        \<or> (\<exists>x. de_history e ! history_index (sp_outer_counter p) = Some x
             \<and> e1 = evicted e (history_index (sp_outer_counter p)) x)"
      "e' = finish_send (track_packet e1 p) p" "r = Inr (send_outcome_new b (sp_logical_retransmission p) False)"
proof (cases "validate_packet e p")
  case (Inl err)
  then show thesis using assms refused by (auto simp: record_sent_def)
next
  case v: (Inr u)
  let ?i = "history_index (sp_outer_counter p)"
  show thesis
  proof (cases "already_sent e (sp_outer_counter p)")
    case True
    then have r: "record_resend e p = (e', r)" using assms v by (simp add: record_sent_def)
    show thesis
    proof (cases "sp_ack_eliciting p \<and> holds_identity e (sp_generation p) (sp_outer_counter p)")
      case False
      then show thesis using r refused by (auto simp: record_resend_def Let_def)
    next
      case h: True
      then obtain x where x: "de_history e ! ?i = Some x" "sp_outer_counter x = sp_outer_counter p"
        by (auto simp: holds_identity_def split: option.splits)
      show thesis
      proof (cases "sp_bytes x \<noteq> sp_bytes p \<or> sp_traffic_class x \<noteq> sp_traffic_class p \<or> \<not> sp_ack_eliciting x")
        case True
        then have "e' = e" "r = Inl CounterReuse" using r h x by (simp_all add: record_resend_def Let_def)
        then show thesis using refused by blast
      next
        case False
        then show thesis using r h x v \<open>already_sent e (sp_outer_counter p)\<close>
          by (intro resend [of x]) (simp_all add: record_resend_def Let_def)
      qed
    qed
  next
    case new: False
    show thesis
    proof (cases "sp_ack_eliciting p")
      case False
      then show thesis using assms v new
        by (intro untracked) (simp_all add: record_sent_def reserve_slot_def finish_send_def Let_def)
    next
      case ack: True
      show thesis
      proof (cases "de_history e ! ?i")
        case None
        then show thesis using assms v new ack
          by (intro tracked [of e False]) (simp_all add: record_sent_def reserve_slot_def finish_send_def Let_def)
      next
        case (Some x)
        show thesis
        proof (cases "flt (elapsed_ms (sp_sent_at_ms p) (sp_sent_at_ms x)) STALE_AFTER_MS")
          case True
          then show thesis using assms v new ack Some refused by (auto simp: record_sent_def reserve_slot_def Let_def)
        next
          case False
          then show thesis using assms v new ack Some
            by (intro tracked [of "evicted e ?i x" True])
              (simp_all add: record_sent_def reserve_slot_def finish_send_def evicted_def Let_def)
        qed
      qed
    qed
  qed
qed

text \<open>What the bookkeeping of a packet leaves alone.\<close>

lemma add_sent_stats_frame [simp]:
  "cs_in_flight (add_sent_stats n p b s) = cs_in_flight s" "cs_stale (add_sent_stats n p b s) = cs_stale s"
  "cs_acknowledged_packets (add_sent_stats n p b s) = cs_acknowledged_packets s"
  by (simp_all add: add_sent_stats_def Let_def)

definition settled :: "class_state \<Rightarrow> nat" where
  "settled s = unat (cs_acknowledged_packets s) + unat (cs_stale s) + unat (cs_in_flight s)"

lemma stats_class_at:
  assumes "length (de_classes e) = 3"
  shows "cs_in_flight (class_at (record_sent_stats e p b) k) = cs_in_flight (class_at e k)"
    and "settled (class_at (record_sent_stats e p b) k) = settled (class_at e k)"
  using assms by (simp_all add: record_sent_stats_def class_at_on_class settled_def)

lemma finish_send_frame:
  "de_history (finish_send e p) = de_history e" "de_generation (finish_send e p) = de_generation e"
  "length (de_classes (finish_send e p)) = length (de_classes e)"
  "de_highest_sent (finish_send e p) = Some (case de_highest_sent e of None \<Rightarrow> sp_outer_counter p
      | Some highest \<Rightarrow> max highest (sp_outer_counter p))"
  "class_at (finish_send e p) k = class_at (record_sent_stats e p False) k"
  by (simp_all add: finish_send_def record_sent_stats_def Let_def)

lemma finish_send_sent:
  "already_sent (finish_send e p) c \<longleftrightarrow> already_sent e c \<or> c \<le> sp_outer_counter p"
  by (auto simp: already_sent_def finish_send_frame le_max_iff_disj split: option.split)

lemma track_packet_frame:
  "de_history (track_packet e p) = (de_history e)[history_index (sp_outer_counter p) := Some p]"
  "de_generation (track_packet e p) = de_generation e" "length (de_classes (track_packet e p)) = length (de_classes e)"
  "de_highest_sent (track_packet e p) = de_highest_sent e"
  by (simp_all add: track_packet_def add_in_flight_def Let_def)

lemma track_packet_class:
  assumes "length (de_classes e) = 3"
  shows "class_at (track_packet e p) k =
    (if concerns k p then (class_at e k)\<lparr>cs_in_flight := sat_add (cs_in_flight (class_at e k)) 1\<rparr> else class_at e k)"
  using assms by (simp add: track_packet_def add_in_flight_def class_at_on_class concerns_def Let_def)

lemma evicted_frame:
  "de_history (evicted e i x) = (de_history e)[i := None]" "de_generation (evicted e i x) = de_generation e"
  "length (de_classes (evicted e i x)) = length (de_classes e)" "de_highest_sent (evicted e i x) = de_highest_sent e"
  by (simp_all add: evicted_def mark_stale_def)

lemma evicted_class:
  assumes "length (de_classes e) = 3"
  shows "class_at (evicted e i x) k = (if concerns k x then class_stale (class_at e k) else class_at e k)"
  using assms by (simp add: evicted_def mark_stale_def class_at_on_class concerns_def)

lemma evicted_inv:
  assumes "delivery_inv e" "i < 2048" "de_history e ! i = Some x"
  shows "delivery_inv (evicted e i x)"
  by (rule retire_inv [OF assms, of class_stale]) (simp_all add: evicted_def mark_stale_def class_stale_def unat_sat_sub)

lemma untracked_inv:
  assumes "delivery_inv e" shows "delivery_inv (finish_send e p)"
proof -
  have l: "length (de_classes e) = 3" using assms by (simp add: delivery_inv_def)
  have "entry_ok (finish_send e p) i x" if "i < 2048" "de_history e ! i = Some x" for i x
  proof -
    have "entry_ok e i x" using assms that by (simp add: delivery_inv_def)
    then show ?thesis by (rule entry_mono) (simp_all add: finish_send_frame finish_send_sent)
  qed
  then show ?thesis using assms by (simp add: delivery_inv_def finish_send_frame stats_class_at [OF l])
qed

lemma tracked_inv:
  assumes inv: "delivery_inv e" and p: "sp_generation p = de_generation e" "sp_ack_eliciting p"
    and free: "de_history e ! history_index (sp_outer_counter p) = None"
  shows "delivery_inv (finish_send (track_packet e p) p)"
proof (rule insert_inv [OF inv history_index_less free])
  have l: "length (de_classes e) = 3" using inv by (simp add: delivery_inv_def)
  show "de_history (finish_send (track_packet e p) p) = (de_history e)[history_index (sp_outer_counter p) := Some p]"
    "length (de_classes (finish_send (track_packet e p) p)) = 3"
    "de_generation (finish_send (track_packet e p) p) = de_generation e"
    by (simp_all add: finish_send_frame track_packet_frame l)
  show "entry_ok (finish_send (track_packet e p) p) (history_index (sp_outer_counter p)) p"
    using p by (simp add: entry_ok_def finish_send_frame track_packet_frame finish_send_sent)
  show "already_sent (finish_send (track_packet e p) p) c" if "already_sent e c" for c
    using that unfolding finish_send_sent by (simp add: already_sent_def track_packet_frame)
  show "unat (cs_in_flight (class_at (finish_send (track_packet e p) p) k))
      = unat (cs_in_flight (class_at e k)) + (if concerns k p then 1 else 0)"
    if "unat (cs_in_flight (class_at e k)) \<le> 2048" for k
    using that l by (simp add: finish_send_frame stats_class_at track_packet_frame track_packet_class unat_in_flight_up)
qed

lemma resend_inv:
  assumes inv: "delivery_inv e" and p: "sp_generation p = de_generation e" "sp_ack_eliciting p"
    and x: "de_history e ! history_index (sp_outer_counter p) = Some x" "sp_outer_counter x = sp_outer_counter p"
      "sp_traffic_class x = sp_traffic_class p" "already_sent e (sp_outer_counter p)"
    and e': "e' = (record_sent_stats (e\<lparr>de_history := (de_history e)[history_index (sp_outer_counter p) := Some p]\<rparr>) p True)
              \<lparr>de_last_timestamp_ms := Some (sp_sent_at_ms p)\<rparr>"
  shows "delivery_inv e'"
proof -
  let ?i = "history_index (sp_outer_counter p)"
  have l: "length (de_history e) = 2048" "length (de_classes e) = 3" using inv by (simp_all add: delivery_inv_def)
  have h: "de_history e' = (de_history e)[?i := Some p]" "de_generation e' = de_generation e"
      "de_highest_sent e' = de_highest_sent e" "length (de_classes e') = 3"
    by (simp_all add: e' record_sent_stats_def l)
  have ok: "entry_ok e' j y" if "j < 2048" "de_history e' ! j = Some y" for j y
  proof (cases "j = ?i")
    case True
    then show ?thesis using that h l p x(4) by (simp add: entry_ok_def already_sent_def)
  next
    case False
    then have "entry_ok e j y" using that inv l by (simp add: h delivery_inv_def)
    then show ?thesis by (rule entry_mono) (simp_all add: h already_sent_def)
  qed
  have "held_when (concerns k) (de_history e') = held_when (concerns k) (de_history e)" for k
    using held_update [of ?i "de_history e" "concerns k" "Some p"] x l history_index_less
    by (simp add: h concerns_def)
  moreover have "cs_in_flight (class_at e' k) = cs_in_flight (class_at e k)" for k
    by (simp add: e' stats_class_at l)
  ultimately show ?thesis using ok h l inv by (simp add: delivery_inv_def)
qed

section \<open>The acknowledgement loop\<close>

text \<open>A packet is named by a bitmap when its counter lies at a set bit below the largest.\<close>

definition named_by :: "nat \<Rightarrow> u64 \<Rightarrow> u64 \<Rightarrow> sent_packet \<Rightarrow> bool" where
  "named_by n largest received x \<longleftrightarrow>
     list_ex (\<lambda>b. bit received b \<and> unat (sp_outer_counter x) + b = unat largest) [0..<n]"

definition retired :: "(sent_packet \<Rightarrow> bool) \<Rightarrow> sent_packet option list \<Rightarrow> sent_packet option list" where
  "retired P h = map (\<lambda>s. case s of None \<Rightarrow> None | Some x \<Rightarrow> if P x then None else Some x) h"

lemma retired_nth:
  "i < length h \<Longrightarrow> retired P h ! i = (case h ! i of None \<Rightarrow> None | Some x \<Rightarrow> if P x then None else Some x)"
  by (simp add: retired_def)

lemma length_retired [simp]: "length (retired P h) = length h"
  by (simp add: retired_def)

lemma named_by_Suc:
  "named_by (Suc n) largest received x \<longleftrightarrow>
     named_by n largest received x \<or> bit received n \<and> unat (sp_outer_counter x) + n = unat largest"
  by (auto simp: named_by_def)

lemma named_by_0 [simp]: "named_by 0 largest received = (\<lambda>x. False)"
  by (simp add: named_by_def fun_eq_iff)

lemma not_named_again: "unat (sp_outer_counter x) + n = unat largest \<Longrightarrow> \<not> named_by n largest received x"
  by (auto simp: named_by_def list_ex_iff)

lemma named_counter: "n \<le> unat largest \<Longrightarrow> n < 64 \<Longrightarrow> unat (largest - of_nat n :: u64) + n = unat largest"
  by (simp add: unat_sub word_le_nat_alt unat_of_nat take_bit_nat_eq_self)

text \<open>The state after the first bits: the packets named so far are gone from the ring and counted.\<close>

definition ack_state :: "estimator \<Rightarrow> u64 \<Rightarrow> u64 \<Rightarrow> nat \<Rightarrow> estimator \<times> ack_progress \<Rightarrow> bool" where
  "ack_state e0 largest received n s \<longleftrightarrow> (case s of (e, a) \<Rightarrow> delivery_inv e
     \<and> de_generation e = de_generation e0 \<and> de_highest_sent e = de_highest_sent e0 \<and> de_srtt_ms e = de_srtt_ms e0
     \<and> de_history e = retired (named_by n largest received) (de_history e0)
     \<and> unat (ap_packets a) = held_when (named_by n largest received) (de_history e0) \<and> unat (ap_packets a) \<le> n
     \<and> unat (ap_bytes a) = ring_sum (\<lambda>x. if named_by n largest received x then unat (sp_bytes x) else 0) (de_history e0)
     \<and> unat (ap_bytes a) \<le> n * 2 ^ 32)"

lemma ring_sum_0 [simp]: "ring_sum (\<lambda>x. 0) h = 0"
  by (induction h) (auto simp: ring_sum_def slot_weight_def split: option.split)

lemma retired_none [simp]: "retired (\<lambda>x. False) h = h"
  by (simp add: retired_def map_idI split: option.split)

lemma ack_state_0:
  "delivery_inv e \<Longrightarrow> ack_state e largest received 0 (e, \<lparr>ap_packets = 0, ap_bytes = 0, ap_largest = None\<rparr>)"
  by (simp add: ack_state_def held_when_def)

text \<open>One more bit that names no unresolved packet.\<close>

lemma ack_state_skip:
  assumes "ack_state e0 largest received n s"
    and "\<And>x. Some x \<in> set (de_history e0) \<Longrightarrow> named_by (Suc n) largest received x = named_by n largest received x"
  shows "ack_state e0 largest received (Suc n) s"
proof -
  have "retired (named_by (Suc n) largest received) (de_history e0) = retired (named_by n largest received) (de_history e0)"
    using assms(2) by (auto simp: retired_def split: option.split)
  moreover have "ring_sum (\<lambda>x. if named_by (Suc n) largest received x then f x else 0) (de_history e0)
      = ring_sum (\<lambda>x. if named_by n largest received x then f x else 0) (de_history e0)" for f
    using assms(2) by (intro ring_sum_cong) simp
  ultimately show ?thesis using assms(1) by (auto simp: ack_state_def held_when_def split: prod.splits)
qed

lemma mark_acknowledged_frame [simp]:
  "de_history (mark_acknowledged e x) = de_history e" "de_generation (mark_acknowledged e x) = de_generation e"
  "de_highest_sent (mark_acknowledged e x) = de_highest_sent e" "de_srtt_ms (mark_acknowledged e x) = de_srtt_ms e"
  "length (de_classes (mark_acknowledged e x)) = length (de_classes e)"
  by (simp_all add: mark_acknowledged_def)

lemma acknowledged_inv:
  assumes "delivery_inv e" "i < 2048" "de_history e ! i = Some x"
  shows "delivery_inv (mark_acknowledged (e\<lparr>de_history := (de_history e)[i := None]\<rparr>) x)"
  by (rule retire_inv [OF assms, of "class_acknowledged (ucast (sp_bytes x))"])
    (simp_all add: mark_acknowledged_def on_class_def class_acknowledged_def unat_sat_sub)

lemma mark_acknowledged_class:
  assumes "length (de_classes e) = 3"
  shows "class_at (mark_acknowledged e x) k =
    (if concerns k x then class_acknowledged (ucast (sp_bytes x)) (class_at e k) else class_at e k)"
  using assms by (simp add: mark_acknowledged_def class_at_on_class concerns_def)

lemma named_by_counter:
  assumes "n \<le> unat largest" "n < 64" "bit received n"
  shows "named_by (Suc n) largest received x \<longleftrightarrow>
    named_by n largest received x \<or> sp_outer_counter x = largest - of_nat n"
proof -
  have "unat (sp_outer_counter x) + n = unat largest \<longleftrightarrow> sp_outer_counter x = largest - of_nat n"
    using named_counter [OF assms(1,2)] by (metis add_right_cancel word_unat_eq_iff)
  then show ?thesis using assms(3) by (simp add: named_by_Suc)
qed

text \<open>One more bit that names an unresolved packet: its slot is cleared and it is counted once.\<close>

lemma ack_state_take:
  assumes st: "ack_state e0 largest received n (e, a)" and inv0: "delivery_inv e0"
    and n: "n < 64" "n \<le> unat largest" "bit received n"
    and i: "i = history_index (largest - of_nat n)" and x: "de_history e0 ! i = Some x" "sp_outer_counter x = largest - of_nat n"
  shows "ack_state e0 largest received (Suc n)
    (mark_acknowledged (e\<lparr>de_history := (de_history e)[i := None]\<rparr>) x,
     a\<lparr>ap_packets := sat_add (ap_packets a) 1, ap_bytes := sat_add (ap_bytes a) (ucast (sp_bytes x)), ap_largest := l\<rparr>)"
proof -
  let ?N = "named_by n largest received" and ?M = "named_by (Suc n) largest received"
  have l: "length (de_history e0) = 2048" using inv0 by (simp add: delivery_inv_def)
  have li: "i < 2048" using i history_index_less by simp
  have nx: "\<not> ?N x" "?M x"
    using not_named_again [of x n largest received] named_counter [OF n(2,1)] x(2) named_by_counter [OF n(2,1,3)] by simp_all
  have other: "?M y = ?N y" if "j < 2048" "j \<noteq> i" "de_history e0 ! j = Some y" for j y
  proof -
    have "history_index (sp_outer_counter y) = j" using inv0 that by (simp add: delivery_inv_def entry_ok_def)
    then show ?thesis using that(2) i named_by_counter [OF n(2,1,3)] by auto
  qed
  have h: "de_history e = retired ?N (de_history e0)" using st by (simp add: ack_state_def)
  have ei: "de_history e ! i = Some x" using li l x(1) nx(1) by (simp add: h retired_nth)
  have h': "(de_history e)[i := None] = retired ?M (de_history e0)"
  proof (rule nth_equalityI)
    fix j assume "j < length ((de_history e)[i := None])"
    then have "j < 2048" using l by (simp add: h)
    then show "(de_history e)[i := None] ! j = retired ?M (de_history e0) ! j"
      using other [of j] x(1) nx(2) l by (cases "j = i") (auto simp: h retired_nth split: option.split)
  qed (simp add: h)
  have sm: "ring_sum (\<lambda>y. if ?M y then f y else 0) (de_history e0) = ring_sum (\<lambda>y. if ?N y then f y else 0) (de_history e0) + f x" for f
    using ring_sum_change [of i "de_history e0" "\<lambda>y. if ?M y then f y else 0" "\<lambda>y. if ?N y then f y else 0"]
      other l li x(1) nx by (auto simp: slot_weight_def split: option.split)
  have b: "unat (sp_bytes x) < 2 ^ 32" using unsigned_less [of "sp_bytes x"] by simp
  have ub: "unat (ucast (sp_bytes x) :: u64) = unat (sp_bytes x)" using b by (simp add: unsigned_ucast_eq take_bit_nat_eq_self)
  have pk: "unat (ap_packets a) \<le> n" "unat (ap_bytes a) \<le> n * 2 ^ 32" using st by (simp_all add: ack_state_def)
  have p1: "unat (sat_add (ap_packets a) 1) = Suc (unat (ap_packets a))" using pk(1) n(1) by (simp add: unat_sat_add)
  have b1: "unat (sat_add (ap_bytes a) (ucast (sp_bytes x))) = unat (ap_bytes a) + unat (sp_bytes x)"
    using pk(2) n(1) b by (simp add: unat_sat_add ub)
  have "delivery_inv (mark_acknowledged (e\<lparr>de_history := (de_history e)[i := None]\<rparr>) x)"
    using st by (intro acknowledged_inv [OF _ li ei]) (simp add: ack_state_def)
  then show ?thesis
    using st b pk h' p1 b1 sm [of "\<lambda>y. 1"] sm [of "\<lambda>y. unat (sp_bytes y)"] by (simp add: ack_state_def held_when_def)
qed

lemma ack_state_step:
  assumes st: "ack_state e0 largest received n (e, a)" and inv0: "delivery_inv e0"
    and n: "n < 64" "bit received n \<Longrightarrow> n \<le> unat largest" and g: "generation = de_generation e0"
  shows "ack_state e0 largest received (Suc n) (acknowledge_bit generation largest received n (e, a))"
proof (cases "bit received n")
  case False
  then show ?thesis using ack_state_skip [OF st] by (simp add: acknowledge_bit_def named_by_Suc)
next
  case b: True
  let ?i = "history_index (largest - of_nat n)"
  have nl: "n \<le> unat largest" using n(2) b by simp
  have l: "length (de_history e0) = 2048" and li: "?i < 2048" using inv0 history_index_less by (simp_all add: delivery_inv_def)
  have h: "de_history e ! ?i = (case de_history e0 ! ?i of None \<Rightarrow> None | Some x \<Rightarrow>
      if named_by n largest received x then None else Some x)"
    using st l li by (simp add: ack_state_def retired_nth)
  show ?thesis
  proof (cases "\<exists>x. de_history e0 ! ?i = Some x \<and> sp_outer_counter x = largest - of_nat n")
    case True
    then obtain x where x: "de_history e0 ! ?i = Some x" "sp_outer_counter x = largest - of_nat n" by blast
    have "\<not> named_by n largest received x"
      using not_named_again [of x n largest received] named_counter [OF nl n(1)] x(2) by simp
    moreover have "sp_generation x = generation" using inv0 x(1) li g by (simp add: delivery_inv_def entry_ok_def)
    ultimately show ?thesis
      using ack_state_take [OF st inv0 n(1) nl b refl x] h x b by (simp add: acknowledge_bit_def Let_def)
  next
    case False
    have "sp_outer_counter x \<noteq> largest - of_nat n" if m: "Some x \<in> set (de_history e0)" for x
    proof -
      obtain j where j: "j < 2048" "de_history e0 ! j = Some x" using m unfolding in_set_conv_nth l by blast
      then have "history_index (sp_outer_counter x) = j" using inv0 by (simp add: delivery_inv_def entry_ok_def)
      then show ?thesis using False j by auto
    qed
    then have "ack_state e0 largest received (Suc n) (e, a)"
      using named_by_counter [OF nl n(1) b] by (intro ack_state_skip [OF st]) simp
    moreover have "acknowledge_bit generation largest received n (e, a) = (e, a)"
    proof (cases "de_history e ! ?i")
      case (Some y)
      then have "de_history e0 ! ?i = Some y" using h by (simp split: option.splits if_splits)
      then have "sp_outer_counter y \<noteq> largest - of_nat n" using False by blast
      then show ?thesis using Some by (simp add: acknowledge_bit_def Let_def)
    qed (simp add: acknowledge_bit_def Let_def)
    ultimately show ?thesis by simp
  qed
qed

lemma acknowledge_loop_state:
  assumes inv: "delivery_inv e" and u: "\<not> underflows largest received" and g: "generation = de_generation e"
  shows "ack_state e largest received 64 (acknowledge_loop generation largest received e)"
proof -
  have b: "n \<le> unat largest" if "n < 64" "bit received n" for n
  proof (cases "n = 0")
    case False
    then have "\<not> largest < of_nat n" using u that by (auto simp: underflows_def list_ex_iff)
    then show ?thesis using that(1) by (simp add: word_less_nat_alt unat_of_nat take_bit_nat_eq_self)
  qed simp
  have "n \<le> 64 \<Longrightarrow> ack_state e largest received n
      (fold (acknowledge_bit generation largest received) [0..<n] (e, \<lparr>ap_packets = 0, ap_bytes = 0, ap_largest = None\<rparr>))" for n
  proof (induction n)
    case 0
    then show ?case using ack_state_0 [OF inv] by simp
  next
    case (Suc n)
    let ?s = "fold (acknowledge_bit generation largest received) [0..<n] (e, \<lparr>ap_packets = 0, ap_bytes = 0, ap_largest = None\<rparr>)"
    obtain e1 a where s: "?s = (e1, a)" by fastforce
    have "ack_state e largest received n (e1, a)" using Suc s by simp
    then have "ack_state e largest received (Suc n) (acknowledge_bit generation largest received n (e1, a))"
      using Suc(2) by (intro ack_state_step [OF _ inv _ b g]) simp_all
    then show ?case by (simp add: s)
  qed
  from this [of 64] show ?thesis by (simp add: acknowledge_loop_def)
qed

section \<open>Conservation\<close>

lemma concerned_in_flight:
  assumes "delivery_inv e" "i < 2048" "de_history e ! i = Some x" "concerns k x"
  shows "1 \<le> unat (cs_in_flight (class_at e k))"
proof -
  have "held_when (concerns k) ((de_history e)[i := None]) + 1 = held_when (concerns k) (de_history e)"
    using held_update [of i "de_history e" "concerns k" None] assms by (simp add: delivery_inv_def)
  then show ?thesis using assms(1) by (simp add: delivery_inv_def)
qed

lemma settled_retired:
  assumes "1 \<le> unat (cs_in_flight s)" "settled s < 2 ^ 64"
  shows "settled (class_stale s) = settled s" "settled (class_acknowledged n s) = settled s"
  using assms by (simp_all add: settled_def class_stale_def class_acknowledged_def unat_sat_add unat_sat_sub)

lemma settled_tracked:
  "unat (cs_in_flight s) \<le> 2048 \<Longrightarrow> settled (s\<lparr>cs_in_flight := sat_add (cs_in_flight s) 1\<rparr>) = Suc (settled s)"
  by (simp add: settled_def unat_in_flight_up)

lemma in_flight_le: "delivery_inv e \<Longrightarrow> unat (cs_in_flight (class_at e k)) \<le> 2048"
  using held_when_le [of "concerns k" "de_history e"] by (simp add: delivery_inv_def)

definition balanced :: "estimator \<Rightarrow> (traffic_class option \<Rightarrow> nat) \<Rightarrow> bool" where
  "balanced e n \<longleftrightarrow> delivery_inv e \<and> (\<forall>k. settled (class_at e k) = n k)"

lemma balanced_evicted:
  assumes b: "balanced e n" and n: "\<And>k. n k < 2 ^ 64" and x: "i < 2048" "de_history e ! i = Some x"
  shows "balanced (evicted e i x) n"
proof -
  have inv: "delivery_inv e" using b by (simp add: balanced_def)
  then have l: "length (de_classes e) = 3" by (simp add: delivery_inv_def)
  have "settled (class_at (evicted e i x) k) = n k" for k
    using settled_retired(1) [OF concerned_in_flight [OF inv x]] b n [of k]
    by (simp add: balanced_def evicted_class [OF l])
  then show ?thesis using evicted_inv [OF inv x] by (simp add: balanced_def)
qed

lemma balanced_acknowledge_bit:
  assumes b: "balanced e n" and n: "\<And>k. n k < 2 ^ 64"
  shows "balanced (fst (acknowledge_bit g largest received m (e, a))) n"
proof -
  let ?i = "history_index (largest - of_nat m)"
  have inv: "delivery_inv e" using b by (simp add: balanced_def)
  then have l: "length (de_classes e) = 3" by (simp add: delivery_inv_def)
  consider "fst (acknowledge_bit g largest received m (e, a)) = e"
    | x where "de_history e ! ?i = Some x"
        "fst (acknowledge_bit g largest received m (e, a)) = mark_acknowledged (e\<lparr>de_history := (de_history e)[?i := None]\<rparr>) x"
  proof (cases "de_history e ! ?i")
    case None
    then show thesis using that by (simp add: acknowledge_bit_def Let_def)
  next
    case (Some x)
    then have "fst (acknowledge_bit g largest received m (e, a)) = e
        \<or> fst (acknowledge_bit g largest received m (e, a)) = mark_acknowledged (e\<lparr>de_history := (de_history e)[?i := None]\<rparr>) x"
      by (simp add: acknowledge_bit_def Let_def)
    then show thesis using that Some by blast
  qed
  then show ?thesis
  proof cases
    case (2 x)
    have "settled (class_at (mark_acknowledged (e\<lparr>de_history := (de_history e)[?i := None]\<rparr>) x) k) = n k" for k
      using settled_retired(2) [OF concerned_in_flight [OF inv history_index_less 2(1)]] b n [of k]
      by (simp add: balanced_def mark_acknowledged_class l)
    then show ?thesis using acknowledged_inv [OF inv history_index_less 2(1)] 2(2) by (simp add: balanced_def)
  qed (simp add: b)
qed

lemma balanced_loop:
  assumes b: "balanced e n" and n: "\<And>k. n k < 2 ^ 64"
  shows "balanced (fst (fold (acknowledge_bit g largest received) ms (e, a))) n"
  using b
proof (induction ms arbitrary: e a)
  case (Cons m ms)
  obtain e1 a1 where s: "acknowledge_bit g largest received m (e, a) = (e1, a1)" by fastforce
  have "balanced e1 n" using balanced_acknowledge_bit [OF Cons.prems n, of g largest received m a] by (simp add: s)
  then show ?case using Cons.IH by (simp add: s)
qed simp

lemma acknowledge_cases:
  assumes "acknowledge e g largest received d now = (e', r)"
  obtains (unchanged) "e' = e" "r = Inr IgnoredStaleGeneration \<and> g < de_generation e \<or> (\<exists>err. r = Inl err)"
  | (applied) e1 a rtt srtt where "g = de_generation e" "\<not> underflows largest received"
      "acknowledge_loop g largest received e = (e1, a)"
      "e' = e1\<lparr>de_srtt_ms := srtt, de_last_timestamp_ms := Some now\<rparr>"
      "r = Inr (ack_outcome_acknowledged (ap_packets a) (ap_bytes a) rtt)"
      "rtt = map_option (rtt_of now d) (ap_largest a)"
proof (cases "g = 0 \<or> g \<noteq> de_generation e \<or> \<not> acceptable_timestamp e now \<or> MAX_ACK_DELAY_US < d
    \<or> de_highest_sent e \<noteq> Some largest \<and> (case de_highest_sent e of None \<Rightarrow> True | Some highest \<Rightarrow> highest < largest)
    \<or> underflows largest received")
  case True
  then have "e' = e \<and> (r = Inr IgnoredStaleGeneration \<and> g < de_generation e \<or> (\<exists>err. r = Inl err))"
    using assms unfolding acknowledge_def by (simp split: if_splits) auto
  then show thesis using unchanged by blast
next
  case False
  obtain e1 a where l: "acknowledge_loop g largest received e = (e1, a)" by fastforce
  let ?rtt = "map_option (rtt_of now d) (ap_largest a)"
  have "acknowledge e g largest received d now =
      (let e2 = (case ?rtt of None \<Rightarrow> e1 | Some sample \<Rightarrow> e1\<lparr>de_srtt_ms := Some (smooth_rtt (de_srtt_ms e1) sample)\<rparr>)
       in (e2\<lparr>de_last_timestamp_ms := Some now\<rparr>, Inr (ack_outcome_acknowledged (ap_packets a) (ap_bytes a) ?rtt)))"
    using False l unfolding acknowledge_def by simp
  then have r: "r = Inr (ack_outcome_acknowledged (ap_packets a) (ap_bytes a) ?rtt)"
    and e: "e' = (case ?rtt of None \<Rightarrow> e1 | Some sample \<Rightarrow> e1\<lparr>de_srtt_ms := Some (smooth_rtt (de_srtt_ms e1) sample)\<rparr>)
        \<lparr>de_last_timestamp_ms := Some now\<rparr>"
    using assms by (simp_all add: Let_def)
  show thesis
  proof (rule applied [of e1 a "case ?rtt of None \<Rightarrow> de_srtt_ms e1 | Some sample \<Rightarrow> Some (smooth_rtt (de_srtt_ms e1) sample)" ?rtt])
    show "e' = e1\<lparr>de_srtt_ms := case ?rtt of None \<Rightarrow> de_srtt_ms e1 | Some sample \<Rightarrow> Some (smooth_rtt (de_srtt_ms e1) sample),
        de_last_timestamp_ms := Some now\<rparr>"
      using e by (cases "ap_largest a") simp_all
  qed (use False l r in auto)
qed

text \<open>The estimator with the packets it has tracked since its generation began.\<close>

definition tracks :: "sent_packet \<Rightarrow> delivery_error + send_outcome \<Rightarrow> bool" where
  "tracks p r \<longleftrightarrow> sp_ack_eliciting p \<and> (case r of Inl _ \<Rightarrow> False | Inr outcome \<Rightarrow> \<not> so_outer_retransmission outcome)"

inductive delivery_step :: "estimator \<times> sent_packet list \<Rightarrow> estimator \<times> sent_packet list \<Rightarrow> bool" where
  ds_sent: "record_sent e p = (e', r) \<Longrightarrow> delivery_step (e, ps) (e', if tracks p r then ps @ [p] else ps)"
| ds_ack: "acknowledge e g largest received d now = (e', r) \<Longrightarrow> delivery_step (e, ps) (e', ps)"
| ds_snapshot: "estimator_snapshot e now = (e', s) \<Longrightarrow> delivery_step (e, ps) (e', ps)"
| ds_reset: "g \<noteq> 0 \<Longrightarrow> delivery_step (e, ps) (reset_generation e g, [])"

definition delivery_start :: "estimator \<times> sent_packet list \<Rightarrow> bool" where
  "delivery_start s \<longleftrightarrow> (\<exists>g. s = (estimator_new g, []))"

definition account_inv :: "estimator \<times> sent_packet list \<Rightarrow> bool" where
  "account_inv s \<longleftrightarrow> (case s of (e, ps) \<Rightarrow> delivery_inv e
     \<and> (length ps < 2 ^ 64 \<longrightarrow> balanced e (\<lambda>k. length (filter (concerns k) ps)))
     \<and> sorted_wrt (<) (map sp_outer_counter ps) \<and> (\<forall>p \<in> set ps. already_sent e (sp_outer_counter p)))"

lemma tracked_before:
  "\<not> already_sent e c \<Longrightarrow> already_sent e c' \<Longrightarrow> c' < c"
  by (auto simp: already_sent_def split: option.splits)

lemma account_sent:
  assumes inv: "account_inv (e, ps)" and r: "record_sent e p = (e', r)"
  shows "account_inv (e', if tracks p r then ps @ [p] else ps)"
proof -
  have di: "delivery_inv e" using inv by (simp add: account_inv_def)
  then have l: "length (de_classes e) = 3" by (simp add: delivery_inv_def)
  from r show ?thesis
  proof (cases rule: record_sent_cases)
    case refused
    then show ?thesis using inv by (simp add: tracks_def)
  next
    case (resend x)
    have v: "sp_generation p = de_generation e" using resend(1) by (simp add: validate_packet_def split: if_splits)
    have "delivery_inv e'" using resend by (intro resend_inv [OF di v, of x]) simp_all
    moreover have "settled (class_at e' k) = settled (class_at e k)" for k using l by (simp add: resend(8) stats_class_at)
    moreover have "already_sent e' c = already_sent e c" for c
      by (simp add: already_sent_def resend(8) record_sent_stats_def)
    moreover have "\<not> tracks p r" by (simp add: tracks_def resend(7) send_outcome_new_def)
    ultimately show ?thesis using inv by (simp add: account_inv_def balanced_def)
  next
    case untracked
    have "settled (class_at e' k) = settled (class_at e k)" for k
      using l by (simp add: untracked(2) finish_send_frame stats_class_at)
    then show ?thesis using inv untracked untracked_inv [OF di, of p]
      by (simp add: account_inv_def balanced_def tracks_def finish_send_sent)
  next
    case (tracked e1 b)
    let ?i = "history_index (sp_outer_counter p)" and ?ps = "ps @ [p]"
    have li: "?i < 2048" by (rule history_index_less)
    have v: "sp_generation p = de_generation e" using tracked(1) by (simp add: validate_packet_def split: if_splits)
    have lh: "length (de_history e) = 2048" using di by (simp add: delivery_inv_def)
    have e1: "delivery_inv e1" "de_history e1 ! ?i = None" "de_generation e1 = de_generation e"
        "de_highest_sent e1 = de_highest_sent e"
      using tracked(4) di evicted_inv [OF di li] li lh by (auto simp: evicted_frame)
    have b1: "balanced e1 (\<lambda>k. length (filter (concerns k) ps))" if "length ps < 2 ^ 64"
    proof -
      have "balanced e (\<lambda>k. length (filter (concerns k) ps))" using inv that by (simp add: account_inv_def)
      moreover have "length (filter (concerns k) ps) < 2 ^ 64" for k using that le_less_trans length_filter_le by blast
      ultimately show ?thesis using tracked(4) balanced_evicted [OF _ _ li] by auto
    qed
    have l1: "length (de_classes e1) = 3" using e1(1) by (simp add: delivery_inv_def)
    have d': "delivery_inv e'" unfolding tracked(5) using e1 v tracked(2) by (intro tracked_inv) simp_all
    have "settled (class_at e' k) = settled (class_at e1 k) + (if concerns k p then 1 else 0)" for k
      using settled_tracked [OF in_flight_le [OF e1(1)]] l1
      by (simp add: tracked(5) finish_send_frame stats_class_at track_packet_frame track_packet_class)
    then have "balanced e' (\<lambda>k. length (filter (concerns k) ?ps))" if "length ?ps < 2 ^ 64"
      using b1 d' that by (auto simp: balanced_def)
    moreover have sent: "already_sent e' c \<longleftrightarrow> already_sent e c \<or> c \<le> sp_outer_counter p" for c
      unfolding tracked(5) finish_send_sent by (simp add: already_sent_def track_packet_frame e1(4))
    moreover have "sorted_wrt (<) (map sp_outer_counter ?ps)"
      using inv tracked_before [OF tracked(3)] by (auto simp: account_inv_def sorted_wrt_append)
    moreover have "tracks p r" by (simp add: tracks_def tracked(2,6) send_outcome_new_def)
    ultimately show ?thesis using d' inv by (auto simp: account_inv_def)
  qed
qed

lemma account_frame:
  assumes "account_inv (e, ps)" "delivery_inv e'" "de_highest_sent e' = de_highest_sent e"
    and "\<And>n. balanced e n \<Longrightarrow> (\<And>k. n k < 2 ^ 64) \<Longrightarrow> balanced e' n"
  shows "account_inv (e', ps)"
proof -
  have "balanced e' (\<lambda>k. length (filter (concerns k) ps))" if "length ps < 2 ^ 64"
  proof (rule assms(4))
    show "length (filter (concerns k) ps) < 2 ^ 64" for k using that le_less_trans length_filter_le by blast
    show "balanced e (\<lambda>k. length (filter (concerns k) ps))" using assms(1) that by (simp add: account_inv_def)
  qed
  then show ?thesis using assms(1-3) by (simp add: account_inv_def already_sent_def)
qed

lemma inv_settings:
  assumes "de_history e' = de_history e" "de_generation e' = de_generation e" "de_highest_sent e' = de_highest_sent e"
    "length (de_classes e') = length (de_classes e)"
    "\<And>k. cs_in_flight (class_at e' k) = cs_in_flight (class_at e k)"
  shows "delivery_inv e' \<longleftrightarrow> delivery_inv e"
  using assms by (simp add: delivery_inv_def entry_ok_def already_sent_def)

lemma account_ack:
  assumes inv: "account_inv (e, ps)" and r: "acknowledge e g largest received d now = (e', r)"
  shows "account_inv (e', ps)"
  using r
proof (cases rule: acknowledge_cases)
  case (applied e1 a rtt srtt)
  have di: "delivery_inv e" using inv by (simp add: account_inv_def)
  have st: "ack_state e largest received 64 (e1, a)"
    using acknowledge_loop_state [OF di applied(2,1)] applied(3) by simp
  have same: "delivery_inv e' = delivery_inv e1" "class_at e' k = class_at e1 k" for k
    by (rule inv_settings) (simp_all add: applied(4))
  show ?thesis
  proof (rule account_frame [OF inv])
    show "delivery_inv e'" "de_highest_sent e' = de_highest_sent e"
      using st by (simp_all add: same, simp_all add: ack_state_def applied(4))
    show "balanced e' n" if "balanced e n" "\<And>k. n k < 2 ^ 64" for n
      using balanced_loop [OF that, of g largest received "[0..<64]" "\<lparr>ap_packets = 0, ap_bytes = 0, ap_largest = None\<rparr>"] applied(3)
      by (simp add: balanced_def same acknowledge_loop_def)
  qed
qed (simp add: inv)

lemma account_snapshot:
  assumes inv: "account_inv (e, ps)" and r: "estimator_snapshot e now = (e', sn)"
  shows "account_inv (e', ps)"
proof -
  have di: "delivery_inv e" using inv by (simp add: account_inv_def)
  then have l: "length (de_classes e) = 3" by (simp add: delivery_inv_def)
  have e': "e' = (if acceptable_timestamp e now then maybe_sample_rate (e\<lparr>de_last_timestamp_ms := Some now\<rparr>) now else e)"
    using r by (simp add: estimator_snapshot_def Let_def)
  have f: "de_history (maybe_sample_rate x t) = de_history x" "de_generation (maybe_sample_rate x t) = de_generation x"
      "de_highest_sent (maybe_sample_rate x t) = de_highest_sent x"
      "length (de_classes (maybe_sample_rate x t)) = length (de_classes x)" for x t
    by (simp_all add: maybe_sample_rate_def Let_def split: option.split)
  have c: "cs_in_flight (class_at (maybe_sample_rate x t) k) = cs_in_flight (class_at x k)
      \<and> settled (class_at (maybe_sample_rate x t) k) = settled (class_at x k)" if "length (de_classes x) = 3" for x t k
    using that by (cases k) (simp_all add: maybe_sample_rate_def class_at_def settled_def sample_class_def Let_def split: option.split)
  have same: "delivery_inv e' = delivery_inv e" by (rule inv_settings) (simp_all add: e' f c l)
  have "settled (class_at e' k) = settled (class_at e k)" for k by (simp add: e' c l)
  then show ?thesis using di by (intro account_frame [OF inv]) (simp_all add: same balanced_def, simp add: e' f)
qed

lemma account_new: "account_inv (estimator_new g, [])"
proof -
  have "class_at (estimator_new g) k = class_empty" for k
    by (cases k) (simp_all add: class_at_def estimator_new_def DELIVERY_CLASS_COUNT_def)
  then have "settled (class_at (estimator_new g) k) = 0" for k by (simp add: settled_def class_empty_def)
  then show ?thesis using new_inv [of g] by (simp add: account_inv_def balanced_def)
qed

interpretation ledger: invariant_system delivery_start delivery_step account_inv
proof
  fix s t assume i: "account_inv s" and "delivery_step s t"
  from this(2) show "account_inv t"
  proof cases
    case (ds_sent e p e' r ps)
    then show ?thesis using i account_sent by blast
  next
    case (ds_ack e g largest received d now e' r ps)
    then show ?thesis using i account_ack by blast
  next
    case (ds_snapshot e now e' s ps)
    then show ?thesis using i account_snapshot by blast
  qed (simp add: reset_generation_def account_new)
qed (auto simp: delivery_start_def account_new)

section \<open>Properties\<close>

definition demo_packet :: "u64 \<Rightarrow> traffic_class \<Rightarrow> f64 \<Rightarrow> sent_packet" where
  "demo_packet c k t = \<lparr>sp_generation = 1, sp_outer_counter = c, sp_bytes = 1200, sp_sent_at_ms = t,
     sp_traffic_class = k, sp_ack_eliciting = True, sp_logical_retransmission = False\<rparr>"

definition demo_recorded :: estimator where
  "demo_recorded = fst (record_sent (estimator_new 1) (demo_packet 7 Video (Fin 0)))"

lemma demo_recorded_step:
  "\<exists>r. record_sent (estimator_new 1) (demo_packet 7 Video (Fin 0)) = (demo_recorded, Inr r) \<and> \<not> so_outer_retransmission r"
  by (simp add: demo_recorded_def record_sent_def validate_packet_def acceptable_timestamp_def demo_packet_def
      already_sent_def reserve_slot_def estimator_new_def history_index_def DELIVERY_HISTORY_CAPACITY_def
      send_outcome_new_def Let_def)

lemma demo_recorded_reach: "reachable delivery_start delivery_step (demo_recorded, [demo_packet 7 Video (Fin 0)])"
proof -
  have "delivery_start (estimator_new 1, [])" by (auto simp: delivery_start_def)
  then have "reachable delivery_start delivery_step (estimator_new 1, [])" by (rule reach_start)
  moreover obtain r where r: "record_sent (estimator_new 1) (demo_packet 7 Video (Fin 0)) = (demo_recorded, Inr r)"
      "\<not> so_outer_retransmission r" using demo_recorded_step by blast
  have "tracks (demo_packet 7 Video (Fin 0)) (Inr r)" using r(2) by (simp add: tracks_def demo_packet_def)
  then have "delivery_step (estimator_new 1, []) (demo_recorded, [demo_packet 7 Video (Fin 0)])"
    using ds_sent [OF r(1), of "[]"] by simp
  ultimately show ?thesis by (rule reach_step)
qed

text \<open>C20: Every tracked packet is accounted for exactly once. In every state an estimator can reach, for the
  aggregate and for each traffic class, the packets acknowledged, declared stale and still in flight add
  up to the ack-eliciting packets recorded since the generation began, the count in flight is the number of
  unresolved entries of the history ring, and no counter was recorded twice.\<close>
theorem delivery_conservation:
  assumes "reachable delivery_start delivery_step (e, ps)" "length ps < 2 ^ 64"
  shows "unat (cs_acknowledged_packets (de_aggregate e)) + unat (cs_stale (de_aggregate e))
      + unat (cs_in_flight (de_aggregate e)) = length ps
    \<and> (\<forall>c. unat (cs_acknowledged_packets (de_classes e ! class_index c)) + unat (cs_stale (de_classes e ! class_index c))
      + unat (cs_in_flight (de_classes e ! class_index c)) = length (filter (\<lambda>p. sp_traffic_class p = c) ps))
    \<and> unat (cs_in_flight (de_aggregate e)) = length (filter (\<lambda>s. s \<noteq> None) (de_history e))
    \<and> sorted_wrt (<) (map sp_outer_counter ps)"
proof -
  have i: "account_inv (e, ps)" using assms(1) by (rule ledger.reachable_inv)
  then have b: "settled (class_at e k) = length (filter (concerns k) ps)" for k
    using assms(2) by (simp add: account_inv_def balanced_def)
  have "filter (concerns (Some c)) ps = filter (\<lambda>p. sp_traffic_class p = c) ps" for c
    by (intro filter_cong) (auto simp: concerns_def)
  moreover have "filter (concerns None) ps = ps" by (simp add: concerns_def)
  moreover have "held_when (concerns None) h = length (filter (\<lambda>s. s \<noteq> None) h)" for h
    by (induction h) (auto simp: held_when_def ring_sum_def slot_weight_def concerns_def split: option.split)
  moreover have "unat (cs_in_flight (class_at e None)) = held_when (concerns None) (de_history e)"
    using i by (simp add: account_inv_def delivery_inv_def)
  ultimately show ?thesis
    using b [of None] b [of "Some c" for c] i by (simp add: settled_def class_at_def account_inv_def)
qed

theorem delivery_conservation_witness:
  "unat (cs_acknowledged_packets (de_aggregate demo_recorded)) + unat (cs_stale (de_aggregate demo_recorded))
    + unat (cs_in_flight (de_aggregate demo_recorded)) = 1"
  using delivery_conservation [OF demo_recorded_reach] by simp

text \<open>C24: An acknowledgement retires exactly what it names, once. Applied to a reachable estimator of the same
  generation, a bitmap removes from the history ring exactly the unresolved packets whose counter lies at
  a set bit below the largest, whatever ring slots they share with others, reports their number and the
  sum of their sizes, and repeating it at any later time reports nothing.\<close>
theorem delivery_ack_exact:
  assumes "reachable delivery_start delivery_step (e, ps)" "g = de_generation e"
    and "acknowledge e g largest received d now = (e', Inr outcome)"
  shows "de_history e' = retired (named_by 64 largest received) (de_history e)
    \<and> unat (ao_packets outcome) = held_when (named_by 64 largest received) (de_history e)
    \<and> unat (ao_bytes outcome)
        = ring_sum (\<lambda>x. if named_by 64 largest received x then unat (sp_bytes x) else 0) (de_history e)
    \<and> (\<forall>d' now' e'' again. acknowledge e' g largest received d' now' = (e'', Inr again) \<longrightarrow>
         ao_packets again = 0 \<and> ao_bytes again = 0)"
proof -
  let ?N = "named_by 64 largest received"
  have i: "account_inv (e, ps)" using assms(1) by (rule ledger.reachable_inv)
  have exact: "de_history e2 = retired ?N (de_history e1) \<and> unat (ao_packets r) = held_when ?N (de_history e1)
      \<and> unat (ao_bytes r) = ring_sum (\<lambda>x. if ?N x then unat (sp_bytes x) else 0) (de_history e1)
      \<and> de_generation e2 = de_generation e1"
    if "delivery_inv e1" "g = de_generation e1" "acknowledge e1 g largest received d1 t = (e2, Inr r)" for e1 e2 d1 t r
    using that(3)
  proof (cases rule: acknowledge_cases)
    case (applied e3 a rtt srtt)
    have "ack_state e1 largest received 64 (e3, a)"
      using acknowledge_loop_state [OF that(1) applied(2,1)] applied(3) by simp
    then show ?thesis using applied(4,5) by (simp add: ack_state_def ack_outcome_acknowledged_def)
  qed (use that(2) in auto)
  have i': "account_inv (e', ps)" using account_ack [OF i assms(3)] .
  note first = exact [OF _ assms(2,3)]
  have z: "ring_sum (\<lambda>x. if ?N x then f x else 0) (retired ?N h) = 0" for f h
    by (induction h) (auto simp: ring_sum_def retired_def slot_weight_def split: option.split)
  have "ao_packets again = 0 \<and> ao_bytes again = 0" if "acknowledge e' g largest received d' now' = (e'', Inr again)" for d' now' e'' again
    using exact [OF _ _ that] first i i' assms(2) z [of "\<lambda>x. 1"] z [of "\<lambda>x. unat (sp_bytes x)"]
    by (simp add: account_inv_def held_when_def unat_eq_zero)
  then show ?thesis using first i by (simp add: account_inv_def)
qed

lemma demo_recorded_fields:
  "de_history demo_recorded = (replicate 2048 None)[7 := Some (demo_packet 7 Video (Fin 0))]" "de_generation demo_recorded = 1"
  "de_highest_sent demo_recorded = Some 7" "de_last_timestamp_ms demo_recorded = Some (Fin 0)"
proof -
  have h: "history_index 7 = 7" by (simp add: history_index_def DELIVERY_HISTORY_CAPACITY_def)
  let ?p = "demo_packet 7 Video (Fin 0)"
  have d: "demo_recorded = finish_send (track_packet (estimator_new 1) ?p) ?p"
    by (simp add: demo_recorded_def record_sent_def validate_packet_def acceptable_timestamp_def demo_packet_def
      already_sent_def reserve_slot_def estimator_new_def history_index_def DELIVERY_HISTORY_CAPACITY_def
      finish_send_def Let_def)
  have c: "sp_outer_counter ?p = 7" "sp_sent_at_ms ?p = Fin 0" by (simp_all add: demo_packet_def)
  have n: "de_history (estimator_new 1) = replicate 2048 None" "de_generation (estimator_new 1) = 1"
      "de_highest_sent (estimator_new 1) = None"
    by (simp_all add: estimator_new_def DELIVERY_HISTORY_CAPACITY_def)
  show "de_history demo_recorded = (replicate 2048 None)[7 := Some ?p]" "de_generation demo_recorded = 1"
    "de_highest_sent demo_recorded = Some 7" "de_last_timestamp_ms demo_recorded = Some (Fin 0)"
    unfolding d by (simp_all add: finish_send_frame track_packet_frame c n h) (simp add: finish_send_def c Let_def)
qed

theorem delivery_ack_exact_witness:
  "\<exists>e' outcome. acknowledge demo_recorded 1 7 1 0 (Fin 5) = (e', Inr outcome) \<and> unat (ao_packets outcome) = 1
    \<and> unat (ao_bytes outcome) = 1200"
proof -
  have u: "\<not> underflows 7 1" by (auto simp: underflows_def list_ex_iff bit_1_iff)
  obtain e1 a1 where "acknowledge_loop 1 7 1 demo_recorded = (e1, a1)" by fastforce
  with u obtain e' outcome where a: "acknowledge demo_recorded 1 7 1 0 (Fin 5) = (e', Inr outcome)"
    by (simp add: acknowledge_def acceptable_timestamp_def demo_recorded_fields MAX_ACK_DELAY_US_def Let_def)
  have n: "named_by 64 7 1 (demo_packet 7 Video (Fin 0))"
    by (auto simp: named_by_def list_ex_iff demo_packet_def intro: bexI [of _ 0])
  have s: "ring_sum f (de_history demo_recorded) = f (demo_packet 7 Video (Fin 0))" for f
  proof -
    have "ring_sum f (replicate n None) = 0" for n by (simp add: ring_sum_def sum_list_replicate)
    then show ?thesis using ring_sum_update [of 7 "replicate 2048 None" f] by (simp add: demo_recorded_fields)
  qed
  have "unat (ao_packets outcome) = 1 \<and> unat (ao_bytes outcome) = 1200"
    using delivery_ack_exact [OF demo_recorded_reach _ a] n
    by (simp add: demo_recorded_fields(2) held_when_def s) (simp add: demo_packet_def)
  then show ?thesis using a by blast
qed

lemma elapsed_not_NaN: "elapsed_ms a b \<noteq> NaN"
  by (simp add: elapsed_ms_def F64_MAX_def fmax_not_NaN Let_def) (metis is_finite.simps(2) fmax_not_NaN)

lemma stale_test: "flt (elapsed_ms a b) STALE_AFTER_MS \<longleftrightarrow> \<not> fle STALE_AFTER_MS (elapsed_ms a b)"
  using elapsed_not_NaN by (simp add: flt_iff STALE_AFTER_MS_def)

lemma record_resend_ok:
  "(\<exists>r. snd (record_resend e p) = Inr r) \<longleftrightarrow> sp_ack_eliciting p
    \<and> (case de_history e ! history_index (sp_outer_counter p) of None \<Rightarrow> False | Some x \<Rightarrow>
         sp_generation x = sp_generation p \<and> sp_outer_counter x = sp_outer_counter p \<and> sp_bytes x = sp_bytes p
         \<and> sp_traffic_class x = sp_traffic_class p \<and> sp_ack_eliciting x)"
  by (cases "de_history e ! history_index (sp_outer_counter p)") (auto simp: record_resend_def holds_identity_def Let_def)

lemma reserve_slot_ok:
  "(\<exists>r. snd (reserve_slot e p) = Inr r) \<longleftrightarrow> \<not> sp_ack_eliciting p
    \<or> (case de_history e ! history_index (sp_outer_counter p) of None \<Rightarrow> True | Some x \<Rightarrow>
         fle STALE_AFTER_MS (elapsed_ms (sp_sent_at_ms p) (sp_sent_at_ms x)))"
  by (cases "de_history e ! history_index (sp_outer_counter p)") (auto simp: reserve_slot_def stale_test Let_def)

lemma validate_packet_ok:
  "validate_packet e p = Inr u \<longleftrightarrow> sp_generation p \<noteq> 0 \<and> sp_generation p = de_generation e
     \<and> acceptable_timestamp e (sp_sent_at_ms p)"
  by (auto simp: validate_packet_def)

text \<open>The preflight is exact. For an ack-eliciting packet and a reachable estimator, record_sent succeeds
  exactly when can_record allows its generation, counter and time and, for a counter already sent, the
  unresolved packet recorded under it has the same size and class.\<close>
theorem delivery_preflight_exact:
  assumes "reachable delivery_start delivery_step (e, ps)" "sp_ack_eliciting p"
  shows "(\<exists>outcome. snd (record_sent e p) = Inr outcome) \<longleftrightarrow>
    can_record e (sp_generation p) (sp_outer_counter p) (sp_sent_at_ms p)
    \<and> (already_sent e (sp_outer_counter p) \<longrightarrow>
        (case de_history e ! history_index (sp_outer_counter p) of None \<Rightarrow> False
         | Some x \<Rightarrow> sp_bytes x = sp_bytes p \<and> sp_traffic_class x = sp_traffic_class p))"
proof (cases "validate_packet e p")
  case (Inl err)
  then have "\<not> (sp_generation p \<noteq> 0 \<and> sp_generation p = de_generation e \<and> acceptable_timestamp e (sp_sent_at_ms p))"
    using validate_packet_ok [of e p "()"] by simp
  then have "\<not> can_record e (sp_generation p) (sp_outer_counter p) (sp_sent_at_ms p)" by (auto simp: can_record_def)
  then show ?thesis using Inl by (simp add: record_sent_def)
next
  case (Inr u)
  note v = iffD1 [OF validate_packet_ok Inr]
  have i: "delivery_inv e" using ledger.reachable_inv [OF assms(1)] by (simp add: account_inv_def)
  show ?thesis
  proof (cases "already_sent e (sp_outer_counter p)")
    case True
    have "sp_ack_eliciting x" if "de_history e ! history_index (sp_outer_counter p) = Some x" for x
    proof -
      have "entry_ok e (history_index (sp_outer_counter p)) x"
        using that i history_index_less [of "sp_outer_counter p"] unfolding delivery_inv_def by blast
      then show ?thesis by (simp add: entry_ok_def)
    qed
    then show ?thesis using True v Inr assms(2) record_resend_ok [of e p]
      by (auto simp: record_sent_def can_record_def holds_identity_def split: option.splits)
  next
    case False
    have "(\<exists>outcome. snd (record_sent e p) = Inr outcome) \<longleftrightarrow> (\<exists>r. snd (reserve_slot e p) = Inr r)"
      using False Inr by (auto simp: record_sent_def Let_def split: prod.splits sum.splits)
    moreover have "can_record e (sp_generation p) (sp_outer_counter p) (sp_sent_at_ms p) \<longleftrightarrow>
        (case de_history e ! history_index (sp_outer_counter p) of None \<Rightarrow> True
         | Some x \<Rightarrow> fle STALE_AFTER_MS (elapsed_ms (sp_sent_at_ms p) (sp_sent_at_ms x)))"
      using False v by (auto simp: can_record_def)
    ultimately show ?thesis using False assms(2) reserve_slot_ok [of e p] by simp
  qed
qed

theorem delivery_preflight_exact_witness:
  "(\<exists>outcome. snd (record_sent demo_recorded (demo_packet 7 Video (Fin 1))) = Inr outcome)
   \<and> \<not> (\<exists>outcome. snd (record_sent demo_recorded (demo_packet 7 Audio (Fin 1))) = Inr outcome)"
proof -
  have e: "sp_ack_eliciting (demo_packet 7 k t)" for k t by (simp add: demo_packet_def)
  have h: "history_index 7 = 7" by (simp add: history_index_def DELIVERY_HISTORY_CAPACITY_def)
  have c: "can_record demo_recorded 1 7 (Fin 1)" "already_sent demo_recorded 7"
    by (simp_all add: can_record_def already_sent_def holds_identity_def acceptable_timestamp_def demo_recorded_fields h)
      (simp_all add: demo_packet_def)
  show ?thesis
    unfolding delivery_preflight_exact [OF demo_recorded_reach e]
    using c by (simp add: demo_packet_def h demo_recorded_fields)
qed

end
