(* ===== verification/Media_Wire.thy ===== *)
theory Media_Wire
  imports Packet
begin

text \<open>
  The message formats that ride inside the channels: control and application messages
  (\<open>core/src/control.rs\<close>), the video header and keyframe test (\<open>video.rs\<close>), the audio header
  (\<open>audio.rs\<close>), a guest's microphone (\<open>microphone.rs\<close>) and the pointer message (\<open>cursor.rs\<close>), byte for
  byte. Sequence numbers and control arguments are big endian, media headers little endian. An
  encoder returns the caller's buffer as written and the length used.
\<close>

section \<open>Little endian fields\<close>

definition to_le16 :: "u16 \<Rightarrow> bytes" where
  "to_le16 w = rev (to_be16 w)"

definition to_le32 :: "u32 \<Rightarrow> bytes" where
  "to_le32 w = rev (to_be32 w)"

definition le16 :: "bytes \<Rightarrow> nat \<Rightarrow> u16 result" where
  "le16 src off = (case get_range src off (off + 2) of
     Some [a, b] \<Rightarrow> Inr (of_be16 b a) | _ \<Rightarrow> Inl ShortPacket)"

definition le32 :: "bytes \<Rightarrow> nat \<Rightarrow> u32 result" where
  "le32 src off = (case get_range src off (off + 4) of
     Some [a, b, c, d] \<Rightarrow> Inr (of_be32 d c b a) | _ \<Rightarrow> Inl ShortPacket)"

text \<open>Overwriting the head of a caller's buffer, \<open>out.get_mut(..n)\<close> and \<open>copy_from_slice\<close>.\<close>

definition write_head :: "bytes \<Rightarrow> bytes \<Rightarrow> (bytes \<times> nat) result" where
  "write_head out bs = (if length bs \<le> length out then Inr (put_at out 0 bs, length bs) else Inl BufferTooSmall)"

section \<open>Control messages\<close>

definition CONTROL_HEADER_LEN :: nat where "CONTROL_HEADER_LEN = 13"

definition CONTROL_CHANNEL :: byte where "CONTROL_CHANNEL = 0"

definition op_CURSOR :: byte where "op_CURSOR = 9"

definition op_USER_DATA :: byte where "op_USER_DATA = 17"

definition op_VIRTUAL_DEVICE :: byte where "op_VIRTUAL_DEVICE = 32"

text \<open>The opcodes a host and its peers exchange, with the names the logs use.\<close>

definition op_names :: "(byte \<times> string) list" where
  "op_names = [(0, ''keyboard''), (1, ''mouse-button''), (2, ''mouse-wheel''), (3, ''mouse-motion''),
     (4, ''gamepad-button''), (5, ''gamepad-axis''), (6, ''gamepad-unplug''), (op_CURSOR, ''cursor''),
     (10, ''disconnect''), (11, ''init''), (13, ''encoder-config''), (16, ''blocked''),
     (op_USER_DATA, ''user-data''), (20, ''rumble''), (21, ''latency''), (23, ''gamepad-state''),
     (24, ''release''), (25, ''guest-list''), (26, ''mouse-motion-stream''), (28, ''host-mode''),
     (29, ''encoder-generation''), (30, ''pen-touch''), (op_VIRTUAL_DEVICE, ''virtual-device''),
     (35, ''diagnostics''), (34, ''frame-timing'')]"

definition op_name :: "byte \<Rightarrow> string" where
  "op_name opcode = (case map_of op_names opcode of Some n \<Rightarrow> n | None \<Rightarrow> ''unknown'')"

record control =
  ct_a0 :: u32
  ct_a1 :: u32
  ct_a2 :: u32
  ct_opcode :: byte
  ct_body :: bytes

definition control_parse :: "bytes \<Rightarrow> control result" where
  "control_parse content = (case be32 content 0 of Inl e \<Rightarrow> Inl e | Inr a0 \<Rightarrow>
     (case be32 content 4 of Inl e \<Rightarrow> Inl e | Inr a1 \<Rightarrow>
     (case be32 content 8 of Inl e \<Rightarrow> Inl e | Inr a2 \<Rightarrow>
     (case get_at content 12 of None \<Rightarrow> Inl ShortPacket | Some opcode \<Rightarrow>
     (case get_from content CONTROL_HEADER_LEN of None \<Rightarrow> Inl ShortPacket | Some body \<Rightarrow>
        Inr \<lparr>ct_a0 = a0, ct_a1 = a1, ct_a2 = a2, ct_opcode = opcode, ct_body = body\<rparr>)))))"

definition header_bytes :: "control \<Rightarrow> bytes" where
  "header_bytes c = to_be32 (ct_a0 c) @ to_be32 (ct_a1 c) @ to_be32 (ct_a2 c) @ [ct_opcode c]"

definition encode_header :: "bytes \<Rightarrow> control \<Rightarrow> (bytes \<times> nat) result" where
  "encode_header out c = write_head out (header_bytes c)"

definition USER_DATA_MAX :: nat where "USER_DATA_MAX = 0x100000"

definition strip_terminator :: "bytes \<Rightarrow> bytes" where
  "strip_terminator body = (if body \<noteq> [] \<and> List.last body = 0 then butlast body else body)"

definition user_data :: "control \<Rightarrow> (u32 \<times> bytes) option" where
  "user_data m = (if ct_opcode m \<noteq> op_USER_DATA then None
     else let declared = unat (ct_a0 m);
              body = (case get_range (ct_body m) 0 declared of Some b \<Rightarrow> b | None \<Rightarrow> ct_body m)
          in Some (ct_a1 m, strip_terminator body))"

definition string_body_len :: "nat \<Rightarrow> nat" where
  "string_body_len text_len = text_len + 1"

section \<open>Video messages\<close>

definition VIDEO_HEADER_LEN :: nat where "VIDEO_HEADER_LEN = 10"

definition ROTATION_MASK :: byte where "ROTATION_MASK = 7"

definition FLAG_TEN_BIT :: byte where "FLAG_TEN_BIT = 8"

definition FLAG_FULLSCREEN :: byte where "FLAG_FULLSCREEN = 0x10"

definition RESERVED_BYTE :: byte where "RESERVED_BYTE = 1"

datatype rotation = Rot_Unknown | Rot_None | Deg90 | Deg180 | Deg270

definition rotation_bits :: "rotation \<Rightarrow> byte" where
  "rotation_bits r = (case r of Rot_Unknown \<Rightarrow> 0 | Rot_None \<Rightarrow> 1 | Deg90 \<Rightarrow> 2 | Deg180 \<Rightarrow> 3 | Deg270 \<Rightarrow> 4)"

definition rotation_from_bits :: "byte \<Rightarrow> rotation" where
  "rotation_from_bits b = (let m = b AND ROTATION_MASK in
     if m = 1 then Rot_None else if m = 2 then Deg90 else if m = 3 then Deg180 else if m = 4 then Deg270
     else Rot_Unknown)"

definition quarter_turn :: "rotation \<Rightarrow> bool" where
  "quarter_turn r \<longleftrightarrow> r = Deg90 \<or> r = Deg270"

datatype video_codec = H264 | H265

record video_header =
  vh_frame_id :: u32
  vh_width :: u16
  vh_height :: u16
  vh_rotation :: rotation
  vh_ten_bit :: bool
  vh_fullscreen :: bool

definition display_dimensions :: "video_header \<Rightarrow> u16 \<times> u16" where
  "display_dimensions h = (if quarter_turn (vh_rotation h) then (vh_height h, vh_width h) else (vh_width h, vh_height h))"

definition video_parse :: "bytes \<Rightarrow> video_header result" where
  "video_parse content = (case le32 content 0 of Inl e \<Rightarrow> Inl e | Inr frame_id \<Rightarrow>
     (case le16 content 4 of Inl e \<Rightarrow> Inl e | Inr width \<Rightarrow>
     (case le16 content 6 of Inl e \<Rightarrow> Inl e | Inr height \<Rightarrow>
     (case get_at content 9 of None \<Rightarrow> Inl ShortPacket | Some flags \<Rightarrow>
        Inr \<lparr>vh_frame_id = frame_id, vh_width = width, vh_height = height,
             vh_rotation = rotation_from_bits flags, vh_ten_bit = (flags AND FLAG_TEN_BIT \<noteq> 0),
             vh_fullscreen = (flags AND FLAG_FULLSCREEN \<noteq> 0)\<rparr>))))"

definition video_flags :: "video_header \<Rightarrow> byte" where
  "video_flags h = (let flags = rotation_bits (vh_rotation h);
       flags = (if vh_ten_bit h then flags OR FLAG_TEN_BIT else flags)
     in if vh_fullscreen h then flags OR FLAG_FULLSCREEN else flags)"

definition video_bytes :: "video_header \<Rightarrow> bytes" where
  "video_bytes h = to_le32 (vh_frame_id h) @ to_le16 (vh_width h) @ to_le16 (vh_height h) @ [RESERVED_BYTE, video_flags h]"

definition video_encode :: "bytes \<Rightarrow> video_header \<Rightarrow> (bytes \<times> nat) result" where
  "video_encode out h = write_head out (video_bytes h)"

definition first_unit_byte :: "bytes \<Rightarrow> byte option" where
  "first_unit_byte s = (if get_range s 0 4 = Some [0, 0, 0, 1] then get_at s 4
     else if get_range s 0 3 = Some [0, 0, 1] then get_at s 3 else None)"

definition is_keyframe :: "bytes \<Rightarrow> video_codec \<Rightarrow> bool" where
  "is_keyframe content codec = (case get_from content VIDEO_HEADER_LEN of
     None \<Rightarrow> False
   | Some bitstream \<Rightarrow>
       (case first_unit_byte bitstream of
          None \<Rightarrow> False
        | Some unit \<Rightarrow>
            (case codec of
               H264 \<Rightarrow> unit AND 0x1F = 7 \<or> unit AND 0x1F = 5
             | H265 \<Rightarrow> (let t = drop_bit 1 unit AND 0x3F in 32 \<le> t \<and> t \<le> 34 \<or> 16 \<le> t \<and> t \<le> 21))))"

section \<open>Audio messages\<close>

definition AUDIO_HEADER_LEN :: nat where "AUDIO_HEADER_LEN = 15"

definition SAMPLE_RATE :: u32 where "SAMPLE_RATE = 48000"

definition STEREO_MASK :: u32 where "STEREO_MASK = 3"

definition UNREAD_BYTE :: byte where "UNREAD_BYTE = 2"

definition PCM_PAYLOAD_MAX :: nat where "PCM_PAYLOAD_MAX = 32000"

datatype audio_codec = Opus | Pcm

definition codec_bits :: "audio_codec \<Rightarrow> byte" where
  "codec_bits c = (case c of Opus \<Rightarrow> 1 | Pcm \<Rightarrow> 2)"

definition codec_from_bits :: "byte \<Rightarrow> audio_codec" where
  "codec_from_bits b = (if b = 2 then Pcm else Opus)"

definition sample_bytes :: "audio_codec \<Rightarrow> nat option" where
  "sample_bytes c = (case c of Pcm \<Rightarrow> Some 2 | Opus \<Rightarrow> None)"

record audio_header =
  ah_mask :: u32
  ah_samples :: u32
  ah_rate :: u32
  ah_codec :: audio_codec
  ah_channels :: byte

definition stereo :: "u32 \<Rightarrow> audio_codec \<Rightarrow> audio_header" where
  "stereo samples codec = \<lparr>ah_mask = STEREO_MASK, ah_samples = samples, ah_rate = SAMPLE_RATE,
     ah_codec = codec, ah_channels = 2\<rparr>"

definition payload_len :: "audio_header \<Rightarrow> nat option" where
  "payload_len h = (case sample_bytes (ah_codec h) of None \<Rightarrow> None
     | Some width \<Rightarrow> Some (unat (ah_samples h) * unat (ah_channels h) * width))"

definition audio_parse :: "bytes \<Rightarrow> audio_header result" where
  "audio_parse content = (case le32 content 0 of Inl e \<Rightarrow> Inl e | Inr m \<Rightarrow>
     (case le32 content 4 of Inl e \<Rightarrow> Inl e | Inr samples \<Rightarrow>
     (case le32 content 8 of Inl e \<Rightarrow> Inl e | Inr rate \<Rightarrow>
     (case get_at content 12 of None \<Rightarrow> Inl ShortPacket | Some codec \<Rightarrow>
     (case get_at content 14 of None \<Rightarrow> Inl ShortPacket | Some channels \<Rightarrow>
        Inr \<lparr>ah_mask = m, ah_samples = samples, ah_rate = rate, ah_codec = codec_from_bits codec,
             ah_channels = channels\<rparr>)))))"

definition audio_bytes :: "audio_header \<Rightarrow> bytes" where
  "audio_bytes h = to_le32 (ah_mask h) @ to_le32 (ah_samples h) @ to_le32 (ah_rate h)
     @ [codec_bits (ah_codec h), UNREAD_BYTE, ah_channels h]"

definition audio_encode :: "bytes \<Rightarrow> audio_header \<Rightarrow> (bytes \<times> nat) result" where
  "audio_encode out h = write_head out (audio_bytes h)"

section \<open>A guest's microphone\<close>

definition MICROPHONE_SELECTOR :: u32 where "MICROPHONE_SELECTOR = 0xF055F055"

definition MICROPHONE_ARGUMENT :: u32 where "MICROPHONE_ARGUMENT = 1"

definition MICROPHONE_KIND :: u32 where "MICROPHONE_KIND = 12"

definition MIC_BODY_LEN :: nat where "MIC_BODY_LEN = 1932"

definition PAYLOAD_MAX :: nat where "PAYLOAD_MAX = 1920"

definition KIND_AT :: nat where "KIND_AT = 0"

definition PAYLOAD_AT :: nat where "PAYLOAD_AT = 4"

definition LENGTH_AT :: nat where "LENGTH_AT = 1924"

definition ENCODING_AT :: nat where "ENCODING_AT = 1928"

datatype mic_encoding = Raw | Compressed

definition encoding_from_bits :: "byte \<Rightarrow> mic_encoding result" where
  "encoding_from_bits b = (if b = 0 then Inr Raw else if b = 1 then Inr Compressed else Inl Malformed)"

record mic_packet =
  mp_payload :: bytes
  mp_encoding :: mic_encoding

definition mic_parse :: "u32 \<Rightarrow> u32 \<Rightarrow> u32 \<Rightarrow> bytes \<Rightarrow> mic_packet option result" where
  "mic_parse a0 a1 a2 body =
     (if a2 \<noteq> MICROPHONE_SELECTOR then Inr None
      else if a1 \<noteq> MICROPHONE_ARGUMENT then Inl Malformed
      else let body = (case get_range body 0 (min (unat a0) (length body)) of Some b \<Rightarrow> b | None \<Rightarrow> body) in
        (case get_range body 0 MIC_BODY_LEN of None \<Rightarrow> Inl ShortPacket | Some body \<Rightarrow>
        (case le32 body KIND_AT of Inl e \<Rightarrow> Inl e | Inr kind \<Rightarrow>
           if kind \<noteq> MICROPHONE_KIND then Inl Malformed
           else (case le32 body LENGTH_AT of Inl e \<Rightarrow> Inl e | Inr len \<Rightarrow>
             if PAYLOAD_MAX < unat len then Inl Malformed
             else (case get_at body ENCODING_AT of None \<Rightarrow> Inl ShortPacket | Some b \<Rightarrow>
               (case encoding_from_bits b of Inl e \<Rightarrow> Inl e | Inr encoding \<Rightarrow>
                  if encoding = Raw \<and> unat len mod 2 \<noteq> 0 then Inl Malformed
                  else (case get_range body PAYLOAD_AT (PAYLOAD_AT + unat len) of
                      None \<Rightarrow> Inl ShortPacket
                    | Some payload \<Rightarrow> Inr (Some \<lparr>mp_payload = payload, mp_encoding = encoding\<rparr>))))))))"

text \<open>The body is cleared and its four fields are written in place.\<close>

definition mic_encode :: "bytes \<Rightarrow> mic_packet \<Rightarrow> (bytes \<times> nat) result" where
  "mic_encode out p =
     (if length out < MIC_BODY_LEN then Inl BufferTooSmall
      else if PAYLOAD_MAX < length (mp_payload p) then Inl BufferTooSmall
      else let b = replicate MIC_BODY_LEN 0;
               b = put_at b KIND_AT (to_le32 MICROPHONE_KIND);
               b = put_at b LENGTH_AT (to_le32 (of_nat (length (mp_payload p))));
               b = put_at b ENCODING_AT [case mp_encoding p of Raw \<Rightarrow> 0 | Compressed \<Rightarrow> 1];
               b = put_at b PAYLOAD_AT (mp_payload p)
           in Inr (put_at out 0 b, MIC_BODY_LEN))"

section \<open>The pointer\<close>

definition CURSOR_BODY_LEN :: nat where "CURSOR_BODY_LEN = 21"

definition FLAG_IMAGE :: u16 where "FLAG_IMAGE = 0x0002"

definition FLAG_CACHED :: u16 where "FLAG_CACHED = 0x0010"

definition FLAG_FORGET :: u16 where "FLAG_FORGET = 0x0020"

definition FLAG_RELATIVE :: u16 where "FLAG_RELATIVE = 0x0100"

definition FLAG_HIDDEN :: u16 where "FLAG_HIDDEN = 0x0200"

definition FLAG_SUPPRESSED :: u16 where "FLAG_SUPPRESSED = 0x0800"

definition flags_contain :: "u16 \<Rightarrow> u16 \<Rightarrow> bool" where
  "flags_contain f g \<longleftrightarrow> f AND g = g"

record cursor_update =
  cu_stream :: byte
  cu_x :: u16
  cu_y :: u16
  cu_hot_x :: u16
  cu_hot_y :: u16
  cu_hidden :: bool
  cu_relative :: bool
  cu_suppressed :: bool

datatype cursor_image = Unchanged | Fresh bytes u16 u16 u32 | Cached u32

definition cursor_encoded_len :: "nat \<Rightarrow> nat" where
  "cursor_encoded_len img = CONTROL_HEADER_LEN + CURSOR_BODY_LEN + img"

definition cursor_put :: "bytes \<Rightarrow> nat \<Rightarrow> bytes \<Rightarrow> (bytes \<times> nat) result" where
  "cursor_put out pos bs = (if pos + length bs \<le> length out then Inr (put_at out pos bs, pos + length bs)
     else Inl BufferTooSmall)"

text \<open>A sequence of \<open>put\<close> calls, each at the position the one before left.\<close>

fun cursor_puts :: "bytes \<Rightarrow> nat \<Rightarrow> bytes list \<Rightarrow> (bytes \<times> nat) result" where
  "cursor_puts out pos [] = Inr (out, pos)"
| "cursor_puts out pos (bs # rest) = (case cursor_put out pos bs of
     Inl e \<Rightarrow> Inl e | Inr (out, pos) \<Rightarrow> cursor_puts out pos rest)"

definition cursor_flags :: "cursor_update \<Rightarrow> bool \<Rightarrow> u16" where
  "cursor_flags u forget =
     (let flags = 0;
          flags = (if cu_hidden u then flags OR FLAG_HIDDEN else flags);
          flags = (if cu_relative u then flags OR FLAG_RELATIVE else flags);
          flags = (if cu_suppressed u then flags OR FLAG_SUPPRESSED else flags)
      in if forget then flags OR FLAG_FORGET else flags)"

text \<open>The size field, the header's first two arguments, the two hotspot fields and the flags.\<close>

definition cursor_fields :: "cursor_update \<Rightarrow> cursor_image \<Rightarrow> u16 \<Rightarrow>
    (u32 \<times> u32 \<times> u32 \<times> u16 \<times> u16 \<times> u16) result" where
  "cursor_fields u img flags = (case img of
     Unchanged \<Rightarrow> Inr (0, 0, 0, cu_hot_x u, cu_hot_y u, flags)
   | Fresh png _ _ _ \<Rightarrow>
       (case u32_try_from (length png) of
          None \<Rightarrow> Inl BufferTooSmall
        | Some sz \<Rightarrow> Inr (sz, 0, 0, cu_hot_x u, cu_hot_y u, flags OR FLAG_IMAGE))
   | Cached checksum \<Rightarrow> Inr (0, ucast (cu_hot_x u), ucast (cu_hot_y u),
       ucast (checksum AND 0xFFFF), ucast (drop_bit 16 checksum), flags OR FLAG_CACHED))"

definition cursor_encode :: "bytes \<Rightarrow> cursor_update \<Rightarrow> cursor_image \<Rightarrow> bool \<Rightarrow> (bytes \<times> nat) result" where
  "cursor_encode out u img forget =
     (case cursor_fields u img (cursor_flags u forget) of Inl e \<Rightarrow> Inl e
      | Inr (sz, a0, a1, at15, at17, flags) \<Rightarrow>
          (case encode_header out \<lparr>ct_a0 = a0, ct_a1 = a1, ct_a2 = ucast (cu_stream u), ct_opcode = op_CURSOR, ct_body = []\<rparr> of
             Inl e \<Rightarrow> Inl e
           | Inr (out, pos) \<Rightarrow>
               (let (width, height) = (case img of Fresh _ w h _ \<Rightarrow> (w, h) | _ \<Rightarrow> (0, 0)) in
                cursor_puts out pos ([[0, 0, 0], to_be32 sz, to_be16 width, to_be16 height, to_be16 (cu_x u),
                  to_be16 (cu_y u), to_be16 at15, to_be16 at17, to_be16 flags]
                  @ (case img of Fresh png _ _ _ \<Rightarrow> [png] | _ \<Rightarrow> [])))))"

end
