(* ===== verification/Media_Properties.thy ===== *)
theory Media_Properties
  imports Media_Wire
begin

text \<open>
  What the message formats promise: every header and message a sender writes is read back by the parser
  with every field it carried, whatever follows it in the message, and the pointer message lays its two
  forms out so that the far side reads one of them and never both.
\<close>

section \<open>Fields and heads\<close>

lemma le32_head: "le32 (to_le32 w @ rest) 0 = Inr w"
  by (simp add: le32_def get_range_def to_le32_def to_be32_def)

lemma le16_head: "le16 (to_le16 w @ rest) 0 = Inr w"
  by (simp add: le16_def get_range_def to_le16_def to_be16_def)

lemma length_to_le [simp]: "length (to_le16 w) = 2" "length (to_le32 v) = 4"
  by (simp_all add: to_le16_def to_le32_def)

lemma le_skip:
  "length xs = n \<Longrightarrow> le32 (xs @ rest) (n + k) = le32 rest k" "length xs = n \<Longrightarrow> le16 (xs @ rest) (n + k) = le16 rest k"
  by (simp_all add: le32_def le16_def get_range_def)

lemma be32_skip: "length xs = n \<Longrightarrow> be32 (xs @ rest) (n + k) = be32 rest k"
  by (simp add: be32_def get_range_def)

lemma be32_head: "be32 (to_be32 w @ rest) 0 = Inr w"
  by (simp add: be32_def get_range_def to_be32_def)

lemma le32_at: "length xs = n \<Longrightarrow> le32 (xs @ to_le32 w @ rest) n = Inr w"
  using le_skip(1) [of xs n "to_le32 w @ rest" 0] by (simp add: le32_head)

lemma le16_at: "length xs = n \<Longrightarrow> le16 (xs @ to_le16 w @ rest) n = Inr w"
  using le_skip(2) [of xs n "to_le16 w @ rest" 0] by (simp add: le16_head)

lemma be32_after: "length xs = n \<Longrightarrow> be32 (xs @ to_be32 w @ rest) n = Inr w"
  using be32_skip [of xs n "to_be32 w @ rest" 0] by (simp add: be32_head)

lemma get_at_after: "length xs = n \<Longrightarrow> get_at (xs @ y # ys) n = Some y"
  by (auto simp: get_at_def)

lemma write_head_ok:
  "length bs \<le> length out \<Longrightarrow> write_head out bs = Inr (put_at out 0 bs, length bs)"
  by (simp add: write_head_def)

text \<open>A head written at the start of a buffer leaves the rest of it as it was.\<close>

lemma put_at_head: "length bs \<le> length out \<Longrightarrow> put_at out 0 bs = bs @ drop (length bs) out"
  by (simp add: put_at_def)

section \<open>The parsers read what the encoders write\<close>

lemma control_parse_bytes: "control_parse (header_bytes c @ body) = Inr (c\<lparr>ct_body := body\<rparr>)"
proof -
  let ?a = "to_be32 (ct_a0 c)" and ?b = "to_be32 (ct_a1 c)" and ?c = "to_be32 (ct_a2 c)"
  have s: "header_bytes c @ body = ?a @ ?b @ ?c @ [ct_opcode c] @ body" by (simp add: header_bytes_def)
  have r: "be32 (header_bytes c @ body) 0 = Inr (ct_a0 c)" "be32 (header_bytes c @ body) 4 = Inr (ct_a1 c)"
      "be32 (header_bytes c @ body) 8 = Inr (ct_a2 c)"
    using be32_head [of "ct_a0 c"] be32_after [of ?a 4 "ct_a1 c"] be32_after [of "?a @ ?b" 8 "ct_a2 c"]
    unfolding s by simp_all
  have "get_at (header_bytes c @ body) 12 = Some (ct_opcode c)" "get_from (header_bytes c @ body) CONTROL_HEADER_LEN = Some body"
    unfolding s by (simp_all add: get_at_def get_from_def CONTROL_HEADER_LEN_def nth_append)
  then show ?thesis by (simp add: control_parse_def r)
qed

lemma rotation_roundtrip:
  "rotation_from_bits (video_flags h) = vh_rotation h" "(video_flags h AND FLAG_TEN_BIT \<noteq> 0) = vh_ten_bit h"
  "(video_flags h AND FLAG_FULLSCREEN \<noteq> 0) = vh_fullscreen h"
  by (cases "vh_rotation h"; cases "vh_ten_bit h"; cases "vh_fullscreen h";
      simp add: video_flags_def rotation_from_bits_def rotation_bits_def ROTATION_MASK_def FLAG_TEN_BIT_def FLAG_FULLSCREEN_def)+

lemma video_parse_bytes: "video_parse (video_bytes h @ stream) = Inr h"
proof -
  let ?a = "to_le32 (vh_frame_id h)" and ?b = "to_le16 (vh_width h)" and ?c = "to_le16 (vh_height h)"
  have s: "video_bytes h @ stream = ?a @ ?b @ ?c @ [RESERVED_BYTE, video_flags h] @ stream" by (simp add: video_bytes_def)
  have r: "le32 (video_bytes h @ stream) 0 = Inr (vh_frame_id h)" "le16 (video_bytes h @ stream) 4 = Inr (vh_width h)"
      "le16 (video_bytes h @ stream) 6 = Inr (vh_height h)"
    using le32_head [of "vh_frame_id h"] le16_at [of ?a 4 "vh_width h"] le16_at [of "?a @ ?b" 6 "vh_height h"]
    unfolding s by simp_all
  have "get_at (video_bytes h @ stream) 9 = Some (video_flags h)"
    unfolding s by (simp add: get_at_def nth_append)
  then show ?thesis by (simp add: video_parse_def r rotation_roundtrip)
qed

lemma audio_parse_bytes: "audio_parse (audio_bytes h @ payload) = Inr h"
proof -
  let ?a = "to_le32 (ah_mask h)" and ?b = "to_le32 (ah_samples h)" and ?c = "to_le32 (ah_rate h)"
  have s: "audio_bytes h @ payload = ?a @ ?b @ ?c @ [codec_bits (ah_codec h), UNREAD_BYTE, ah_channels h] @ payload"
    by (simp add: audio_bytes_def)
  have r: "le32 (audio_bytes h @ payload) 0 = Inr (ah_mask h)" "le32 (audio_bytes h @ payload) 4 = Inr (ah_samples h)"
      "le32 (audio_bytes h @ payload) 8 = Inr (ah_rate h)"
    using le32_head [of "ah_mask h"] le32_at [of ?a 4 "ah_samples h"] le32_at [of "?a @ ?b" 8 "ah_rate h"]
    unfolding s by simp_all
  have g: "get_at (audio_bytes h @ payload) 12 = Some (codec_bits (ah_codec h))"
      "get_at (audio_bytes h @ payload) 14 = Some (ah_channels h)"
    unfolding s by (simp_all add: get_at_def nth_append)
  have "codec_from_bits (codec_bits (ah_codec h)) = ah_codec h"
    by (cases "ah_codec h") (simp_all add: codec_from_bits_def codec_bits_def)
  then show ?thesis by (simp add: audio_parse_def r g)
qed

interpretation control_wire: wire_codec "\<lambda>c. True" "\<lambda>c. header_bytes c @ ct_body c" control_parse "\<lambda>c. c"
  by unfold_locales (simp add: control_parse_bytes)

interpretation video_wire: wire_codec "\<lambda>m. True" "\<lambda>(h, stream). video_bytes h @ stream" video_parse fst
  by unfold_locales (auto simp: video_parse_bytes)

interpretation audio_wire: wire_codec "\<lambda>m. True" "\<lambda>(h, payload). audio_bytes h @ payload" audio_parse fst
  by unfold_locales (auto simp: audio_parse_bytes)

section \<open>The microphone body\<close>

definition encoding_bits :: "mic_encoding \<Rightarrow> byte" where
  "encoding_bits e = (case e of Raw \<Rightarrow> 0 | Compressed \<Rightarrow> 1)"

definition mic_body :: "mic_packet \<Rightarrow> bytes" where
  "mic_body p = to_le32 MICROPHONE_KIND @ mp_payload p @ replicate (1920 - length (mp_payload p)) 0
     @ to_le32 (of_nat (length (mp_payload p))) @ encoding_bits (mp_encoding p) # [0, 0, 0]"

lemma put_at_between:
  "length xs = n \<Longrightarrow> length ys = length src \<Longrightarrow> put_at (xs @ ys @ zs) n src = xs @ src @ zs"
  by (simp add: put_at_def)

lemma mic_encode_body:
  assumes "length (mp_payload p) \<le> 1920" "1932 \<le> length out"
  shows "mic_encode out p = Inr (put_at out 0 (mic_body p), 1932)"
proof -
  let ?n = "length (mp_payload p)" and ?z = "\<lambda>k. replicate k (0 :: byte)"
  let ?l = "to_le32 (of_nat ?n)" and ?k = "to_le32 MICROPHONE_KIND" and ?e = "[encoding_bits (mp_encoding p)]"
  have z: "?z 1932 = ?z 4 @ ?z ?n @ ?z (1920 - ?n) @ ?z 4 @ ?z 1 @ ?z 3"
    using assms(1) by (simp only: replicate_add [symmetric]) (rule arg_cong [of _ _ "\<lambda>k. replicate k 0"], simp)
  have a: "put_at (?z 1932) 0 ?k = ?k @ ?z ?n @ ?z (1920 - ?n) @ ?z 4 @ ?z 1 @ ?z 3"
    unfolding z using put_at_between [of "[]" 0 "?z 4" ?k] by simp
  have b: "put_at (?k @ ?z ?n @ ?z (1920 - ?n) @ ?z 4 @ ?z 1 @ ?z 3) 1924 ?l
      = ?k @ ?z ?n @ ?z (1920 - ?n) @ ?l @ ?z 1 @ ?z 3"
    using put_at_between [of "?k @ ?z ?n @ ?z (1920 - ?n)" 1924 "?z 4" ?l] assms(1) by simp
  have c: "put_at (?k @ ?z ?n @ ?z (1920 - ?n) @ ?l @ ?z 1 @ ?z 3) 1928 ?e
      = ?k @ ?z ?n @ ?z (1920 - ?n) @ ?l @ ?e @ ?z 3"
    using put_at_between [of "?k @ ?z ?n @ ?z (1920 - ?n) @ ?l" 1928 "?z 1" ?e] assms(1) by simp
  have d: "put_at (?k @ ?z ?n @ ?z (1920 - ?n) @ ?l @ ?e @ ?z 3) 4 (mp_payload p) = mic_body p"
    using put_at_between [of ?k 4 "?z ?n" "mp_payload p"] by (simp add: mic_body_def replicate_rec)
  show ?thesis
    unfolding mic_encode_def Let_def encoding_bits_def [symmetric] MIC_BODY_LEN_def KIND_AT_def LENGTH_AT_def
      ENCODING_AT_def PAYLOAD_AT_def PAYLOAD_MAX_def a b c d
    using assms by simp
qed

lemma length_mic_body: "length (mp_payload p) \<le> 1920 \<Longrightarrow> length (mic_body p) = 1932"
  by (simp add: mic_body_def)

lemma mic_parse_body:
  assumes "length (mp_payload p) \<le> 1920" "mp_encoding p = Raw \<longrightarrow> even (length (mp_payload p))" "1932 \<le> unat a0"
  shows "mic_parse a0 MICROPHONE_ARGUMENT MICROPHONE_SELECTOR (mic_body p @ extra) = Inr (Some p)"
proof -
  let ?n = "length (mp_payload p)" and ?z = "replicate (1920 - length (mp_payload p)) (0 :: byte)"
  let ?l = "to_le32 (of_nat ?n)" and ?k = "to_le32 MICROPHONE_KIND" and ?b = "mic_body p"
  have n: "unat (of_nat ?n :: u32) = ?n" using assms(1) by (intro unat_of_nat_32) simp
  let ?d = "take (min (unat a0) (length (?b @ extra))) (?b @ extra)"
  have t: "take 1932 ?d = ?b" "1932 \<le> length ?d" using length_mic_body [OF assms(1)] assms(3) by simp_all
  have s: "?b = ?k @ mp_payload p @ ?z @ ?l @ [encoding_bits (mp_encoding p), 0, 0, 0]" by (simp add: mic_body_def)
  have k: "le32 ?b 0 = Inr MICROPHONE_KIND" unfolding s by (rule le32_head)
  have len: "le32 ?b 1924 = Inr (of_nat ?n)"
    using le32_at [of "?k @ mp_payload p @ ?z" 1924 "of_nat ?n"] assms(1) unfolding s by simp
  have e: "get_at ?b 1928 = Some (encoding_bits (mp_encoding p))"
  proof -
    have "?b = (?k @ mp_payload p @ ?z @ ?l) @ [encoding_bits (mp_encoding p), 0, 0, 0]" unfolding s by simp
    moreover have "length (?k @ mp_payload p @ ?z @ ?l) = 1928" using assms(1) by simp
    ultimately show ?thesis using get_at_after by metis
  qed
  have pl: "get_range ?b 4 (4 + ?n) = Some (mp_payload p)" unfolding s by (simp add: get_range_def)
  have en: "encoding_from_bits (encoding_bits (mp_encoding p)) = Inr (mp_encoding p)"
    by (cases "mp_encoding p") (simp_all add: encoding_from_bits_def encoding_bits_def)
  have g: "get_range (?b @ extra) 0 (min (unat a0) (length (?b @ extra))) = Some ?d" by (simp add: get_range_def)
  have g': "get_range ?d 0 MIC_BODY_LEN = Some ?b" using t by (simp add: get_range_def MIC_BODY_LEN_def)
  show ?thesis
    unfolding mic_parse_def Let_def g option.case g' KIND_AT_def LENGTH_AT_def ENCODING_AT_def PAYLOAD_AT_def
    using assms k len e pl en n by (auto simp: PAYLOAD_MAX_def)
qed

section \<open>The pointer message\<close>

lemma cursor_puts_ok:
  "pos + length (concat bss) \<le> length out \<Longrightarrow>
     cursor_puts out pos bss = Inr (put_at out pos (concat bss), pos + length (concat bss))"
proof (induction bss arbitrary: out pos)
  case (Cons bs bss)
  then have "pos + length bs + length (concat bss) \<le> length out" by simp
  then show ?case using Cons by (simp add: cursor_put_def put_at_append)
qed simp

definition image_png :: "cursor_image \<Rightarrow> bytes" where
  "image_png img = (case img of Fresh png _ _ _ \<Rightarrow> png | _ \<Rightarrow> [])"

definition cursor_body :: "u32 \<Rightarrow> u16 \<Rightarrow> u16 \<Rightarrow> cursor_update \<Rightarrow> u16 \<Rightarrow> u16 \<Rightarrow> u16 \<Rightarrow> bytes \<Rightarrow> bytes" where
  "cursor_body sz w h u at15 at17 flags png = [0, 0, 0] @ to_be32 sz @ to_be16 w @ to_be16 h @ to_be16 (cu_x u)
     @ to_be16 (cu_y u) @ to_be16 at15 @ to_be16 at17 @ to_be16 flags @ png"

lemma length_header_bytes [simp]: "length (header_bytes c) = 13"
  by (simp add: header_bytes_def)

lemma cursor_encode_ok:
  assumes f: "cursor_fields u img (cursor_flags u forget) = Inr (sz, a0, a1, at15, at17, flags)"
    and wh: "(w, h) = (case img of Fresh _ w h _ \<Rightarrow> (w, h) | _ \<Rightarrow> (0, 0))"
    and out: "cursor_encoded_len (length (image_png img)) \<le> length out"
  defines "hd0 \<equiv> \<lparr>ct_a0 = a0, ct_a1 = a1, ct_a2 = ucast (cu_stream u), ct_opcode = op_CURSOR, ct_body = []\<rparr>"
  shows "cursor_encode out u img forget = Inr (put_at out 0 (header_bytes hd0 @ cursor_body sz w h u at15 at17 flags (image_png img)),
    cursor_encoded_len (length (image_png img)))"
proof -
  let ?bss = "[[0, 0, 0], to_be32 sz, to_be16 w, to_be16 h, to_be16 (cu_x u), to_be16 (cu_y u), to_be16 at15,
      to_be16 at17, to_be16 flags] @ (case img of Fresh png _ _ _ \<Rightarrow> [png] | _ \<Rightarrow> [])"
  have c: "concat ?bss = cursor_body sz w h u at15 at17 flags (image_png img)"
    by (simp add: cursor_body_def image_png_def split: cursor_image.split)
  have l: "length (concat ?bss) = 21 + length (image_png img)" unfolding c by (simp add: cursor_body_def)
  have o: "34 + length (image_png img) \<le> length out"
    using out by (simp add: cursor_encoded_len_def CONTROL_HEADER_LEN_def CURSOR_BODY_LEN_def)
  have e: "encode_header out hd0 = Inr (put_at out 0 (header_bytes hd0), 13)"
    using o by (simp add: encode_header_def write_head_def)
  have p: "cursor_puts (put_at out 0 (header_bytes hd0)) 13 ?bss
      = Inr (put_at (put_at out 0 (header_bytes hd0)) 13 (concat ?bss), 13 + length (concat ?bss))"
    using o l by (intro cursor_puts_ok) simp
  have "put_at (put_at out 0 (header_bytes hd0)) 13 (concat ?bss) = put_at out 0 (header_bytes hd0 @ concat ?bss)"
    using put_at_append [of 0 "header_bytes hd0" "concat ?bss" out] o l by simp
  moreover have "13 + length (concat ?bss) = cursor_encoded_len (length (image_png img))"
    using l by (simp add: cursor_encoded_len_def CONTROL_HEADER_LEN_def CURSOR_BODY_LEN_def)
  ultimately have p': "cursor_puts (put_at out 0 (header_bytes hd0)) 13 ?bss = Inr (put_at out 0
      (header_bytes hd0 @ cursor_body sz w h u at15 at17 flags (image_png img)), cursor_encoded_len (length (image_png img)))"
    using p c by metis
  show ?thesis
    unfolding cursor_encode_def f hd0_def [symmetric] wh [symmetric] sum.case prod.case Let_def e by (rule p')
qed

section \<open>Properties\<close>

text \<open>Media headers and microphone packets round trip. Whatever the rest of the buffer holds, a video or
  audio header that was encoded reads back with every field, the encoder leaves the bytes after the
  header alone, so the keyframe test still looks at the bitstream only, and a microphone packet that was
  encoded reads back from its fixed body, even when its message carries more than the body.\<close>
theorem media_headers_roundtrip:
  assumes "VIDEO_HEADER_LEN \<le> length vout" "AUDIO_HEADER_LEN \<le> length aout" "MIC_BODY_LEN \<le> length mout"
    and "length (mp_payload p) \<le> PAYLOAD_MAX" "mp_encoding p = Raw \<longrightarrow> even (length (mp_payload p))"
    and "MIC_BODY_LEN \<le> unat a0"
  shows "(\<exists>out'. video_encode vout v = Inr (out', 10) \<and> video_parse out' = Inr v \<and> drop 10 out' = drop 10 vout
      \<and> (\<forall>codec. is_keyframe out' codec = is_keyframe vout codec))
    \<and> (\<exists>out'. audio_encode aout a = Inr (out', 15) \<and> audio_parse out' = Inr a \<and> drop 15 out' = drop 15 aout)
    \<and> (\<exists>out'. mic_encode mout p = Inr (out', 1932)
      \<and> mic_parse a0 MICROPHONE_ARGUMENT MICROPHONE_SELECTOR (take 1932 out' @ extra) = Inr (Some p))"
proof -
  have l: "length (video_bytes v) = 10" "length (audio_bytes a) = 15" by (simp_all add: video_bytes_def audio_bytes_def)
  have out: "10 \<le> length vout" "15 \<le> length aout" "1932 \<le> length mout"
    using assms(1-3) by (simp_all add: VIDEO_HEADER_LEN_def AUDIO_HEADER_LEN_def MIC_BODY_LEN_def)
  let ?v = "put_at vout 0 (video_bytes v)" and ?a = "put_at aout 0 (audio_bytes a)" and ?m = "put_at mout 0 (mic_body p)"
  have v: "?v = video_bytes v @ drop 10 vout" and a: "?a = audio_bytes a @ drop 15 aout"
    using put_at_head [of "video_bytes v" vout] put_at_head [of "audio_bytes a" aout] l out by simp_all
  have "video_encode vout v = Inr (?v, 10) \<and> video_parse ?v = Inr v \<and> drop 10 ?v = drop 10 vout
      \<and> (\<forall>codec. is_keyframe ?v codec = is_keyframe vout codec)"
    unfolding video_encode_def using out l
    by (simp add: write_head_ok) (simp add: v l video_parse_bytes is_keyframe_def get_from_def VIDEO_HEADER_LEN_def)
  moreover have "audio_encode aout a = Inr (?a, 15) \<and> audio_parse ?a = Inr a \<and> drop 15 ?a = drop 15 aout"
    unfolding audio_encode_def using out l by (simp add: write_head_ok) (simp add: a l audio_parse_bytes)
  moreover have "mic_encode mout p = Inr (?m, 1932)
      \<and> mic_parse a0 MICROPHONE_ARGUMENT MICROPHONE_SELECTOR (take 1932 ?m @ extra) = Inr (Some p)"
  proof -
    have n: "length (mp_payload p) \<le> 1920" using assms(4) by (simp add: PAYLOAD_MAX_def)
    have "take 1932 ?m = mic_body p" using put_at_prefix [of "mic_body p" mout] length_mic_body [OF n] out by simp
    then show ?thesis using mic_encode_body [OF n out(3)] mic_parse_body [OF n assms(5)] assms(6) by (simp add: MIC_BODY_LEN_def)
  qed
  ultimately show ?thesis by blast
qed

theorem media_headers_roundtrip_witness:
  "\<exists>out'. mic_encode (replicate 2000 0) \<lparr>mp_payload = [1, 2], mp_encoding = Raw\<rparr> = Inr (out', 1932)
    \<and> mic_parse 1932 MICROPHONE_ARGUMENT MICROPHONE_SELECTOR (take 1932 out' @ [])
        = Inr (Some \<lparr>mp_payload = [1, 2], mp_encoding = Raw\<rparr>)"
  using media_headers_roundtrip [of "replicate 2000 0" "replicate 2000 0" "replicate 2000 0"
      "\<lparr>mp_payload = [1, 2], mp_encoding = Raw\<rparr>" 1932 undefined undefined "[]"]
  by (simp add: VIDEO_HEADER_LEN_def AUDIO_HEADER_LEN_def MIC_BODY_LEN_def PAYLOAD_MAX_def)

text \<open>An application message round trips. A header that declares the length of a text with its
  terminator, followed by the text, the terminator and whatever else arrived, parses as a user-data
  message that yields the sub-identifier and exactly the text, also when the text itself ends in a zero.\<close>
theorem user_data_roundtrip:
  assumes "13 \<le> length out" "string_body_len (length text) < 2 ^ 32"
  shows "\<exists>out' m. encode_header out \<lparr>ct_a0 = of_nat (string_body_len (length text)), ct_a1 = i, ct_a2 = j,
        ct_opcode = op_USER_DATA, ct_body = []\<rparr> = Inr (out', 13)
    \<and> control_parse (take 13 out' @ text @ [0] @ extra) = Inr m \<and> user_data m = Some (i, text)"
proof -
  let ?c = "\<lparr>ct_a0 = of_nat (string_body_len (length text)), ct_a1 = i, ct_a2 = j, ct_opcode = op_USER_DATA, ct_body = []\<rparr>"
  let ?m = "?c\<lparr>ct_body := text @ [0] @ extra\<rparr>"
  have e: "encode_header out ?c = Inr (put_at out 0 (header_bytes ?c), 13)"
    using assms(1) by (simp add: encode_header_def write_head_ok)
  have t: "take 13 (put_at out 0 (header_bytes ?c)) = header_bytes ?c"
    using put_at_prefix [of "header_bytes ?c" out] assms(1) by simp
  have "unat (of_nat (string_body_len (length text)) :: u32) = Suc (length text)"
    using assms(2) unat_of_nat_32 [of "Suc (length text)"] by (simp add: string_body_len_def)
  then have "user_data ?m = Some (i, text)" by (simp add: user_data_def get_range_def strip_terminator_def)
  moreover have "control_parse (take 13 (put_at out 0 (header_bytes ?c)) @ text @ [0] @ extra) = Inr ?m"
    unfolding t by (rule control_parse_bytes)
  ultimately show ?thesis using e by blast
qed

theorem user_data_roundtrip_witness:
  "\<exists>out' m. encode_header (replicate 13 0) \<lparr>ct_a0 = of_nat (string_body_len 2), ct_a1 = 5, ct_a2 = 0,
        ct_opcode = op_USER_DATA, ct_body = []\<rparr> = Inr (out', 13)
    \<and> control_parse (take 13 out' @ [104, 0] @ [0] @ []) = Inr m \<and> user_data m = Some (5, [104, 0])"
  using user_data_roundtrip [of "replicate 13 0" "[104, 0]" 5 0 "[]"] by (simp add: string_body_len_def)

lemma cursor_flags_bits:
  "flags_contain (cursor_flags u forget OR FLAG_IMAGE) FLAG_CACHED = False"
  "flags_contain (cursor_flags u forget OR FLAG_CACHED) FLAG_IMAGE = False"
  "flags_contain (cursor_flags u forget) FLAG_IMAGE = False" "flags_contain (cursor_flags u forget) FLAG_CACHED = False"
  "flags_contain (cursor_flags u forget OR FLAG_IMAGE) FLAG_IMAGE" "flags_contain (cursor_flags u forget OR FLAG_CACHED) FLAG_CACHED"
  "flags_contain (cursor_flags u forget) FLAG_HIDDEN = cu_hidden u"
  "flags_contain (cursor_flags u forget OR FLAG_IMAGE) FLAG_HIDDEN = cu_hidden u"
  "flags_contain (cursor_flags u forget OR FLAG_CACHED) FLAG_HIDDEN = cu_hidden u"
  "flags_contain (cursor_flags u forget) FLAG_RELATIVE = cu_relative u"
  "flags_contain (cursor_flags u forget OR FLAG_IMAGE) FLAG_RELATIVE = cu_relative u"
  "flags_contain (cursor_flags u forget OR FLAG_CACHED) FLAG_RELATIVE = cu_relative u"
  "flags_contain (cursor_flags u forget) FLAG_SUPPRESSED = cu_suppressed u"
  "flags_contain (cursor_flags u forget OR FLAG_IMAGE) FLAG_SUPPRESSED = cu_suppressed u"
  "flags_contain (cursor_flags u forget OR FLAG_CACHED) FLAG_SUPPRESSED = cu_suppressed u"
  "flags_contain (cursor_flags u forget) FLAG_FORGET = forget"
  "flags_contain (cursor_flags u forget OR FLAG_IMAGE) FLAG_FORGET = forget"
  "flags_contain (cursor_flags u forget OR FLAG_CACHED) FLAG_FORGET = forget"
  by (cases "cu_hidden u"; cases "cu_relative u"; cases "cu_suppressed u"; cases forget;
      simp add: cursor_flags_def flags_contain_def FLAG_IMAGE_def FLAG_CACHED_def FLAG_FORGET_def FLAG_RELATIVE_def
        FLAG_HIDDEN_def FLAG_SUPPRESSED_def)+

text \<open>The far side's view of a pointer body: the 16-bit field at an offset.\<close>

definition body_field :: "bytes \<Rightarrow> nat \<Rightarrow> u16" where
  "body_field body off = of_be16 (body ! off) (body ! (off + 1))"

lemma cursor_body_fields:
  "body_field (cursor_body sz w h u at15 at17 flags png) 15 = at15"
  "body_field (cursor_body sz w h u at15 at17 flags png) 17 = at17"
  "body_field (cursor_body sz w h u at15 at17 flags png) 19 = flags"
  "body_field (cursor_body sz w h u at15 at17 flags png) 11 = cu_x u"
  "body_field (cursor_body sz w h u at15 at17 flags png) 13 = cu_y u"
  "drop 21 (cursor_body sz w h u at15 at17 flags png) = png"
  by (simp_all add: body_field_def cursor_body_def to_be32_def to_be16_def)

lemma low_half: "ucast (c AND 0xFFFF) = (ucast c :: u16)" for c :: u32
proof -
  have m: "(0xFFFF :: u32) = mask 16" by (simp add: mask_eq_exp_minus_1)
  show ?thesis unfolding m by (rule bit_word_eqI) (auto simp: bit_simps)
qed

lemma image_flags:
  assumes "cursor_fields u img (cursor_flags u forget) = Inr (sz, a0, a1, at15, at17, flags)"
  shows "flags_contain flags FLAG_IMAGE = (\<exists>png w h c. img = Fresh png w h c)"
    "flags_contain flags FLAG_CACHED = (\<exists>c. img = Cached c)"
    "flags_contain flags FLAG_HIDDEN = cu_hidden u" "flags_contain flags FLAG_RELATIVE = cu_relative u"
    "flags_contain flags FLAG_SUPPRESSED = cu_suppressed u" "flags_contain flags FLAG_FORGET = forget"
  using assms cursor_flags_bits by (cases img; auto simp: cursor_fields_def split: option.splits)+

text \<open>C37: The pointer message reads as exactly one form. Into a buffer of the announced size every update and
  picture encodes to that many bytes that parse as a cursor message of the stream; the image bit is set
  exactly when the picture follows the body, the cached bit exactly when a checksum replaces it, never
  both; the mode bits are the update's own; and the hotspot is where that form keeps it: in the body, or
  in the header's arguments when the body carries the two halves of the checksum.\<close>
theorem cursor_forms:
  assumes "length (image_png img) < 2 ^ 32" "cursor_encoded_len (length (image_png img)) \<le> length out"
  shows "\<exists>out' m f. cursor_encode out u img forget = Inr (out', cursor_encoded_len (length (image_png img)))
    \<and> control_parse (take (cursor_encoded_len (length (image_png img))) out') = Inr m \<and> ct_opcode m = op_CURSOR
    \<and> ct_a2 m = ucast (cu_stream u) \<and> drop 21 (ct_body m) = image_png img
    \<and> body_field (ct_body m) 11 = cu_x u \<and> body_field (ct_body m) 13 = cu_y u \<and> f = body_field (ct_body m) 19
    \<and> flags_contain f FLAG_IMAGE = (\<exists>png w h c. img = Fresh png w h c) \<and> flags_contain f FLAG_CACHED = (\<exists>c. img = Cached c)
    \<and> flags_contain f FLAG_HIDDEN = cu_hidden u \<and> flags_contain f FLAG_RELATIVE = cu_relative u
    \<and> flags_contain f FLAG_SUPPRESSED = cu_suppressed u \<and> flags_contain f FLAG_FORGET = forget
    \<and> (case img of
         Cached c \<Rightarrow> ct_a0 m = ucast (cu_hot_x u) \<and> ct_a1 m = ucast (cu_hot_y u)
           \<and> body_field (ct_body m) 15 = ucast c \<and> body_field (ct_body m) 17 = ucast (drop_bit 16 c)
       | _ \<Rightarrow> body_field (ct_body m) 15 = cu_hot_x u \<and> body_field (ct_body m) 17 = cu_hot_y u)"
proof -
  let ?n = "cursor_encoded_len (length (image_png img))"
  obtain sz a0 a1 at15 at17 flags where f: "cursor_fields u img (cursor_flags u forget) = Inr (sz, a0, a1, at15, at17, flags)"
    using assms(1) by (cases img) (auto simp: cursor_fields_def u32_try_from_def image_png_def)
  obtain w h where wh: "(w, h) = (case img of Fresh _ w h _ \<Rightarrow> (w, h) | _ \<Rightarrow> (0, 0))" by (metis surj_pair)
  let ?c = "\<lparr>ct_a0 = a0, ct_a1 = a1, ct_a2 = ucast (cu_stream u), ct_opcode = op_CURSOR, ct_body = []\<rparr>"
  let ?b = "cursor_body sz w h u at15 at17 flags (image_png img)"
  note e = cursor_encode_ok [OF f wh assms(2)]
  have l: "length (header_bytes ?c @ ?b) = ?n"
    by (simp add: cursor_body_def cursor_encoded_len_def CONTROL_HEADER_LEN_def CURSOR_BODY_LEN_def)
  have t: "take ?n (put_at out 0 (header_bytes ?c @ ?b)) = header_bytes ?c @ ?b"
    using put_at_prefix [of "header_bytes ?c @ ?b" out] assms(2) unfolding l by simp
  have c: "control_parse (take ?n (put_at out 0 (header_bytes ?c @ ?b))) = Inr (?c\<lparr>ct_body := ?b\<rparr>)"
    unfolding t by (rule control_parse_bytes)
  have form: "case img of Cached c \<Rightarrow> a0 = ucast (cu_hot_x u) \<and> a1 = ucast (cu_hot_y u)
        \<and> at15 = ucast c \<and> at17 = ucast (drop_bit 16 c)
      | _ \<Rightarrow> at15 = cu_hot_x u \<and> at17 = cu_hot_y u"
    using f by (cases img) (auto simp: cursor_fields_def low_half split: option.splits)
  show ?thesis
    using form image_flags [OF f] e c
    by (intro exI [of _ "put_at out 0 (header_bytes ?c @ ?b)"] exI [of _ "?c\<lparr>ct_body := ?b\<rparr>"] exI [of _ flags])
      (simp add: cursor_body_fields cong: cursor_image.case_cong)
qed

theorem cursor_forms_witness:
  "\<exists>out' m. cursor_encode (replicate 34 0) \<lparr>cu_stream = 0, cu_x = 3, cu_y = 4, cu_hot_x = 1, cu_hot_y = 2, cu_hidden = True,
      cu_relative = False, cu_suppressed = False\<rparr> (Cached 0xDEADBEEF) False = Inr (out', 34)
    \<and> control_parse (take 34 out') = Inr m \<and> ct_a0 m = 1 \<and> ct_a1 m = 2 \<and> body_field (ct_body m) 15 = 0xBEEF
    \<and> flags_contain (body_field (ct_body m) 19) FLAG_CACHED \<and> \<not> flags_contain (body_field (ct_body m) 19) FLAG_IMAGE"
  using cursor_forms [of "Cached 0xDEADBEEF" "replicate 34 0" "\<lparr>cu_stream = 0, cu_x = 3, cu_y = 4, cu_hot_x = 1,
      cu_hot_y = 2, cu_hidden = True, cu_relative = False, cu_suppressed = False\<rparr>" False]
  by (auto simp: image_png_def cursor_encoded_len_def CONTROL_HEADER_LEN_def CURSOR_BODY_LEN_def)

end
