(* ===== verification/Init_Wire.thy ===== *)
theory Init_Wire
  imports Core_Base
begin

text \<open>
  Session initialization (\<open>core/src/init.rs\<close>): the connecting side's preferences, a flat object read by
  scanning for key names. The scanner keeps the source's index arithmetic and its early exits; the
  theorem shows that on every flat object, whatever its order, spacing and extra keys, it reads the
  value of the first entry of a name.
\<close>

section \<open>Model\<close>

definition INIT_VERSION :: u32 where "INIT_VERSION = 1"

definition NO_LIMIT :: u32 where "NO_LIMIT = 60000"

definition FLAG_HEVC :: u32 where "FLAG_HEVC = 0x01"

definition FLAG_COLOR444 :: u32 where "FLAG_COLOR444 = 0x02"

definition FLAG_BASE :: u32 where "FLAG_BASE = 0x08"

definition FLAG_10BIT :: u32 where "FLAG_10BIT = 0x10"

record init =
  in_version :: u32
  in_max_width :: u32
  in_max_height :: u32
  in_flags :: u32
  in_resolution_x :: u32
  in_resolution_y :: u32
  in_media_container :: u32
  in_refresh_rate :: u32
  in_caches_cursor :: bool
  in_raw_audio :: bool

definition init_hevc :: "init \<Rightarrow> bool" where
  "init_hevc i \<longleftrightarrow> in_flags i AND FLAG_HEVC \<noteq> 0"

definition init_color444 :: "init \<Rightarrow> bool" where
  "init_color444 i \<longleftrightarrow> in_flags i AND FLAG_COLOR444 \<noteq> 0"

definition init_ten_bit :: "init \<Rightarrow> bool" where
  "init_ten_bit i \<longleftrightarrow> in_flags i AND FLAG_10BIT \<noteq> 0"

definition has_preferred_size :: "init \<Rightarrow> bool" where
  "has_preferred_size i \<longleftrightarrow> in_resolution_x i \<noteq> 0 \<and> in_resolution_y i \<noteq> 0"

definition has_size_limit :: "init \<Rightarrow> bool" where
  "has_size_limit i \<longleftrightarrow> in_max_width i \<noteq> NO_LIMIT \<and> in_max_height i \<noteq> NO_LIMIT
     \<and> in_max_width i \<noteq> 0 \<and> in_max_height i \<noteq> 0"

definition ascii :: "string \<Rightarrow> bytes" where
  "ascii s = map of_char s"

definition is_space :: "byte \<Rightarrow> bool" where
  "is_space b \<longleftrightarrow> b = 0x20 \<or> b = 0x09 \<or> b = 0x0A \<or> b = 0x0D"

definition space_at :: "bytes \<Rightarrow> nat \<Rightarrow> bool" where
  "space_at body c \<longleftrightarrow> (case get_at body c of Some b \<Rightarrow> is_space b | None \<Rightarrow> False)"

text \<open>\<open>while body.get(cursor).copied().is_some_and(is_space)\<close>.\<close>

function skip_spaces :: "bytes \<Rightarrow> nat \<Rightarrow> nat" where
  "skip_spaces body c = (if space_at body c then skip_spaces body (c + 1) else c)"
  by auto

termination
  by (relation "measure (\<lambda>(body, c). length body - c)")
    (auto simp: space_at_def get_at_def split: if_splits)

declare skip_spaces.simps [simp del]

text \<open>\<open>iter().position\<close> of the next quote.\<close>

fun quote_position :: "bytes \<Rightarrow> nat option" where
  "quote_position [] = None"
| "quote_position (b # bs) = (if b = 0x22 then Some 0 else map_option Suc (quote_position bs))"

function value_after :: "bytes \<Rightarrow> bytes \<Rightarrow> nat \<Rightarrow> bytes option" where
  "value_after body key pos =
     (if pos + length key + 2 \<le> length body then
        (case quote_position (drop pos body) of
           None \<Rightarrow> None
         | Some off \<Rightarrow>
             (let quote = pos + off in
              case get_range body (quote + 1) (quote + 1 + length key) of
                None \<Rightarrow> None
              | Some name \<Rightarrow>
                  if name = key \<and> get_at body (quote + 1 + length key) = Some 0x22 then
                    (let cursor = skip_spaces body (quote + 2 + length key) in
                     if get_at body cursor \<noteq> Some 0x3A then value_after body key (quote + 1)
                     else get_from body (skip_spaces body (cursor + 1)))
                  else value_after body key (quote + 1)))
      else None)"
  by auto

termination
  by (relation "measure (\<lambda>(body, key, pos). length body - pos)") auto

declare value_after.simps [simp del]

definition is_ascii_digit :: "byte \<Rightarrow> bool" where
  "is_ascii_digit b \<longleftrightarrow> 0x30 \<le> b \<and> b \<le> 0x39"

text \<open>The digit loop of \<open>number\<close>: the value so far and how many digits were read.\<close>

fun number_loop :: "bytes \<Rightarrow> u32 \<Rightarrow> nat \<Rightarrow> u32 \<times> nat" where
  "number_loop [] v n = (v, n)"
| "number_loop (b # bs) v n = (if \<not> is_ascii_digit b then (v, n)
     else number_loop bs (sat_add (sat_mul v 10) (ucast (b - 0x30))) (n + 1))"

definition number :: "bytes \<Rightarrow> u32 \<Rightarrow> u32" where
  "number bs fallback = (case number_loop bs 0 0 of (v, digits) \<Rightarrow> if digits = 0 then fallback else v)"

definition init_field :: "bytes \<Rightarrow> string \<Rightarrow> u32 \<Rightarrow> u32" where
  "init_field body key fallback = (case value_after body (ascii key) 0 of
     None \<Rightarrow> fallback | Some rest \<Rightarrow> number rest fallback)"

definition truth :: "bytes \<Rightarrow> string \<Rightarrow> bool" where
  "truth body key = (case value_after body (ascii key) 0 of
     None \<Rightarrow> False | Some rest \<Rightarrow> take 4 rest = ascii ''true'')"

definition init_parse :: "bytes \<Rightarrow> init result" where
  "init_parse body =
     (let body = (if body \<noteq> [] \<and> List.last body = 0 then butlast body else body) in
      if get_at body 0 \<noteq> Some 0x7B then Inl Malformed
      else let version = init_field body ''_version'' 0 in
        if version \<noteq> INIT_VERSION then Inl Malformed
        else Inr \<lparr>in_version = version, in_max_width = init_field body ''_max_w'' 0,
               in_max_height = init_field body ''_max_h'' 0, in_flags = init_field body ''_flags'' 0,
               in_resolution_x = init_field body ''resolutionX'' 0, in_resolution_y = init_field body ''resolutionY'' 0,
               in_media_container = init_field body ''mediaContainer'' 0,
               in_refresh_rate = init_field body ''refreshRate'' 60,
               in_caches_cursor = truth body ''_cache_cursor'', in_raw_audio = truth body ''rawAudio''\<rparr>)"

section \<open>Flat objects\<close>

text \<open>An entry is its name, the spaces around its colon, its value, and the text up to the next quote.\<close>

datatype json_value = JNum nat | JBool bool

record entry =
  en_key :: bytes
  en_before :: bytes
  en_after :: bytes
  en_value :: json_value
  en_tail :: bytes

function decimal :: "nat \<Rightarrow> bytes" where
  "decimal n = (if n < 10 then [0x30 + of_nat n] else decimal (n div 10) @ [0x30 + of_nat (n mod 10)])"
  by auto

termination by (relation "measure id") auto

declare decimal.simps [simp del]

definition value_text :: "json_value \<Rightarrow> bytes" where
  "value_text v = (case v of JNum n \<Rightarrow> decimal n | JBool b \<Rightarrow> ascii (if b then ''true'' else ''false''))"

definition entry_text :: "entry \<Rightarrow> bytes" where
  "entry_text e = [0x22] @ en_key e @ [0x22] @ en_before e @ [0x3A] @ en_after e @ value_text (en_value e) @ en_tail e"

definition no_quote :: "bytes \<Rightarrow> bool" where
  "no_quote bs \<longleftrightarrow> 0x22 \<notin> set bs"

definition json_entry_ok :: "entry \<Rightarrow> bool" where
  "json_entry_ok e \<longleftrightarrow> no_quote (en_key e) \<and> list_all is_space (en_before e) \<and> list_all is_space (en_after e)
     \<and> no_quote (en_tail e) \<and> en_tail e \<noteq> [] \<and> \<not> is_ascii_digit (hd (en_tail e))"

definition object_text :: "bytes \<Rightarrow> entry list \<Rightarrow> bytes" where
  "object_text pre es = 0x7B # pre @ concat (map entry_text es)"

definition entry_value :: "entry list \<Rightarrow> bytes \<Rightarrow> json_value option" where
  "entry_value es key = map_of (map (\<lambda>e. (en_key e, en_value e)) es) key"

definition num_of :: "entry list \<Rightarrow> string \<Rightarrow> u32 \<Rightarrow> u32" where
  "num_of es key fallback = (case entry_value es (ascii key) of
     Some (JNum n) \<Rightarrow> of_nat (min n (2 ^ 32 - 1)) | _ \<Rightarrow> fallback)"

definition true_of :: "entry list \<Rightarrow> string \<Rightarrow> bool" where
  "true_of es key \<longleftrightarrow> entry_value es (ascii key) = Some (JBool True)"

section \<open>The scanner on flat objects\<close>

lemma quote_position_split:
  "no_quote p \<Longrightarrow> quote_position (p @ 0x22 # rest) = Some (length p)" "no_quote p \<Longrightarrow> quote_position p = None"
  by (induction p) (auto simp: no_quote_def)

lemma skip_spaces_over:
  "list_all is_space sp \<Longrightarrow> rest = [] \<or> \<not> is_space (hd rest) \<Longrightarrow>
     skip_spaces (xs @ sp @ rest) (length xs) = length xs + length sp"
proof (induction sp arbitrary: xs)
  case Nil
  then have "\<not> space_at (xs @ rest) (length xs)" by (cases rest) (simp_all add: space_at_def get_at_def)
  then show ?case by (subst skip_spaces.simps) simp
next
  case (Cons b sp)
  have "space_at (xs @ (b # sp) @ rest) (length xs)" using Cons.prems by (simp add: space_at_def get_at_def)
  then have "skip_spaces (xs @ (b # sp) @ rest) (length xs) = skip_spaces (xs @ (b # sp) @ rest) (length xs + 1)"
    by (subst skip_spaces.simps) simp
  then show ?case using Cons.IH [of "xs @ [b]"] Cons.prems by simp
qed

lemma get_range_mid: "get_range (xs @ ys @ zs) (length xs) (length xs + length ys) = Some ys"
  by (simp add: get_range_def)

text \<open>A quote that does not open the wanted name moves the scan past it.\<close>

lemma value_after_skip:
  assumes "no_quote p" "take (length key + 1) rest \<noteq> key @ [0x22]"
  shows "value_after (xs @ p @ 0x22 # rest) key (length xs)
    = value_after (xs @ p @ 0x22 # rest) key (length xs + length p + 1)"
proof -
  let ?b = "xs @ p @ 0x22 # rest" and ?q = "length xs + length p"
  have none: "length ?b < pos + length key + 2 \<Longrightarrow> value_after ?b key pos = None" for pos
    by (subst value_after.simps) simp
  show ?thesis
  proof (cases "length rest < length key + 1")
    case True
    have n: "value_after ?b key (?q + 1) = None" using True by (intro none) simp
    show ?thesis
    proof (cases "length ?b < length xs + length key + 2")
      case False
      have "get_range ?b (?q + 1) (?q + 1 + length key) = None \<or>
          get_at ?b (?q + 1 + length key) \<noteq> Some 0x22"
        using True by (auto simp: get_range_def get_at_def)
      then show ?thesis
        using False n assms(1) quote_position_split(1)
        by (subst value_after.simps) (auto simp: Let_def split: option.split)
    qed (simp add: none n)
  next
    case False
    have "take (length key) rest @ [rest ! length key] = take (length key + 1) rest"
      using False by (simp add: take_Suc_conv_app_nth)
    then have ne: "\<not> (take (length key) rest = key \<and> rest ! length key = 0x22)" using assms(2) by auto
    have r: "get_range ?b (?q + 1) (?q + 1 + length key) = Some (take (length key) rest)"
      "get_at ?b (?q + 1 + length key) = Some (rest ! length key)"
      using False by (simp_all add: get_range_def get_at_def nth_append)
    show ?thesis
      by (subst value_after.simps, use False assms(1) quote_position_split(1) r ne in \<open>auto simp: Let_def\<close>)
  qed
qed

text \<open>A quote that opens the wanted name, followed by a colon, yields what follows.\<close>

lemma value_after_hit:
  assumes "no_quote p" "list_all is_space s1" "list_all is_space s2" "v \<noteq> []" "\<not> is_space (hd v)"
  shows "value_after (xs @ p @ 0x22 # key @ 0x22 # s1 @ 0x3A # s2 @ v) key (length xs) = Some v"
proof -
  let ?b = "xs @ p @ 0x22 # key @ 0x22 # s1 @ 0x3A # s2 @ v" and ?q = "length xs + length p"
  have r: "get_range ?b (?q + 1) (?q + 1 + length key) = Some key" "get_at ?b (?q + 1 + length key) = Some 0x22"
    using get_range_mid [of "xs @ p @ [0x22]" key] by (simp_all add: get_at_def nth_append)
  have c: "skip_spaces ?b (?q + 2 + length key) = ?q + 2 + length key + length s1"
    using skip_spaces_over [OF assms(2), of "0x3A # s2 @ v" "xs @ p @ 0x22 # key @ [0x22]"] by (simp add: is_space_def add.assoc)
  have a: "get_at ?b (?q + 2 + length key + length s1) = Some 0x3A"
  proof -
    have "?b = (xs @ p @ 0x22 # key @ 0x22 # s1) @ 0x3A # s2 @ v" by simp
    then show ?thesis by (simp add: get_at_def nth_append)
  qed
  have d: "skip_spaces ?b (?q + 2 + length key + length s1 + 1) = ?q + 3 + length key + length s1 + length s2"
    using skip_spaces_over [OF assms(3), of v "xs @ p @ 0x22 # key @ 0x22 # s1 @ [0x3A]"] assms(4,5)
    by (simp add: add.assoc numeral_eq_Suc)
  have "get_from ?b (?q + 3 + length key + length s1 + length s2) = Some v"
  proof -
    have "?b = (xs @ p @ 0x22 # key @ 0x22 # s1 @ 0x3A # s2) @ v" by simp
    moreover have "length (xs @ p @ 0x22 # key @ 0x22 # s1 @ 0x3A # s2) = ?q + 3 + length key + length s1 + length s2" by simp
    ultimately show ?thesis by (metis (no_types) append_eq_conv_conj get_from_def length_append le_add1)
  qed
  then show ?thesis
    using quote_position_split(1) [OF assms(1)] r c a d
    by (subst value_after.simps) (simp add: Let_def)
qed

text \<open>What the scanner should return: the value of the first entry of the name, and the text after it.\<close>

fun found :: "bytes \<Rightarrow> entry list \<Rightarrow> bytes option" where
  "found key [] = None"
| "found key (e # es) = (if en_key e = key
     then Some (value_text (en_value e) @ en_tail e @ concat (map entry_text es)) else found key es)"

definition key_ok :: "bytes \<Rightarrow> bool" where
  "key_ok key \<longleftrightarrow> key \<noteq> [] \<and> no_quote key \<and> hd key \<noteq> 0x3A \<and> \<not> is_space (hd key)"

lemma of_nat_digit: "n < 10 \<Longrightarrow> unat (0x30 + of_nat n :: byte) = 48 + n"
  by (simp add: unat_word_ariths unat_of_nat take_bit_nat_eq_self)

lemma decimal_digits: "b \<in> set (decimal n) \<Longrightarrow> \<exists>d < 10. b = 0x30 + of_nat d"
proof (induction n rule: decimal.induct)
  case (1 n)
  show ?case
  proof (cases "n < 10")
    case True
    then show ?thesis using "1.prems" by (auto simp: decimal.simps [of n])
  next
    case False
    then have "b \<in> set (decimal (n div 10)) \<or> b = 0x30 + of_nat (n mod 10)" using "1.prems" by (auto simp: decimal.simps [of n])
    then show ?thesis using "1.IH" [OF False] by (auto intro: exI [of _ "n mod 10"])
  qed
qed

lemma digit_classes:
  assumes "d < 10" shows "is_ascii_digit (0x30 + of_nat d)" "\<not> is_space (0x30 + of_nat d)" "(0x30 + of_nat d :: byte) \<noteq> 0x22"
proof -
  have u: "unat (0x30 + of_nat d :: byte) = 48 + d" using assms by (rule of_nat_digit)
  show "is_ascii_digit (0x30 + of_nat d)" using assms u by (simp add: is_ascii_digit_def word_le_nat_alt)
  have "(0x30 + of_nat d :: byte) \<noteq> b" if "unat b < 48" for b using that u by auto
  then show "\<not> is_space (0x30 + of_nat d)" "(0x30 + of_nat d :: byte) \<noteq> 0x22" by (auto simp: is_space_def)
qed

lemma decimal_nonempty: "decimal n \<noteq> []"
  by (simp add: decimal.simps [of n])

lemma value_text_ok: "value_text v \<noteq> []" "\<not> is_space (hd (value_text v))" "no_quote (value_text v)"
proof -
  show "value_text v \<noteq> []" by (cases v) (simp_all add: value_text_def decimal_nonempty ascii_def)
  show "\<not> is_space (hd (value_text v))"
  proof (cases v)
    case (JNum n)
    obtain d where "d < 10" "hd (decimal n) = 0x30 + of_nat d"
      using decimal_digits [OF hd_in_set [OF decimal_nonempty]] by blast
    then show ?thesis using JNum digit_classes(2) by (simp add: value_text_def)
  qed (simp add: value_text_def ascii_def is_space_def)
  show "no_quote (value_text v)"
  proof (cases v)
    case (JNum n)
    then show ?thesis using decimal_digits digit_classes(3) by (fastforce simp: value_text_def no_quote_def)
  qed (simp add: value_text_def ascii_def no_quote_def)
qed

lemma same_name:
  assumes "no_quote k" "no_quote key" "take (length key + 1) (k @ 0x22 # r) = key @ [0x22]"
  shows "k = key"
proof -
  have "k @ 0x22 # r = key @ 0x22 # drop (length key + 1) (k @ 0x22 # r)"
    using append_take_drop_id [of "length key + 1" "k @ 0x22 # r"] unfolding assms(3) by simp
  then have "takeWhile (\<lambda>b. b \<noteq> 0x22) (k @ 0x22 # r) = takeWhile (\<lambda>b. b \<noteq> 0x22) (key @ 0x22 # drop (length key + 1) (k @ 0x22 # r))"
    by simp
  moreover have "takeWhile (\<lambda>b. b \<noteq> 0x22) (w @ 0x22 # t) = w" if "no_quote w" for w t :: bytes
    using that by (induction w) (auto simp: no_quote_def)
  ultimately show ?thesis using assms(1,2) by simp
qed

lemma value_after_entries:
  assumes "key_ok key" "list_all json_entry_ok es" "no_quote p"
  shows "value_after (xs @ p @ concat (map entry_text es)) key (length xs) = found key es"
  using assms(2,3)
proof (induction es arbitrary: xs p)
  case Nil
  then show ?case by (subst value_after.simps) (simp add: quote_position_split(2))
next
  case (Cons e es)
  let ?k = "en_key e" and ?s = "en_before e" and ?v = "value_text (en_value e) @ en_tail e @ concat (map entry_text es)"
  have ok: "no_quote ?k" "list_all is_space ?s" "list_all is_space (en_after e)" "no_quote (en_tail e)"
    using Cons.prems(1) by (simp_all add: json_entry_ok_def)
  have t: "concat (map entry_text (e # es)) = 0x22 # ?k @ 0x22 # ?s @ 0x3A # en_after e @ ?v" by (simp add: entry_text_def)
  show ?case
  proof (cases "?k = key")
    case True
    then show ?thesis
      using value_after_hit [OF Cons.prems(2) ok(2,3), of ?v xs key] value_text_ok [of "en_value e"] unfolding t by simp
  next
    case False
    let ?r = "?s @ 0x3A # en_after e @ ?v"
    have 1: "take (length key + 1) (?k @ 0x22 # ?r) \<noteq> key @ [0x22]"
      using same_name [OF ok(1)] False assms(1) by (auto simp: key_ok_def)
    have 2: "take (length key + 1) ?r \<noteq> key @ [0x22]"
    proof
      assume eq: "take (length key + 1) ?r = key @ [0x22]"
      have "hd (take (length key + 1) ?r) = hd ?r" by (cases ?s) simp_all
      then have "hd ?r = hd key" using eq assms(1) by (simp add: key_ok_def)
      then show False using ok(2) assms(1) by (cases ?s) (auto simp: key_ok_def)
    qed
    have sp: "no_quote w" if "list_all is_space w" for w
      using that by (auto simp: no_quote_def list_all_iff is_space_def)
    have p: "no_quote (?s @ 0x3A # en_after e @ value_text (en_value e) @ en_tail e)"
      using sp [OF ok(2)] sp [OF ok(3)] ok(4) value_text_ok(3) by (simp add: no_quote_def)
    have "value_after (xs @ p @ 0x22 # ?k @ 0x22 # ?r) key (length xs)
        = value_after ((xs @ p @ [0x22]) @ ?k @ 0x22 # ?r) key (length (xs @ p @ [0x22]))"
      using value_after_skip [OF Cons.prems(2) 1, of xs] by simp
    also have "\<dots> = value_after ((xs @ p @ [0x22]) @ ?k @ 0x22 # ?r) key (length (xs @ p @ [0x22]) + length ?k + 1)"
      by (rule value_after_skip [OF ok(1) 2])
    also have "\<dots> = found key es"
      using Cons.IH [OF _ p, of "xs @ p @ [0x22] @ ?k @ [0x22]"] Cons.prems(1) by (simp add: add.assoc)
    finally show ?thesis using False unfolding t by simp
  qed
qed

section \<open>Values\<close>

lemma unat_sat_mul: "unat (sat_mul a b :: 'a::len word) = min (unat a * unat b) (2 ^ LENGTH('a) - 1)"
  by (auto simp: sat_mul_def unat_word_ariths unsigned_minus_1_eq_mask mask_eq_exp_minus_1)

lemma digit_step:
  assumes "d < 10"
  shows "sat_add (sat_mul (of_nat (min m (2 ^ 32 - 1)) :: u32) 10) (ucast ((0x30 + of_nat d :: byte) - 0x30))
    = of_nat (min (m * 10 + d) (2 ^ 32 - 1))"
proof (rule word_unat_eq_iff [THEN iffD2])
  have "unat (of_nat d :: byte) = d" using assms by (simp add: unat_of_nat take_bit_nat_eq_self)
  then have u: "unat (ucast ((0x30 + of_nat d :: byte) - 0x30) :: u32) = d"
    using assms by (simp add: unsigned_ucast_eq take_bit_nat_eq_self)
  have o: "unat (of_nat (min k (2 ^ 32 - 1)) :: u32) = min k (2 ^ 32 - 1)" for k by (rule unat_of_nat_32) simp
  show "unat (sat_add (sat_mul (of_nat (min m (2 ^ 32 - 1)) :: u32) 10) (ucast ((0x30 + of_nat d :: byte) - 0x30)))
      = unat (of_nat (min (m * 10 + d) (2 ^ 32 - 1)) :: u32)"
    unfolding unat_sat_add unat_sat_mul u o by (simp add: min_def)
qed

lemma number_loop_decimal:
  "number_loop (decimal n @ rest) 0 0 = number_loop rest (of_nat (min n (2 ^ 32 - 1))) (length (decimal n))"
proof (induction n arbitrary: rest rule: decimal.induct)
  case (1 n)
  show ?case
  proof (cases "n < 10")
    case True
    then show ?thesis using digit_step [OF True, of 0] digit_classes(1) [OF True]
      by (simp add: decimal.simps [of n])
  next
    case False
    have d: "n mod 10 < 10" by simp
    have "number_loop (decimal n @ rest) 0 0 = number_loop (decimal (n div 10) @ (0x30 + of_nat (n mod 10)) # rest) 0 0"
      using False by (simp add: decimal.simps [of n])
    also have "\<dots> = number_loop ((0x30 + of_nat (n mod 10)) # rest) (of_nat (min (n div 10) (2 ^ 32 - 1))) (length (decimal (n div 10)))"
      by (rule "1.IH" [OF False])
    also have "\<dots> = number_loop rest (of_nat (min (n div 10 * 10 + n mod 10) (2 ^ 32 - 1))) (length (decimal (n div 10)) + 1)"
      using digit_step [OF d, of "n div 10"] digit_classes(1) [OF d] by simp
    finally show ?thesis using False by (simp add: decimal.simps [of n])
  qed
qed

lemma number_decimal:
  assumes "t \<noteq> []" "\<not> is_ascii_digit (hd t)"
  shows "number (decimal n @ t) fallback = of_nat (min n (2 ^ 32 - 1))"
  using assms by (cases t) (simp_all add: number_def number_loop_decimal decimal_nonempty)

lemma number_bool: "number (ascii (if b then ''true'' else ''false'') @ t) fallback = fallback"
  by (simp add: number_def ascii_def is_ascii_digit_def word_le_nat_alt)

lemma decimal_not_true: "take 4 (decimal n @ t) \<noteq> ascii ''true''"
proof -
  obtain d where d: "d < 10" "hd (decimal n) = 0x30 + of_nat d"
    using decimal_digits [OF hd_in_set [OF decimal_nonempty]] by blast
  have "hd (take 4 (decimal n @ t)) = hd (decimal n)" using decimal_nonempty [of n] by (cases "decimal n") simp_all
  moreover have "is_ascii_digit (hd (decimal n))" using d digit_classes(1) by simp
  moreover have "\<not> is_ascii_digit (hd (ascii ''true''))" by (simp add: ascii_def is_ascii_digit_def word_le_nat_alt)
  ultimately show ?thesis by metis
qed

lemma entry_value_Cons: "entry_value (e # es) key = (if en_key e = key then Some (en_value e) else entry_value es key)"
  by (simp add: entry_value_def)

lemma found_None: "found key es = None \<longleftrightarrow> entry_value es key = None"
  by (induction es) (auto simp: entry_value_Cons, simp add: entry_value_def)

lemma found_Some:
  assumes "list_all json_entry_ok es" "found key es = Some r"
  shows "\<exists>v t. entry_value es key = Some v \<and> r = value_text v @ t \<and> t \<noteq> [] \<and> \<not> is_ascii_digit (hd t)"
  using assms
proof (induction es)
  case (Cons e es)
  show ?case
  proof (cases "en_key e = key")
    case True
    then have "r = value_text (en_value e) @ en_tail e @ concat (map entry_text es)" using Cons.prems(2) by simp
    then show ?thesis using True Cons.prems(1) by (auto simp: entry_value_Cons json_entry_ok_def)
  next
    case False
    then show ?thesis using Cons by (simp add: entry_value_Cons)
  qed
qed simp

lemma field_entries:
  assumes "key_ok (ascii key)" "list_all json_entry_ok es" "no_quote pre"
  shows "init_field (object_text pre es) key fallback = num_of es key fallback"
    and "truth (object_text pre es) key = true_of es key"
proof -
  have v: "value_after (object_text pre es) (ascii key) 0 = found (ascii key) es"
    using value_after_entries [OF assms(1,2), of "0x7B # pre" "[]"] assms(3) by (simp add: object_text_def no_quote_def)
  have "init_field (object_text pre es) key fallback = num_of es key fallback
      \<and> truth (object_text pre es) key = true_of es key"
  proof (cases "found (ascii key) es")
    case None
    then show ?thesis using found_None [of "ascii key" es]
      by (simp add: init_field_def truth_def num_of_def true_of_def v)
  next
    case (Some r)
    obtain w t where w: "entry_value es (ascii key) = Some w" "r = value_text w @ t" "t \<noteq> []" "\<not> is_ascii_digit (hd t)"
      using found_Some [OF assms(2) Some] by blast
    have b: "take 4 (ascii (if b then ''true'' else ''false'') @ t) = ascii ''true'' \<longleftrightarrow> b" for b
      by (simp add: ascii_def)
    show ?thesis
      unfolding init_field_def truth_def num_of_def true_of_def v Some w(1,2) option.case
      using number_decimal [OF w(3,4)] number_bool decimal_not_true b by (cases w) (simp_all add: value_text_def)
  qed
  then show "init_field (object_text pre es) key fallback = num_of es key fallback"
    "truth (object_text pre es) key = true_of es key" by simp_all
qed

section \<open>Properties\<close>

text \<open>C36: Initialization reads every flat object. For any object of integer and boolean entries, in any
  order, with any spacing and any extra names, init_parse refuses it exactly when its version is not one,
  and otherwise returns for every field the first entry of that name, saturated to 32 bits, or the
  default when the entry is absent or not of that type.\<close>
theorem init_reads_object:
  assumes "list_all json_entry_ok es" "no_quote pre"
  shows "init_parse (object_text pre es @ [0]) =
    (if num_of es ''_version'' 0 \<noteq> 1 then Inl Malformed
     else Inr \<lparr>in_version = 1, in_max_width = num_of es ''_max_w'' 0, in_max_height = num_of es ''_max_h'' 0,
       in_flags = num_of es ''_flags'' 0, in_resolution_x = num_of es ''resolutionX'' 0,
       in_resolution_y = num_of es ''resolutionY'' 0, in_media_container = num_of es ''mediaContainer'' 0,
       in_refresh_rate = num_of es ''refreshRate'' 60, in_caches_cursor = true_of es ''_cache_cursor'',
       in_raw_audio = true_of es ''rawAudio''\<rparr>)"
proof -
  have k: "key_ok (ascii ''_version'')" "key_ok (ascii ''_max_w'')" "key_ok (ascii ''_max_h'')" "key_ok (ascii ''_flags'')"
      "key_ok (ascii ''resolutionX'')" "key_ok (ascii ''resolutionY'')" "key_ok (ascii ''mediaContainer'')"
      "key_ok (ascii ''refreshRate'')" "key_ok (ascii ''_cache_cursor'')" "key_ok (ascii ''rawAudio'')"
    by (simp_all add: key_ok_def ascii_def no_quote_def is_space_def)
  note fields = k [THEN field_entries(1) [OF _ assms]] k [THEN field_entries(2) [OF _ assms]]
  have "get_at (object_text pre es) 0 = Some 0x7B" by (simp add: object_text_def get_at_def)
  then show ?thesis by (simp add: init_parse_def Let_def fields INIT_VERSION_def)
qed

definition demo_object :: "entry list" where
  "demo_object =
     [\<lparr>en_key = ascii ''extra'', en_before = [0x20], en_after = [], en_value = JNum 7, en_tail = [0x2C]\<rparr>,
      \<lparr>en_key = ascii ''_version'', en_before = [], en_after = [0x20], en_value = JNum 1, en_tail = [0x2C, 0x0A]\<rparr>,
      \<lparr>en_key = ascii ''_cache_cursor'', en_before = [], en_after = [], en_value = JBool True, en_tail = [0x7D]\<rparr>]"

theorem init_reads_object_witness:
  "\<exists>i. init_parse (object_text [] demo_object @ [0]) = Inr i \<and> in_version i = 1 \<and> in_refresh_rate i = 60
    \<and> in_caches_cursor i \<and> \<not> in_raw_audio i"
proof -
  have ok: "list_all json_entry_ok demo_object" "no_quote []"
    by (simp_all add: demo_object_def json_entry_ok_def no_quote_def ascii_def is_space_def is_ascii_digit_def word_le_nat_alt)
  have v: "num_of demo_object ''_version'' 0 = 1" "num_of demo_object ''refreshRate'' 60 = 60"
      "true_of demo_object ''_cache_cursor''" "\<not> true_of demo_object ''rawAudio''"
    by (simp_all add: demo_object_def num_of_def true_of_def entry_value_def ascii_def)
  show ?thesis unfolding init_reads_object [OF ok] using v by simp
qed

end
