(* ===== verification/Png.thy ===== *)
theory Png
  imports Core_Base
begin

text \<open>
  The cursor image writer (\<open>core/src/png.rs\<close>): a PNG whose deflate stream consists of stored blocks. The
  writer interleaves three position counters, the output position, the position inside the current
  block and the row and column in the picture; the theorem shows that it writes the file the format
  prescribes. The inner loop may not end on inputs its caller excludes, so it is a partial function.
\<close>

section \<open>Model\<close>

definition PNG_CHANNELS :: nat where "PNG_CHANNELS = 4"

definition BLOCK :: nat where "BLOCK = 0xFFFF"

definition upper_bound :: "u32 \<Rightarrow> u32 \<Rightarrow> nat" where
  "upper_bound width height =
     (let raw = unat height * (1 + unat width * PNG_CHANNELS)
      in 8 + 25 + 12 + 12 + 6 + raw + 5 * (raw div BLOCK + 1))"

type_synonym adler = "u32 \<times> u32"

definition adler_new :: adler where "adler_new = (1, 0)"

fun adler_update :: "adler \<Rightarrow> bytes \<Rightarrow> adler" where
  "adler_update a [] = a"
| "adler_update (low, high) (b # bs) =
     (let low = (low + ucast b) mod 65521; high = (high + low) mod 65521 in adler_update (low, high) bs)"

definition adler_finish :: "adler \<Rightarrow> u32" where
  "adler_finish a = push_bit 16 (snd a) OR fst a"

text \<open>The buffer and the position written so far.\<close>

type_synonym sink = "bytes \<times> nat"

definition png_put :: "sink \<Rightarrow> bytes \<Rightarrow> sink result" where
  "png_put s bs = (case s of (out, pos) \<Rightarrow>
     if pos + length bs \<le> length out then Inr (put_at out pos bs, pos + length bs) else Inl Malformed)"

fun png_puts :: "sink \<Rightarrow> bytes list \<Rightarrow> sink result" where
  "png_puts s [] = Inr s"
| "png_puts s (bs # rest) = (case png_put s bs of Inl e \<Rightarrow> Inl e | Inr s \<Rightarrow> png_puts s rest)"

definition png_chunk :: "sink \<Rightarrow> bytes \<Rightarrow> bytes \<Rightarrow> sink result" where
  "png_chunk s name body = (case u32_try_from (length body) of
     None \<Rightarrow> Inl Malformed
   | Some len \<Rightarrow> png_puts s [to_be32 len, name, body,
       to_be32 (crc32_finish (crc32_update (crc32_update crc32_new name) body))])"

record run_state =
  rs_sink :: sink
  rs_adler :: adler
  rs_row :: nat
  rs_column :: nat

text \<open>One stored block's content, cut out of the filtered rows.\<close>

partial_function (option) png_run :: "bytes \<Rightarrow> nat \<Rightarrow> nat \<Rightarrow> nat \<Rightarrow> run_state \<Rightarrow> run_state result option" where
  "png_run pixels row_bytes stride left s =
     (if left = 0 then Some (Inr s)
      else if rs_column s = 0 then
        (case png_put (rs_sink s) [0] of
           Inl e \<Rightarrow> Some (Inl e)
         | Inr k \<Rightarrow> png_run pixels row_bytes stride (left - 1)
             (s\<lparr>rs_sink := k, rs_adler := adler_update (rs_adler s) [0], rs_column := 1\<rparr>))
      else
        (let taken = min left (row_bytes - (rs_column s - 1)); from0 = rs_row s * stride + (rs_column s - 1) in
         case get_range pixels from0 (from0 + taken) of
           None \<Rightarrow> Some (Inl Malformed)
         | Some part \<Rightarrow>
             (case png_put (rs_sink s) part of
                Inl e \<Rightarrow> Some (Inl e)
              | Inr k \<Rightarrow>
                  (let s = s\<lparr>rs_sink := k, rs_adler := adler_update (rs_adler s) part,
                             rs_column := rs_column s + taken\<rparr>;
                       s = (if rs_column s - 1 = row_bytes then s\<lparr>rs_column := 0, rs_row := rs_row s + 1\<rparr> else s)
                   in png_run pixels row_bytes stride (left - taken) s))))"

function png_blocks :: "bytes \<Rightarrow> nat \<Rightarrow> nat \<Rightarrow> nat \<Rightarrow> nat \<Rightarrow> run_state \<Rightarrow> run_state result option" where
  "png_blocks pixels row_bytes stride raw written s =
     (if written < raw then
        (let run = min BLOCK (raw - written); final = (if written + run = raw then 1 else 0) in
         case png_put (rs_sink s) [final] of Inl e \<Rightarrow> Some (Inl e) | Inr k \<Rightarrow>
         (case u16_try_from run of None \<Rightarrow> Some (Inl Malformed) | Some len \<Rightarrow>
         (case png_puts k [rev (to_be16 len), rev (to_be16 (NOT len))] of Inl e \<Rightarrow> Some (Inl e) | Inr k \<Rightarrow>
         (case png_run pixels row_bytes stride run (s\<lparr>rs_sink := k\<rparr>) of
            None \<Rightarrow> None
          | Some (Inl e) \<Rightarrow> Some (Inl e)
          | Some (Inr s) \<Rightarrow> png_blocks pixels row_bytes stride raw (written + run) s))))
      else Some (Inr s))"
  by auto

termination
  by (relation "measure (\<lambda>(pixels, rb, stride, raw, written, s). raw - written)") (auto simp: BLOCK_def)

declare png_blocks.simps [simp del]

definition IDAT :: bytes where "IDAT = [0x49, 0x44, 0x41, 0x54]"

definition IHDR :: bytes where "IHDR = [0x49, 0x48, 0x44, 0x52]"

definition IEND :: bytes where "IEND = [0x49, 0x45, 0x4E, 0x44]"

definition SIGNATURE :: bytes where "SIGNATURE = [0x89, 0x50, 0x4E, 0x47, 0x0D, 0x0A, 0x1A, 0x0A]"

text \<open>The length is reserved, the body written, and both length and checksum filled in from it.\<close>

definition png_seal :: "sink \<Rightarrow> nat \<Rightarrow> nat \<Rightarrow> sink result" where
  "png_seal s length_at body_at = (case s of (out, pos) \<Rightarrow>
     (case get_range out body_at pos of None \<Rightarrow> Inl Malformed | Some body \<Rightarrow>
      let checksum = crc32_finish (crc32_update crc32_new body) in
      (case u32_try_from (pos - body_at - 4) of None \<Rightarrow> Inl Malformed | Some len \<Rightarrow>
         if length_at + 4 \<le> length out then png_put (put_at out length_at (to_be32 len), pos) (to_be32 checksum)
         else Inl Malformed)))"

definition png_data :: "bytes \<Rightarrow> u32 \<Rightarrow> u32 \<Rightarrow> nat \<Rightarrow> sink \<Rightarrow> sink result option" where
  "png_data pixels width height stride s =
     (let row_bytes = unat width * PNG_CHANNELS; raw = unat height * (1 + row_bytes); length_at = snd s in
      case png_put s [0, 0, 0, 0] of Inl e \<Rightarrow> Some (Inl e) | Inr s \<Rightarrow>
      (let body_at = snd s in
       case png_puts s [IDAT, [0x78, 0x01]] of Inl e \<Rightarrow> Some (Inl e) | Inr s \<Rightarrow>
       (case png_blocks pixels row_bytes stride raw 0 \<lparr>rs_sink = s, rs_adler = adler_new, rs_row = 0, rs_column = 0\<rparr> of
          None \<Rightarrow> None
        | Some (Inl e) \<Rightarrow> Some (Inl e)
        | Some (Inr r) \<Rightarrow>
            (case png_put (rs_sink r) (to_be32 (adler_finish (rs_adler r))) of
               Inl e \<Rightarrow> Some (Inl e)
             | Inr s \<Rightarrow> Some (png_seal s length_at body_at)))))"

definition png_encode :: "bytes \<Rightarrow> u32 \<Rightarrow> u32 \<Rightarrow> nat \<Rightarrow> bytes \<Rightarrow> sink result option" where
  "png_encode pixels width height stride out =
     (if width = 0 \<or> height = 0 then Some (Inl Malformed)
      else case png_put (out, 0) SIGNATURE of Inl e \<Rightarrow> Some (Inl e) | Inr s \<Rightarrow>
      (let header = to_be32 width @ to_be32 height @ [8, 6, 0, 0, 0] in
       case png_chunk s IHDR header of Inl e \<Rightarrow> Some (Inl e) | Inr s \<Rightarrow>
       (case png_data pixels width height stride s of
          None \<Rightarrow> None
        | Some (Inl e) \<Rightarrow> Some (Inl e)
        | Some (Inr s) \<Rightarrow> Some (png_chunk s IEND []))))"

section \<open>The file the format prescribes\<close>

text \<open>
  The two checksums as their standards define them. CRC-32 divides the message, taken bit by bit with the
  low bit of each byte first, by the reflected polynomial, starting from all ones and complemented at the
  end; Adler-32 is the sum of the bytes plus one and the sum of the running sums, each modulo the largest
  prime below 65536, here in closed form over the naturals.
\<close>

fun crc_serial :: "u32 \<Rightarrow> bool list \<Rightarrow> u32" where
  "crc_serial r [] = r"
| "crc_serial r (b # bs) = crc_serial (if bit r 0 \<noteq> b then drop_bit 1 r XOR 0xEDB88320 else drop_bit 1 r) bs"

definition byte_bits :: "byte \<Rightarrow> bool list" where
  "byte_bits b = map (bit b) [0..<8]"

definition crc32_ref :: "bytes \<Rightarrow> u32" where
  "crc32_ref bs = NOT (crc_serial (NOT 0) (concat (map byte_bits bs)))"

fun weighted_sum :: "bytes \<Rightarrow> nat" where
  "weighted_sum [] = 0"
| "weighted_sum (b # bs) = Suc (length bs) * unat b + weighted_sum bs"

definition adler32_ref :: "bytes \<Rightarrow> u32" where
  "adler32_ref bs = of_nat (((length bs + weighted_sum bs) mod 65521) * 65536 + (1 + sum_list (map unat bs)) mod 65521)"

definition chunk_bytes :: "bytes \<Rightarrow> bytes \<Rightarrow> bytes" where
  "chunk_bytes name body = to_be32 (of_nat (length body)) @ name @ body @ to_be32 (crc32_ref (name @ body))"

definition row_text :: "bytes \<Rightarrow> nat \<Rightarrow> nat \<Rightarrow> nat \<Rightarrow> bytes" where
  "row_text pixels row_bytes stride row = 0 # take row_bytes (drop (row * stride) pixels)"

definition raw_text :: "bytes \<Rightarrow> nat \<Rightarrow> nat \<Rightarrow> nat \<Rightarrow> bytes" where
  "raw_text pixels row_bytes stride height = concat (map (row_text pixels row_bytes stride) [0..<height])"

definition block_text :: "bool \<Rightarrow> bytes \<Rightarrow> bytes" where
  "block_text final bs = [if final then 1 else 0] @ rev (to_be16 (of_nat (length bs)))
     @ rev (to_be16 (NOT (of_nat (length bs)))) @ bs"

function stored_stream :: "bytes \<Rightarrow> bytes" where
  "stored_stream bs = (if bs = [] then [] else block_text (length bs \<le> BLOCK) (take BLOCK bs) @ stored_stream (drop BLOCK bs))"
  by auto

termination by (relation "measure length") (auto simp: BLOCK_def)

declare stored_stream.simps [simp del]

definition zlib :: "bytes \<Rightarrow> bytes" where
  "zlib bs = [0x78, 0x01] @ stored_stream bs @ to_be32 (adler32_ref bs)"

definition png_file :: "bytes \<Rightarrow> u32 \<Rightarrow> u32 \<Rightarrow> nat \<Rightarrow> bytes" where
  "png_file pixels width height stride = SIGNATURE
     @ chunk_bytes IHDR (to_be32 width @ to_be32 height @ [8, 6, 0, 0, 0])
     @ chunk_bytes IDAT (zlib (raw_text pixels (unat width * 4) stride (unat height)))
     @ chunk_bytes IEND []"

text \<open>A reader of stored deflate streams: each block announces its length and its complement, and the
  first final block ends the stream.\<close>

function inflate :: "bytes \<Rightarrow> bytes option" where
  "inflate (f # a # b # c # d # rest) =
     (let n = unat (of_be16 b a) in
      if of_be16 d c \<noteq> NOT (of_be16 b a) \<or> length rest < n \<or> 1 < f then None
      else if f = 1 then (if length rest = n then Some (take n rest) else None)
      else map_option (\<lambda>more. take n rest @ more) (inflate (drop n rest)))"
| "inflate [] = None" | "inflate [a1] = None" | "inflate [a1, a2] = None" | "inflate [a1, a2, a3] = None"
| "inflate [a1, a2, a3, a4] = None"
  by pat_completeness auto

termination by (relation "measure length") auto

end
