(* ===== verification/Png_Properties.thy ===== *)
theory Png_Properties
  imports Png
begin

text \<open>
  The picture writer against the format: the inner loop copies the filtered rows across block
  boundaries, the blocks make a stored deflate stream, and the whole file is the prescribed one.
\<close>

section \<open>Writing\<close>

lemma png_put_ok: "pos + length bs \<le> length out \<Longrightarrow> png_put (out, pos) bs = Inr (put_at out pos bs, pos + length bs)"
  by (simp add: png_put_def)

lemma png_puts_ok:
  "pos + length (concat bss) \<le> length out \<Longrightarrow>
     png_puts (out, pos) bss = Inr (put_at out pos (concat bss), pos + length (concat bss))"
proof (induction bss arbitrary: out pos)
  case (Cons bs bss)
  then have "pos + length bs + length (concat bss) \<le> length out" by simp
  then show ?case using Cons by (simp add: png_put_ok put_at_append)
qed simp

text \<open>A sink that has written the given bytes from a start position.\<close>

definition wrote :: "bytes \<Rightarrow> nat \<Rightarrow> bytes \<Rightarrow> sink" where
  "wrote out start bs = (put_at out start bs, start + length bs)"

lemma wrote_puts:
  assumes "start + length bs + length (concat bss) \<le> length out"
  shows "png_puts (wrote out start bs) bss = Inr (wrote out start (bs @ concat bss))"
  using assms png_puts_ok [of "start + length bs" bss "put_at out start bs"]
  by (simp add: wrote_def put_at_append)

lemma wrote_put:
  assumes "start + length bs + length cs \<le> length out"
  shows "png_put (wrote out start bs) cs = Inr (wrote out start (bs @ cs))"
  using assms by (simp add: wrote_def png_put_ok put_at_append)

lemma wrote_Nil: "start \<le> length out \<Longrightarrow> (out, start) = wrote out start []"
  by (simp add: wrote_def)

lemma adler_update_append: "adler_update a (xs @ ys) = adler_update (adler_update a xs) ys"
  by (induction a xs rule: adler_update.induct) (simp_all add: Let_def)

section \<open>Checksums\<close>

text \<open>The two sums stay below the modulus, so the 32-bit additions never wrap.\<close>

lemma adler_sums:
  assumes "unat low < 65521" "unat high < 65521"
  shows "unat (fst (adler_update (low, high) bs)) = (unat low + sum_list (map unat bs)) mod 65521
    \<and> unat (snd (adler_update (low, high) bs)) = (unat high + length bs * unat low + weighted_sum bs) mod 65521"
  using assms
proof (induction bs arbitrary: low high)
  case (Cons b bs)
  define l where "l = (low + ucast b) mod 65521"
  define h where "h = (high + l) mod 65521"
  have b8: "unat b < 256" using unsigned_less [of b] by simp
  then have b: "unat (ucast b :: u32) = unat b" "unat b < 256" by (simp_all add: unsigned_ucast_eq take_bit_nat_eq_self)
  have "unat (low + ucast b) = unat low + unat b"
    using Cons.prems(1) b by (simp add: unat_word_ariths)
  then have l: "unat l = (unat low + unat b) mod 65521" by (simp add: l_def unat_mod)
  then have "unat l < 65521" by simp
  then have "unat (high + l) = unat high + unat l" using Cons.prems(2) by (simp add: unat_word_ariths)
  then have h: "unat h = (unat high + unat l) mod 65521" by (simp add: h_def unat_mod)
  have bounds: "unat l < 65521" "unat h < 65521" using l h by simp_all
  have IH: "unat (fst (adler_update (l, h) bs)) = (unat l + sum_list (map unat bs)) mod 65521"
    "unat (snd (adler_update (l, h) bs)) = (unat h + length bs * unat l + weighted_sum bs) mod 65521"
    using Cons.IH [OF bounds] by simp_all
  have "(unat h + length bs * unat l + weighted_sum bs) mod 65521
      = (unat high + Suc (length bs) * unat l + weighted_sum bs) mod 65521"
    using mod_add_left_eq [of "unat high + unat l" 65521 "length bs * unat l + weighted_sum bs", folded h]
    by (simp add: algebra_simps)
  also have "\<dots> = (unat high + Suc (length bs) * ((unat low + unat b) mod 65521) + weighted_sum bs) mod 65521" by (simp only: l)
  also have "\<dots> = (unat high + Suc (length bs) * (unat low + unat b) + weighted_sum bs) mod 65521"
    by (metis (no_types) mod_add_left_eq mod_add_right_eq mod_mult_right_eq)
  finally have "unat (snd (adler_update (l, h) bs)) = (unat high + length (b # bs) * unat low + weighted_sum (b # bs)) mod 65521"
    using IH(2) by (simp add: algebra_simps)
  moreover have "unat (fst (adler_update (l, h) bs)) = (unat low + sum_list (map unat (b # bs))) mod 65521"
    using IH(1) by (simp add: l mod_simps algebra_simps)
  ultimately show ?case by (simp add: l_def h_def Let_def)
qed simp

lemma adler_eq: "adler_finish (adler_update adler_new bs) = adler32_ref bs"
proof -
  let ?a = "adler_update (1, 0) bs"
  have f: "unat (fst ?a) = (1 + sum_list (map unat bs)) mod 65521" and s: "unat (snd ?a) = (length bs + weighted_sum bs) mod 65521"
    using adler_sums [of 1 0 bs] by simp_all
  have lt: "unat (fst ?a) < 65536" "unat (snd ?a) < 65536" unfolding f s using mod_less_divisor [of 65521] by (auto intro: less_trans)
  obtain l h where a: "?a = (l, h)" by fastforce
  have i: "uint l < 65536" "uint h < 65536" "0 \<le> uint l" "0 \<le> uint h"
    using lt uint_nat [of l] uint_nat [of h] unfolding a fst_conv snd_conv by linarith+
  have "take_bit 32 (push_bit 16 (uint h)) = push_bit 16 (uint h)"
    unfolding take_bit_int_eq_self_iff push_bit_eq_mult using i by simp
  moreover have t: "take_bit 16 (uint l) = uint l" unfolding take_bit_int_eq_self_iff using i by simp
  ultimately have "uint (push_bit 16 h OR l) = concat_bit 16 (uint l) (uint h)"
    by (simp add: concat_bit_def unsigned_or_eq unsigned_push_bit_eq or.commute)
  also have "\<dots> = uint l + uint h * 65536"
    unfolding concat_bit_eq t push_bit_eq_mult by simp
  finally have "uint (push_bit 16 h OR l) = int (unat h * 65536 + unat l)"
    unfolding uint_nat [of l] uint_nat [of h] by simp
  then have "push_bit 16 h OR l = word_of_int (int (unat h * 65536 + unat l))" by (metis word_of_int_uint)
  also have "\<dots> = of_nat (unat h * 65536 + unat l)" by (simp only: of_int_of_nat_eq)
  finally show ?thesis using f s unfolding adler_finish_def adler_new_def adler32_ref_def a fst_conv snd_conv by (simp only:)
qed

lemma crc32_bit_if: "crc32_bit c = (if bit c 0 then drop_bit 1 c XOR 0xEDB88320 else drop_bit 1 c)"
proof (cases "bit c 0")
  case True
  then have "c AND 1 = 1" by (simp add: and_one_eq bit_0 mod2_eq_if)
  then show ?thesis using True by (simp add: crc32_bit_def Let_def)
next
  case False
  then have "c AND 1 = 0" by (simp add: and_one_eq bit_0 mod2_eq_if)
  then show ?thesis using False by (simp add: crc32_bit_def Let_def)
qed

text \<open>Taking a whole byte into the register and shifting eight times is the division bit by bit.\<close>

lemma crc_xor_low: "crc32_bit (c XOR w) = crc32_bit (c XOR of_bool (bit w 0)) XOR drop_bit 1 w"
proof -
  have "drop_bit 1 (of_bool x :: u32) = 0" for x by simp
  then show ?thesis by (simp add: crc32_bit_if bit_xor_iff drop_bit_xor bit_of_bool_iff xor.assoc xor.commute xor.left_commute)
qed

lemma crc_steps:
  "(crc32_bit ^^ n) (c XOR w) = crc_serial c (map (bit w) [0..<n]) XOR drop_bit n w"
proof (induction n)
  case (Suc n)
  have app: "crc_serial r (xs @ [b]) = crc32_bit (crc_serial r xs XOR of_bool b)" for r xs b
    by (induction r xs rule: crc_serial.induct) (simp_all add: crc32_bit_if bit_xor_iff bit_of_bool_iff drop_bit_xor)
  have "(crc32_bit ^^ Suc n) (c XOR w) = crc32_bit (crc_serial c (map (bit w) [0..<n]) XOR drop_bit n w)" using Suc by simp
  also have "\<dots> = crc32_bit (crc_serial c (map (bit w) [0..<n]) XOR of_bool (bit w n)) XOR drop_bit 1 (drop_bit n w)"
    by (subst crc_xor_low) (simp add: bit_drop_bit_eq)
  finally show ?case by (simp add: app)
qed simp

lemma crc32_update_serial: "crc32_update c bs = crc_serial c (concat (map byte_bits bs))"
proof (induction c bs rule: crc32_update.induct)
  case (2 c b bs)
  have ap: "crc_serial r (xs @ ys) = crc_serial (crc_serial r xs) ys" for r xs ys
    by (induction r xs rule: crc_serial.induct) simp_all
  have "drop_bit 8 (ucast b :: u32) = 0" by (rule bit_eqI) (auto simp: bit_drop_bit_eq bit_ucast_iff dest: bit_imp_le_length)
  moreover have "map (bit (ucast b :: u32)) [0..<8] = byte_bits b" by (simp add: byte_bits_def bit_ucast_iff)
  ultimately have "(crc32_bit ^^ 8) (c XOR ucast b) = crc_serial c (byte_bits b)" using crc_steps [of 8 c "ucast b"] by simp
  then show ?case using 2 by (simp add: ap)
qed simp

lemma crc32_eq: "crc32_of bs = crc32_ref bs"
proof -
  have m: "(0xFFFFFFFF :: u32) = - 1" "NOT 0 = (- 1 :: u32)" by simp_all
  show ?thesis
    unfolding crc32_of_def crc32_ref_def crc32_finish_def crc32_new_def crc32_update_serial m by simp
qed

section \<open>Rows\<close>

lemma drop_concat_equal: "(\<And>xs. xs \<in> set xss \<Longrightarrow> length xs = n) \<Longrightarrow> drop (k * n) (concat xss) = concat (drop k xss)"
proof (induction xss arbitrary: k)
  case (Cons xs xss)
  then show ?case by (cases k) simp_all
qed simp

definition picture_ok :: "bytes \<Rightarrow> nat \<Rightarrow> nat \<Rightarrow> nat \<Rightarrow> bool" where
  "picture_ok pixels rb stride height \<longleftrightarrow> 0 < rb \<and> (\<forall>row < height. row * stride + rb \<le> length pixels)"

lemma length_row_text: "picture_ok pixels rb stride height \<Longrightarrow> row < height \<Longrightarrow> length (row_text pixels rb stride row) = Suc rb"
proof -
  assume "picture_ok pixels rb stride height" "row < height"
  then have "row * stride + rb \<le> length pixels" by (simp add: picture_ok_def)
  then show ?thesis by (simp add: row_text_def)
qed

lemma length_raw_text:
  assumes "picture_ok pixels rb stride height" shows "length (raw_text pixels rb stride height) = height * Suc rb"
proof -
  have "map length (map (row_text pixels rb stride) [0..<height]) = map (\<lambda>r. Suc rb) [0..<height]"
    using length_row_text [OF assms] by simp
  then show ?thesis by (simp add: raw_text_def length_concat map_replicate_const sum_list_replicate)
qed

lemma raw_text_at:
  assumes ok: "picture_ok pixels rb stride height" and row: "row < height" and c: "c \<le> rb"
  shows "\<exists>more. drop (row * Suc rb + c) (raw_text pixels rb stride height) = drop c (row_text pixels rb stride row) @ more"
proof -
  let ?rows = "map (row_text pixels rb stride) [0..<height]"
  have l: "length xs = Suc rb" if "xs \<in> set ?rows" for xs using that length_row_text [OF ok] by auto
  have "drop (row * Suc rb) (raw_text pixels rb stride height) = concat (drop row ?rows)"
    unfolding raw_text_def using l by (rule drop_concat_equal)
  also have "drop row ?rows = ?rows ! row # drop (Suc row) ?rows" by (rule Cons_nth_drop_Suc [symmetric]) (use row in simp)
  also have "?rows ! row = row_text pixels rb stride row" using row by simp
  finally have "drop (row * Suc rb) (raw_text pixels rb stride height)
      = row_text pixels rb stride row @ concat (drop (Suc row) ?rows)" by simp
  then have "drop c (drop (row * Suc rb) (raw_text pixels rb stride height))
      = drop c (row_text pixels rb stride row) @ concat (drop (Suc row) ?rows)"
    using c length_row_text [OF ok row] by simp
  then show ?thesis by (auto simp: add.commute)
qed

text \<open>One step of the inner loop reads the stream where the row and column point.\<close>

lemma raw_filter_byte:
  assumes "picture_ok pixels rb stride height" "row < height"
  shows "take 1 (drop (row * Suc rb) (raw_text pixels rb stride height)) = [0]"
  using raw_text_at [OF assms, of 0] by (auto simp: row_text_def)

lemma raw_slice:
  assumes ok: "picture_ok pixels rb stride height" and row: "row < height" and c: "0 < c" "c - 1 + n \<le> rb" "c \<le> rb"
  shows "take n (drop (row * Suc rb + c) (raw_text pixels rb stride height)) = take n (drop (row * stride + (c - 1)) pixels)"
proof -
  have b: "row * stride + rb \<le> length pixels" using ok row by (simp add: picture_ok_def)
  have "drop c (row_text pixels rb stride row) = take (rb - (c - 1)) (drop (row * stride + (c - 1)) pixels)"
    using c(1) by (cases c) (simp_all add: row_text_def drop_take add.commute)
  moreover have "length (take (rb - (c - 1)) (drop (row * stride + (c - 1)) pixels)) = rb - (c - 1)" using b c by simp
  ultimately show ?thesis using raw_text_at [OF ok row c(3)] c by (auto simp: min_def)
qed

section \<open>One block\<close>

definition at_offset :: "nat \<Rightarrow> nat \<Rightarrow> nat \<Rightarrow> nat \<Rightarrow> bool" where
  "at_offset rb row col off \<longleftrightarrow> row * Suc rb + col = off \<and> col \<le> rb"

lemma split_take: "n \<le> left \<Longrightarrow> take left (drop off xs) = take n (drop off xs) @ take (left - n) (drop (off + n) xs)"
  using take_add [of n "left - n" "drop off xs"] by (simp add: add.commute)

lemma row_below:
  assumes "at_offset rb row col off" "off < height * Suc rb" shows "row < height"
proof (rule ccontr)
  assume "\<not> row < height"
  then have "height * Suc rb \<le> row * Suc rb" by (intro mult_le_mono1) simp
  then show False using assms by (simp add: at_offset_def)
qed

text \<open>The loop copies the next bytes of the stream and ends where they end.\<close>

lemma png_run_copies:
  assumes ok: "picture_ok pixels rb stride height" and raw: "raw = raw_text pixels rb stride height"
  shows "at_offset rb row col off \<Longrightarrow> off + left \<le> length raw \<Longrightarrow> start + length bs + left \<le> length out \<Longrightarrow>
    \<exists>row' col'. png_run pixels rb stride left \<lparr>rs_sink = wrote out start bs, rs_adler = a, rs_row = row, rs_column = col\<rparr>
      = Some (Inr \<lparr>rs_sink = wrote out start (bs @ take left (drop off raw)), rs_adler = adler_update a (take left (drop off raw)),
          rs_row = row', rs_column = col'\<rparr>) \<and> at_offset rb row' col' (off + left)"
proof (induction left arbitrary: bs a row col off rule: less_induct)
  case (less left)
  have len: "length raw = height * Suc rb" unfolding raw by (rule length_raw_text [OF ok])
  show ?case
  proof (cases "left = 0")
    case True
    then show ?thesis using less.prems by (subst png_run.simps) simp
  next
    case False
    have row: "row < height" using row_below [OF less.prems(1), of height] less.prems(2) False len by simp
    show ?thesis
    proof (cases "col = 0")
      case True
      let ?one = "take 1 (drop off raw)"
      have one: "?one = [0]" using raw_filter_byte [OF ok row] less.prems(1) True by (simp add: raw at_offset_def)
      have "png_put (wrote out start bs) [0] = Inr (wrote out start (bs @ [0]))"
        using less.prems(3) False by (intro wrote_put) simp
      then have e: "png_run pixels rb stride left \<lparr>rs_sink = wrote out start bs, rs_adler = a, rs_row = row, rs_column = col\<rparr>
          = png_run pixels rb stride (left - 1) \<lparr>rs_sink = wrote out start (bs @ [0]), rs_adler = adler_update a [0], rs_row = row, rs_column = 1\<rparr>"
        using True False by (subst png_run.simps) simp
      have o: "at_offset rb row 1 (off + 1)" using less.prems(1) True ok by (simp add: at_offset_def picture_ok_def)
      have t: "take left (drop off raw) = [0] @ take (left - 1) (drop (off + 1) raw)"
        using split_take [of 1 left off raw] False one by simp
      have "\<exists>row' col'. png_run pixels rb stride (left - 1) \<lparr>rs_sink = wrote out start (bs @ [0]), rs_adler = adler_update a [0], rs_row = row, rs_column = 1\<rparr>
          = Some (Inr \<lparr>rs_sink = wrote out start ((bs @ [0]) @ take (left - 1) (drop (off + 1) raw)),
              rs_adler = adler_update (adler_update a [0]) (take (left - 1) (drop (off + 1) raw)),
              rs_row = row', rs_column = col'\<rparr>) \<and> at_offset rb row' col' (off + 1 + (left - 1))"
        using less.prems False by (intro less.IH [OF _ o]) simp_all
      then show ?thesis using False unfolding e t by (simp only: adler_update_append append_assoc) simp
    next
      case col: False
      let ?n = "min left (rb - (col - 1))" and ?f = "row * stride + (col - 1)"
      let ?s = "take ?n (drop off raw)"
      have cb: "row * Suc rb + col = off" "col \<le> rb" using less.prems(1) by (simp_all add: at_offset_def)
      have n: "0 < ?n" "col - 1 + ?n \<le> rb" using False col cb(2) by auto
      have b: "row * stride + rb \<le> length pixels" using ok row by (simp add: picture_ok_def)
      have sl: "?s = take ?n (drop ?f pixels)"
        using raw_slice [OF ok row _ n(2) cb(2)] col cb(1) by (simp add: raw)
      have g: "get_range pixels ?f (?f + ?n) = Some ?s" unfolding sl get_range_def using b n(2) by simp
      have ls: "length ?s = ?n" using less.prems(2) by simp
      have p: "png_put (wrote out start bs) ?s = Inr (wrote out start (bs @ ?s))"
        using less.prems(3) unfolding ls by (intro wrote_put) (unfold ls, linarith)
      define row1 col1 where "row1 = (if col + ?n - 1 = rb then row + 1 else row)" and "col1 = (if col + ?n - 1 = rb then 0 else col + ?n)"
      have o: "at_offset rb row1 col1 (off + ?n)"
        using cb n col by (auto simp: at_offset_def row1_def col1_def)
      have e: "png_run pixels rb stride left \<lparr>rs_sink = wrote out start bs, rs_adler = a, rs_row = row, rs_column = col\<rparr>
          = png_run pixels rb stride (left - ?n) \<lparr>rs_sink = wrote out start (bs @ ?s), rs_adler = adler_update a ?s, rs_row = row1, rs_column = col1\<rparr>"
        using col False g p by (subst png_run.simps) (simp add: Let_def row1_def col1_def)
      have t: "take left (drop off raw) = ?s @ take (left - ?n) (drop (off + ?n) raw)" by (rule split_take) simp
      have "\<exists>row' col'. png_run pixels rb stride (left - ?n) \<lparr>rs_sink = wrote out start (bs @ ?s), rs_adler = adler_update a ?s, rs_row = row1, rs_column = col1\<rparr>
          = Some (Inr \<lparr>rs_sink = wrote out start ((bs @ ?s) @ take (left - ?n) (drop (off + ?n) raw)),
              rs_adler = adler_update (adler_update a ?s) (take (left - ?n) (drop (off + ?n) raw)),
              rs_row = row', rs_column = col'\<rparr>) \<and> at_offset rb row' col' (off + ?n + (left - ?n))"
        using less.prems ls n(1) False by (intro less.IH [OF _ o]) simp_all
      then show ?thesis unfolding e t by (simp add: adler_update_append)
    qed
  qed
qed

section \<open>The stored stream\<close>

lemma length_block_text [simp]: "length (block_text f bs) = 5 + length bs"
  by (simp add: block_text_def)

lemma length_stored: "length (stored_stream bs) = length bs + 5 * ((length bs + BLOCK - 1) div BLOCK)"
proof (induction bs rule: stored_stream.induct)
  case (1 bs)
  show ?case
  proof (cases "bs = []")
    case False
    have l: "length (stored_stream bs) = 5 + min BLOCK (length bs) + length (stored_stream (drop BLOCK bs))"
      using False by (subst stored_stream.simps) (simp add: min.commute)
    show ?thesis
    proof (cases "length bs \<le> BLOCK")
      case True
      have "stored_stream [] = []" by (subst stored_stream.simps) simp
      moreover have "(length bs + BLOCK - 1) div BLOCK = 1"
        using True False by (intro div_nat_eqI) (auto simp: BLOCK_def Suc_le_eq)
      ultimately show ?thesis using True l by simp
    next
      case big: False
      have "(length bs + BLOCK - 1) div BLOCK = Suc ((length bs - BLOCK + BLOCK - 1) div BLOCK)"
      proof -
        have "length bs + BLOCK - 1 = (length bs - BLOCK + BLOCK - 1) + BLOCK" using big by linarith
        then show ?thesis using div_add_self2 [of BLOCK "length bs - BLOCK + BLOCK - 1"] by (simp add: BLOCK_def)
      qed
      then show ?thesis using l "1.IH" [OF False] big by simp
    qed
  qed (subst stored_stream.simps, simp add: BLOCK_def)
qed

lemma png_blocks_stored:
  assumes ok: "picture_ok pixels rb stride height" and raw: "raw = raw_text pixels rb stride height"
  shows "at_offset rb row col off \<Longrightarrow> off \<le> length raw \<Longrightarrow> start + length bs + length (stored_stream (drop off raw)) \<le> length out \<Longrightarrow>
    \<exists>row' col'. png_blocks pixels rb stride (length raw) off \<lparr>rs_sink = wrote out start bs, rs_adler = a, rs_row = row, rs_column = col\<rparr>
      = Some (Inr \<lparr>rs_sink = wrote out start (bs @ stored_stream (drop off raw)), rs_adler = adler_update a (drop off raw),
          rs_row = row', rs_column = col'\<rparr>)"
proof (induction "length raw - off" arbitrary: bs a row col off rule: less_induct)
  case less
  show ?case
  proof (cases "off < length raw")
    case False
    then have "stored_stream (drop off raw) = []" by (subst stored_stream.simps) simp
    then show ?thesis using False by (subst png_blocks.simps) simp
  next
    case True
    let ?run = "min BLOCK (length raw - off)"
    let ?part = "take ?run (drop off raw)"
    define final where "final \<longleftrightarrow> length (drop off raw) \<le> BLOCK"
    have run: "0 < ?run" "?run < 2 ^ 16" "off + ?run \<le> length raw" using True by (auto simp: BLOCK_def)
    have lp: "length ?part = ?run" by simp
    have tk: "take BLOCK (drop off raw) = ?part" by (simp add: min_def)
    have st: "stored_stream (drop off raw) = block_text final ?part @ stored_stream (drop (off + ?run) raw)"
    proof -
      have "stored_stream (drop BLOCK (drop off raw)) = stored_stream (drop (off + ?run) raw)"
        using True by (cases "length raw - off \<le> BLOCK") (simp_all add: add.commute min_def)
      then show ?thesis using True tk by (subst stored_stream.simps) (simp add: final_def)
    qed
    have fin: "off + ?run = length raw \<longleftrightarrow> final" using True by (auto simp: final_def min_def)
    let ?hd = "[if final then 1 else 0] @ rev (to_be16 (of_nat ?run)) @ rev (to_be16 (NOT (of_nat ?run)))"
    have room: "start + length bs + (5 + ?run) + length (stored_stream (drop (off + ?run) raw)) \<le> length out"
      using less.prems(3) unfolding st by (simp add: lp)
    have p1: "png_put (wrote out start bs) [if final then 1 else 0] = Inr (wrote out start (bs @ [if final then 1 else 0]))"
      using room by (intro wrote_put) simp
    have p2: "png_puts (wrote out start (bs @ [if final then 1 else 0])) [rev (to_be16 (of_nat ?run)), rev (to_be16 (NOT (of_nat ?run)))]
        = Inr (wrote out start (bs @ ?hd))"
      using room wrote_puts [of start "bs @ [if final then 1 else 0]" "[rev (to_be16 (of_nat ?run)), rev (to_be16 (NOT (of_nat ?run)))]" out]
      by simp
    have u: "u16_try_from ?run = Some (of_nat ?run)" using run(2) by (simp add: u16_try_from_def)
    have "start + length (bs @ ?hd) + ?run \<le> length out" using room by simp
    from png_run_copies [OF ok raw less.prems(1) run(3) this, of a]
    obtain row1 col1 where r: "png_run pixels rb stride ?run \<lparr>rs_sink = wrote out start (bs @ ?hd), rs_adler = a, rs_row = row, rs_column = col\<rparr>
        = Some (Inr \<lparr>rs_sink = wrote out start ((bs @ ?hd) @ ?part), rs_adler = adler_update a ?part, rs_row = row1, rs_column = col1\<rparr>)"
        "at_offset rb row1 col1 (off + ?run)" by blast
    have bt: "(bs @ ?hd) @ ?part = bs @ block_text final ?part" unfolding block_text_def lp by simp
    have e: "png_blocks pixels rb stride (length raw) off \<lparr>rs_sink = wrote out start bs, rs_adler = a, rs_row = row, rs_column = col\<rparr>
        = png_blocks pixels rb stride (length raw) (off + ?run) \<lparr>rs_sink = wrote out start (bs @ block_text final ?part),
            rs_adler = adler_update a ?part, rs_row = row1, rs_column = col1\<rparr>"
      using True p1 p2 u r(1) fin unfolding bt by (subst png_blocks.simps) (simp add: Let_def)
    have dr: "drop off raw = ?part @ drop (off + ?run) raw" by (metis append_take_drop_id drop_drop add.commute)
    have "\<exists>row' col'. png_blocks pixels rb stride (length raw) (off + ?run) \<lparr>rs_sink = wrote out start (bs @ block_text final ?part),
            rs_adler = adler_update a ?part, rs_row = row1, rs_column = col1\<rparr>
        = Some (Inr \<lparr>rs_sink = wrote out start ((bs @ block_text final ?part) @ stored_stream (drop (off + ?run) raw)),
            rs_adler = adler_update (adler_update a ?part) (drop (off + ?run) raw), rs_row = row', rs_column = col'\<rparr>)"
    proof (rule less.hyps [OF _ r(2)])
      show "length raw - (off + ?run) < length raw - off" using run(1,3) by linarith
    qed (use room run lp in simp_all)
    then show ?thesis unfolding e st by (subst (2) dr) (simp add: adler_update_append)
  qed
qed

section \<open>Chunks\<close>

lemma length_chunk_bytes [simp]: "length name = 4 \<Longrightarrow> length (chunk_bytes name body) = 12 + length body"
  by (simp add: chunk_bytes_def)

lemma png_chunk_ok:
  assumes "length body < 2 ^ 32" "length name = 4" "start + length bs + (12 + length body) \<le> length out"
  shows "png_chunk (wrote out start bs) name body = Inr (wrote out start (bs @ chunk_bytes name body))"
proof -
  have c: "crc32_finish (crc32_update (crc32_update crc32_new name) body) = crc32_ref (name @ body)"
    by (simp add: crc32_eq [symmetric] crc32_of_def crc32_update_append)
  have u: "u32_try_from (length body) = Some (of_nat (length body))" using assms(1) by (simp add: u32_try_from_def)
  show ?thesis
    unfolding png_chunk_def u option.case c
    using wrote_puts [of start bs "[to_be32 (of_nat (length body)), name, body, to_be32 (crc32_ref (name @ body))]" out] assms(2,3)
    by (simp add: chunk_bytes_def)
qed

lemma put_at_inner:
  assumes "start + length bs + length old + length rest \<le> length out" "length new = length old"
  shows "put_at (put_at out start (bs @ old @ rest)) (start + length bs) new = put_at out start (bs @ new @ rest)"
  using assms by (simp add: put_at_def)

lemma png_seal_ok:
  assumes body: "body = name @ content" "length name = 4" "length content < 2 ^ 32"
    and room: "start + length bs + (12 + length content) \<le> length out"
  shows "png_seal (wrote out start (bs @ [0, 0, 0, 0] @ body)) (start + length bs) (start + length bs + 4)
    = Inr (wrote out start (bs @ chunk_bytes name content))"
proof -
  let ?z = "[0, 0, 0, 0] :: bytes" and ?l = "to_be32 (of_nat (length content))"
  let ?o = "put_at out start (bs @ ?z @ body)" and ?pos = "start + length (bs @ ?z @ body)"
  have lb: "length body = 4 + length content" using body by simp
  have lo: "length ?o = length out" using room lb by simp
  have g: "get_range ?o (start + length bs + 4) ?pos = Some body"
  proof -
    have "take (length body) (drop (start + length bs + 4) ?o) = body" using room lb by (simp add: put_at_def)
    then show ?thesis using room lb lo by (simp add: get_range_def)
  qed
  have n: "?pos - (start + length bs + 4) - 4 = length content" using lb by simp
  have u: "u32_try_from (length content) = Some (of_nat (length content))" using body(3) by (simp add: u32_try_from_def)
  have i: "put_at ?o (start + length bs) ?l = put_at out start (bs @ ?l @ body)"
    using put_at_inner [of start bs ?z body out ?l] room lb by simp
  have w: "(put_at out start (bs @ ?l @ body), ?pos) = wrote out start (bs @ ?l @ body)" by (simp add: wrote_def)
  have "png_put (wrote out start (bs @ ?l @ body)) (to_be32 (crc32_of body)) = Inr (wrote out start ((bs @ ?l @ body) @ to_be32 (crc32_of body)))"
    using room lb by (intro wrote_put) simp
  then show ?thesis
    unfolding png_seal_def wrote_def [of out start "bs @ ?z @ body"] prod.case g option.case n u Let_def lo i w
    using room by (simp add: chunk_bytes_def crc32_eq [symmetric] crc32_of_def body(1))
qed

lemma length_zlib: "length (zlib bs) = 6 + length (stored_stream bs)"
  by (simp add: zlib_def)

lemma png_data_ok:
  assumes ok: "picture_ok pixels rb stride h" and rb: "rb = unat width * 4" "h = unat height"
    and raw: "raw = raw_text pixels rb stride h" "length (zlib raw) < 2 ^ 32"
    and room: "start + length bs + (12 + length (zlib raw)) \<le> length out"
  shows "png_data pixels width height stride (wrote out start bs) = Some (Inr (wrote out start (bs @ chunk_bytes IDAT (zlib raw))))"
proof -
  let ?z = "[0, 0, 0, 0] :: bytes" and ?a = "adler_finish (adler_update adler_new raw)"
  have l: "h * (1 + rb) = length raw" using length_raw_text [OF ok] raw(1) by simp
  have r: "start + length bs + (12 + 6 + length (stored_stream raw)) \<le> length out" using room by (simp add: length_zlib)
  have 1: "png_put (wrote out start bs) ?z = Inr (wrote out start (bs @ ?z))" using r by (intro wrote_put) simp
  have 2: "png_puts (wrote out start (bs @ ?z)) [IDAT, [0x78, 0x01]] = Inr (wrote out start (bs @ ?z @ IDAT @ [0x78, 0x01]))"
    using wrote_puts [of start "bs @ ?z" "[IDAT, [0x78, 0x01]]" out] r by (simp add: IDAT_def)
  have "at_offset rb 0 0 0" by (simp add: at_offset_def)
  from png_blocks_stored [OF ok raw(1) this, of start "bs @ ?z @ IDAT @ [0x78, 0x01]" out adler_new]
  obtain row col where 3: "png_blocks pixels rb stride (length raw) 0
        \<lparr>rs_sink = wrote out start (bs @ ?z @ IDAT @ [0x78, 0x01]), rs_adler = adler_new, rs_row = 0, rs_column = 0\<rparr>
      = Some (Inr \<lparr>rs_sink = wrote out start ((bs @ ?z @ IDAT @ [0x78, 0x01]) @ stored_stream raw), rs_adler = adler_update adler_new raw,
          rs_row = row, rs_column = col\<rparr>)"
    using r by (auto simp: IDAT_def)
  have 4: "png_put (wrote out start ((bs @ ?z @ IDAT @ [0x78, 0x01]) @ stored_stream raw)) (to_be32 ?a) = Inr (wrote out start (bs @ ?z @ IDAT @ zlib raw))"
    using wrote_put [of start "(bs @ ?z @ IDAT @ [0x78, 0x01]) @ stored_stream raw" "to_be32 ?a" out] r by (simp add: IDAT_def zlib_def adler_eq)
  have 5: "png_seal (wrote out start (bs @ ?z @ IDAT @ zlib raw)) (start + length bs) (start + length bs + 4)
      = Inr (wrote out start (bs @ chunk_bytes IDAT (zlib raw)))"
    using png_seal_ok [of "IDAT @ zlib raw" IDAT "zlib raw" start bs out] raw(2) room by (simp add: IDAT_def)
  have s: "snd (wrote out start bs) = start + length bs" "snd (wrote out start (bs @ ?z)) = start + length bs + 4"
    by (simp_all add: wrote_def)
  show ?thesis
    unfolding png_data_def PNG_CHANNELS_def rb(1) [symmetric] rb(2) [symmetric] l Let_def s 1 sum.case 2 3 option.case
      run_state.simps 4 5 ..
qed

lemma stored_inflates: "bs \<noteq> [] \<Longrightarrow> inflate (stored_stream bs) = Some bs"
proof (induction bs rule: stored_stream.induct)
  case (1 bs)
  let ?p = "take BLOCK bs" and ?n = "length (take BLOCK bs)"
  have n: "?n < 2 ^ 16" by (simp add: BLOCK_def min_def)
  have u: "unat (of_nat ?n :: u16) = ?n" using n by (rule unat_of_nat_16)
  have s: "stored_stream bs = block_text (length bs \<le> BLOCK) ?p @ stored_stream (drop BLOCK bs)" using 1 by (subst stored_stream.simps) simp
  have b: "block_text f ?p = (if f then 1 else 0) # ucast (of_nat ?n :: u16) # ucast (drop_bit 8 (of_nat ?n :: u16))
      # ucast (NOT (of_nat ?n :: u16)) # ucast (drop_bit 8 (NOT (of_nat ?n :: u16))) # ?p" for f
    by (simp add: block_text_def to_be16_def)
  show ?case
  proof (cases "length bs \<le> BLOCK")
    case True
    have "stored_stream [] = []" by (subst stored_stream.simps) simp
    then show ?thesis using True n u unfolding s b by (simp add: Let_def)
  next
    case False
    then have "drop BLOCK bs \<noteq> []" by simp
    then have "inflate (stored_stream (drop BLOCK bs)) = Some (drop BLOCK bs)" using "1.IH" "1.prems" by blast
    then show ?thesis using False n u unfolding s b by (simp add: Let_def)
  qed
qed

section \<open>Properties\<close>

lemma zlib_fits:
  assumes "length raw = unat height * (1 + unat width * 4)"
  shows "8 + 25 + (12 + length (zlib raw)) + 12 \<le> upper_bound width height"
proof -
  have "(length raw + BLOCK - 1) div BLOCK \<le> (length raw + BLOCK) div BLOCK" by (intro div_le_mono) simp
  also have "\<dots> = length raw div BLOCK + 1" by (simp add: BLOCK_def)
  finally show ?thesis
    unfolding upper_bound_def Let_def PNG_CHANNELS_def assms [symmetric] by (simp add: length_zlib length_stored)
qed

text \<open>C35: The picture writer writes the file the format prescribes. For a picture of at least one pixel whose
  rows lie inside the pixel buffer, at any stride, and a buffer of the announced upper bound, the encoder
  ends, succeeds within that bound and writes the signature, the header, one data chunk and the end chunk
  with their lengths and checksums; and a reader of stored deflate streams gets back every row, each
  behind its filter byte, however the rows straddle the block boundaries.\<close>
theorem png_writes_file:
  assumes "0 < width" "0 < height" "\<forall>row < unat height. row * stride + unat width * 4 \<le> length pixels"
    and "upper_bound width height \<le> length out" "upper_bound width height < 2 ^ 32"
  shows "\<exists>out' n. png_encode pixels width height stride out = Some (Inr (out', n)) \<and> n \<le> upper_bound width height
    \<and> take n out' = png_file pixels width height stride
    \<and> inflate (stored_stream (raw_text pixels (unat width * 4) stride (unat height)))
        = Some (raw_text pixels (unat width * 4) stride (unat height))"
proof -
  let ?rb = "unat width * 4" and ?h = "unat height"
  let ?raw = "raw_text pixels ?rb stride ?h" and ?ih = "to_be32 width @ to_be32 height @ [8, 6, 0, 0, 0]"
  have ok: "picture_ok pixels ?rb stride ?h" using assms(1,3) by (simp add: picture_ok_def unat_gt_0)
  have len: "length ?raw = ?h * (1 + ?rb)" using length_raw_text [OF ok] by simp
  have room: "8 + 25 + (12 + length (zlib ?raw)) + 12 \<le> length out" using zlib_fits [OF len] assms(4) by simp
  have z: "length (zlib ?raw) < 2 ^ 32" using zlib_fits [OF len] assms(5) by simp
  have l4: "length IHDR = 4" "length IDAT = 4" "length IEND = 4" "length SIGNATURE = 8"
    by (simp_all add: IHDR_def IDAT_def IEND_def SIGNATURE_def)
  let ?A = "SIGNATURE @ chunk_bytes IHDR ?ih" and ?B = "SIGNATURE @ chunk_bytes IHDR ?ih @ chunk_bytes IDAT (zlib ?raw)"
  have 1: "png_put (out, 0) SIGNATURE = Inr (wrote out 0 SIGNATURE)"
    using wrote_put [of 0 "[]" SIGNATURE out] wrote_Nil [of 0 out] room l4 by simp
  have 2: "png_chunk (wrote out 0 SIGNATURE) IHDR ?ih = Inr (wrote out 0 ?A)"
    using room l4 by (intro png_chunk_ok) simp_all
  have 3: "png_data pixels width height stride (wrote out 0 ?A) = Some (Inr (wrote out 0 ?B))"
    using png_data_ok [OF ok refl refl refl z, of 0 ?A out] room l4 by simp
  have 4: "png_chunk (wrote out 0 ?B) IEND [] = Inr (wrote out 0 (png_file pixels width height stride))"
    using png_chunk_ok [of "[]" IEND 0 ?B out] room l4 by (simp add: png_file_def)
  have e: "png_encode pixels width height stride out = Some (Inr (wrote out 0 (png_file pixels width height stride)))"
    using assms(1,2) 1 2 3 4 by (auto simp: png_encode_def Let_def)
  have n: "length (png_file pixels width height stride) \<le> upper_bound width height"
    using zlib_fits [OF len] l4 by (simp add: png_file_def)
  have "0 < length ?raw" using len assms(2) by (simp add: unat_gt_0)
  then have "inflate (stored_stream ?raw) = Some ?raw" by (intro stored_inflates) simp
  then show ?thesis using e n put_at_prefix [of "png_file pixels width height stride" out] assms(4)
    by (simp add: wrote_def)
qed

theorem png_writes_file_witness:
  "\<exists>out' n. png_encode [1, 2, 3, 4, 0, 5, 6, 7, 8] 1 2 5 (replicate 200 0) = Some (Inr (out', n))
    \<and> take n out' = png_file [1, 2, 3, 4, 0, 5, 6, 7, 8] 1 2 5
    \<and> inflate (stored_stream [0, 1, 2, 3, 4, 0, 5, 6, 7, 8]) = Some [0, 1, 2, 3, 4, 0, 5, 6, 7, 8]"
proof -
  have r: "\<forall>row < unat (2 :: u32). row * 5 + unat (1 :: u32) * 4 \<le> length ([1, 2, 3, 4, 0, 5, 6, 7, 8] :: bytes)" by auto
  have "raw_text [1, 2, 3, 4, 0, 5, 6, 7, 8] (unat (1 :: u32) * 4) 5 (unat (2 :: u32)) = [0, 1, 2, 3, 4, 0, 5, 6, 7, 8]"
    by (simp add: raw_text_def row_text_def upt_rec)
  then show ?thesis
    using png_writes_file [of 1 2 5 "[1, 2, 3, 4, 0, 5, 6, 7, 8]" "replicate 200 0"] r
    by (auto simp: upper_bound_def PNG_CHANNELS_def BLOCK_def)
qed

end
