(* ===== verification/Counter_Window.thy ===== *)
theory Counter_Window
  imports Core_Base
begin

text \<open>
  A window of 64 counters kept as a bitmap below the largest one: bit \<open>i\<close> stands for the counter \<open>i\<close>
  below it. The replay window of a portable session and the receive window of the transport
  acknowledgements keep their bitmaps in the same way; the lemmas here relate each update of the bitmap
  to the set of counters seen.
\<close>

definition window_holds :: "nat set \<Rightarrow> nat \<Rightarrow> u64 \<Rightarrow> bool" where
  "window_holds R h w \<longleftrightarrow> (\<forall>x \<in> R. x \<le> h) \<and> (\<forall>i < 64. bit w i \<longleftrightarrow> i \<le> h \<and> h - i \<in> R)"

lemma bit_one_u64: "bit (1 :: u64) n \<longleftrightarrow> n = 0"
  by (simp add: bit_1_iff)

lemma bit_push_bit_u64: "bit (push_bit d w :: u64) n \<longleftrightarrow> d \<le> n \<and> n < 64 \<and> bit w (n - d)"
  by (auto simp: bit_simps)

lemma bit_exp_u64: "bit (2 ^ d :: u64) n \<longleftrightarrow> n = d \<and> d < 64"
  by (auto simp: bit_exp_iff)

lemma bit_high_u64: "64 \<le> n \<Longrightarrow> \<not> bit (w :: u64) n"
  using bit_imp_le_length [of w n] by auto

lemma and_push_bit_eq_0_u64: "d < 64 \<Longrightarrow> (w :: u64) AND push_bit d 1 = 0 \<longleftrightarrow> \<not> bit w d"
  unfolding and_single_bit using bit_exp_u64 [of d d] by (auto simp: push_bit_of_1)

lemma window_first: "window_holds {h} h 1"
  by (auto simp: window_holds_def bit_one_u64)

lemma window_bounds: "window_holds R h w \<Longrightarrow> x \<in> R \<Longrightarrow> x \<le> h"
  by (simp add: window_holds_def)

lemma window_bit: "window_holds R h w \<Longrightarrow> c \<le> h \<Longrightarrow> h - c < 64 \<Longrightarrow> bit w (h - c) \<longleftrightarrow> c \<in> R"
  by (simp add: window_holds_def)

lemma window_jump:
  assumes "window_holds R h w" "h < c" "64 \<le> c - h"
  shows "window_holds (insert c R) c 1"
proof -
  have "x < c" if "x \<in> R" for x using that assms(1,2) window_bounds by fastforce
  moreover have "c - i \<notin> R" if "i < 64" for i using that assms window_bounds [of R h w "c - i"] by fastforce
  moreover have "c - i = c \<longleftrightarrow> i = 0" if "i \<le> c" for i using that by auto
  ultimately show ?thesis by (auto simp: window_holds_def bit_one_u64 less_imp_le)
qed

lemma window_shift:
  assumes "window_holds R h w" "h < c" "c - h < 64"
  shows "window_holds (insert c R) c (push_bit (c - h) w OR 1)"
proof -
  have above: "x < c" if "x \<in> R" for x using that assms(1,2) window_bounds by fastforce
  have "bit (push_bit (c - h) w OR 1) i \<longleftrightarrow> i \<le> c \<and> c - i \<in> insert c R" if i: "i < 64" for i
  proof (cases "c - h \<le> i")
    case True
    then have e: "c - i = h - (i - (c - h))" "i \<le> c \<longleftrightarrow> i - (c - h) \<le> h" using assms(2) by auto
    have "bit w (i - (c - h)) \<longleftrightarrow> i - (c - h) \<le> h \<and> h - (i - (c - h)) \<in> R"
      using assms(1) i by (simp add: window_holds_def)
    moreover have "i \<noteq> 0" using True assms(2) by simp
    moreover have "i \<le> c \<Longrightarrow> c - i \<noteq> c" using \<open>i \<noteq> 0\<close> by arith
    ultimately show ?thesis using True i e by (auto simp: bit_or_iff bit_push_bit_u64 bit_one_u64)
  next
    case False
    then have "c - i \<notin> R" using assms(1,2) window_bounds [of R h w "c - i"] by fastforce
    moreover have "i \<le> c" "c - i = c \<longleftrightarrow> i = 0" using False by auto
    ultimately show ?thesis using False by (auto simp: bit_or_iff bit_push_bit_u64 bit_one_u64)
  qed
  then show ?thesis using above by (auto simp: window_holds_def less_imp_le)
qed

lemma window_mark:
  assumes "window_holds R h w" "c \<le> h" "h - c < 64"
  shows "window_holds (insert c R) h (w OR push_bit (h - c) 1)"
proof -
  have "bit (w OR push_bit (h - c) 1) i \<longleftrightarrow> i \<le> h \<and> h - i \<in> insert c R" if "i < 64" for i
  proof -
    have "i = h - c \<longleftrightarrow> i \<le> h \<and> h - i = c" using assms(2) by auto
    then show ?thesis using that assms(1,3)
      by (auto simp: window_holds_def bit_or_iff bit_exp_u64)
  qed
  then show ?thesis using assms(1,2) by (auto simp: window_holds_def)
qed

lemma window_old:
  assumes "window_holds R h w" "c \<le> h" "64 \<le> h - c"
  shows "window_holds (insert c R) h w"
  using assms by (auto simp: window_holds_def)

text \<open>The distance of two counters, as the code computes it on 64-bit words.\<close>

lemma unat_u64_diff: "b \<le> a \<Longrightarrow> unat (a - b :: u64) = unat a - unat b"
  by (simp add: unat_sub)

lemma u64_le_unat: "(a :: u64) \<le> b \<longleftrightarrow> unat a \<le> unat b" "a < b \<longleftrightarrow> unat a < unat b"
  by (simp_all add: word_le_nat_alt word_less_nat_alt)

end
