(* ===== verification/Os_Session.thy ===== *)
theory Os_Session
  imports Counter_Window
begin

text \<open>
  The portable datagram session (\<open>protocol/src/lib.rs\<close>): the key exchange that gives each direction its
  own key, the transcripts an identity key signs, the sealed datagram format and the replay window.
  X25519, SHA-256 and AES-256-GCM come from libraries and are parameters of the definitions.
\<close>

section \<open>Constants\<close>

definition OS_MAX_DATAGRAM :: nat where "OS_MAX_DATAGRAM = 1200"
definition OS_HEADER_LEN :: nat where "OS_HEADER_LEN = 16"
definition OS_TAG_LEN :: nat where "OS_TAG_LEN = 16"
definition OS_MAX_PLAINTEXT :: nat where "OS_MAX_PLAINTEXT = OS_MAX_DATAGRAM - OS_HEADER_LEN - OS_TAG_LEN"
definition REPLAY_WINDOW_BITS :: nat where "REPLAY_WINDOW_BITS = 64"
definition OS_MAGIC :: bytes where "OS_MAGIC = [0x4F, 0x53]"
definition OS_VERSION :: byte where "OS_VERSION = 1"

lemmas os_consts = OS_MAX_DATAGRAM_def OS_HEADER_LEN_def OS_TAG_LEN_def OS_MAX_PLAINTEXT_def
  REPLAY_WINDOW_BITS_def OS_MAGIC_def OS_VERSION_def

datatype os_error =
    OsShortDatagram | OsBadMagic | OsUnsupportedVersion byte | OsUnknownKind byte | OsBadLength
  | OsTooLarge | OsCounterOverflow | OsAuthenticationFailed | OsWeakPublicKey

datatype os_kind = KControl | KVideo | KAudio | KInput

definition kind_code :: "os_kind \<Rightarrow> byte" where
  "kind_code k = (case k of KControl \<Rightarrow> 1 | KVideo \<Rightarrow> 2 | KAudio \<Rightarrow> 3 | KInput \<Rightarrow> 4)"

definition kind_try_from :: "byte \<Rightarrow> os_error + os_kind" where
  "kind_try_from b = (if b = 1 then Inr KControl else if b = 2 then Inr KVideo
     else if b = 3 then Inr KAudio else if b = 4 then Inr KInput else Inl (OsUnknownKind b))"

lemma kind_code_roundtrip [simp]: "kind_try_from (kind_code k) = Inr k"
  by (cases k) (simp_all add: kind_code_def kind_try_from_def)

section \<open>Key exchange\<close>

text \<open>\<open>label(s)\<close> of a Rust byte string literal.\<close>

definition text_bytes :: "string \<Rightarrow> bytes" where
  "text_bytes s = map of_char s"

text \<open>X25519 and SHA-256: the public half of a secret, the shared secret and the digest.\<close>

record x_suite =
  xs_public :: "bytes \<Rightarrow> bytes"
  xs_shared :: "bytes \<Rightarrow> bytes \<Rightarrow> bytes"
  xs_sha256 :: "bytes \<Rightarrow> bytes"

text \<open>What X25519 documents: both sides compute the same 32-byte secret from 32-byte keys.\<close>

definition x_ok :: "x_suite \<Rightarrow> bool" where
  "x_ok X \<longleftrightarrow> (\<forall>a b. xs_shared X a (xs_public X b) = xs_shared X b (xs_public X a))
     \<and> (\<forall>a. length (xs_public X a) = 32) \<and> (\<forall>a p. length (xs_shared X a p) = 32)"

record key_exchange =
  kx_secret :: bytes
  kx_public :: bytes

definition kx_of :: "x_suite \<Rightarrow> bytes \<Rightarrow> key_exchange" where
  "kx_of X secret = \<lparr>kx_secret = secret, kx_public = xs_public X secret\<rparr>"

record directional_keys =
  dk_tx :: bytes
  dk_rx :: bytes

text \<open>\<open>[u8; 32]\<close> compares lexicographically.\<close>

fun bytes_le :: "bytes \<Rightarrow> bytes \<Rightarrow> bool" where
  "bytes_le [] ys = True"
| "bytes_le (x # xs) [] = False"
| "bytes_le (x # xs) (y # ys) = (x < y \<or> x = y \<and> bytes_le xs ys)"

definition kdf_input :: "bytes \<Rightarrow> bytes \<Rightarrow> bytes \<Rightarrow> bytes \<Rightarrow> bytes" where
  "kdf_input label shared low high = label @ [0] @ shared @ low @ high"

definition kdf_label :: "x_suite \<Rightarrow> bytes \<Rightarrow> bytes \<Rightarrow> bytes \<Rightarrow> bytes \<Rightarrow> bytes" where
  "kdf_label X label shared low high = xs_sha256 X (kdf_input label shared low high)"

definition LG_LABEL :: bytes where
  "LG_LABEL = text_bytes ''OpenStream X25519 AES-256-GCM v2 lesser-to-greater'' @ [0]"

definition GL_LABEL :: bytes where
  "GL_LABEL = text_bytes ''OpenStream X25519 AES-256-GCM v2 greater-to-lesser'' @ [0]"

definition with_session :: "bytes \<Rightarrow> bytes option \<Rightarrow> bytes" where
  "with_session label sid = (case sid of Some i \<Rightarrow> label @ i | None \<Rightarrow> label)"

definition derive_keys_inner :: "x_suite \<Rightarrow> key_exchange \<Rightarrow> bytes \<Rightarrow> bytes option \<Rightarrow> os_error + directional_keys" where
  "derive_keys_inner X kx peer sid =
     (if peer = replicate 32 0 then Inl OsWeakPublicKey
      else let shared = xs_shared X (kx_secret kx) peer in
        if shared = replicate 32 0 then Inl OsWeakPublicKey
        else let own = kx_public kx;
                 (low, high) = (if bytes_le own peer then (own, peer) else (peer, own));
                 key_lg = kdf_label X (with_session LG_LABEL sid) shared low high;
                 key_gl = kdf_label X (with_session GL_LABEL sid) shared low high
             in Inr (if bytes_le own peer then \<lparr>dk_tx = key_lg, dk_rx = key_gl\<rparr>
                     else \<lparr>dk_tx = key_gl, dk_rx = key_lg\<rparr>))"

definition derive_keys :: "x_suite \<Rightarrow> key_exchange \<Rightarrow> bytes \<Rightarrow> os_error + directional_keys" where
  "derive_keys X kx peer = derive_keys_inner X kx peer None"

definition derive_session_keys :: "x_suite \<Rightarrow> key_exchange \<Rightarrow> bytes \<Rightarrow> bytes \<Rightarrow> os_error + directional_keys" where
  "derive_session_keys X kx peer sid = derive_keys_inner X kx peer (Some sid)"

definition hex_digit :: "byte \<Rightarrow> char" where
  "hex_digit n = (char_of (if n < 10 then 48 + unat n else 87 + unat n :: nat))"

definition os_fingerprint :: "x_suite \<Rightarrow> bytes \<Rightarrow> string" where
  "os_fingerprint X public =
     concat (map (\<lambda>b. [hex_digit (drop_bit 4 b), hex_digit (b AND 0x0F)])
       (xs_sha256 X (text_bytes ''OpenStream X25519 fingerprint v1'' @ [0] @ public)))"

section \<open>Signed transcripts\<close>

definition len_prefix :: "bytes \<Rightarrow> bytes" where
  "len_prefix s = to_be32 (case u32_try_from (length s) of Some n \<Rightarrow> n | None \<Rightarrow> - 1)"

definition HANDSHAKE_LABEL :: bytes where
  "HANDSHAKE_LABEL = text_bytes ''OpenStream identity handshake v1'' @ [0]"

definition DEVICE_LABEL :: bytes where
  "DEVICE_LABEL = text_bytes ''OpenStream device authentication'' @ [0]"

definition key_exchange_transcript :: "bytes \<Rightarrow> byte \<Rightarrow> bytes \<Rightarrow> bytes" where
  "key_exchange_transcript session_id role ephemeral =
     HANDSHAKE_LABEL @ len_prefix session_id @ session_id @ [role] @ ephemeral"

definition device_auth_transcript :: "bytes \<Rightarrow> bytes \<Rightarrow> u64 \<Rightarrow> bytes \<Rightarrow> bytes" where
  "device_auth_transcript account_id device_id issued_at_ms nonce =
     DEVICE_LABEL @ concat (map (\<lambda>i. len_prefix i @ i) [account_id, device_id]) @ to_be64 issued_at_ms @ nonce"

section \<open>The session\<close>

text \<open>AES-256-GCM with associated data, under a key and a nonce.\<close>

record os_aead =
  oa_encrypt :: "bytes \<Rightarrow> bytes \<Rightarrow> bytes \<Rightarrow> bytes \<Rightarrow> (bytes \<times> bytes) option"
  oa_decrypt :: "bytes \<Rightarrow> bytes \<Rightarrow> bytes \<Rightarrow> bytes \<Rightarrow> bytes \<Rightarrow> bytes option"

definition os_aead_ok :: "os_aead \<Rightarrow> bool" where
  "os_aead_ok A \<longleftrightarrow>
     (\<forall>k n h p. length p \<le> OS_MAX_DATAGRAM \<longrightarrow> oa_encrypt A k n h p \<noteq> None)
   \<and> (\<forall>k n h p ct t. oa_encrypt A k n h p = Some (ct, t) \<longrightarrow> length ct = length p \<and> length t = OS_TAG_LEN)
   \<and> (\<forall>k n h ct t p. length t = OS_TAG_LEN \<longrightarrow>
        oa_decrypt A k n h ct t = Some p \<longleftrightarrow> oa_encrypt A k n h p = Some (ct, t))"

record os_packet =
  opk_kind :: os_kind
  opk_channel :: byte
  opk_flags :: byte
  opk_counter :: u64
  opk_payload :: bytes

record os_session =
  os_tx_key :: bytes
  os_rx_key :: bytes
  os_next_tx :: u64
  os_highest_rx :: "u64 option"
  os_window :: u64

definition os_new :: "bytes \<Rightarrow> bytes \<Rightarrow> os_session" where
  "os_new tx rx = \<lparr>os_tx_key = tx, os_rx_key = rx, os_next_tx = 0, os_highest_rx = None, os_window = 0\<rparr>"

definition os_nonce :: "u64 \<Rightarrow> bytes" where
  "os_nonce counter = replicate 4 0 @ to_be64 counter"

definition os_header :: "os_kind \<Rightarrow> byte \<Rightarrow> byte \<Rightarrow> u64 \<Rightarrow> u16 \<Rightarrow> bytes" where
  "os_header kind channel flags counter len =
     OS_MAGIC @ [OS_VERSION, kind_code kind, channel, flags] @ to_be64 counter @ to_be16 len"

definition seal_inner :: "os_aead \<Rightarrow> os_session \<Rightarrow> os_kind \<Rightarrow> byte \<Rightarrow> byte \<Rightarrow> bytes \<Rightarrow>
    os_session \<times> (os_error + (u64 \<times> bytes))" where
  "seal_inner A s kind channel flags payload =
     (if OS_MAX_PLAINTEXT < length payload then (s, Inl OsTooLarge)
      else case chk_add (os_next_tx s) 1 of None \<Rightarrow> (s, Inl OsCounterOverflow)
      | Some n \<Rightarrow>
          let counter = os_next_tx s; s = s\<lparr>os_next_tx := n\<rparr> in
          case u16_try_from (length payload) of None \<Rightarrow> (s, Inl OsTooLarge)
          | Some len \<Rightarrow>
              let header = os_header kind channel flags counter len in
              case oa_encrypt A (os_tx_key s) (os_nonce counter) header payload of
                None \<Rightarrow> (s, Inl OsAuthenticationFailed)
              | Some (ct, tag) \<Rightarrow> (s, Inr (counter, header @ ct @ tag)))"

definition os_seal :: "os_aead \<Rightarrow> os_session \<Rightarrow> os_kind \<Rightarrow> byte \<Rightarrow> byte \<Rightarrow> bytes \<Rightarrow>
    os_session \<times> (os_error + bytes)" where
  "os_seal A s kind channel flags payload = (case seal_inner A s kind channel flags payload of
     (s, Inl e) \<Rightarrow> (s, Inl e) | (s, Inr (_, datagram)) \<Rightarrow> (s, Inr datagram))"

definition is_replay :: "os_session \<Rightarrow> u64 \<Rightarrow> bool" where
  "is_replay s counter = (case os_highest_rx s of None \<Rightarrow> False
   | Some highest \<Rightarrow>
       if highest < counter then False
       else let distance = unat (highest - counter) in
         REPLAY_WINDOW_BITS \<le> distance \<or> os_window s AND push_bit distance 1 \<noteq> 0)"

definition accept_counter :: "os_session \<Rightarrow> u64 \<Rightarrow> os_session" where
  "accept_counter s counter = (case os_highest_rx s of
     None \<Rightarrow> s\<lparr>os_highest_rx := Some counter, os_window := 1\<rparr>
   | Some highest \<Rightarrow>
       if highest < counter then
         let distance = unat (counter - highest) in
         s\<lparr>os_window := (if REPLAY_WINDOW_BITS \<le> distance then 1 else push_bit distance (os_window s) OR 1),
           os_highest_rx := Some counter\<rparr>
       else s\<lparr>os_window := os_window s OR push_bit (unat (highest - counter)) 1\<rparr>)"

definition os_open :: "os_aead \<Rightarrow> os_session \<Rightarrow> bytes \<Rightarrow> os_session \<times> (os_error + os_packet)" where
  "os_open A s datagram =
     (if length datagram < OS_HEADER_LEN + OS_TAG_LEN then (s, Inl OsShortDatagram)
      else if take 2 datagram \<noteq> OS_MAGIC then (s, Inl OsBadMagic)
      else if datagram ! 2 \<noteq> OS_VERSION then (s, Inl (OsUnsupportedVersion (datagram ! 2)))
      else case kind_try_from (datagram ! 3) of Inl e \<Rightarrow> (s, Inl e)
      | Inr kind \<Rightarrow>
          let counter = of_be64 (take 8 (drop 6 datagram));
              payload_len = unat (of_be16 (datagram ! 14) (datagram ! 15)) in
          if OS_MAX_PLAINTEXT < payload_len \<or> length datagram \<noteq> OS_HEADER_LEN + payload_len + OS_TAG_LEN
          then (s, Inl OsBadLength)
          else if is_replay s counter then (s, Inl OsAuthenticationFailed)
          else case oa_decrypt A (os_rx_key s) (os_nonce counter) (take OS_HEADER_LEN datagram)
              (take payload_len (drop OS_HEADER_LEN datagram)) (drop (OS_HEADER_LEN + payload_len) datagram) of
            None \<Rightarrow> (s, Inl OsAuthenticationFailed)
          | Some payload \<Rightarrow> (accept_counter s counter,
              Inr \<lparr>opk_kind = kind, opk_channel = datagram ! 4, opk_flags = datagram ! 5, opk_counter = counter,
                   opk_payload = payload\<rparr>))"

section \<open>Direction keys\<close>

lemma bytes_le_antisym: "bytes_le xs ys \<Longrightarrow> bytes_le ys xs \<Longrightarrow> length xs = length ys \<Longrightarrow> xs = ys"
  by (induction xs ys rule: bytes_le.induct) (auto dest: order.asym)

lemma bytes_le_linear: "length xs = length ys \<Longrightarrow> bytes_le xs ys \<or> bytes_le ys xs"
proof (induction xs ys rule: bytes_le.induct)
  case (3 x xs y ys)
  then show ?case using linorder_less_linear [of x y] by auto
qed auto

lemma labels_differ: "length LG_LABEL = length GL_LABEL" "LG_LABEL \<noteq> GL_LABEL"
  by (simp_all add: LG_LABEL_def GL_LABEL_def text_bytes_def)

lemma kdf_input_inj:
  assumes "kdf_input l s a b = kdf_input l' s' a' b'"
    and "length s = 32" "length a = 32" "length b = 32" "length s' = 32" "length a' = 32" "length b' = 32"
  shows "l = l' \<and> s = s' \<and> a = a' \<and> b = b'"
proof -
  have "length l + 97 = length l' + 97" using arg_cong [OF assms(1), of length] assms(2-) by (simp add: kdf_input_def)
  then show ?thesis using assms by (auto simp: kdf_input_def)
qed

definition sid_bytes :: "bytes option \<Rightarrow> bytes" where
  "sid_bytes sid = (case sid of Some i \<Rightarrow> i | None \<Rightarrow> [])"

lemma with_session_inj:
  "with_session l sid = with_session l' sid' \<Longrightarrow> length l = length l' \<Longrightarrow> l = l' \<and> sid_bytes sid = sid_bytes sid'"
  by (auto simp: with_session_def sid_bytes_def split: option.splits)

text \<open>What the key of one direction of an exchange is the digest of, from the side that owns \<open>own\<close>.\<close>

definition dir_input :: "bool \<Rightarrow> bytes \<Rightarrow> bytes \<Rightarrow> bytes \<Rightarrow> bytes option \<Rightarrow> bytes" where
  "dir_input up shared own peer sid =
     kdf_input (with_session (if up = bytes_le own peer then LG_LABEL else GL_LABEL) sid) shared
       (if bytes_le own peer then own else peer) (if bytes_le own peer then peer else own)"

definition dir_key :: "x_suite \<Rightarrow> bool \<Rightarrow> bytes \<Rightarrow> bytes \<Rightarrow> bytes \<Rightarrow> bytes option \<Rightarrow> bytes" where
  "dir_key X up shared own peer sid = xs_sha256 X (dir_input up shared own peer sid)"

lemma derive_dir_keys:
  "derive_keys_inner X kx peer sid = Inr k \<longleftrightarrow>
     peer \<noteq> replicate 32 0 \<and> xs_shared X (kx_secret kx) peer \<noteq> replicate 32 0 \<and>
     k = \<lparr>dk_tx = dir_key X True (xs_shared X (kx_secret kx) peer) (kx_public kx) peer sid,
          dk_rx = dir_key X False (xs_shared X (kx_secret kx) peer) (kx_public kx) peer sid\<rparr>"
  by (cases "bytes_le (kx_public kx) peer") (auto simp: derive_keys_inner_def Let_def dir_key_def dir_input_def kdf_label_def)

lemma dir_key_swap:
  "bytes_le b a \<longleftrightarrow> \<not> bytes_le a b \<Longrightarrow> dir_key X up s b a sid = dir_key X (\<not> up) s a b sid"
  by (cases "bytes_le a b") (auto simp: dir_key_def dir_input_def)

lemma dir_input_inj:
  assumes "dir_input up s a b sid = dir_input up' s a b sid'" "length s = 32" "length a = 32" "length b = 32"
  shows "up = up' \<and> sid_bytes sid = sid_bytes sid'"
proof -
  have "with_session (if up = bytes_le a b then LG_LABEL else GL_LABEL) sid
      = with_session (if up' = bytes_le a b then LG_LABEL else GL_LABEL) sid'"
    using kdf_input_inj [OF assms(1) [unfolded dir_input_def]] assms(2-4) by auto
  from with_session_inj [OF this] have "(if up = bytes_le a b then LG_LABEL else GL_LABEL)
      = (if up' = bytes_le a b then LG_LABEL else GL_LABEL) \<and> sid_bytes sid = sid_bytes sid'"
    using labels_differ by simp
  then show ?thesis using labels_differ by (auto split: if_splits)
qed

text \<open>
  C26: The two ends of a key exchange get mirrored keys and neither direction shares a key. When one end
  derives keys from the other's public key, the other end derives the same two keys with sending and
  receiving swapped, the two directions use different keys, and no key is shared with another session
  identifier, unless the digest collides on two of the four strings it is applied to.
\<close>

theorem os_keys_mirrored:
  assumes "x_ok X" "xs_public X a \<noteq> xs_public X b" "xs_public X a \<noteq> replicate 32 0"
    and "derive_keys_inner X (kx_of X a) (xs_public X b) sid = Inr ka"
    and "inj_on (xs_sha256 X) {dir_input up (xs_shared X a (xs_public X b)) (xs_public X a) (xs_public X b) s | up s. s \<in> {sid, sid'}}"
  shows "(\<exists>kb. derive_keys_inner X (kx_of X b) (xs_public X a) sid = Inr kb
        \<and> dk_tx kb = dk_rx ka \<and> dk_rx kb = dk_tx ka) \<and> dk_tx ka \<noteq> dk_rx ka
      \<and> (sid_bytes sid' \<noteq> sid_bytes sid \<longrightarrow> derive_keys_inner X (kx_of X a) (xs_public X b) sid' = Inr kc \<longrightarrow>
           {dk_tx kc, dk_rx kc} \<inter> {dk_tx ka, dk_rx ka} = {})"
proof -
  have len: "length (xs_public X p) = 32" "length (xs_shared X p q) = 32" for p q using assms(1) by (auto simp: x_ok_def)
  have sym: "xs_shared X b (xs_public X a) = xs_shared X a (xs_public X b)" using assms(1) unfolding x_ok_def by metis
  have order: "bytes_le (xs_public X b) (xs_public X a) \<longleftrightarrow> \<not> bytes_le (xs_public X a) (xs_public X b)"
    using bytes_le_antisym bytes_le_linear assms(2) len(1) by metis
  let ?key = "\<lambda>up s. dir_key X up (xs_shared X a (xs_public X b)) (xs_public X a) (xs_public X b) s"
  have inj: "up = up' \<and> sid_bytes s = sid_bytes s'" if "?key up s = ?key up' s'" "s \<in> {sid, sid'}" "s' \<in> {sid, sid'}" for up up' s s'
    using inj_onD [OF assms(5) that(1) [unfolded dir_key_def]] that(2,3) dir_input_inj [OF _ len(2) len(1) len(1)] by blast
  have ka: "xs_shared X a (xs_public X b) \<noteq> replicate 32 0" "ka = \<lparr>dk_tx = ?key True sid, dk_rx = ?key False sid\<rparr>"
    using assms(4) by (simp_all add: derive_dir_keys kx_of_def)
  have "derive_keys_inner X (kx_of X b) (xs_public X a) sid = Inr \<lparr>dk_tx = dk_rx ka, dk_rx = dk_tx ka\<rparr>"
    using assms(3) ka sym dir_key_swap [OF order] by (simp add: derive_dir_keys kx_of_def)
  moreover have "dk_tx ka \<noteq> dk_rx ka" using inj [of True sid False sid] by (auto simp: ka(2))
  moreover have "{dk_tx kc, dk_rx kc} \<inter> {dk_tx ka, dk_rx ka} = {}"
    if d: "sid_bytes sid' \<noteq> sid_bytes sid" "derive_keys_inner X (kx_of X a) (xs_public X b) sid' = Inr kc"
  proof -
    have "kc = \<lparr>dk_tx = ?key True sid', dk_rx = ?key False sid'\<rparr>"
      using d(2) by (simp add: derive_dir_keys kx_of_def)
    moreover have "?key up sid' \<noteq> ?key up' sid" for up up' using inj d(1) by blast
    ultimately show ?thesis by (simp add: ka(2))
  qed
  ultimately show ?thesis by fastforce
qed

section \<open>Transcripts\<close>

lemma len_prefix_length [simp]: "length (len_prefix s) = 4"
  by (simp add: len_prefix_def)

lemma to_be32_inj: "to_be32 a = to_be32 b \<longleftrightarrow> a = b"
proof -
  have "of_be32 (to_be32 x ! 0) (to_be32 x ! 1) (to_be32 x ! 2) (to_be32 x ! 3) = x" for x by (simp add: to_be32_def)
  then show ?thesis by metis
qed

lemma len_prefix_inj:
  assumes "len_prefix s @ s @ r = len_prefix t @ t @ q" "length s < 2 ^ 32" "length t < 2 ^ 32"
  shows "s = t \<and> r = q"
proof -
  have "len_prefix s = len_prefix t" "s @ r = t @ q" using assms(1) by simp_all
  then have "(of_nat (length s) :: u32) = of_nat (length t)"
    using assms(2,3) by (simp add: len_prefix_def u32_try_from_def to_be32_inj)
  then have "length s = length t" using assms(2,3) unat_of_nat_32 by metis
  then show ?thesis using \<open>s @ r = t @ q\<close> by simp
qed

lemma transcript_labels:
  "length HANDSHAKE_LABEL = length DEVICE_LABEL" "HANDSHAKE_LABEL \<noteq> DEVICE_LABEL"
  by (simp_all add: HANDSHAKE_LABEL_def DEVICE_LABEL_def text_bytes_def)

text \<open>
  What an identity key signs names one thing: a handshake transcript determines the session, role and
  ephemeral key, a device proof the account, device, time and nonce, and neither can stand for the other.
\<close>

lemma os_transcripts_separate:
  assumes "length e = 32" "length e' = 32" "length n = 16" "length n' = 16"
    and "length acc < 2 ^ 32" "length acc' < 2 ^ 32" "length dev < 2 ^ 32" "length dev' < 2 ^ 32"
  shows "key_exchange_transcript sid role e = key_exchange_transcript sid' role' e' \<Longrightarrow> sid = sid' \<and> role = role' \<and> e = e'"
    and "device_auth_transcript acc dev at_ms n = device_auth_transcript acc' dev' at_ms' n' \<Longrightarrow>
           acc = acc' \<and> dev = dev' \<and> at_ms = at_ms' \<and> n = n'"
    and "key_exchange_transcript sid role e \<noteq> device_auth_transcript acc dev at_ms n"
proof -
  show "sid = sid' \<and> role = role' \<and> e = e'"
    if eq: "key_exchange_transcript sid role e = key_exchange_transcript sid' role' e'"
  proof -
    have "length sid = length sid'"
      using arg_cong [OF eq, of length] assms(1,2) by (simp add: key_exchange_transcript_def)
    then show ?thesis using eq by (simp add: key_exchange_transcript_def)
  qed
  show "acc = acc' \<and> dev = dev' \<and> at_ms = at_ms' \<and> n = n'"
    if eq: "device_auth_transcript acc dev at_ms n = device_auth_transcript acc' dev' at_ms' n'"
  proof -
    have "len_prefix acc @ acc @ len_prefix dev @ dev @ to_be64 at_ms @ n
        = len_prefix acc' @ acc' @ len_prefix dev' @ dev' @ to_be64 at_ms' @ n'"
      using eq by (simp add: device_auth_transcript_def)
    then have 1: "acc = acc'" "len_prefix dev @ dev @ to_be64 at_ms @ n = len_prefix dev' @ dev' @ to_be64 at_ms' @ n'"
      using len_prefix_inj assms(5,6) by blast+
    then have "dev = dev'" "to_be64 at_ms @ n = to_be64 at_ms' @ n'" using len_prefix_inj assms(7,8) by blast+
    then show ?thesis using 1(1) by simp
  qed
  show "key_exchange_transcript sid role e \<noteq> device_auth_transcript acc dev at_ms n"
    using transcript_labels by (simp add: key_exchange_transcript_def device_auth_transcript_def)
qed

section \<open>Replay\<close>

definition os_seen :: "os_session \<Rightarrow> nat set \<Rightarrow> bool" where
  "os_seen s R \<longleftrightarrow> (case os_highest_rx s of None \<Rightarrow> R = {}
     | Some h \<Rightarrow> unat h \<in> R \<and> window_holds R (unat h) (os_window s))"

definition refused :: "nat set \<Rightarrow> nat \<Rightarrow> bool" where
  "refused R c \<longleftrightarrow> c \<in> R \<or> (\<exists>x \<in> R. c + 64 \<le> x)"

lemma is_replay_exact: "os_seen s R \<Longrightarrow> is_replay s c \<longleftrightarrow> refused R (unat c)"
proof (cases "os_highest_rx s")
  case (Some h)
  assume "os_seen s R"
  then have w: "unat h \<in> R" "window_holds R (unat h) (os_window s)" using Some by (simp_all add: os_seen_def)
  show ?thesis
  proof (cases "h < c")
    case True
    then have "unat h < unat c" by (simp add: u64_le_unat)
    then have "\<not> refused R (unat c)" using window_bounds [OF w(2)] by (fastforce simp: refused_def)
    then show ?thesis using Some True by (simp add: is_replay_def)
  next
    case False
    then have le: "unat c \<le> unat h" by (simp add: u64_le_unat)
    have d: "unat (h - c) = unat h - unat c" using False by (simp add: unat_u64_diff)
    show ?thesis
    proof (cases "64 \<le> unat h - unat c")
      case True
      then have "refused R (unat c)" using w(1) by (auto simp: refused_def intro!: bexI [of _ "unat h"])
      then show ?thesis using Some False d True by (simp add: is_replay_def os_consts)
    next
      case far: False
      have "x < unat c + 64" if "x \<in> R" for x using window_bounds [OF w(2) that] far le by simp
      then have "refused R (unat c) \<longleftrightarrow> unat c \<in> R" by (force simp: refused_def)
      also have "\<dots> \<longleftrightarrow> bit (os_window s) (unat h - unat c)" using window_bit [OF w(2) le] far by simp
      finally show ?thesis using Some False d far and_push_bit_eq_0_u64 [of "unat h - unat c" "os_window s"]
        by (simp add: is_replay_def os_consts)
    qed
  qed
qed (simp add: os_seen_def is_replay_def refused_def)

lemma accept_counter_seen:
  assumes "os_seen s R" "\<not> refused R (unat c)"
  shows "os_seen (accept_counter s c) (insert (unat c) R)"
proof (cases "os_highest_rx s")
  case None
  then show ?thesis using assms(1) by (simp add: os_seen_def accept_counter_def window_first)
next
  case (Some h)
  then have w: "unat h \<in> R" "window_holds R (unat h) (os_window s)" using assms(1) by (simp_all add: os_seen_def)
  show ?thesis
  proof (cases "h < c")
    case True
    then have "unat h < unat c" "unat (c - h) = unat c - unat h" by (simp_all add: u64_le_unat unat_u64_diff)
    then show ?thesis using Some True window_jump [OF w(2), of "unat c"] window_shift [OF w(2), of "unat c"]
      by (auto simp: accept_counter_def os_seen_def os_consts Let_def)
  next
    case False
    then have d: "unat c \<le> unat h" "unat (h - c) = unat h - unat c" by (simp_all add: u64_le_unat unat_u64_diff)
    have "unat h - unat c < 64" using assms(2) w(1) d(1) by (force simp: refused_def)
    from window_mark [OF w(2) d(1) this] show ?thesis using Some False d w(1)
      by (simp add: accept_counter_def os_seen_def)
  qed
qed

section \<open>A stream of datagrams\<close>

text \<open>Messages to seal: kind, channel, flags and payload. \<open>os_seal_all\<close> seals them one after another.\<close>

type_synonym os_message = "os_kind \<times> byte \<times> byte \<times> bytes"

fun os_seal_all :: "os_aead \<Rightarrow> os_session \<Rightarrow> os_message list \<Rightarrow> (os_error + (u64 \<times> bytes)) list" where
  "os_seal_all A s [] = []"
| "os_seal_all A s ((kind, channel, flags, payload) # ms) =
     (case seal_inner A s kind channel flags payload of (s', r) \<Rightarrow> r # os_seal_all A s' ms)"

fun os_open_all :: "os_aead \<Rightarrow> os_session \<Rightarrow> bytes list \<Rightarrow> os_packet list" where
  "os_open_all A s [] = []"
| "os_open_all A s (d # ds) = (case os_open A s d of
     (s', Inl _) \<Rightarrow> os_open_all A s' ds | (s', Inr p) \<Rightarrow> p # os_open_all A s' ds)"

definition os_packet_of :: "nat \<Rightarrow> os_message \<Rightarrow> os_packet" where
  "os_packet_of i m = (case m of (kind, channel, flags, payload) \<Rightarrow>
     \<lparr>opk_kind = kind, opk_channel = channel, opk_flags = flags, opk_counter = of_nat i, opk_payload = payload\<rparr>)"

definition os_record :: "os_aead \<Rightarrow> bytes \<Rightarrow> nat \<Rightarrow> os_message \<Rightarrow> bytes" where
  "os_record A key i m = (case m of (kind, channel, flags, payload) \<Rightarrow>
     let header = os_header kind channel flags (of_nat i) (of_nat (length payload)) in
     case oa_encrypt A key (os_nonce (of_nat i)) header payload of
       None \<Rightarrow> [] | Some (ct, tag) \<Rightarrow> header @ ct @ tag)"

definition os_fits :: "os_message \<Rightarrow> bool" where
  "os_fits m = (case m of (kind, channel, flags, payload) \<Rightarrow> length payload \<le> OS_MAX_PLAINTEXT)"

lemma os_fits_bounds: "os_fits (k, c, f, p) \<Longrightarrow> length p \<le> 1168"
  by (simp add: os_fits_def os_consts)

lemma seal_inner_ok:
  assumes "os_aead_ok A" "os_fits (k, c, f, p)" "os_next_tx s = of_nat i" "Suc i < 2 ^ 64"
  shows "seal_inner A s k c f p = (s\<lparr>os_next_tx := of_nat (Suc i)\<rparr>, Inr (of_nat i, os_record A (os_tx_key s) i (k, c, f, p)))"
proof -
  have l: "length p \<le> 1168" using os_fits_bounds [OF assms(2)] .
  have u: "unat (of_nat i :: u64) = i" using assms(4) by (simp add: unat_of_nat take_bit_nat_eq_self)
  have "(of_nat i + 1 :: u64) = of_nat (Suc i)" by simp
  then have "chk_add (os_next_tx s) 1 = Some (of_nat (Suc i))" using assms(3,4) u by (simp add: chk_add_def del: of_nat_Suc)
  moreover have "oa_encrypt A (os_tx_key s) (os_nonce (of_nat i)) h p \<noteq> None" for h
    using assms(1) l by (simp add: os_aead_ok_def os_consts)
  ultimately show ?thesis using l assms(3)
    by (auto simp: seal_inner_def os_record_def os_consts u16_try_from_def Let_def split: option.splits)
qed

lemma os_seal_all_ok:
  assumes "os_aead_ok A" "\<forall>m \<in> set ms. os_fits m" "os_next_tx s = of_nat i" "i + length ms < 2 ^ 64"
  shows "os_seal_all A s ms = map (\<lambda>j. Inr (of_nat (i + j), os_record A (os_tx_key s) (i + j) (ms ! j))) [0..<length ms]"
  using assms(2-)
proof (induction ms arbitrary: s i)
  case (Cons m ms)
  obtain k c f p where m: "m = (k, c, f, p)" by (cases m)
  have "os_seal_all A (s\<lparr>os_next_tx := of_nat (Suc i)\<rparr>) ms
      = map (\<lambda>j. Inr (of_nat (Suc i + j), os_record A (os_tx_key s) (Suc i + j) (ms ! j))) [0..<length ms]"
    using Cons.IH [of "s\<lparr>os_next_tx := of_nat (Suc i)\<rparr>" "Suc i"] Cons.prems by simp
  then show ?case using seal_inner_ok [OF assms(1), of k c f p s i] Cons.prems m
    by (simp add: upt_conv_Cons map_Suc_upt [symmetric] del: upt_Suc map_Suc_upt)
qed simp

lemma os_open_record:
  assumes "os_aead_ok A" "os_fits m" "i < 2 ^ 64"
  shows "os_open A s (os_record A (os_rx_key s) i m)
      = (if is_replay s (of_nat i) then (s, Inl OsAuthenticationFailed)
         else (accept_counter s (of_nat i), Inr (os_packet_of i m)))"
proof -
  obtain k c f p where m: "m = (k, c, f, p)" by (cases m)
  have l: "length p \<le> 1168" using os_fits_bounds assms(2) m by blast
  define h where "h = os_header k c f (of_nat i) (of_nat (length p))"
  obtain ct tag where e: "oa_encrypt A (os_rx_key s) (os_nonce (of_nat i)) h p = Some (ct, tag)"
    using assms(1) l by (force simp: os_aead_ok_def os_consts)
  then have n: "length ct = length p" "length tag = 16"
      "oa_decrypt A (os_rx_key s) (os_nonce (of_nat i)) h ct tag = Some p"
    using assms(1) by (auto simp: os_aead_ok_def os_consts)
  have hl: "length h = 16" by (simp add: h_def os_header_def os_consts)
  define d where "d = h @ ct @ tag"
  have r: "os_record A (os_rx_key s) i m = d" using e by (simp add: os_record_def m h_def d_def Let_def)
  have parts: "take 16 d = h" "take (length p) (drop 16 d) = ct" "drop (16 + length p) d = tag" "length d = 32 + length p"
    using hl n by (simp_all add: d_def)
  have nth: "d ! j = h ! j" if "j < 16" for j using that hl by (simp add: d_def nth_append)
  have hd: "take 2 d = OS_MAGIC" "take 8 (drop 6 d) = to_be64 (of_nat i)"
    by (simp_all add: d_def h_def os_header_def os_consts)
  have fields: "d ! 2 = 1" "d ! 3 = kind_code k" "d ! 4 = c" "d ! 5 = f"
    "d ! 14 = ucast (drop_bit 8 (of_nat (length p) :: u16))" "d ! 15 = ucast (of_nat (length p) :: u16)"
    by (simp_all add: nth, simp_all add: h_def os_header_def os_consts nth_append to_be16_def)
  have "unat (of_nat (length p) :: u16) = length p" using l by (simp add: unat_of_nat_16)
  then show ?thesis unfolding r using parts hd fields l n
    by (simp add: os_open_def os_consts Let_def os_packet_of_def m)
qed

text \<open>What the receiver keeps of the arrivals \<open>js\<close>: everything but repeats and stragglers 64 behind.\<close>

fun os_accepts :: "nat set \<Rightarrow> nat list \<Rightarrow> nat list" where
  "os_accepts R [] = []"
| "os_accepts R (j # js) = (if refused R j then os_accepts R js else j # os_accepts (insert j R) js)"

lemma os_accepts_props:
  "distinct (os_accepts R js) \<and> set (os_accepts R js) \<inter> R = {} \<and> set (os_accepts R js) \<subseteq> set js"
  by (induction R js rule: os_accepts.induct) (auto simp: refused_def)

lemma accept_counter_keys [simp]: "os_rx_key (accept_counter s c) = os_rx_key s"
  by (auto simp: accept_counter_def Let_def split: option.splits)

lemma os_open_all_accepts:
  assumes "os_aead_ok A" "\<forall>j \<in> set js. j < length ms" "\<forall>m \<in> set ms. os_fits m" "length ms < 2 ^ 64" "os_seen s R"
  shows "os_open_all A s (map (\<lambda>j. os_record A (os_rx_key s) j (ms ! j)) js)
       = map (\<lambda>j. os_packet_of j (ms ! j)) (os_accepts R js)"
  using assms(2,5)
proof (induction js arbitrary: s R)
  case (Cons j js)
  have j: "j < length ms" "j < 2 ^ 64" "unat (of_nat j :: u64) = j"
    using Cons.prems(1) assms(4) by (auto simp: unat_of_nat take_bit_nat_eq_self)
  have o: "os_open A s (os_record A (os_rx_key s) j (ms ! j))
      = (if refused R j then (s, Inl OsAuthenticationFailed)
         else (accept_counter s (of_nat j), Inr (os_packet_of j (ms ! j))))"
    using os_open_record [OF assms(1), of "ms ! j" j s] is_replay_exact [OF Cons.prems(2), of "of_nat j"] assms(3) j by simp
  show ?case
  proof (cases "refused R j")
    case True
    then show ?thesis using o Cons by simp
  next
    case False
    have "os_seen (accept_counter s (of_nat j)) (insert j R)"
      using accept_counter_seen [OF Cons.prems(2), of "of_nat j"] False j by simp
    from Cons.IH [OF _ this] show ?thesis using False o Cons.prems(1) by simp
  qed
qed simp

lemma map_upt_eqD: "map f [0..<n] = map g [0..<n] \<Longrightarrow> j < n \<Longrightarrow> f j = g j"
  by simp

text \<open>
  C6: A portable session delivers every datagram at most once and refuses only repeats and stragglers.
  Let one end seal any messages that fit and let the network lose, repeat and reorder the datagrams at
  will. The packets the other end opens are exactly those of the arrivals that are neither a repeat of an
  accepted one nor 64 or more behind one, in arrival order, each with the content that was sealed under
  its counter.
\<close>

theorem os_delivers_once:
  assumes "os_aead_ok A" "\<forall>m \<in> set ms. os_fits m" "length ms < 2 ^ 64" "\<forall>j \<in> set js. j < length ms"
    and "os_seal_all A (os_new key back) ms = map (Inr \<circ> sent) [0..<length ms]"
  shows "os_open_all A (os_new back key) (map (\<lambda>j. snd (sent j)) js)
           = map (\<lambda>j. os_packet_of j (ms ! j)) (os_accepts {} js)
       \<and> distinct (map fst (map sent [0..<length ms]))"
proof -
  have "map (Inr \<circ> sent) [0..<length ms] = map (\<lambda>j. Inr (of_nat j, os_record A key j (ms ! j))) [0..<length ms]"
    using os_seal_all_ok [OF assms(1,2), of "os_new key back" 0] assms(3,5) by (simp add: os_new_def)
  from map_upt_eqD [OF this] have sent: "sent j = (of_nat j, os_record A key j (ms ! j))" if "j < length ms" for j
    using that by fastforce
  have d: "map (\<lambda>j. snd (sent j)) js = map (\<lambda>j. os_record A (os_rx_key (os_new back key)) j (ms ! j)) js"
    using sent assms(4) by (simp add: os_new_def)
  have "os_seen (os_new back key) {}" by (simp add: os_seen_def os_new_def)
  moreover have "inj_on (\<lambda>j. fst (sent j)) {0..<length ms}"
  proof (rule inj_onI)
    fix x y assume xy: "x \<in> {0..<length ms}" "y \<in> {0..<length ms}" "fst (sent x) = fst (sent y)"
    then have "(of_nat x :: u64) = of_nat y" using sent by simp
    then have "unat (of_nat x :: u64) = unat (of_nat y :: u64)" by simp
    then show "x = y" using xy(1,2) assms(3) by (simp add: unat_of_nat take_bit_nat_eq_self)
  qed
  ultimately show ?thesis unfolding d using os_open_all_accepts [OF assms(1,4,2,3), of "os_new back key" "{}"]
    by (simp add: distinct_map comp_def)
qed

section \<open>Concrete instances\<close>

definition demo_os_aead :: os_aead where
  "demo_os_aead = \<lparr>oa_encrypt = (\<lambda>k n h p. Some (map (\<lambda>b. b XOR 0x5A) p, take OS_TAG_LEN (n @ replicate OS_TAG_LEN 0))),
     oa_decrypt = (\<lambda>k n h ct t. if t = take OS_TAG_LEN (n @ replicate OS_TAG_LEN 0) then Some (map (\<lambda>b. b XOR 0x5A) ct) else None)\<rparr>"

lemma demo_os_aead_ok: "os_aead_ok demo_os_aead"
proof -
  have x: "map (\<lambda>b. b XOR 0x5A) (map (\<lambda>b. b XOR 0x5A) p) = p" for p :: bytes
    by (simp add: comp_def xor.assoc)
  have "map (\<lambda>b. b XOR 0x5A) ct = p \<longleftrightarrow> map (\<lambda>b. b XOR 0x5A) p = ct" for ct p :: bytes using x by metis
  then show ?thesis by (auto simp: os_aead_ok_def demo_os_aead_def OS_TAG_LEN_def)
qed

definition demo_messages :: "os_message list" where
  "demo_messages = [(KVideo, 0, 0, [1, 2, 3]), (KControl, 1, 2, [7])]"

lemma demo_messages_fit: "\<forall>m \<in> set demo_messages. os_fits m"
  by (simp add: demo_messages_def os_fits_def os_consts)

theorem os_delivers_once_witness:
  "os_open_all demo_os_aead (os_new [2] [1]) (map (\<lambda>j. os_record demo_os_aead [1] j (demo_messages ! j)) [1, 0, 1])
     = [os_packet_of 1 (KControl, 1, 2, [7]), os_packet_of 0 (KVideo, 0, 0, [1, 2, 3])]"
proof -
  have s: "os_seal_all demo_os_aead (os_new [1] [2]) demo_messages
      = map (Inr \<circ> (\<lambda>j. (of_nat j, os_record demo_os_aead [1] j (demo_messages ! j)))) [0..<length demo_messages]"
    using os_seal_all_ok [OF demo_os_aead_ok demo_messages_fit, of "os_new [1] [2]" 0]
    by (simp add: os_new_def demo_messages_def comp_def)
  have "length demo_messages < 2 ^ 64" "\<forall>j \<in> set [1, 0, 1]. j < length demo_messages" by (simp_all add: demo_messages_def)
  from os_delivers_once [OF demo_os_aead_ok demo_messages_fit this s] show ?thesis
    by (simp add: demo_messages_def refused_def)
qed

text \<open>A group in which the exchange can be evaluated: secrets are their own public keys, combined by exclusive or.\<close>

definition demo_x :: x_suite where
  "demo_x = \<lparr>xs_public = (\<lambda>a. take 32 (a @ replicate 32 0)),
     xs_shared = (\<lambda>a p. map2 (XOR) (take 32 (a @ replicate 32 0)) (take 32 (p @ replicate 32 0))),
     xs_sha256 = (\<lambda>m. m)\<rparr>"

lemma demo_x_ok: "x_ok demo_x"
proof -
  have "map2 (XOR) xs ys = map2 (XOR) ys (xs :: bytes)" for xs ys
    by (induction xs ys rule: list_induct2') (auto simp: xor.commute)
  moreover have "length (take 32 (a @ replicate 32 0)) = 32" for a :: bytes by simp
  moreover have "take 32 (take 32 (a @ replicate 32 0) @ replicate 32 0) = take 32 (a @ replicate 32 0)" for a :: bytes
    by simp
  ultimately show ?thesis by (auto simp: x_ok_def demo_x_def simp del: take_append)
qed

theorem os_keys_mirrored_witness:
  "\<exists>ka kb. derive_session_keys demo_x (kx_of demo_x [1]) (xs_public demo_x [2]) [9] = Inr ka
     \<and> derive_session_keys demo_x (kx_of demo_x [2]) (xs_public demo_x [1]) [9] = Inr kb
     \<and> dk_tx kb = dk_rx ka \<and> dk_rx kb = dk_tx ka \<and> dk_tx ka \<noteq> dk_rx ka"
proof -
  have p: "xs_public demo_x [1] \<noteq> xs_public demo_x [2]" "xs_public demo_x [1] \<noteq> replicate 32 0"
      "xs_public demo_x [2] \<noteq> replicate 32 0" "xs_shared demo_x [1] (xs_public demo_x [2]) \<noteq> replicate 32 0"
    by (simp_all add: demo_x_def replicate_rec)
  have i: "inj_on (xs_sha256 demo_x) A" for A by (simp add: demo_x_def inj_on_def)
  obtain ka where k: "derive_keys_inner demo_x (kx_of demo_x [1]) (xs_public demo_x [2]) (Some [9]) = Inr ka"
    using p by (auto simp: derive_dir_keys kx_of_def)
  show ?thesis using os_keys_mirrored [OF demo_x_ok p(1,2) k i, of "Some [8]"] k by (auto simp: derive_session_keys_def)
qed

end
