(* ===== verification/Control_Channel.thy ===== *)
theory Control_Channel
  imports Os_Session "HOL-Library.AList"
begin

text \<open>
  The ordered control channel of the portable protocol (\<open>protocol/src/lib.rs\<close>, module \<open>control\<close>): the frame
  format, the bounded channel state, and \<open>ReliableControl\<close> (\<open>client-core/src/lib.rs\<close>), which pairs an
  outbound and an inbound channel per peer. A \<open>BTreeMap\<close> is an association list with distinct keys; no
  operation here depends on the iteration order, because all ages are distinct.
\<close>

section \<open>Frames\<close>

definition CTL_MAGIC :: bytes where "CTL_MAGIC = [0x4F, 0x43]"
definition CTL_VERSION :: byte where "CTL_VERSION = 1"
definition ACK_PRESENT :: byte where "ACK_PRESENT = 1"
definition ACK_ONLY :: byte where "ACK_ONLY = 2"
definition CTL_HEADER_LEN :: nat where "CTL_HEADER_LEN = 12"
definition CTL_MAX_PAYLOAD :: nat where "CTL_MAX_PAYLOAD = OS_MAX_PLAINTEXT - CTL_HEADER_LEN"

lemmas ctl_consts = CTL_MAGIC_def CTL_VERSION_def ACK_PRESENT_def ACK_ONLY_def CTL_HEADER_LEN_def
  CTL_MAX_PAYLOAD_def os_consts

record ctl_frame =
  cf_sequence :: u32
  cf_acknowledgement :: "u32 option"
  cf_ack_only :: bool
  cf_payload :: bytes

datatype ctl_error =
    CtlShortFrame | CtlBadMagic | CtlUnsupportedVersion byte | CtlInvalidFlags byte
  | CtlInvalidAcknowledgement | CtlEmptyMessage | CtlTooLarge | CtlWindowFull

definition frame_encode :: "ctl_frame \<Rightarrow> ctl_error + bytes" where
  "frame_encode f =
     (if cf_ack_only f \<and> cf_acknowledgement f = None then Inl CtlInvalidAcknowledgement
      else if \<not> cf_ack_only f \<and> cf_payload f = [] then Inl CtlEmptyMessage
      else if CTL_MAX_PAYLOAD < length (cf_payload f) then Inl CtlTooLarge
      else let flags = (if cf_ack_only f then ACK_ONLY else 0)
                 OR (if cf_acknowledgement f \<noteq> None then ACK_PRESENT else 0)
        in Inr (CTL_MAGIC @ [CTL_VERSION, flags] @ to_be32 (cf_sequence f)
             @ to_be32 (case cf_acknowledgement f of Some a \<Rightarrow> a | None \<Rightarrow> 0) @ cf_payload f))"

definition frame_decode :: "bytes \<Rightarrow> ctl_error + ctl_frame" where
  "frame_decode b =
     (if length b < CTL_HEADER_LEN then Inl CtlShortFrame
      else if take 2 b \<noteq> CTL_MAGIC then Inl CtlBadMagic
      else if b ! 2 \<noteq> CTL_VERSION then Inl (CtlUnsupportedVersion (b ! 2))
      else let flags = b ! 3 in
        if flags AND NOT (ACK_PRESENT OR ACK_ONLY) \<noteq> 0 then Inl (CtlInvalidFlags flags)
        else let ack_only = (flags AND ACK_ONLY \<noteq> 0);
                 acknowledgement = (if flags AND ACK_PRESENT \<noteq> 0
                   then Some (of_be32 (b ! 8) (b ! 9) (b ! 10) (b ! 11)) else None) in
          if ack_only \<and> acknowledgement = None then Inl CtlInvalidAcknowledgement
          else let payload = drop CTL_HEADER_LEN b in
            if ack_only \<and> payload \<noteq> [] then Inl (CtlInvalidFlags flags)
            else if \<not> ack_only \<and> payload = [] then Inl CtlEmptyMessage
            else if CTL_MAX_PAYLOAD < length payload then Inl CtlTooLarge
            else Inr \<lparr>cf_sequence = of_be32 (b ! 4) (b ! 5) (b ! 6) (b ! 7), cf_acknowledgement = acknowledgement,
                      cf_ack_only = ack_only, cf_payload = payload\<rparr>)"

section \<open>The channel\<close>

record ctl_received =
  cv_delivered :: "bytes list"
  cv_acknowledgement :: "u32 option"

record ctl_channel =
  ch_next_sequence :: u32
  ch_expected_sequence :: u32
  ch_received_any :: bool
  ch_pending_ack :: "u32 option"
  ch_outstanding :: "(u32 \<times> bytes) list"
  ch_waiting :: "(u32 \<times> bytes) list"
  ch_max_pending :: nat

definition channel_new :: "nat \<Rightarrow> ctl_channel" where
  "channel_new max_pending = \<lparr>ch_next_sequence = 0, ch_expected_sequence = 0, ch_received_any = False,
     ch_pending_ack = None, ch_outstanding = [], ch_waiting = [], ch_max_pending = max max_pending 1\<rparr>"

definition ctl_at_or_before :: "u32 \<Rightarrow> u32 \<Rightarrow> bool" where
  "ctl_at_or_before sequence reference \<longleftrightarrow> sequence = reference \<or> reference - sequence < 0x80000000"

definition channel_queue :: "ctl_channel \<Rightarrow> bytes \<Rightarrow> ctl_channel \<times> (ctl_error + u32)" where
  "channel_queue c payload =
     (if payload = [] then (c, Inl CtlEmptyMessage)
      else if CTL_MAX_PAYLOAD < length payload then (c, Inl CtlTooLarge)
      else if ch_max_pending c \<le> length (ch_outstanding c) then (c, Inl CtlWindowFull)
      else let sequence = ch_next_sequence c in
        (c\<lparr>ch_next_sequence := sequence + 1,
           ch_outstanding := AList.update sequence payload (ch_outstanding c)\<rparr>, Inr sequence))"

text \<open>\<open>Iterator::max_by_key\<close>: the last of the largest elements.\<close>

fun max_by_key :: "('a \<Rightarrow> 'b::linorder) \<Rightarrow> 'a list \<Rightarrow> 'a option" where
  "max_by_key f [] = None"
| "max_by_key f (x # xs) = (case max_by_key f xs of None \<Rightarrow> Some x
     | Some y \<Rightarrow> if f x \<le> f y then Some y else Some x)"

definition next_frame :: "ctl_channel \<Rightarrow> ctl_frame option" where
  "next_frame c = (case max_by_key (\<lambda>(sequence, _). ch_next_sequence c - sequence) (ch_outstanding c) of
     None \<Rightarrow> None
   | Some (sequence, payload) \<Rightarrow> Some \<lparr>cf_sequence = sequence, cf_acknowledgement = ch_pending_ack c,
       cf_ack_only = False, cf_payload = payload\<rparr>)"

definition acknowledgement_frame :: "ctl_channel \<Rightarrow> ctl_frame option" where
  "acknowledgement_frame c = map_option (\<lambda>a. \<lparr>cf_sequence = 0, cf_acknowledgement = Some a,
     cf_ack_only = True, cf_payload = []\<rparr>) (ch_pending_ack c)"

definition channel_acknowledge :: "ctl_channel \<Rightarrow> u32 \<Rightarrow> ctl_channel" where
  "channel_acknowledge c acknowledgement =
     c\<lparr>ch_outstanding := filter (\<lambda>(sequence, _). \<not> ctl_at_or_before sequence acknowledgement) (ch_outstanding c)\<rparr>"

lemma delete_shorter: "map_of w k = Some v \<Longrightarrow> length (AList.delete k w) < length w"
  unfolding AList.delete_eq by (rule length_filter_less [of "(k, v)"]) (auto dest: map_of_SomeD)

text \<open>The \<open>while let\<close> of \<open>receive\<close>: waiting messages that continue the sequence.\<close>

function drain_waiting :: "u32 \<Rightarrow> (u32 \<times> bytes) list \<Rightarrow> bytes list \<times> u32 \<times> (u32 \<times> bytes) list" where
  "drain_waiting expected waiting = (case map_of waiting expected of
     None \<Rightarrow> ([], expected, waiting)
   | Some payload \<Rightarrow>
       (case drain_waiting (expected + 1) (AList.delete expected waiting) of
          (delivered, expected', waiting') \<Rightarrow> (payload # delivered, expected', waiting')))"
  by auto
termination
  by (relation "measure (\<lambda>(expected, waiting). length waiting)") (auto simp: delete_shorter)

declare drain_waiting.simps [simp del]

definition channel_receive :: "ctl_channel \<Rightarrow> ctl_frame \<Rightarrow> ctl_channel \<times> ctl_received" where
  "channel_receive c f =
     (let c = (case cf_acknowledgement f of Some a \<Rightarrow> channel_acknowledge c a | None \<Rightarrow> c);
          nothing = \<lparr>cv_delivered = [], cv_acknowledgement = ch_pending_ack c\<rparr> in
      if cf_ack_only f then (c, nothing)
      else if ctl_at_or_before (cf_sequence f) (ch_expected_sequence c)
           \<and> cf_sequence f \<noteq> ch_expected_sequence c then (c, nothing)
      else if cf_sequence f \<noteq> ch_expected_sequence c then
        (if length (ch_waiting c) < ch_max_pending c
         then c\<lparr>ch_waiting := (case map_of (ch_waiting c) (cf_sequence f) of
             None \<Rightarrow> AList.update (cf_sequence f) (cf_payload f) (ch_waiting c) | Some _ \<Rightarrow> ch_waiting c)\<rparr>
         else c, nothing)
      else (case drain_waiting (ch_expected_sequence c + 1) (ch_waiting c) of
        (delivered, expected, waiting) \<Rightarrow>
          (c\<lparr>ch_expected_sequence := expected, ch_waiting := waiting, ch_received_any := True,
             ch_pending_ack := Some (expected - 1)\<rparr>,
           \<lparr>cv_delivered = cf_payload f # delivered, cv_acknowledgement = Some (expected - 1)\<rparr>)))"

definition has_capacity :: "ctl_channel \<Rightarrow> bool" where
  "has_capacity c \<longleftrightarrow> length (ch_outstanding c) < ch_max_pending c"

section \<open>Both directions of a peer\<close>

text \<open>
  An operation returns the frames it hands to the session, encoded, each with its retransmission mark; the
  session's own send can only fail after that.
\<close>

record reliable_control =
  rc_outbound :: ctl_channel
  rc_inbound :: ctl_channel

definition rc_new :: "nat \<Rightarrow> reliable_control" where
  "rc_new max_pending = \<lparr>rc_outbound = channel_new max_pending, rc_inbound = channel_new max_pending\<rparr>"

definition send_frame :: "ctl_frame \<Rightarrow> bool \<Rightarrow> ctl_error + (bytes \<times> bool) list" where
  "send_frame f again = (case frame_encode f of Inl e \<Rightarrow> Inl e | Inr b \<Rightarrow> Inr [(b, again)])"

definition rc_flush :: "reliable_control \<Rightarrow> bool \<Rightarrow> ctl_error + (bytes \<times> bool) list" where
  "rc_flush r again = (case next_frame (rc_outbound r) of Some f \<Rightarrow> send_frame f again | None \<Rightarrow> Inr [])"

definition rc_send :: "reliable_control \<Rightarrow> bytes \<Rightarrow> reliable_control \<times> (ctl_error + u32 option \<times> (bytes \<times> bool) list)" where
  "rc_send r payload = (case channel_queue (rc_outbound r) payload of
     (c, Inr sequence) \<Rightarrow>
       let r = r\<lparr>rc_outbound := c\<rparr> in
       (r, case rc_flush r False of Inl e \<Rightarrow> Inl e | Inr out \<Rightarrow> Inr (Some sequence, out))
   | (c, Inl CtlWindowFull) \<Rightarrow> (r, case rc_flush r False of Inl e \<Rightarrow> Inl e | Inr out \<Rightarrow> Inr (None, out))
   | (c, Inl e) \<Rightarrow> (r, Inl e))"

definition rc_send_if_available :: "reliable_control \<Rightarrow> bytes \<Rightarrow>
    reliable_control \<times> (ctl_error + u32 option \<times> (bytes \<times> bool) list)" where
  "rc_send_if_available r payload =
     (if \<not> has_capacity (rc_outbound r) then (r, Inr (None, [])) else rc_send r payload)"

definition rc_retry :: "reliable_control \<Rightarrow> ctl_error + (bytes \<times> bool) list" where
  "rc_retry r = rc_flush r True"

text \<open>
  The session call behind \<open>send_frame\<close> is taken to succeed. When it fails, the source returns that error after the inbound
  channel has advanced, as it does for a frame that cannot be encoded; its callers then end the session.
\<close>

definition rc_receive :: "reliable_control \<Rightarrow> os_packet \<Rightarrow>
    reliable_control \<times> (ctl_error + (bytes list \<times> (bytes \<times> bool) list) option)" where
  "rc_receive r packet =
     (if opk_kind packet \<noteq> KControl then (r, Inr None)
      else case frame_decode (opk_payload packet) of Inl _ \<Rightarrow> (r, Inr None)
      | Inr frame \<Rightarrow>
          let r = (case cf_acknowledgement frame of
                Some a \<Rightarrow> r\<lparr>rc_outbound := channel_acknowledge (rc_outbound r) a\<rparr> | None \<Rightarrow> r) in
          case channel_receive (rc_inbound r) frame of (c, received) \<Rightarrow>
            let r = r\<lparr>rc_inbound := c\<rparr> in
            (r, case (if cf_ack_only frame then Inr []
                      else case acknowledgement_frame (rc_inbound r) of
                        Some f \<Rightarrow> send_frame f False | None \<Rightarrow> Inr []) of
                  Inl e \<Rightarrow> Inl e
                | Inr acks \<Rightarrow> (case rc_flush r False of
                    Inl e \<Rightarrow> Inl e | Inr out \<Rightarrow> Inr (Some (cv_delivered received, acks @ out)))))"

end
