(* ===== verification/Control_Properties.thy ===== *)
theory Control_Properties
  imports Control_Channel
begin

text \<open>
  Two peers joined by their reliable control channels over a network that loses, repeats, delays and
  reorders: what each peer delivers is a prefix of what the other queued, and one exchange of the oldest
  frame and its acknowledgement always makes progress.
\<close>

section \<open>Frames read back\<close>

lemma frame_roundtrip:
  assumes "frame_encode f = Inr b" "cf_ack_only f \<Longrightarrow> cf_payload f = []"
  shows "frame_decode b = Inr f"
proof -
  define flags where "flags = (if cf_ack_only f then ACK_ONLY else 0) OR (if cf_acknowledgement f \<noteq> None then ACK_PRESENT else 0)"
  define a where "a = (case cf_acknowledgement f of Some a \<Rightarrow> a | None \<Rightarrow> 0)"
  have b: "b = CTL_MAGIC @ [CTL_VERSION, flags] @ to_be32 (cf_sequence f) @ to_be32 a @ cf_payload f"
    and ok: "\<not> (cf_ack_only f \<and> cf_acknowledgement f = None)" "cf_ack_only f \<or> cf_payload f \<noteq> []"
      "length (cf_payload f) \<le> CTL_MAX_PAYLOAD"
    using assms(1) by (auto simp: frame_encode_def Let_def flags_def a_def split: if_splits)
  have fl: "flags AND NOT (ACK_PRESENT OR ACK_ONLY) = 0" "flags AND ACK_ONLY \<noteq> 0 \<longleftrightarrow> cf_ack_only f"
      "flags AND ACK_PRESENT \<noteq> 0 \<longleftrightarrow> cf_acknowledgement f \<noteq> None"
    by (auto simp: flags_def ctl_consts)
  have parts: "CTL_HEADER_LEN \<le> length b" "take 2 b = CTL_MAGIC" "b ! 2 = CTL_VERSION" "b ! 3 = flags"
      "of_be32 (b ! 4) (b ! 5) (b ! 6) (b ! 7) = cf_sequence f" "of_be32 (b ! 8) (b ! 9) (b ! 10) (b ! 11) = a"
      "drop CTL_HEADER_LEN b = cf_payload f"
    by (simp_all add: b ctl_consts to_be32_def)
  have "frame_decode b = Inr \<lparr>cf_sequence = cf_sequence f, cf_acknowledgement = cf_acknowledgement f,
      cf_ack_only = cf_ack_only f, cf_payload = cf_payload f\<rparr>"
    using ok assms(2) unfolding frame_decode_def Let_def parts(2-) fl
    by (auto simp: a_def not_less parts(1) split: option.splits)
  then show ?thesis by simp
qed

section \<open>Sequence numbers as message indices\<close>

lemma of_nat_u32_inj:
  assumes "(of_nat i :: u32) = of_nat j" "i < j + 4294967296" "j < i + 4294967296"
  shows "i = j"
proof -
  have *: "i = j" if "i \<le> j" "j < i + 4294967296" "(of_nat i :: u32) = of_nat j" for i j :: nat
  proof -
    have "(of_nat j :: u32) = of_nat i + of_nat (j - i)" using that(1) by (simp flip: of_nat_add)
    then have "(of_nat (j - i) :: u32) = 0" using that(3) by simp
    then have "unat (of_nat (j - i) :: u32) = 0" by simp
    moreover have "j - i < 2 ^ 32" using that(1,2) by simp
    ultimately have "j - i = 0" using unat_of_nat_32 by metis
    then show ?thesis using that(1) by simp
  qed
  show ?thesis using * [of i j] * [of j i] assms by (cases "i \<le> j") auto
qed

lemma unat_index_diff:
  assumes "i \<le> j" "j < i + 4294967296"
  shows "unat (of_nat j - of_nat i :: u32) = j - i"
proof -
  have "(of_nat j - of_nat i :: u32) = of_nat (j - i)" using assms(1) by simp
  then show ?thesis using assms by (simp add: unat_of_nat_32 del: of_nat_diff)
qed

lemma at_or_before_index:
  assumes "j < i + 2147483648" "i \<le> j + 2147483648"
  shows "ctl_at_or_before (of_nat i) (of_nat j) \<longleftrightarrow> i \<le> j"
proof (cases "i \<le> j")
  case True
  then have "unat (of_nat j - of_nat i :: u32) < 2147483648" using unat_index_diff [OF True] assms by simp
  then show ?thesis using True by (simp add: ctl_at_or_before_def word_less_nat_alt)
next
  case False
  then have ne: "(of_nat i :: u32) \<noteq> of_nat j" using of_nat_u32_inj [of i j] assms by auto
  have "unat (of_nat i - of_nat j :: u32) = i - j" using False assms by (intro unat_index_diff) simp_all
  then have "unat (of_nat j - of_nat i :: u32) = 4294967296 - (i - j)" using unat_minus_swap [of "of_nat j" "of_nat i"] ne by simp
  then show ?thesis using False ne assms by (simp add: ctl_at_or_before_def word_less_nat_alt)
qed

section \<open>The sending side\<close>

text \<open>\<open>sends c Q base\<close>: the messages of \<open>Q\<close> from \<open>base\<close> on are outstanding, at most the window.\<close>

definition CTL_WINDOW :: nat where "CTL_WINDOW = 2 ^ 30"

definition sends :: "ctl_channel \<Rightarrow> bytes list \<Rightarrow> nat \<Rightarrow> bool" where
  "sends c Q base \<longleftrightarrow> base \<le> length Q \<and> length Q - base \<le> ch_max_pending c \<and> ch_max_pending c \<le> CTL_WINDOW
     \<and> ch_next_sequence c = of_nat (length Q) \<and> ch_pending_ack c = None
     \<and> ch_outstanding c = map (\<lambda>i. (of_nat i, Q ! i)) [base..<length Q]
     \<and> (\<forall>p \<in> set Q. p \<noteq> [] \<and> length p \<le> CTL_MAX_PAYLOAD)"

lemma sends_span: "sends c Q base \<Longrightarrow> length Q \<le> base + 1073741824"
  by (auto simp: sends_def CTL_WINDOW_def)

lemma update_new: "k \<notin> fst ` set xs \<Longrightarrow> AList.update k v xs = xs @ [(k, v)]"
  by (induction xs) auto

lemma channel_queue_sends:
  assumes "sends c Q base" "channel_queue c p = (c', r)"
  shows "case r of Inr s \<Rightarrow> sends c' (Q @ [p]) base | Inl e \<Rightarrow> c' = c"
proof (cases r)
  case (Inr s)
  note S = assms(1) [unfolded sends_def CTL_WINDOW_def]
  have ok: "p \<noteq> []" "length p \<le> CTL_MAX_PAYLOAD" "length Q - base < ch_max_pending c"
    and c': "c' = c\<lparr>ch_next_sequence := of_nat (length Q) + 1,
      ch_outstanding := AList.update (of_nat (length Q)) p (ch_outstanding c)\<rparr>"
    using assms(2) Inr S by (auto simp: channel_queue_def Let_def split: if_splits)
  have new: "(of_nat (length Q) :: u32) \<notin> fst ` set (ch_outstanding c)"
  proof
    assume "(of_nat (length Q) :: u32) \<in> fst ` set (ch_outstanding c)"
    then obtain i where "base \<le> i" "i < length Q" "(of_nat (length Q) :: u32) = of_nat i" using S by auto
    then show False using of_nat_u32_inj [of "length Q" i] sends_span [OF assms(1)] by simp
  qed
  have "map (\<lambda>i. (of_nat i :: u32, (Q @ [p]) ! i)) [base..<length (Q @ [p])]
      = map (\<lambda>i. (of_nat i, Q ! i)) [base..<length Q] @ [(of_nat (length Q), p)]"
    using S by (auto simp: nth_append)
  then show ?thesis using S ok c' Inr update_new [OF new]
    by (simp add: sends_def CTL_WINDOW_def add.commute)
next
  case (Inl e)
  then show ?thesis using assms(2) by (auto simp: channel_queue_def Let_def split: if_splits)
qed

lemma max_by_key_first:
  "\<forall>y \<in> set xs. f y < f x \<Longrightarrow> max_by_key f (x # xs) = Some x"
proof -
  have "max_by_key f xs = Some y \<Longrightarrow> y \<in> set xs" for y
    by (induction xs arbitrary: y) (auto split: option.splits if_splits)
  then show "\<forall>y \<in> set xs. f y < f x \<Longrightarrow> max_by_key f (x # xs) = Some x"
    by (fastforce split: option.splits)
qed

lemma next_frame_oldest:
  assumes "sends c Q base"
  shows "next_frame c = (if base < length Q then Some \<lparr>cf_sequence = of_nat base, cf_acknowledgement = None,
     cf_ack_only = False, cf_payload = Q ! base\<rparr> else None)"
proof (cases "base < length Q")
  case True
  note S = assms [unfolded sends_def CTL_WINDOW_def]
  have young: "(of_nat (length Q) - of_nat i :: u32) < of_nat (length Q) - of_nat base" if "base < i" "i < length Q" for i
  proof -
    have "unat (of_nat (length Q) - of_nat i :: u32) = length Q - i" "unat (of_nat (length Q) - of_nat base :: u32) = length Q - base"
      using that sends_span [OF assms] by (auto intro!: unat_index_diff)
    then show ?thesis using that by (simp add: word_less_nat_alt)
  qed
  have o: "ch_outstanding c = (of_nat base, Q ! base) # map (\<lambda>i. (of_nat i, Q ! i)) [Suc base..<length Q]"
    using S True by (simp add: upt_conv_Cons)
  have "max_by_key (\<lambda>(s, _). ch_next_sequence c - s) (ch_outstanding c) = Some (of_nat base, Q ! base)"
    unfolding o by (rule max_by_key_first) (use S young in auto)
  then show ?thesis using True S by (simp add: next_frame_def)
qed (use assms in \<open>simp add: sends_def next_frame_def\<close>)

lemma filter_upt_above: "filter (\<lambda>i. a < i) [b..<n] = [max b (Suc a)..<n]"
  by (induction n) (auto simp: max_def)

lemma channel_acknowledge_sends:
  assumes "sends c Q base" "a < n" "n \<le> length Q" "length Q \<le> a + 2147483648"
  shows "sends (channel_acknowledge c (of_nat a)) Q (max base (Suc a))"
proof -
  note S = assms(1) [unfolded sends_def CTL_WINDOW_def]
  have "ctl_at_or_before (of_nat i) (of_nat a) \<longleftrightarrow> i \<le> a" if "base \<le> i" "i < length Q" for i
    using at_or_before_index [of a i] that assms S by auto
  then have "filter (\<lambda>(s, _). \<not> ctl_at_or_before s (of_nat a)) (map (\<lambda>i. (of_nat i, Q ! i)) [base..<length Q])
      = map (\<lambda>i. (of_nat i, Q ! i)) (filter (\<lambda>i. a < i) [base..<length Q])"
    unfolding filter_map by (intro arg_cong [of _ _ "map _"] filter_cong) auto
  also have "filter (\<lambda>i. a < i) [base..<length Q] = [max base (Suc a)..<length Q]"
    by (rule filter_upt_above)
  finally show ?thesis using S assms(2,3) by (auto simp: sends_def CTL_WINDOW_def channel_acknowledge_def)
qed

section \<open>The receiving side\<close>

definition holds_from :: "nat \<Rightarrow> bytes list \<Rightarrow> (u32 \<times> bytes) list \<Rightarrow> bool" where
  "holds_from n Q w \<longleftrightarrow> distinct (map fst w)
     \<and> (\<forall>e \<in> set w. \<exists>i. n \<le> i \<and> i < length Q \<and> i < n + CTL_WINDOW \<and> e = (of_nat i, Q ! i))"

definition receives :: "ctl_channel \<Rightarrow> bytes list \<Rightarrow> nat \<Rightarrow> bool" where
  "receives c Q n \<longleftrightarrow> n \<le> length Q \<and> ch_expected_sequence c = of_nat n \<and> ch_outstanding c = []
     \<and> ch_pending_ack c = (if n = 0 then None else Some (of_nat (n - 1))) \<and> holds_from (Suc n) Q (ch_waiting c)"

lemma holds_from_mono: "holds_from n Q w \<Longrightarrow> holds_from n (Q @ R) w"
  by (fastforce simp: holds_from_def nth_append)

lemma receives_mono: "receives c Q n \<Longrightarrow> receives c (Q @ R) n"
  by (auto simp: receives_def holds_from_mono)

lemma holds_from_missing:
  assumes "holds_from n Q w" "map_of w (of_nat n) = None"
  shows "holds_from (Suc n) Q w"
  unfolding holds_from_def
proof (intro conjI ballI)
  fix e assume "e \<in> set w"
  then obtain i where i: "n \<le> i" "i < length Q" "i < n + CTL_WINDOW" "e = (of_nat i, Q ! i)"
    using assms(1) by (auto simp: holds_from_def)
  have "i \<noteq> n" using assms(2) \<open>e \<in> set w\<close> i(4) weak_map_of_SomeI [of "of_nat i" "Q ! i" w] by auto
  then show "\<exists>i. Suc n \<le> i \<and> i < length Q \<and> i < Suc n + CTL_WINDOW \<and> e = (of_nat i, Q ! i)"
    using i by (intro exI [of _ i]) simp
qed (use assms(1) in \<open>simp add: holds_from_def\<close>)

lemma holds_from_taken:
  assumes "holds_from n Q w" "map_of w (of_nat n) = Some p"
  shows "n < length Q \<and> p = Q ! n \<and> holds_from (Suc n) Q (AList.delete (of_nat n) w)"
proof -
  have "(of_nat n, p) \<in> set w" using assms(2) by (rule map_of_SomeD)
  then obtain i where i: "n \<le> i" "i < length Q" "i < n + CTL_WINDOW" "(of_nat n :: u32) = of_nat i" "p = Q ! i"
    using assms(1) by (auto simp: holds_from_def)
  then have "i = n" using of_nat_u32_inj [of n i] by (simp add: CTL_WINDOW_def)
  moreover have "holds_from n Q (AList.delete (of_nat n) w)"
    using assms(1) AList.distinct_delete [of w "of_nat n"] by (auto simp: holds_from_def AList.delete_eq)
  moreover have "map_of (AList.delete (of_nat n) w) (of_nat n) = None" by (simp add: AList.delete_conv')
  ultimately show ?thesis using i(2,5) holds_from_missing by blast
qed

lemma drain_waiting_holds:
  assumes "holds_from n Q w" "n \<le> length Q" "drain_waiting (of_nat n) w = (ps, e, w')"
  shows "\<exists>m \<ge> n. m \<le> length Q \<and> e = of_nat m \<and> ps = take (m - n) (drop n Q) \<and> holds_from (Suc m) Q w'"
  using assms
proof (induction "length w" arbitrary: n w ps rule: less_induct)
  case less
  show ?case
  proof (cases "map_of w (of_nat n)")
    case None
    then show ?thesis using less.prems holds_from_missing by (subst (asm) drain_waiting.simps) auto
  next
    case (Some p)
    note T = holds_from_taken [OF less.prems(1) Some]
    obtain ps' where d: "drain_waiting (of_nat n + 1) (AList.delete (of_nat n) w) = (ps', e, w')" "ps = p # ps'"
      using less.prems(3) Some by (subst (asm) drain_waiting.simps) (auto split: prod.splits)
    have "drain_waiting (of_nat (Suc n)) (AList.delete (of_nat n) w) = (ps', e, w')" using d(1) by (simp add: add.commute)
    with less.hyps [OF delete_shorter [OF Some]] T obtain m where
      "m \<ge> Suc n" "m \<le> length Q" "e = of_nat m" "ps' = take (m - Suc n) (drop (Suc n) Q)" "holds_from (Suc m) Q w'"
      by (meson Suc_leI)
    then show ?thesis using T d(2) by (intro exI [of _ m]) (auto simp: take_Cons' Cons_nth_drop_Suc [symmetric])
  qed
qed

definition data_frame :: "bytes list \<Rightarrow> nat \<Rightarrow> ctl_frame" where
  "data_frame Q i = \<lparr>cf_sequence = of_nat i, cf_acknowledgement = None, cf_ack_only = False, cf_payload = Q ! i\<rparr>"

definition ack_frame :: "nat \<Rightarrow> ctl_frame" where
  "ack_frame a = \<lparr>cf_sequence = 0, cf_acknowledgement = Some (of_nat a), cf_ack_only = True, cf_payload = []\<rparr>"

lemma receive_data:
  assumes R: "receives c Q n" and i: "i < length Q" "i < n + CTL_WINDOW" "n < i + 2147483648"
    and r: "channel_receive c (data_frame Q i) = (c', v)"
  shows "\<exists>m \<ge> n. receives c' Q m \<and> cv_delivered v = take (m - n) (drop n Q) \<and> (i \<le> n \<longrightarrow> i < m)"
proof -
  note D = R [unfolded receives_def]
  have before: "ctl_at_or_before (of_nat i) (of_nat n) \<longleftrightarrow> i \<le> n" using i by (intro at_or_before_index) (auto simp: CTL_WINDOW_def)
  have eq: "(of_nat i :: u32) = of_nat n \<longleftrightarrow> i = n" using i of_nat_u32_inj [of i n] by (auto simp: CTL_WINDOW_def)
  consider (old) "i < n" | (new) "i = n" | (early) "n < i" by linarith
  then show ?thesis
  proof cases
    case old
    then have "c' = c" "cv_delivered v = []" using r D before eq by (auto simp: channel_receive_def data_frame_def Let_def)
    then show ?thesis using R old by (intro exI [of _ n]) simp
  next
    case new
    obtain ps e w' where d: "drain_waiting (of_nat (Suc n)) (ch_waiting c) = (ps, e, w')" by (metis prod_cases3)
    obtain m where m: "m \<ge> Suc n" "m \<le> length Q" "e = of_nat m" "ps = take (m - Suc n) (drop (Suc n) Q)" "holds_from (Suc m) Q w'"
      using drain_waiting_holds [OF _ _ d, of Q] D i new by auto
    have "drain_waiting (ch_expected_sequence c + 1) (ch_waiting c) = (ps, e, w')" using d D by (simp add: add.commute)
    then have c': "c' = c\<lparr>ch_expected_sequence := e, ch_waiting := w', ch_received_any := True, ch_pending_ack := Some (e - 1)\<rparr>"
      "cv_delivered v = Q ! n # ps"
      using r D new by (auto simp: channel_receive_def data_frame_def Let_def)
    have "e - 1 = of_nat (m - 1)" using m(1,3) by (cases m) simp_all
    then have "receives c' Q m" using c'(1) m D by (simp add: receives_def)
    moreover have "Q ! n # ps = take (m - n) (drop n Q)" using m(1,4) i(1) new
      by (auto simp: take_Cons' Cons_nth_drop_Suc [symmetric])
    ultimately show ?thesis using c'(2) m(1) new by (intro exI [of _ m]) auto
  next
    case early
    have "channel_receive c (data_frame Q i) = (if length (ch_waiting c) < ch_max_pending c
         then c\<lparr>ch_waiting := (case map_of (ch_waiting c) (of_nat i) of
             None \<Rightarrow> AList.update (of_nat i) (Q ! i) (ch_waiting c) | Some _ \<Rightarrow> ch_waiting c)\<rparr>
         else c, \<lparr>cv_delivered = [], cv_acknowledgement = ch_pending_ack c\<rparr>)"
      using D before eq early by (auto simp: channel_receive_def data_frame_def Let_def cong: option.case_cong)
    then have c': "c' = c \<or> map_of (ch_waiting c) (of_nat i) = None \<and> c' = c\<lparr>ch_waiting := ch_waiting c @ [(of_nat i, Q ! i)]\<rparr>"
      "cv_delivered v = []"
      using r by (auto simp: update_new map_of_eq_None_iff split: if_splits option.splits)
    have "receives c' Q n" using c'(1)
    proof (elim disjE conjE)
      assume "map_of (ch_waiting c) (of_nat i) = None" "c' = c\<lparr>ch_waiting := ch_waiting c @ [(of_nat i, Q ! i)]\<rparr>"
      moreover have "\<exists>k \<ge> Suc n. k < length Q \<and> k < Suc (n + CTL_WINDOW) \<and> (of_nat i :: u32) = of_nat k \<and> Q ! i = Q ! k"
        using early i(1,2) by (intro exI [of _ i]) simp
      ultimately show ?thesis using D early i by (auto simp: receives_def holds_from_def map_of_eq_None_iff)
    qed (use R in simp)
    then show ?thesis using c'(2) early by (intro exI [of _ n]) simp
  qed
qed

lemma receive_ack:
  "receives c Q n \<Longrightarrow> channel_receive c (ack_frame a) = (c, \<lparr>cv_delivered = [], cv_acknowledgement = ch_pending_ack c\<rparr>)"
  by (simp add: receives_def channel_receive_def ack_frame_def Let_def channel_acknowledge_def)

lemma receives_ack_frame:
  "receives c Q n \<Longrightarrow> acknowledgement_frame c = (if n = 0 then None else Some (ack_frame (n - 1)))"
  by (simp add: receives_def acknowledgement_frame_def ack_frame_def)

section \<open>Two peers and the network\<close>

text \<open>
  Frames in flight are stamped with how many messages their sender had queued and delivered when it
  emitted them. The network may deliver a frame late, repeatedly or never; it only never holds one back
  for \<open>2 ^ 30\<close> messages, which the replay window of the session excludes.
\<close>

type_synonym flight = "bytes \<times> nat \<times> nat"

record duplex =
  dx_a :: reliable_control
  dx_b :: reliable_control
  dx_qa :: "bytes list"
  dx_qb :: "bytes list"
  dx_da :: "bytes list"
  dx_db :: "bytes list"
  dx_ab :: "flight set"
  dx_ba :: "flight set"

definition swap :: "duplex \<Rightarrow> duplex" where
  "swap s = \<lparr>dx_a = dx_b s, dx_b = dx_a s, dx_qa = dx_qb s, dx_qb = dx_qa s, dx_da = dx_db s, dx_db = dx_da s,
     dx_ab = dx_ba s, dx_ba = dx_ab s\<rparr>"

definition stamped :: "(bytes \<times> bool) list \<Rightarrow> nat \<Rightarrow> nat \<Rightarrow> flight set" where
  "stamped out q d = (\<lambda>(b, _). (b, q, d)) ` set out"

definition control_packet :: "u64 \<Rightarrow> bytes \<Rightarrow> os_packet" where
  "control_packet n b = \<lparr>opk_kind = KControl, opk_channel = 0, opk_flags = 0, opk_counter = n, opk_payload = b\<rparr>"

inductive peer_step :: "duplex \<Rightarrow> duplex \<Rightarrow> bool" where
  ps_send: "rc_send (dx_a s) p = (r, Inr (sq, out)) \<Longrightarrow>
    q = (if sq = None then dx_qa s else dx_qa s @ [p]) \<Longrightarrow>
    peer_step s (s\<lparr>dx_a := r, dx_qa := q, dx_ab := dx_ab s \<union> stamped out (length q) (length (dx_da s))\<rparr>)"
| ps_retry: "rc_retry (dx_a s) = Inr out \<Longrightarrow>
    peer_step s (s\<lparr>dx_ab := dx_ab s \<union> stamped out (length (dx_qa s)) (length (dx_da s))\<rparr>)"
| ps_receive: "(b, q, d) \<in> dx_ba s \<Longrightarrow> length (dx_da s) < q + CTL_WINDOW \<Longrightarrow> length (dx_qa s) < d + CTL_WINDOW \<Longrightarrow>
    rc_receive (dx_a s) (control_packet n b) = (r, Inr (Some (got, out))) \<Longrightarrow>
    peer_step s (s\<lparr>dx_a := r, dx_da := dx_da s @ got,
      dx_ab := dx_ab s \<union> stamped out (length (dx_qa s)) (length (dx_da s @ got))\<rparr>)"
| ps_lose: "net \<subseteq> dx_ab s \<Longrightarrow> peer_step s (s\<lparr>dx_ab := net\<rparr>)"

definition duplex_step :: "duplex \<Rightarrow> duplex \<Rightarrow> bool" where
  "duplex_step s t \<longleftrightarrow> peer_step s t \<or> peer_step (swap s) (swap t)"

definition duplex_start :: "duplex \<Rightarrow> bool" where
  "duplex_start s \<longleftrightarrow> (\<exists>m n. m \<le> CTL_WINDOW \<and> n \<le> CTL_WINDOW \<and>
     s = \<lparr>dx_a = rc_new m, dx_b = rc_new n, dx_qa = [], dx_qb = [], dx_da = [], dx_db = [], dx_ab = {}, dx_ba = {}\<rparr>)"

definition in_flight_ok :: "bytes list \<Rightarrow> nat \<Rightarrow> nat \<Rightarrow> flight \<Rightarrow> bool" where
  "in_flight_ok Q got n x = (case x of (b, q, d) \<Rightarrow> q \<le> length Q \<and> d \<le> got \<and>
     ((\<exists>i < q. q \<le> i + CTL_WINDOW \<and> i < n + CTL_WINDOW \<and> frame_encode (data_frame Q i) = Inr b)
      \<or> 0 < d \<and> frame_encode (ack_frame (d - 1)) = Inr b))"

definition link_ok :: "reliable_control \<Rightarrow> reliable_control \<Rightarrow> bytes list \<Rightarrow> bytes list \<Rightarrow> bool" where
  "link_ok r r' Q D \<longleftrightarrow> (\<exists>base \<le> length D. sends (rc_outbound r) Q base) \<and> receives (rc_inbound r') Q (length D)
     \<and> D = take (length D) Q"

definition duplex_inv :: "duplex \<Rightarrow> bool" where
  "duplex_inv s \<longleftrightarrow> link_ok (dx_a s) (dx_b s) (dx_qa s) (dx_db s) \<and> link_ok (dx_b s) (dx_a s) (dx_qb s) (dx_da s)
     \<and> (\<forall>x \<in> dx_ab s. in_flight_ok (dx_qa s) (length (dx_da s)) (length (dx_db s)) x)
     \<and> (\<forall>x \<in> dx_ba s. in_flight_ok (dx_qb s) (length (dx_db s)) (length (dx_da s)) x)"

lemma duplex_inv_swap: "duplex_inv (swap s) \<longleftrightarrow> duplex_inv s"
  by (auto simp: duplex_inv_def swap_def)

lemma swap_swap [simp]: "swap (swap s) = s"
  by (simp add: swap_def)

subsection \<open>What a peer emits\<close>

lemma data_frame_encodes:
  assumes "sends c Q base" "i < length Q"
  shows "\<exists>b. frame_encode (data_frame Q i) = Inr b"
proof -
  have "Q ! i \<in> set Q" using assms(2) by simp
  then have "Q ! i \<noteq> []" "length (Q ! i) \<le> CTL_MAX_PAYLOAD" using assms(1) by (auto simp: sends_def)
  then show ?thesis by (simp add: frame_encode_def data_frame_def Let_def)
qed

lemma ack_frame_encodes: "\<exists>b. frame_encode (ack_frame a) = Inr b"
  by (simp add: frame_encode_def ack_frame_def Let_def)

lemma rc_flush_data:
  assumes "sends (rc_outbound r) Q base"
  shows "\<exists>out. rc_flush r again = Inr out \<and> (\<forall>x \<in> set out. base < length Q \<and> frame_encode (data_frame Q base) = Inr (fst x))
     \<and> (base < length Q \<longrightarrow> (\<exists>b. out = [(b, again)]))"
proof (cases "base < length Q")
  case True
  then obtain b where "frame_encode (data_frame Q base) = Inr b" using data_frame_encodes [OF assms] by blast
  then show ?thesis using True next_frame_oldest [OF assms]
    by (simp add: rc_flush_def send_frame_def data_frame_def)
qed (simp add: rc_flush_def next_frame_oldest [OF assms])

lemma flushed_in_flight:
  assumes "sends c Q base" "base \<le> n" "\<forall>x \<in> set out. base < length Q \<and> frame_encode (data_frame Q base) = Inr (fst x)"
    and "x \<in> stamped out (length Q) got"
  shows "in_flight_ok Q got n x"
proof -
  have "length Q \<le> base + CTL_WINDOW" using sends_span [OF assms(1)] by (simp add: CTL_WINDOW_def)
  then show ?thesis using assms(2-) by (auto simp: in_flight_ok_def stamped_def CTL_WINDOW_def intro!: disjI1 exI [of _ base])
qed

lemma in_flight_mono:
  assumes "in_flight_ok Q got n x" "got \<le> got'" "n \<le> n'"
  shows "in_flight_ok (Q @ R) got' n' x"
proof -
  have "data_frame (Q @ R) i = data_frame Q i" if "i < length Q" for i using that by (simp add: data_frame_def nth_append)
  then show ?thesis using assms by (fastforce simp: in_flight_ok_def split: prod.splits)
qed

lemmas in_flight_later = in_flight_mono [where R = "[]", simplified]

subsection \<open>Operations keep the links\<close>

definition own_frame :: "bytes list \<Rightarrow> nat \<Rightarrow> nat \<Rightarrow> bytes \<times> bool \<Rightarrow> bool" where
  "own_frame Q base m x \<longleftrightarrow> base < length Q \<and> frame_encode (data_frame Q base) = Inr (fst x)
     \<or> 0 < m \<and> frame_encode (ack_frame (m - 1)) = Inr (fst x)"

lemma own_in_flight:
  assumes "sends c Q base" "base \<le> n" "\<forall>x \<in> set out. own_frame Q base got x" "x \<in> stamped out (length Q) got"
  shows "in_flight_ok Q got n x"
proof -
  have "length Q \<le> base + CTL_WINDOW" using sends_span [OF assms(1)] by (simp add: CTL_WINDOW_def)
  moreover obtain b where x: "x = (b, length Q, got)" "\<exists>f. own_frame Q base got (b, f)" using assms(3,4) by (auto simp: stamped_def)
  ultimately show ?thesis using assms(2)
    by (auto simp: in_flight_ok_def own_frame_def CTL_WINDOW_def intro: exI [of _ base])
qed

lemma rc_receive_data:
  assumes S: "sends (rc_outbound r) Q base" and R: "receives (rc_inbound r) P n"
    and i: "i < length P" "i < n + CTL_WINDOW" "n < i + 2147483648" and b: "frame_encode (data_frame P i) = Inr b"
  shows "\<exists>r' m out. rc_receive r (control_packet k b) = (r', Inr (Some (take (m - n) (drop n P), out)))
     \<and> n \<le> m \<and> (i \<le> n \<longrightarrow> i < m) \<and> receives (rc_inbound r') P m \<and> rc_outbound r' = rc_outbound r
     \<and> (\<forall>x \<in> set out. own_frame Q base m x) \<and> (0 < m \<longrightarrow> (\<exists>x \<in> set out. frame_encode (ack_frame (m - 1)) = Inr (fst x)))"
proof -
  obtain c' v where cv: "channel_receive (rc_inbound r) (data_frame P i) = (c', v)" by fastforce
  obtain m where m: "m \<ge> n" "receives c' P m" "cv_delivered v = take (m - n) (drop n P)" "i \<le> n \<longrightarrow> i < m"
    using receive_data [OF R i cv] by blast
  define r' where "r' = r\<lparr>rc_inbound := c'\<rparr>"
  have S': "sends (rc_outbound r') Q base" using S by (simp add: r'_def)
  obtain out where out: "rc_flush r' False = Inr out" "\<forall>x \<in> set out. base < length Q \<and> frame_encode (data_frame Q base) = Inr (fst x)"
    using rc_flush_data [OF S'] by blast
  obtain w where w: "frame_encode (ack_frame (m - 1)) = Inr w" using ack_frame_encodes by blast
  define acks where "acks = (if m = 0 then [] else [(w, False)])"
  have "frame_decode b = Inr (data_frame P i)" using b by (rule frame_roundtrip) (simp add: data_frame_def)
  moreover have "cf_acknowledgement (data_frame P i) = None" "\<not> cf_ack_only (data_frame P i)" by (simp_all add: data_frame_def)
  ultimately have "rc_receive r (control_packet k b) = (r', Inr (Some (cv_delivered v, acks @ out)))"
    using cv out(1) w receives_ack_frame [OF m(2)]
    by (simp add: rc_receive_def control_packet_def Let_def send_frame_def acks_def r'_def [symmetric])
  then show ?thesis using m out(2) w by (auto simp: own_frame_def acks_def r'_def intro!: exI [of _ r'] exI [of _ m] exI [of _ "acks @ out"])
qed

lemma rc_receive_ack:
  assumes S: "sends (rc_outbound r) Q base" and R: "receives (rc_inbound r) P n"
    and a: "a < length Q" "length Q \<le> a + 2147483648" and b: "frame_encode (ack_frame a) = Inr b"
  shows "\<exists>r' out. rc_receive r (control_packet k b) = (r', Inr (Some ([], out)))
     \<and> sends (rc_outbound r') Q (max base (Suc a)) \<and> rc_inbound r' = rc_inbound r
     \<and> (\<forall>x \<in> set out. own_frame Q (max base (Suc a)) n x)"
proof -
  define r' where "r' = r\<lparr>rc_outbound := channel_acknowledge (rc_outbound r) (of_nat a)\<rparr>"
  have S': "sends (rc_outbound r') Q (max base (Suc a))"
    using channel_acknowledge_sends [OF S, of a "length Q"] a by (simp add: r'_def)
  obtain out where out: "rc_flush r' False = Inr out"
      "\<forall>x \<in> set out. max base (Suc a) < length Q \<and> frame_encode (data_frame Q (max base (Suc a))) = Inr (fst x)"
    using rc_flush_data [OF S'] by blast
  have "frame_decode b = Inr (ack_frame a)" using b by (rule frame_roundtrip) (simp add: ack_frame_def)
  moreover have "cf_acknowledgement (ack_frame a) = Some (of_nat a)" "cf_ack_only (ack_frame a)" by (simp_all add: ack_frame_def)
  ultimately have "rc_receive r (control_packet k b) = (r', Inr (Some ([], out)))"
    using out(1) receive_ack [OF R] by (simp add: rc_receive_def control_packet_def Let_def r'_def)
  then show ?thesis using S' out(2) by (intro exI [of _ r'] exI [of _ out]) (auto simp: own_frame_def r'_def)
qed

lemma rc_send_link:
  assumes S: "sends (rc_outbound r) Q base" and e: "rc_send r p = (r', Inr (sq, out))"
    and q: "q = (if sq = None then Q else Q @ [p])"
  shows "sends (rc_outbound r') q base \<and> rc_inbound r' = rc_inbound r \<and> (\<forall>x \<in> set out. own_frame q base m x)"
proof -
  obtain c v where cv: "channel_queue (rc_outbound r) p = (c, v)" by fastforce
  note C = channel_queue_sends [OF S cv]
  have r': "rc_inbound r' = rc_inbound r" "sends (rc_outbound r') q base" "rc_flush r' False = Inr out"
    using e C cv S q by (auto simp: rc_send_def Let_def split: sum.splits ctl_error.splits)
  then show ?thesis using rc_flush_data [OF r'(2), of False] by (auto simp: own_frame_def)
qed

lemma link_okE:
  assumes "link_ok r r' Q D"
  obtains base where "base \<le> length D" "sends (rc_outbound r) Q base" "receives (rc_inbound r') Q (length D)"
    "D = take (length D) Q" "length D \<le> length Q"
  using assms by (auto simp: link_ok_def receives_def)

lemma prefix_grows: "D = take (length D) Q \<Longrightarrow> length D \<le> m \<Longrightarrow> D @ take (m - length D) (drop (length D) Q) = take m Q"
  using take_add [of "length D" "m - length D" Q] by simp

lemma peer_step_inv:
  assumes "peer_step s t" "duplex_inv s"
  shows "duplex_inv t"
proof -
  have "link_ok (dx_a s) (dx_b s) (dx_qa s) (dx_db s)" "link_ok (dx_b s) (dx_a s) (dx_qb s) (dx_da s)"
    using assms(2) by (simp_all add: duplex_inv_def)
  then obtain base base' where A: "base \<le> length (dx_db s)" "sends (rc_outbound (dx_a s)) (dx_qa s) base"
      "receives (rc_inbound (dx_b s)) (dx_qa s) (length (dx_db s))" "dx_db s = take (length (dx_db s)) (dx_qa s)"
      "length (dx_db s) \<le> length (dx_qa s)"
    and B: "base' \<le> length (dx_da s)" "sends (rc_outbound (dx_b s)) (dx_qb s) base'"
      "receives (rc_inbound (dx_a s)) (dx_qb s) (length (dx_da s))" "dx_da s = take (length (dx_da s)) (dx_qb s)"
      "length (dx_da s) \<le> length (dx_qb s)"
    by (elim link_okE) blast
  have F: "\<forall>x \<in> dx_ab s. in_flight_ok (dx_qa s) (length (dx_da s)) (length (dx_db s)) x"
    "\<forall>x \<in> dx_ba s. in_flight_ok (dx_qb s) (length (dx_db s)) (length (dx_da s)) x"
    using assms(2) by (simp_all add: duplex_inv_def)
  show ?thesis using assms(1)
  proof cases
    case (ps_send p r sq out q)
    have L: "sends (rc_outbound r) q base" "rc_inbound r = rc_inbound (dx_a s)"
        "\<forall>x \<in> set out. own_frame q base (length (dx_da s)) x"
      using rc_send_link [OF A(2) ps_send(2,3)] by blast+
    obtain R where q: "q = dx_qa s @ R" using ps_send(3) by (cases "sq = None") auto
    have "dx_db s = take (length (dx_db s)) q" using A(4,5) q by (metis take_append diff_is_0_eq' take0 append_Nil2)
    then show ?thesis unfolding ps_send(1) duplex_inv_def link_ok_def
      using A B F L own_in_flight [OF L(1) A(1) L(3)] receives_mono [OF A(3), of R] in_flight_mono [of "dx_qa s" _ _ _ _ _ R]
      by (auto simp: q)
  next
    case (ps_retry out)
    obtain out' where "rc_flush (dx_a s) True = Inr out'"
        "\<forall>x \<in> set out'. base < length (dx_qa s) \<and> frame_encode (data_frame (dx_qa s) base) = Inr (fst x)"
      using rc_flush_data [OF A(2)] by blast
    then have "\<forall>x \<in> set out. own_frame (dx_qa s) base (length (dx_da s)) x"
      using ps_retry(2) by (auto simp: rc_retry_def own_frame_def)
    from own_in_flight [OF A(2,1) this] show ?thesis unfolding ps_retry(1) duplex_inv_def link_ok_def using A B F by auto
  next
    case (ps_receive b q d n r got out)
    have "in_flight_ok (dx_qb s) (length (dx_db s)) (length (dx_da s)) (b, q, d)" using F(2) ps_receive(2) by blast
    then consider (data) i where "i < q" "q \<le> length (dx_qb s)" "q \<le> i + CTL_WINDOW" "i < length (dx_da s) + CTL_WINDOW"
        "frame_encode (data_frame (dx_qb s) i) = Inr b"
      | (ack) "0 < d" "d \<le> length (dx_db s)" "frame_encode (ack_frame (d - 1)) = Inr b"
      by (auto simp: in_flight_ok_def)
    then show ?thesis
    proof cases
      case data
      have i: "i < length (dx_qb s)" "length (dx_da s) < i + 2147483648" using data ps_receive(3) by (auto simp: CTL_WINDOW_def)
      obtain m where m: "got = take (m - length (dx_da s)) (drop (length (dx_da s)) (dx_qb s))" "length (dx_da s) \<le> m"
          "receives (rc_inbound r) (dx_qb s) m" "rc_outbound r = rc_outbound (dx_a s)" "\<forall>x \<in> set out. own_frame (dx_qa s) base m x"
        using rc_receive_data [OF A(2) B(3) i(1) data(4) i(2) data(5), of n] ps_receive(5) by auto
      have g: "dx_da s @ got = take m (dx_qb s)" using prefix_grows [OF B(4) m(2)] m(1) by simp
      have mq: "m \<le> length (dx_qb s)" using m(3) by (simp add: receives_def)
      have "\<forall>x \<in> stamped out (length (dx_qa s)) m. in_flight_ok (dx_qa s) m (length (dx_db s)) x"
        using own_in_flight [OF A(2,1) m(5)] by blast
      moreover have "\<forall>x \<in> dx_ab s. in_flight_ok (dx_qa s) m (length (dx_db s)) x" using F(1) in_flight_later m(2) by blast
      moreover have "\<forall>x \<in> dx_ba s. in_flight_ok (dx_qb s) (length (dx_db s)) m x" using F(2) in_flight_later m(2) by blast
      moreover have "base' \<le> m" using B(1) m(2) by simp
      ultimately show ?thesis unfolding ps_receive(1) duplex_inv_def link_ok_def using A B(2) m(3,4) mq
        by (auto simp: g min.absorb2 simp del: length_append)
    next
      case ack
      have a: "d - 1 < length (dx_qa s)" "length (dx_qa s) \<le> d - 1 + 2147483648"
        using ack A(5) ps_receive(4) by (auto simp: CTL_WINDOW_def)
      have k: "got = []" "sends (rc_outbound r) (dx_qa s) (max base (Suc (d - 1)))" "rc_inbound r = rc_inbound (dx_a s)"
          "\<forall>x \<in> set out. own_frame (dx_qa s) (max base (Suc (d - 1))) (length (dx_da s)) x"
        using rc_receive_ack [OF A(2) B(3) a ack(3), of n] ps_receive(5) by auto
      have le: "max base (Suc (d - 1)) \<le> length (dx_db s)" using A(1) ack by simp
      have "\<exists>base \<le> length (dx_db s). sends (rc_outbound r) (dx_qa s) base" using k(2) le by blast
      then show ?thesis unfolding ps_receive(1) duplex_inv_def link_ok_def
        using own_in_flight [OF k(2) le k(4)] A B F k(1,3) by auto
    qed
  next
    case (ps_lose net)
    then show ?thesis using assms(2) by (auto simp: duplex_inv_def)
  qed
qed

lemma duplex_start_inv: "duplex_start s \<Longrightarrow> duplex_inv s"
  by (auto simp: duplex_start_def duplex_inv_def link_ok_def sends_def receives_def holds_from_def rc_new_def
      channel_new_def CTL_WINDOW_def)

interpretation control: invariant_system duplex_start duplex_step duplex_inv
proof
  show "duplex_inv t" if "duplex_inv s" "duplex_step s t" for s t
    using that peer_step_inv [of s t] peer_step_inv [of "swap s" "swap t"] by (auto simp: duplex_step_def duplex_inv_swap)
qed (rule duplex_start_inv)

text \<open>
  C7: The control channel delivers in order, exactly once, and loses nothing silently. Whatever two peers
  queue and however the network loses, repeats, delays and reorders their frames, what each peer has
  delivered is a prefix of what the other queued, and every message not delivered yet is still outstanding
  at its sender.
\<close>

theorem control_in_order:
  assumes "reachable duplex_start duplex_step s"
  shows "dx_db s = take (length (dx_db s)) (dx_qa s) \<and> dx_da s = take (length (dx_da s)) (dx_qb s)
    \<and> map snd (ch_outstanding (rc_outbound (dx_a s))) = drop (length (dx_qa s) - length (ch_outstanding (rc_outbound (dx_a s)))) (dx_qa s)
    \<and> length (dx_qa s) \<le> length (dx_db s) + length (ch_outstanding (rc_outbound (dx_a s)))
    \<and> length (dx_qb s) \<le> length (dx_da s) + length (ch_outstanding (rc_outbound (dx_b s)))"
proof -
  have I: "duplex_inv s" by (rule control.reachable_inv) (rule assms)
  then obtain base base' where A: "base \<le> length (dx_db s)" "sends (rc_outbound (dx_a s)) (dx_qa s) base"
      "dx_db s = take (length (dx_db s)) (dx_qa s)"
    and B: "base' \<le> length (dx_da s)" "sends (rc_outbound (dx_b s)) (dx_qb s) base'" "dx_da s = take (length (dx_da s)) (dx_qb s)"
    unfolding duplex_inv_def by (elim conjE link_okE) blast
  have o: "ch_outstanding (rc_outbound (dx_a s)) = map (\<lambda>i. (of_nat i, dx_qa s ! i)) [base..<length (dx_qa s)]"
      "length (ch_outstanding (rc_outbound (dx_b s))) = length (dx_qb s) - base'" "base \<le> length (dx_qa s)"
    using A(2) B(2) by (auto simp: sends_def)
  have "map snd (ch_outstanding (rc_outbound (dx_a s))) = drop base (dx_qa s)"
    by (rule nth_equalityI) (use o in auto)
  moreover have "length (dx_qa s) - length (ch_outstanding (rc_outbound (dx_a s))) = base" using o(1,3) by simp
  ultimately show ?thesis using A B o by auto
qed

text \<open>
  C16: Retrying always makes progress. In every reachable state in which a peer has something outstanding,
  one retry that arrives is acknowledged, the acknowledgement that arrives back retires at least one message,
  and everything it retires has been delivered.
\<close>

theorem control_progress:
  assumes "reachable duplex_start duplex_step s" "ch_outstanding (rc_outbound (dx_a s)) \<noteq> []"
  shows "\<exists>b rb got out w f ra out'. rc_retry (dx_a s) = Inr [(b, True)]
    \<and> rc_receive (dx_b s) (control_packet k b) = (rb, Inr (Some (got, out))) \<and> (w, f) \<in> set out
    \<and> rc_receive (dx_a s) (control_packet k' w) = (ra, Inr (Some ([], out')))
    \<and> length (ch_outstanding (rc_outbound ra)) < length (ch_outstanding (rc_outbound (dx_a s)))
    \<and> length (dx_qa s) \<le> length (dx_db s @ got) + length (ch_outstanding (rc_outbound ra))"
proof -
  have I: "duplex_inv s" by (rule control.reachable_inv) (rule assms(1))
  then obtain base base' where A: "base \<le> length (dx_db s)" "sends (rc_outbound (dx_a s)) (dx_qa s) base"
      "receives (rc_inbound (dx_b s)) (dx_qa s) (length (dx_db s))" "dx_db s = take (length (dx_db s)) (dx_qa s)"
      "length (dx_db s) \<le> length (dx_qa s)"
    and B: "sends (rc_outbound (dx_b s)) (dx_qb s) base'" "receives (rc_inbound (dx_a s)) (dx_qb s) (length (dx_da s))"
    unfolding duplex_inv_def by (elim conjE link_okE) blast
  have o: "length (ch_outstanding (rc_outbound r)) = length (dx_qa s) - k" if "sends (rc_outbound r) (dx_qa s) k" for r k
    using that by (simp add: sends_def)
  have lt: "base < length (dx_qa s)" using assms(2) A(2) by (auto simp: sends_def)
  note span = sends_span [OF A(2)]
  obtain b where b: "rc_retry (dx_a s) = Inr [(b, True)]" "frame_encode (data_frame (dx_qa s) base) = Inr b"
    using rc_flush_data [OF A(2), of True] lt by (auto simp: rc_retry_def)
  obtain rb m out where m: "rc_receive (dx_b s) (control_packet k b) =
        (rb, Inr (Some (take (m - length (dx_db s)) (drop (length (dx_db s)) (dx_qa s)), out)))"
      "length (dx_db s) \<le> m" "base \<le> length (dx_db s) \<longrightarrow> base < m" "receives (rc_inbound rb) (dx_qa s) m"
      "0 < m \<longrightarrow> (\<exists>x \<in> set out. frame_encode (ack_frame (m - 1)) = Inr (fst x))"
    using rc_receive_data [OF B(1) A(3) lt _ _ b(2), of k] A(1,5) span by (auto simp: CTL_WINDOW_def)
  then have bm: "base < m" "m \<le> length (dx_qa s)" using A(1) by (auto simp: receives_def)
  then obtain w f where w: "(w, f) \<in> set out" "frame_encode (ack_frame (m - 1)) = Inr w" using m(5) by auto
  have a: "m - 1 < length (dx_qa s)" "length (dx_qa s) \<le> m - 1 + 2147483648" using bm span by auto
  obtain ra out' where r: "rc_receive (dx_a s) (control_packet k' w) = (ra, Inr (Some ([], out')))"
      "sends (rc_outbound ra) (dx_qa s) (max base (Suc (m - 1)))"
    using rc_receive_ack [OF A(2) B(2) a w(2), of k'] by blast
  have e: "max base (Suc (m - 1)) = m" using bm by simp
  have "length (dx_db s @ take (m - length (dx_db s)) (drop (length (dx_db s)) (dx_qa s))) = m" using m(2) bm(2) by simp
  then show ?thesis using b(1) m(1) w(1) r(1) o [OF A(2)] o [OF r(2)] e bm lt by (intro exI conjI) auto
qed

section \<open>A concrete exchange\<close>

definition demo_wire :: bytes where
  "demo_wire = [0x4F, 0x43, 1, 0, 0, 0, 0, 0, 0, 0, 0, 0, 7]"

definition demo_sender :: reliable_control where
  "demo_sender = fst (rc_send (rc_new 4) [7])"

definition demo_duplex :: duplex where
  "demo_duplex = \<lparr>dx_a = rc_new 4, dx_b = rc_new 4, dx_qa = [], dx_qb = [], dx_da = [], dx_db = [], dx_ab = {}, dx_ba = {}\<rparr>"

definition demo_duplex_sent :: duplex where
  "demo_duplex_sent = demo_duplex\<lparr>dx_a := demo_sender, dx_qa := [[7]], dx_ab := {(demo_wire, 1, 0)}\<rparr>"

lemma demo_send: "rc_send (rc_new 4) [7] = (demo_sender, Inr (Some 0, [(demo_wire, False)]))"
  by (simp add: demo_sender_def rc_send_def rc_new_def channel_new_def channel_queue_def rc_flush_def next_frame_def
      send_frame_def frame_encode_def demo_wire_def ctl_consts to_be32_def Let_def)

lemma demo_duplex_reachable: "reachable duplex_start duplex_step demo_duplex_sent"
proof -
  have "duplex_start demo_duplex" by (auto simp: duplex_start_def demo_duplex_def CTL_WINDOW_def intro!: exI [of _ 4])
  moreover have "peer_step demo_duplex demo_duplex_sent"
    using ps_send [of demo_duplex "[7]" demo_sender "Some 0" "[(demo_wire, False)]"] demo_send
    by (simp add: demo_duplex_def demo_duplex_sent_def stamped_def)
  ultimately show ?thesis by (auto intro: reach_step [OF reach_start] simp: duplex_step_def)
qed

definition demo_receiver :: reliable_control where
  "demo_receiver = fst (rc_receive (rc_new 4) (control_packet 0 demo_wire))"

definition demo_ctl_ack :: bytes where
  "demo_ctl_ack = [0x4F, 0x43, 1, 3, 0, 0, 0, 0, 0, 0, 0, 0]"

lemma demo_receive: "rc_receive (rc_new 4) (control_packet 0 demo_wire) = (demo_receiver, Inr (Some ([[7]], [(demo_ctl_ack, False)])))"
  by (simp add: demo_receiver_def rc_receive_def control_packet_def frame_decode_def demo_wire_def demo_ctl_ack_def rc_new_def channel_new_def
      channel_receive_def drain_waiting.simps acknowledgement_frame_def rc_flush_def next_frame_def send_frame_def frame_encode_def
      of_be32_def to_be32_def ctl_consts Let_def)

definition demo_delivered :: duplex where
  "demo_delivered = demo_duplex_sent\<lparr>dx_b := demo_receiver, dx_db := [[7]], dx_ba := {(demo_ctl_ack, 0, 1)}\<rparr>"

lemma demo_delivered_reachable: "reachable duplex_start duplex_step demo_delivered"
proof -
  have "peer_step (swap demo_duplex_sent) (swap demo_delivered)"
    using ps_receive [of demo_wire 1 0 "swap demo_duplex_sent" 0 demo_receiver "[[7]]" "[(demo_ctl_ack, False)]"] demo_receive
    by (simp add: demo_duplex_sent_def demo_delivered_def demo_duplex_def swap_def stamped_def CTL_WINDOW_def)
  then show ?thesis using reach_step [OF demo_duplex_reachable] by (simp add: duplex_step_def)
qed

theorem control_in_order_witness:
  "dx_db demo_delivered = take (length (dx_db demo_delivered)) (dx_qa demo_delivered) \<and> dx_db demo_delivered = [[7]]"
  using control_in_order [OF demo_delivered_reachable] by (simp add: demo_delivered_def demo_duplex_sent_def)

theorem control_progress_witness:
  "\<exists>b rb got out w f ra out'. rc_retry (dx_a demo_duplex_sent) = Inr [(b, True)]
    \<and> rc_receive (dx_b demo_duplex_sent) (control_packet 5 b) = (rb, Inr (Some (got, out))) \<and> (w, f) \<in> set out
    \<and> rc_receive (dx_a demo_duplex_sent) (control_packet 6 w) = (ra, Inr (Some ([], out'))) \<and> ch_outstanding (rc_outbound ra) = []"
proof -
  have o: "length (ch_outstanding (rc_outbound (dx_a demo_duplex_sent))) = 1"
    by (simp add: demo_duplex_sent_def demo_sender_def rc_send_def rc_new_def channel_new_def channel_queue_def ctl_consts Let_def)
  then have "ch_outstanding (rc_outbound (dx_a demo_duplex_sent)) \<noteq> []" by auto
  from control_progress [OF demo_duplex_reachable this, of 5 6] show ?thesis unfolding o less_one length_0_conv by blast
qed

end
