(* ===== verification/Transport_Ack.thy ===== *)
theory Transport_Ack
  imports Counter_Window Delivery_Properties
begin

text \<open>
  Transport acknowledgements of the portable session: the metadata record (\<open>protocol/src/transport_meta.rs\<close>),
  the receive window that coalesces acknowledgements (\<open>client-core/src/transport_ack.rs\<close>), and what a
  window's acknowledgement does to the sender's delivery estimator. A \<open>Duration\<close> is its nanoseconds.
\<close>

section \<open>The record\<close>

record transport_ack =
  ta_generation :: u64
  ta_largest_counter :: u64
  ta_received_mask :: u64
  ta_ack_delay_us :: u32

datatype meta_error =
    MetaInvalidLength nat nat | MetaUnsupportedVersion byte | MetaUnsupportedRecordType byte | MetaReservedBytes
  | MetaLargestNotAcknowledged | MetaCounterUnderflow | MetaAckDelayTooLarge u32

definition META_VERSION :: byte where "META_VERSION = 1"
definition ACK_RECORD_TYPE :: byte where "ACK_RECORD_TYPE = 1"
definition META_RECORD_LEN :: nat where "META_RECORD_LEN = 32"

definition meta_encode :: "transport_ack \<Rightarrow> meta_error + bytes" where
  "meta_encode a =
     (if ta_received_mask a AND 1 = 0 then Inl MetaLargestNotAcknowledged
      else if MAX_ACK_DELAY_US < ta_ack_delay_us a then Inl (MetaAckDelayTooLarge (ta_ack_delay_us a))
      else Inr ([META_VERSION, ACK_RECORD_TYPE, 0, 0] @ to_be64 (ta_generation a) @ to_be64 (ta_largest_counter a)
        @ to_be64 (ta_received_mask a) @ to_be32 (ta_ack_delay_us a)))"

definition mask_underflows :: "u64 \<Rightarrow> u64 \<Rightarrow> bool" where
  "mask_underflows received largest \<longleftrightarrow> list_ex (\<lambda>n. received AND push_bit n 1 \<noteq> 0 \<and> largest < of_nat n) [1..<64]"

definition meta_decode :: "bytes \<Rightarrow> meta_error + transport_ack" where
  "meta_decode b =
     (if length b \<noteq> META_RECORD_LEN then Inl (MetaInvalidLength META_RECORD_LEN (length b))
      else if b ! 0 \<noteq> META_VERSION then Inl (MetaUnsupportedVersion (b ! 0))
      else if b ! 1 \<noteq> ACK_RECORD_TYPE then Inl (MetaUnsupportedRecordType (b ! 1))
      else if b ! 2 \<noteq> 0 \<or> b ! 3 \<noteq> 0 then Inl MetaReservedBytes
      else let generation = of_be64 (take 8 (drop 4 b)); largest = of_be64 (take 8 (drop 12 b));
               received = of_be64 (take 8 (drop 20 b)) in
        if received AND 1 = 0 then Inl MetaLargestNotAcknowledged
        else let delay = of_be32 (b ! 28) (b ! 29) (b ! 30) (b ! 31) in
          if MAX_ACK_DELAY_US < delay then Inl (MetaAckDelayTooLarge delay)
          else if mask_underflows received largest then Inl MetaCounterUnderflow
          else Inr \<lparr>ta_generation = generation, ta_largest_counter = largest, ta_received_mask = received,
                    ta_ack_delay_us = delay\<rparr>)"

section \<open>The receive window\<close>

record ack_config =
  ac_packet_threshold :: byte
  ac_max_delay :: nat
  ac_immediate_on_gap :: bool

datatype ack_config_error = ZeroPacketThreshold | ZeroMaxDelay | MaxDelayTooLarge

definition ack_config_default :: ack_config where
  "ack_config_default = \<lparr>ac_packet_threshold = 2, ac_max_delay = 2000000, ac_immediate_on_gap = True\<rparr>"

definition ack_config_validate :: "ack_config \<Rightarrow> ack_config_error + ack_config" where
  "ack_config_validate c =
     (if ac_packet_threshold c = 0 then Inl ZeroPacketThreshold
      else if ac_max_delay c = 0 then Inl ZeroMaxDelay
      else if unat MAX_ACK_DELAY_US * 1000 < ac_max_delay c then Inl MaxDelayTooLarge
      else Inr c)"

datatype ack_window_error = WindowInvalidGeneration | WindowInvalidPolicy ack_config_error

record ack_window =
  aw_config :: ack_config
  aw_generation :: u64
  aw_largest_counter :: "u64 option"
  aw_received_mask :: u64
  aw_pending_mask :: u64
  aw_largest_received_at_ms :: f64
  aw_pending_since_ms :: "f64 option"
  aw_force_ack :: bool

definition ack_window_try_new :: "u64 \<Rightarrow> ack_config \<Rightarrow> ack_window_error + ack_window" where
  "ack_window_try_new generation config =
     (if generation = 0 then Inl WindowInvalidGeneration
      else case ack_config_validate config of Inl e \<Rightarrow> Inl (WindowInvalidPolicy e)
      | Inr c \<Rightarrow> Inr \<lparr>aw_config = c, aw_generation = generation, aw_largest_counter = None, aw_received_mask = 0,
          aw_pending_mask = 0, aw_largest_received_at_ms = Fin 0, aw_pending_since_ms = None, aw_force_ack = False\<rparr>)"

text \<open>\<open>u64::count_ones\<close>, \<open>Duration::as_secs_f64\<close>, \<open>f64::round\<close> and the saturating cast to \<open>u32\<close>.\<close>

definition count_ones :: "u64 \<Rightarrow> nat" where
  "count_ones w = length (filter (bit w) [0..<64])"

definition as_secs_f64 :: "nat \<Rightarrow> f64" where
  "as_secs_f64 ns = fadd (f64_of_nat (ns div 1000000000)) (fdiv (f64_of_nat (ns mod 1000000000)) (rnd 1000000000))"

fun fround :: "f64 \<Rightarrow> f64" where
  "fround (Fin q) = Fin (of_int (if 0 \<le> q then \<lfloor>q + 1 / 2\<rfloor> else - \<lfloor>- q + 1 / 2\<rfloor>))"
| "fround x = x"

fun u32_of_f64 :: "f64 \<Rightarrow> u32" where
  "u32_of_f64 NaN = 0"
| "u32_of_f64 PInf = - 1"
| "u32_of_f64 NInf = 0"
| "u32_of_f64 (Fin q) = (if q < 0 then 0 else if 4294967295 \<le> q then - 1 else of_nat (nat \<lfloor>q\<rfloor>))"

definition pending_count :: "ack_window \<Rightarrow> nat" where
  "pending_count w = count_ones (aw_pending_mask w)"

definition mark_pending :: "ack_window \<Rightarrow> f64 \<Rightarrow> bool \<Rightarrow> ack_window" where
  "mark_pending w received_at_ms gap =
     (let w = (if aw_pending_since_ms w = None then w\<lparr>aw_pending_since_ms := Some received_at_ms\<rparr> else w)
      in w\<lparr>aw_force_ack := aw_force_ack w \<or> gap \<and> ac_immediate_on_gap (aw_config w)\<rparr>)"

definition observe_valid :: "ack_window \<Rightarrow> u64 \<Rightarrow> f64 \<Rightarrow> ack_window" where
  "observe_valid w counter received_at_ms = (case aw_largest_counter w of
     None \<Rightarrow> w\<lparr>aw_largest_counter := Some counter, aw_received_mask := 1, aw_pending_mask := 1,
               aw_largest_received_at_ms := received_at_ms, aw_pending_since_ms := Some received_at_ms\<rparr>
   | Some largest \<Rightarrow>
       if largest < counter then
         (let delta = unat (counter - largest);
              w = (if 64 \<le> delta then w\<lparr>aw_received_mask := 1, aw_pending_mask := 1\<rparr>
                   else w\<lparr>aw_received_mask := push_bit delta (aw_received_mask w) OR 1,
                          aw_pending_mask := push_bit delta (aw_pending_mask w) OR 1\<rparr>)
          in mark_pending (w\<lparr>aw_largest_counter := Some counter, aw_largest_received_at_ms := received_at_ms\<rparr>)
               received_at_ms (1 < delta))
       else
         (let offset = unat (largest - counter) in
          if 64 \<le> offset then w
          else if aw_received_mask w AND push_bit offset 1 \<noteq> 0 then w
          else mark_pending (w\<lparr>aw_received_mask := aw_received_mask w OR push_bit offset 1,
                               aw_pending_mask := aw_pending_mask w OR push_bit offset 1\<rparr>) received_at_ms True))"

definition observe_admits :: "ack_window \<Rightarrow> f64 \<Rightarrow> bool" where
  "observe_admits w received_at_ms \<longleftrightarrow> is_finite received_at_ms \<and> \<not> flt received_at_ms (Fin 0) \<and>
     (case aw_pending_since_ms w of
        None \<Rightarrow> \<not> (aw_largest_counter w \<noteq> None \<and> flt received_at_ms (aw_largest_received_at_ms w))
      | Some last_received_at_ms \<Rightarrow> \<not> flt received_at_ms last_received_at_ms)"

definition window_observe :: "ack_window \<Rightarrow> u64 \<Rightarrow> f64 \<Rightarrow> ack_window" where
  "window_observe w counter received_at_ms =
     (if observe_admits w received_at_ms then observe_valid w counter received_at_ms else w)"

definition window_due :: "ack_window \<Rightarrow> f64 \<Rightarrow> bool" where
  "window_due w now_ms = (case aw_pending_since_ms w of None \<Rightarrow> False
   | Some since \<Rightarrow>
       if \<not> is_finite now_ms \<or> flt now_ms since then False
       else aw_force_ack w \<or> unat (ac_packet_threshold (aw_config w)) \<le> pending_count w
         \<or> fle (fmul (as_secs_f64 (ac_max_delay (aw_config w))) (rnd 1000)) (fsub now_ms since))"

definition window_take :: "ack_window \<Rightarrow> f64 \<Rightarrow> u64 \<Rightarrow> ack_window \<times> transport_ack option" where
  "window_take w now_ms generation =
     (if generation \<noteq> aw_generation w \<or> \<not> window_due w now_ms then (w, None)
      else case aw_largest_counter w of None \<Rightarrow> (w, None)
      | Some largest \<Rightarrow>
          (let delay_ms = fmin (fmax (fsub now_ms (aw_largest_received_at_ms w)) (Fin 0))
                 (fdiv (f64_of_nat (unat MAX_ACK_DELAY_US)) (rnd 1000));
               delay_us = u32_of_f64 (fround (fmul delay_ms (rnd 1000)));
               ack = \<lparr>ta_generation = aw_generation w, ta_largest_counter = largest,
                      ta_received_mask = aw_received_mask w, ta_ack_delay_us = min delay_us MAX_ACK_DELAY_US\<rparr>
           in (w\<lparr>aw_pending_mask := 0, aw_pending_since_ms := None, aw_force_ack := False\<rparr>, Some ack)))"

definition window_reset :: "ack_window \<Rightarrow> u64 \<Rightarrow> ack_window" where
  "window_reset w generation = (if generation = 0 then w
     else w\<lparr>aw_generation := generation, aw_largest_counter := None, aw_received_mask := 0, aw_pending_mask := 0,
            aw_largest_received_at_ms := Fin 0, aw_pending_since_ms := None, aw_force_ack := False\<rparr>)"

text \<open>The wait \<open>next_wake\<close> asks for, in seconds, before its conversion to a \<open>Duration\<close>.\<close>

definition next_wake_secs :: "ack_window \<Rightarrow> f64 \<Rightarrow> f64 option" where
  "next_wake_secs w now_ms = (case aw_pending_since_ms w of None \<Rightarrow> None
   | Some since \<Rightarrow>
       if window_due w now_ms then Some (Fin 0)
       else let due_ms = fadd since (fmul (as_secs_f64 (ac_max_delay (aw_config w))) (rnd 1000));
                wait_ms = fmax (fsub due_ms now_ms) (Fin 0)
            in if is_finite wait_ms then Some (fdiv wait_ms (rnd 1000)) else None)"

section \<open>The window mirrors what was observed\<close>

definition ack_window_inv :: "ack_window \<times> nat set \<Rightarrow> bool" where
  "ack_window_inv s = (case s of (w, R) \<Rightarrow> aw_generation w \<noteq> 0
     \<and> (case aw_largest_counter w of None \<Rightarrow> R = {} \<and> aw_pending_since_ms w = None
        | Some h \<Rightarrow> unat h \<in> R \<and> window_holds R (unat h) (aw_received_mask w)))"

lemma mark_pending_frame [simp]:
  "aw_largest_counter (mark_pending w t g) = aw_largest_counter w"
  "aw_received_mask (mark_pending w t g) = aw_received_mask w"
  "aw_generation (mark_pending w t g) = aw_generation w"
  by (simp_all add: mark_pending_def Let_def)

lemma observe_valid_inv:
  assumes "ack_window_inv (w, R)"
  shows "ack_window_inv (observe_valid w c t, insert (unat c) R)"
proof (cases "aw_largest_counter w")
  case None
  then show ?thesis using assms by (simp add: ack_window_inv_def observe_valid_def window_first)
next
  case (Some h)
  then have w: "unat h \<in> R" "window_holds R (unat h) (aw_received_mask w)" "aw_generation w \<noteq> 0"
    using assms by (simp_all add: ack_window_inv_def)
  show ?thesis
  proof (cases "h < c")
    case True
    then have d: "unat h < unat c" "unat (c - h) = unat c - unat h" by (simp_all add: u64_le_unat unat_u64_diff)
    show ?thesis
    proof (cases "64 \<le> unat c - unat h")
      case far: True
      show ?thesis using Some True d far w(3) window_jump [OF w(2) d(1) far]
        by (simp add: observe_valid_def ack_window_inv_def Let_def)
    next
      case False
      then show ?thesis using Some True d w(3) window_shift [OF w(2) d(1)]
        by (simp add: observe_valid_def ack_window_inv_def Let_def)
    qed
  next
    case False
    then have d: "unat c \<le> unat h" "unat (h - c) = unat h - unat c" by (simp_all add: u64_le_unat unat_u64_diff)
    consider (far) "64 \<le> unat h - unat c" | (seen) "unat h - unat c < 64" "aw_received_mask w AND push_bit (unat h - unat c) 1 \<noteq> 0"
      | (new) "unat h - unat c < 64" "aw_received_mask w AND push_bit (unat h - unat c) 1 = 0" by linarith
    then show ?thesis
    proof cases
      case far
      then show ?thesis using Some False d w window_old [OF w(2) d(1) far]
        by (simp add: observe_valid_def ack_window_inv_def Let_def)
    next
      case seen
      then have "unat c \<in> R" using and_push_bit_eq_0_u64 window_bit [OF w(2) d(1)] by blast
      then have "insert (unat c) R = R" by blast
      then show ?thesis using Some False d seen assms by (simp add: observe_valid_def Let_def)
    next
      case new
      then show ?thesis using Some False d w window_mark [OF w(2) d(1) new(1)]
        by (simp add: observe_valid_def ack_window_inv_def Let_def)
    qed
  qed
qed

text \<open>A window and the counters it was shown since its generation began.\<close>

inductive ack_window_step :: "ack_window \<times> nat set \<Rightarrow> ack_window \<times> nat set \<Rightarrow> bool" where
  aw_observe: "ack_window_step (w, R) (window_observe w c t, if observe_admits w t then insert (unat c) R else R)"
| aw_take: "ack_window_step (w, R) (fst (window_take w t g), R)"
| aw_reset: "ack_window_step (w, R) (window_reset w g, if g = 0 then R else {})"

definition ack_window_start :: "ack_window \<times> nat set \<Rightarrow> bool" where
  "ack_window_start s \<longleftrightarrow> (\<exists>g c w. ack_window_try_new g c = Inr w \<and> s = (w, {}))"

lemma ack_window_step_inv: "ack_window_step s s' \<Longrightarrow> ack_window_inv s \<Longrightarrow> ack_window_inv s'"
proof (induction rule: ack_window_step.induct)
  case (aw_observe w R c t)
  then show ?case using observe_valid_inv by (auto simp: window_observe_def)
next
  case (aw_take w R t g)
  then show ?case by (auto simp: ack_window_inv_def window_take_def Let_def split: option.splits)
next
  case (aw_reset w R g)
  then show ?case by (auto simp: ack_window_inv_def window_reset_def)
qed

interpretation receipts: invariant_system ack_window_start ack_window_step ack_window_inv
proof
  show "ack_window_inv s" if "ack_window_start s" for s
    using that by (auto simp: ack_window_start_def ack_window_try_new_def ack_window_inv_def split: if_splits sum.splits)
qed (rule ack_window_step_inv)

section \<open>From the window to the estimator\<close>

lemma mask_underflows_eq: "mask_underflows received largest \<longleftrightarrow> underflows largest received"
proof -
  have "received AND push_bit n 1 \<noteq> 0 \<longleftrightarrow> bit received n" if "n \<in> set [1..<64]" for n
    using that and_push_bit_eq_0_u64 [of n received] by auto
  then show ?thesis unfolding mask_underflows_def underflows_def list_ex_iff by (auto simp del: push_bit_of_1)
qed

lemma window_no_underflow: "window_holds R (unat h) m \<Longrightarrow> \<not> underflows h m"
  by (auto simp: underflows_def list_ex_iff window_holds_def word_less_nat_alt unat_of_nat take_bit_nat_eq_self)

lemma window_low_bit: "window_holds R (unat h) m \<Longrightarrow> unat h \<in> R \<Longrightarrow> m AND 1 \<noteq> 0"
  using and_push_bit_eq_0_u64 [of 0 m] by (auto simp: window_holds_def)

lemma meta_roundtrip:
  assumes "ta_received_mask a AND 1 \<noteq> 0" "ta_ack_delay_us a \<le> MAX_ACK_DELAY_US"
    and "\<not> underflows (ta_largest_counter a) (ta_received_mask a)"
  shows "\<exists>b. meta_encode a = Inr b \<and> meta_decode b = Inr a"
proof -
  let ?b = "[META_VERSION, ACK_RECORD_TYPE, 0, 0] @ to_be64 (ta_generation a) @ to_be64 (ta_largest_counter a)
    @ to_be64 (ta_received_mask a) @ to_be32 (ta_ack_delay_us a)"
  have parts: "length ?b = META_RECORD_LEN" "?b ! 0 = META_VERSION" "?b ! 1 = ACK_RECORD_TYPE" "?b ! 2 = 0" "?b ! 3 = 0"
      "take 8 (drop 4 ?b) = to_be64 (ta_generation a)" "take 8 (drop 12 ?b) = to_be64 (ta_largest_counter a)"
      "take 8 (drop 20 ?b) = to_be64 (ta_received_mask a)"
      "of_be32 (?b ! 28) (?b ! 29) (?b ! 30) (?b ! 31) = ta_ack_delay_us a"
    by (simp_all add: META_RECORD_LEN_def nth_append to_be32_def)
  have "meta_decode ?b = Inr a" unfolding meta_decode_def parts Let_def of_be64_id mask_underflows_eq
    using assms by (simp add: not_less)
  then show ?thesis using assms by (simp add: meta_encode_def not_less)
qed

lemma window_take_ack:
  assumes "ack_window_inv (w, R)" "window_take w now g = (w', Some a)"
  shows "ta_generation a = g \<and> g \<noteq> 0 \<and> ta_ack_delay_us a \<le> MAX_ACK_DELAY_US \<and> unat (ta_largest_counter a) \<in> R
    \<and> window_holds R (unat (ta_largest_counter a)) (ta_received_mask a)"
  using assms by (auto simp: window_take_def ack_window_inv_def Let_def split: if_splits option.splits)

lemma window_named:
  assumes "window_holds R (unat h) m"
  shows "named_by 64 h m x \<longleftrightarrow> unat (sp_outer_counter x) \<in> R \<and> unat h < unat (sp_outer_counter x) + 64"
proof -
  have "named_by 64 h m x \<longleftrightarrow> (\<exists>i < 64. bit m i \<and> unat (sp_outer_counter x) + i = unat h)"
    by (auto simp: named_by_def list_ex_iff)
  also have "\<dots> \<longleftrightarrow> unat (sp_outer_counter x) \<in> R \<and> unat h < unat (sp_outer_counter x) + 64"
  proof
    assume "\<exists>i < 64. bit m i \<and> unat (sp_outer_counter x) + i = unat h"
    then obtain i where i: "i < 64" "bit m i" "unat (sp_outer_counter x) + i = unat h" by blast
    then have "unat h - i \<in> R" using assms by (simp add: window_holds_def)
    moreover have "unat h - i = unat (sp_outer_counter x)" using i(3) by arith
    ultimately show "unat (sp_outer_counter x) \<in> R \<and> unat h < unat (sp_outer_counter x) + 64" using i(1,3) by simp
  next
    assume r: "unat (sp_outer_counter x) \<in> R \<and> unat h < unat (sp_outer_counter x) + 64"
    then have le: "unat (sp_outer_counter x) \<le> unat h" using window_bounds [OF assms] by blast
    then show "\<exists>i < 64. bit m i \<and> unat (sp_outer_counter x) + i = unat h"
      using window_bit [OF assms le] r by (intro exI [of _ "unat h - unat (sp_outer_counter x)"]) auto
  qed
  finally show ?thesis .
qed

lemma acknowledge_accepts:
  assumes "delivery_inv e" "g = de_generation e" "g \<noteq> 0" "acceptable_timestamp e now" "d \<le> MAX_ACK_DELAY_US"
    and "de_highest_sent e = Some highest" "largest \<le> highest" "\<not> underflows largest received"
  shows "\<exists>e' r. acknowledge e g largest received d now = (e', Inr r)
    \<and> de_history e' = retired (named_by 64 largest received) (de_history e)"
proof -
  obtain e' r where a: "acknowledge e g largest received d now = (e', r)" by fastforce
  obtain e1 p where l: "acknowledge_loop g largest received e = (e1, p)" by fastforce
  have "ack_state e largest received 64 (e1, p)" using acknowledge_loop_state [OF assms(1,8,2)] l by simp
  then have "de_history e1 = retired (named_by 64 largest received) (de_history e)" by (simp add: ack_state_def)
  moreover have "\<not> highest < largest" using assms(7) by simp
  ultimately show ?thesis using assms(2-6,8) l by (cases "ap_largest p") (auto simp: acknowledge_def Let_def)
qed

text \<open>
  C25: Acknowledgements mean receipt, from one end to the other. Whatever counters a receive window is shown
  and whenever its acknowledgement is taken, the record encodes and reads back unchanged, the sender's
  estimator of that generation accepts it, and it retires exactly the unresolved packets whose counters
  were observed within 64 of the largest one: never a packet that did not arrive.
\<close>

theorem transport_ack_end_to_end:
  assumes "reachable ack_window_start ack_window_step (w, R)" "window_take w now g = (w', Some a)"
    and "reachable delivery_start delivery_step (e, ps)" "de_generation e = g" "acceptable_timestamp e t"
    and "de_highest_sent e = Some highest" "\<forall>c \<in> R. c \<le> unat highest"
  shows "\<exists>b e' r. meta_encode a = Inr b \<and> meta_decode b = Inr a
    \<and> acknowledge e (ta_generation a) (ta_largest_counter a) (ta_received_mask a) (ta_ack_delay_us a) t = (e', Inr r)
    \<and> de_history e' = retired (\<lambda>x. unat (sp_outer_counter x) \<in> R
         \<and> unat (ta_largest_counter a) < unat (sp_outer_counter x) + 64) (de_history e)"
proof -
  have inv: "ack_window_inv (w, R)" by (rule receipts.reachable_inv) (rule assms(1))
  have "account_inv (e, ps)" by (rule ledger.reachable_inv) (rule assms(3))
  then have e: "delivery_inv e" by (simp add: account_inv_def)
  note A = window_take_ack [OF inv assms(2)]
  note W = A [THEN conjunct2, THEN conjunct2, THEN conjunct2, THEN conjunct2]
  note U = window_no_underflow [OF W]
  obtain b where b: "meta_encode a = Inr b" "meta_decode b = Inr a"
    using meta_roundtrip [OF window_low_bit [OF W]] A U by blast
  have "ta_largest_counter a \<le> highest" "ta_generation a = de_generation e" "ta_generation a \<noteq> 0" "ta_ack_delay_us a \<le> MAX_ACK_DELAY_US"
    using A assms(4,7) by (simp_all add: word_le_nat_alt)
  from acknowledge_accepts [OF e this(2,3) assms(5) this(4) assms(6) this(1) U] obtain e' r where k: "acknowledge e (ta_generation a) (ta_largest_counter a) (ta_received_mask a) (ta_ack_delay_us a) t = (e', Inr r)"
      "de_history e' = retired (named_by 64 (ta_largest_counter a) (ta_received_mask a)) (de_history e)"
    by blast
  have "named_by 64 (ta_largest_counter a) (ta_received_mask a)
      = (\<lambda>x. unat (sp_outer_counter x) \<in> R \<and> unat (ta_largest_counter a) < unat (sp_outer_counter x) + 64)"
    using window_named [OF W] by (simp add: fun_eq_iff)
  then show ?thesis using b k by metis
qed

section \<open>A concrete acknowledgement\<close>

definition demo_ack_config :: ack_config where
  "demo_ack_config = \<lparr>ac_packet_threshold = 1, ac_max_delay = 2000000, ac_immediate_on_gap = True\<rparr>"

definition demo_ack_window :: ack_window where
  "demo_ack_window = (case ack_window_try_new 1 demo_ack_config of Inr w \<Rightarrow> window_observe w 7 (Fin 1))"

lemma demo_ack_window_eq:
  "demo_ack_window = \<lparr>aw_config = demo_ack_config, aw_generation = 1, aw_largest_counter = Some 7, aw_received_mask = 1,
     aw_pending_mask = 1, aw_largest_received_at_ms = Fin 1, aw_pending_since_ms = Some (Fin 1), aw_force_ack = False\<rparr>"
  by (simp add: demo_ack_window_def ack_window_try_new_def demo_ack_config_def ack_config_validate_def
      window_observe_def observe_admits_def observe_valid_def MAX_ACK_DELAY_US_def)

lemma demo_ack_window_reach: "reachable ack_window_start ack_window_step (demo_ack_window, {7})"
proof -
  obtain w where w: "ack_window_try_new 1 demo_ack_config = Inr w" "demo_ack_window = window_observe w 7 (Fin 1)"
      "observe_admits w (Fin 1)"
    by (simp add: demo_ack_window_def ack_window_try_new_def demo_ack_config_def ack_config_validate_def
      observe_admits_def MAX_ACK_DELAY_US_def)
  then have "ack_window_start (w, {})" by (auto simp: ack_window_start_def)
  then have "reachable ack_window_start ack_window_step (w, {})" by (rule reach_start)
  then have "reachable ack_window_start ack_window_step
      (window_observe w 7 (Fin 1), if observe_admits w (Fin 1) then insert (unat (7 :: u64)) {} else {})"
    by (rule reach_step) (rule aw_observe)
  then show ?thesis using w by simp
qed

theorem transport_ack_end_to_end_witness:
  "\<exists>w' a b e' r. window_take demo_ack_window (Fin 9) 1 = (w', Some a) \<and> meta_encode a = Inr b \<and> meta_decode b = Inr a
    \<and> acknowledge demo_recorded (ta_generation a) (ta_largest_counter a) (ta_received_mask a) (ta_ack_delay_us a) (Fin 9) = (e', Inr r)
    \<and> de_history e' ! 7 = None"
proof -
  have "filter (bit (1 :: u64)) [0..<64] = [0]" by (simp add: upt_rec bit_1_iff)
  then have "pending_count demo_ack_window = 1" by (simp add: pending_count_def count_ones_def demo_ack_window_eq)
  then have "window_due demo_ack_window (Fin 9)"
    by (simp add: window_due_def) (simp add: demo_ack_window_eq demo_ack_config_def)
  then obtain w' a where a: "window_take demo_ack_window (Fin 9) 1 = (w', Some a)"
    by (simp add: window_take_def demo_ack_window_eq Let_def)
  have "acceptable_timestamp demo_recorded (Fin 9)" by (simp add: acceptable_timestamp_def demo_recorded_fields)
  from transport_ack_end_to_end [OF demo_ack_window_reach a demo_recorded_reach demo_recorded_fields(2) this demo_recorded_fields(3)]
  obtain b e' r where k: "meta_encode a = Inr b" "meta_decode b = Inr a"
    "acknowledge demo_recorded (ta_generation a) (ta_largest_counter a) (ta_received_mask a) (ta_ack_delay_us a) (Fin 9) = (e', Inr r)"
    "de_history e' = retired (\<lambda>x. unat (sp_outer_counter x) \<in> {7} \<and> unat (ta_largest_counter a) < unat (sp_outer_counter x) + 64)
       (de_history demo_recorded)"
    by auto
  have "ta_largest_counter a = 7" using a by (auto simp: window_take_def demo_ack_window_eq Let_def split: if_splits)
  then have "de_history e' ! 7 = None" using k(4) by (simp add: demo_recorded_fields retired_nth demo_packet_def)
  then show ?thesis using a k(1-3) by blast
qed

end
