(* ===== verification/Path_Control.thy ===== *)
theory Path_Control
  imports Core_Base
begin

text \<open>
  Path-control records (\<open>protocol/src/path_control.rs\<close>): the bounded record format of a path migration.
  A token is its 16 bytes.
\<close>

section \<open>Records\<close>

definition PC_VERSION :: byte where "PC_VERSION = 1"
definition MAX_PATH_CONTROL_BYTES :: nat where "MAX_PATH_CONTROL_BYTES = 64"
definition PATH_TOKEN_BYTES :: nat where "PATH_TOKEN_BYTES = 16"
definition PC_HEADER_LEN :: nat where "PC_HEADER_LEN = 4"
definition REQUEST_LEN :: nat where "REQUEST_LEN = PC_HEADER_LEN + 4"
definition PREPARE_LEN :: nat where "PREPARE_LEN = PC_HEADER_LEN + 8 + PATH_TOKEN_BYTES"
definition TOKEN_RECORD_LEN :: nat where "TOKEN_RECORD_LEN = PC_HEADER_LEN + 8 + PATH_TOKEN_BYTES"
definition READY_LEN :: nat where "READY_LEN = TOKEN_RECORD_LEN + 2"
definition ABORT_LEN :: nat where "ABORT_LEN = PC_HEADER_LEN + 8"

lemmas pc_consts = PC_VERSION_def MAX_PATH_CONTROL_BYTES_def PATH_TOKEN_BYTES_def PC_HEADER_LEN_def REQUEST_LEN_def
  PREPARE_LEN_def TOKEN_RECORD_LEN_def READY_LEN_def ABORT_LEN_def

datatype path_kind = PkDirectUdp | PkOpaqueRelay | PkIce

datatype abort_reason =
    ArUnsupported | ArTimeout | ArCandidateUnavailable | ArProbeFailed | ArPmtuUnavailable | ArResourceLimit
  | ArCommitUnconfirmed

datatype path_control =
    PcRequest u32 path_kind
  | PcPrepare u64 path_kind bytes
  | PcProbe u64 bytes
  | PcProbeAck u64 bytes
  | PcReady u64 bytes u16
  | PcCommit u64 bytes
  | PcCommitAck u64 bytes
  | PcAbort u64 abort_reason

datatype pc_error =
    PcTooLarge | PcTruncated nat nat | PcInvalidLength nat nat | PcUnsupportedVersion byte | PcUnknownRecordType byte
  | PcReservedBits byte | PcInvalidPathKind byte | PcInvalidAbortReason byte | PcZeroGeneration | PcZeroToken
  | PcInvalidDatagramSize u16

definition path_kind_code :: "path_kind \<Rightarrow> byte" where
  "path_kind_code k = (case k of PkDirectUdp \<Rightarrow> 1 | PkOpaqueRelay \<Rightarrow> 2 | PkIce \<Rightarrow> 3)"

definition decode_path_kind :: "byte \<Rightarrow> pc_error + path_kind" where
  "decode_path_kind b = (if b = 1 then Inr PkDirectUdp else if b = 2 then Inr PkOpaqueRelay
     else if b = 3 then Inr PkIce else Inl (PcInvalidPathKind b))"

definition abort_reason_code :: "abort_reason \<Rightarrow> byte" where
  "abort_reason_code r = (case r of ArUnsupported \<Rightarrow> 1 | ArTimeout \<Rightarrow> 2 | ArCandidateUnavailable \<Rightarrow> 3
     | ArProbeFailed \<Rightarrow> 4 | ArPmtuUnavailable \<Rightarrow> 5 | ArResourceLimit \<Rightarrow> 6 | ArCommitUnconfirmed \<Rightarrow> 7)"

definition decode_abort_reason :: "byte \<Rightarrow> pc_error + abort_reason" where
  "decode_abort_reason b = (if b = 1 then Inr ArUnsupported else if b = 2 then Inr ArTimeout
     else if b = 3 then Inr ArCandidateUnavailable else if b = 4 then Inr ArProbeFailed
     else if b = 5 then Inr ArPmtuUnavailable else if b = 6 then Inr ArResourceLimit
     else if b = 7 then Inr ArCommitUnconfirmed else Inl (PcInvalidAbortReason b))"

section \<open>Encoding\<close>

definition pc_header :: "byte \<Rightarrow> byte \<Rightarrow> bytes" where
  "pc_header record_type field = [PC_VERSION, record_type, field, 0]"

definition validate_generation_and_token :: "u64 \<Rightarrow> bytes \<Rightarrow> pc_error + unit" where
  "validate_generation_and_token generation token =
     (if generation = 0 then Inl PcZeroGeneration
      else if list_all (\<lambda>b. b = 0) token then Inl PcZeroToken else Inr ())"

definition encode_token_record :: "byte \<Rightarrow> u64 \<Rightarrow> bytes \<Rightarrow> pc_error + bytes" where
  "encode_token_record record_type generation token = (case validate_generation_and_token generation token of
     Inl e \<Rightarrow> Inl e | Inr _ \<Rightarrow> Inr (pc_header record_type 0 @ to_be64 generation @ token))"

definition pc_encode :: "path_control \<Rightarrow> pc_error + bytes" where
  "pc_encode r = (case r of
     PcRequest request_id kind \<Rightarrow> Inr (pc_header 1 (path_kind_code kind) @ to_be32 request_id)
   | PcPrepare generation kind token \<Rightarrow> (case validate_generation_and_token generation token of
       Inl e \<Rightarrow> Inl e | Inr _ \<Rightarrow> Inr (pc_header 2 (path_kind_code kind) @ to_be64 generation @ token))
   | PcProbe generation token \<Rightarrow> encode_token_record 3 generation token
   | PcProbeAck generation token \<Rightarrow> encode_token_record 4 generation token
   | PcReady generation token datagram_size \<Rightarrow> (case validate_generation_and_token generation token of
       Inl e \<Rightarrow> Inl e
     | Inr _ \<Rightarrow> if datagram_size = 0 then Inl (PcInvalidDatagramSize datagram_size)
         else Inr (pc_header 5 0 @ to_be64 generation @ token @ to_be16 datagram_size))
   | PcCommit generation token \<Rightarrow> encode_token_record 6 generation token
   | PcCommitAck generation token \<Rightarrow> encode_token_record 7 generation token
   | PcAbort generation reason \<Rightarrow> if generation = 0 then Inl PcZeroGeneration
       else Inr (pc_header 8 (abort_reason_code reason) @ to_be64 generation))"

section \<open>Decoding\<close>

definition require_exact :: "bytes \<Rightarrow> nat \<Rightarrow> pc_error + unit" where
  "require_exact b expected = (if length b < expected then Inl (PcTruncated expected (length b))
     else if length b \<noteq> expected then Inl (PcInvalidLength expected (length b)) else Inr ())"

definition decode_generation :: "bytes \<Rightarrow> pc_error + u64" where
  "decode_generation b = (let generation = of_be64 (take 8 (drop 4 b)) in
     if generation = 0 then Inl PcZeroGeneration else Inr generation)"

definition decode_generation_and_token :: "bytes \<Rightarrow> pc_error + (u64 \<times> bytes)" where
  "decode_generation_and_token b = (case decode_generation b of Inl e \<Rightarrow> Inl e
   | Inr generation \<Rightarrow> (let token = take 16 (drop 12 b) in
       if list_all (\<lambda>b. b = 0) token then Inl PcZeroToken else Inr (generation, token)))"

definition decode_token_record :: "bytes \<Rightarrow> byte \<Rightarrow> (u64 \<Rightarrow> bytes \<Rightarrow> path_control) \<Rightarrow> pc_error + path_control" where
  "decode_token_record b field build = (case require_exact b TOKEN_RECORD_LEN of Inl e \<Rightarrow> Inl e
   | Inr _ \<Rightarrow> if field \<noteq> 0 then Inl (PcReservedBits field)
       else case decode_generation_and_token b of Inl e \<Rightarrow> Inl e
       | Inr (generation, token) \<Rightarrow> Inr (build generation token))"

definition pc_decode :: "bytes \<Rightarrow> pc_error + path_control" where
  "pc_decode b =
     (if MAX_PATH_CONTROL_BYTES < length b then Inl PcTooLarge
      else if length b < PC_HEADER_LEN then Inl (PcTruncated PC_HEADER_LEN (length b))
      else if b ! 0 \<noteq> PC_VERSION then Inl (PcUnsupportedVersion (b ! 0))
      else let record_type = b ! 1; field = b ! 2 in
        if b ! 3 \<noteq> 0 then Inl (PcReservedBits (b ! 3))
        else if record_type = 1 then
          (case require_exact b REQUEST_LEN of Inl e \<Rightarrow> Inl e | Inr _ \<Rightarrow>
             case decode_path_kind field of Inl e \<Rightarrow> Inl e
             | Inr kind \<Rightarrow> Inr (PcRequest (of_be32 (b ! 4) (b ! 5) (b ! 6) (b ! 7)) kind))
        else if record_type = 2 then
          (case require_exact b PREPARE_LEN of Inl e \<Rightarrow> Inl e | Inr _ \<Rightarrow>
             case decode_generation_and_token b of Inl e \<Rightarrow> Inl e
             | Inr (generation, token) \<Rightarrow> (case decode_path_kind field of Inl e \<Rightarrow> Inl e
                 | Inr kind \<Rightarrow> Inr (PcPrepare generation kind token)))
        else if record_type = 3 then decode_token_record b field PcProbe
        else if record_type = 4 then decode_token_record b field PcProbeAck
        else if record_type = 5 then
          (case require_exact b READY_LEN of Inl e \<Rightarrow> Inl e | Inr _ \<Rightarrow>
             if field \<noteq> 0 then Inl (PcReservedBits field)
             else case decode_generation_and_token b of Inl e \<Rightarrow> Inl e
             | Inr (generation, token) \<Rightarrow>
                 (let datagram_size = of_be16 (b ! 28) (b ! 29) in
                  if datagram_size = 0 then Inl (PcInvalidDatagramSize datagram_size)
                  else Inr (PcReady generation token datagram_size)))
        else if record_type = 6 then decode_token_record b field PcCommit
        else if record_type = 7 then decode_token_record b field PcCommitAck
        else if record_type = 8 then
          (case require_exact b ABORT_LEN of Inl e \<Rightarrow> Inl e | Inr _ \<Rightarrow>
             case decode_generation b of Inl e \<Rightarrow> Inl e
             | Inr generation \<Rightarrow> (case decode_abort_reason field of Inl e \<Rightarrow> Inl e
                 | Inr reason \<Rightarrow> Inr (PcAbort generation reason)))
        else Inl (PcUnknownRecordType record_type))"

section \<open>The format is exact\<close>

text \<open>The array type fixes the length of a token.\<close>

definition pc_typed :: "path_control \<Rightarrow> bool" where
  "pc_typed r = (case r of PcPrepare _ _ t \<Rightarrow> length t = 16 | PcProbe _ t \<Rightarrow> length t = 16 | PcProbeAck _ t \<Rightarrow> length t = 16
     | PcReady _ t _ \<Rightarrow> length t = 16 | PcCommit _ t \<Rightarrow> length t = 16 | PcCommitAck _ t \<Rightarrow> length t = 16 | _ \<Rightarrow> True)"

lemma path_kind_codes: "decode_path_kind b = Inr k \<longleftrightarrow> b = path_kind_code k"
  by (cases k) (auto simp: decode_path_kind_def path_kind_code_def)

lemma abort_reason_codes: "decode_abort_reason b = Inr r \<longleftrightarrow> b = abort_reason_code r"
  by (cases r) (auto simp: decode_abort_reason_def abort_reason_code_def)

lemma validate_ok: "validate_generation_and_token g t = Inr u \<longleftrightarrow> g \<noteq> 0 \<and> \<not> list_all (\<lambda>b. b = 0) t"
  by (auto simp: validate_generation_and_token_def)

lemma require_exact_ok: "require_exact b n = Inr u \<longleftrightarrow> length b = n"
  by (auto simp: require_exact_def)

lemma split4: "4 \<le> length b \<Longrightarrow> b = [b ! 0, b ! 1, b ! 2, b ! 3] @ drop 4 b"
  by (auto simp: numeral_eq_Suc Suc_le_length_iff)

lemma of_be32_at: "length b = 4 \<Longrightarrow> to_be32 (of_be32 (b ! 0) (b ! 1) (b ! 2) (b ! 3)) = b"
  by (auto simp: length_4_conv)

lemma of_be16_at: "length b = 2 \<Longrightarrow> to_be16 (of_be16 (b ! 0) (b ! 1)) = b"
  by (auto simp: length_2_conv)

text \<open>The generation and token that a body of the right length splits into.\<close>

lemma decode_generation_ok:
  assumes "12 \<le> length b"
  shows "decode_generation b = Inr g \<longleftrightarrow> g \<noteq> 0 \<and> take 8 (drop 4 b) = to_be64 g"
proof -
  have "length (take 8 (drop 4 b)) = 8" using assms by simp
  then have "to_be64 (of_be64 (take 8 (drop 4 b))) = take 8 (drop 4 b)" by (rule to_be64_of_be64)
  then show ?thesis by (auto simp: decode_generation_def Let_def)
qed

lemma decode_generation_and_token_ok:
  assumes "28 \<le> length b"
  shows "decode_generation_and_token b = Inr (g, t) \<longleftrightarrow>
    validate_generation_and_token g t = Inr () \<and> take 24 (drop 4 b) = to_be64 g @ t \<and> length t = 16"
proof -
  have t: "take 24 (drop 4 b) = take 8 (drop 4 b) @ take 16 (drop 12 b)"
    using take_add [of 8 16 "drop 4 b"] by (simp add: add.commute)
  have l: "length (take 8 (drop 4 b)) = 8" "length (take 16 (drop 12 b)) = 16" using assms by simp_all
  have "decode_generation_and_token b = Inr (g, t) \<longleftrightarrow>
      decode_generation b = Inr g \<and> take 16 (drop 12 b) = t \<and> \<not> list_all (\<lambda>b. b = 0) t"
    by (auto simp: decode_generation_and_token_def Let_def split: sum.splits)
  also have "\<dots> \<longleftrightarrow> validate_generation_and_token g t = Inr () \<and> take 24 (drop 4 b) = to_be64 g @ t \<and> length t = 16"
    using decode_generation_ok [of b g] assms l unfolding t validate_ok by (auto dest: arg_cong [of _ _ length])
  finally show ?thesis .
qed

lemma token_record_exact:
  assumes "4 \<le> length b" "b ! 0 = PC_VERSION" "b ! 1 = ty" "b ! 3 = 0"
  shows "decode_token_record b (b ! 2) build = Inr r \<longleftrightarrow>
    (\<exists>g t. r = build g t \<and> length t = 16 \<and> encode_token_record ty g t = Inr b)"
proof (cases "length b = 28 \<and> b ! 2 = 0")
  case True
  have b: "b = pc_header ty 0 @ take 24 (drop 4 b)" using split4 [OF assms(1)] assms(2-4) True by (simp add: pc_header_def)
  have "decode_token_record b (b ! 2) build = Inr r \<longleftrightarrow>
      (\<exists>g t. r = build g t \<and> decode_generation_and_token b = Inr (g, t))"
    using True by (auto simp: decode_token_record_def require_exact_def pc_consts split: sum.splits prod.splits)
  also have "\<dots> \<longleftrightarrow> (\<exists>g t. r = build g t \<and> length t = 16 \<and> encode_token_record ty g t = Inr b)"
  proof -
    have "decode_generation_and_token b = Inr (g, t) \<longleftrightarrow> length t = 16 \<and> encode_token_record ty g t = Inr b" for g t
      using decode_generation_and_token_ok [of b g t] True b
      by (auto simp: encode_token_record_def pc_header_def split: sum.splits)
    then show ?thesis by blast
  qed
  finally show ?thesis .
next
  case False
  have "\<not> (length t = 16 \<and> encode_token_record ty g t = Inr b)" for g t
    using False by (auto simp: encode_token_record_def pc_header_def split: sum.splits)
  moreover have "decode_token_record b (b ! 2) build \<noteq> Inr r"
    using False by (auto simp: decode_token_record_def require_exact_def pc_consts split: sum.splits)
  ultimately show ?thesis by blast
qed

lemma body_of_header: "4 \<le> length b \<Longrightarrow> b ! 0 = PC_VERSION \<Longrightarrow> b ! 3 = 0 \<Longrightarrow> b = pc_header (b ! 1) (b ! 2) @ drop 4 b"
  using split4 [of b] by (simp add: pc_header_def)

lemma header_append_eq: "pc_header ty f @ x = pc_header ty' f' @ y \<longleftrightarrow> ty = ty' \<and> f = f' \<and> x = y"
  by (simp add: pc_header_def)

lemma encode_token_record_iff:
  "encode_token_record ty g t = Inr b \<longleftrightarrow> validate_generation_and_token g t = Inr () \<and> b = pc_header ty 0 @ to_be64 g @ t"
  by (cases "validate_generation_and_token g t") (auto simp: encode_token_record_def)

lemma pc_encode_iff:
  "pc_encode (PcRequest i k) = Inr b \<longleftrightarrow> b = pc_header 1 (path_kind_code k) @ to_be32 i"
  "pc_encode (PcPrepare g k t) = Inr b \<longleftrightarrow>
     validate_generation_and_token g t = Inr () \<and> b = pc_header 2 (path_kind_code k) @ to_be64 g @ t"
  "pc_encode (PcProbe g t) = encode_token_record 3 g t"
  "pc_encode (PcProbeAck g t) = encode_token_record 4 g t"
  "pc_encode (PcReady g t d) = Inr b \<longleftrightarrow>
     validate_generation_and_token g t = Inr () \<and> d \<noteq> 0 \<and> b = pc_header 5 0 @ to_be64 g @ t @ to_be16 d"
  "pc_encode (PcCommit g t) = encode_token_record 6 g t"
  "pc_encode (PcCommitAck g t) = encode_token_record 7 g t"
  "pc_encode (PcAbort g a) = Inr b \<longleftrightarrow> g \<noteq> 0 \<and> b = pc_header 8 (abort_reason_code a) @ to_be64 g"
  by (cases "validate_generation_and_token g t"; auto simp: pc_encode_def)+

text \<open>A record decodes by its type byte, once the header is right.\<close>

lemma pc_decode_header:
  assumes "b = pc_header ty f @ x" "length x \<le> 60"
  shows "pc_decode b =
    (if ty = 1 then (case require_exact b REQUEST_LEN of Inl e \<Rightarrow> Inl e | Inr _ \<Rightarrow>
       case decode_path_kind f of Inl e \<Rightarrow> Inl e | Inr kind \<Rightarrow> Inr (PcRequest (of_be32 (x ! 0) (x ! 1) (x ! 2) (x ! 3)) kind))
     else if ty = 2 then (case require_exact b PREPARE_LEN of Inl e \<Rightarrow> Inl e | Inr _ \<Rightarrow>
       case decode_generation_and_token b of Inl e \<Rightarrow> Inl e
       | Inr (g, t) \<Rightarrow> (case decode_path_kind f of Inl e \<Rightarrow> Inl e | Inr kind \<Rightarrow> Inr (PcPrepare g kind t)))
     else if ty = 3 then decode_token_record b f PcProbe else if ty = 4 then decode_token_record b f PcProbeAck
     else if ty = 5 then (case require_exact b READY_LEN of Inl e \<Rightarrow> Inl e | Inr _ \<Rightarrow>
       if f \<noteq> 0 then Inl (PcReservedBits f) else case decode_generation_and_token b of Inl e \<Rightarrow> Inl e
       | Inr (g, t) \<Rightarrow> (let d = of_be16 (x ! 24) (x ! 25) in if d = 0 then Inl (PcInvalidDatagramSize d) else Inr (PcReady g t d)))
     else if ty = 6 then decode_token_record b f PcCommit else if ty = 7 then decode_token_record b f PcCommitAck
     else if ty = 8 then (case require_exact b ABORT_LEN of Inl e \<Rightarrow> Inl e | Inr _ \<Rightarrow>
       case decode_generation b of Inl e \<Rightarrow> Inl e
       | Inr g \<Rightarrow> (case decode_abort_reason f of Inl e \<Rightarrow> Inl e | Inr reason \<Rightarrow> Inr (PcAbort g reason)))
     else Inl (PcUnknownRecordType ty))"
proof -
  have n: "b ! 0 = PC_VERSION" "b ! 1 = ty" "b ! 2 = f" "b ! 3 = 0"
      "b ! 4 = x ! 0" "b ! 5 = x ! 1" "b ! 6 = x ! 2" "b ! 7 = x ! 3" "b ! 28 = x ! 24" "b ! 29 = x ! 25"
    by (simp_all add: assms(1) pc_header_def)
  have "length b = length x + 4" by (simp add: assms(1) pc_header_def)
  then have l: "(MAX_PATH_CONTROL_BYTES < length b) = False" "(length b < PC_HEADER_LEN) = False" using assms(2) by (auto simp: pc_consts)
  show ?thesis unfolding pc_decode_def n l Let_def by (simp only: if_False simp_thms)
qed

lemma generation_and_token_body:
  "24 \<le> length x \<Longrightarrow> decode_generation_and_token (pc_header ty f @ x) = Inr (g, t) \<longleftrightarrow>
     validate_generation_and_token g t = Inr () \<and> take 24 x = to_be64 g @ t \<and> length t = 16"
  using decode_generation_and_token_ok [of "pc_header ty f @ x" g t] by (simp add: pc_header_def)

lemma header_length [simp]: "length (pc_header ty f) = 4"
  by (simp add: pc_header_def)

lemma token_record_body:
  "decode_token_record (pc_header ty f @ x) f build = Inr r \<longleftrightarrow>
     (\<exists>g t. r = build g t \<and> length t = 16 \<and> encode_token_record ty g t = Inr (pc_header ty f @ x))"
  using token_record_exact [of "pc_header ty f @ x" ty build r] by (simp add: pc_header_def)

lemma pc_encode_shape:
  assumes "pc_encode r = Inr b" "pc_typed r"
  shows "\<exists>ty f x. b = pc_header ty f @ x \<and> length x \<le> 60"
  using assms by (cases r) (auto simp: pc_encode_iff encode_token_record_iff pc_typed_def intro!: exI)

lemma pc_decode_shape:
  assumes "pc_decode b = Inr r"
  shows "\<exists>ty f x. b = pc_header ty f @ x \<and> length x \<le> 60"
proof -
  have "\<not> 64 < length b" "4 \<le> length b" "b ! 0 = PC_VERSION" "b ! 3 = 0"
    using assms by (auto simp: pc_decode_def pc_consts Let_def split: if_splits)
  then show ?thesis using body_of_header [of b] by (intro exI [of _ "b ! 1"] exI [of _ "b ! 2"] exI [of _ "drop 4 b"]) auto
qed

lemma request_body:
  "(case require_exact (pc_header 1 f @ x) REQUEST_LEN of Inl e \<Rightarrow> Inl e | Inr _ \<Rightarrow>
     case decode_path_kind f of Inl e \<Rightarrow> Inl e | Inr kind \<Rightarrow> Inr (PcRequest (of_be32 (x ! 0) (x ! 1) (x ! 2) (x ! 3)) kind)) = Inr r
   \<longleftrightarrow> (\<exists>i k. r = PcRequest i k \<and> f = path_kind_code k \<and> x = to_be32 i)"
proof (cases "length x = 4")
  case True
  have "x = to_be32 i \<longleftrightarrow> i = of_be32 (x ! 0) (x ! 1) (x ! 2) (x ! 3)" for i
    using of_be32_at [OF True] by (auto simp: to_be32_def)
  then show ?thesis using True
    by (cases "decode_path_kind f") (auto simp: require_exact_def pc_consts path_kind_codes [symmetric])
next
  case False
  then show ?thesis by (auto simp: require_exact_def pc_consts)
qed

lemma ready_size:
  assumes "length x = 26"
  shows "take 24 x = y \<and> d = of_be16 (x ! 24) (x ! 25) \<longleftrightarrow> x = y @ to_be16 d \<and> length y = 24"
proof -
  have "length (drop 24 x) = 2" using assms by simp
  then have "to_be16 (of_be16 (x ! 24) (x ! 25)) = drop 24 x" using of_be16_at [of "drop 24 x"] assms by simp
  moreover have "x = take 24 x @ drop 24 x" by simp
  ultimately show ?thesis using assms by (auto simp: to_be16_def nth_append)
qed

lemmas pc_forms = pc_encode_iff encode_token_record_iff header_append_eq pc_typed_def

lemma prepare_body:
  "(case require_exact (pc_header 2 f @ x) PREPARE_LEN of Inl e \<Rightarrow> Inl e | Inr _ \<Rightarrow>
     case decode_generation_and_token (pc_header 2 f @ x) of Inl e \<Rightarrow> Inl e
     | Inr (g, t) \<Rightarrow> (case decode_path_kind f of Inl e \<Rightarrow> Inl e | Inr kind \<Rightarrow> Inr (PcPrepare g kind t))) = Inr r
   \<longleftrightarrow> (\<exists>g k t. r = PcPrepare g k t \<and> f = path_kind_code k \<and> length t = 16
        \<and> validate_generation_and_token g t = Inr () \<and> x = to_be64 g @ t)" (is "?L = Inr r \<longleftrightarrow> ?R")
proof (cases "length x = 24")
  case True
  have "?L = Inr r \<longleftrightarrow> (\<exists>g t k. decode_generation_and_token (pc_header 2 f @ x) = Inr (g, t) \<and> decode_path_kind f = Inr k
      \<and> r = PcPrepare g k t)"
    using True by (auto simp: require_exact_def pc_consts split: sum.splits)
  also have "\<dots> \<longleftrightarrow> ?R" using generation_and_token_body [of x 2 f] True by (auto simp: path_kind_codes)
  finally show ?thesis .
qed (auto simp: require_exact_def pc_consts)

lemma ready_body:
  "(case require_exact (pc_header 5 f @ x) READY_LEN of Inl e \<Rightarrow> Inl e | Inr _ \<Rightarrow>
     if f \<noteq> 0 then Inl (PcReservedBits f) else case decode_generation_and_token (pc_header 5 f @ x) of Inl e \<Rightarrow> Inl e
     | Inr (g, t) \<Rightarrow> (let d = of_be16 (x ! 24) (x ! 25) in if d = 0 then Inl (PcInvalidDatagramSize d) else Inr (PcReady g t d))) = Inr r
   \<longleftrightarrow> (\<exists>g t d. r = PcReady g t d \<and> f = 0 \<and> length t = 16 \<and> validate_generation_and_token g t = Inr () \<and> d \<noteq> 0
        \<and> x = to_be64 g @ t @ to_be16 d)" (is "?L = Inr r \<longleftrightarrow> ?R")
proof (cases "length x = 26 \<and> f = 0")
  case True
  have "?L = Inr r \<longleftrightarrow> (\<exists>g t d. decode_generation_and_token (pc_header 5 f @ x) = Inr (g, t) \<and> d = of_be16 (x ! 24) (x ! 25)
      \<and> d \<noteq> 0 \<and> r = PcReady g t d)"
    using True by (auto simp: require_exact_def pc_consts Let_def split: sum.splits)
  also have "\<dots> \<longleftrightarrow> (\<exists>g t d. validate_generation_and_token g t = Inr () \<and> length t = 16 \<and> d \<noteq> 0 \<and> r = PcReady g t d
      \<and> take 24 x = to_be64 g @ t \<and> d = of_be16 (x ! 24) (x ! 25))"
    using generation_and_token_body [of x 5 f] True by auto
  also have "\<dots> \<longleftrightarrow> ?R" using ready_size [of x] True by auto
  finally show ?thesis .
qed (auto simp: require_exact_def pc_consts)

lemma abort_body:
  "(case require_exact (pc_header 8 f @ x) ABORT_LEN of Inl e \<Rightarrow> Inl e | Inr _ \<Rightarrow>
     case decode_generation (pc_header 8 f @ x) of Inl e \<Rightarrow> Inl e
     | Inr g \<Rightarrow> (case decode_abort_reason f of Inl e \<Rightarrow> Inl e | Inr reason \<Rightarrow> Inr (PcAbort g reason))) = Inr r
   \<longleftrightarrow> (\<exists>g a. r = PcAbort g a \<and> f = abort_reason_code a \<and> g \<noteq> 0 \<and> x = to_be64 g)" (is "?L = Inr r \<longleftrightarrow> ?R")
proof (cases "length x = 8")
  case True
  have "?L = Inr r \<longleftrightarrow> (\<exists>g a. decode_generation (pc_header 8 f @ x) = Inr g \<and> decode_abort_reason f = Inr a \<and> r = PcAbort g a)"
    using True by (auto simp: require_exact_def pc_consts split: sum.splits)
  also have "\<dots> \<longleftrightarrow> ?R" using decode_generation_ok [of "pc_header 8 f @ x"] True by (auto simp: abort_reason_codes pc_header_def)
  finally show ?thesis .
qed (auto simp: require_exact_def pc_consts)

lemma pc_encode_body:
  "pc_typed r \<and> pc_encode r = Inr (pc_header ty f @ x) \<longleftrightarrow>
     (if ty = 1 then \<exists>i k. r = PcRequest i k \<and> f = path_kind_code k \<and> x = to_be32 i
      else if ty = 2 then \<exists>g k t. r = PcPrepare g k t \<and> f = path_kind_code k \<and> length t = 16
        \<and> validate_generation_and_token g t = Inr () \<and> x = to_be64 g @ t
      else if ty = 3 then \<exists>g t. r = PcProbe g t \<and> length t = 16 \<and> encode_token_record ty g t = Inr (pc_header ty f @ x)
      else if ty = 4 then \<exists>g t. r = PcProbeAck g t \<and> length t = 16 \<and> encode_token_record ty g t = Inr (pc_header ty f @ x)
      else if ty = 5 then \<exists>g t d. r = PcReady g t d \<and> f = 0 \<and> length t = 16 \<and> validate_generation_and_token g t = Inr () \<and> d \<noteq> 0
        \<and> x = to_be64 g @ t @ to_be16 d
      else if ty = 6 then \<exists>g t. r = PcCommit g t \<and> length t = 16 \<and> encode_token_record ty g t = Inr (pc_header ty f @ x)
      else if ty = 7 then \<exists>g t. r = PcCommitAck g t \<and> length t = 16 \<and> encode_token_record ty g t = Inr (pc_header ty f @ x)
      else if ty = 8 then \<exists>g a. r = PcAbort g a \<and> f = abort_reason_code a \<and> g \<noteq> 0 \<and> x = to_be64 g
      else False)"
  by (cases r) (simp_all add: pc_forms, auto)

text \<open>
  C30: The path-control format is exact. A record decodes to a message precisely when the message encodes to
  that record: every encodable message reads back unchanged, and no bytes but its encoding decode to it, so
  unknown versions, types, reserved bits, zero generations, zero tokens and wrong lengths are all refused.
\<close>

theorem path_control_exact: "pc_decode b = Inr r \<longleftrightarrow> pc_typed r \<and> pc_encode r = Inr b"
proof (cases "\<exists>ty f x. b = pc_header ty f @ x \<and> length x \<le> 60")
  case False
  then show ?thesis using pc_decode_shape pc_encode_shape by blast
next
  case True
  then obtain ty f x where b: "b = pc_header ty f @ x" "length x \<le> 60" by blast
  have ready: "ty = 5 \<Longrightarrow> ?thesis"
  proof -
    assume t: "ty = 5"
    have n: "((5 :: byte) = 1) = False" "((5 :: byte) = 2) = False" "((5 :: byte) = 3) = False" "((5 :: byte) = 4) = False"
      by simp_all
    show ?thesis unfolding pc_decode_header [OF b] unfolding b(1) pc_encode_body t
      by (simp only: n if_False if_True simp_thms ready_body)
  qed
  consider "ty = 1" | "ty = 2" | "ty = 3" | "ty = 4" | "ty = 5" | "ty = 6" | "ty = 7" | "ty = 8"
    | "ty \<noteq> 1" "ty \<noteq> 2" "ty \<noteq> 3" "ty \<noteq> 4" "ty \<noteq> 5" "ty \<noteq> 6" "ty \<noteq> 7" "ty \<noteq> 8" by blast
  then show ?thesis
  proof cases
    case 1
    then show ?thesis unfolding pc_decode_header [OF b] unfolding b(1) pc_encode_body by (simp add: request_body)
  next
    case 5
    then show ?thesis by (rule ready)
  qed (unfold pc_decode_header [OF b], unfold b(1) pc_encode_body,
      simp_all add: request_body prepare_body token_record_body abort_body cong: sum.case_cong)
qed

end
