(* ===== verification/Migration.thy ===== *)
theory Migration
  imports Path_Control Os_Session
begin

text \<open>
  The path migration controller (\<open>client-core/src/path.rs\<close>): the bounded, clock-driven state machine by which a
  host and a client move a session to a new path. A time is its nanoseconds since some origin, a path slot is its
  generation, and the random token a request may need is an argument of \<open>receive\<close>.
\<close>

section \<open>State\<close>

datatype role = RHost | RClient

datatype migration_state =
    MIdle | MPreparing | MReady | MCommitPending | MActive | MCommitUnconfirmed | MFailed

datatype migration_error =
    CapabilityNotNegotiated | MigrationAlreadyPending | HostMigrationRequired | UnsupportedIceRestart
  | MigrationCommitUnconfirmed | PathUnavailable

datatype migration_action =
    MSend u64 path_control
  | MOpen u64 path_kind bytes
  | MActivate u64
  | MRetire
  | MDiscard

record pending_migration =
  pm_generation :: u64
  pm_token :: bytes
  pm_target :: path_kind
  pm_deadline :: nat
  pm_opened :: bool
  pm_proved :: bool
  pm_peer_ready :: bool
  pm_next_retry :: nat

record migration =
  mg_role :: role
  mg_state :: migration_state
  mg_active :: u64
  mg_pending :: "pending_migration option"
  mg_committed :: "(u64 \<times> bytes) option"
  mg_draining :: "(u64 \<times> nat) option"
  mg_old_failed :: bool
  mg_last_request :: "u32 option"
  mg_old_rtt :: "nat option"

definition FIRST_PATH_GENERATION :: u64 where "FIRST_PATH_GENERATION = 1"
definition MIN_DRAIN_GRACE :: nat where "MIN_DRAIN_GRACE = 250000000"
definition MAX_DRAIN_GRACE :: nat where "MAX_DRAIN_GRACE = 2000000000"
definition COMMIT_RETRY :: nat where "COMMIT_RETRY = 250000000"
definition MIGRATION_DEADLINE :: nat where "MIGRATION_DEADLINE = 5000000000"

definition safe_datagram_size :: u16 where "safe_datagram_size = of_nat OS_MAX_DATAGRAM"

definition drain_grace :: "nat option \<Rightarrow> nat" where
  "drain_grace rtt = min (max ((case rtt of Some d \<Rightarrow> d | None \<Rightarrow> 0) * 3) MIN_DRAIN_GRACE) MAX_DRAIN_GRACE"

definition migration_new :: "role \<Rightarrow> migration" where
  "migration_new role = \<lparr>mg_role = role, mg_state = MIdle, mg_active = FIRST_PATH_GENERATION, mg_pending = None,
     mg_committed = None, mg_draining = None, mg_old_failed = False, mg_last_request = None, mg_old_rtt = None\<rparr>"

definition migration_busy :: "migration \<Rightarrow> bool" where
  "migration_busy m \<longleftrightarrow> mg_pending m \<noteq> None \<or> mg_draining m \<noteq> None \<or> mg_state m = MCommitUnconfirmed"

section \<open>Operations\<close>

definition mig_prepare :: "migration \<Rightarrow> u64 \<Rightarrow> path_kind \<Rightarrow> bytes \<Rightarrow> nat \<Rightarrow> migration \<times> migration_action list" where
  "mig_prepare m generation target token now =
     (m\<lparr>mg_pending := Some \<lparr>pm_generation = generation, pm_token = token, pm_target = target,
          pm_deadline = now + MIGRATION_DEADLINE, pm_opened = False, pm_proved = False, pm_peer_ready = False,
          pm_next_retry = now + COMMIT_RETRY\<rparr>,
        mg_state := MPreparing, mg_old_failed := False\<rparr>, [MOpen generation target token])"

definition mig_start :: "migration \<Rightarrow> path_kind \<Rightarrow> bytes \<Rightarrow> nat \<Rightarrow> migration \<times> (migration_error + migration_action list)" where
  "mig_start m target token now =
     (if mg_pending m \<noteq> None \<or> mg_draining m \<noteq> None \<or> mg_state m = MCommitUnconfirmed
      then (m, Inl MigrationAlreadyPending)
      else if mg_role m \<noteq> RHost then (m, Inl HostMigrationRequired)
      else if target = PkIce then (m, Inl UnsupportedIceRestart)
      else case chk_add (mg_active m) 1 of None \<Rightarrow> (m, Inl PathUnavailable)
      | Some generation \<Rightarrow>
          (case mig_prepare m generation target token now of (m', actions) \<Rightarrow>
            (m', Inr (MSend (mg_active m) (PcPrepare generation target token) # actions))))"

definition application_slot :: "migration \<Rightarrow> migration_error + u64" where
  "application_slot m = (case mg_state m of
     MCommitPending \<Rightarrow> Inl MigrationAlreadyPending
   | MCommitUnconfirmed \<Rightarrow> Inl MigrationCommitUnconfirmed
   | _ \<Rightarrow> Inr (mg_active m))"

definition accepts_application :: "migration \<Rightarrow> u64 \<Rightarrow> nat \<Rightarrow> bool" where
  "accepts_application m slot now \<longleftrightarrow> slot = mg_active m
     \<or> (case mg_draining m of None \<Rightarrow> False | Some (old, until) \<Rightarrow> slot = old \<and> now < until)"

definition mig_opened :: "migration \<Rightarrow> nat \<Rightarrow> migration \<times> migration_action list" where
  "mig_opened m now = (case mg_pending m of None \<Rightarrow> (m, [])
   | Some p \<Rightarrow> (m\<lparr>mg_pending := Some (p\<lparr>pm_opened := True, pm_next_retry := now + COMMIT_RETRY\<rparr>)\<rparr>,
       [MSend (pm_generation p) (PcProbe (pm_generation p) (pm_token p))]))"

definition mig_activate :: "migration \<Rightarrow> pending_migration \<Rightarrow> nat \<Rightarrow> migration \<times> migration_action list" where
  "mig_activate m p now =
     (m\<lparr>mg_pending := None, mg_draining := Some (mg_active m, now + drain_grace (mg_old_rtt m)),
        mg_active := pm_generation p, mg_committed := Some (pm_generation p, pm_token p), mg_state := MActive\<rparr>,
      [MActivate (pm_generation p)])"

text \<open>The last step of \<open>receive\<close>: a host that proved the path and heard the peer commits.\<close>

definition mig_commit :: "migration \<Rightarrow> pending_migration \<Rightarrow> nat \<Rightarrow> migration_action list \<Rightarrow> migration \<times> migration_action list" where
  "mig_commit m p now actions =
     (if mg_role m = RHost \<and> pm_proved p \<and> pm_peer_ready p \<and> mg_state m = MReady
      then (m\<lparr>mg_state := MCommitPending, mg_pending := Some (p\<lparr>pm_next_retry := now + COMMIT_RETRY\<rparr>)\<rparr>,
            actions @ [MSend (if mg_old_failed m then pm_generation p else mg_active m)
              (PcCommit (pm_generation p) (pm_token p))])
      else (m\<lparr>mg_pending := Some p\<rparr>, actions))"

text \<open>A record that carries the generation and token of the pending attempt, before its deadline.\<close>

definition mig_attempt :: "migration \<Rightarrow> pending_migration \<Rightarrow> u64 \<Rightarrow> path_control \<Rightarrow> nat \<Rightarrow> migration \<times> migration_action list" where
  "mig_attempt m p ingress record now =
     (let generation = pm_generation p; token = pm_token p; new = generation; old = mg_active m in
      case record of
        PcProbe _ _ \<Rightarrow>
          if pm_opened p \<and> ingress = new then mig_commit m p now [MSend new (PcProbeAck generation token)]
          else mig_commit m p now []
      | PcProbeAck _ _ \<Rightarrow>
          if pm_opened p \<and> ingress = new \<and> \<not> pm_proved p
          then mig_commit (m\<lparr>mg_state := MReady\<rparr>) (p\<lparr>pm_proved := True\<rparr>) now
                 [MSend old (PcReady generation token safe_datagram_size)]
          else mig_commit m p now []
      | PcReady _ _ datagram_size \<Rightarrow>
          if ingress = old \<and> datagram_size = safe_datagram_size
          then mig_commit m (p\<lparr>pm_peer_ready := True\<rparr>) now [] else mig_commit m p now []
      | PcCommit _ _ \<Rightarrow>
          if mg_role m = RClient \<and> pm_proved p \<and> (ingress = old \<or> ingress = new)
          then (case mig_activate m p now of (m', actions) \<Rightarrow>
            (m', actions @ [MSend new (PcCommitAck generation token)]))
          else mig_commit m p now []
      | PcCommitAck _ _ \<Rightarrow>
          if mg_role m = RHost \<and> mg_state m = MCommitPending \<and> ingress = new then mig_activate m p now
          else mig_commit m p now []
      | _ \<Rightarrow> (m, []))"

definition record_identity :: "path_control \<Rightarrow> (u64 \<times> bytes) option" where
  "record_identity r = (case r of PcProbe g t \<Rightarrow> Some (g, t) | PcProbeAck g t \<Rightarrow> Some (g, t) | PcReady g t _ \<Rightarrow> Some (g, t)
     | PcCommit g t \<Rightarrow> Some (g, t) | PcCommitAck g t \<Rightarrow> Some (g, t) | _ \<Rightarrow> None)"

text \<open>The random token: none when the generator fails or returns zeros.\<close>

definition token_random :: "bytes option \<Rightarrow> migration_error + bytes" where
  "token_random drawn = (case drawn of None \<Rightarrow> Inl PathUnavailable
     | Some b \<Rightarrow> if b = replicate PATH_TOKEN_BYTES 0 then Inl PathUnavailable else Inr b)"

definition mig_request :: "migration \<Rightarrow> u64 \<Rightarrow> u32 \<Rightarrow> path_kind \<Rightarrow> bytes option \<Rightarrow> nat \<Rightarrow> migration \<times> migration_action list" where
  "mig_request m ingress request_id kind drawn now =
     (if mg_role m \<noteq> RHost \<or> ingress \<noteq> mg_active m \<or> mg_last_request m = Some request_id
         \<or> mg_pending m \<noteq> None \<or> mg_draining m \<noteq> None then (m, [])
      else let m = m\<lparr>mg_last_request := Some request_id\<rparr> in
        if kind = PkIce then
          (m, [MSend ingress (PcAbort (case chk_add (mg_active m) 1 of Some g \<Rightarrow> g | None \<Rightarrow> mg_active m) ArUnsupported)])
        else case token_random drawn of Inl _ \<Rightarrow> (m, [])
        | Inr token \<Rightarrow> (case mig_start m kind token now of (m', Inl _) \<Rightarrow> (m', []) | (m', Inr actions) \<Rightarrow> (m', actions)))"

definition mig_prepared :: "migration \<Rightarrow> u64 \<Rightarrow> u64 \<Rightarrow> path_kind \<Rightarrow> bytes \<Rightarrow> nat \<Rightarrow> migration \<times> migration_action list" where
  "mig_prepared m ingress generation kind token now =
     (if mg_role m \<noteq> RClient \<or> ingress \<noteq> mg_active m \<or> chk_add (mg_active m) 1 \<noteq> Some generation
         \<or> token = replicate PATH_TOKEN_BYTES 0 then (m, [])
      else case mg_pending m of
        Some p \<Rightarrow>
          if pm_generation p \<noteq> generation \<or> pm_token p \<noteq> token \<or> pm_target p \<noteq> kind then (m, [])
          else if pm_proved p then (m, [MSend ingress (PcReady generation token safe_datagram_size)])
          else if pm_opened p then (m, [MSend generation (PcProbe generation token)])
          else (m, [])
      | None \<Rightarrow>
          if mg_draining m \<noteq> None then (m, [])
          else if kind = PkIce then (m, [MSend ingress (PcAbort generation ArUnsupported)])
          else mig_prepare m generation kind token now)"

definition mig_aborted :: "migration \<Rightarrow> u64 \<Rightarrow> u64 \<Rightarrow> migration \<times> migration_action list" where
  "mig_aborted m ingress generation =
     (if (case mg_pending m of None \<Rightarrow> False | Some p \<Rightarrow> pm_generation p = generation \<and> ingress = mg_active m
            \<and> (mg_state m = MPreparing \<or> mg_state m = MReady))
      then (m\<lparr>mg_pending := None, mg_state := MFailed\<rparr>, [MDiscard]) else (m, []))"

definition mig_receive :: "migration \<Rightarrow> u64 \<Rightarrow> path_control \<Rightarrow> bytes option \<Rightarrow> nat \<Rightarrow> migration \<times> migration_action list" where
  "mig_receive m ingress record drawn now = (case record of
     PcRequest request_id kind \<Rightarrow> mig_request m ingress request_id kind drawn now
   | PcPrepare generation kind token \<Rightarrow> mig_prepared m ingress generation kind token now
   | PcAbort generation _ \<Rightarrow> mig_aborted m ingress generation
   | _ \<Rightarrow>
       (case record_identity record of None \<Rightarrow> (m, [])
        | Some (generation, token) \<Rightarrow>
            if record = PcCommit generation token \<and> mg_role m = RClient \<and> mg_committed m = Some (generation, token)
               \<and> accepts_application m ingress now
            then (m, [MSend generation (PcCommitAck generation token)])
            else case mg_pending m of None \<Rightarrow> (m, [])
            | Some p \<Rightarrow>
                if generation \<noteq> pm_generation p \<or> token \<noteq> pm_token p \<or> pm_deadline p \<le> now then (m, [])
                else mig_attempt m p ingress record now))"

definition mig_old_path_failed :: "migration \<Rightarrow> migration" where
  "mig_old_path_failed m = m\<lparr>mg_old_failed := True\<rparr>"

definition mig_fail_preparation :: "migration \<Rightarrow> abort_reason \<Rightarrow> migration \<times> migration_action list" where
  "mig_fail_preparation m reason =
     (if mg_state m = MCommitPending \<or> mg_state m = MCommitUnconfirmed
      then (m\<lparr>mg_state := MCommitUnconfirmed\<rparr>, [MDiscard])
      else case mg_pending m of None \<Rightarrow> (m, [])
      | Some p \<Rightarrow> (m\<lparr>mg_pending := None, mg_state := MFailed\<rparr>,
          [MSend (mg_active m) (PcAbort (pm_generation p) reason), MDiscard]))"

definition mig_tick :: "migration \<Rightarrow> nat \<Rightarrow> migration \<times> migration_action list" where
  "mig_tick m now =
     (if (case mg_draining m of None \<Rightarrow> False | Some (_, until) \<Rightarrow> until \<le> now)
      then (m\<lparr>mg_draining := None\<rparr>, [MRetire])
      else case mg_pending m of None \<Rightarrow> (m, [])
      | Some p \<Rightarrow>
          if pm_deadline p \<le> now then mig_fail_preparation m ArTimeout
          else if now < pm_next_retry p then (m, [])
          else let m = m\<lparr>mg_pending := Some (p\<lparr>pm_next_retry := now + COMMIT_RETRY\<rparr>)\<rparr>;
                   generation = pm_generation p; token = pm_token p; old = mg_active m; new = generation in
            if mg_state m = MCommitPending
            then (m, [MSend (if mg_old_failed m then new else old) (PcCommit generation token)])
            else (m, (if mg_role m = RHost then [MSend old (PcPrepare generation (pm_target p) token)] else [])
                   @ (if pm_opened p \<and> \<not> pm_proved p then [MSend new (PcProbe generation token)] else [])
                   @ (if pm_proved p then [MSend old (PcReady generation token safe_datagram_size)] else [])))"

end
