(* ===== verification/Migration_Properties.thy ===== *)
theory Migration_Properties
  imports Migration
begin

text \<open>
  A host and a client that migrate: whatever the network loses, repeats or reorders and whatever the clocks do, the
  two never disagree on the active path by more than the commit in flight, and application data the host may send
  always finds the client listening. A run whose records arrive moves both sides to the new path.
\<close>

section \<open>One controller\<close>

definition locked :: "migration \<Rightarrow> bool" where
  "locked m \<longleftrightarrow> mg_state m = MCommitPending \<or> mg_state m = MCommitUnconfirmed"

text \<open>
  The next thing a controller does: the calls its driver makes, on a record that arrived from \<open>net\<close> over the path the
  record was sent on, at any time and with any outcome of the random generator.
\<close>

inductive mig_local :: "(u64 \<times> path_control) set \<Rightarrow> migration \<Rightarrow> migration \<Rightarrow> migration_action list \<Rightarrow> bool"
  for net :: "(u64 \<times> path_control) set" where
  start: "mig_start m target token now = (m', Inr acts) \<Longrightarrow> mig_local net m m' acts"
| receive: "(slot, rec) \<in> net \<Longrightarrow> mig_receive m slot rec drawn now = (m', acts) \<Longrightarrow> mig_local net m m' acts"
| opened: "mig_opened m now = (m', acts) \<Longrightarrow> mig_local net m m' acts"
| tick: "mig_tick m now = (m', acts) \<Longrightarrow> mig_local net m m' acts"
| abandon: "mig_fail_preparation m reason = (m', acts) \<Longrightarrow> mig_local net m m' acts"
| old_failed: "mig_local net m (mig_old_path_failed m) []"
| measured: "mig_local net m (m\<lparr>mg_old_rtt := rtt\<rparr>) []"
| ask: "mig_local net m m [MSend (mg_active m) (PcRequest request_id kind)]"

definition mig_wf :: "migration \<Rightarrow> bool" where
  "mig_wf m \<longleftrightarrow>
     (\<forall>p. mg_pending m = Some p \<longrightarrow> unat (pm_generation p) = unat (mg_active m) + 1)
     \<and> (locked m \<longrightarrow> mg_role m = RHost \<and> (\<exists>p. mg_pending m = Some p \<and> pm_proved p))
     \<and> (\<forall>g t. mg_committed m = Some (g, t) \<longrightarrow> unat g \<le> unat (mg_active m))"

text \<open>What a controller may do in one call, as its peer sees it.\<close>

definition holds_path :: "migration \<Rightarrow> migration \<Rightarrow> migration_action list \<Rightarrow> bool" where
  "holds_path m m' acts \<longleftrightarrow> mg_active m' = mg_active m \<and> (locked m \<longrightarrow> locked m')
     \<and> (\<forall>s g t. MSend s (PcCommit g t) \<in> set acts \<longrightarrow> unat g = unat (mg_active m) + 1 \<and> locked m')
     \<and> (\<forall>s g t. MSend s (PcCommitAck g t) \<in> set acts \<longrightarrow> mg_role m = RClient \<and> unat g \<le> unat (mg_active m))"

definition moves_host :: "(u64 \<times> path_control) set \<Rightarrow> migration \<Rightarrow> migration \<Rightarrow> migration_action list \<Rightarrow> bool" where
  "moves_host net m m' acts \<longleftrightarrow> mg_role m = RHost \<and> \<not> locked m'
     \<and> (\<exists>s g t. (s, PcCommitAck g t) \<in> net \<and> unat g = unat (mg_active m) + 1 \<and> mg_active m' = g)
     \<and> (\<forall>s r. MSend s r \<notin> set acts)"

definition moves_client :: "(u64 \<times> path_control) set \<Rightarrow> migration \<Rightarrow> migration \<Rightarrow> migration_action list \<Rightarrow> bool" where
  "moves_client net m m' acts \<longleftrightarrow> mg_role m = RClient \<and> \<not> locked m'
     \<and> (\<exists>s g t. (s, PcCommit g t) \<in> net \<and> unat g = unat (mg_active m) + 1 \<and> mg_active m' = g
        \<and> (\<forall>s' r. MSend s' r \<in> set acts \<longrightarrow> r = PcCommitAck g t))"

definition mig_effect :: "(u64 \<times> path_control) set \<Rightarrow> migration \<Rightarrow> migration \<times> migration_action list \<Rightarrow> bool" where
  "mig_effect net m out = (case out of (m', acts) \<Rightarrow> mig_wf m' \<and> mg_role m' = mg_role m
     \<and> (holds_path m m' acts \<or> moves_host net m m' acts \<or> moves_client net m m' acts))"

lemma mig_effect_still: "mig_wf m \<Longrightarrow> (\<And>s g t. MSend s (PcCommit g t) \<notin> set acts) \<Longrightarrow>
    (\<And>s g t. MSend s (PcCommitAck g t) \<notin> set acts) \<Longrightarrow> mig_effect net m (m, acts)"
  by (simp add: mig_effect_def holds_path_def)

lemma unat_chk_add_1: "chk_add (a :: u64) 1 = Some b \<Longrightarrow> unat b = unat a + 1"
  by (auto simp: chk_add_def unat_word_ariths split: if_splits)

lemma mig_prepare_effect:
  assumes "mig_wf m" "\<not> locked m" "unat g = unat (mg_active m) + 1"
  shows "mig_effect net m (mig_prepare m g target token now)"
  using assms by (simp add: mig_effect_def mig_prepare_def holds_path_def mig_wf_def locked_def)

lemma mig_start_effect:
  assumes "mig_wf m" "mig_start m target token now = (m', Inr acts)"
  shows "mig_effect net m (m', acts)"
proof -
  obtain g where idle: "mg_pending m = None" and g: "chk_add (mg_active m) 1 = Some g"
    and out: "(m', acts) = (case mig_prepare m g target token now of (m', a) \<Rightarrow>
      (m', MSend (mg_active m) (PcPrepare g target token) # a))"
    using assms(2) by (auto simp: mig_start_def mig_prepare_def split: if_splits option.splits)
  have "\<not> locked m" using assms(1) idle by (simp add: mig_wf_def)
  from mig_prepare_effect [OF assms(1) this unat_chk_add_1 [OF g], of net target token now] out show ?thesis
    by (simp add: mig_effect_def mig_prepare_def holds_path_def moves_host_def moves_client_def)
qed

lemma mig_start_refused_same: "mig_start m target token now = (m', Inl e) \<Longrightarrow> m' = m"
  by (auto simp: mig_start_def mig_prepare_def split: if_splits option.splits)

lemma mig_request_effect:
  assumes "mig_wf m" shows "mig_effect net m (mig_request m s request_id kind drawn now)"
proof -
  let ?n = "m\<lparr>mg_last_request := Some request_id\<rparr>"
  have wf: "mig_wf ?n" using assms by (simp add: mig_wf_def locked_def)
  have up: "mig_effect net ?n out \<Longrightarrow> mig_effect net m out" for out
    by (auto simp: mig_effect_def holds_path_def moves_host_def moves_client_def locked_def)
  have still: "mig_effect net m (m, [])" using assms by (intro mig_effect_still) auto
  have still': "mig_effect net m (?n, acts)" if "acts = [] \<or> (\<exists>g r. acts = [MSend s (PcAbort g r)])" for acts
    using that by (intro up mig_effect_still wf) auto
  have start: "mig_effect net m (case mig_start ?n kind t now of (m', Inl _) \<Rightarrow> (m', []) | (m', Inr a) \<Rightarrow> (m', a))" for t
  proof (cases "mig_start ?n kind t now")
    case (Pair m' out)
    show ?thesis
    proof (cases out)
      case (Inl e) with Pair mig_start_refused_same [of ?n kind t now m' e] still' [of "[]"] show ?thesis by simp
    next
      case (Inr a) with Pair up [OF mig_start_effect [OF wf, of kind t now m' a]] show ?thesis by simp
    qed
  qed
  show ?thesis
    unfolding mig_request_def Let_def
    by (auto intro!: still still' start split: sum.split)
qed

lemma mig_prepared_effect:
  assumes "mig_wf m" shows "mig_effect net m (mig_prepared m s g kind token now)"
proof -
  have still: "mig_effect net m (m, acts)" if "acts = [] \<or> (\<exists>s' r. acts = [MSend s' r] \<and> (\<forall>g t. r \<noteq> PcCommit g t \<and> r \<noteq> PcCommitAck g t))" for acts
    using that by (intro mig_effect_still assms) auto
  have prep: "mig_effect net m (mig_prepare m g kind token now)" if "mg_pending m = None" "chk_add (mg_active m) 1 = Some g"
    using that assms by (intro mig_prepare_effect unat_chk_add_1) (auto simp: mig_wf_def)
  show ?thesis unfolding mig_prepared_def by (auto intro!: still prep split: option.split)
qed

lemma mig_drop_effect:
  assumes "mig_wf m" "\<not> locked m" "(\<And>s g t. MSend s (PcCommit g t) \<notin> set acts)"
    "(\<And>s g t. MSend s (PcCommitAck g t) \<notin> set acts)"
  shows "mig_effect net m (m\<lparr>mg_pending := None, mg_state := MFailed\<rparr>, acts)"
  using assms by (auto simp: mig_effect_def holds_path_def mig_wf_def locked_def split: option.splits)

lemma mig_aborted_effect:
  assumes "mig_wf m" shows "mig_effect net m (mig_aborted m s g)"
  using assms unfolding mig_aborted_def
  by (auto intro!: mig_effect_still mig_drop_effect simp: locked_def split: option.split)

text \<open>A change of the pending attempt that keeps its generation and its proof.\<close>

lemma mig_pending_effect:
  assumes "mig_wf m" "mg_pending m = Some p" "pm_generation q = pm_generation p" "pm_proved p \<longrightarrow> pm_proved q"
    "st = mg_state m \<or> \<not> locked m \<and> (st = MReady \<or> st = MCommitPending \<and> mg_role m = RHost \<and> pm_proved q)"
    "\<And>s g t. MSend s (PcCommit g t) \<in> set acts \<Longrightarrow> g = pm_generation p \<and> st = MCommitPending"
    "\<And>s g t. MSend s (PcCommitAck g t) \<notin> set acts"
  shows "mig_effect net m (m\<lparr>mg_state := st, mg_pending := Some q\<rparr>, acts)"
proof -
  have "mig_wf (m\<lparr>mg_state := st, mg_pending := Some q\<rparr>)"
    using assms(1-5) by (auto simp: mig_wf_def locked_def)
  moreover have "holds_path m (m\<lparr>mg_state := st, mg_pending := Some q\<rparr>) acts"
    using assms by (auto simp: holds_path_def locked_def mig_wf_def)
  ultimately show ?thesis by (simp add: mig_effect_def)
qed

lemma mig_commit_effect:
  assumes "mig_wf m" "mg_pending m = Some p" "pm_generation q = pm_generation p" "pm_proved p \<longrightarrow> pm_proved q"
    "st = mg_state m \<or> \<not> locked m \<and> st = MReady"
    "\<And>s g t. MSend s (PcCommit g t) \<notin> set acts" "\<And>s g t. MSend s (PcCommitAck g t) \<notin> set acts"
  shows "mig_effect net m (mig_commit (m\<lparr>mg_state := st\<rparr>) q now acts)"
proof (cases "mg_role m = RHost \<and> pm_proved q \<and> pm_peer_ready q \<and> st = MReady")
  case True
  have "\<not> locked m" using assms(5) True by (auto simp: locked_def)
  have "mig_effect net m (m\<lparr>mg_state := MCommitPending, mg_pending := Some (q\<lparr>pm_next_retry := now + COMMIT_RETRY\<rparr>)\<rparr>,
      acts @ [MSend (if mg_old_failed m then pm_generation q else mg_active m) (PcCommit (pm_generation q) (pm_token q))])"
    by (rule mig_pending_effect [OF assms(1,2)]) (use assms True \<open>\<not> locked m\<close> in auto)
  then show ?thesis using True by (simp add: mig_commit_def split: if_split_asm)
next
  case False
  have "mig_effect net m (m\<lparr>mg_state := st, mg_pending := Some q\<rparr>, acts)"
    by (rule mig_pending_effect [OF assms(1,2)]) (use assms in auto)
  then show ?thesis using False by (auto simp: mig_commit_def)
qed

lemma mig_commit_kept:
  assumes "mig_wf m" "mg_pending m = Some p" "pm_generation q = pm_generation p" "pm_proved p \<longrightarrow> pm_proved q"
    "\<And>s g t. MSend s (PcCommit g t) \<notin> set acts" "\<And>s g t. MSend s (PcCommitAck g t) \<notin> set acts"
  shows "mig_effect net m (mig_commit m q now acts)"
  using mig_commit_effect [of m p q "mg_state m" acts net now] assms by simp

lemma mig_attempt_effect:
  assumes "mig_wf m" "mg_pending m = Some p" "(s, rec) \<in> net" "record_identity rec = Some (pm_generation p, pm_token p)"
  shows "mig_effect net m (mig_attempt m p s rec now)"
proof (cases rec)
  case (PcProbe g t)
  have "mig_effect net m (mig_commit m p now acts)" if "acts = [] \<or> (\<exists>s g t. acts = [MSend s (PcProbeAck g t)])" for acts
    by (rule mig_commit_kept [OF assms(1,2)]) (use that in auto)
  then show ?thesis by (auto simp: mig_attempt_def PcProbe Let_def)
next
  case (PcProbeAck g t)
  have "mig_effect net m (mig_commit m p now [])"
    by (rule mig_commit_kept [OF assms(1,2)]) auto
  moreover have "mig_effect net m (mig_commit (m\<lparr>mg_state := MReady\<rparr>) (p\<lparr>pm_proved := True\<rparr>) now [MSend s (PcReady g t d)])"
    if "\<not> pm_proved p" for s g t d
    by (rule mig_commit_effect [OF assms(1,2)]) (use assms(1,2) that in \<open>auto simp: mig_wf_def\<close>)
  ultimately show ?thesis by (auto simp: mig_attempt_def PcProbeAck Let_def)
next
  case (PcReady g t d)
  have "mig_effect net m (mig_commit m q now [])" if "q = p \<or> q = p\<lparr>pm_peer_ready := True\<rparr>" for q
    by (rule mig_commit_kept [OF assms(1,2)]) (use that in auto)
  then show ?thesis by (auto simp: mig_attempt_def PcReady Let_def)
next
  case (PcCommit g t)
  have gt: "g = pm_generation p" "t = pm_token p" using assms(4) PcCommit by (auto simp: record_identity_def)
  have "mig_effect net m (mig_commit m p now [])" by (rule mig_commit_kept [OF assms(1,2)]) auto
  moreover have "mig_effect net m (case mig_activate m p now of (m', a) \<Rightarrow> (m', a @ [MSend s' (PcCommitAck g t)]))"
    if "mg_role m = RClient" for s'
  proof -
    have "moves_client net m (fst (mig_activate m p now)) (snd (mig_activate m p now) @ [MSend s' (PcCommitAck g t)])"
      using assms that gt unfolding moves_client_def PcCommit
      by (auto simp: mig_activate_def locked_def mig_wf_def)
    then show ?thesis using assms(1,2) by (auto simp: mig_effect_def mig_activate_def mig_wf_def locked_def)
  qed
  ultimately show ?thesis by (auto simp: mig_attempt_def PcCommit Let_def gt)
next
  case (PcCommitAck g t)
  have gt: "g = pm_generation p" "t = pm_token p" using assms(4) PcCommitAck by (auto simp: record_identity_def)
  have "mig_effect net m (mig_commit m p now [])" by (rule mig_commit_kept [OF assms(1,2)]) auto
  moreover have "mig_effect net m (mig_activate m p now)" if "mg_role m = RHost"
  proof -
    have "moves_host net m (fst (mig_activate m p now)) (snd (mig_activate m p now))"
      using assms that gt unfolding moves_host_def PcCommitAck by (auto simp: mig_activate_def locked_def mig_wf_def)
    then show ?thesis using assms(1,2) by (auto simp: mig_effect_def mig_activate_def mig_wf_def locked_def)
  qed
  ultimately show ?thesis by (auto simp: mig_attempt_def PcCommitAck Let_def gt)
qed (use assms(4) in \<open>simp_all add: record_identity_def\<close>)

lemma mig_identity_effect:
  assumes "mig_wf m" "(s, rec) \<in> net" "record_identity rec = Some (g, t)"
  shows "mig_effect net m (mig_receive m s rec drawn now)"
proof -
  have shape: "mig_receive m s rec drawn now =
      (if rec = PcCommit g t \<and> mg_role m = RClient \<and> mg_committed m = Some (g, t) \<and> accepts_application m s now
       then (m, [MSend g (PcCommitAck g t)])
       else case mg_pending m of None \<Rightarrow> (m, [])
       | Some p \<Rightarrow> if g \<noteq> pm_generation p \<or> t \<noteq> pm_token p \<or> pm_deadline p \<le> now then (m, [])
           else mig_attempt m p s rec now)"
    using assms(3) by (cases rec) (simp_all add: mig_receive_def record_identity_def cong: option.case_cong if_cong)
  have still: "mig_effect net m (m, [])" using assms(1) by (intro mig_effect_still) auto
  have again: "mig_effect net m (m, [MSend g (PcCommitAck g t)])" if "mg_role m = RClient" "mg_committed m = Some (g, t)" for g t
    using assms(1) that by (auto simp: mig_effect_def holds_path_def mig_wf_def)
  show ?thesis
    unfolding shape by (auto intro!: still again mig_attempt_effect [OF assms(1) _ assms(2)] simp: assms(3) split: option.split)
qed

lemma mig_receive_effect:
  assumes "mig_wf m" "(s, rec) \<in> net"
  shows "mig_effect net m (mig_receive m s rec drawn now)"
  by (cases rec)
    (use assms mig_identity_effect [OF assms] in \<open>simp_all add: mig_receive_def record_identity_def mig_request_effect
      mig_prepared_effect mig_aborted_effect\<close>)


lemma mig_opened_effect:
  assumes "mig_wf m" shows "mig_effect net m (mig_opened m now)"
proof (cases "mg_pending m")
  case None with assms show ?thesis by (simp add: mig_opened_def mig_effect_still)
next
  case (Some p)
  from mig_pending_effect [OF assms Some, of "p\<lparr>pm_opened := True, pm_next_retry := now + COMMIT_RETRY\<rparr>" "mg_state m"
      "[MSend (pm_generation p) (PcProbe (pm_generation p) (pm_token p))]"]
  show ?thesis by (simp add: mig_opened_def Some)
qed

lemma mig_fail_preparation_effect:
  assumes "mig_wf m" shows "mig_effect net m (mig_fail_preparation m reason)"
proof (cases "locked m")
  case True
  with assms show ?thesis
    by (auto simp: mig_fail_preparation_def mig_effect_def holds_path_def mig_wf_def locked_def)
next
  case False
  then show ?thesis
    using assms unfolding mig_fail_preparation_def
    by (auto intro!: mig_effect_still mig_drop_effect simp: locked_def split: option.split)
qed

lemma mig_tick_effect:
  assumes "mig_wf m" shows "mig_effect net m (mig_tick m now)"
proof -
  have still: "mig_effect net m (m, [])" using assms by (intro mig_effect_still) auto
  have drained: "mig_effect net m (m\<lparr>mg_draining := None\<rparr>, [MRetire])"
    using assms by (simp add: mig_effect_def holds_path_def mig_wf_def locked_def)
  have retry: "mig_effect net m (m\<lparr>mg_pending := Some (p\<lparr>pm_next_retry := r\<rparr>)\<rparr>, acts)"
    if "mg_pending m = Some p" "\<And>s g t. MSend s (PcCommit g t) \<in> set acts \<Longrightarrow> g = pm_generation p \<and> mg_state m = MCommitPending"
      "\<And>s g t. MSend s (PcCommitAck g t) \<notin> set acts" for p acts r
    using mig_pending_effect [OF assms that(1), of "p\<lparr>pm_next_retry := r\<rparr>" "mg_state m" acts] that(2,3) by simp
  show ?thesis
    unfolding mig_tick_def Let_def
    by (auto intro!: still drained retry mig_fail_preparation_effect [OF assms] split: option.split)
qed

lemma mig_local_effect:
  assumes "mig_local net m m' acts" "mig_wf m"
  shows "mig_effect net m (m', acts)"
  using assms
proof cases
  case start then show ?thesis using mig_start_effect assms(2) by blast
next
  case receive then show ?thesis using mig_receive_effect [OF assms(2)] by metis
next
  case opened then show ?thesis using mig_opened_effect [OF assms(2)] by metis
next
  case tick then show ?thesis using mig_tick_effect [OF assms(2)] by metis
next
  case abandon then show ?thesis using mig_fail_preparation_effect [OF assms(2)] by metis
next
  case old_failed
  then show ?thesis using assms(2)
    by (simp add: mig_effect_def holds_path_def mig_wf_def locked_def mig_old_path_failed_def)
next
  case measured
  then show ?thesis using assms(2) by (simp add: mig_effect_def holds_path_def mig_wf_def locked_def)
next
  case ask then show ?thesis using assms(2) by (auto intro!: mig_effect_still)
qed

section \<open>Host and client\<close>

record mig_sys =
  ms_host :: migration
  ms_client :: migration
  ms_down :: "(u64 \<times> path_control) set"
  ms_up :: "(u64 \<times> path_control) set"

definition mig_sent :: "migration_action list \<Rightarrow> (u64 \<times> path_control) set" where
  "mig_sent acts = {(s, r). MSend s r \<in> set acts}"

text \<open>Everything ever sent may still arrive, any number of times, or never.\<close>

inductive mig_step :: "mig_sys \<Rightarrow> mig_sys \<Rightarrow> bool" where
  host: "mig_local (ms_up w) (ms_host w) h acts \<Longrightarrow>
     mig_step w (w\<lparr>ms_host := h, ms_down := ms_down w \<union> mig_sent acts\<rparr>)"
| client: "mig_local (ms_down w) (ms_client w) c acts \<Longrightarrow>
     mig_step w (w\<lparr>ms_client := c, ms_up := ms_up w \<union> mig_sent acts\<rparr>)"

definition mig_init :: "mig_sys \<Rightarrow> bool" where
  "mig_init w \<longleftrightarrow> w = \<lparr>ms_host = migration_new RHost, ms_client = migration_new RClient, ms_down = {}, ms_up = {}\<rparr>"

definition mig_agree :: "mig_sys \<Rightarrow> bool" where
  "mig_agree w \<longleftrightarrow> (let h = ms_host w; c = ms_client w in
     mg_role h = RHost \<and> mg_role c = RClient \<and> mig_wf h \<and> mig_wf c
     \<and> (unat (mg_active c) = unat (mg_active h) \<or> unat (mg_active c) = unat (mg_active h) + 1 \<and> locked h)
     \<and> (\<forall>s g t. (s, PcCommit g t) \<in> ms_down w \<longrightarrow>
          unat g \<le> unat (mg_active h) \<or> unat g = unat (mg_active h) + 1 \<and> locked h)
     \<and> (\<forall>s g t. (s, PcCommitAck g t) \<in> ms_up w \<longrightarrow> unat g \<le> unat (mg_active c)))"

lemma mig_agree_init: "mig_init w \<Longrightarrow> mig_agree w"
  by (simp add: mig_init_def mig_agree_def migration_new_def mig_wf_def locked_def)

lemma mig_agree_host:
  assumes "mig_agree w" "mig_local (ms_up w) (ms_host w) h acts"
  shows "mig_agree (w\<lparr>ms_host := h, ms_down := ms_down w \<union> mig_sent acts\<rparr>)"
proof -
  have e: "mig_effect (ms_up w) (ms_host w) (h, acts)"
    using mig_local_effect [OF assms(2)] assms(1) by (simp add: mig_agree_def Let_def)
  then consider "holds_path (ms_host w) h acts" | "moves_host (ms_up w) (ms_host w) h acts"
    using assms(1) by (auto simp: mig_effect_def mig_agree_def moves_client_def Let_def)
  then show ?thesis
  proof cases
    case 1
    then show ?thesis using assms(1) e
      by (fastforce simp: mig_agree_def Let_def mig_effect_def holds_path_def mig_sent_def)
  next
    case 2
    then obtain s g t where g: "(s, PcCommitAck g t) \<in> ms_up w" "unat g = unat (mg_active (ms_host w)) + 1"
        "mg_active h = g" and quiet: "mig_sent acts = {}"
      by (auto simp: moves_host_def mig_sent_def)
    then have c: "unat (mg_active (ms_client w)) = unat g"
      using assms(1) by (fastforce simp: mig_agree_def Let_def)
    have down: "unat g' \<le> unat g" if "(s', PcCommit g' t') \<in> ms_down w" for s' g' t'
    proof -
      from that assms(1) have "unat g' \<le> unat (mg_active (ms_host w)) \<or> unat g' = unat (mg_active (ms_host w)) + 1"
        unfolding mig_agree_def Let_def by blast
      then show ?thesis using g(2) by linarith
    qed
    from assms(1) e g c quiet down show ?thesis by (simp add: mig_agree_def Let_def mig_effect_def) blast
  qed
qed

lemma mig_agree_client:
  assumes "mig_agree w" "mig_local (ms_down w) (ms_client w) c acts"
  shows "mig_agree (w\<lparr>ms_client := c, ms_up := ms_up w \<union> mig_sent acts\<rparr>)"
proof -
  have e: "mig_effect (ms_down w) (ms_client w) (c, acts)"
    using mig_local_effect [OF assms(2)] assms(1) by (simp add: mig_agree_def Let_def)
  then consider "holds_path (ms_client w) c acts" | "moves_client (ms_down w) (ms_client w) c acts"
    using assms(1) by (auto simp: mig_effect_def mig_agree_def moves_host_def Let_def)
  then show ?thesis
  proof cases
    case 1
    then show ?thesis using assms(1) e
      by (fastforce simp: mig_agree_def Let_def mig_effect_def holds_path_def mig_sent_def)
  next
    case 2
    then obtain s g t where g: "(s, PcCommit g t) \<in> ms_down w" "unat g = unat (mg_active (ms_client w)) + 1"
        "mg_active c = g" and acks: "\<And>s' r. (s', r) \<in> mig_sent acts \<Longrightarrow> r = PcCommitAck g t"
      by (auto simp: moves_client_def mig_sent_def)
    have "unat g \<le> unat (mg_active (ms_host w)) \<or> unat g = unat (mg_active (ms_host w)) + 1 \<and> locked (ms_host w)"
      using assms(1) g(1) unfolding mig_agree_def Let_def by blast
    moreover have "unat (mg_active (ms_host w)) \<le> unat (mg_active (ms_client w))"
      using assms(1) by (auto simp: mig_agree_def Let_def)
    ultimately have h: "unat g = unat (mg_active (ms_host w)) + 1" "locked (ms_host w)" using g(2) by linarith+
    have up: "unat g' \<le> unat g" if "(s', PcCommitAck g' t') \<in> ms_up w \<union> mig_sent acts" for s' g' t'
    proof (cases "(s', PcCommitAck g' t') \<in> mig_sent acts")
      case True then show ?thesis using acks by force
    next
      case False
      with that assms(1) have "unat g' \<le> unat (mg_active (ms_client w))" unfolding mig_agree_def Let_def by blast
      then show ?thesis using g(2) by linarith
    qed
    from assms(1) e g h up show ?thesis unfolding mig_agree_def Let_def mig_effect_def by simp
  qed
qed

interpretation migration: invariant_system mig_init mig_step mig_agree
proof
  show "mig_agree w" if "mig_init w" for w using that by (rule mig_agree_init)
  show "mig_agree w'" if "mig_agree w" "mig_step w w'" for w w'
    using that(2,1) by cases (auto intro: mig_agree_host mig_agree_client)
qed

text \<open>
  C4: for a host and a client that start on the first path and migrate any number of times, over a network that loses,
  repeats and reorders their records, with any timing, any failed preparation and any random tokens: the client's
  active generation is the host's, or one more while the host waits for the acknowledgement of its commit; whenever
  the host may send application data, it sends on the client's active path and the client accepts it at any time;
  and the client never blocks its own application data.
\<close>

theorem migration_agreement:
  assumes "reachable mig_init mig_step w"
  shows "(mg_active (ms_client w) = mg_active (ms_host w)
       \<or> unat (mg_active (ms_client w)) = unat (mg_active (ms_host w)) + 1
         \<and> mg_state (ms_host w) \<in> {MCommitPending, MCommitUnconfirmed})
     \<and> (\<forall>s now. application_slot (ms_host w) = Inr s \<longrightarrow> s = mg_active (ms_client w) \<and> accepts_application (ms_client w) s now)
     \<and> application_slot (ms_client w) = Inr (mg_active (ms_client w))"
proof -
  have i: "mig_agree w" using migration.reachable_inv assms .
  then have a: "mg_active (ms_client w) = mg_active (ms_host w)
       \<or> unat (mg_active (ms_client w)) = unat (mg_active (ms_host w)) + 1 \<and> locked (ms_host w)"
    by (auto simp: mig_agree_def Let_def word_unat_eq_iff)
  have "\<forall>s now. application_slot (ms_host w) = Inr s \<longrightarrow> s = mg_active (ms_client w) \<and> accepts_application (ms_client w) s now"
    using a by (auto simp: application_slot_def locked_def accepts_application_def split: migration_state.splits)
  moreover have "\<not> locked (ms_client w)" using i by (auto simp: mig_agree_def Let_def mig_wf_def)
  then have "application_slot (ms_client w) = Inr (mg_active (ms_client w))"
    by (auto simp: application_slot_def locked_def split: migration_state.splits)
  ultimately show ?thesis using a by (auto simp: locked_def)
qed

lemma migration_agreement_witness:
  "reachable mig_init mig_step \<lparr>ms_host = migration_new RHost, ms_client = migration_new RClient, ms_down = {}, ms_up = {}\<rparr>
   \<and> application_slot (migration_new RHost) = Inr 1
   \<and> accepts_application (migration_new RClient) 1 7"
proof -
  let ?w = "\<lparr>ms_host = migration_new RHost, ms_client = migration_new RClient, ms_down = {}, ms_up = {}\<rparr>"
  have r: "reachable mig_init mig_step ?w" by (rule reachable.intros) (simp add: mig_init_def)
  have s: "application_slot (migration_new RHost) = Inr 1"
    by (simp add: application_slot_def migration_new_def FIRST_PATH_GENERATION_def)
  show ?thesis using r s migration_agreement [OF r] by simp
qed

section \<open>A run whose records arrive\<close>

definition mig_hear :: "migration \<Rightarrow> migration_action list \<Rightarrow> nat \<Rightarrow> migration \<times> migration_action list" where
  "mig_hear m acts now = fold (\<lambda>a (m, out). case a of
     MSend slot r \<Rightarrow> (case mig_receive m slot r None now of (m', out') \<Rightarrow> (m', out @ out')) | _ \<Rightarrow> (m, out)) acts (m, [])"

definition mig_handshake :: "migration \<Rightarrow> migration \<Rightarrow> path_kind \<Rightarrow> bytes \<Rightarrow> (nat \<Rightarrow> nat) \<Rightarrow> migration \<times> migration" where
  "mig_handshake h c target token T =
     (case mig_start h target token (T 0) of (h, Inl e) \<Rightarrow> (h, c) | (h, Inr prepare) \<Rightarrow>
      case mig_hear c prepare (T 1) of (c, _) \<Rightarrow>
      case mig_opened h (T 2) of (h, probe) \<Rightarrow>
      case mig_opened c (T 3) of (c, probe') \<Rightarrow>
      case mig_hear c probe (T 4) of (c, acknowledged) \<Rightarrow>
      case mig_hear h (probe' @ acknowledged) (T 5) of (h, readied) \<Rightarrow>
      case mig_hear c readied (T 6) of (c, readied') \<Rightarrow>
      case mig_hear h readied' (T 7) of (h, commit) \<Rightarrow>
      case mig_hear c commit (T 8) of (c, confirmed) \<Rightarrow>
      case mig_hear h confirmed (T 9) of (h, _) \<Rightarrow> (h, c))"

lemma mig_handshake_done:
  assumes "mg_role h = RHost" "mg_role c = RClient" "mg_active c = mg_active h" "mg_pending h = None" "mg_pending c = None"
    "mg_draining h = None" "mg_draining c = None" "mg_state h \<noteq> MCommitUnconfirmed"
    "\<And>g t. mg_committed c = Some (g, t) \<Longrightarrow> unat g \<le> unat (mg_active h)"
    "chk_add (mg_active h) 1 = Some new" "target \<noteq> PkIce" "token \<noteq> replicate PATH_TOKEN_BYTES 0"
    "\<And>i. T 0 \<le> T i \<and> T i < T 0 + MIGRATION_DEADLINE"
  shows "case mig_handshake h c target token T of (h', c') \<Rightarrow>
     mg_active h' = new \<and> mg_active c' = new \<and> mg_state h' = MActive \<and> mg_state c' = MActive"
proof -
  have now: "\<not> T 0 + MIGRATION_DEADLINE \<le> T i" "\<not> T 1 + MIGRATION_DEADLINE \<le> T i" for i
    using assms(13) [of i] assms(13) [of 1] by auto
  have fresh: "mg_committed c \<noteq> Some (new, t)" for t
    using assms(9) [of new t] unat_chk_add_1 [OF assms(10)] by auto
  have ne: "new \<noteq> mg_active h" "mg_active h \<noteq> new" using unat_chk_add_1 [OF assms(10)] by auto
  note defs = mig_hear_def mig_receive_def record_identity_def mig_attempt_def mig_commit_def Let_def
  show ?thesis
    unfolding mig_handshake_def
    by (simp add: mig_start_def mig_prepare_def mig_opened_def mig_prepared_def mig_activate_def defs assms(1-8,10-12) now [unfolded One_nat_def] fresh ne)
qed


text \<open>
  C15: in any reachable state of host and client in which neither is preparing or draining a path and the host is not
  left with an unconfirmed commit, a migration to a direct or relayed path whose records all arrive within its deadline
  ends with both sides active on the next generation, and both then send application data there.
\<close>

theorem migration_completes:
  assumes "reachable mig_init mig_step w" "mg_pending (ms_host w) = None" "mg_pending (ms_client w) = None"
    "mg_draining (ms_host w) = None" "mg_draining (ms_client w) = None"
    "chk_add (mg_active (ms_host w)) 1 = Some new" "target \<noteq> PkIce" "token \<noteq> replicate PATH_TOKEN_BYTES 0"
    "\<And>i. T 0 \<le> T i \<and> T i < T 0 + MIGRATION_DEADLINE"
  shows "case mig_handshake (ms_host w) (ms_client w) target token T of (h, c) \<Rightarrow>
     mg_active h = new \<and> mg_active c = new \<and> application_slot h = Inr new \<and> application_slot c = Inr new"
proof -
  have i: "mig_agree w" using migration.reachable_inv assms(1) .
  then have free: "\<not> locked (ms_host w)" using assms(2) by (auto simp: mig_agree_def Let_def mig_wf_def)
  then have same: "mg_active (ms_client w) = mg_active (ms_host w)" and roles: "mg_role (ms_host w) = RHost" "mg_role (ms_client w) = RClient"
    using i by (auto simp: mig_agree_def Let_def word_unat_eq_iff)
  have "unat g \<le> unat (mg_active (ms_host w))" if "mg_committed (ms_client w) = Some (g, t)" for g t
    using i that same by (auto simp: mig_agree_def Let_def mig_wf_def)
  from mig_handshake_done [where T = T, OF roles same assms(2-5) _ this assms(6-9)] free show ?thesis
    by (auto simp: locked_def application_slot_def)
qed

lemma migration_completes_witness:
  "case mig_handshake (migration_new RHost) (migration_new RClient) PkOpaqueRelay (replicate 16 7) (\<lambda>i. i) of (h, c) \<Rightarrow>
     mg_active h = 2 \<and> mg_active c = 2 \<and> application_slot h = Inr 2 \<and> application_slot c = Inr 2"
proof -
  let ?w = "\<lparr>ms_host = migration_new RHost, ms_client = migration_new RClient, ms_down = {}, ms_up = {}\<rparr>"
  let ?T = "\<lambda>i::nat. if i < 10 then i else 0"
  have r: "reachable mig_init mig_step ?w" by (rule reachable.intros) (simp add: mig_init_def)
  have "mig_handshake (migration_new RHost) (migration_new RClient) PkOpaqueRelay (replicate 16 7) (\<lambda>i. i)
      = mig_handshake (migration_new RHost) (migration_new RClient) PkOpaqueRelay (replicate 16 7) ?T"
    by (simp add: mig_handshake_def)
  moreover have "replicate 16 (7 :: byte) \<noteq> replicate PATH_TOKEN_BYTES 0" by (simp add: PATH_TOKEN_BYTES_def)
  ultimately show ?thesis
    using migration_completes [OF r, of 2 PkOpaqueRelay "replicate 16 7" ?T]
    by (simp add: migration_new_def FIRST_PATH_GENERATION_def chk_add_def MIGRATION_DEADLINE_def)
qed

end
