(* ===== verification/Connect_Broker.thy ===== *)
theory Connect_Broker
  imports Core_Base "HOL-Library.AList"
begin

text \<open>
  The connect broker of the signal server (\<open>signal-server/src/connect.rs\<close>): presence, connection requests, approval,
  and the hand-over of the two role credentials. A time is its nanoseconds since some origin. A \<open>HashMap\<close> is an
  association list with distinct keys whose order is its iteration order; the account digest of the standard hasher is
  a parameter.
\<close>

section \<open>State\<close>

definition PRESENCE_TTL :: nat where "PRESENCE_TTL = 90000000000"
definition REQUEST_TTL :: nat where "REQUEST_TTL = 120000000000"
definition APPROVAL_TTL :: nat where "APPROVAL_TTL = 60000000000"
definition MAX_PENDING_REQUESTS :: nat where "MAX_PENDING_REQUESTS = 1024"
definition MAX_TRACKED_PRESENCE :: nat where "MAX_TRACKED_PRESENCE = 4096"
definition MAX_REQUESTS_PER_ACCOUNT :: nat where "MAX_REQUESTS_PER_ACCOUNT = 16"

record party =
  pt_account :: string
  pt_device :: string

record permissions =
  pe_view :: bool
  pe_keyboard :: bool
  pe_mouse :: bool
  pe_gamepad :: bool
  pe_clipboard :: bool
  pe_microphone :: bool
  pe_tablet :: bool
  pe_virtual_usb :: bool

definition no_permissions :: permissions where
  "no_permissions = \<lparr>pe_view = False, pe_keyboard = False, pe_mouse = False, pe_gamepad = False, pe_clipboard = False,
     pe_microphone = False, pe_tablet = False, pe_virtual_usb = False\<rparr>"

record session_grant =
  sg_session :: string
  sg_host :: string
  sg_client :: string

datatype connect_state = CsPending | CsApproved | CsDenied | CsExpired

datatype connect_error =
    CeNotFound | CeForbidden | CeInvalidState | CeAlreadyApproved | CeNotPublished | CeTargetOffline
  | CeTargetNotConnectable | CeBusy

record connect_request =
  cq_id :: string
  cq_account :: string
  cq_requester :: string
  cq_target :: string
  cq_state :: connect_state
  cq_created_at :: nat
  cq_expires_at :: nat
  cq_requested :: permissions
  cq_granted :: permissions
  cq_session :: "string option"
  cq_published :: bool
  cq_host :: "string option"
  cq_client :: "string option"

definition is_expired :: "connect_request \<Rightarrow> nat \<Rightarrow> bool" where
  "is_expired q now \<longleftrightarrow> cq_expires_at q \<le> now"

record presence =
  pr_account_hash :: u64
  pr_last_seen :: nat

record broker =
  bk_requests :: "(string \<times> connect_request) list"
  bk_presence :: "(string \<times> presence) list"

definition broker_default :: broker where
  "broker_default = \<lparr>bk_requests = [], bk_presence = []\<rparr>"

section \<open>Operations\<close>

definition bk_expire :: "broker \<Rightarrow> nat \<Rightarrow> broker" where
  "bk_expire b now = b\<lparr>bk_requests := filter (\<lambda>(_, q). \<not> is_expired q now) (bk_requests b),
     bk_presence := filter (\<lambda>(_, e). now - pr_last_seen e < PRESENCE_TTL) (bk_presence b)\<rparr>"

fun stalest :: "(string \<times> presence) list \<Rightarrow> (string \<times> presence) option" where
  "stalest [] = None"
| "stalest (x # xs) = (case stalest xs of None \<Rightarrow> Some x
     | Some y \<Rightarrow> if pr_last_seen (snd y) < pr_last_seen (snd x) then Some y else Some x)"

definition heartbeat :: "(string \<Rightarrow> u64) \<Rightarrow> broker \<Rightarrow> string \<Rightarrow> string \<Rightarrow> nat \<Rightarrow> broker" where
  "heartbeat digest b account device now =
     (let b = bk_expire b now;
          b = (if MAX_TRACKED_PRESENCE \<le> length (bk_presence b) \<and> map_of (bk_presence b) device = None
               then (case stalest (bk_presence b) of
                   Some (d, _) \<Rightarrow> b\<lparr>bk_presence := AList.delete d (bk_presence b)\<rparr> | None \<Rightarrow> b)
               else b)
      in b\<lparr>bk_presence := AList.update device \<lparr>pr_account_hash = digest account, pr_last_seen = now\<rparr> (bk_presence b)\<rparr>)"

definition is_online :: "(string \<Rightarrow> u64) \<Rightarrow> broker \<Rightarrow> string \<Rightarrow> string \<Rightarrow> nat \<Rightarrow> bool" where
  "is_online digest b account device now = (case map_of (bk_presence b) device of None \<Rightarrow> False
   | Some e \<Rightarrow> pr_account_hash e = digest account \<and> now - pr_last_seen e < PRESENCE_TTL)"

definition go_offline :: "broker \<Rightarrow> string \<Rightarrow> broker" where
  "go_offline b device = b\<lparr>bk_presence := AList.delete device (bk_presence b)\<rparr>"

definition account_held :: "broker \<Rightarrow> string \<Rightarrow> nat" where
  "account_held b account = length (filter (\<lambda>(_, q). cq_account q = account) (bk_requests b))"

definition request_scoped :: "(string \<Rightarrow> u64) \<Rightarrow> broker \<Rightarrow> string \<Rightarrow> string \<Rightarrow> string \<Rightarrow> string \<Rightarrow> permissions \<Rightarrow> nat \<Rightarrow>
    broker \<times> (connect_error + connect_request)" where
  "request_scoped digest b request_id account requester target requested now =
     (let b = bk_expire b now in
      if \<not> is_online digest b account target now then (b, Inl CeTargetOffline)
      else if requester = target then (b, Inl CeTargetNotConnectable)
      else if MAX_PENDING_REQUESTS \<le> length (bk_requests b) then (b, Inl CeBusy)
      else if MAX_REQUESTS_PER_ACCOUNT \<le> account_held b account then (b, Inl CeBusy)
      else let q = \<lparr>cq_id = request_id, cq_account = account, cq_requester = requester, cq_target = target,
                    cq_state = CsPending, cq_created_at = now, cq_expires_at = now + REQUEST_TTL,
                    cq_requested = requested, cq_granted = no_permissions, cq_session = None, cq_published = False,
                    cq_host = None, cq_client = None\<rparr>
        in (b\<lparr>bk_requests := AList.update request_id q (bk_requests b)\<rparr>, Inr q))"

definition pending_for_target :: "broker \<Rightarrow> string \<Rightarrow> string \<Rightarrow> nat \<Rightarrow> broker \<times> connect_request list" where
  "pending_for_target b account target now =
     (let b = bk_expire b now in
      (b, sort_key cq_created_at (filter (\<lambda>q. cq_state q = CsPending \<and> cq_account q = account \<and> cq_target q = target)
            (map snd (bk_requests b)))))"

definition approve_scoped :: "broker \<Rightarrow> string \<Rightarrow> party \<Rightarrow> session_grant \<Rightarrow> permissions \<Rightarrow> nat \<Rightarrow>
    broker \<times> (connect_error + connect_request)" where
  "approve_scoped b request_id answered_by grant granted now =
     (let b = bk_expire b now in
      case map_of (bk_requests b) request_id of None \<Rightarrow> (b, Inl CeNotFound)
      | Some q \<Rightarrow>
          if cq_account q \<noteq> pt_account answered_by \<or> cq_target q \<noteq> pt_device answered_by then (b, Inl CeForbidden)
          else if cq_state q = CsApproved then (b, Inl CeAlreadyApproved)
          else if cq_state q \<noteq> CsPending then (b, Inl CeInvalidState)
          else let q = q\<lparr>cq_state := CsApproved, cq_granted := granted, cq_session := Some (sg_session grant),
                         cq_host := Some (sg_host grant), cq_client := Some (sg_client grant),
                         cq_expires_at := now + APPROVAL_TTL\<rparr>
            in (b\<lparr>bk_requests := AList.update request_id q (bk_requests b)\<rparr>, Inr q))"

definition bk_deny :: "broker \<Rightarrow> string \<Rightarrow> string \<Rightarrow> string \<Rightarrow> nat \<Rightarrow> broker \<times> (connect_error + unit)" where
  "bk_deny b request_id account target now =
     (let b = bk_expire b now in
      case map_of (bk_requests b) request_id of None \<Rightarrow> (b, Inl CeNotFound)
      | Some q \<Rightarrow>
          if cq_account q \<noteq> account \<or> cq_target q \<noteq> target then (b, Inl CeForbidden)
          else if cq_state q \<noteq> CsPending then (b, Inl CeInvalidState)
          else (b\<lparr>bk_requests := AList.update request_id (q\<lparr>cq_state := CsDenied, cq_expires_at := now + APPROVAL_TTL\<rparr>)
                  (bk_requests b)\<rparr>, Inr ()))"

definition collect_host_credential :: "broker \<Rightarrow> string \<Rightarrow> party \<Rightarrow> nat \<Rightarrow> broker \<times> (connect_error + string \<times> string)" where
  "collect_host_credential b request_id answered_by now =
     (let b = bk_expire b now in
      (b, case map_of (bk_requests b) request_id of None \<Rightarrow> Inl CeNotFound
       | Some q \<Rightarrow>
           if cq_account q \<noteq> pt_account answered_by \<or> cq_target q \<noteq> pt_device answered_by then Inl CeForbidden
           else if cq_state q \<noteq> CsApproved then Inl CeInvalidState
           else if \<not> cq_published q then Inl CeNotPublished
           else case cq_session q of None \<Rightarrow> Inl CeInvalidState
           | Some s \<Rightarrow> (case cq_host q of None \<Rightarrow> Inl CeInvalidState | Some c \<Rightarrow> Inr (s, c))))"

definition collect_client_credential :: "broker \<Rightarrow> string \<Rightarrow> party \<Rightarrow> nat \<Rightarrow> broker \<times> (connect_error + string \<times> string)" where
  "collect_client_credential b request_id asked_by now =
     (let b = bk_expire b now in
      (b, case map_of (bk_requests b) request_id of None \<Rightarrow> Inl CeNotFound
       | Some q \<Rightarrow>
           if cq_account q \<noteq> pt_account asked_by \<or> cq_requester q \<noteq> pt_device asked_by then Inl CeForbidden
           else if cq_state q \<noteq> CsApproved then Inl CeInvalidState
           else if \<not> cq_published q then Inl CeNotPublished
           else case cq_session q of None \<Rightarrow> Inl CeInvalidState
           | Some s \<Rightarrow> (case cq_client q of None \<Rightarrow> Inl CeInvalidState | Some c \<Rightarrow> Inr (s, c))))"

definition granted_permissions :: "broker \<Rightarrow> string \<Rightarrow> permissions" where
  "granted_permissions b request_id = (case map_of (bk_requests b) request_id of Some q \<Rightarrow> cq_granted q | None \<Rightarrow> no_permissions)"

definition requester_device :: "broker \<Rightarrow> string \<Rightarrow> string option" where
  "requester_device b request_id = map_option cq_requester (map_of (bk_requests b) request_id)"

definition requester_for_target :: "broker \<Rightarrow> string \<Rightarrow> party \<Rightarrow> string option" where
  "requester_for_target b request_id target = (case map_of (bk_requests b) request_id of None \<Rightarrow> None
   | Some q \<Rightarrow> if cq_account q = pt_account target \<and> cq_target q = pt_device target then Some (cq_requester q) else None)"

definition minted_credentials :: "broker \<Rightarrow> string \<Rightarrow> party \<Rightarrow> connect_error + string \<times> string" where
  "minted_credentials b request_id answered_by = (case map_of (bk_requests b) request_id of None \<Rightarrow> Inl CeNotFound
   | Some q \<Rightarrow>
       if cq_account q \<noteq> pt_account answered_by \<or> cq_target q \<noteq> pt_device answered_by then Inl CeForbidden
       else case cq_host q of None \<Rightarrow> Inl CeInvalidState
       | Some h \<Rightarrow> (case cq_client q of None \<Rightarrow> Inl CeInvalidState | Some c \<Rightarrow> Inr (h, c)))"

definition mark_published :: "broker \<Rightarrow> string \<Rightarrow> broker" where
  "mark_published b request_id = (case map_of (bk_requests b) request_id of None \<Rightarrow> b
   | Some q \<Rightarrow> b\<lparr>bk_requests := AList.update request_id (q\<lparr>cq_published := True\<rparr>) (bk_requests b)\<rparr>)"

definition bk_withdraw :: "broker \<Rightarrow> string \<Rightarrow> broker" where
  "bk_withdraw b request_id = b\<lparr>bk_requests := AList.delete request_id (bk_requests b)\<rparr>"

definition bk_observe :: "broker \<Rightarrow> string \<Rightarrow> string \<Rightarrow> string \<Rightarrow> nat \<Rightarrow> broker \<times> (connect_error + connect_state)" where
  "bk_observe b request_id account requester now =
     (let b = bk_expire b now in
      (b, case map_of (bk_requests b) request_id of None \<Rightarrow> Inl CeNotFound
       | Some q \<Rightarrow> if cq_account q \<noteq> account \<or> cq_requester q \<noteq> requester then Inl CeForbidden else Inr (cq_state q)))"

section \<open>The tables\<close>

lemma length_alist_update: "length (AList.update k v xs) = (if map_of xs k = None then Suc (length xs) else length xs)"
  by (induction xs) auto

lemma length_alist_delete: "length (AList.delete k xs) \<le> length xs"
  by (simp add: AList.delete_eq)

lemma length_alist_delete_less: "map_of xs k \<noteq> None \<Longrightarrow> length (AList.delete k xs) < length xs"
proof -
  assume "map_of xs k \<noteq> None"
  then obtain v where "(k, v) \<in> set xs" using map_of_SomeD by fastforce
  then show ?thesis by (auto simp: AList.delete_eq intro: length_filter_less)
qed

lemma map_of_filter_distinct:
  "distinct (map fst xs) \<Longrightarrow> map_of (filter P xs) k = (case map_of xs k of Some v \<Rightarrow> if P (k, v) then Some v else None | None \<Rightarrow> None)"
  by (induction xs) (auto simp: map_of_eq_None_iff split: option.splits intro: rev_image_eqI)

lemma set_alist_update_subset: "set (AList.update k v xs) \<subseteq> insert (k, v) (set xs)"
  by (induction xs) auto

definition cq_held :: "string \<Rightarrow> (string \<times> connect_request) list \<Rightarrow> nat" where
  "cq_held a rs = length (filter (\<lambda>(_, q). cq_account q = a) rs)"

lemma account_held_eq: "account_held b a = cq_held a (bk_requests b)"
  by (simp add: account_held_def cq_held_def)

lemma cq_held_filter: "cq_held a (filter P rs) \<le> cq_held a rs"
  by (induction rs) (auto simp: cq_held_def)

lemma cq_held_update: "cq_held a (AList.update k q rs) \<le> cq_held a rs + (if cq_account q = a then 1 else 0)"
  by (induction rs) (auto simp: cq_held_def)

lemma cq_held_replace: "map_of rs k = Some q \<Longrightarrow> cq_account q' = cq_account q \<Longrightarrow> cq_held a (AList.update k q' rs) = cq_held a rs"
  by (induction rs) (auto simp: cq_held_def split: if_splits)

lemma stalest_in: "stalest xs = Some x \<Longrightarrow> x \<in> set xs"
  by (induction xs arbitrary: x) (auto split: option.splits if_splits)

lemma stalest_some: "xs \<noteq> [] \<Longrightarrow> \<exists>x. stalest xs = Some x"
  by (cases xs) (auto split: option.splits)

end
