(* ===== verification/Connect_Properties.thy ===== *)
theory Connect_Properties
  imports Connect_Broker "HOL-Library.Multiset"
begin

text \<open>
  What the connect broker guarantees over any sequence of calls by any parties: each role credential leaves it only for
  the party it belongs to, its tables stay bounded, and an approved connection can be collected by both ends.
\<close>

section \<open>Runs of the broker\<close>

datatype connect_event =
    EvRequest string party string
  | EvApprove string party session_grant
  | EvHost string party string string
  | EvClient string party string string
  | EvMinted string party string string

text \<open>
  Every call anyone may make, with the log of requests made, approvals given and credentials handed out. A hash map may
  also change its iteration order at any time.
\<close>

inductive broker_step :: "(string \<Rightarrow> u64) \<Rightarrow> broker \<times> connect_event set \<Rightarrow> broker \<times> connect_event set \<Rightarrow> bool"
  for digest :: "string \<Rightarrow> u64" where
  beat: "broker_step digest (b, ev) (heartbeat digest b account device now, ev)"
| offline: "broker_step digest (b, ev) (go_offline b device, ev)"
| asked: "request_scoped digest b i account requester target requested now = (b', Inr q) \<Longrightarrow>
     broker_step digest (b, ev) (b', insert (EvRequest i \<lparr>pt_account = account, pt_device = requester\<rparr> target) ev)"
| ask_refused: "request_scoped digest b i account requester target requested now = (b', Inl e) \<Longrightarrow>
     broker_step digest (b, ev) (b', ev)"
| prompt: "broker_step digest (b, ev) (fst (pending_for_target b account target now), ev)"
| approved: "approve_scoped b i by grant granted now = (b', Inr q) \<Longrightarrow>
     broker_step digest (b, ev) (b', insert (EvApprove i by grant) ev)"
| approve_refused: "approve_scoped b i by grant granted now = (b', Inl e) \<Longrightarrow> broker_step digest (b, ev) (b', ev)"
| denied: "broker_step digest (b, ev) (fst (bk_deny b i account target now), ev)"
| host_out: "collect_host_credential b i by now = (b', Inr (s, c)) \<Longrightarrow>
     broker_step digest (b, ev) (b', insert (EvHost i by s c) ev)"
| host_refused: "collect_host_credential b i by now = (b', Inl e) \<Longrightarrow> broker_step digest (b, ev) (b', ev)"
| client_out: "collect_client_credential b i by now = (b', Inr (s, c)) \<Longrightarrow>
     broker_step digest (b, ev) (b', insert (EvClient i by s c) ev)"
| client_refused: "collect_client_credential b i by now = (b', Inl e) \<Longrightarrow> broker_step digest (b, ev) (b', ev)"
| minted: "minted_credentials b i by = Inr (h, c) \<Longrightarrow> broker_step digest (b, ev) (b, insert (EvMinted i by h c) ev)"
| published: "broker_step digest (b, ev) (mark_published b i, ev)"
| withdrawn: "broker_step digest (b, ev) (bk_withdraw b i, ev)"
| observed: "broker_step digest (b, ev) (fst (bk_observe b i account requester now), ev)"
| rehashed: "mset (bk_requests b') = mset (bk_requests b) \<Longrightarrow> mset (bk_presence b') = mset (bk_presence b) \<Longrightarrow>
     broker_step digest (b, ev) (b', ev)"

definition broker_start :: "broker \<times> connect_event set \<Rightarrow> bool" where
  "broker_start w \<longleftrightarrow> w = (broker_default, {})"

section \<open>Invariant\<close>

text \<open>A stored request was made by its requester and, when approved, carries what its target granted.\<close>

definition request_ok :: "connect_event set \<Rightarrow> string \<times> connect_request \<Rightarrow> bool" where
  "request_ok ev = (\<lambda>(i, q).
     EvRequest i \<lparr>pt_account = cq_account q, pt_device = cq_requester q\<rparr> (cq_target q) \<in> ev \<and> cq_requester q \<noteq> cq_target q
     \<and> (if cq_state q = CsApproved
        then \<exists>g. EvApprove i \<lparr>pt_account = cq_account q, pt_device = cq_target q\<rparr> g \<in> ev
              \<and> cq_session q = Some (sg_session g) \<and> cq_host q = Some (sg_host g) \<and> cq_client q = Some (sg_client g)
        else cq_session q = None \<and> cq_host q = None \<and> cq_client q = None))"

definition requests_ok :: "connect_event set \<Rightarrow> (string \<times> connect_request) list \<Rightarrow> bool" where
  "requests_ok ev rs \<longleftrightarrow> distinct (map fst rs) \<and> (\<forall>x \<in> set rs. request_ok ev x)
     \<and> length rs \<le> MAX_PENDING_REQUESTS \<and> (\<forall>a. cq_held a rs \<le> MAX_REQUESTS_PER_ACCOUNT)"

definition presence_ok :: "(string \<times> presence) list \<Rightarrow> bool" where
  "presence_ok ps \<longleftrightarrow> distinct (map fst ps) \<and> length ps \<le> MAX_TRACKED_PRESENCE"

text \<open>The log itself: who was handed which credential, and why.\<close>

definition events_ok :: "connect_event set \<Rightarrow> bool" where
  "events_ok ev \<longleftrightarrow>
     (\<forall>i p s c. EvHost i p s c \<in> ev \<longrightarrow> (\<exists>g. EvApprove i p g \<in> ev \<and> sg_session g = s \<and> sg_host g = c))
   \<and> (\<forall>i p s c. EvClient i p s c \<in> ev \<longrightarrow> (\<exists>q g. EvApprove i q g \<in> ev \<and> sg_session g = s \<and> sg_client g = c
        \<and> EvRequest i p (pt_device q) \<in> ev \<and> pt_account q = pt_account p \<and> pt_device q \<noteq> pt_device p))
   \<and> (\<forall>i p h c. EvMinted i p h c \<in> ev \<longrightarrow> (\<exists>g. EvApprove i p g \<in> ev \<and> sg_host g = h \<and> sg_client g = c))
   \<and> (\<forall>i p g. EvApprove i p g \<in> ev \<longrightarrow>
        (\<exists>r. EvRequest i r (pt_device p) \<in> ev \<and> pt_account r = pt_account p \<and> pt_device r \<noteq> pt_device p))"

definition broker_inv :: "broker \<times> connect_event set \<Rightarrow> bool" where
  "broker_inv = (\<lambda>(b, ev). requests_ok ev (bk_requests b) \<and> presence_ok (bk_presence b) \<and> events_ok ev)"

lemma party_eta [simp]: "\<lparr>pt_account = pt_account p, pt_device = pt_device p\<rparr> = (p :: party)"
  by (cases p) simp

lemma request_ok_mono: "request_ok ev x \<Longrightarrow> ev \<subseteq> ev' \<Longrightarrow> request_ok ev' x"
  by (cases x) (auto simp: request_ok_def split: if_splits)

lemma requests_ok_mono: "requests_ok ev rs \<Longrightarrow> ev \<subseteq> ev' \<Longrightarrow> requests_ok ev' rs"
  by (auto simp: requests_ok_def intro: request_ok_mono)

lemma requests_ok_filter: "requests_ok ev rs \<Longrightarrow> requests_ok ev (filter P rs)"
  by (auto simp: requests_ok_def distinct_map_filter intro: le_trans [OF length_filter_le] le_trans [OF cq_held_filter])

lemma requests_ok_replace:
  assumes "requests_ok ev rs" "map_of rs i = Some q" "request_ok ev (i, q')" "cq_account q' = cq_account q"
  shows "requests_ok ev (AList.update i q' rs)"
  using assms set_alist_update_subset [of i q' rs] cq_held_replace [OF assms(2,4)]
  by (auto simp: requests_ok_def length_alist_update distinct_update)

lemma requests_ok_insert:
  assumes "requests_ok ev rs" "request_ok ev (i, q)" "length rs < MAX_PENDING_REQUESTS"
    "cq_held (cq_account q) rs < MAX_REQUESTS_PER_ACCOUNT"
  shows "requests_ok ev (AList.update i q rs)"
proof -
  have "cq_held a (AList.update i q rs) \<le> MAX_REQUESTS_PER_ACCOUNT" for a
    using cq_held_update [of a i q rs] assms(1,4) by (auto simp: requests_ok_def split: if_splits intro: order.trans)
  then show ?thesis
    using assms set_alist_update_subset [of i q rs]
    by (auto simp: requests_ok_def length_alist_update distinct_update)
qed

lemma presence_ok_filter: "presence_ok ps \<Longrightarrow> presence_ok (filter P ps)"
  by (auto simp: presence_ok_def distinct_map_filter intro: le_trans [OF length_filter_le])

lemma delete_filter: "AList.delete k xs = filter (\<lambda>(k', _). k \<noteq> k') xs"
  by (simp add: AList.delete_eq)

lemma broker_inv_expire: "broker_inv (b, ev) \<Longrightarrow> broker_inv (bk_expire b now, ev)"
  by (simp add: broker_inv_def bk_expire_def requests_ok_filter presence_ok_filter)

lemma request_ok_at: "broker_inv (b, ev) \<Longrightarrow> map_of (bk_requests b) i = Some q \<Longrightarrow> request_ok ev (i, q)"
  by (auto simp: broker_inv_def requests_ok_def dest!: map_of_SomeD)

lemma broker_inv_replace:
  assumes "broker_inv (b, ev)" "map_of (bk_requests b) i = Some q" "request_ok ev (i, q')" "cq_account q' = cq_account q"
  shows "broker_inv (b\<lparr>bk_requests := AList.update i q' (bk_requests b)\<rparr>, ev)"
  using assms by (simp add: broker_inv_def requests_ok_replace)

lemma broker_inv_log:
  "broker_inv (b, ev) \<Longrightarrow> events_ok (insert e ev) \<Longrightarrow> broker_inv (b, insert e ev)"
  by (auto simp: broker_inv_def intro: requests_ok_mono)

lemma heartbeat_inv: "broker_inv (b, ev) \<Longrightarrow> broker_inv (heartbeat digest b account device now, ev)"
proof -
  assume "broker_inv (b, ev)"
  then have inv: "broker_inv (bk_expire b now, ev)" by (rule broker_inv_expire)
  define p where "p = bk_presence (bk_expire b now)"
  define p' where "p' = (if MAX_TRACKED_PRESENCE \<le> length p \<and> map_of p device = None
    then (case stalest p of Some (d, _) \<Rightarrow> AList.delete d p | None \<Rightarrow> p) else p)"
  have ok: "presence_ok p" using inv by (simp add: broker_inv_def p_def)
  have room: "length p' < MAX_TRACKED_PRESENCE \<or> map_of p device \<noteq> None \<and> p' = p"
  proof (cases "MAX_TRACKED_PRESENCE \<le> length p \<and> map_of p device = None")
    case True
    then have "p \<noteq> []" by (auto simp: MAX_TRACKED_PRESENCE_def)
    then obtain d e where s: "stalest p = Some (d, e)" using stalest_some [of p] by auto
    have "map_of p d = Some e" using stalest_in [OF s] ok by (simp add: presence_ok_def)
    then have "length (AList.delete d p) < length p" by (intro length_alist_delete_less) simp
    then show ?thesis using True s ok by (simp add: p'_def presence_ok_def)
  next
    case False then show ?thesis by (auto simp: p'_def)
  qed
  have ok': "presence_ok p'"
    using ok by (auto simp: p'_def delete_filter presence_ok_filter split: option.split)
  have "presence_ok (AList.update device v p')" for v
    using ok' room by (auto simp: presence_ok_def length_alist_update distinct_update)
  moreover have "heartbeat digest b account device now = (bk_expire b now)\<lparr>bk_presence := AList.update device
      \<lparr>pr_account_hash = digest account, pr_last_seen = now\<rparr> p'\<rparr>"
    by (auto simp: heartbeat_def Let_def p'_def p_def split: option.split)
  ultimately show ?thesis using inv by (simp add: broker_inv_def)
qed

lemma request_scoped_inv:
  assumes "broker_inv (b, ev)" "request_scoped digest b i account requester target requested now = (b', Inr q)"
  shows "broker_inv (b', insert (EvRequest i \<lparr>pt_account = account, pt_device = requester\<rparr> target) ev)"
proof -
  let ?e = "EvRequest i \<lparr>pt_account = account, pt_device = requester\<rparr> target" and ?x = "bk_expire b now"
  from assms(2) have room: "requester \<noteq> target" "length (bk_requests ?x) < MAX_PENDING_REQUESTS"
      "cq_held account (bk_requests ?x) < MAX_REQUESTS_PER_ACCOUNT"
    and b': "b' = ?x\<lparr>bk_requests := AList.update i q (bk_requests ?x)\<rparr>"
    and q: "cq_account q = account" "cq_requester q = requester" "cq_target q = target" "cq_state q = CsPending"
      "cq_session q = None" "cq_host q = None" "cq_client q = None"
    by (auto simp: request_scoped_def Let_def account_held_eq split: if_splits)
  have "events_ok (insert ?e ev)" using assms(1) unfolding broker_inv_def events_ok_def by fastforce
  then have inv: "broker_inv (?x, insert ?e ev)" using broker_inv_expire [OF assms(1)] by (rule broker_inv_log [rotated])
  have "request_ok (insert ?e ev) (i, q)" using q room(1) by (simp add: request_ok_def)
  with inv room(2,3) q(1) show ?thesis unfolding b' by (simp add: broker_inv_def requests_ok_insert)
qed

lemma approve_scoped_inv:
  assumes "broker_inv (b, ev)" "approve_scoped b i by grant granted now = (b', Inr q)"
  shows "broker_inv (b', insert (EvApprove i by grant) ev)"
proof -
  let ?e = "EvApprove i by grant" and ?x = "bk_expire b now"
  obtain q0 where q0: "map_of (bk_requests ?x) i = Some q0" "cq_account q0 = pt_account by" "cq_target q0 = pt_device by"
      "cq_state q0 = CsPending"
    and q: "q = q0\<lparr>cq_state := CsApproved, cq_granted := granted, cq_session := Some (sg_session grant),
       cq_host := Some (sg_host grant), cq_client := Some (sg_client grant), cq_expires_at := now + APPROVAL_TTL\<rparr>"
    and b': "b' = ?x\<lparr>bk_requests := AList.update i q (bk_requests ?x)\<rparr>"
    using assms(2) by (auto simp: approve_scoped_def Let_def split: option.splits if_splits)
  have inv: "broker_inv (?x, ev)" by (rule broker_inv_expire) (rule assms)
  have r: "EvRequest i \<lparr>pt_account = pt_account by, pt_device = cq_requester q0\<rparr> (pt_device by) \<in> ev" "cq_requester q0 \<noteq> pt_device by"
    using request_ok_at [OF inv q0(1)] q0 by (simp_all add: request_ok_def)
  then have "events_ok (insert ?e ev)" using assms(1) unfolding broker_inv_def events_ok_def by fastforce
  then have inv': "broker_inv (?x, insert ?e ev)" using inv by (rule broker_inv_log [rotated])
  have "request_ok (insert ?e ev) (i, q)" using r q0 unfolding q by (auto simp: request_ok_def)
  then show ?thesis unfolding b' by (rule broker_inv_replace [OF inv' q0(1)]) (simp add: q)
qed

lemma bk_deny_inv: "broker_inv (b, ev) \<Longrightarrow> broker_inv (fst (bk_deny b i account target now), ev)"
proof -
  assume "broker_inv (b, ev)"
  then have inv: "broker_inv (bk_expire b now, ev)" by (rule broker_inv_expire)
  have "broker_inv ((bk_expire b now)\<lparr>bk_requests := AList.update i (q\<lparr>cq_state := CsDenied, cq_expires_at := e\<rparr>)
      (bk_requests (bk_expire b now))\<rparr>, ev)"
    if "map_of (bk_requests (bk_expire b now)) i = Some q" "cq_state q = CsPending" for q e
    using request_ok_at [OF inv that(1)] that(2)
    by (intro broker_inv_replace [OF inv that(1)]) (simp_all add: request_ok_def)
  then show ?thesis using inv by (auto simp: bk_deny_def Let_def split: option.split)
qed

lemma mark_published_inv: "broker_inv (b, ev) \<Longrightarrow> broker_inv (mark_published b i, ev)"
  using broker_inv_replace [of b ev i _ "_\<lparr>cq_published := True\<rparr>"] request_ok_at [of b ev i]
  by (fastforce simp: mark_published_def request_ok_def split: option.split)

lemma collect_host_entry:
  assumes "collect_host_credential b i by now = (b', Inr (s, c))"
  shows "\<exists>q. b' = bk_expire b now \<and> map_of (bk_requests b') i = Some q \<and> cq_account q = pt_account by \<and> cq_target q = pt_device by
    \<and> cq_state q = CsApproved \<and> cq_published q \<and> cq_session q = Some s \<and> cq_host q = Some c"
  using assms by (auto simp: collect_host_credential_def Let_def split: option.splits if_splits)

lemma collect_client_entry:
  assumes "collect_client_credential b i by now = (b', Inr (s, c))"
  shows "\<exists>q. b' = bk_expire b now \<and> map_of (bk_requests b') i = Some q \<and> cq_account q = pt_account by \<and> cq_requester q = pt_device by
    \<and> cq_state q = CsApproved \<and> cq_published q \<and> cq_session q = Some s \<and> cq_client q = Some c"
  using assms by (auto simp: collect_client_credential_def Let_def split: option.splits if_splits)

lemma collect_host_inv:
  assumes "broker_inv (b, ev)" "collect_host_credential b i by now = (b', Inr (s, c))"
  shows "broker_inv (b', insert (EvHost i by s c) ev)"
proof -
  obtain q where q: "b' = bk_expire b now" "map_of (bk_requests b') i = Some q" "cq_account q = pt_account by"
      "cq_target q = pt_device by" "cq_state q = CsApproved" "cq_session q = Some s" "cq_host q = Some c"
    using collect_host_entry [OF assms(2)] by blast
  have inv: "broker_inv (b', ev)" unfolding q(1) by (rule broker_inv_expire) (rule assms)
  obtain g where "EvApprove i by g \<in> ev" "sg_session g = s" "sg_host g = c"
    using request_ok_at [OF inv q(2)] q(3-) by (auto simp: request_ok_def)
  then have "events_ok (insert (EvHost i by s c) ev)" using inv unfolding broker_inv_def events_ok_def by fastforce
  then show ?thesis by (rule broker_inv_log [OF inv])
qed

lemma events_ok_client:
  assumes "events_ok ev" "EvApprove i q g \<in> ev" "EvRequest i p (pt_device q) \<in> ev" "pt_account q = pt_account p"
    "pt_device q \<noteq> pt_device p"
  shows "events_ok (insert (EvClient i p (sg_session g) (sg_client g)) ev)"
proof -
  note ok = assms(1) [unfolded events_ok_def]
  have "\<exists>q' g'. EvApprove i' q' g' \<in> ev \<and> sg_session g' = s \<and> sg_client g' = c \<and> EvRequest i' p' (pt_device q') \<in> ev
      \<and> pt_account q' = pt_account p' \<and> pt_device q' \<noteq> pt_device p'"
    if "EvClient i' p' s c \<in> insert (EvClient i p (sg_session g) (sg_client g)) ev" for i' p' s c
  proof (cases "EvClient i' p' s c \<in> ev")
    case True then show ?thesis using ok by blast
  next
    case False
    then have "i' = i" "p' = p" "s = sg_session g" "c = sg_client g" using that by simp_all
    then show ?thesis using assms(2-5) by metis
  qed
  moreover have "e \<in> ev" if "e \<in> insert (EvClient i p (sg_session g) (sg_client g)) ev" "\<And>i p s c. e \<noteq> EvClient i p s c" for e
    using that by blast
  ultimately show ?thesis using ok unfolding events_ok_def
    by (intro conjI allI impI) (metis connect_event.distinct insertCI)+
qed

lemma collect_client_inv:
  assumes "broker_inv (b, ev)" "collect_client_credential b i by now = (b', Inr (s, c))"
  shows "broker_inv (b', insert (EvClient i by s c) ev)"
proof -
  obtain q where q: "b' = bk_expire b now" "map_of (bk_requests b') i = Some q" "cq_account q = pt_account by"
      "cq_requester q = pt_device by" "cq_state q = CsApproved" "cq_session q = Some s" "cq_client q = Some c"
    using collect_client_entry [OF assms(2)] by blast
  have inv: "broker_inv (b', ev)" unfolding q(1) by (rule broker_inv_expire) (rule assms)
  obtain g where g: "EvApprove i \<lparr>pt_account = pt_account by, pt_device = cq_target q\<rparr> g \<in> ev" "sg_session g = s" "sg_client g = c"
      "EvRequest i by (cq_target q) \<in> ev" "pt_device by \<noteq> cq_target q"
    using request_ok_at [OF inv q(2)] q(3-) by (auto simp: request_ok_def)
  have "events_ok (insert (EvClient i by (sg_session g) (sg_client g)) ev)"
    by (rule events_ok_client [OF _ g(1)]) (use inv g in \<open>simp_all add: broker_inv_def\<close>)
  then have "events_ok (insert (EvClient i by s c) ev)" by (simp add: g(2,3))
  then show ?thesis by (rule broker_inv_log [OF inv])
qed

lemma minted_inv:
  assumes "broker_inv (b, ev)" "minted_credentials b i by = Inr (h, c)"
  shows "broker_inv (b, insert (EvMinted i by h c) ev)"
proof -
  obtain q where q: "map_of (bk_requests b) i = Some q" "cq_account q = pt_account by" "cq_target q = pt_device by"
      "cq_host q = Some h" "cq_client q = Some c"
    using assms(2) by (auto simp: minted_credentials_def split: option.splits if_splits)
  obtain g where "EvApprove i by g \<in> ev" "sg_host g = h" "sg_client g = c"
    using request_ok_at [OF assms(1) q(1)] q(2-) by (auto simp: request_ok_def split: if_splits)
  then have "events_ok (insert (EvMinted i by h c) ev)" using assms(1) unfolding broker_inv_def events_ok_def by fastforce
  then show ?thesis by (rule broker_inv_log [OF assms(1)])
qed

lemma requests_ok_perm: "requests_ok ev rs \<Longrightarrow> mset rs' = mset rs \<Longrightarrow> requests_ok ev rs'"
proof -
  assume ok: "requests_ok ev rs" and m: "mset rs' = mset rs"
  have "mset (map fst rs') = mset (map fst rs)" "length (filter P rs') = length (filter P rs)" for P
    using m by simp (metis m mset_filter size_mset)
  then show ?thesis using ok m mset_eq_length [OF m] mset_eq_setD [OF m] mset_eq_imp_distinct_iff
    unfolding requests_ok_def cq_held_def by metis
qed

lemma presence_ok_perm: "presence_ok ps \<Longrightarrow> mset ps' = mset ps \<Longrightarrow> presence_ok ps'"
  unfolding presence_ok_def using mset_eq_length mset_eq_imp_distinct_iff [of "map fst ps'" "map fst ps"]
  by (metis mset_map)

lemma broker_step_inv:
  assumes "broker_inv w" "broker_step digest w w'"
  shows "broker_inv w'"
  using assms(2,1)
proof cases
  case ask_refused then show ?thesis using assms(1)
    by (auto simp: request_scoped_def Let_def intro: broker_inv_expire split: if_splits)
next
  case approve_refused then show ?thesis using assms(1)
    by (auto simp: approve_scoped_def Let_def intro: broker_inv_expire split: if_splits option.splits)
next
  case withdrawn then show ?thesis using assms(1)
    by (simp add: broker_inv_def bk_withdraw_def delete_filter requests_ok_filter)
next
  case offline then show ?thesis using assms(1)
    by (simp add: broker_inv_def go_offline_def delete_filter presence_ok_filter)
next
  case rehashed then show ?thesis using assms(1)
    by (auto simp: broker_inv_def intro: requests_ok_perm presence_ok_perm)
next
  case beat then show ?thesis using assms(1) by (simp add: heartbeat_inv)
next
  case asked then show ?thesis using assms(1) by (simp add: request_scoped_inv)
next
  case approved then show ?thesis using assms(1) by (simp add: approve_scoped_inv)
next
  case denied then show ?thesis using assms(1) by (simp add: bk_deny_inv)
next
  case host_out then show ?thesis using assms(1) by (simp add: collect_host_inv)
next
  case client_out then show ?thesis using assms(1) by (simp add: collect_client_inv)
next
  case minted then show ?thesis using assms(1) by (simp add: minted_inv)
next
  case published then show ?thesis using assms(1) by (simp add: mark_published_inv)
qed (use assms(1) in \<open>auto simp: pending_for_target_def bk_observe_def collect_host_credential_def
    collect_client_credential_def Let_def intro: broker_inv_expire\<close>)

lemma broker_start_inv: "broker_start w \<Longrightarrow> broker_inv w"
  by (simp add: broker_start_def broker_inv_def broker_default_def requests_ok_def presence_ok_def events_ok_def cq_held_def)

interpretation connect: invariant_system broker_start "broker_step digest" broker_inv for digest
  by unfold_locales (auto intro: broker_start_inv broker_step_inv)

text \<open>
  C5: Each role credential leaves the broker only for the party it belongs to. Over any sequence of calls by any
  parties: a host credential was collected only by the very device that approved the request and supplied it; a client
  credential only by the device that made the request, which belongs to the approver's account and is a different
  device; both halves together were shown only to the approver; and only the device a request names approved it.
\<close>

theorem connect_credentials_private:
  assumes "reachable broker_start (broker_step digest) (b, ev)"
  shows "(EvHost i p s c \<in> ev \<longrightarrow> (\<exists>g. EvApprove i p g \<in> ev \<and> sg_session g = s \<and> sg_host g = c))
    \<and> (EvClient i p s c \<in> ev \<longrightarrow> (\<exists>q g. EvApprove i q g \<in> ev \<and> sg_session g = s \<and> sg_client g = c
        \<and> EvRequest i p (pt_device q) \<in> ev \<and> pt_account q = pt_account p \<and> pt_device q \<noteq> pt_device p))
    \<and> (EvMinted i p h c \<in> ev \<longrightarrow> (\<exists>g. EvApprove i p g \<in> ev \<and> sg_host g = h \<and> sg_client g = c))
    \<and> (EvApprove i p g \<in> ev \<longrightarrow>
        (\<exists>r. EvRequest i r (pt_device p) \<in> ev \<and> pt_account r = pt_account p \<and> pt_device r \<noteq> pt_device p))"
proof -
  have "events_ok ev" using connect.reachable_inv [OF assms] by (simp add: broker_inv_def)
  then show ?thesis unfolding events_ok_def by blast
qed

text \<open>
  C32: The broker stays bounded: over any sequence of calls it tracks at most 1024 requests, at most 16 of any one
  account, and at most 4096 present devices.
\<close>

theorem connect_bounded:
  assumes "reachable broker_start (broker_step digest) (b, ev)"
  shows "length (bk_requests b) \<le> 1024 \<and> account_held b account \<le> 16 \<and> length (bk_presence b) \<le> 4096"
  using connect.reachable_inv [OF assms]
  by (simp add: broker_inv_def requests_ok_def presence_ok_def account_held_eq MAX_PENDING_REQUESTS_def
      MAX_REQUESTS_PER_ACCOUNT_def MAX_TRACKED_PRESENCE_def)

section \<open>Hand-over\<close>

lemma map_of_requests_expire:
  assumes "broker_inv (b, ev)"
  shows "map_of (bk_requests (bk_expire b now)) i =
     (case map_of (bk_requests b) i of Some q \<Rightarrow> if is_expired q now then None else Some q | None \<Rightarrow> None)"
  using assms by (auto simp: broker_inv_def requests_ok_def bk_expire_def map_of_filter_distinct split: option.split)

text \<open>
  The calls that may reach the broker after an approved request \<open>i\<close> was published, with their times: collections of
  the request by anyone, and everything else the broker offers, on this request or on others. The
  answer recorded is that of a collection.
\<close>

datatype handover_call =
    HcHost party nat
  | HcClient party nat
  | HcBeat string string nat
  | HcOffline string
  | HcPrompt string string nat
  | HcObserve string string string nat
  | HcRequest string string string string permissions nat
  | HcApprove string party session_grant permissions nat
  | HcDeny string string string nat
  | HcPublished string
  | HcWithdraw string

fun handover_step :: "(string \<Rightarrow> u64) \<Rightarrow> string \<Rightarrow> broker \<Rightarrow> handover_call \<Rightarrow> broker \<times> (connect_error + string \<times> string) option" where
  "handover_step digest i b (HcHost p t) = (case collect_host_credential b i p t of (b', a) \<Rightarrow> (b', Some a))"
| "handover_step digest i b (HcClient p t) = (case collect_client_credential b i p t of (b', a) \<Rightarrow> (b', Some a))"
| "handover_step digest i b (HcBeat account device t) = (heartbeat digest b account device t, None)"
| "handover_step digest i b (HcOffline device) = (go_offline b device, None)"
| "handover_step digest i b (HcPrompt account target t) = (fst (pending_for_target b account target t), None)"
| "handover_step digest i b (HcObserve j account requester t) = (fst (bk_observe b j account requester t), None)"
| "handover_step digest i b (HcRequest j account requester target pm t)
     = (fst (request_scoped digest b j account requester target pm t), None)"
| "handover_step digest i b (HcApprove j p grant pm t) = (fst (approve_scoped b j p grant pm t), None)"
| "handover_step digest i b (HcDeny j account target t) = (fst (bk_deny b j account target t), None)"
| "handover_step digest i b (HcPublished j) = (mark_published b j, None)"
| "handover_step digest i b (HcWithdraw j) = (bk_withdraw b j, None)"

fun handover_run :: "(string \<Rightarrow> u64) \<Rightarrow> string \<Rightarrow> broker \<Rightarrow> handover_call list \<Rightarrow> (connect_error + string \<times> string) option list" where
  "handover_run digest i b [] = []"
| "handover_run digest i b (c # cs) = (case handover_step digest i b c of (b', a) \<Rightarrow> a # handover_run digest i b' cs)"

fun call_time :: "handover_call \<Rightarrow> nat option" where
  "call_time (HcHost p t) = Some t"
| "call_time (HcClient p t) = Some t"
| "call_time (HcBeat a d t) = Some t"
| "call_time (HcPrompt a d t) = Some t"
| "call_time (HcObserve j a r t) = Some t"
| "call_time (HcRequest j a r g pm t) = Some t"
| "call_time (HcApprove j p g pm t) = Some t"
| "call_time (HcDeny j a d t) = Some t"
| "call_time (HcOffline d) = None"
| "call_time (HcPublished j) = None"
| "call_time (HcWithdraw j) = None"

text \<open>The identifier is not given to a new request, and the request is not withdrawn.\<close>

fun call_reuses :: "string \<Rightarrow> handover_call \<Rightarrow> bool" where
  "call_reuses i (HcRequest j a r g pm t) = (j = i)"
| "call_reuses i (HcWithdraw j) = (j = i)"
| "call_reuses i c = False"

text \<open>What each call should answer: a collection by the party it is for its credential, by another a refusal, late nothing.\<close>

fun handover_answer :: "party \<Rightarrow> party \<Rightarrow> session_grant \<Rightarrow> nat \<Rightarrow> handover_call \<Rightarrow> (connect_error + string \<times> string) option" where
  "handover_answer host guest grant deadline (HcHost p t) =
     Some (if deadline \<le> t then Inl CeNotFound else if p = host then Inr (sg_session grant, sg_host grant) else Inl CeForbidden)"
| "handover_answer host guest grant deadline (HcClient p t) =
     Some (if deadline \<le> t then Inl CeNotFound else if p = guest then Inr (sg_session grant, sg_client grant) else Inl CeForbidden)"
| "handover_answer host guest grant deadline c = None"

lemma handover_broker_step: "\<exists>ev'. broker_step digest (b, ev) (fst (handover_step digest i b c), ev')"
proof (cases c)
  case (HcHost p t)
  obtain b' a where e: "collect_host_credential b i p t = (b', a)" by fastforce
  have "\<exists>ev'. broker_step digest (b, ev) (b', ev')"
  proof (cases a)
    case (Inr x)
    then show ?thesis using host_out [of b i p t b' "fst x" "snd x"] e by auto
  qed (use host_refused e in blast)
  then show ?thesis using HcHost e by simp
next
  case (HcClient p t)
  obtain b' a where e: "collect_client_credential b i p t = (b', a)" by fastforce
  have "\<exists>ev'. broker_step digest (b, ev) (b', ev')"
  proof (cases a)
    case (Inr x)
    then show ?thesis using client_out [of b i p t b' "fst x" "snd x"] e by auto
  qed (use client_refused e in blast)
  then show ?thesis using HcClient e by simp
next
  case (HcRequest j a r g pm t)
  obtain b' x where e: "request_scoped digest b j a r g pm t = (b', x)" by fastforce
  have "\<exists>ev'. broker_step digest (b, ev) (b', ev')"
    using e by (cases x; hypsubst) (blast intro: asked ask_refused)+
  then show ?thesis using HcRequest e by simp
next
  case (HcApprove j p g pm t)
  obtain b' x where e: "approve_scoped b j p g pm t = (b', x)" by fastforce
  have "\<exists>ev'. broker_step digest (b, ev) (b', ev')"
    using e by (cases x; hypsubst) (blast intro: approved approve_refused)+
  then show ?thesis using HcApprove e by simp
qed (auto intro: broker_step.intros)

text \<open>An approved and published request is never changed, only dropped when it is due.\<close>

lemma handover_lookup:
  assumes "map_of (bk_requests b) i = None \<or> map_of (bk_requests b) i = Some q" "cq_state q = CsApproved" "cq_published q"
    and "\<not> call_reuses i c" "broker_inv (b, ev)"
  shows "map_of (bk_requests (fst (handover_step digest i b c))) i
    = (case call_time c of None \<Rightarrow> map_of (bk_requests b) i | Some t \<Rightarrow> map_of (bk_requests (bk_expire b t)) i)"
proof -
  have same: "q\<lparr>cq_published := True\<rparr> = q" using assms(3) by (cases q) simp
  have e: "map_of (bk_requests (bk_expire b t)) i = None \<or> map_of (bk_requests (bk_expire b t)) i = Some q" for t
    using map_of_requests_expire [OF assms(5), of t i] assms(1) by (auto split: if_splits)
  show ?thesis
  proof (cases c)
    case (HcApprove j p g pm t)
    then show ?thesis using e [of t] assms(2) by (auto simp: approve_scoped_def Let_def update_conv' split: option.splits)
  next
    case (HcDeny j a d t)
    then show ?thesis using e [of t] assms(2) by (auto simp: bk_deny_def Let_def update_conv' split: option.splits)
  next
    case (HcPublished j)
    then show ?thesis using assms(1) same by (auto simp: mark_published_def update_conv' split: option.splits)
  next
    case (HcWithdraw j)
    then show ?thesis using assms(4) by (auto simp: bk_withdraw_def delete_conv')
  next
    case (HcRequest j a r g pm t)
    then show ?thesis using assms(4) by (auto simp: request_scoped_def Let_def update_conv')
  next
    case (HcBeat a d t)
    then show ?thesis by (auto simp: heartbeat_def Let_def split: option.split)
  qed (auto simp: collect_host_credential_def collect_client_credential_def go_offline_def pending_for_target_def bk_observe_def Let_def)
qed

lemma handover_run_answers:
  assumes "cq_state q = CsApproved" "cq_published q" "cq_session q = Some (sg_session grant)" "cq_host q = Some (sg_host grant)"
      "cq_client q = Some (sg_client grant)"
    and "host = \<lparr>pt_account = cq_account q, pt_device = cq_target q\<rparr>" "guest = \<lparr>pt_account = cq_account q, pt_device = cq_requester q\<rparr>"
    and "broker_inv (b, ev)" "sorted (List.map_filter call_time cs)" "\<And>c. c \<in> set cs \<Longrightarrow> \<not> call_reuses i c"
    and "map_of (bk_requests b) i = Some q
      \<or> map_of (bk_requests b) i = None \<and> (\<forall>c \<in> set cs. \<forall>t. call_time c = Some t \<longrightarrow> cq_expires_at q \<le> t)"
  shows "handover_run digest i b cs = map (handover_answer host guest grant (cq_expires_at q)) cs"
  using assms(8-)
proof (induction cs arbitrary: b ev)
  case (Cons c cs)
  let ?b = "fst (handover_step digest i b c)"
  obtain ev' where "broker_step digest (b, ev) (?b, ev')" using handover_broker_step by blast
  then have inv: "broker_inv (?b, ev')" using connect.step_inv Cons.prems(1) by blast
  have l: "map_of (bk_requests ?b) i
      = (case call_time c of None \<Rightarrow> map_of (bk_requests b) i | Some t \<Rightarrow> map_of (bk_requests (bk_expire b t)) i)"
    using Cons.prems by (intro handover_lookup [OF _ assms(1,2)]) auto
  have ex: "map_of (bk_requests (bk_expire b t)) i = (if cq_expires_at q \<le> t then None else Some q)" if "call_time c = Some t" for t
    using map_of_requests_expire [OF Cons.prems(1), of t i] Cons.prems(4) that by (auto simp: is_expired_def)
  have later: "t \<le> t'" if "call_time c = Some t" "d \<in> set cs" "call_time d = Some t'" for t d t'
    using Cons.prems(2) that by (force simp: List.map_filter_simps map_filter_def image_iff)
  have "map_of (bk_requests ?b) i = Some q
      \<or> map_of (bk_requests ?b) i = None \<and> (\<forall>d \<in> set cs. \<forall>t. call_time d = Some t \<longrightarrow> cq_expires_at q \<le> t)"
    using l ex later Cons.prems(4) by (cases "call_time c") (fastforce split: if_splits)+
  moreover have "sorted (List.map_filter call_time cs)"
    using Cons.prems(2) by (cases "call_time c") (simp_all add: List.map_filter_simps)
  ultimately have "handover_run digest i ?b cs = map (handover_answer host guest grant (cq_expires_at q)) cs"
    using Cons.IH [OF inv] Cons.prems(3) by auto
  moreover have "snd (handover_step digest i b c) = handover_answer host guest grant (cq_expires_at q) c"
    using ex assms(1-7) by (cases c) (auto simp: collect_host_credential_def collect_client_credential_def Let_def party.equality)
  ultimately show ?case by (cases "handover_step digest i b c") simp
qed simp

text \<open>
  C14: An approved connection reaches both ends, as often as they ask. From any reachable state, a request that was
  accepted and that its target approves within two minutes and publishes is followed by any sequence of
  calls at non-decreasing times, each on the broker the one before left: collections of the request by any
  parties in any number and order, heartbeats, prompts, status polls, other requests, repeated answers
  to this one; only the identifier is not reused and the request not withdrawn. Then every collection in the
  sequence within the minute after the approval gives the target the session and the host credential, the
  requester the session and the client credential, and refuses everyone else; every collection after that minute
  finds nothing.
\<close>

theorem connect_handover:
  assumes "reachable broker_start (broker_step digest) (b0, ev)"
    and "request_scoped digest b0 i account requester target requested t0 = (b1, Inr q)"
    and "t1 < t0 + REQUEST_TTL"
    and "approve_scoped b1 i \<lparr>pt_account = account, pt_device = target\<rparr> grant granted t1 = (b2, out)"
    and "sorted (List.map_filter call_time cs)" "\<forall>c \<in> set cs. \<not> call_reuses i c"
  shows "(\<exists>q'. out = Inr q')
    \<and> handover_run digest i (mark_published b2 i) cs
      = map (handover_answer \<lparr>pt_account = account, pt_device = target\<rparr> \<lparr>pt_account = account, pt_device = requester\<rparr>
               grant (t1 + APPROVAL_TTL)) cs"
proof -
  let ?T = "\<lparr>pt_account = account, pt_device = target\<rparr>" and ?G = "\<lparr>pt_account = account, pt_device = requester\<rparr>"
  have i0: "broker_inv (b0, ev)" by (rule connect.reachable_inv) (rule assms)
  let ?ev1 = "insert (EvRequest i ?G target) ev"
  have i1: "broker_inv (b1, ?ev1)" by (rule request_scoped_inv [OF i0 assms(2)])
  have q: "map_of (bk_requests b1) i = Some q" "cq_account q = account" "cq_requester q = requester" "cq_target q = target"
      "cq_state q = CsPending" "cq_expires_at q = t0 + REQUEST_TTL"
    using assms(2) by (auto simp: request_scoped_def Let_def update_conv' split: if_splits)
  have e1: "map_of (bk_requests (bk_expire b1 t1)) i = Some q"
    using map_of_requests_expire [OF i1] q assms(3) by (simp add: is_expired_def)
  define q2 where "q2 = q\<lparr>cq_state := CsApproved, cq_granted := granted, cq_session := Some (sg_session grant),
     cq_host := Some (sg_host grant), cq_client := Some (sg_client grant), cq_expires_at := t1 + APPROVAL_TTL\<rparr>"
  have ok: "out = Inr q2" and b2: "map_of (bk_requests b2) i = Some q2"
    using assms(4) e1 q by (auto simp: approve_scoped_def Let_def q2_def update_conv')
  have i2: "broker_inv (b2, insert (EvApprove i ?T grant) ?ev1)"
    by (rule approve_scoped_inv [OF i1]) (use assms(4) ok in simp)
  have i3: "broker_inv (mark_published b2 i, insert (EvApprove i ?T grant) ?ev1)" by (rule mark_published_inv) (rule i2)
  have "map_of (bk_requests (mark_published b2 i)) i = Some (q2\<lparr>cq_published := True\<rparr>)"
    using b2 by (simp add: mark_published_def update_conv')
  then have "handover_run digest i (mark_published b2 i) cs
      = map (handover_answer ?T ?G grant (cq_expires_at (q2\<lparr>cq_published := True\<rparr>))) cs"
    using assms(5,6) q by (intro handover_run_answers [OF _ _ _ _ _ _ _ i3]) (auto simp: q2_def)
  then show ?thesis using ok by (simp add: q2_def)
qed

section \<open>A concrete connection\<close>

definition demo_target :: party where "demo_target = \<lparr>pt_account = ''a'', pt_device = ''h''\<rparr>"
definition demo_requester :: party where "demo_requester = \<lparr>pt_account = ''a'', pt_device = ''c''\<rparr>"
definition demo_grant :: session_grant where "demo_grant = \<lparr>sg_session = ''s'', sg_host = ''H'', sg_client = ''C''\<rparr>"

definition demo_asked :: connect_request where
  "demo_asked = \<lparr>cq_id = ''r'', cq_account = ''a'', cq_requester = ''c'', cq_target = ''h'', cq_state = CsPending,
     cq_created_at = 1, cq_expires_at = 1 + REQUEST_TTL, cq_requested = no_permissions, cq_granted = no_permissions,
     cq_session = None, cq_published = False, cq_host = None, cq_client = None\<rparr>"

definition demo_approved :: connect_request where
  "demo_approved = demo_asked\<lparr>cq_state := CsApproved, cq_session := Some ''s'', cq_host := Some ''H'', cq_client := Some ''C'',
     cq_expires_at := 2 + APPROVAL_TTL\<rparr>"

definition demo_online :: broker where
  "demo_online = \<lparr>bk_requests = [], bk_presence = [(''h'', \<lparr>pr_account_hash = 0, pr_last_seen = 0\<rparr>)]\<rparr>"

lemmas demo_defs = demo_target_def demo_requester_def demo_grant_def demo_asked_def demo_approved_def demo_online_def
  bk_expire_def is_expired_def PRESENCE_TTL_def REQUEST_TTL_def APPROVAL_TTL_def MAX_TRACKED_PRESENCE_def
  MAX_PENDING_REQUESTS_def MAX_REQUESTS_PER_ACCOUNT_def

lemma demo_beat: "heartbeat (\<lambda>_. 0) broker_default ''a'' ''h'' 0 = demo_online"
  by (simp add: demo_defs heartbeat_def broker_default_def Let_def)

lemma demo_request: "request_scoped (\<lambda>_. 0) demo_online ''r'' ''a'' ''c'' ''h'' no_permissions 1
    = (demo_online\<lparr>bk_requests := [(''r'', demo_asked)]\<rparr>, Inr demo_asked)"
  by (simp add: demo_defs request_scoped_def Let_def is_online_def account_held_def)

lemma demo_approve: "approve_scoped (demo_online\<lparr>bk_requests := [(''r'', demo_asked)]\<rparr>) ''r'' demo_target demo_grant no_permissions 2
    = (demo_online\<lparr>bk_requests := [(''r'', demo_approved)]\<rparr>, Inr demo_approved)"
  by (simp add: demo_defs approve_scoped_def Let_def)

definition demo_ready :: broker where
  "demo_ready = mark_published (demo_online\<lparr>bk_requests := [(''r'', demo_approved)]\<rparr>) ''r''"

lemma demo_collect:
  "collect_host_credential demo_ready ''r'' demo_target 3 = (demo_ready, Inr (''s'', ''H''))"
  "collect_client_credential demo_ready ''r'' demo_requester 4 = (demo_ready, Inr (''s'', ''C''))"
  by (simp_all add: demo_defs demo_ready_def mark_published_def collect_host_credential_def collect_client_credential_def Let_def)

lemma broker_reach: "reachable broker_start (broker_step d) s \<Longrightarrow> broker_step d s t \<Longrightarrow> reachable broker_start (broker_step d) t"
  by (rule reach_step)

lemma demo_online_reachable: "reachable broker_start (broker_step (\<lambda>_. 0)) (demo_online, {})"
proof (rule broker_reach)
  show "reachable broker_start (broker_step (\<lambda>_. 0)) (broker_default, {})" by (rule reach_start) (simp add: broker_start_def)
  show "broker_step (\<lambda>_. 0) (broker_default, {}) (demo_online, {})" unfolding demo_beat [symmetric] by (rule beat)
qed

definition demo_events :: "connect_event set" where
  "demo_events = {EvClient ''r'' demo_requester ''s'' ''C'', EvHost ''r'' demo_target ''s'' ''H'',
     EvApprove ''r'' demo_target demo_grant, EvRequest ''r'' demo_requester ''h''}"

lemma demo_ready_reachable: "reachable broker_start (broker_step (\<lambda>_. 0)) (demo_ready, demo_events)"
proof -
  have r1: "reachable broker_start (broker_step (\<lambda>_. 0)) (demo_online\<lparr>bk_requests := [(''r'', demo_asked)]\<rparr>, {EvRequest ''r'' demo_requester ''h''})"
    unfolding demo_requester_def by (rule broker_reach [OF demo_online_reachable]) (rule asked [OF demo_request])
  have r2: "reachable broker_start (broker_step (\<lambda>_. 0)) (demo_online\<lparr>bk_requests := [(''r'', demo_approved)]\<rparr>,
      {EvApprove ''r'' demo_target demo_grant, EvRequest ''r'' demo_requester ''h''})"
    by (rule broker_reach [OF r1]) (rule approved [OF demo_approve])
  have r3: "reachable broker_start (broker_step (\<lambda>_. 0)) (demo_ready,
      {EvApprove ''r'' demo_target demo_grant, EvRequest ''r'' demo_requester ''h''})"
    unfolding demo_ready_def by (rule broker_reach [OF r2]) (rule published)
  have r4: "reachable broker_start (broker_step (\<lambda>_. 0)) (demo_ready,
      {EvHost ''r'' demo_target ''s'' ''H'', EvApprove ''r'' demo_target demo_grant, EvRequest ''r'' demo_requester ''h''})"
    by (rule broker_reach [OF r3]) (rule host_out [OF demo_collect(1)])
  show ?thesis unfolding demo_events_def by (rule broker_reach [OF r4]) (rule client_out [OF demo_collect(2)])
qed

lemma connect_credentials_private_witness:
  "(\<exists>g. EvApprove ''r'' demo_target g \<in> demo_events \<and> sg_session g = ''s'' \<and> sg_host g = ''H'')
   \<and> (\<exists>q g. EvApprove ''r'' q g \<in> demo_events \<and> sg_client g = ''C'' \<and> pt_account q = ''a'' \<and> pt_device q \<noteq> ''c'')"
proof -
  have "EvHost ''r'' demo_target ''s'' ''H'' \<in> demo_events" "EvClient ''r'' demo_requester ''s'' ''C'' \<in> demo_events"
    "pt_account demo_requester = ''a''" "pt_device demo_requester = ''c''"
    by (simp_all add: demo_events_def demo_requester_def)
  then show ?thesis
    using connect_credentials_private [OF demo_ready_reachable, of "''r''" demo_target "''s''" "''H''"]
      connect_credentials_private [OF demo_ready_reachable, of "''r''" demo_requester "''s''" "''C''"] by metis
qed

lemma connect_bounded_witness: "length (bk_requests demo_ready) \<le> 1024 \<and> account_held demo_ready ''a'' \<le> 16"
  using connect_bounded [OF demo_ready_reachable, of "''a''"] by blast

lemma connect_handover_witness:
  "handover_run (\<lambda>_. 0) ''r'' (mark_published (demo_online\<lparr>bk_requests := [(''r'', demo_approved)]\<rparr>) ''r'')
     [HcClient demo_requester 9, HcHost demo_target 9, HcDeny ''r'' ''a'' ''h'' 10, HcClient demo_requester 11, HcClient demo_target 12,
      HcClient demo_requester (2 + APPROVAL_TTL)]
   = [Some (Inr (''s'', ''C'')), Some (Inr (''s'', ''H'')), None, Some (Inr (''s'', ''C'')), Some (Inl CeForbidden), Some (Inl CeNotFound)]"
proof -
  let ?cs = "[HcClient demo_requester 9, HcHost demo_target 9, HcDeny ''r'' ''a'' ''h'' 10, HcClient demo_requester 11, HcClient demo_target 12,
      HcClient demo_requester (2 + APPROVAL_TTL)]"
  have t: "2 < 1 + REQUEST_TTL" "12 < 2 + APPROVAL_TTL" by (simp_all add: REQUEST_TTL_def APPROVAL_TTL_def)
  have "sorted (List.map_filter call_time ?cs)" "\<forall>c \<in> set ?cs. \<not> call_reuses ''r'' c"
    using t by (simp_all add: List.map_filter_simps)
  from connect_handover [OF demo_online_reachable demo_request t(1) demo_approve [unfolded demo_target_def] this] t(2)
  show ?thesis by (simp add: demo_requester_def demo_target_def demo_grant_def)
qed

end
