(* ===== verification/Scheduler.thy ===== *)
theory Scheduler
  imports Policy Os_Session
begin

text \<open>
  The outbound scheduler of the portable session (\<open>client-core/src/scheduler.rs\<close>): three bounded class queues, a
  paced video class, and byte debts that make the priority classes yield. The \<open>can_record\<close> callback is a function of
  the next outer counter.
\<close>

section \<open>State\<close>

definition PORTABLE_WIRE_DATAGRAM_BYTES :: nat where "PORTABLE_WIRE_DATAGRAM_BYTES = OS_MAX_DATAGRAM"
definition DEFAULT_WIRE_RATE_MBPS :: f64 where "DEFAULT_WIRE_RATE_MBPS = Fin 30"
definition CRITICAL_QUEUE_CAPACITY :: nat where "CRITICAL_QUEUE_CAPACITY = 256"
definition AUDIO_QUEUE_CAPACITY :: nat where "AUDIO_QUEUE_CAPACITY = 32"
definition VIDEO_QUEUE_CAPACITY :: nat where "VIDEO_QUEUE_CAPACITY = 256"
definition WIRE_OVERHEAD_BYTES :: nat where "WIRE_OVERHEAD_BYTES = OS_HEADER_LEN + OS_TAG_LEN"
definition DEFAULT_GENERATION :: u64 where "DEFAULT_GENERATION = 1"
definition TRANSPORT_META_CHANNEL :: byte where "TRANSPORT_META_CHANNEL = 254"

lemmas sched_consts = PORTABLE_WIRE_DATAGRAM_BYTES_def DEFAULT_WIRE_RATE_MBPS_def CRITICAL_QUEUE_CAPACITY_def
  AUDIO_QUEUE_CAPACITY_def VIDEO_QUEUE_CAPACITY_def WIRE_OVERHEAD_BYTES_def DEFAULT_GENERATION_def
  TRANSPORT_META_CHANNEL_def os_consts

datatype outbound_class = OcCritical | OcAudio | OcVideo

definition class_from_kind :: "os_kind \<Rightarrow> outbound_class" where
  "class_from_kind k = (case k of KControl \<Rightarrow> OcCritical | KInput \<Rightarrow> OcCritical | KAudio \<Rightarrow> OcAudio | KVideo \<Rightarrow> OcVideo)"

record pending_packet =
  pp_queue_id :: u64
  pp_class :: outbound_class
  pp_kind :: os_kind
  pp_channel :: byte
  pp_flags :: byte
  pp_payload :: bytes
  pp_retransmission :: bool

definition wire_len :: "pending_packet \<Rightarrow> nat" where
  "wire_len p = WIRE_OVERHEAD_BYTES + length (pp_payload p)"

datatype queue_outcome = Queued | DroppedOldest

datatype scheduler_error = QueueFull | InvalidPacket | HistoryFull

record scheduler =
  sc_critical :: "pending_packet list"
  sc_audio :: "pending_packet list"
  sc_video :: "pending_packet list"
  sc_pacer :: pacer
  sc_wire_rate_mbps :: f64
  sc_generation :: u64
  sc_critical_debt :: nat
  sc_audio_debt :: nat
  sc_next_queue_id :: u64

section \<open>Operations\<close>

definition sched_pacer_config :: pacer_config where
  "sched_pacer_config = \<lparr>min_datagram_bytes = PORTABLE_WIRE_DATAGRAM_BYTES, max_datagram_bytes = PORTABLE_WIRE_DATAGRAM_BYTES,
     max_burst_datagrams = MAX_BURST_DATAGRAMS, max_burst_time_ms = MAX_BURST_TIME_MS\<rparr>"

text \<open>\<open>new_pacer\<close> expects the configuration to be valid; \<open>sched_new_pacer_ok\<close> shows that it is.\<close>

definition sched_new_pacer :: "f64 \<Rightarrow> pacer" where
  "sched_new_pacer now_ms = (case pacer_with_config now_ms sched_pacer_config of Inr p \<Rightarrow> p | Inl _ \<Rightarrow> pacer_new now_ms)"

text \<open>\<open>f64::ceil\<close>.\<close>

fun fceil :: "f64 \<Rightarrow> f64" where
  "fceil (Fin q) = Fin (of_int \<lceil>q\<rceil>)"
| "fceil x = x"

definition priority_quantum_bytes :: "scheduler \<Rightarrow> nat" where
  "priority_quantum_bytes s =
     (let datagram = pc_datagram_bytes (sc_pacer s);
          packet_cap = min (datagram * MAX_BURST_DATAGRAMS) (usize_bound - 1);
          rate_bytes_per_ms = fdiv (fdiv (fmul (sc_wire_rate_mbps s) (rnd 1000000)) (rnd 8)) (rnd 1000);
          time_cap = fmul rate_bytes_per_ms (rnd 2);
          quantum = fmin (fmax time_cap (f64_of_nat datagram)) (f64_of_nat packet_cap)
      in if \<not> is_finite quantum \<or> fle quantum (Fin 0) then datagram else usize_of_f64 (fceil quantum))"

definition clamp_debt :: "scheduler \<Rightarrow> scheduler" where
  "clamp_debt s = (let quantum = priority_quantum_bytes s in
     s\<lparr>sc_critical_debt := min (sc_critical_debt s) quantum, sc_audio_debt := min (sc_audio_debt s) quantum\<rparr>)"

definition set_wire_rate_mbps :: "scheduler \<Rightarrow> f64 \<Rightarrow> f64 \<Rightarrow> scheduler" where
  "set_wire_rate_mbps s now_ms rate_mbps =
     (let p = set_rate (sc_pacer s) now_ms rate_mbps in
      clamp_debt (s\<lparr>sc_pacer := p, sc_wire_rate_mbps := pc_rate_mbps p\<rparr>))"

definition sched_new :: "f64 \<Rightarrow> scheduler" where
  "sched_new now_ms = set_wire_rate_mbps \<lparr>sc_critical = [], sc_audio = [], sc_video = [], sc_pacer = sched_new_pacer now_ms,
     sc_wire_rate_mbps = Fin 0, sc_generation = DEFAULT_GENERATION, sc_critical_debt = 0, sc_audio_debt = 0,
     sc_next_queue_id = 0\<rparr> now_ms DEFAULT_WIRE_RATE_MBPS"

definition class_queue :: "outbound_class \<Rightarrow> scheduler \<Rightarrow> pending_packet list" where
  "class_queue c s = (case c of OcCritical \<Rightarrow> sc_critical s | OcAudio \<Rightarrow> sc_audio s | OcVideo \<Rightarrow> sc_video s)"

definition class_queue_update :: "outbound_class \<Rightarrow> pending_packet list \<Rightarrow> scheduler \<Rightarrow> scheduler" where
  "class_queue_update c q s = (case c of OcCritical \<Rightarrow> s\<lparr>sc_critical := q\<rparr> | OcAudio \<Rightarrow> s\<lparr>sc_audio := q\<rparr>
     | OcVideo \<Rightarrow> s\<lparr>sc_video := q\<rparr>)"

definition class_capacity :: "outbound_class \<Rightarrow> nat" where
  "class_capacity c = (case c of OcCritical \<Rightarrow> CRITICAL_QUEUE_CAPACITY | OcAudio \<Rightarrow> AUDIO_QUEUE_CAPACITY
     | OcVideo \<Rightarrow> VIDEO_QUEUE_CAPACITY)"

definition queue_with_id :: "scheduler \<Rightarrow> os_kind \<Rightarrow> byte \<Rightarrow> byte \<Rightarrow> bytes \<Rightarrow> bool \<Rightarrow>
    scheduler \<times> (scheduler_error + queue_outcome \<times> u64)" where
  "queue_with_id s kind channel flags payload retransmission =
     (if kind = KControl \<and> channel = TRANSPORT_META_CHANNEL then (s, Inl InvalidPacket)
      else if (case usize_checked_add (length payload) WIRE_OVERHEAD_BYTES of None \<Rightarrow> True
               | Some n \<Rightarrow> PORTABLE_WIRE_DATAGRAM_BYTES < n) then (s, Inl InvalidPacket)
      else let class = class_from_kind kind;
               queue_id = sc_next_queue_id s;
               s = s\<lparr>sc_next_queue_id := queue_id + 1\<rparr>;
               packet = \<lparr>pp_queue_id = queue_id, pp_class = class, pp_kind = kind, pp_channel = channel, pp_flags = flags,
                         pp_payload = payload, pp_retransmission = retransmission\<rparr>;
               queue = class_queue class s
           in if length queue = class_capacity class then
                (if class = OcCritical then (s, Inl QueueFull)
                 else (class_queue_update class (tl queue @ [packet]) s, Inr (DroppedOldest, queue_id)))
              else (class_queue_update class (queue @ [packet]) s, Inr (Queued, queue_id)))"

definition video_due :: "scheduler \<Rightarrow> f64 \<Rightarrow> bool" where
  "video_due s now_ms = (case sc_video s of [] \<Rightarrow> False | packet # _ \<Rightarrow> can_consume (sc_pacer s) now_ms (wire_len packet))"

definition priority_must_yield :: "scheduler \<Rightarrow> outbound_class \<Rightarrow> f64 \<Rightarrow> bool" where
  "priority_must_yield s class now_ms =
     (let lower_due = (case class of OcCritical \<Rightarrow> sc_audio s \<noteq> [] \<or> video_due s now_ms
                       | OcAudio \<Rightarrow> video_due s now_ms | OcVideo \<Rightarrow> False)
      in if \<not> lower_due then False
         else let debt = (case class of OcCritical \<Rightarrow> sc_critical_debt s | OcAudio \<Rightarrow> sc_audio_debt s | OcVideo \<Rightarrow> 0)
              in priority_quantum_bytes s \<le> debt)"

definition select_class :: "scheduler \<Rightarrow> f64 \<Rightarrow> outbound_class option" where
  "select_class s now_ms =
     (if sc_critical s \<noteq> [] \<and> \<not> priority_must_yield s OcCritical now_ms then Some OcCritical
      else if sc_audio s \<noteq> [] \<and> \<not> priority_must_yield s OcAudio now_ms then Some OcAudio
      else if video_due s now_ms then Some OcVideo else None)"

definition record_service :: "scheduler \<Rightarrow> outbound_class \<Rightarrow> nat \<Rightarrow> scheduler" where
  "record_service s class n =
     (let quantum = priority_quantum_bytes s in
      case class of
        OcCritical \<Rightarrow> s\<lparr>sc_critical_debt := min (usize_saturating_add (sc_critical_debt s) n) quantum\<rparr>
      | OcAudio \<Rightarrow> s\<lparr>sc_critical_debt := 0, sc_audio_debt := min (usize_saturating_add (sc_audio_debt s) n) quantum\<rparr>
      | OcVideo \<Rightarrow> s\<lparr>sc_critical_debt := 0, sc_audio_debt := 0\<rparr>)"

definition pop_due :: "scheduler \<Rightarrow> f64 \<Rightarrow> u64 \<Rightarrow> (u64 \<Rightarrow> bool) \<Rightarrow> scheduler \<times> (scheduler_error + pending_packet option)" where
  "pop_due s now_ms next_outer_counter can_record = (case select_class s now_ms of None \<Rightarrow> (s, Inr None)
   | Some class \<Rightarrow>
       (case class_queue class s of [] \<Rightarrow> (s, Inr None)
        | packet # rest \<Rightarrow>
            if \<not> can_record next_outer_counter then (s, Inl HistoryFull)
            else (case (if class = OcVideo then try_consume (sc_pacer s) now_ms (wire_len packet) else (sc_pacer s, True)) of
                (p, False) \<Rightarrow> (s\<lparr>sc_pacer := p\<rparr>, Inr None)
              | (p, True) \<Rightarrow> (record_service (class_queue_update class rest (s\<lparr>sc_pacer := p\<rparr>)) class (wire_len packet), Inr (Some packet)))))"

definition sched_next_wake_ms :: "scheduler \<Rightarrow> f64 \<Rightarrow> f64 option" where
  "sched_next_wake_ms s now_ms =
     (if select_class s now_ms \<noteq> None then Some now_ms
      else case sc_video s of [] \<Rightarrow> None
      | packet # _ \<Rightarrow> (let wait = wait_ms (sc_pacer s) now_ms (wire_len packet) in
          if is_finite wait then Some (fadd now_ms wait) else None))"

definition sched_pending :: "scheduler \<Rightarrow> nat" where
  "sched_pending s = usize_saturating_add (usize_saturating_add (length (sc_critical s)) (length (sc_audio s))) (length (sc_video s))"

definition sched_reset_generation :: "scheduler \<Rightarrow> f64 \<Rightarrow> u64 \<Rightarrow> scheduler" where
  "sched_reset_generation s now_ms generation =
     (if generation = 0 then s
      else s\<lparr>sc_generation := generation, sc_pacer := set_rate (sched_new_pacer now_ms) now_ms (sc_wire_rate_mbps s),
             sc_critical_debt := 0, sc_audio_debt := 0\<rparr>)"

end
