(* ===== verification/Scheduler_Properties.thy ===== *)
theory Scheduler_Properties
  imports Scheduler "HOL-Library.Sublist"
begin

text \<open>
  What the outbound scheduler promises over any sequence of calls: bounded queues of sendable packets, first in first
  out per class with no critical packet ever lost, exact pacing of video, and service for video however much priority
  traffic arrives.
\<close>

section \<open>The quantum\<close>

lemma sched_new_pacer_ok:
  "pacer_with_config now sched_pacer_config = Inr (sched_new_pacer now)" "pacer_inv (sched_new_pacer now)"
  "pc_datagram_bytes (sched_new_pacer now) = 1200"
proof -
  obtain p where p: "pacer_with_config now sched_pacer_config = Inr p"
    by (simp add: pacer_with_config_def config_validate_def sched_pacer_config_def sched_consts MAX_BURST_DATAGRAMS_def
        MAX_BURST_TIME_MS_def)
  then have e: "sched_new_pacer now = p" by (simp add: sched_new_pacer_def)
  show "pacer_with_config now sched_pacer_config = Inr (sched_new_pacer now)" using p e by simp
  have "pacer_start p" by (rule pacer_start.intros(2) [OF p]) (simp_all add: sched_pacer_config_def sched_consts
      MAX_BURST_DATAGRAMS_def usize_bound_def)
  then show "pacer_inv (sched_new_pacer now)" unfolding e by (rule pacer_start_inv)
  show "pc_datagram_bytes (sched_new_pacer now) = 1200"
    using p unfolding e by (auto simp: pacer_with_config_def config_validate_def sched_pacer_config_def sched_consts split: if_splits)
qed

lemma quantum_range:
  assumes "pc_datagram_bytes (sc_pacer s) = 1200"
  shows "1200 \<le> priority_quantum_bytes s \<and> priority_quantum_bytes s \<le> 4800"
proof -
  define t where "t = fmul (fdiv (fdiv (fmul (sc_wire_rate_mbps s) (rnd 1000000)) (rnd 8)) (rnd 1000)) (rnd 2)"
  define x where "x = fmax t (Fin 1200)"
  have n: "f64_of_nat 1200 = Fin 1200" "f64_of_nat 4800 = Fin 4800" by (simp_all add: f64_of_nat_small)
  have x: "fle (Fin 1200) x" "x \<noteq> NaN"
    unfolding x_def by (cases t; auto simp: fmax_def)+
  have "fle (Fin 1200) (fmin x (Fin 4800))" by (rule fmin_ge) (use x in auto)
  moreover have "fle (fmin x (Fin 4800)) (Fin 4800)" using fmin_le [of x "Fin 4800"] x(2) by blast
  ultimately obtain q where q: "fmin x (Fin 4800) = Fin q" "1200 \<le> q" "q \<le> 4800" using fle_between_finite by blast
  have cap: "min (1200 * MAX_BURST_DATAGRAMS) (usize_bound - 1) = 4800" by (simp add: MAX_BURST_DATAGRAMS_def usize_bound_def)
  have c: "1200 \<le> \<lceil>q\<rceil>" "\<lceil>q\<rceil> \<le> 4800" using q(2,3) by (simp_all add: le_ceiling_iff ceiling_le_iff)
  have "priority_quantum_bytes s = usize_of_f64 (fceil (fmin x (Fin 4800)))"
    unfolding priority_quantum_bytes_def Let_def assms cap n t_def [symmetric] x_def [symmetric] using q by simp
  also have "\<dots> = nat \<lceil>q\<rceil>" using nat_mono [OF c(2)] by (simp add: q(1) usize_bound_def)
  finally show ?thesis using c by linarith
qed

lemma quantum_cong:
  "pc_datagram_bytes (sc_pacer s) = pc_datagram_bytes (sc_pacer s') \<Longrightarrow> sc_wire_rate_mbps s = sc_wire_rate_mbps s' \<Longrightarrow>
   priority_quantum_bytes s = priority_quantum_bytes s'"
  by (simp add: priority_quantum_bytes_def)

section \<open>Invariant\<close>

definition packet_ok :: "outbound_class \<Rightarrow> pending_packet \<Rightarrow> bool" where
  "packet_ok c p \<longleftrightarrow> pp_class p = c \<and> class_from_kind (pp_kind p) = c \<and> wire_len p \<le> PORTABLE_WIRE_DATAGRAM_BYTES"

definition queue_ok :: "outbound_class \<Rightarrow> pending_packet list \<Rightarrow> bool" where
  "queue_ok c q \<longleftrightarrow> length q \<le> class_capacity c \<and> (\<forall>p \<in> set q. packet_ok c p)"

definition sched_inv :: "scheduler \<Rightarrow> bool" where
  "sched_inv s \<longleftrightarrow> (\<forall>c. queue_ok c (class_queue c s)) \<and> pacer_inv (sc_pacer s) \<and> pc_datagram_bytes (sc_pacer s) = 1200
     \<and> sc_wire_rate_mbps s = pc_rate_mbps (sc_pacer s)
     \<and> sc_critical_debt s \<le> priority_quantum_bytes s \<and> sc_audio_debt s \<le> priority_quantum_bytes s"

lemma class_queue_update_simps [simp]:
  "class_queue c (class_queue_update c' q s) = (if c = c' then q else class_queue c s)"
  "sc_pacer (class_queue_update c' q s) = sc_pacer s" "sc_wire_rate_mbps (class_queue_update c' q s) = sc_wire_rate_mbps s"
  "sc_critical_debt (class_queue_update c' q s) = sc_critical_debt s" "sc_audio_debt (class_queue_update c' q s) = sc_audio_debt s"
  by (cases c; cases c'; simp add: class_queue_def class_queue_update_def)+

lemma class_queue_frame [simp]:
  "class_queue c (s\<lparr>sc_pacer := p\<rparr>) = class_queue c s" "class_queue c (s\<lparr>sc_next_queue_id := i\<rparr>) = class_queue c s"
  "class_queue c (s\<lparr>sc_critical_debt := d\<rparr>) = class_queue c s" "class_queue c (s\<lparr>sc_audio_debt := d\<rparr>) = class_queue c s"
  "class_queue c (s\<lparr>sc_wire_rate_mbps := r\<rparr>) = class_queue c s" "class_queue c (s\<lparr>sc_generation := g\<rparr>) = class_queue c s"
  by (cases c; simp add: class_queue_def)+

lemma quantum_frame [simp]:
  "priority_quantum_bytes (class_queue_update c q s) = priority_quantum_bytes s"
  "priority_quantum_bytes (s\<lparr>sc_next_queue_id := i\<rparr>) = priority_quantum_bytes s"
  "priority_quantum_bytes (s\<lparr>sc_critical_debt := d\<rparr>) = priority_quantum_bytes s"
  "priority_quantum_bytes (s\<lparr>sc_audio_debt := d\<rparr>) = priority_quantum_bytes s"
  "priority_quantum_bytes (s\<lparr>sc_generation := g\<rparr>) = priority_quantum_bytes s"
  "priority_quantum_bytes (s\<lparr>sc_critical := q\<rparr>) = priority_quantum_bytes s"
  "priority_quantum_bytes (s\<lparr>sc_audio := q\<rparr>) = priority_quantum_bytes s"
  by (rule quantum_cong; simp)+

lemma queue_ok_Nil [simp]: "queue_ok c []"
  by (simp add: queue_ok_def)

lemma queue_ok_tl: "queue_ok c (p # q) \<Longrightarrow> queue_ok c q"
  by (simp add: queue_ok_def)

lemma set_rate_frame [simp]: "pc_datagram_bytes (set_rate p t r) = pc_datagram_bytes p"
  by (simp add: set_rate_def Let_def)

lemma try_consume_frame [simp]:
  "pc_datagram_bytes (fst (try_consume p t n)) = pc_datagram_bytes p" "pc_rate_mbps (fst (try_consume p t n)) = pc_rate_mbps p"
  by (simp_all add: try_consume_def Let_def)

lemma set_wire_rate_inv: "sched_inv s \<Longrightarrow> sched_inv (set_wire_rate_mbps s t r)"
  by (simp add: sched_inv_def set_wire_rate_mbps_def clamp_debt_def Let_def set_rate_inv)

lemma sched_new_inv: "sched_inv (sched_new t)"
  unfolding sched_new_def
  by (simp add: sched_inv_def set_wire_rate_mbps_def clamp_debt_def Let_def set_rate_inv sched_new_pacer_ok class_queue_def
      split: outbound_class.split)

lemma queue_shape:
  assumes "queue_with_id s kind channel flags payload again = (s', Inr (oc, i))"
  shows "\<exists>p. packet_ok (class_from_kind kind) p \<and> p = \<lparr>pp_queue_id = i, pp_class = class_from_kind kind, pp_kind = kind,
      pp_channel = channel, pp_flags = flags, pp_payload = payload, pp_retransmission = again\<rparr>
    \<and> s' = class_queue_update (class_from_kind kind)
        ((if oc = DroppedOldest then tl (class_queue (class_from_kind kind) s) else class_queue (class_from_kind kind) s) @ [p])
        (s\<lparr>sc_next_queue_id := sc_next_queue_id s + 1\<rparr>)
    \<and> (oc = DroppedOldest \<longleftrightarrow> length (class_queue (class_from_kind kind) s) = class_capacity (class_from_kind kind))
    \<and> (oc = DroppedOldest \<longrightarrow> class_from_kind kind \<noteq> OcCritical)"
proof -
  let ?p = "\<lparr>pp_queue_id = i, pp_class = class_from_kind kind, pp_kind = kind, pp_channel = channel, pp_flags = flags,
    pp_payload = payload, pp_retransmission = again\<rparr>"
  show ?thesis
    by (rule exI [of _ ?p]) (use assms in \<open>auto simp: queue_with_id_def Let_def packet_ok_def wire_len_def
      usize_checked_add_def split: if_splits option.splits\<close>)
qed

lemma queue_error_shape:
  assumes "queue_with_id s kind channel flags payload again = (s', Inl e)"
  shows "s' = s \<or> s' = s\<lparr>sc_next_queue_id := sc_next_queue_id s + 1\<rparr>"
  using assms by (auto simp: queue_with_id_def Let_def split: if_splits option.splits)

lemma queue_inv:
  assumes "sched_inv s" "queue_with_id s kind channel flags payload again = (s', out)"
  shows "sched_inv s'"
proof (cases out)
  case (Inl e)
  then show ?thesis using queue_error_shape [of s kind channel flags payload again s' e] assms by (auto simp: sched_inv_def)
next
  case (Inr oi)
  obtain o' i where oi: "oi = (o', i)" by (cases oi)
  let ?c = "class_from_kind kind"
  obtain p where p: "packet_ok ?c p" and s': "s' = class_queue_update ?c
        ((if o' = DroppedOldest then tl (class_queue ?c s) else class_queue ?c s) @ [p]) (s\<lparr>sc_next_queue_id := sc_next_queue_id s + 1\<rparr>)"
    and full: "o' = DroppedOldest \<longleftrightarrow> length (class_queue ?c s) = class_capacity ?c"
    using queue_shape [of s kind channel flags payload again s' o' i] assms(2) Inr oi by blast
  have "queue_ok ?c (class_queue ?c s)" using assms(1) by (simp add: sched_inv_def)
  moreover have "0 < class_capacity ?c" by (simp add: class_capacity_def sched_consts split: outbound_class.split)
  ultimately have "queue_ok ?c ((if o' = DroppedOldest then tl (class_queue ?c s) else class_queue ?c s) @ [p])"
    using p full by (cases "class_queue ?c s") (auto simp: queue_ok_def)
  then show ?thesis using assms(1) unfolding s' by (auto simp: sched_inv_def)
qed

lemma record_service_frame [simp]:
  "class_queue c (record_service s d n) = class_queue c s" "sc_pacer (record_service s d n) = sc_pacer s"
  "sc_wire_rate_mbps (record_service s d n) = sc_wire_rate_mbps s"
  "priority_quantum_bytes (record_service s d n) = priority_quantum_bytes s"
  by (cases d; simp add: record_service_def Let_def)+

lemma select_nonempty: "select_class s t = Some c \<Longrightarrow> class_queue c s \<noteq> []"
  by (auto simp: select_class_def class_queue_def video_due_def split: if_splits list.splits)

text \<open>A selected class gives up its first packet: the pacer never refuses what the selection admitted.\<close>

lemma pop_shape:
  assumes "sched_inv s" "select_class s t = Some c" "can_record n"
  shows "\<exists>p rest. class_queue c s = p # rest \<and> pop_due s t n can_record =
     (record_service (class_queue_update c rest
        (s\<lparr>sc_pacer := (if c = OcVideo then fst (try_consume (sc_pacer s) t (wire_len p)) else sc_pacer s)\<rparr>)) c (wire_len p), Inr (Some p))"
proof -
  obtain p rest where q: "class_queue c s = p # rest" using select_nonempty [OF assms(2)] by (cases "class_queue c s") auto
  have "snd (try_consume (sc_pacer s) t (wire_len p))" if "c = OcVideo"
    using assms(1,2) that q try_consume_can [of "sc_pacer s" t "wire_len p"]
    by (auto simp: sched_inv_def select_class_def video_due_def class_queue_def split: if_splits)
  then show ?thesis using assms(2,3) q by (auto simp: pop_due_def split: prod.split)
qed

lemma pop_inv:
  assumes "sched_inv s" "pop_due s t n can_record = (s', out)"
  shows "sched_inv s'"
proof (cases "select_class s t = None \<or> \<not> can_record n")
  case True
  then have "s' = s" using assms(2) by (auto simp: pop_due_def split: option.splits list.splits)
  then show ?thesis using assms(1) by simp
next
  case False
  then obtain c where c: "select_class s t = Some c" "can_record n" by auto
  obtain p rest where p: "class_queue c s = p # rest" "s' = record_service (class_queue_update c rest
      (s\<lparr>sc_pacer := (if c = OcVideo then fst (try_consume (sc_pacer s) t (wire_len p)) else sc_pacer s)\<rparr>)) c (wire_len p)"
    using pop_shape [where can_record = can_record, OF assms(1) c] assms(2) by force
  let ?s = "class_queue_update c rest (s\<lparr>sc_pacer := (if c = OcVideo then fst (try_consume (sc_pacer s) t (wire_len p)) else sc_pacer s)\<rparr>)"
  have Q: "priority_quantum_bytes (record_service ?s c (wire_len p)) = priority_quantum_bytes s"
    by (rule quantum_cong) auto
  have q: "queue_ok d (class_queue d s)" for d using assms(1) by (simp add: sched_inv_def)
  have "queue_ok c rest" using q [of c] p(1) queue_ok_tl by simp
  then have "queue_ok d (class_queue d s')" for d using q by (simp add: p(2))
  moreover have "sc_critical_debt s' \<le> priority_quantum_bytes s" "sc_audio_debt s' \<le> priority_quantum_bytes s"
    using assms(1) Q by (cases c; auto simp: p(2) sched_inv_def record_service_def Let_def)+
  moreover have "pacer_inv (sc_pacer s')" using assms(1) by (simp add: p(2) sched_inv_def try_consume_inv)
  ultimately show ?thesis using assms(1) Q by (simp add: sched_inv_def p(2))
qed

lemma reset_inv: "sched_inv s \<Longrightarrow> sched_inv (sched_reset_generation s t g)"
proof -
  assume i: "sched_inv s"
  let ?p = "set_rate (sched_new_pacer t) t (sc_wire_rate_mbps s)"
  have r: "sc_wire_rate_mbps s = Fin 0 \<or> bytes_per_ms (sc_wire_rate_mbps s) \<noteq> None"
    using i by (auto simp: sched_inv_def pacer_inv_def)
  have "pc_rate_mbps ?p = sc_wire_rate_mbps s"
    using r by (auto simp: set_rate_def Let_def)
  then show ?thesis using i
    by (simp add: sched_inv_def sched_reset_generation_def set_rate_inv sched_new_pacer_ok)
qed

section \<open>First in, first out\<close>

text \<open>Runs of the scheduler with what each class accepted and emitted.\<close>

record sched_log =
  lg_sched :: scheduler
  lg_in :: "outbound_class \<Rightarrow> pending_packet list"
  lg_out :: "outbound_class \<Rightarrow> pending_packet list"

inductive sched_step :: "sched_log \<Rightarrow> sched_log \<Rightarrow> bool" where
  accepted: "queue_with_id (lg_sched w) kind channel flags payload again = (s, Inr (oc, i)) \<Longrightarrow>
     sched_step w (w\<lparr>lg_sched := s, lg_in := (lg_in w)(class_from_kind kind := lg_in w (class_from_kind kind) @
       [\<lparr>pp_queue_id = i, pp_class = class_from_kind kind, pp_kind = kind, pp_channel = channel, pp_flags = flags,
         pp_payload = payload, pp_retransmission = again\<rparr>])\<rparr>)"
| refused: "queue_with_id (lg_sched w) kind channel flags payload again = (s, Inl e) \<Longrightarrow> sched_step w (w\<lparr>lg_sched := s\<rparr>)"
| emitted: "pop_due (lg_sched w) t n can_record = (s, Inr (Some p)) \<Longrightarrow>
     sched_step w (w\<lparr>lg_sched := s, lg_out := (lg_out w)(pp_class p := lg_out w (pp_class p) @ [p])\<rparr>)"
| idle: "pop_due (lg_sched w) t n can_record = (s, out) \<Longrightarrow> (\<forall>p. out \<noteq> Inr (Some p)) \<Longrightarrow> sched_step w (w\<lparr>lg_sched := s\<rparr>)"
| rate: "sched_step w (w\<lparr>lg_sched := set_wire_rate_mbps (lg_sched w) t r\<rparr>)"
| reset: "sched_step w (w\<lparr>lg_sched := sched_reset_generation (lg_sched w) t g\<rparr>)"

definition sched_start :: "sched_log \<Rightarrow> bool" where
  "sched_start w \<longleftrightarrow> (\<exists>t. w = \<lparr>lg_sched = sched_new t, lg_in = (\<lambda>_. []), lg_out = (\<lambda>_. [])\<rparr>)"

definition fifo_inv :: "sched_log \<Rightarrow> bool" where
  "fifo_inv w \<longleftrightarrow> sched_inv (lg_sched w)
     \<and> (\<forall>c. subseq (lg_out w c @ class_queue c (lg_sched w)) (lg_in w c))
     \<and> lg_in w OcCritical = lg_out w OcCritical @ class_queue OcCritical (lg_sched w)"

lemma class_queue_rate [simp]: "class_queue c (set_wire_rate_mbps s t r) = class_queue c s"
  by (simp add: set_wire_rate_mbps_def clamp_debt_def Let_def)

lemma class_queue_reset [simp]: "class_queue c (sched_reset_generation s t g) = class_queue c s"
  by (simp add: sched_reset_generation_def)

lemma fifo_accepted:
  assumes "fifo_inv w" "queue_with_id (lg_sched w) kind channel flags payload again = (s, Inr (oc, i))"
  shows "fifo_inv (w\<lparr>lg_sched := s, lg_in := (lg_in w)(class_from_kind kind := lg_in w (class_from_kind kind) @
       [\<lparr>pp_queue_id = i, pp_class = class_from_kind kind, pp_kind = kind, pp_channel = channel, pp_flags = flags,
         pp_payload = payload, pp_retransmission = again\<rparr>])\<rparr>)"
proof -
  let ?c = "class_from_kind kind" and ?q = "class_queue (class_from_kind kind) (lg_sched w)"
  let ?p = "\<lparr>pp_queue_id = i, pp_class = class_from_kind kind, pp_kind = kind, pp_channel = channel, pp_flags = flags,
         pp_payload = payload, pp_retransmission = again\<rparr>"
  obtain p where p: "p = ?p" and s: "s = class_queue_update ?c ((if oc = DroppedOldest then tl ?q else ?q) @ [p])
      ((lg_sched w)\<lparr>sc_next_queue_id := sc_next_queue_id (lg_sched w) + 1\<rparr>)"
    and crit: "oc = DroppedOldest \<longrightarrow> ?c \<noteq> OcCritical"
    using queue_shape [OF assms(2)] by blast
  have "sched_inv s" using assms queue_inv by (auto simp: fifo_inv_def)
  have old: "subseq (lg_out w c @ class_queue c (lg_sched w)) (lg_in w c)" for c using assms(1) by (simp add: fifo_inv_def)
  have "subseq (tl ?q) ?q" by (cases ?q) auto
  then have "subseq (lg_out w ?c @ tl ?q) (lg_in w ?c)" using old [of ?c] by (meson subseq_append' subseq_order.trans)
  then have "subseq ((lg_out w ?c @ (if oc = DroppedOldest then tl ?q else ?q)) @ [p]) (lg_in w ?c @ [p])"
    using old [of ?c] by (intro list_emb_append_mono) auto
  then show ?thesis unfolding p [symmetric] using assms(1) crit \<open>sched_inv s\<close> old by (auto simp: fifo_inv_def s)
qed

lemma fifo_emitted:
  assumes "fifo_inv w" "pop_due (lg_sched w) t n can_record = (s, Inr (Some p))"
  shows "fifo_inv (w\<lparr>lg_sched := s, lg_out := (lg_out w)(pp_class p := lg_out w (pp_class p) @ [p])\<rparr>)"
proof -
  obtain c where c: "select_class (lg_sched w) t = Some c" "can_record n"
    using assms(2) by (auto simp: pop_due_def split: option.splits list.splits if_splits)
  have inv: "sched_inv (lg_sched w)" using assms(1) by (simp add: fifo_inv_def)
  obtain rest where q: "class_queue c (lg_sched w) = p # rest" "\<And>d. class_queue d s = (if d = c then rest else class_queue d (lg_sched w))"
    using pop_shape [where can_record = can_record, OF inv c] assms(2) by auto
  have "packet_ok c p" using inv q(1) unfolding sched_inv_def queue_ok_def by (metis list.set_intros(1))
  then have "pp_class p = c" by (simp add: packet_ok_def)
  moreover have "sched_inv s" by (rule pop_inv [OF inv assms(2)])
  moreover have "subseq (lg_out w d @ class_queue d (lg_sched w)) (lg_in w d)" for d using assms(1) by (simp add: fifo_inv_def)
  ultimately show ?thesis using assms(1) q [symmetric] by (auto simp: fifo_inv_def q(2))
qed

lemma fifo_step: "fifo_inv w \<Longrightarrow> sched_step w w' \<Longrightarrow> fifo_inv w'"
proof -
  assume i: "fifo_inv w" and "sched_step w w'"
  note inv = i [unfolded fifo_inv_def, THEN conjunct1]
  from \<open>sched_step w w'\<close> show "fifo_inv w'"
  proof cases
    case accepted then show ?thesis using fifo_accepted [OF i] by simp
  next
    case (refused kind channel flags payload again s e)
    then show ?thesis using queue_error_shape [OF refused(2)] queue_inv [OF inv refused(2)] i by (auto simp: fifo_inv_def)
  next
    case emitted then show ?thesis using fifo_emitted [OF i] by simp
  next
    case (idle t n can_record s out)
    have "class_queue c s = class_queue c (lg_sched w)" for c
      using idle(2,3) by (auto simp: pop_due_def split: option.splits list.splits if_splits prod.splits bool.splits)
    then show ?thesis using idle(1) pop_inv [OF inv idle(2)] i by (auto simp: fifo_inv_def)
  next
    case rate then show ?thesis using i by (auto simp: fifo_inv_def set_wire_rate_inv)
  next
    case reset then show ?thesis using i by (auto simp: fifo_inv_def reset_inv)
  qed
qed

interpretation scheduling: invariant_system sched_start sched_step fifo_inv
proof
  show "fifo_inv w" if "sched_start w" for w
    using that sched_new_inv
    by (auto simp: sched_start_def fifo_inv_def sched_new_def)
      (simp_all add: class_queue_def split: outbound_class.split)
qed (rule fifo_step)

text \<open>
  C8: Every class is a bounded queue that never reorders, and critical packets are never lost. Over any sequence of
  calls the critical packets emitted so far, followed by those still queued, are exactly the accepted ones in order, each
  with the kind, channel, flags, payload and retransmission mark the caller gave and the number it was answered;
  of audio and video only packets may be missing, never reordered or repeated; the queues hold at most 256, 32 and 256
  packets, each of its own class and within the datagram limit.
\<close>

theorem scheduler_fifo:
  assumes "reachable sched_start sched_step w"
  shows "lg_in w OcCritical = lg_out w OcCritical @ sc_critical (lg_sched w)
    \<and> subseq (lg_out w OcAudio @ sc_audio (lg_sched w)) (lg_in w OcAudio)
    \<and> subseq (lg_out w OcVideo @ sc_video (lg_sched w)) (lg_in w OcVideo)
    \<and> length (sc_critical (lg_sched w)) \<le> 256 \<and> length (sc_audio (lg_sched w)) \<le> 32 \<and> length (sc_video (lg_sched w)) \<le> 256
    \<and> (\<forall>c p. p \<in> set (class_queue c (lg_sched w)) \<longrightarrow> pp_class p = c \<and> wire_len p \<le> 1200)"
proof -
  have i: "fifo_inv w" by (rule scheduling.reachable_inv) (rule assms)
  then have q: "queue_ok c (class_queue c (lg_sched w))" for c by (simp add: fifo_inv_def sched_inv_def)
  have "subseq (lg_out w c @ class_queue c (lg_sched w)) (lg_in w c)" for c using i by (simp add: fifo_inv_def)
  from this [of OcAudio] this [of OcVideo] q [of OcCritical] q [of OcAudio] q [of OcVideo] q i show ?thesis
    by (auto simp: fifo_inv_def queue_ok_def class_queue_def class_capacity_def packet_ok_def sched_consts)
qed

section \<open>No starvation\<close>

datatype sched_op = SoQueue os_kind byte byte bytes bool | SoPop u64

text \<open>Calls at one instant, with every counter recordable; the packets emitted, in order.\<close>

fun sched_burst :: "f64 \<Rightarrow> scheduler \<Rightarrow> sched_op list \<Rightarrow> pending_packet list" where
  "sched_burst t s [] = []"
| "sched_burst t s (SoQueue kind channel flags payload again # ops) =
     sched_burst t (fst (queue_with_id s kind channel flags payload again)) ops"
| "sched_burst t s (SoPop n # ops) = (case pop_due s t n (\<lambda>_. True) of
     (s', Inr (Some p)) \<Rightarrow> p # sched_burst t s' ops | (s', _) \<Rightarrow> sched_burst t s' ops)"

fun is_pop :: "sched_op \<Rightarrow> bool" where
  "is_pop (SoPop _) = True"
| "is_pop (SoQueue _ _ _ _ _) = False"

fun is_video_queue :: "sched_op \<Rightarrow> bool" where
  "is_video_queue (SoPop _) = False"
| "is_video_queue (SoQueue k _ _ _ _) = (class_from_kind k = OcVideo)"

text \<open>Priority packets left before video must be served: each costs at least the 32 bytes of overhead.\<close>

definition rounds :: "nat \<Rightarrow> nat" where
  "rounds n = (n + 31) div 32"

definition patience :: "scheduler \<Rightarrow> nat" where
  "patience s = rounds (priority_quantum_bytes s - sc_audio_debt s) * (rounds (priority_quantum_bytes s) + 1)
     + rounds (priority_quantum_bytes s - sc_critical_debt s)"

lemma rounds_less: "d < q \<Longrightarrow> 32 \<le> n \<Longrightarrow> rounds (q - min (d + n) q) < rounds (q - d)"
proof -
  assume d: "d < q" and n: "32 \<le> n"
  have *: "rounds a < rounds b" if "a + 32 \<le> b \<or> a = 0 \<and> 0 < b" for a b
  proof (cases "a = 0")
    case True then show ?thesis using that by (auto simp: rounds_def div_greater_zero_iff)
  next
    case False
    then have "(a + 31 + 32) div 32 \<le> (b + 31) div 32" using that by (intro div_le_mono) simp
    moreover have "(a + 31 + 32) div 32 = (a + 31) div 32 + 1" by (rule div_add_self2) simp
    ultimately show ?thesis unfolding rounds_def by linarith
  qed
  show ?thesis by (rule *) (use d n in auto)
qed

lemma rounds_mono: "a \<le> b \<Longrightarrow> rounds a \<le> rounds b"
  by (simp add: rounds_def div_le_mono)

lemma patience_bound: "sched_inv s \<Longrightarrow> patience s \<le> 22800"
proof -
  assume "sched_inv s"
  then have q: "priority_quantum_bytes s \<le> 4800" using quantum_range by (simp add: sched_inv_def)
  have "rounds (priority_quantum_bytes s - d) \<le> 150" for d using rounds_mono [of _ 4800] q by (simp add: rounds_def)
  from this [of "sc_audio_debt s"] this [of "sc_critical_debt s"] this [of 0]
  have "patience s \<le> 150 * 151 + 150" unfolding patience_def by (intro add_mono mult_mono) auto
  then show ?thesis by simp
qed

lemma saturating_small: "sc + n < usize_bound \<Longrightarrow> usize_saturating_add sc n = sc + n"
  by (simp add: usize_saturating_add_def)

lemma pop_patience:
  assumes "sched_inv s" "video_due s t" "pop_due s t n (\<lambda>_. True) = (s', out)"
  shows "(\<exists>p. out = Inr (Some p) \<and> (pp_class p = OcVideo \<or> video_due s' t \<and> sc_video s' = sc_video s \<and> patience s' < patience s))"
proof -
  have "select_class s t \<noteq> None" using assms(2) by (auto simp: select_class_def)
  then obtain c where c: "select_class s t = Some c" by blast
  obtain p rest where q: "class_queue c s = p # rest" and out: "out = Inr (Some p)"
    and s': "s' = record_service (class_queue_update c rest (s\<lparr>sc_pacer := (if c = OcVideo then
        fst (try_consume (sc_pacer s) t (wire_len p)) else sc_pacer s)\<rparr>)) c (wire_len p)"
    using pop_shape [where can_record = "\<lambda>_. True", OF assms(1) c TrueI, of n] assms(3) by auto
  have ok: "packet_ok c p" using assms(1) q unfolding sched_inv_def queue_ok_def by (metis list.set_intros(1))
  have len: "32 \<le> wire_len p" "wire_len p \<le> 1200" using ok by (simp_all add: wire_len_def packet_ok_def sched_consts)
  have Q: "priority_quantum_bytes s \<le> 4800" "sc_critical_debt s \<le> priority_quantum_bytes s" "sc_audio_debt s \<le> priority_quantum_bytes s"
    using assms(1) quantum_range by (auto simp: sched_inv_def)
  have sat: "usize_saturating_add (sc_critical_debt s) (wire_len p) = sc_critical_debt s + wire_len p"
      "usize_saturating_add (sc_audio_debt s) (wire_len p) = sc_audio_debt s + wire_len p"
    using Q len by (simp_all add: saturating_small usize_bound_def)
  show ?thesis
  proof (cases "c = OcVideo")
    case True then show ?thesis using out ok by (simp add: packet_ok_def)
  next
    case False
    then have same: "sc_pacer s' = sc_pacer s" "sc_video s' = sc_video s" "priority_quantum_bytes s' = priority_quantum_bytes s"
      by (cases c; simp add: s' record_service_def Let_def class_queue_update_def priority_quantum_bytes_def)+
    then have due: "video_due s' t" using assms(2) by (simp add: video_due_def split: list.splits)
    have "patience s' < patience s"
    proof (cases c)
      case OcCritical
      then have "sc_critical_debt s < priority_quantum_bytes s"
        using c assms(2) by (auto simp: select_class_def priority_must_yield_def Let_def split: if_splits)
      from rounds_less [OF this len(1)] show ?thesis
        by (simp add: patience_def same) (simp add: OcCritical s' record_service_def Let_def class_queue_update_def sat)
    next
      case OcAudio
      then have "sc_audio_debt s < priority_quantum_bytes s"
        using c assms(2) by (auto simp: select_class_def priority_must_yield_def Let_def split: if_splits)
      from rounds_less [OF this len(1)]
      have "Suc (rounds (priority_quantum_bytes s - sc_audio_debt s')) \<le> rounds (priority_quantum_bytes s - sc_audio_debt s)"
        by (simp add: OcAudio s' record_service_def Let_def class_queue_update_def sat)
      then have "Suc (rounds (priority_quantum_bytes s - sc_audio_debt s')) * (rounds (priority_quantum_bytes s) + 1)
          \<le> rounds (priority_quantum_bytes s - sc_audio_debt s) * (rounds (priority_quantum_bytes s) + 1)"
        by (rule mult_le_mono1)
      moreover have "rounds (priority_quantum_bytes s - sc_critical_debt s') \<le> rounds (priority_quantum_bytes s)"
        by (intro rounds_mono) simp
      ultimately show ?thesis unfolding patience_def same by simp
    qed (use False in simp)
    then show ?thesis using out due same(2) by simp
  qed
qed

lemma video_due_frame [simp]: "video_due (s\<lparr>sc_next_queue_id := i\<rparr>) t = video_due s t"
  by (simp add: video_due_def split: list.split)

lemma queue_patience:
  assumes "queue_with_id s kind channel flags payload again = (s', out)" "video_due s t"
    "class_from_kind kind = OcVideo \<Longrightarrow> length (sc_video s) < VIDEO_QUEUE_CAPACITY"
  shows "video_due s' t \<and> patience s' = patience s
    \<and> length (sc_video s') \<le> length (sc_video s) + (if class_from_kind kind = OcVideo then 1 else 0)"
proof (cases out)
  case (Inl e)
  then show ?thesis using queue_error_shape [of s kind channel flags payload again s' e] assms
    by (auto simp: patience_def)
next
  case (Inr oi)
  obtain oc i where oi: "oi = (oc, i)" by (cases oi)
  obtain p where s': "s' = class_queue_update (class_from_kind kind)
        ((if oc = DroppedOldest then tl (class_queue (class_from_kind kind) s) else class_queue (class_from_kind kind) s) @ [p])
        (s\<lparr>sc_next_queue_id := sc_next_queue_id s + 1\<rparr>)"
    and full: "oc = DroppedOldest \<longleftrightarrow> length (class_queue (class_from_kind kind) s) = class_capacity (class_from_kind kind)"
    using queue_shape [of s kind channel flags payload again s' oc i] assms(1) Inr oi by blast
  have "patience s' = patience s" by (simp add: patience_def s')
  moreover have "video_due s' t \<and> length (sc_video s') \<le> length (sc_video s) + (if class_from_kind kind = OcVideo then 1 else 0)"
    using assms(2,3) full
    by (cases "class_from_kind kind"; cases "sc_video s")
      (auto simp: s' video_due_def class_queue_update_def class_queue_def class_capacity_def)
  ultimately show ?thesis by simp
qed

lemma burst_patience:
  assumes "sched_inv s" "video_due s t" "length (sc_video s) + length (filter is_video_queue ops) \<le> VIDEO_QUEUE_CAPACITY"
    "\<forall>p \<in> set (sched_burst t s ops). pp_class p \<noteq> OcVideo"
  shows "length (filter is_pop ops) \<le> patience s"
  using assms
proof (induction t s ops rule: sched_burst.induct)
  case (2 t s kind channel flags payload again ops)
  obtain s' out where q: "queue_with_id s kind channel flags payload again = (s', out)" by fastforce
  have "class_from_kind kind = OcVideo \<Longrightarrow> length (sc_video s) < VIDEO_QUEUE_CAPACITY" using 2(4) by simp
  from queue_patience [OF q 2(3) this] have k: "video_due s' t" "patience s' = patience s"
    "length (sc_video s') \<le> length (sc_video s) + (if class_from_kind kind = OcVideo then 1 else 0)" by auto
  have "length (filter is_pop ops) \<le> patience s'"
    by (rule 2(1) [unfolded q fst_conv]) (use 2 q k queue_inv [OF 2(2) q] in \<open>auto split: if_splits\<close>)
  then show ?case using k(2) by simp
next
  case (3 t s n ops)
  obtain s' out where q: "pop_due s t n (\<lambda>_. True) = (s', out)" by fastforce
  obtain p where p: "out = Inr (Some p)" "pp_class p = OcVideo \<or> video_due s' t \<and> sc_video s' = sc_video s \<and> patience s' < patience s"
    using pop_patience [OF 3(4,5) q] by blast
  have "pp_class p \<noteq> OcVideo" using 3(7) q p(1) by simp
  then have k: "video_due s' t" "sc_video s' = sc_video s" "patience s' < patience s" using p(2) by auto
  have "length (filter is_pop ops) \<le> patience s'"
    by (rule 3(3) [OF q [unfolded p(1), symmetric] refl refl])
      (use 3 q p(1) k pop_inv [OF 3(4) q] in auto)
  then show ?case using k(3) by simp
qed simp

text \<open>
  C17: Video is never starved. In every reachable state in which the first video packet is due, however many control,
  input and audio packets arrive in between (and video packets while they fit), at most 22800 packets of the priority
  classes leave before a video packet does: more calls than that at one instant emit one.
\<close>

theorem scheduler_video_served:
  assumes "reachable sched_start sched_step w" "video_due (lg_sched w) t"
    and "length (sc_video (lg_sched w)) + length (filter is_video_queue ops) \<le> VIDEO_QUEUE_CAPACITY"
    and "22800 < length (filter is_pop ops)"
  shows "\<exists>p \<in> set (sched_burst t (lg_sched w) ops). pp_class p = OcVideo"
proof (rule ccontr)
  assume "\<not> ?thesis"
  moreover have inv: "sched_inv (lg_sched w)" using scheduling.reachable_inv [OF assms(1)] by (simp add: fifo_inv_def)
  ultimately have "length (filter is_pop ops) \<le> patience (lg_sched w)" using burst_patience assms(2,3) by blast
  then show False using patience_bound [OF inv] assms(4) by simp
qed

text \<open>
  C27: A pop does exactly what the selection decided. Without a selected class nothing happens; when the delivery
  history is full nothing happens but the error; otherwise the first packet of the selected class leaves, every other
  queue and, for priority classes, the pacer are untouched, and a paced video packet is charged exactly its wire
  length, which the credit always covers.
\<close>

theorem scheduler_pop_exact:
  assumes "reachable sched_start sched_step w" "pop_due (lg_sched w) t n can_record = (s', out)"
  shows "case select_class (lg_sched w) t of None \<Rightarrow> s' = lg_sched w \<and> out = Inr None
    | Some c \<Rightarrow> if \<not> can_record n then s' = lg_sched w \<and> out = Inl HistoryFull
        else \<exists>p. out = Inr (Some p) \<and> class_queue c (lg_sched w) = p # class_queue c s'
          \<and> (\<forall>d. d \<noteq> c \<longrightarrow> class_queue d s' = class_queue d (lg_sched w))
          \<and> (c \<noteq> OcVideo \<longrightarrow> sc_pacer s' = sc_pacer (lg_sched w))
          \<and> (c = OcVideo \<and> pacer_enabled (sc_pacer (lg_sched w)) \<longrightarrow>
               fle (f64_of_nat (wire_len p)) (available (sc_pacer (lg_sched w)) t)
             \<and> pc_tokens_bytes (sc_pacer s') = fsub (available (sc_pacer (lg_sched w)) t) (f64_of_nat (wire_len p)))"
proof (cases "select_class (lg_sched w) t")
  case None then show ?thesis using assms(2) by (simp add: pop_due_def)
next
  case (Some c)
  let ?s = "lg_sched w"
  have inv: "sched_inv ?s" using scheduling.reachable_inv [OF assms(1)] by (simp add: fifo_inv_def)
  show ?thesis
  proof (cases "can_record n")
    case False
    then show ?thesis using assms(2) Some select_nonempty [OF Some] by (auto simp: pop_due_def split: list.splits)
  next
    case True
    then obtain p rest where p: "class_queue c ?s = p # rest" "out = Inr (Some p)" "s' = record_service (class_queue_update c rest
        (?s\<lparr>sc_pacer := (if c = OcVideo then fst (try_consume (sc_pacer ?s) t (wire_len p)) else sc_pacer ?s)\<rparr>)) c (wire_len p)"
      using pop_shape [where can_record = can_record, OF inv Some True] assms(2) by auto
    have "fle (f64_of_nat (wire_len p)) (available (sc_pacer ?s) t)
        \<and> pc_tokens_bytes (sc_pacer s') = fsub (available (sc_pacer ?s) t) (f64_of_nat (wire_len p))"
      if v: "c = OcVideo" "pacer_enabled (sc_pacer ?s)"
    proof -
      have len: "wire_len p \<noteq> 0" by (simp add: wire_len_def sched_consts)
      have due: "can_consume (sc_pacer ?s) t (wire_len p)"
        using Some v p(1) by (auto simp: select_class_def video_due_def class_queue_def split: if_splits)
      then have "snd (try_consume (sc_pacer ?s) t (wire_len p))" using inv try_consume_can by (simp add: sched_inv_def)
      then show ?thesis using due v len
        by (auto simp: p(3) can_consume_def try_consume_def Let_def refill_available split: if_splits)
    qed
    then show ?thesis using Some True p by auto
  qed
qed

section \<open>Concrete runs\<close>

definition demo_unpaced :: sched_log where
  "demo_unpaced = \<lparr>lg_sched = set_wire_rate_mbps (sched_new (Fin 0)) (Fin 0) (Fin 0), lg_in = (\<lambda>_. []), lg_out = (\<lambda>_. [])\<rparr>"

lemma demo_unpaced_reachable: "reachable sched_start sched_step demo_unpaced"
proof (rule reach_step)
  show "reachable sched_start sched_step \<lparr>lg_sched = sched_new (Fin 0), lg_in = (\<lambda>_. []), lg_out = (\<lambda>_. [])\<rparr>"
    by (rule reach_start) (auto simp: sched_start_def)
  show "sched_step \<lparr>lg_sched = sched_new (Fin 0), lg_in = (\<lambda>_. []), lg_out = (\<lambda>_. [])\<rparr> demo_unpaced"
    unfolding demo_unpaced_def using sched_step.rate [of "\<lparr>lg_sched = sched_new (Fin 0), lg_in = (\<lambda>_. []), lg_out = (\<lambda>_. [])\<rparr>" "Fin 0" "Fin 0"]
    by simp
qed

definition demo_bulk :: pending_packet where
  "demo_bulk = \<lparr>pp_queue_id = 0, pp_class = OcVideo, pp_kind = KVideo, pp_channel = 1, pp_flags = 0, pp_payload = [7],
     pp_retransmission = False\<rparr>"

lemma demo_queue: "queue_with_id (lg_sched demo_unpaced) KVideo 1 0 [7] False
    = ((lg_sched demo_unpaced)\<lparr>sc_next_queue_id := 1, sc_video := [demo_bulk]\<rparr>, Inr (Queued, 0))"
  by (simp add: queue_with_id_def demo_unpaced_def demo_bulk_def usize_checked_add_def usize_bound_def sched_consts Let_def
      class_from_kind_def class_queue_def class_queue_update_def class_capacity_def set_wire_rate_mbps_def clamp_debt_def sched_new_def)

definition demo_waiting :: sched_log where
  "demo_waiting = demo_unpaced\<lparr>lg_sched := (lg_sched demo_unpaced)\<lparr>sc_next_queue_id := 1, sc_video := [demo_bulk]\<rparr>,
     lg_in := (\<lambda>_. [])(OcVideo := [demo_bulk])\<rparr>"

lemma demo_waiting_reachable: "reachable sched_start sched_step demo_waiting"
  using reach_step [where step = sched_step, OF demo_unpaced_reachable accepted [OF demo_queue]]
  by (simp add: demo_waiting_def class_from_kind_def class_queue_def demo_unpaced_def demo_bulk_def)

lemma demo_due: "video_due (lg_sched demo_waiting) (Fin 1)"
  by (simp add: video_due_def demo_waiting_def demo_unpaced_def can_consume_def pacer_enabled_def set_wire_rate_mbps_def
      clamp_debt_def Let_def set_rate_def)

lemma scheduler_video_served_witness:
  "\<exists>p \<in> set (sched_burst (Fin 1) (lg_sched demo_waiting) (SoQueue KControl 3 0 [1] False # replicate 22801 (SoPop 0))). pp_class p = OcVideo"
proof -
  have f: "filter P (replicate k x) = (if P x then replicate k x else [])" for P k and x :: sched_op by (induction k) auto
  have "sc_video (lg_sched demo_waiting) = [demo_bulk]" by (simp add: demo_waiting_def)
  then show ?thesis
    by (intro scheduler_video_served [OF demo_waiting_reachable demo_due])
      (simp_all add: f sched_consts class_from_kind_def)
qed

lemma scheduler_fifo_witness: "subseq ([] @ sc_video (lg_sched demo_waiting)) [demo_bulk]"
  using scheduler_fifo [OF demo_waiting_reachable] by (simp add: demo_waiting_def demo_unpaced_def)

lemma demo_select: "select_class (lg_sched demo_waiting) (Fin 1) = Some OcVideo"
  using demo_due by (simp add: select_class_def) (simp add: demo_waiting_def demo_unpaced_def set_wire_rate_mbps_def
      clamp_debt_def Let_def sched_new_def)

lemma scheduler_pop_exact_witness:
  "\<exists>s' p. pop_due (lg_sched demo_waiting) (Fin 1) 0 (\<lambda>_. True) = (s', Inr (Some p)) \<and> p = demo_bulk"
proof -
  obtain s' out where o: "pop_due (lg_sched demo_waiting) (Fin 1) 0 (\<lambda>_. True) = (s', out)" by fastforce
  have "class_queue OcVideo (lg_sched demo_waiting) = [demo_bulk]" by (simp add: class_queue_def demo_waiting_def)
  then show ?thesis using scheduler_pop_exact [OF demo_waiting_reachable o] o by (simp add: demo_select)
qed

end
