(* ===== verification/Host_Policies.thy ===== *)
theory Host_Policies
  imports Policy
begin

text \<open>
  Three policies of the host: who receives an encoded frame (\<open>host/src/gate.rs\<close>), who has the pointer
  (\<open>host/src/floor.rs\<close>), and what rate the shared encoder runs at (\<open>host/src/rate.rs\<close>). A rate given as \<open>f32\<close> is
  the double it widens to; the callbacks \<open>deliver\<close> and \<open>raise\<close> become the lists of what they were called with.
\<close>

section \<open>Delivery gate\<close>

definition MAX_GUESTS :: nat where "MAX_GUESTS = 16"
definition KEYFRAME_INTERVAL_MS :: f64 where "KEYFRAME_INTERVAL_MS = Fin 500"
definition MARK_WINDOW_MS :: f64 where "MARK_WINDOW_MS = Fin 2000"

definition gate_elapsed :: "f64 \<Rightarrow> f64 \<Rightarrow> f64 \<Rightarrow> bool" where
  "gate_elapsed earlier now_ms interval \<longleftrightarrow> flt now_ms earlier \<or> fle interval (fsub now_ms earlier)"

definition gate_ceiling :: "f64 \<Rightarrow> u32" where
  "gate_ceiling rate_mbps = (if fle (Fin 30) rate_mbps then 4000 else if fle (Fin 20) rate_mbps then 2500 else 1500)"

record gate_guest =
  gg_ceiling :: u32
  gg_outstanding :: u32
  gg_pending_keyframe :: bool

definition guest_joining :: "f64 \<Rightarrow> gate_guest" where
  "guest_joining rate_mbps = \<lparr>gg_ceiling = gate_ceiling rate_mbps, gg_outstanding = 0, gg_pending_keyframe = True\<rparr>"

definition guest_set_outstanding :: "gate_guest \<Rightarrow> u32 \<Rightarrow> gate_guest" where
  "guest_set_outstanding g fragments = g\<lparr>gg_outstanding := fragments\<rparr>"

definition guest_is_skipping :: "gate_guest \<Rightarrow> bool" where
  "guest_is_skipping g = gg_pending_keyframe g"

definition guest_mark_skipping :: "gate_guest \<Rightarrow> gate_guest" where
  "guest_mark_skipping g = g\<lparr>gg_pending_keyframe := True\<rparr>"

definition guest_set_rate :: "gate_guest \<Rightarrow> f64 \<Rightarrow> gate_guest" where
  "guest_set_rate g rate_mbps = g\<lparr>gg_ceiling := gate_ceiling rate_mbps\<rparr>"

definition has_room_for :: "gate_guest \<Rightarrow> u32 \<Rightarrow> bool" where
  "has_room_for g fragments \<longleftrightarrow> sat_add (gg_outstanding g) fragments \<le> gg_ceiling g"

datatype keyframe_request = NotNeeded | Request

record gate =
  ga_largest :: u32
  ga_previous :: u32
  ga_window_began_ms :: "f64 option"
  ga_last_request_ms :: "f64 option"

definition gate_new :: gate where
  "gate_new = \<lparr>ga_largest = 0, ga_previous = 0, ga_window_began_ms = None, ga_last_request_ms = None\<rparr>"

definition gate_largest :: "gate \<Rightarrow> u32" where
  "gate_largest g = max (ga_largest g) (ga_previous g)"

definition gate_roll :: "gate \<Rightarrow> f64 \<Rightarrow> gate" where
  "gate_roll g now_ms = (case ga_window_began_ms g of None \<Rightarrow> g\<lparr>ga_window_began_ms := Some now_ms\<rparr>
   | Some began \<Rightarrow>
       if gate_elapsed began now_ms MARK_WINDOW_MS
       then g\<lparr>ga_previous := ga_largest g, ga_largest := 0, ga_window_began_ms := Some now_ms\<rparr> else g)"

definition throttle_allows :: "gate \<Rightarrow> f64 \<Rightarrow> bool" where
  "throttle_allows g now_ms = (case ga_last_request_ms g of None \<Rightarrow> True
     | Some last_ms \<Rightarrow> gate_elapsed last_ms now_ms KEYFRAME_INTERVAL_MS)"

definition request_keyframe :: "gate \<Rightarrow> f64 \<Rightarrow> gate \<times> keyframe_request" where
  "request_keyframe g now_ms = (if \<not> throttle_allows g now_ms then (g, NotNeeded)
     else (g\<lparr>ga_last_request_ms := Some now_ms\<rparr>, Request))"

text \<open>One guest of the delivery loop: the guest after it, whether it takes the frame, whether it asks for a keyframe.\<close>

definition admit_guest :: "u32 \<Rightarrow> bool \<Rightarrow> u32 \<Rightarrow> gate_guest \<Rightarrow> gate_guest \<times> bool \<times> bool" where
  "admit_guest fragments keyframe high guest =
     (if gg_pending_keyframe guest then
        (if \<not> keyframe then (guest, False, has_room_for guest high)
         else if \<not> has_room_for guest fragments then (guest, False, has_room_for guest high)
         else (guest\<lparr>gg_pending_keyframe := False\<rparr>, True, False))
      else if \<not> has_room_for guest fragments then (guest\<lparr>gg_pending_keyframe := True\<rparr>, False, False)
      else (guest, True, False))"

fun admit_loop :: "u32 \<Rightarrow> bool \<Rightarrow> u32 \<Rightarrow> nat \<Rightarrow> gate_guest list \<Rightarrow> gate_guest list \<times> nat list \<times> bool" where
  "admit_loop fragments keyframe high index [] = ([], [], False)"
| "admit_loop fragments keyframe high index (guest # guests) =
     (case admit_guest fragments keyframe high guest of (guest', takes, asks) \<Rightarrow>
      case admit_loop fragments keyframe high (index + 1) guests of (guests', delivered, wanted) \<Rightarrow>
        (guest' # guests', (if takes then index # delivered else delivered), asks \<or> wanted))"

definition gate_admit :: "gate \<Rightarrow> u32 \<Rightarrow> bool \<Rightarrow> f64 \<Rightarrow> gate_guest list \<Rightarrow> gate \<times> gate_guest list \<times> nat list \<times> keyframe_request" where
  "gate_admit g fragments keyframe now_ms guests =
     (let g = gate_roll g now_ms;
          g = g\<lparr>ga_largest := max (ga_largest g) fragments\<rparr>
      in case admit_loop fragments keyframe (gate_largest g) 0 guests of (guests', delivered, wanted) \<Rightarrow>
           (case (if wanted then request_keyframe g now_ms else (g, NotNeeded)) of (g', ask) \<Rightarrow> (g', guests', delivered, ask)))"

section \<open>Pointer floor\<close>

definition HOLD_MS :: f64 where "HOLD_MS = Fin 500"
definition HOLD_MIN_MS :: f64 where "HOLD_MIN_MS = Fin 50"
definition HOLD_MAX_MS :: f64 where "HOLD_MAX_MS = Fin 5000"

text \<open>A poisoned lock, after a panic elsewhere, is the flag \<open>fl_poisoned\<close>.\<close>

record floor_state =
  fl_enabled :: bool
  fl_announces :: bool
  fl_hold_ms :: f64
  fl_holder :: "u32 option"
  fl_since_ms :: f64
  fl_poisoned :: bool

definition floor_announcing :: "bool \<Rightarrow> f64 \<Rightarrow> bool \<Rightarrow> floor_state option" where
  "floor_announcing enabled hold_ms announces =
     (case (if is_finite hold_ms then fclamp hold_ms HOLD_MIN_MS HOLD_MAX_MS else Some HOLD_MS) of None \<Rightarrow> None
      | Some hold \<Rightarrow> Some \<lparr>fl_enabled = enabled, fl_announces = announces, fl_hold_ms = hold, fl_holder = None,
          fl_since_ms = Fin 0, fl_poisoned = False\<rparr>)"

definition floor_with_hold :: "bool \<Rightarrow> f64 \<Rightarrow> floor_state option" where
  "floor_with_hold enabled hold_ms = floor_announcing enabled hold_ms False"

definition floor_new :: "bool \<Rightarrow> floor_state option" where
  "floor_new enabled = floor_with_hold enabled HOLD_MS"

text \<open>\<open>claim\<close>: the new state, the answer and the guests announced as new holders.\<close>

definition floor_claim :: "floor_state \<Rightarrow> u32 \<Rightarrow> bool \<Rightarrow> f64 \<Rightarrow> floor_state \<times> bool \<times> u32 list" where
  "floor_claim f guest owner now_ms =
     (if \<not> fl_enabled f then (f, True, [])
      else if fl_poisoned f then (f, True, [])
      else if (case fl_holder f of None \<Rightarrow> False
               | Some held \<Rightarrow> held \<noteq> guest \<and> \<not> owner \<and> flt (fsub now_ms (fl_since_ms f)) (fl_hold_ms f))
      then (f, False, [])
      else (f\<lparr>fl_holder := Some guest, fl_since_ms := now_ms\<rparr>, True,
            if fl_holder f \<noteq> Some guest \<and> fl_announces f then [guest] else []))"

definition floor_refresh :: "floor_state \<Rightarrow> u32 \<Rightarrow> f64 \<Rightarrow> floor_state" where
  "floor_refresh f guest now_ms =
     (if \<not> fl_enabled f \<or> fl_poisoned f then f
      else if fl_holder f = Some guest then f\<lparr>fl_since_ms := now_ms\<rparr> else f)"

definition floor_holds :: "floor_state \<Rightarrow> u32 \<Rightarrow> f64 \<Rightarrow> bool" where
  "floor_holds f guest now_ms =
     (if \<not> fl_enabled f \<or> fl_poisoned f then True
      else case fl_holder f of None \<Rightarrow> True
      | Some held \<Rightarrow> held = guest \<or> fle (fl_hold_ms f) (fsub now_ms (fl_since_ms f)))"

definition floor_release :: "floor_state \<Rightarrow> u32 \<Rightarrow> floor_state" where
  "floor_release f guest = (if fl_poisoned f then f else if fl_holder f = Some guest then f\<lparr>fl_holder := None\<rparr> else f)"

section \<open>Bitrate budget\<close>

definition DEADBAND_MBPS :: f64 where "DEADBAND_MBPS = rnd (1 / 100)"

record rate_sample =
  rs_window :: u32
  rs_stale :: u32
  rs_measured_mbps :: f64

record budget =
  bu_configured_mbps :: f64
  bu_min_mbps :: f64
  bu_guests :: u32
  bu_applied_mbps :: f64
  bu_audio_mbps :: f64

definition budget_new :: "f64 \<Rightarrow> f64 \<Rightarrow> budget" where
  "budget_new configured_mbps min_mbps = \<lparr>bu_configured_mbps = configured_mbps, bu_min_mbps = min_mbps, bu_guests = 0,
     bu_applied_mbps = Fin 0, bu_audio_mbps = Fin 0\<rparr>"

definition budget_ceiling :: "budget \<Rightarrow> f64" where
  "budget_ceiling b = (let left = fmax (fsub (bu_configured_mbps b) (bu_audio_mbps b)) (Fin 0)
     in fmax (fdiv left (f64_of_nat (unat (max (bu_guests b) 1)))) (bu_min_mbps b))"

definition budget_rebound :: "budget \<Rightarrow> u32 \<Rightarrow> controller list \<Rightarrow> budget \<times> controller list" where
  "budget_rebound b guests controllers =
     (let b = b\<lparr>bu_guests := guests\<rparr>; top = budget_ceiling b
      in (b, map (\<lambda>c. set_bounds c (bu_min_mbps b) top) controllers))"

definition budget_set_audio :: "budget \<Rightarrow> f64 \<Rightarrow> controller list \<Rightarrow> budget \<times> controller list" where
  "budget_set_audio b audio_mbps controllers =
     (let b = b\<lparr>bu_audio_mbps := fmax audio_mbps (Fin 0)\<rparr> in budget_rebound b (bu_guests b) controllers)"

definition budget_reconfigure :: "budget \<Rightarrow> f64 \<Rightarrow> f64 \<Rightarrow> controller list \<Rightarrow> budget \<times> controller list" where
  "budget_reconfigure b configured_mbps min_mbps controllers =
     (let b = b\<lparr>bu_configured_mbps := configured_mbps, bu_min_mbps := fmin min_mbps configured_mbps\<rparr>
      in budget_rebound b (bu_guests b) controllers)"

text \<open>The controllers' ticks, in order; \<^const>\<open>None\<close> is the panic of a controller with reversed bounds.\<close>

fun budget_ticks :: "controller list \<Rightarrow> rate_sample list \<Rightarrow> f64 option \<Rightarrow> (controller list \<times> f64 option) option" where
  "budget_ticks (c # cs) (s # ss) best = (case tick c (rs_window s) (rs_stale s) (rs_measured_mbps s) of
     (c', None) \<Rightarrow> None
   | (c', Some rate) \<Rightarrow>
       (case budget_ticks cs ss (Some (case best of Some current \<Rightarrow> fmin current rate | None \<Rightarrow> rate)) of
          None \<Rightarrow> None | Some (cs', best') \<Rightarrow> Some (c' # cs', best')))"
| "budget_ticks cs ss best = Some (cs, best)"

fun fabs :: "f64 \<Rightarrow> f64" where
  "fabs (Fin q) = Fin \<bar>q\<bar>"
| "fabs NInf = PInf"
| "fabs x = x"

definition budget_tick :: "budget \<Rightarrow> controller list \<Rightarrow> rate_sample list \<Rightarrow> (budget \<times> controller list \<times> f64 option) option" where
  "budget_tick b controllers samples = (case budget_ticks controllers samples None of None \<Rightarrow> None
   | Some (cs, None) \<Rightarrow> Some (b, cs, None)
   | Some (cs, Some best) \<Rightarrow>
       if fle (fabs (fsub best (bu_applied_mbps b))) DEADBAND_MBPS then Some (b, cs, None)
       else Some (b\<lparr>bu_applied_mbps := best\<rparr>, cs, Some best))"

end
