(* ===== verification/Host_Properties.thy ===== *)
theory Host_Properties
  imports Host_Policies
begin

text \<open>
  What the host's policies guarantee: a guest only ever receives frames whose references it received, the pointer is
  not taken from a guest within its hold, and the shared encoder's rate stays within what the budget allows.
\<close>

section \<open>Reference chains\<close>

lemma admit_loop_eq:
  "admit_loop fragments keyframe high k guests =
     (map (\<lambda>g. fst (admit_guest fragments keyframe high g)) guests,
      map fst (filter (\<lambda>(_, g). fst (snd (admit_guest fragments keyframe high g))) (enumerate k guests)),
      list_ex (\<lambda>g. snd (snd (admit_guest fragments keyframe high g))) guests)"
  by (induction guests arbitrary: k) (simp_all split: prod.split)

lemma admit_delivered:
  assumes "admit_loop fragments keyframe high 0 guests = (guests', delivered, wanted)"
  shows "length guests' = length guests" "i \<in> set delivered \<Longrightarrow> i < length guests"
    "i < length guests \<Longrightarrow> guests' ! i = fst (admit_guest fragments keyframe high (guests ! i))"
    "i < length guests \<Longrightarrow> i \<in> set delivered \<longleftrightarrow> fst (snd (admit_guest fragments keyframe high (guests ! i)))"
  using assms by (auto simp: admit_loop_eq in_set_enumerate_eq image_iff)

lemma admit_guest_takes:
  "gg_pending_keyframe (fst (admit_guest fragments keyframe high g)) = (\<not> fst (snd (admit_guest fragments keyframe high g)))"
  "fst (snd (admit_guest fragments keyframe high g)) \<Longrightarrow> has_room_for g fragments \<and> (keyframe \<or> \<not> gg_pending_keyframe g)"
  "gg_ceiling (fst (admit_guest fragments keyframe high g)) = gg_ceiling g"
  by (auto simp: admit_guest_def split: if_splits)

lemma has_room_unat:
  assumes "unat (gg_ceiling x) \<le> 4000"
  shows "has_room_for x n \<longleftrightarrow> unat (gg_outstanding x) + unat n \<le> unat (gg_ceiling x)"
  using assms by (auto simp: has_room_for_def word_le_nat_alt unat_sat_add min_def)

text \<open>
  The guests of the stream and the stream as they saw it: each frame, whether it was a keyframe, and who got it. A guest
  joins at the end of the list under a number of its own; one that leaves is taken out by \<open>Vec::swap_remove\<close>
  (\<open>host/src/stream.rs\<close>, \<open>admit_and_retire\<close>), which moves the last guest into its place, so positions change hands and
  numbers do not.
\<close>

definition swap_remove :: "'a list \<Rightarrow> nat \<Rightarrow> 'a list" where
  "swap_remove xs i = butlast (xs[i := last xs])"

lemma swap_remove_nth:
  assumes "i < length xs" "k < length xs - 1"
  shows "swap_remove xs i ! k = xs ! (if k = i then length xs - 1 else k)"
proof -
  have "last xs = xs ! (length xs - 1)" using assms by (intro last_conv_nth) auto
  then show ?thesis using assms by (simp add: swap_remove_def nth_butlast nth_list_update)
qed

lemma length_swap_remove [simp]: "length (swap_remove xs i) = length xs - 1"
  by (simp add: swap_remove_def)

lemma set_swap_remove: "i < length xs \<Longrightarrow> set (swap_remove xs i) \<subseteq> set xs"
proof
  fix x assume "i < length xs" "x \<in> set (swap_remove xs i)"
  then show "x \<in> set xs" by (auto simp: in_set_conv_nth [of x "swap_remove xs i"] swap_remove_nth)
qed

lemma distinct_swap_remove:
  assumes "distinct xs" "i < length xs"
  shows "distinct (swap_remove xs i)"
proof -
  have "swap_remove xs i ! k \<noteq> swap_remove xs i ! m" if "k < length xs - 1" "m < length xs - 1" "k \<noteq> m" for k m
    using that assms by (auto simp: swap_remove_nth nth_eq_iff_index_eq)
  then show ?thesis by (auto simp: distinct_conv_nth)
qed

record gate_run =
  gr_gate :: gate
  gr_guests :: "gate_guest list"
  gr_ids :: "nat list"
  gr_next :: nat
  gr_frames :: "(bool \<times> nat set) list"

inductive gate_step :: "gate_run \<Rightarrow> gate_run \<Rightarrow> bool" where
  frame: "gate_admit (gr_gate w) fragments keyframe now (gr_guests w) = (g, guests, delivered, ask) \<Longrightarrow>
     gate_step w (w\<lparr>gr_gate := g, gr_guests := guests, gr_frames := gr_frames w @ [(keyframe, (!) (gr_ids w) ` set delivered)]\<rparr>)"
| joins: "length (gr_guests w) < MAX_GUESTS \<Longrightarrow>
     gate_step w (w\<lparr>gr_guests := gr_guests w @ [guest_joining rate], gr_ids := gr_ids w @ [gr_next w], gr_next := gr_next w + 1\<rparr>)"
| leaves: "i < length (gr_guests w) \<Longrightarrow>
     gate_step w (w\<lparr>gr_guests := swap_remove (gr_guests w) i, gr_ids := swap_remove (gr_ids w) i\<rparr>)"
| outstanding: "i < length (gr_guests w) \<Longrightarrow>
     gate_step w (w\<lparr>gr_guests := (gr_guests w)[i := guest_set_outstanding (gr_guests w ! i) n]\<rparr>)"
| missed: "i < length (gr_guests w) \<Longrightarrow> gate_step w (w\<lparr>gr_guests := (gr_guests w)[i := guest_mark_skipping (gr_guests w ! i)]\<rparr>)"
| rated: "i < length (gr_guests w) \<Longrightarrow> gate_step w (w\<lparr>gr_guests := (gr_guests w)[i := guest_set_rate (gr_guests w ! i) rate]\<rparr>)"
| asked: "request_keyframe (gr_gate w) now = (g, ask) \<Longrightarrow> gate_step w (w\<lparr>gr_gate := g\<rparr>)"

definition gate_start :: "gate_run \<Rightarrow> bool" where
  "gate_start w \<longleftrightarrow> w = \<lparr>gr_gate = gate_new, gr_guests = [], gr_ids = [], gr_next = 0, gr_frames = []\<rparr>"

definition follows :: "(bool \<times> nat set) list \<Rightarrow> nat \<Rightarrow> nat \<Rightarrow> bool" where
  "follows frames k i \<longleftrightarrow> fst (frames ! k) \<or> 0 < k \<and> i \<in> snd (frames ! (k - 1))"

definition gate_inv :: "gate_run \<Rightarrow> bool" where
  "gate_inv w \<longleftrightarrow> length (gr_ids w) = length (gr_guests w) \<and> distinct (gr_ids w) \<and> (\<forall>x \<in> set (gr_ids w). x < gr_next w)
   \<and> (\<forall>i < length (gr_guests w). \<not> gg_pending_keyframe (gr_guests w ! i) \<longrightarrow>
        gr_frames w \<noteq> [] \<and> gr_ids w ! i \<in> snd (last (gr_frames w)))
   \<and> (\<forall>k < length (gr_frames w). \<forall>i \<in> snd (gr_frames w ! k). follows (gr_frames w) k i)
   \<and> (\<forall>g \<in> set (gr_guests w). unat (gg_ceiling g) \<le> 4000)"

lemma gate_ceiling_bound: "unat (gate_ceiling r) \<le> 4000"
  by (simp add: gate_ceiling_def)

lemma gate_frame_inv:
  assumes "gate_inv w" "gate_admit (gr_gate w) fragments keyframe now (gr_guests w) = (g, guests, delivered, ask)"
  shows "gate_inv (w\<lparr>gr_gate := g, gr_guests := guests, gr_frames := gr_frames w @ [(keyframe, (!) (gr_ids w) ` set delivered)]\<rparr>)"
proof -
  obtain high wanted where l: "admit_loop fragments keyframe high 0 (gr_guests w) = (guests, delivered, wanted)"
    using assms(2) by (auto simp: gate_admit_def Let_def split: prod.splits)
  note spec = admit_delivered [OF l]
  have takes: "(\<not> gg_pending_keyframe (guests ! i)) = (i \<in> set delivered)"
      "i \<in> set delivered \<Longrightarrow> keyframe \<or> \<not> gg_pending_keyframe (gr_guests w ! i)"
      "gg_ceiling (guests ! i) = gg_ceiling (gr_guests w ! i)"
    if "i < length (gr_guests w)" for i
    using spec(3,4) [OF that] admit_guest_takes [of fragments keyframe high "gr_guests w ! i"] by simp_all
  note in_range = spec(2)
  let ?frames = "gr_frames w @ [(keyframe, (!) (gr_ids w) ` set delivered)]"
  have new: "follows ?frames (length (gr_frames w)) (gr_ids w ! i)" if d: "i \<in> set delivered" for i
  proof (cases keyframe)
    case False
    then have "gr_frames w \<noteq> [] \<and> gr_ids w ! i \<in> snd (last (gr_frames w))"
      using takes(2) [OF in_range [OF d] d] in_range [OF d] assms(1) by (simp add: gate_inv_def)
    then show ?thesis by (auto simp: follows_def nth_append last_conv_nth)
  qed (simp add: follows_def)
  have old: "follows ?frames k x" if "k < length (gr_frames w)" "x \<in> snd (gr_frames w ! k)" for k x
    using assms(1) that by (auto simp: gate_inv_def follows_def nth_append)
  note len = spec(1)
  have "unat (gg_ceiling x) \<le> 4000" if x: "x \<in> set guests" for x
  proof -
    obtain i where "i < length (gr_guests w)" "x = guests ! i" using x len by (auto simp: in_set_conv_nth)
    then show ?thesis using takes(3) assms(1) by (simp add: gate_inv_def)
  qed
  then show ?thesis using new old takes(1) len assms(1) by (auto simp: gate_inv_def nth_append less_Suc_eq)
qed

lemma gate_join_inv:
  assumes "gate_inv w"
  shows "gate_inv (w\<lparr>gr_guests := gr_guests w @ [guest_joining rate], gr_ids := gr_ids w @ [gr_next w], gr_next := gr_next w + 1\<rparr>)"
  using assms by (auto simp: gate_inv_def guest_joining_def nth_append gate_ceiling_bound less_Suc_eq)

lemma gate_leave_inv:
  assumes "gate_inv w" "i < length (gr_guests w)"
  shows "gate_inv (w\<lparr>gr_guests := swap_remove (gr_guests w) i, gr_ids := swap_remove (gr_ids w) i\<rparr>)"
proof -
  have l: "length (gr_ids w) = length (gr_guests w)" using assms(1) by (simp add: gate_inv_def)
  have "\<exists>j < length (gr_guests w). swap_remove (gr_guests w) i ! k = gr_guests w ! j \<and> swap_remove (gr_ids w) i ! k = gr_ids w ! j"
    if "k < length (gr_guests w) - 1" for k
    using that assms(2) l by (intro exI [of _ "if k = i then length (gr_guests w) - 1 else k"]) (auto simp: swap_remove_nth)
  then have "gr_frames w \<noteq> [] \<and> swap_remove (gr_ids w) i ! k \<in> snd (last (gr_frames w))"
    if "k < length (gr_guests w) - 1" "\<not> gg_pending_keyframe (swap_remove (gr_guests w) i ! k)" for k
    using that assms(1) unfolding gate_inv_def by metis
  then show ?thesis
    using assms l set_swap_remove [of i "gr_guests w"] set_swap_remove [of i "gr_ids w"] distinct_swap_remove [of "gr_ids w" i]
    by (auto simp: gate_inv_def)
qed

lemma gate_step_inv: "gate_inv w \<Longrightarrow> gate_step w w' \<Longrightarrow> gate_inv w'"
proof -
  assume i: "gate_inv w" and "gate_step w w'"
  from \<open>gate_step w w'\<close> show "gate_inv w'"
  proof cases
    case frame then show ?thesis using gate_frame_inv [OF i] by simp
  next
    case joins then show ?thesis using gate_join_inv [OF i] by simp
  next
    case leaves then show ?thesis using gate_leave_inv [OF i] by simp
  qed (use i in \<open>auto simp: gate_inv_def guest_set_outstanding_def guest_mark_skipping_def guest_set_rate_def
      nth_list_update gate_ceiling_bound dest!: set_update_subset_insert [THEN subsetD]\<close>)
qed

interpretation gating: invariant_system gate_start gate_step gate_inv
proof
  show "gate_inv w" if "gate_start w" for w using that by (simp add: gate_start_def gate_inv_def)
qed (rule gate_step_inv)


definition demo_gate :: gate_run where
  "demo_gate = \<lparr>gr_gate = gate_new, gr_guests = [guest_joining (Fin 30)], gr_ids = [0], gr_next = 1, gr_frames = []\<rparr>"

lemma demo_gate_reachable: "reachable gate_start gate_step demo_gate"
proof (rule reach_step)
  show "reachable gate_start gate_step \<lparr>gr_gate = gate_new, gr_guests = [], gr_ids = [], gr_next = 0, gr_frames = []\<rparr>"
    by (rule reach_start) (simp add: gate_start_def)
  show "gate_step \<lparr>gr_gate = gate_new, gr_guests = [], gr_ids = [], gr_next = 0, gr_frames = []\<rparr> demo_gate"
    using joins [of "\<lparr>gr_gate = gate_new, gr_guests = [], gr_ids = [], gr_next = 0, gr_frames = []\<rparr>" "Fin 30"] by (simp add: demo_gate_def MAX_GUESTS_def)
qed



text \<open>
  C28: A guest that fell out of the chain is brought back, and the host asks for a keyframe exactly when that can help.
  A frame goes to a guest exactly when it fits the guest's window and is a keyframe or the guest is not skipping, and a
  guest skips afterwards exactly when it did not get the frame; what is delivered never exceeds the 4000 slots of the
  peer's ring. A keyframe is requested exactly when some skipping guest, still not served by this frame, has room for
  the mark, and no request was made in the last half second (or the clock was replaced). The mark is the largest
  frame of the window running and the one before, this frame included: it is not the frame in hand, and
  when a window of two seconds ends the sizes of the window before the last are forgotten.
\<close>

theorem gate_recovers:
  assumes "reachable gate_start gate_step w"
    and "gate_admit (gr_gate w) fragments keyframe now (gr_guests w) = (g, guests, delivered, ask)"
  shows "(let old = gr_gate w;
          rolled = (case ga_window_began_ms old of None \<Rightarrow> False | Some began \<Rightarrow> flt now began \<or> fle (Fin 2000) (fsub now began));
          mark = (if rolled then max fragments (ga_largest old) else max fragments (max (ga_largest old) (ga_previous old)));
          allowed = (case ga_last_request_ms old of None \<Rightarrow> True | Some t \<Rightarrow> flt now t \<or> fle (Fin 500) (fsub now t))
      in gate_largest g = mark
        \<and> (ask = Request \<longleftrightarrow> allowed \<and> (\<exists>i < length (gr_guests w). gg_pending_keyframe (gr_guests w ! i) \<and> i \<notin> set delivered
              \<and> unat (gg_outstanding (gr_guests w ! i)) + unat mark \<le> unat (gg_ceiling (gr_guests w ! i))))
        \<and> ga_last_request_ms g = (if ask = Request then Some now else ga_last_request_ms old))
    \<and> length guests = length (gr_guests w)
    \<and> (\<forall>i < length guests.
        (i \<in> set delivered \<longleftrightarrow> unat (gg_outstanding (gr_guests w ! i)) + unat fragments \<le> unat (gg_ceiling (gr_guests w ! i))
            \<and> (keyframe \<or> \<not> gg_pending_keyframe (gr_guests w ! i)))
        \<and> (gg_pending_keyframe (guests ! i) \<longleftrightarrow> i \<notin> set delivered)
        \<and> (i \<in> set delivered \<longrightarrow> unat (gg_outstanding (gr_guests w ! i)) + unat fragments \<le> 4000))"
proof -
  let ?old = "gr_gate w"
  define g1 where "g1 = (gate_roll ?old now)\<lparr>ga_largest := max (ga_largest (gate_roll ?old now)) fragments\<rparr>"
  obtain wanted where l: "admit_loop fragments keyframe (gate_largest g1) 0 (gr_guests w) = (guests, delivered, wanted)"
    and a: "(if wanted then request_keyframe g1 now else (g1, NotNeeded)) = (g, ask)"
    using assms(2) unfolding gate_admit_def Let_def g1_def [symmetric] by (auto split: prod.splits)
  define rolled where "rolled = (case ga_window_began_ms ?old of None \<Rightarrow> False | Some began \<Rightarrow> flt now began \<or> fle (Fin 2000) (fsub now began))"
  define mark where "mark = (if rolled then max fragments (ga_largest ?old) else max fragments (max (ga_largest ?old) (ga_previous ?old)))"
  have m1: "gate_largest g1 = mark"
    by (auto simp: g1_def mark_def rolled_def gate_largest_def gate_roll_def gate_elapsed_def MARK_WINDOW_MS_def max_def split: option.split)
  have th: "throttle_allows g1 now \<longleftrightarrow> (case ga_last_request_ms ?old of None \<Rightarrow> True | Some t \<Rightarrow> flt now t \<or> fle (Fin 500) (fsub now t))"
    "ga_last_request_ms g1 = ga_last_request_ms ?old"
    by (auto simp: throttle_allows_def g1_def gate_roll_def gate_elapsed_def KEYFRAME_INTERVAL_MS_def split: option.split)
  have mk: "gate_largest g = mark" using a m1 by (auto simp: request_keyframe_def gate_largest_def split: if_splits)
  have ceil: "unat (gg_ceiling x) \<le> 4000" if "x \<in> set (gr_guests w)" for x
    using gating.reachable_inv [OF assms(1)] that by (simp add: gate_inv_def)
  have room: "has_room_for x n \<longleftrightarrow> unat (gg_outstanding x) + unat n \<le> unat (gg_ceiling x)" if "x \<in> set (gr_guests w)" for x n
    using has_room_unat [OF ceil [OF that]] .
  note d = admit_delivered [OF l]
  have guest: "(i \<in> set delivered \<longleftrightarrow> has_room_for (gr_guests w ! i) fragments \<and> (keyframe \<or> \<not> gg_pending_keyframe (gr_guests w ! i)))
      \<and> (gg_pending_keyframe (guests ! i) \<longleftrightarrow> i \<notin> set delivered)" if "i < length (gr_guests w)" for i
    using d(3,4) [OF that] by (auto simp: admit_guest_def)
  have "wanted \<longleftrightarrow> (\<exists>i < length (gr_guests w). snd (snd (admit_guest fragments keyframe mark (gr_guests w ! i))))"
    using l m1 by (auto simp: admit_loop_eq list_ex_length)
  also have "\<dots> \<longleftrightarrow> (\<exists>i < length (gr_guests w). gg_pending_keyframe (gr_guests w ! i) \<and> i \<notin> set delivered \<and> has_room_for (gr_guests w ! i) mark)"
    using guest by (auto simp: admit_guest_def)
  finally have w: "wanted \<longleftrightarrow> (\<exists>i < length (gr_guests w). gg_pending_keyframe (gr_guests w ! i) \<and> i \<notin> set delivered
      \<and> unat (gg_outstanding (gr_guests w ! i)) + unat mark \<le> unat (gg_ceiling (gr_guests w ! i)))"
    using room by auto
  have ask: "ask = Request \<longleftrightarrow> throttle_allows g1 now \<and> wanted"
      "ga_last_request_ms g = (if ask = Request then Some now else ga_last_request_ms ?old)"
    using a th(2) by (auto simp: request_keyframe_def split: if_splits)
  have "(i \<in> set delivered \<longleftrightarrow> unat (gg_outstanding (gr_guests w ! i)) + unat fragments \<le> unat (gg_ceiling (gr_guests w ! i))
            \<and> (keyframe \<or> \<not> gg_pending_keyframe (gr_guests w ! i)))
        \<and> (gg_pending_keyframe (guests ! i) \<longleftrightarrow> i \<notin> set delivered)
        \<and> (i \<in> set delivered \<longrightarrow> unat (gg_outstanding (gr_guests w ! i)) + unat fragments \<le> 4000)" if "i < length guests" for i
    using that guest room ceil [of "gr_guests w ! i"] d(1) by fastforce
  then show ?thesis
    unfolding Let_def rolled_def [symmetric] mark_def [symmetric] using mk ask w th(1) d(1) by blast
qed

text \<open>
  A guest that joined with room for the whole mark, while a predicted frame goes by: nothing is delivered, a keyframe is
  asked for, and the keyframe that follows brings the guest in.
\<close>

lemma gate_recovers_witness:
  "\<exists>g guests. gate_admit gate_new 40 False (Fin 0) [guest_joining (Fin 30)] = (g, guests, [], Request)
     \<and> ga_last_request_ms g = Some (Fin 0)
     \<and> (\<exists>g' guests' ask. gate_admit g 60 True (Fin 20) guests = (g', guests', [0], ask) \<and> \<not> gg_pending_keyframe (guests' ! 0))"
proof -
  obtain g guests delivered ask where a: "gate_admit gate_new 40 False (Fin 0) [guest_joining (Fin 30)] = (g, guests, delivered, ask)"
    by (cases "gate_admit gate_new 40 False (Fin 0) [guest_joining (Fin 30)]")
  let ?w = "demo_gate\<lparr>gr_gate := g, gr_guests := guests, gr_frames := gr_frames demo_gate @ [(False, (!) (gr_ids demo_gate) ` set delivered)]\<rparr>"
  have r: "reachable gate_start gate_step ?w"
    by (rule reach_step [OF demo_gate_reachable], rule frame [where fragments = 40 and now = "Fin 0" and ask = ask])
      (simp add: demo_gate_def a)
  have f: "gr_gate demo_gate = gate_new" "gr_guests demo_gate = [guest_joining (Fin 30)]" by (simp_all add: demo_gate_def)
  have "gate_admit (gr_gate demo_gate) 40 False (Fin 0) (gr_guests demo_gate) = (g, guests, delivered, ask)" by (simp add: f a)
  note s1 = gate_recovers [OF demo_gate_reachable this, unfolded f]
  have l: "length guests = 1" using s1 by simp
  have p: "delivered = []" "gg_pending_keyframe (guests ! 0)"
    using s1 a by (auto simp: guest_joining_def gate_admit_def Let_def admit_guest_def gate_new_def split: prod.splits)
  have q: "ask = Request" "ga_last_request_ms g = Some (Fin 0)"
    using s1 p(1) by (auto simp: guest_joining_def gate_new_def gate_ceiling_def Let_def)
  have gs: "guests = [guest_joining (Fin 30)]"
    using a by (auto simp: guest_joining_def gate_admit_def Let_def admit_guest_def split: prod.splits if_splits)
  obtain g' guests' delivered' ask' where b: "gate_admit g 60 True (Fin 20) guests = (g', guests', delivered', ask')"
    by (cases "gate_admit g 60 True (Fin 20) guests")
  then have "gate_admit (gr_gate ?w) 60 True (Fin 20) (gr_guests ?w) = (g', guests', delivered', ask')" by simp
  note s2 = gate_recovers [OF r this]
  have "0 \<in> set delivered'" "\<not> gg_pending_keyframe (guests' ! 0)"
    using s2 by (auto simp: gs guest_joining_def gate_ceiling_def)
  moreover have "delivered' = [0]"
    using b calculation(1) by (auto simp: gs gate_admit_def Let_def split: prod.splits if_splits)
  ultimately show ?thesis using a b p q by blast
qed

section \<open>The pointer\<close>

datatype floor_event = FeMoved u32 bool f64 | FeRefreshed u32 f64 | FeReleased u32

text \<open>What guests did with the pointer, latest first.\<close>

inductive floor_step :: "floor_state \<times> floor_event list \<Rightarrow> floor_state \<times> floor_event list \<Rightarrow> bool" where
  moved: "floor_claim f guest owner now = (f', True, told) \<Longrightarrow> floor_step (f, es) (f', FeMoved guest owner now # es)"
| refused: "floor_claim f guest owner now = (f', False, told) \<Longrightarrow> floor_step (f, es) (f', es)"
| refreshed: "floor_step (f, es) (floor_refresh f guest now, FeRefreshed guest now # es)"
| released: "floor_step (f, es) (floor_release f guest, FeReleased guest # es)"

definition floor_start :: "floor_state \<times> floor_event list \<Rightarrow> bool" where
  "floor_start w \<longleftrightarrow> (\<exists>hold announces. floor_announcing True hold announces = Some (fst w) \<and> snd w = [])"

text \<open>Who has the pointer, and since when, read off the events alone.\<close>

fun floor_owner :: "floor_event list \<Rightarrow> (u32 \<times> f64) option" where
  "floor_owner [] = None"
| "floor_owner (FeMoved g _ t # es) = Some (g, t)"
| "floor_owner (FeRefreshed g t # es) = (case floor_owner es of Some (h, s) \<Rightarrow> if h = g then Some (g, t) else Some (h, s) | None \<Rightarrow> None)"
| "floor_owner (FeReleased g # es) = (case floor_owner es of Some (h, s) \<Rightarrow> if h = g then None else Some (h, s) | None \<Rightarrow> None)"

definition floor_fair :: "f64 \<Rightarrow> floor_event list \<Rightarrow> bool" where
  "floor_fair hold es \<longleftrightarrow> (\<forall>ys g t zs h s. es = ys @ FeMoved g False t # zs \<and> floor_owner zs = Some (h, s) \<and> h \<noteq> g \<longrightarrow>
     \<not> flt (fsub t s) hold)"

definition floor_inv :: "floor_state \<times> floor_event list \<Rightarrow> bool" where
  "floor_inv = (\<lambda>(f, es). fl_enabled f \<and> \<not> fl_poisoned f \<and> fle HOLD_MIN_MS (fl_hold_ms f) \<and> fle (fl_hold_ms f) HOLD_MAX_MS
     \<and> fl_holder f = map_option fst (floor_owner es)
     \<and> (\<forall>h s. floor_owner es = Some (h, s) \<longrightarrow> fl_since_ms f = s) \<and> floor_fair (fl_hold_ms f) es)"

lemma floor_fair_Cons:
  "floor_fair hold (e # es) \<longleftrightarrow> floor_fair hold es
     \<and> (\<forall>g t h s. e = FeMoved g False t \<longrightarrow> floor_owner es = Some (h, s) \<longrightarrow> h \<noteq> g \<longrightarrow> \<not> flt (fsub t s) hold)"
  unfolding floor_fair_def Cons_eq_append_conv by blast

lemma floor_step_inv: "floor_inv w \<Longrightarrow> floor_step w w' \<Longrightarrow> floor_inv w'"
proof -
  assume i: "floor_inv w" and "floor_step w w'"
  from \<open>floor_step w w'\<close> show "floor_inv w'"
  proof cases
    case (moved f guest owner now f' told es)
    then show ?thesis using i
      by (cases "floor_owner es") (auto simp: floor_inv_def floor_claim_def floor_fair_Cons split: if_splits)
  next
    case (refused f guest owner now f' told es)
    then show ?thesis using i by (auto simp: floor_inv_def floor_claim_def split: if_splits)
  next
    case (refreshed f es guest now)
    then show ?thesis using i
      by (cases "floor_owner es") (auto simp: floor_inv_def floor_refresh_def floor_fair_Cons split: if_splits)
  next
    case (released f es guest)
    then show ?thesis using i
      by (cases "floor_owner es") (auto simp: floor_inv_def floor_release_def floor_fair_Cons split: if_splits)
  qed
qed

lemma floor_start_inv: "floor_start w \<Longrightarrow> floor_inv w"
proof -
  assume "floor_start w"
  then obtain hold announces where w: "floor_announcing True hold announces = Some (fst w)" "snd w = []"
    by (auto simp: floor_start_def)
  obtain h where h: "(if is_finite hold then fclamp hold HOLD_MIN_MS HOLD_MAX_MS else Some HOLD_MS) = Some h"
    "fst w = \<lparr>fl_enabled = True, fl_announces = announces, fl_hold_ms = h, fl_holder = None, fl_since_ms = Fin 0, fl_poisoned = False\<rparr>"
    using w(1) by (auto simp: floor_announcing_def split: option.splits)
  have "fle HOLD_MIN_MS h \<and> fle h HOLD_MAX_MS"
  proof (cases "is_finite hold")
    case True
    then have "hold \<noteq> NaN" by auto
    then show ?thesis using h(1) True fclamp_bounds by (metis (full_types))
  next
    case False then show ?thesis using h(1) by (auto simp: HOLD_MS_def HOLD_MIN_MS_def HOLD_MAX_MS_def)
  qed
  then show ?thesis using h(2) w(2) by (cases w) (auto simp: floor_inv_def floor_fair_def)
qed

interpretation pointer: invariant_system floor_start floor_step floor_inv
  by unfold_locales (auto intro: floor_start_inv floor_step_inv)

text \<open>
  C29: The pointer is not snatched. In an arbitrated session whose lock is sound, a guest that is not the owner moves the
  pointer away from another guest only when that guest neither moved nor refreshed it for the hold time, which lies
  between 50 and 5000 milliseconds; the recorded holder is always the last guest that moved and has not left.
\<close>

theorem floor_not_snatched:
  assumes "reachable floor_start floor_step (f, es)"
  shows "fle (Fin 50) (fl_hold_ms f) \<and> fle (fl_hold_ms f) (Fin 5000) \<and> fl_holder f = map_option fst (floor_owner es)
    \<and> (es = ys @ FeMoved g False t # zs \<and> floor_owner zs = Some (h, s) \<and> h \<noteq> g \<longrightarrow> \<not> flt (fsub t s) (fl_hold_ms f))"
  using pointer.reachable_inv [OF assms]
  by (simp add: floor_inv_def floor_fair_def HOLD_MIN_MS_def HOLD_MAX_MS_def) blast

definition demo_floor :: floor_state where
  "demo_floor = \<lparr>fl_enabled = True, fl_announces = False, fl_hold_ms = Fin 500, fl_holder = None, fl_since_ms = Fin 0,
     fl_poisoned = False\<rparr>"

lemma demo_floor_new: "floor_announcing True (Fin 500) False = Some demo_floor"
  by (simp add: floor_announcing_def demo_floor_def fclamp_def HOLD_MIN_MS_def HOLD_MAX_MS_def Let_def)

lemma floor_not_snatched_witness:
  "\<exists>f. reachable floor_start floor_step (f, [FeMoved 2 False (Fin 600), FeMoved 1 True (Fin 0)]) \<and> \<not> flt (fsub (Fin 600) (Fin 0)) (fl_hold_ms f)"
proof -
  let ?f1 = "demo_floor\<lparr>fl_holder := Some 1, fl_since_ms := Fin 0\<rparr>" and ?f2 = "demo_floor\<lparr>fl_holder := Some 2, fl_since_ms := Fin 600\<rparr>"
  have 0: "reachable floor_start floor_step (demo_floor, [])"
    by (rule reach_start) (auto simp: floor_start_def intro: demo_floor_new)
  have c: "floor_claim demo_floor 1 True (Fin 0) = (?f1, True, [])" "floor_claim ?f1 2 False (Fin 600) = (?f2, True, [])"
    by (simp_all add: floor_claim_def demo_floor_def fsub_def)
  have 1: "reachable floor_start floor_step (?f1, [FeMoved 1 True (Fin 0)])" by (rule reach_step [OF 0]) (rule moved [OF c(1)])
  have 2: "reachable floor_start floor_step (?f2, [FeMoved 2 False (Fin 600), FeMoved 1 True (Fin 0)])"
    by (rule reach_step [OF 1]) (rule moved [OF c(2)])
  show ?thesis using 2 floor_not_snatched [OF 2, of "[]" 2 "Fin 600" "[FeMoved 1 True (Fin 0)]" 1 "Fin 0"] by auto
qed

section \<open>The shared rate\<close>

lemma fdiv_any_ceiling: "m \<noteq> NaN \<Longrightarrow> fle m (fmax x m)"
  by (cases x; cases m) (auto simp: fmax_def)

definition budget_inv :: "budget \<times> controller list \<Rightarrow> bool" where
  "budget_inv = (\<lambda>(b, cs). bu_min_mbps b \<noteq> NaN
     \<and> (\<forall>c \<in> set cs. controller_inv c \<and> ct_min_mbps c = bu_min_mbps b \<and> ct_max_mbps c = budget_ceiling b))"

text \<open>Every change of the room or of the configuration, with real rates, and every frame.\<close>

inductive budget_step :: "budget \<times> controller list \<Rightarrow> budget \<times> controller list \<Rightarrow> bool" where
  room: "(\<forall>c \<in> set fresh. controller_start c) \<Longrightarrow> budget_rebound b guests (cs @ fresh) = (b', cs') \<Longrightarrow>
     budget_step (b, cs) (b', cs')"
| left: "budget_rebound b guests (filter P cs) = (b', cs') \<Longrightarrow> budget_step (b, cs) (b', cs')"
| sound: "budget_set_audio b audio cs = (b', cs') \<Longrightarrow> budget_step (b, cs) (b', cs')"
| configured: "lo \<noteq> NaN \<Longrightarrow> budget_reconfigure b rate lo cs = (b', cs') \<Longrightarrow> budget_step (b, cs) (b', cs')"
| ticked: "budget_tick b cs samples = Some (b', cs', out) \<Longrightarrow> budget_step (b, cs) (b', cs')"

definition budget_start :: "budget \<times> controller list \<Rightarrow> bool" where
  "budget_start w \<longleftrightarrow> (\<exists>rate lo. lo \<noteq> NaN \<and> w = (budget_new rate lo, []))"

lemma budget_ceiling_min: "bu_min_mbps b \<noteq> NaN \<Longrightarrow> fle (bu_min_mbps b) (budget_ceiling b)"
  by (simp add: budget_ceiling_def Let_def fdiv_any_ceiling)

lemma rebound_inv:
  assumes "bu_min_mbps b \<noteq> NaN" "\<forall>c \<in> set cs. controller_inv c"
  shows "budget_inv (budget_rebound b guests cs)"
  using assms budget_ceiling_min [of "b\<lparr>bu_guests := guests\<rparr>"]
  by (auto simp: budget_inv_def budget_rebound_def Let_def set_bounds_inv) (auto simp: set_bounds_def Let_def)

lemma budget_ticks_ok:
  assumes "\<forall>c \<in> set cs. controller_inv c \<and> ct_min_mbps c = lo \<and> ct_max_mbps c = hi"
    "\<forall>r. best = Some r \<longrightarrow> fle lo r \<and> fle r hi"
  shows "\<exists>cs' out. budget_ticks cs ss best = Some (cs', out)
    \<and> (\<forall>c \<in> set cs'. controller_inv c \<and> ct_min_mbps c = lo \<and> ct_max_mbps c = hi)
    \<and> (\<forall>r. out = Some r \<longrightarrow> fle lo r \<and> fle r hi)"
  using assms
proof (induction cs ss best rule: budget_ticks.induct)
  case (1 c cs s ss best)
  obtain c' r where t: "tick c (rs_window s) (rs_stale s) (rs_measured_mbps s) = (c', Some r)" "fle lo r" "fle r hi"
    "controller_inv c'" "ct_min_mbps c' = lo" "ct_max_mbps c' = hi"
    using tick_bounded [of c "rs_window s" "rs_stale s" "rs_measured_mbps s"] 1(2) by auto
  let ?b = "case best of Some current \<Rightarrow> fmin current r | None \<Rightarrow> r"
  have "fle lo ?b \<and> fle ?b hi"
    using t(2,3) 1(3) by (auto simp: fmin_def split: option.split)
  then obtain cs' out where "budget_ticks cs ss (Some ?b) = Some (cs', out)"
    "\<forall>c \<in> set cs'. controller_inv c \<and> ct_min_mbps c = lo \<and> ct_max_mbps c = hi" "\<forall>r. out = Some r \<longrightarrow> fle lo r \<and> fle r hi"
    using 1(1) [OF t(1) [symmetric] refl] 1(2) by auto
  then show ?case using t by simp
qed auto

lemma budget_step_inv: "budget_inv w \<Longrightarrow> budget_step w w' \<Longrightarrow> budget_inv w'"
proof -
  assume i: "budget_inv w" and "budget_step w w'"
  from \<open>budget_step w w'\<close> show "budget_inv w'"
  proof cases
    case (room fresh b guests cs b' cs')
    have "\<forall>c \<in> set (cs @ fresh). controller_inv c"
      using room i controller_sys.start_inv by (auto simp: budget_inv_def)
    then show ?thesis using rebound_inv [of b "cs @ fresh" guests] room i by (auto simp: budget_inv_def)
  next
    case (left b guests P cs b' cs')
    then show ?thesis using rebound_inv [of b "filter P cs" guests] i by (auto simp: budget_inv_def)
  next
    case (sound b audio cs b' cs')
    then show ?thesis using rebound_inv [of "b\<lparr>bu_audio_mbps := fmax audio (Fin 0)\<rparr>" cs "bu_guests b"] i
      by (auto simp: budget_inv_def budget_set_audio_def)
  next
    case (configured lo b rate cs b' cs')
    have "fmin lo rate \<noteq> NaN" using configured(3) by (simp add: fmin_not_NaN)
    then show ?thesis using rebound_inv [of "b\<lparr>bu_configured_mbps := rate, bu_min_mbps := fmin lo rate\<rparr>" cs "bu_guests b"] configured i
      by (auto simp: budget_inv_def budget_reconfigure_def)
  next
    case (ticked b cs samples b' cs' out)
    have c: "\<forall>c \<in> set cs. controller_inv c \<and> ct_min_mbps c = bu_min_mbps b \<and> ct_max_mbps c = budget_ceiling b"
      using i ticked(1) by (simp add: budget_inv_def)
    from budget_ticks_ok [OF c, of None samples] show ?thesis using ticked i
      by (auto simp: budget_inv_def budget_tick_def budget_ceiling_def split: option.splits if_splits)
  qed
qed

interpretation budgeting: invariant_system budget_start budget_step budget_inv
proof
  show "budget_inv w" if "budget_start w" for w using that by (auto simp: budget_start_def budget_inv_def budget_new_def)
qed (rule budget_step_inv)

text \<open>
  C33: The encoder's rate stays within the budget. However guests come and go, sound and configuration change and whatever
  the transport measures, the floor is below the per-guest ceiling, a frame's tick never panics, and a rate it hands to
  the encoder lies between the floor and the ceiling and differs from the applied one by more than the deadband.
\<close>

theorem budget_rate_bounded:
  assumes "reachable budget_start budget_step (b, cs)"
  shows "fle (bu_min_mbps b) (budget_ceiling b)
    \<and> (\<exists>b' cs' out. budget_tick b cs samples = Some (b', cs', out)
        \<and> (\<forall>r. out = Some r \<longrightarrow> fle (bu_min_mbps b) r \<and> fle r (budget_ceiling b) \<and> bu_applied_mbps b' = r
             \<and> \<not> fle (fabs (fsub r (bu_applied_mbps b))) DEADBAND_MBPS))"
proof -
  have i: "budget_inv (b, cs)" by (rule budgeting.reachable_inv) (rule assms)
  then have c: "\<forall>c \<in> set cs. controller_inv c \<and> ct_min_mbps c = bu_min_mbps b \<and> ct_max_mbps c = budget_ceiling b"
    by (simp add: budget_inv_def)
  obtain cs' out where "budget_ticks cs samples None = Some (cs', out)" "\<forall>r. out = Some r \<longrightarrow> fle (bu_min_mbps b) r \<and> fle r (budget_ceiling b)"
    using budget_ticks_ok [OF c, of None samples] by auto
  then show ?thesis using i budget_ceiling_min [of b] by (cases out) (auto simp: budget_tick_def budget_inv_def)
qed

lemma budget_rate_bounded_witness:
  "\<exists>b c b' cs' out. reachable budget_start budget_step (b, [c])
     \<and> budget_tick b [c] [\<lparr>rs_window = 200, rs_stale = 100, rs_measured_mbps = NaN\<rparr>] = Some (b', cs', out)
     \<and> (\<forall>r. out = Some r \<longrightarrow> fle r (budget_ceiling b))"
proof -
  let ?c = "controller_new 1 (Fin 3) (Fin 50)"
  have 0: "reachable budget_start budget_step (budget_new (Fin 30) (Fin 3), [])"
    by (rule reach_start) (auto simp: budget_start_def)
  have "controller_start ?c" unfolding controller_start_def by (intro exI conjI) auto
  then have fresh: "\<forall>c \<in> set [?c]. controller_start c" by simp
  obtain b cs where o: "budget_rebound (budget_new (Fin 30) (Fin 3)) 1 ([] @ [?c]) = (b, cs)" by fastforce
  then obtain c where cs: "cs = [c]" by (auto simp: budget_rebound_def Let_def)
  have r: "reachable budget_start budget_step (b, [c])"
    by (rule reach_step [OF 0], rule room [OF fresh]) (use o cs in simp)
  from budget_rate_bounded [OF r, of "[\<lparr>rs_window = 200, rs_stale = 100, rs_measured_mbps = NaN\<rparr>]"] r show ?thesis by blast
qed

end
