(* ===== verification/Spec2Isabelle.thy ===== *)
theory Spec2Isabelle
  imports Ring_Transfer Send_Once Pmtu Endpoint_Properties Delivery_Properties Media_Properties Init_Wire Png_Properties
    Control_Properties Transport_Ack Migration_Properties Connect_Properties Scheduler_Properties Host_Properties
begin

text \<open>
  \<^bold>\<open>OpenStream's low-latency protocol core and the state machines around it, verified.\<close>

  The program. OpenStream streams a desktop over UDP. Its protocol core is a sans-IO library
  (\<open>engine/lowlat/crates/core\<close>) with a policy crate beside it (\<open>engine/lowlat/crates/transport-policy\<close>):
  no sockets, no threads, no clock of its own. The shell feeds datagrams and times in and carries
  datagrams out. An endpoint punches a path with connectivity checks, then runs an encrypted session over
  it: nineteen channels of fragmented messages, acknowledgements, pacing, a rate controller and a path-MTU
  search. Beside it stands the portable stack of the other clients: a session of its own with a replay window
  (\<open>crates/protocol\<close>), an ordered control channel, transport acknowledgements, a scheduler and a path migration
  controller (\<open>crates/client-core\<close>). A broker in the signalling server introduces hosts and clients, and policies
  in the host decide who gets a frame, who holds the pointer and at what rate the encoder runs. This
  development models these operation by operation and proves what they promise.

  \<^bold>\<open>Theories, bottom up, and the sources they model.\<close>

  \<^item> \<open>Prelude\<close>: machine integers, checked slices, byte order, reachability and the two locales shared by
    all components, \<open>invariant_system\<close> (a transition system with an inductive invariant) and
    \<open>wire_codec\<close> (a parser that reads what an encoder wrote). \<open>F64\<close>: IEEE binary64 over the rationals with
    round to nearest even, infinities and NaN; the sources keep times, rates and credits in doubles.
  \<^item> \<open>Core_Base\<close>: \<open>error.rs\<close>, \<open>lib.rs\<close>, \<open>seq.rs\<close>, \<open>crc32.rs\<close>, \<open>demux.rs\<close>. \<open>Packet\<close>: \<open>packet.rs\<close>.
    \<open>Message\<close>: \<open>message.rs\<close>.
  \<^item> \<open>Recv_Ring\<close> and \<open>Recv_Delivery\<close>: \<open>channel.rs\<close>. \<open>Send_Ring\<close>, \<open>Send_Delivery\<close> and \<open>Send_Once\<close>:
    \<open>send.rs\<close>. \<open>Ring_Transfer\<close> composes the two rings over the packet format.
  \<^item> \<open>Policy\<close>: \<open>transport-policy/src/lib.rs\<close>, the token bucket and the stale-ratio controller, which
    \<open>pacer.rs\<close> and \<open>congestion.rs\<close> re-export. \<open>Delivery\<close> and \<open>Delivery_Properties\<close>:
    \<open>transport-policy/src/delivery.rs\<close>, the packet-delivery estimator.
  \<^item> \<open>Pmtu\<close>: \<open>pmtu.rs\<close>. \<open>Envelope\<close>: \<open>envelope.rs\<close>.
  \<^item> \<open>Session\<close>, \<open>Session_Inv\<close>, \<open>Session_Delivery\<close>, \<open>Session_Properties\<close>: \<open>session.rs\<close>.
  \<^item> \<open>Stun\<close> and \<open>Stun_Codec\<close>: \<open>stun.rs\<close>. \<open>Conn\<close>, \<open>Conn_Inv\<close>, \<open>Conn_Properties\<close>: \<open>conn.rs\<close>.
  \<^item> \<open>Endpoint\<close> and \<open>Endpoint_Properties\<close>: \<open>endpoint.rs\<close>, the composition of punch, session and
    path-MTU controller.
  \<^item> \<open>Media_Wire\<close> and \<open>Media_Properties\<close>: \<open>control.rs\<close>, \<open>video.rs\<close>, \<open>audio.rs\<close>, \<open>microphone.rs\<close>,
    \<open>cursor.rs\<close>. \<open>Init_Wire\<close>: \<open>init.rs\<close>. \<open>Png\<close> and \<open>Png_Properties\<close>: \<open>png.rs\<close>.
  \<^item> \<open>Os_Session\<close> over \<open>Counter_Window\<close> (the bitmap of recent counters): key derivation, transcripts, sealing and
    opening in \<open>protocol/src/lib.rs\<close>. \<open>Control_Channel\<close> and \<open>Control_Properties\<close>: its \<open>control\<close> module and
    \<open>ReliableControl\<close> of \<open>client-core/src/lib.rs\<close>. \<open>Transport_Ack\<close>: \<open>protocol/src/transport_meta.rs\<close> and
    \<open>client-core/src/transport_ack.rs\<close>. \<open>Path_Control\<close>: \<open>protocol/src/path_control.rs\<close>.
  \<^item> \<open>Migration\<close> and \<open>Migration_Properties\<close>: \<open>client-core/src/path.rs\<close>. \<open>Scheduler\<close> and
    \<open>Scheduler_Properties\<close>: \<open>client-core/src/scheduler.rs\<close>.
  \<^item> \<open>Connect_Broker\<close> and \<open>Connect_Properties\<close>: \<open>signal-server/src/connect.rs\<close>. \<open>Host_Policies\<close> and
    \<open>Host_Properties\<close>: \<open>gate.rs\<close>, \<open>floor.rs\<close> and \<open>rate.rs\<close> of \<open>crates/host\<close>.

  \<^bold>\<open>Conventions of the model.\<close> A struct is a record, an enum a datatype, a method a function from the state
  and arguments to the new state and the result; \<open>Result\<close> is a sum with the error on the left. Words keep
  their width: wrapping, saturating and checked operations are written out where the source uses them.
  \<open>usize\<close> is a natural number with the checked operations of a 64-bit target. A slot table is a list of
  options. An encoder takes the caller's buffer and returns it as written; what a buffer holds after an
  error is not modelled, since no caller reads it. Debug assertions are not modelled. Negative zero is
  identified with zero, which no comparison of the sources can tell apart. A hash map is an association list,
  and the broker's steps may permute it, so nothing depends on an iteration order. Instants are natural
  numbers of nanoseconds in the broker and the migration controller, doubles of milliseconds elsewhere, as
  the sources have them. Calls of a callback become the list of what it was called with.

  \<^bold>\<open>Parameters.\<close> AES-GCM is the parameter \<open>A\<close> of sealing and opening; \<open>aead_ok\<close> says that it keeps lengths
  and that opening undoes sealing under the same key, nonce and associated data. HMAC-SHA1 and SHA-1 are
  the parameter \<open>D\<close> (\<open>digests_ok\<close>: digests have twenty bytes). Every property that assumes these
  contracts has an instance with concrete functions (\<open>demo_aead\<close>, \<open>demo_digests\<close>). For the portable session X25519
  and SHA-256 are the parameter \<open>X\<close> with \<open>x_ok\<close> (both ends compute the same secret, keys and secrets have 32 bytes); where keys
  of the two directions must differ, the one hypothesis is that the digest does not collide on the strings
  derived in that exchange. The digest of an account name in the broker and the delivery-history test of the
  scheduler are parameters without hypotheses. That a forger cannot
  produce a tag or a digest is not assumed anywhere; the properties say what was verified, not what an
  attacker can compute.

  \<^bold>\<open>What is shown.\<close>

  \<^item> Rings: any order and multiplicity of arrivals delivers every message whole, once and in order
    (\<open>recv_any_order_delivery\<close>, \<open>recv_no_partial_message\<close>, \<open>transfer_any_order\<close>), the receive ring refines
    a map from sequence numbers to fragments, the send ring refines a queue and never emits what was not
    queued; over any run of it a fragment is fast-retransmitted at most once in its life.
  \<^item> Envelope and session: sealing and opening round trip; over any interleaving no nonce repeats, at
    either end; reflected and damaged records change nothing; every datagram fits the path and is accepted
    by the peer; path changes and black-hole recovery are all or nothing over the same attached rings; paced
    video never overdraws; keepalives leave.
  \<^item> Path MTU: the search reaches the largest size the path carries and stops.
  \<^item> Punch: a path is always an address that was checked and that answered under the peer's password; a
    verdict is final; two ends with matching credentials complete a handshake.
  \<^item> Endpoint: controller and session agree on the path size in every reachable state, recovery from a black
    hole is all or nothing, and every datagram is routed by the peer to the engine it is meant for.
  \<^item> Policy: the preflights are exact, the rate stays in its bounds; the delivery estimator accounts for
    every tracked packet exactly once, and an acknowledgement retires exactly what it names.
  \<^item> Formats: encoders and parsers round trip, verification of a check is equality with the sealed message,
    initialization reads every flat object, and the cursor writer writes the prescribed PNG, with its checksums
    equal to bit-serial CRC-32 and closed-form Adler-32.
  \<^item> Portable session: the ends' keys mirror each other, and every datagram is delivered at most once.
    Control channel: what one peer submits the other delivers in order, exactly once, and every delivering
    round makes progress. Acknowledgements name exactly what was received. Path-control records are exact.
  \<^item> Migration: host and client agree on the active path over a network that loses, repeats and reorders, and
    a migration whose records arrive completes. Scheduler: every class is a queue that never reorders,
    critical packets are never lost, and video is served under any priority load.
  \<^item> Broker: credentials reach only the parties they are for, an approved request can be collected as often as
    they ask for a minute, and the tables stay within their caps. Host: a guest never decodes across a gap,
    a keyframe is asked for exactly when it can bring a guest back, the pointer is not snatched, and the
    shared rate stays in bounds.

  State machines are \<open>inductive\<close> step relations with one rule per call of the shell, and their invariants
  are lifted to all reachable states by interpreting \<open>invariant_system\<close>. In the endpoint the shell may use
  the session in every way that leaves the path size to the controller, which is the discipline
  \<open>endpoint.rs\<close> documents.

  \<^bold>\<open>Bounds and termination.\<close> Loops are structural or have a measure; the inner loop of the PNG writer is a
  partial function and the property shows that it ends. Two regimes of the sequence space are
  treated: inside a window that does not cross the 32-bit wrap the rings refine their abstract
  specifications; across it \<open>recv_wrap_alias\<close> and \<open>send_sequence_max_jams\<close> show what the code does instead.
  Accounting of the estimator is stated for fewer than \<open>2 ^ 64\<close> packets of one generation, below which its
  counters do not saturate. The control channel's sequence numbers wrap; its properties let the network hold a
  frame back for at most \<open>CTL_WINDOW\<close> = \<open>2 ^ 30\<close> messages, half of what serial comparison can tell apart. The
  session call under \<open>ReliableControl\<close> is taken to succeed; when it fails the source reports an error and the
  caller ends the session.

  \<^bold>\<open>Not modelled.\<close> The signalling server's HTTP handlers and relay, the rest of the hosts and of \<open>client-core\<close>,
  capture and encoding, the socket shell, the sockets behind a path (\<open>PeerPath\<close>, \<open>PathRuntime\<close>) and the desktop
  application: they are threads, devices, services and bindings around the calls modelled here. The media
  helpers, settings, capability planning and local IPC are pure enough to follow later. Within the core
  the \<open>Display\<close> and \<open>Debug\<close> renderings and the disconnect status constants are left out; Ed25519 signatures over
  the modelled transcripts are the library's.
\<close>

end
